(* ===== verification/Moz_Prelude.thy ===== *)
theory Moz_Prelude
  imports Main "HOL-Library.Word" "HOL-Library.Signed_Division" "HOL-Library.Monad_Syntax"
begin

text \<open>
  What the component theories share: the C machine they all run on.

  \<^item> Bytes are \<open>8 word\<close>, \<open>PRUint32\<close> is \<open>32 word\<close>, \<open>PRUword\<close> is \<open>64 word\<close> (an LP64 target).
  \<^item> An object in memory (an array of bytes) is a list; \<open>rd\<close> and \<open>wr\<close> are the C accesses
    \<open>p[i]\<close> and \<open>p[i] = v\<close>. An access outside the object is undefined behaviour in C and the
    value \<open>None\<close> here, so a result \<open>Some r\<close> also says that the execution was free of
    out-of-bounds accesses. Sequences of accesses use the option monad.
  \<^item> A pointer that may be null is an option: \<open>None\<close> is the null pointer.
  \<^item> Signed C integers are \<open>int\<close>; storing into a variable of width 8, 16, 32 or 64 applies
    \<open>i8\<close>, \<open>i16\<close>, \<open>i32\<close>, \<open>i64\<close> (two's complement). C's truncating \<open>/\<close> and \<open>%\<close> are
    \<open>sdiv\<close> and \<open>smod\<close> of HOL-Library.
  \<^item> The C library functions the sources call (\<open>strlen\<close>, \<open>strncmp\<close>, ...) are defined here, on
    a buffer and an offset into it.
\<close>

unbundle bit_operations_syntax

type_synonym byte = "8 word"
type_synonym u32 = "32 word"
type_synonym uword = "64 word"
type_synonym buf = "byte list"
type_synonym 'a ptr = "'a option"
type_synonym 'a exec = "'a option"

named_theorems c_simps \<open>equations of memory accesses that stay in bounds\<close>
named_theorems c_defs \<open>definitions that unfold one C statement\<close>

section \<open>Memory\<close>

definition rd :: "'a list \<Rightarrow> nat \<Rightarrow> 'a exec" where
  "rd b i = (if i < length b then Some (b ! i) else None)"

definition wr :: "'a list \<Rightarrow> nat \<Rightarrow> 'a \<Rightarrow> 'a list exec" where
  "wr b i v = (if i < length b then Some (b[i := v]) else None)"

lemma rd_ok [c_simps]: "i < length b \<Longrightarrow> rd b i = Some (b ! i)"
  by (simp add: rd_def)

lemma wr_ok [c_simps]: "i < length b \<Longrightarrow> wr b i v = Some (b[i := v])"
  by (simp add: wr_def)

lemma rd_eq_Some: "rd b i = Some v \<longleftrightarrow> i < length b \<and> b ! i = v"
  by (auto simp: rd_def)

lemma wr_eq_Some: "wr b i v = Some b' \<longleftrightarrow> i < length b \<and> b' = b[i := v]"
  by (auto simp: wr_def)

lemma rd_Cons_0 [simp]: "rd (x # xs) 0 = Some x"
  by (simp add: rd_def)

lemma rd_Cons_Suc [simp]: "rd (x # xs) (Suc i) = rd xs i"
  by (simp add: rd_def)

lemma rd_Nil [simp]: "rd [] i = None"
  by (simp add: rd_def)

text \<open>A block of bytes at an offset: the region \<open>b[i..<i+n]\<close>, and the object after a copy of
  \<open>xs\<close> to offset \<open>i\<close> (what \<open>memcpy\<close> leaves).\<close>

definition overlay :: "'a list \<Rightarrow> nat \<Rightarrow> 'a list \<Rightarrow> 'a list" where
  "overlay b i xs = take i b @ xs @ drop (i + length xs) b"

lemma overlay_Nil [simp]: "overlay b i [] = b"
  by (simp add: overlay_def)

lemma length_overlay: "i + length xs \<le> length b \<Longrightarrow> length (overlay b i xs) = length b"
  by (simp add: overlay_def)

lemma overlay_all: "length xs = length b \<Longrightarrow> overlay b 0 xs = xs"
  by (simp add: overlay_def)

lemma overlay_Cons:
  assumes "i < length b"
  shows "overlay b i (x # xs) = overlay (b[i := x]) (Suc i) xs"
proof -
  have t: "take (Suc i) (b[i := x]) = take i b @ [x]"
    using assms by (simp add: take_Suc_conv_app_nth)
  show ?thesis by (simp add: overlay_def t)
qed

lemma overlay_append:
  assumes "i + length xs \<le> length b"
  shows "overlay (overlay b i xs) (i + length xs) ys = overlay b i (xs @ ys)"
proof -
  have t: "take (i + length xs) (overlay b i xs) = take i b @ xs"
    using assms by (simp add: overlay_def)
  have "drop (i + length xs + length ys) (overlay b i xs) = drop (i + length xs + length ys) b"
    using assms by (simp add: overlay_def min_def add.commute add.left_commute)
  with t show ?thesis
    by (simp add: overlay_def [of "overlay b i xs"] overlay_def [of b i "xs @ ys"] add.assoc)
qed

lemma take_overlay: "i + length xs \<le> length b \<Longrightarrow> take (i + length xs) (overlay b i xs) = take i b @ xs"
  by (simp add: overlay_def)

lemma drop_overlay:
  "i + length xs \<le> length b \<Longrightarrow> drop (i + length xs) (overlay b i xs) = drop (i + length xs) b"
  by (simp add: overlay_def)

section \<open>Executions that return\<close>

text \<open>\<open>wpx x Q\<close>: the execution \<open>x\<close> is defined and its result satisfies \<open>Q\<close>. The rules in \<open>wp\<close> walk
  through a sequence of statements.\<close>

named_theorems wp \<open>introduction rules for executions\<close>

definition wpx :: "'a exec \<Rightarrow> ('a \<Rightarrow> bool) \<Rightarrow> bool" where
  "wpx x Q \<longleftrightarrow> (\<exists>v. x = Some v \<and> Q v)"

lemma wpx_Some [wp]: "Q v \<Longrightarrow> wpx (Some v) Q"
  by (simp add: wpx_def)

lemma wpx_bind [wp]: "wpx x (\<lambda>v. wpx (f v) Q) \<Longrightarrow> wpx (Option.bind x f) Q"
  by (auto simp: wpx_def)

lemma wpx_if [wp]: "(c \<Longrightarrow> wpx x Q) \<Longrightarrow> (\<not> c \<Longrightarrow> wpx y Q) \<Longrightarrow> wpx (if c then x else y) Q"
  by simp

lemma wpx_case_prod [wp]: "(\<And>a b. p = (a, b) \<Longrightarrow> wpx (f a b) Q) \<Longrightarrow> wpx (case p of (a, b) \<Rightarrow> f a b) Q"
  by (cases p) simp

lemma wpx_case_option [wp]:
  "(z = None \<Longrightarrow> wpx x Q) \<Longrightarrow> (\<And>a. z = Some a \<Longrightarrow> wpx (f a) Q) \<Longrightarrow> wpx (case z of None \<Rightarrow> x | Some a \<Rightarrow> f a) Q"
  by (cases z) simp_all

lemma wpx_Let [wp]: "wpx (f v) Q \<Longrightarrow> wpx (let x = v in f x) Q"
  by simp

lemma wpx_conseq: "wpx x P \<Longrightarrow> (\<And>v. P v \<Longrightarrow> Q v) \<Longrightarrow> wpx x Q"
  by (auto simp: wpx_def)

lemma wpx_rd: "i < length b \<Longrightarrow> Q (b ! i) \<Longrightarrow> wpx (rd b i) Q"
  by (simp add: wpx_def rd_ok)

section \<open>Signed integers\<close>

definition i8 :: "int \<Rightarrow> int" where "i8 x = signed_take_bit 7 x"
definition i16 :: "int \<Rightarrow> int" where "i16 x = signed_take_bit 15 x"
definition i32 :: "int \<Rightarrow> int" where "i32 x = signed_take_bit 31 x"
definition i64 :: "int \<Rightarrow> int" where "i64 x = signed_take_bit 63 x"

lemma i8_id [c_simps]: "-128 \<le> x \<Longrightarrow> x \<le> 127 \<Longrightarrow> i8 x = x"
  by (simp add: i8_def signed_take_bit_int_eq_self)

lemma i16_id [c_simps]: "-32768 \<le> x \<Longrightarrow> x \<le> 32767 \<Longrightarrow> i16 x = x"
  by (simp add: i16_def signed_take_bit_int_eq_self)

lemma i32_id [c_simps]: "-2147483648 \<le> x \<Longrightarrow> x \<le> 2147483647 \<Longrightarrow> i32 x = x"
  by (simp add: i32_def signed_take_bit_int_eq_self)

lemma i64_id [c_simps]:
  "-9223372036854775808 \<le> x \<Longrightarrow> x \<le> 9223372036854775807 \<Longrightarrow> i64 x = x"
  by (simp add: i64_def signed_take_bit_int_eq_self)

text \<open>C's division rounds towards zero; on operands that are not negative it is \<open>div\<close>.\<close>

lemma sdiv_nonneg [c_simps]: "0 \<le> a \<Longrightarrow> 0 < b \<Longrightarrow> (a::int) sdiv b = a div b"
  by (cases "a = 0") (simp_all add: signed_divide_int_def)

lemma smod_nonneg [c_simps]: "0 \<le> a \<Longrightarrow> 0 < b \<Longrightarrow> (a::int) smod b = a mod b"
  by (cases "a = 0") (simp_all add: signed_modulo_int_def)

lemma sdiv_neg: "a < 0 \<Longrightarrow> 0 < b \<Longrightarrow> (a::int) sdiv b = - ((- a) div b)"
  by (simp add: signed_divide_int_def)

lemma smod_neg: "a < 0 \<Longrightarrow> 0 < b \<Longrightarrow> (a::int) smod b = - ((- a) mod b)"
  by (simp add: signed_modulo_int_def)

text \<open>The idiom \<open>q = x / m; r = x % m; if (r < 0) { r += m; q--; }\<close> is floor division.\<close>

lemma floor_div_idiom:
  assumes "0 < (m::int)"
  shows "(if x smod m < 0 then x sdiv m - 1 else x sdiv m) = x div m"
    and "(if x smod m < 0 then x smod m + m else x smod m) = x mod m"
proof -
  have "(if x smod m < 0 then x sdiv m - 1 else x sdiv m) = x div m \<and>
        (if x smod m < 0 then x smod m + m else x smod m) = x mod m"
  proof (cases "0 \<le> x")
    case True
    then show ?thesis using assms
      by (simp add: sdiv_nonneg smod_nonneg not_less)
  next
    case False
    then have n: "x < 0" by simp
    have z: "x div m = - ((- x) div m) - (if (- x) mod m = 0 then 0 else 1)"
      using assms zdiv_zminus1_eq_if [of m "- x"] by simp
    have w: "x mod m = (if (- x) mod m = 0 then 0 else m - (- x) mod m)"
      using zmod_zminus1_eq_if [of "- x" m] by simp
    have "0 < (- x) mod m \<or> (- x) mod m = 0"
      using pos_mod_sign [OF assms, of "- x"] by linarith
    then show ?thesis
      using assms n z w by (auto simp: sdiv_neg smod_neg)
  qed
  then show "(if x smod m < 0 then x sdiv m - 1 else x sdiv m) = x div m"
    and "(if x smod m < 0 then x smod m + m else x smod m) = x mod m" by simp_all
qed

section \<open>C strings\<close>

text \<open>\<open>bytes_of\<close> gives the bytes of a string literal, without its terminating NUL.\<close>

definition bytes_of :: "string \<Rightarrow> buf" where
  "bytes_of s = map of_char s"

definition chr_of :: "char \<Rightarrow> byte" where
  "chr_of c = of_char c"

text \<open>\<open>strlen\<close> of the string that starts at the head of the object.\<close>

fun c_strlen :: "buf \<Rightarrow> nat exec" where
  "c_strlen [] = None"
| "c_strlen (x # xs) = (if x = 0 then Some 0 else do { n \<leftarrow> c_strlen xs; Some (Suc n) })"

definition has_nul :: "buf \<Rightarrow> bool" where
  "has_nul b \<longleftrightarrow> 0 \<in> set b"

text \<open>The characters of the string stored in a buffer, up to its first NUL.\<close>

definition cstr :: "buf \<Rightarrow> buf" where
  "cstr b = takeWhile (\<lambda>x. x \<noteq> 0) b"

lemma c_strlen_eq: "c_strlen b = (if has_nul b then Some (length (cstr b)) else None)"
  by (induction b) (auto simp: has_nul_def cstr_def)

lemma c_strlen_Some: "c_strlen b = Some n \<longleftrightarrow> has_nul b \<and> n = length (cstr b)"
  by (auto simp: c_strlen_eq)

lemma has_nul_length: "has_nul b \<Longrightarrow> length (cstr b) < length b"
  by (induction b) (auto simp: has_nul_def cstr_def)

lemma has_nul_nth: "has_nul b \<Longrightarrow> b ! length (cstr b) = 0"
  by (induction b) (auto simp: has_nul_def cstr_def)

lemma cstr_nth: "i < length (cstr b) \<Longrightarrow> b ! i = cstr b ! i"
  unfolding cstr_def by (simp add: takeWhile_nth)

lemma cstr_nth_nonzero: "i < length (cstr b) \<Longrightarrow> b ! i \<noteq> 0"
  using nth_mem [of i "cstr b"] by (auto simp: cstr_def takeWhile_nth dest: set_takeWhileD)

lemma cstr_nonzero: "x \<in> set (cstr b) \<Longrightarrow> x \<noteq> 0"
  by (auto simp: cstr_def dest: set_takeWhileD)

lemma cstr_eq_take: "cstr b = take (length (cstr b)) b"
  unfolding cstr_def by (rule takeWhile_eq_take)

lemma cstr_append_0: "0 \<notin> set s \<Longrightarrow> cstr (s @ 0 # r) = s"
  by (induction s) (auto simp: cstr_def)

lemma has_nul_append_0 [simp]: "has_nul (s @ 0 # r)"
  by (simp add: has_nul_def)

lemma has_nul_decomp: "has_nul b \<Longrightarrow> b = cstr b @ 0 # drop (Suc (length (cstr b))) b"
proof -
  assume n: "has_nul b"
  have "b = take (length (cstr b)) b @ b ! length (cstr b) # drop (Suc (length (cstr b))) b"
    using has_nul_length [OF n] by (rule id_take_nth_drop)
  then show ?thesis using has_nul_nth [OF n] cstr_eq_take [of b] by simp
qed

lemma cstr_drop: "i \<le> length (cstr b) \<Longrightarrow> cstr (drop i b) = drop i (cstr b)"
proof (induction b arbitrary: i)
  case Nil
  then show ?case by (simp add: cstr_def)
next
  case (Cons x xs)
  then show ?case by (cases i) (auto simp: cstr_def split: if_splits)
qed

lemma has_nul_drop: "has_nul b \<Longrightarrow> i \<le> length (cstr b) \<Longrightarrow> has_nul (drop i b)"
proof (induction b arbitrary: i)
  case Nil
  then show ?case by (simp add: has_nul_def)
next
  case (Cons x xs)
  then show ?case by (cases i) (auto simp: has_nul_def cstr_def split: if_splits)
qed

text \<open>\<open>strcmp\<close> of the C library: the sign of the first difference, the bytes taken unsigned. The end of
  a list is the terminator.\<close>

fun c_strcmp :: "byte list \<Rightarrow> byte list \<Rightarrow> int" where
  "c_strcmp [] [] = 0"
| "c_strcmp [] (b # bs) = (if b = 0 then 0 else -1)"
| "c_strcmp (a # as) [] = (if a = 0 then 0 else 1)"
| "c_strcmp (a # as) (b # bs) =
     (if a = b then if a = 0 then 0 else c_strcmp as bs else if a < b then -1 else 1)"

lemma strcmp_eq_iff: "c_strcmp a b = 0 \<longleftrightarrow> cstr a = cstr b"
  by (induction a b rule: c_strcmp.induct) (auto simp: cstr_def)

section \<open>Scanning a string\<close>

text \<open>\<open>while (P(*p)) p++;\<close>\<close>

function skip_while :: "(byte \<Rightarrow> bool) \<Rightarrow> buf \<Rightarrow> nat \<Rightarrow> nat exec" where
  "skip_while P b i = do { c \<leftarrow> rd b i; if P c then skip_while P b (Suc i) else Some i }"
  by pat_completeness auto
termination by (relation "measure (\<lambda>(P, b, i). length b - i)") (auto simp: rd_eq_Some)

declare skip_while.simps [simp del]

lemma skip_while_range: "skip_while P b i = Some j \<Longrightarrow> i \<le> j \<and> j < length b"
proof (induction P b i rule: skip_while.induct)
  case (1 P b i)
  then show ?case by (subst (asm) (2) skip_while.simps) (auto simp: rd_eq_Some split: if_splits bind_splits)
qed

definition nul :: "buf \<Rightarrow> nat" where "nul b = length (cstr b)"

lemma rd_nul:
  assumes "has_nul b" "i \<le> nul b"
  shows "rd b i = Some (b ! i)" "b ! i = 0 \<longleftrightarrow> i = nul b"
proof -
  have l: "nul b < length b" using has_nul_length [OF assms(1)] by (simp add: nul_def)
  show "rd b i = Some (b ! i)" using l assms(2) by (simp add: rd_ok)
  show "b ! i = 0 \<longleftrightarrow> i = nul b"
    using has_nul_nth [OF assms(1)] cstr_nth_nonzero [of i b] assms(2) by (auto simp: nul_def le_less)
qed

lemma rd_nul_next:
  assumes "has_nul b" "i \<le> nul b" "b ! i \<noteq> 0"
  shows "Suc i \<le> nul b"
  using rd_nul(2) [OF assms(1,2)] assms(2,3) by simp

lemma wpx_rd_nul:
  assumes "has_nul b" "i \<le> nul b" "(b ! i \<noteq> 0 \<Longrightarrow> Suc i \<le> nul b) \<Longrightarrow> Q (b ! i)"
  shows "wpx (rd b i) Q"
  using assms(3) rd_nul_next [OF assms(1,2)] rd_nul(1) [OF assms(1,2)] by (simp add: wpx_def)

lemma wpx_skip_while:
  assumes "has_nul b" "i \<le> nul b" "\<not> P 0"
    and "\<And>j. i \<le> j \<Longrightarrow> j \<le> nul b \<Longrightarrow> \<not> P (b ! j) \<Longrightarrow> (P (b ! i) \<Longrightarrow> i < j) \<Longrightarrow> Q j"
  shows "wpx (skip_while P b i) Q"
proof -
  have "\<exists>j. skip_while P b i = Some j \<and> i \<le> j \<and> j \<le> nul b \<and> \<not> P (b ! j) \<and> (P (b ! i) \<longrightarrow> i < j)"
    using assms(2)
  proof (induction "nul b - i" arbitrary: i rule: less_induct)
    case less
    note r = rd_nul [OF assms(1) less(2)]
    show ?case
    proof (cases "P (b ! i)")
      case False
      then show ?thesis using less(2) r by (simp add: skip_while.simps)
    next
      case True
      then have lt: "i < nul b" using r assms(3) less(2) by (metis le_neq_implies_less)
      then have "\<exists>j. skip_while P b (Suc i) = Some j \<and> Suc i \<le> j \<and> j \<le> nul b \<and> \<not> P (b ! j) \<and> (P (b ! Suc i) \<longrightarrow> Suc i < j)"
        by (intro less(1)) simp_all
      then show ?thesis using True r by (auto simp: skip_while.simps [of P b i])
    qed
  qed
  then show ?thesis using assms(4) by (auto simp: wpx_def)
qed

section \<open>Allocation\<close>

text \<open>What \<open>malloc\<close> promises: a block it returns has the size asked for; its contents are arbitrary.\<close>

definition malloc_ok :: "(nat \<Rightarrow> buf ptr) \<Rightarrow> bool" where
  "malloc_ok malloc \<longleftrightarrow> (\<forall>n b. malloc n = Some b \<longrightarrow> length b = n)"

section \<open>Bits of bytes\<close>

lemma bit_byte_out: "8 \<le> n \<Longrightarrow> \<not> bit (x :: byte) n"
  using bit_imp_le_length [of x n] by auto

lemma less_8_cases:
  "n < (8::nat) \<Longrightarrow> n = 0 \<or> n = 1 \<or> n = 2 \<or> n = 3 \<or> n = 4 \<or> n = 5 \<or> n = 6 \<or> n = 7"
  by auto

lemma byte_eqI:
  assumes "bit x 0 = bit y 0" "bit x 1 = bit y 1" "bit x 2 = bit y 2" "bit x 3 = bit y 3"
    "bit x 4 = bit y 4" "bit x 5 = bit y 5" "bit x 6 = bit y 6" "bit x 7 = bit y 7"
  shows "x = (y :: byte)"
proof (rule bit_word_eqI)
  fix n assume "n < LENGTH(8)"
  then have "n < 8" by simp
  then show "bit x n = bit y n" using assms less_8_cases [of n] by auto
qed

lemma unat_byte_less: "unat (x :: byte) < 256"
  using unsigned_less [of x, where ?'a = nat] by simp

lemma unat_u32_less: "unat (x :: u32) < 4294967296"
  using unsigned_less [of x, where ?'a = nat] by simp

lemma unat_word_of_nat_u32: "n < 4294967296 \<Longrightarrow> unat (word_of_nat n :: u32) = n"
  by (simp add: unsigned_of_nat take_bit_nat_eq_self)

section \<open>Bit fields as arithmetic\<close>

lemma unat_push_bit: "unat (push_bit k x) = unat (x :: 'a::len word) * 2 ^ k mod 2 ^ LENGTH('a)"
proof -
  have "unat (push_bit k x) = take_bit LENGTH('a) (push_bit k (unat x))"
    by (rule unsigned_push_bit_eq)
  then show ?thesis
    by (simp only: push_bit_eq_mult [where ?'a = nat] take_bit_eq_mod [where ?'a = nat])
qed

lemma unat_and_mask: "unat (x AND mask k) = unat (x :: 'a::len word) mod 2 ^ k"
proof -
  have "unat (take_bit k x) = take_bit k (unat x)" by (rule unsigned_take_bit_eq)
  then show ?thesis by (simp only: take_bit_eq_mask [symmetric] take_bit_eq_mod [of k "unat x"])
qed

lemma unat_drop_bit: "unat (drop_bit j x) = unat (x :: 'a::len word) div 2 ^ j"
  by (simp only: unat_drop_bit_eq drop_bit_eq_div [of j "unat x"])

lemma or_eq_add_low:
  assumes "unat (y :: 'a::len word) < 2 ^ k"
  shows "push_bit k x OR y = push_bit k x + y"
proof (rule disjunctive_add [symmetric])
  fix n
  show "\<not> bit (push_bit k x) n \<or> \<not> bit y n"
  proof (cases "n < k")
    case True then show ?thesis by (simp add: bit_push_bit_iff)
  next
    case False
    have "drop_bit k (unat y) = 0" using assms by (simp add: drop_bit_eq_div)
    then have "\<not> bit (unat y) n" using False
      by (metis bit_drop_bit_eq bit_0_eq bot_apply bot_bool_def comp_apply le_add_diff_inverse linorder_not_less)
    then show ?thesis by (simp add: bit_unsigned_iff)
  qed
qed

lemma unat_shl_or:
  assumes "unat (y :: 'a::len word) < 2 ^ k" "(unat x + 1) * 2 ^ k \<le> 2 ^ LENGTH('a)"
  shows "unat (push_bit k x OR y) = unat x * 2 ^ k + unat y"
proof -
  have "unat x * 2 ^ k + 2 ^ k \<le> 2 ^ LENGTH('a)" using assms(2) by (simp add: algebra_simps)
  then have m: "unat x * 2 ^ k + unat y < 2 ^ LENGTH('a)" using assms(1) by linarith
  then have "unat (push_bit k x) = unat x * 2 ^ k"
    by (simp add: unat_push_bit)
  with m or_eq_add_low [OF assms(1)] show ?thesis by (simp add: unat_word_ariths)
qed

lemma unat_ucast_byte: "unat (ucast (x :: byte) :: u32) = unat x"
  using unat_byte_less [of x] by (simp add: unsigned_ucast_eq take_bit_nat_eq_self)

lemma mask_literals:
  "(0x3F :: 'a::len word) = mask 6" "(0xFF :: 'a::len word) = mask 8"
  "(0x0F :: 'a::len word) = mask 4" "(0x03 :: 'a::len word) = mask 2"
  by (simp_all add: mask_eq_exp_minus_1)

end
