(* ===== verification/Moz_Base64.thy ===== *)
theory Moz_Base64
  imports Moz_Prelude
begin

text \<open>
  \<open>src/nsprpub/lib/libc/src/base64.c\<close>: NSPR's base64 encoder and decoder, one definition per C
  function. Source and destination are byte objects with an offset; \<open>malloc\<close> is a parameter
  that returns the fresh object's (arbitrary) initial bytes or the null pointer. The reference
  definitions \<open>b64\<close> and \<open>b64_dec\<close> say on lists and natural numbers what the two loops compute;
  the lemmas show that the loops compute it in place, stay inside their buffers, and that the
  two directions are inverse.
\<close>

section \<open>Encoder\<close>

definition base :: buf where
  "base = bytes_of ''ABCDEFGHIJKLMNOPQRSTUVWXYZabcdefghijklmnopqrstuvwxyz0123456789+/''"

text \<open>The two loops of \<open>encode3to4\<close>: three bytes are shifted into a 32-bit word, then four 6-bit
  digits are taken from it, at \<open>j = 18, 12, 6, 0\<close>.\<close>

fun gather3 :: "buf \<Rightarrow> nat \<Rightarrow> nat \<Rightarrow> u32 \<Rightarrow> u32 exec" where
  "gather3 src s 0 b32 = Some b32"
| "gather3 src s (Suc i) b32 = do {
     x \<leftarrow> rd src s;
     gather3 src (s + 1) i (push_bit 8 b32 OR ucast x) }"

fun put_digits :: "u32 \<Rightarrow> nat list \<Rightarrow> buf \<Rightarrow> nat \<Rightarrow> buf exec" where
  "put_digits b32 [] dest d = Some dest"
| "put_digits b32 (j # js) dest d = do {
     c \<leftarrow> rd base (unat (drop_bit j b32 AND 0x3F));
     dest \<leftarrow> wr dest d c;
     put_digits b32 js dest (d + 1) }"

definition encode3to4 :: "buf \<Rightarrow> nat \<Rightarrow> buf \<Rightarrow> nat \<Rightarrow> buf exec" where
  "encode3to4 src s dest d = do {
     b32 \<leftarrow> gather3 src s 3 0;
     put_digits b32 [18, 12, 6, 0] dest d }"

definition encode2to4 :: "buf \<Rightarrow> nat \<Rightarrow> buf \<Rightarrow> nat \<Rightarrow> buf exec" where
  "encode2to4 src s dest d = do {
     x0 \<leftarrow> rd src s;
     c0 \<leftarrow> rd base (unat (drop_bit 2 x0 AND 0x3F));
     dest \<leftarrow> wr dest d c0;
     x1 \<leftarrow> rd src (s + 1);
     c1 \<leftarrow> rd base (unat (push_bit 4 (x0 AND 0x03) OR (drop_bit 4 x1 AND 0x0F)));
     dest \<leftarrow> wr dest (d + 1) c1;
     c2 \<leftarrow> rd base (unat (push_bit 2 (x1 AND 0x0F)));
     dest \<leftarrow> wr dest (d + 2) c2;
     wr dest (d + 3) (chr_of CHR ''='') }"

definition encode1to4 :: "buf \<Rightarrow> nat \<Rightarrow> buf \<Rightarrow> nat \<Rightarrow> buf exec" where
  "encode1to4 src s dest d = do {
     x0 \<leftarrow> rd src s;
     c0 \<leftarrow> rd base (unat (drop_bit 2 x0 AND 0x3F));
     dest \<leftarrow> wr dest d c0;
     c1 \<leftarrow> rd base (unat (push_bit 4 (x0 AND 0x03)));
     dest \<leftarrow> wr dest (d + 1) c1;
     dest \<leftarrow> wr dest (d + 2) (chr_of CHR ''='');
     wr dest (d + 3) (chr_of CHR ''='') }"

fun encode :: "buf \<Rightarrow> nat \<Rightarrow> nat \<Rightarrow> buf \<Rightarrow> nat \<Rightarrow> buf exec" where
  "encode src s srclen dest d =
     (if 3 \<le> srclen
      then do { dest \<leftarrow> encode3to4 src s dest d; encode src (s + 3) (srclen - 3) dest (d + 4) }
      else if srclen = 2 then encode2to4 src s dest d
      else if srclen = 1 then encode1to4 src s dest d
      else Some dest)"

declare encode.simps [simp del]

text \<open>The length argument when it is 0: the length of the C string, or \<open>None\<close> when that does
  not fit 32 bits (the code of both entry points).\<close>

definition b64_srclen :: "buf \<Rightarrow> u32 \<Rightarrow> u32 option exec" where
  "b64_srclen src srclen =
     (if srclen = 0
      then do { len \<leftarrow> c_strlen src;
                let srclen = word_of_nat len;
                Some (if unat srclen \<noteq> len then None else Some srclen) }
      else Some (Some srclen))"

definition PL_Base64Encode ::
    "(nat \<Rightarrow> buf ptr) \<Rightarrow> buf \<Rightarrow> u32 \<Rightarrow> buf ptr \<Rightarrow> buf ptr exec" where
  "PL_Base64Encode malloc src srclen dest = do {
     sl \<leftarrow> b64_srclen src srclen;
     case sl of None \<Rightarrow> Some None
     | Some srclen \<Rightarrow>
        (case dest of
           None \<Rightarrow>
             (if srclen > (0xFFFFFFFF div 4) * 3 then Some None
              else let destlen = ((srclen + 2) div 3) * 4 in
                case malloc (unat (destlen + 1)) of
                  None \<Rightarrow> Some None
                | Some dest \<Rightarrow> do {
                    dest \<leftarrow> wr dest (unat destlen) 0;
                    dest \<leftarrow> encode src 0 (unat srclen) dest 0;
                    Some (Some dest) })
         | Some dest \<Rightarrow> do {
             dest \<leftarrow> encode src 0 (unat srclen) dest 0;
             Some (Some dest) }) }"

section \<open>Decoder\<close>

datatype PRStatus = PR_SUCCESS | PR_FAILURE

definition codetovalue :: "byte \<Rightarrow> int" where
  "codetovalue c =
     (if chr_of CHR ''A'' \<le> c \<and> c \<le> chr_of CHR ''Z'' then uint (c - chr_of CHR ''A'')
      else if chr_of CHR ''a'' \<le> c \<and> c \<le> chr_of CHR ''z'' then uint (c - chr_of CHR ''a'') + 26
      else if chr_of CHR ''0'' \<le> c \<and> c \<le> chr_of CHR ''9'' then uint (c - chr_of CHR ''0'') + 52
      else if c = chr_of CHR ''+'' then 62
      else if c = chr_of CHR ''/'' then 63
      else -1)"

text \<open>The loop of \<open>decode4to3\<close>; \<open>Some None\<close> is its early return of \<open>PR_FAILURE\<close>.\<close>

fun gather4 :: "buf \<Rightarrow> nat \<Rightarrow> nat \<Rightarrow> u32 \<Rightarrow> u32 option exec" where
  "gather4 src s 0 b32 = Some (Some b32)"
| "gather4 src s (Suc i) b32 = do {
     c \<leftarrow> rd src s;
     let bits = codetovalue c;
     if bits < 0 then Some None
     else gather4 src (s + 1) i (push_bit 6 b32 OR word_of_int bits) }"

definition decode4to3 :: "buf \<Rightarrow> nat \<Rightarrow> buf \<Rightarrow> nat \<Rightarrow> (PRStatus \<times> buf) exec" where
  "decode4to3 src s dest d = do {
     g \<leftarrow> gather4 src s 4 0;
     case g of None \<Rightarrow> Some (PR_FAILURE, dest)
     | Some b32 \<Rightarrow> do {
         dest \<leftarrow> wr dest d (ucast (drop_bit 16 b32 AND 0xFF));
         dest \<leftarrow> wr dest (d + 1) (ucast (drop_bit 8 b32 AND 0xFF));
         dest \<leftarrow> wr dest (d + 2) (ucast (b32 AND 0xFF));
         Some (PR_SUCCESS, dest) } }"

definition decode3to2 :: "buf \<Rightarrow> nat \<Rightarrow> buf \<Rightarrow> nat \<Rightarrow> (PRStatus \<times> buf) exec" where
  "decode3to2 src s dest d = do {
     c0 \<leftarrow> rd src s;
     if codetovalue c0 < 0 then Some (PR_FAILURE, dest) else do {
     let b32 = (word_of_int (codetovalue c0) :: u32);
     let b32 = push_bit 6 b32;
     c1 \<leftarrow> rd src (s + 1);
     if codetovalue c1 < 0 then Some (PR_FAILURE, dest) else do {
     let b32 = b32 OR word_of_int (codetovalue c1);
     let b32 = push_bit 4 b32;
     c2 \<leftarrow> rd src (s + 2);
     if codetovalue c2 < 0 then Some (PR_FAILURE, dest) else do {
     let ubits = (word_of_int (codetovalue c2) :: u32);
     let b32 = b32 OR drop_bit 2 ubits;
     dest \<leftarrow> wr dest d (ucast (drop_bit 8 b32 AND 0xFF));
     dest \<leftarrow> wr dest (d + 1) (ucast (b32 AND 0xFF));
     Some (PR_SUCCESS, dest) }}}}"

definition decode2to1 :: "buf \<Rightarrow> nat \<Rightarrow> buf \<Rightarrow> nat \<Rightarrow> (PRStatus \<times> buf) exec" where
  "decode2to1 src s dest d = do {
     c0 \<leftarrow> rd src s;
     if codetovalue c0 < 0 then Some (PR_FAILURE, dest) else do {
     let ubits = (word_of_int (codetovalue c0) :: u32);
     let b32 = push_bit 2 ubits;
     c1 \<leftarrow> rd src (s + 1);
     if codetovalue c1 < 0 then Some (PR_FAILURE, dest) else do {
     let ubits = (word_of_int (codetovalue c1) :: u32);
     let b32 = b32 OR drop_bit 4 ubits;
     dest \<leftarrow> wr dest d (ucast b32);
     Some (PR_SUCCESS, dest) }}}"

fun decode :: "buf \<Rightarrow> nat \<Rightarrow> nat \<Rightarrow> buf \<Rightarrow> nat \<Rightarrow> (PRStatus \<times> buf) exec" where
  "decode src s srclen dest d =
     (if 4 \<le> srclen
      then do { (rv, dest) \<leftarrow> decode4to3 src s dest d;
                if rv \<noteq> PR_SUCCESS then Some (PR_FAILURE, dest)
                else decode src (s + 4) (srclen - 4) dest (d + 3) }
      else if srclen = 3 then decode3to2 src s dest d
      else if srclen = 2 then decode2to1 src s dest d
      else if srclen = 1 then Some (PR_FAILURE, dest)
      else Some (PR_SUCCESS, dest))"

declare decode.simps [simp del]

text \<open>The trailing \<open>=\<close> signs are dropped only when the length is a multiple of four.\<close>

definition b64_unpad :: "buf \<Rightarrow> u32 \<Rightarrow> u32 exec" where
  "b64_unpad src srclen =
     (if srclen \<noteq> 0 \<and> srclen AND 3 = 0
      then do {
        c \<leftarrow> rd src (unat (srclen - 1));
        if c = chr_of CHR ''='' then do {
          c' \<leftarrow> rd src (unat (srclen - 2));
          Some (if c' = chr_of CHR ''='' then srclen - 2 else srclen - 1) }
        else Some srclen }
      else Some srclen)"

text \<open>The result: the returned pointer (its object), and the caller's destination object, which
  a failing call may have written to.\<close>

definition PL_Base64Decode ::
    "(nat \<Rightarrow> buf ptr) \<Rightarrow> buf ptr \<Rightarrow> u32 \<Rightarrow> buf ptr \<Rightarrow> (buf ptr \<times> buf ptr) exec" where
  "PL_Base64Decode malloc srcp srclen dest =
     (case srcp of None \<Rightarrow> Some (None, dest)
      | Some src \<Rightarrow> do {
         sl \<leftarrow> b64_srclen src srclen;
         case sl of None \<Rightarrow> Some (None, dest)
         | Some srclen \<Rightarrow> do {
            srclen \<leftarrow> b64_unpad src srclen;
            case dest of
              None \<Rightarrow>
                (let destlen = (srclen div 4) * 3 + ((srclen mod 4) * 3) div 4 in
                 case malloc (unat (destlen + 1)) of
                   None \<Rightarrow> Some (None, None)
                 | Some b \<Rightarrow> do {
                     b \<leftarrow> wr b (unat destlen) 0;
                     (status, b) \<leftarrow> decode src 0 (unat srclen) b 0;
                     Some (if status \<noteq> PR_SUCCESS then (None, None) else (Some b, None)) })
            | Some b \<Rightarrow> do {
                (status, b) \<leftarrow> decode src 0 (unat srclen) b 0;
                Some (if status \<noteq> PR_SUCCESS then (None, Some b) else (Some b, Some b)) } } })"

section \<open>Reference encoding\<close>

text \<open>RFC 4648 on natural numbers: the 24-bit value of three bytes, read as four digits to the
  base 64.\<close>

definition b64_char :: "nat \<Rightarrow> byte" where
  "b64_char v = base ! (v mod 64)"

fun b64 :: "byte list \<Rightarrow> byte list" where
  "b64 [] = []"
| "b64 [a] = (let v = unat a * 16 in
     [b64_char (v div 64), b64_char v, chr_of CHR ''='', chr_of CHR ''=''])"
| "b64 [a, b] = (let v = (unat a * 256 + unat b) * 4 in
     [b64_char (v div 4096), b64_char (v div 64), b64_char v, chr_of CHR ''=''])"
| "b64 (a # b # c # xs) = (let v = unat a * 65536 + unat b * 256 + unat c in
     b64_char (v div 262144) # b64_char (v div 4096) # b64_char (v div 64) # b64_char v # b64 xs)"

text \<open>The value of a character is its position in the alphabet.\<close>

definition b64_val :: "byte \<Rightarrow> nat option" where
  "b64_val c = (let i = length (takeWhile (\<lambda>x. x \<noteq> c) base) in if i < length base then Some i else None)"

fun b64_dec :: "byte list \<Rightarrow> byte list option" where
  "b64_dec [] = Some []"
| "b64_dec [a] = None"
| "b64_dec [a, b] = do {
     x \<leftarrow> b64_val a; y \<leftarrow> b64_val b;
     Some [word_of_nat ((x * 64 + y) div 16)] }"
| "b64_dec [a, b, c] = do {
     x \<leftarrow> b64_val a; y \<leftarrow> b64_val b; z \<leftarrow> b64_val c;
     let v = (x * 4096 + y * 64 + z) div 4;
     Some [word_of_nat (v div 256), word_of_nat v] }"
| "b64_dec (a # b # c # e # cs) = do {
     x \<leftarrow> b64_val a; y \<leftarrow> b64_val b; z \<leftarrow> b64_val c; w \<leftarrow> b64_val e;
     let v = x * 262144 + y * 4096 + z * 64 + w;
     r \<leftarrow> b64_dec cs;
     Some (word_of_nat (v div 65536) # word_of_nat (v div 256) # word_of_nat v # r) }"

text \<open>Padded texts: one or two \<open>=\<close> signs may follow the digits when they fill the last group of four.\<close>

definition b64_padded :: "byte list \<Rightarrow> byte list option" where
  "b64_padded cs =
     (let digits = takeWhile (\<lambda>c. c \<noteq> chr_of CHR ''='') cs; rest = drop (length digits) cs in
      if rest = [] \<or> length cs mod 4 = 0 \<and> rest \<in> {bytes_of ''='', bytes_of ''==''} then b64_dec digits else None)"

section \<open>The loops compute the reference encoding\<close>

lemma rd_base: "rd base (n mod 64) = Some (b64_char n)"
  by (simp add: rd_def base_def b64_char_def bytes_of_def)

lemma gather3_step: "(unat (b32::u32) + 1) * 256 \<le> 4294967296 \<Longrightarrow> unat (push_bit 8 b32 OR ucast (x::byte)) = unat b32 * 256 + unat x"
  by (subst unat_shl_or) (use unat_byte_less [of x] in \<open>simp_all add: unat_ucast_byte\<close>)

lemma gather3_val:
  assumes "s + 2 < length src"
  shows "\<exists>b32. gather3 src s 3 0 = Some b32 \<and>
    unat b32 = unat (src ! s) * 65536 + unat (src ! (s + 1)) * 256 + unat (src ! (s + 2))"
proof -
  note less = unat_byte_less [of "src ! s"] unat_byte_less [of "src ! (s+1)"]
  show ?thesis
  using assms less
  by (simp add: numeral_3_eq_3 rd_ok gather3_step unat_ucast_byte del: push_bit_or)
qed

lemma put_digits_ok:
  "d + length js \<le> length dest \<Longrightarrow>
   put_digits b32 js dest d = Some (overlay dest d (map (\<lambda>j. b64_char (unat b32 div 2 ^ j)) js))"
proof (induction js arbitrary: dest d)
  case Nil then show ?case by simp
next
  case (Cons j js)
  have "rd base (unat (drop_bit j b32 AND 0x3F)) = Some (b64_char (unat b32 div 2 ^ j))"
    unfolding mask_literals unat_and_mask unat_drop_bit using rd_base by simp
  with Cons show ?case by (simp add: wr_ok overlay_Cons)
qed

lemma encode3to4_ok:
  assumes "s + 2 < length src" "d + 3 < length dest"
  shows "encode3to4 src s dest d = Some (overlay dest d (b64 [src ! s, src ! (s+1), src ! (s+2)]))"
  using gather3_val [OF assms(1)] assms(2)
  by (auto simp: encode3to4_def put_digits_ok Let_def simp del: put_digits.simps)



lemma shl4_mod: "((a::nat) * 16 + k) mod 64 = (a mod 4 * 16 + k) mod 64"
proof -
  have "a * 16 + k = (a mod 4 * 16 + k) + 64 * (a div 4)"
    using div_mult_mod_eq [of a 4] by linarith
  then show ?thesis by (simp only: mod_mult_self2)
qed
lemma tail2: assumes "b < 256" shows "(((a::nat)*256+b)*4) div 4096 = a div 4"
   "(((a::nat)*256+b)*4) div 64 mod 64 = (a mod 4 * 16 + b div 16) mod 64"
   "(((a::nat)*256+b)*4) mod 64 = b mod 16 * 4 mod 64"
proof -
  let ?x = "a * 256 + b"
  have "?x * 4 div 4096 = ?x div 256 div 4" by (simp add: div_mult2_eq [symmetric])
  then show "?x*4 div 4096 = a div 4" using assms by simp
  have "?x = 16 * (a * 16) + b" by simp
  then have "?x div 16 = a * 16 + b div 16" by (simp only: div_mult_self4)
  then show "(((a::nat)*256+b)*4) div 64 mod 64 = (a mod 4 * 16 + b div 16) mod 64"
    using shl4_mod [of a "b div 16"] div_mult_mult2 [of 4 "?x" 16] by simp
  define q r where "q = b div 16" and "r = b mod 16"
  then have b: "b = q * 16 + r" by simp
  have "?x * 4 = r * 4 + 64 * (a * 16 + q)" unfolding b by simp
  then have "?x * 4 mod 64 = r * 4 mod 64" by (simp only: mod_mult_self2)
  then show "?x*4 mod 64 = b mod 16 * 4 mod 64" by (simp only: r_def)
qed
lemma digits4: 
  assumes "(v::nat) < 16777216"
  shows "(v div 262144 mod 64) * 262144 + (v div 4096 mod 64) * 4096 + (v div 64 mod 64) * 64 + v mod 64 = v"
proof -
  let ?q = "v div 64"
  have 1: "v div 4096 = ?q div 64" "v div 262144 = ?q div 64 div 64"
    by (simp_all add: div_mult2_eq [symmetric])
  have "v div 262144 < 64" using assms by simp
  then have "?q div 64 div 64 mod 64 = ?q div 64 div 64" using 1 by simp
  then show ?thesis unfolding 1
    using div_mult_mod_eq [of v 64] div_mult_mod_eq [of ?q 64] div_mult_mod_eq [of "?q div 64" 64]
    by linarith
qed
lemma sixbits: "unat (drop_bit 2 x AND 0x3F) = unat (x::byte) div 4" 
 "unat (push_bit 4 (x AND 0x03)) = unat (x::byte) mod 4 * 16"
 "unat (push_bit 2 (x AND 0x0F)) = unat (x::byte) mod 16 * 4"
 "unat (push_bit 4 (x AND 0x03) OR (drop_bit 4 y AND 0x0F)) = unat (x::byte) mod 4 * 16 + unat (y::byte) div 16"
  unfolding mask_literals
  subgoal using unat_byte_less [of x] by (simp add: unat_and_mask unat_drop_bit)
  subgoal by (simp add: unat_and_mask unat_push_bit del: push_bit_and)
  subgoal by (simp add: unat_and_mask unat_push_bit del: push_bit_and)
  subgoal using unat_byte_less [of y]
    by (subst unat_shl_or) (simp_all add: unat_and_mask unat_push_bit unat_drop_bit)
  done

lemma rd_base': "n < 64 \<Longrightarrow> rd base n = Some (b64_char n)"
  using rd_base [of n] by simp

lemma b64_char_cong: "m mod 64 = n mod 64 \<Longrightarrow> b64_char m = b64_char n"
  by (simp add: b64_char_def)

lemma b64_2: "b64 [a, b] = [b64_char (unat a div 4), b64_char (unat a mod 4 * 16 + unat b div 16),
    b64_char (unat b mod 16 * 4), chr_of CHR ''='']"
  using tail2 [OF unat_byte_less [of b], of "unat a"] by (simp add: Let_def b64_char_def)

lemma b64_1: "b64 [a] = [b64_char (unat a div 4), b64_char (unat a mod 4 * 16), 
   chr_of CHR ''='', chr_of CHR ''='']"
  using shl4_mod [of "unat a" 0] by (simp add: Let_def b64_char_def)

lemma encode2to4_ok:
  assumes "s + 1 < length src" "d + 3 < length dest"
  shows "encode2to4 src s dest d = Some (overlay dest d (b64 [src ! s, src ! (s+1)]))"
  using assms unat_byte_less [of "src ! s"] unat_byte_less [of "src ! (s+1)"]
  unfolding b64_2 encode2to4_def sixbits
  by (simp add: rd_base' rd_ok wr_ok overlay_Cons numeral_3_eq_3)

lemma encode1to4_ok:
  assumes "s < length src" "d + 3 < length dest"
  shows "encode1to4 src s dest d = Some (overlay dest d (b64 [src ! s]))"
  using assms unat_byte_less [of "src ! s"]
  unfolding b64_1 encode1to4_def sixbits
  by (simp add: rd_base' rd_ok wr_ok overlay_Cons numeral_3_eq_3)

lemma length_b64: "length (b64 xs) = 4 * ((length xs + 2) div 3)"
proof (induction xs rule: b64.induct)
  case (4 a b c xs)
  have "(length (a # b # c # xs) + 2) div 3 = Suc ((length xs + 2) div 3)" by simp
  with 4 show ?case by (simp add: Let_def)
qed (simp_all add: Let_def)

lemma take_drop_step:
  "s < length src \<Longrightarrow> take (Suc n) (drop s src) = src ! s # take n (drop (Suc s) src)"
  by (simp add: Cons_nth_drop_Suc [symmetric])

lemma encode_ok:
  "s + n \<le> length src \<Longrightarrow> d + 4 * ((n + 2) div 3) \<le> length dest \<Longrightarrow>
   encode src s n dest d = Some (overlay dest d (b64 (take n (drop s src))))"
proof (induction n arbitrary: s dest d rule: less_induct)
  case (less n)
  consider (ge) "3 \<le> n" | (two) "n = 2" | (one) "n = 1" | (zero) "n = 0" by linarith
  then show ?case
  proof cases
    case ge
    then obtain m where m: "n = Suc (Suc (Suc m))" using less_iff_Suc_add[of 2 n] by auto
    let ?g = "b64 [src ! s, src ! (s + 1), src ! (s + 2)]"
    have "(n + 2) div 3 = Suc ((m + 2) div 3)" using m by simp
    then have dv: "4 * ((n + 2) div 3) = 4 + 4 * ((m + 2) div 3)" by simp
    have l4: "length ?g = 4" by (simp add: Let_def)
    have e: "encode3to4 src s dest d = Some (overlay dest d ?g)"
      using less.prems dv m by (intro encode3to4_ok) simp_all
    have len: "length (overlay dest d ?g) = length dest"
      using less.prems dv l4 by (intro length_overlay) simp
    have ih: "encode src (s + 3) m (overlay dest d ?g) (d + 4) =
       Some (overlay (overlay dest d ?g) (d + 4) (b64 (take m (drop (s + 3) src))))"
      using less.prems dv m len by (intro less.IH) simp_all
    have "overlay (overlay dest d ?g) (d + 4) (b64 (take m (drop (s + 3) src))) =
          overlay dest d (?g @ b64 (take m (drop (s + 3) src)))"
      using overlay_append [of d ?g dest] less.prems dv l4 by simp
    moreover
    have "take n (drop s src) = src ! s # src ! (s + 1) # src ! (s + 2) # take m (drop (s + 3) src)"
      using less.prems(1) m by (simp add: take_drop_step numeral_3_eq_3)
    then have "?g @ b64 (take m (drop (s + 3) src)) = b64 (take n (drop s src))"
      by (simp add: Let_def)
    ultimately show ?thesis using ge e ih m
      by (simp add: encode.simps [of src s])
  next
    case two
    then show ?thesis using less.prems
      by (simp add: encode.simps [of src s] encode2to4_ok numeral_2_eq_2 take_drop_step del: b64.simps)
  next
    case one
    then show ?thesis using less.prems
      by (simp add: encode.simps [of src s] encode1to4_ok take_drop_step del: b64.simps)
  next
    case zero then show ?thesis by (simp add: encode.simps [of src s])
  qed
qed



lemma codetovalue_range: "-1 \<le> codetovalue c \<and> codetovalue c < 64"
proof -
  have sub: "uint (c - k) = uint c - uint k" if "k \<le> c" for k
    using that by (simp add: uint_minus_simple_alt)
  show ?thesis
    by (auto simp: codetovalue_def chr_of_def sub word_le_def)
qed

lemma codetovalue_char: "codetovalue (b64_char n) = int (n mod 64)"
proof -
  have "\<forall>n < 64. codetovalue (b64_char n) = int n" by code_simp
  moreover have "b64_char (n mod 64) = b64_char n" by (simp add: b64_char_def)
  ultimately show ?thesis by (metis mod_less_divisor zero_less_numeral)
qed

lemma codetovalue_int: "codetovalue c =
    (if 65 \<le> uint c \<and> uint c \<le> 90 then uint c - 65 else if 97 \<le> uint c \<and> uint c \<le> 122 then uint c - 71
     else if 48 \<le> uint c \<and> uint c \<le> 57 then uint c + 4 else if uint c = 43 then 62 else if uint c = 47 then 63 else -1)"
proof -
  have u: "uint (c - k) = uint c - uint k" if "k \<le> c" for k
    using that by (simp add: uint_minus_simple_alt)
  show ?thesis by (auto simp: codetovalue_def chr_of_def word_le_def u word_uint_eq_iff)
qed

lemma codetovalue_inj: "codetovalue a = codetovalue b \<Longrightarrow> 0 \<le> codetovalue b \<Longrightarrow> a = b"
  unfolding codetovalue_int word_uint_eq_iff by (auto split: if_splits)

lemma position_nth: "distinct xs \<Longrightarrow> i < length xs \<Longrightarrow> length (takeWhile (\<lambda>x. x \<noteq> xs ! i) xs) = i"
  by (subst takeWhile_eq_take_P_nth [of i]) (auto simp: nth_eq_iff_index_eq)

lemma b64_val_eq: "b64_val c = (if codetovalue c < 0 then None else Some (nat (codetovalue c)))"
proof -
  have base: "distinct base" "length base = 64" by code_simp+
  show ?thesis
  proof (cases "c \<in> set base")
    case True
    then obtain i where i: "i < 64" "c = base ! i" unfolding in_set_conv_nth base(2) by blast
    then have "codetovalue c = int i" using codetovalue_char [of i] by (simp add: b64_char_def)
    then show ?thesis using i position_nth [OF base(1), of i] base(2) by (simp add: b64_val_def)
  next
    case False
    have "codetovalue c < 0"
    proof (rule ccontr)
      assume n: "\<not> codetovalue c < 0"
      then have v: "nat (codetovalue c) < 64" using codetovalue_range [of c] by auto
      then have "codetovalue (base ! nat (codetovalue c)) = codetovalue c"
        using codetovalue_char [of "nat (codetovalue c)"] n by (simp add: b64_char_def)
      then have "base ! nat (codetovalue c) = c" using codetovalue_inj n by force
      then show False using False v base(2) by (metis nth_mem)
    qed
    moreover have "takeWhile (\<lambda>x. x \<noteq> c) base = base" using False by (auto simp: takeWhile_eq_all_conv)
    ultimately show ?thesis by (simp only: b64_val_def Let_def) simp
  qed
qed

lemma b64_val_char [simp]: "b64_val (b64_char n) = Some (n mod 64)"
  by (simp add: b64_val_eq codetovalue_char)

lemma b64_val_less: "b64_val c = Some x \<Longrightarrow> x < 64"
  using codetovalue_range [of c] by (auto simp: b64_val_eq split: if_splits)

lemma unat_of_bits: "b64_val c = Some x \<Longrightarrow> unat (word_of_int (codetovalue c) :: u32) = x"
  using codetovalue_range [of c]
  by (auto simp: b64_val_eq unsigned_of_int take_bit_int_eq_self nat_less_iff split: if_splits)

lemma gather4_step:
  assumes "(unat (b32::u32) + 1) * 64 \<le> 4294967296" "b64_val c = Some x"
  shows "unat (push_bit 6 b32 OR word_of_int (codetovalue c)) = unat b32 * 64 + x"
  using assms b64_val_less [OF assms(2)]
  by (subst unat_shl_or) (simp_all add: unat_of_bits)

fun digits_val :: "byte list \<Rightarrow> nat \<Rightarrow> nat option" where
  "digits_val [] v = Some v"
| "digits_val (c # cs) v = do { x \<leftarrow> b64_val c; digits_val cs (v * 64 + x) }"

lemma b64_val_None: "codetovalue c < 0 \<longleftrightarrow> b64_val c = None"
  by (simp add: b64_val_eq)

lemma gather4_ok:
  "s + k \<le> length src \<Longrightarrow> (unat (b32::u32) + 1) * 64 ^ k \<le> 4294967296 \<Longrightarrow>
   \<exists>r. gather4 src s k b32 = Some r \<and> map_option unat r = digits_val (take k (drop s src)) (unat b32)"
proof (induction k arbitrary: s b32)
  case 0 then show ?case by simp
next
  case (Suc k)
  have t: "take (Suc k) (drop s src) = src ! s # take k (drop (s + 1) src)"
    using Suc.prems(1) by (simp add: take_drop_step)
  show ?case
  proof (cases "b64_val (src ! s)")
    case None
    then show ?thesis using Suc.prems t by (simp add: rd_ok b64_val_None)
  next
    case (Some x)
    let ?b = "push_bit 6 b32 OR word_of_int (codetovalue (src ! s)) :: u32"
    have "(unat b32 + 1) * 64 \<le> (unat b32 + 1) * 64 ^ Suc k"
      by (intro mult_left_mono) simp_all
    then have v: "unat ?b = unat b32 * 64 + x"
      using Suc.prems(2) by (intro gather4_step [OF _ Some]) linarith
    have "(unat b32 * 64 + x + 1) * 64 ^ k \<le> (unat b32 + 1) * 64 * 64 ^ k"
      using b64_val_less [OF Some] by (intro mult_right_mono) simp_all
    also have "\<dots> = (unat b32 + 1) * 64 ^ Suc k" by (simp only: power_Suc mult.assoc)
    finally have "(unat ?b + 1) * 64 ^ k \<le> 4294967296" using Suc.prems(2) unfolding v by (rule order_trans)
    then obtain r where "gather4 src (s + 1) k ?b = Some r" "map_option unat r = digits_val (take k (drop (s + 1) src)) (unat ?b)"
      using Suc.IH [of "s + 1" ?b] Suc.prems(1) by auto
    then show ?thesis using Some Suc.prems(1) t v by (simp add: rd_ok b64_val_None)
  qed
qed

lemma ucast_byte_nat: "(ucast (w :: u32) :: byte) = word_of_nat (unat w)"
  by simp

lemma word_of_nat_mod: "(word_of_nat (n mod 256) :: byte) = word_of_nat n"
  by (simp add: word_of_nat_eq_iff take_bit_eq_mod)

lemma b64_dec4:
  "b64_dec [a, b, c, e] = map_option (\<lambda>v. [word_of_nat (v div 65536), word_of_nat (v div 256), word_of_nat v])
     (digits_val [a, b, c, e] 0)"
  by (cases "b64_val a"; cases "b64_val b"; cases "b64_val c"; cases "b64_val e") (simp_all add: Let_def algebra_simps)

lemma byte_of_field: "(ucast (drop_bit j (w :: u32) AND 0xFF) :: byte) = word_of_nat (unat w div 2 ^ j)"
proof -
  have "(ucast (drop_bit j w AND mask 8) :: byte) = word_of_nat (unat w div 2 ^ j mod 2 ^ 8)"
    unfolding ucast_byte_nat unat_and_mask unat_drop_bit ..
  then show ?thesis by (simp add: word_of_nat_mod mask_literals)
qed

lemma decode4to3_ok:
  assumes "s + 4 \<le> length src" "d + 3 \<le> length dest"
  shows "decode4to3 src s dest d = Some (case b64_dec (take 4 (drop s src)) of
           None \<Rightarrow> (PR_FAILURE, dest) | Some out \<Rightarrow> (PR_SUCCESS, overlay dest d out))"
proof -
  have t: "take 4 (drop s src) = [src ! s, src ! (s+1), src ! (s+2), src ! (s+3)]"
    using assms(1) by (simp add: take_drop_step numeral_eq_Suc)
  obtain r where g: "gather4 src s 4 0 = Some r" "map_option unat r = digits_val (take 4 (drop s src)) 0"
    using gather4_ok [of s 4 src 0] assms(1) by auto
  show ?thesis
  proof (cases r)
    case None
    then show ?thesis using g by (simp add: decode4to3_def t b64_dec4 del: b64_dec.simps digits_val.simps gather4.simps)
  next
    case (Some b32)
    then have "b64_dec (take 4 (drop s src)) = Some [word_of_nat (unat b32 div 65536), word_of_nat (unat b32 div 256), word_of_nat (unat b32)]"
      unfolding t b64_dec4 using g(2) [symmetric] Some unfolding t by simp
    then show ?thesis using Some g assms(2) byte_of_field [of 16 b32] byte_of_field [of 8 b32] byte_of_field [of 0 b32]
      by (simp add: decode4to3_def wr_ok overlay_Cons del: gather4.simps)
  qed
qed

lemma decode3to2_ok:
  assumes "s + 3 \<le> length src" "d + 2 \<le> length dest"
  shows "decode3to2 src s dest d = Some (case b64_dec (take 3 (drop s src)) of
           None \<Rightarrow> (PR_FAILURE, dest) | Some out \<Rightarrow> (PR_SUCCESS, overlay dest d out))"
proof -
  have t: "take 3 (drop s src) = [src ! s, src ! (s+1), src ! (s+2)]"
    using assms(1) by (simp add: take_drop_step numeral_eq_Suc)
  have b: "unat (push_bit 4 (push_bit 6 (word_of_int (codetovalue a)) OR word_of_int (codetovalue b)) OR
        drop_bit 2 (word_of_int (codetovalue c)) :: u32) = (x * 4096 + y * 64 + z) div 4"
    if "b64_val a = Some x" "b64_val b = Some y" "b64_val c = Some z" for a b c x y z
  proof -
    note v = that [THEN unat_of_bits] that [THEN b64_val_less]
    have 1: "unat (push_bit 6 (word_of_int (codetovalue a)) OR word_of_int (codetovalue b) :: u32) = x * 64 + y"
      using v by (subst unat_shl_or) simp_all
    have "unat (drop_bit 2 (word_of_int (codetovalue c)) :: u32) = z div 4"
      using v by (simp add: unat_drop_bit)
    then have "unat (push_bit 4 (push_bit 6 (word_of_int (codetovalue a)) OR word_of_int (codetovalue b)) OR
        drop_bit 2 (word_of_int (codetovalue c)) :: u32) = (x * 64 + y) * 16 + z div 4"
      using v 1 by (subst unat_shl_or) (simp_all only: 1, simp_all)
    also have "\<dots> = (4 * ((x * 64 + y) * 16) + z) div 4" by (simp only: div_mult_self4)
    finally show ?thesis by (simp add: algebra_simps)
  qed
  show ?thesis
  proof (cases "b64_dec (take 3 (drop s src))")
    case None
    then show ?thesis using assms
      by (auto simp: decode3to2_def t rd_ok b64_val_None Let_def split: bind_splits)
  next
    case (Some out)
    then obtain x y z where v: "b64_val (src ! s) = Some x" "b64_val (src ! (s+1)) = Some y" "b64_val (src ! (s+2)) = Some z"
      and out: "out = [word_of_nat ((x * 4096 + y * 64 + z) div 4 div 256), word_of_nat ((x * 4096 + y * 64 + z) div 4)]"
      by (auto simp: t Let_def split: bind_splits)
    define b32 where "b32 = (push_bit 4 (push_bit 6 (word_of_int (codetovalue (src ! s))) OR word_of_int (codetovalue (src ! (s+1)))) OR
        drop_bit 2 (word_of_int (codetovalue (src ! (s+2)))) :: u32)"
    have "decode3to2 src s dest d = do {
       dest \<leftarrow> wr dest d (ucast (drop_bit 8 b32 AND 0xFF));
       dest \<leftarrow> wr dest (d + 1) (ucast (drop_bit 0 b32 AND 0xFF));
       Some (PR_SUCCESS, dest) }"
      using assms(1) v unfolding decode3to2_def Let_def b32_def drop_bit_0 id_apply
      by (simp add: rd_ok b64_val_None)
    then show ?thesis unfolding byte_of_field b [OF v, folded b32_def]
      using assms(2) Some out by (simp add: wr_ok overlay_Cons)
  qed
qed

lemma decode2to1_ok:
  assumes "s + 2 \<le> length src" "d + 1 \<le> length dest"
  shows "decode2to1 src s dest d = Some (case b64_dec (take 2 (drop s src)) of
           None \<Rightarrow> (PR_FAILURE, dest) | Some out \<Rightarrow> (PR_SUCCESS, overlay dest d out))"
proof -
  have t: "take 2 (drop s src) = [src ! s, src ! (s+1)]"
    using assms(1) by (simp add: take_drop_step numeral_eq_Suc)
  have b: "unat (push_bit 2 (word_of_int (codetovalue a)) OR drop_bit 4 (word_of_int (codetovalue b)) :: u32)
      = (x * 64 + y) div 16"
    if "b64_val a = Some x" "b64_val b = Some y" for a b x y
  proof -
    note v = that [THEN unat_of_bits] that [THEN b64_val_less]
    have "unat (push_bit 2 (word_of_int (codetovalue a)) OR drop_bit 4 (word_of_int (codetovalue b)) :: u32) = x * 4 + y div 16"
      using v by (subst unat_shl_or) (simp_all add: unat_drop_bit)
    also have "\<dots> = (16 * (x * 4) + y) div 16" by (simp only: div_mult_self4)
    finally show ?thesis by (simp add: algebra_simps)
  qed
  show ?thesis
  proof (cases "b64_dec (take 2 (drop s src))")
    case None
    then show ?thesis using assms
      by (auto simp: decode2to1_def t rd_ok b64_val_None Let_def split: bind_splits)
  next
    case (Some out)
    then obtain x y where v: "b64_val (src ! s) = Some x" "b64_val (src ! (s+1)) = Some y"
      and out: "out = [word_of_nat ((x * 64 + y) div 16)]"
      by (auto simp: t split: bind_splits)
    have "ucast (push_bit 2 (word_of_int (codetovalue (src ! s))) OR
         drop_bit 4 (word_of_int (codetovalue (src ! (s+1)))) :: u32) = (word_of_nat ((x * 64 + y) div 16) :: byte)"
      unfolding ucast_byte_nat b [OF v] ..
    with assms v Some out show ?thesis unfolding decode2to1_def Let_def
      by (simp add: rd_ok b64_val_None wr_ok overlay_Cons)
  qed
qed

lemma b64_dec_app:
  "b64_dec (a # b # c # e # cs) = do { x \<leftarrow> b64_dec [a, b, c, e]; y \<leftarrow> b64_dec cs; Some (x @ y) }"
  by (cases "b64_val a"; cases "b64_val b"; cases "b64_val c"; cases "b64_val e") (simp_all add: Let_def)


lemma b64_dec4_length: "b64_dec [a, b, c, e] = Some out \<Longrightarrow> length out = 3"
  by (auto simp: b64_dec4 simp del: b64_dec.simps)

lemma length_b64_dec: "b64_dec cs = Some out \<Longrightarrow> length out = length cs * 3 div 4"
proof (induction "length cs" arbitrary: cs out rule: less_induct)
  case less
  show ?case
  proof (cases cs rule: b64_dec.cases)
    case (5 a b c e cs')
    then obtain g r where g: "b64_dec [a, b, c, e] = Some g" and r: "b64_dec cs' = Some r" and o: "out = g @ r"
      using less.prems b64_dec_app [of a b c e cs'] by (auto split: bind_splits)
    have "length r = length cs' * 3 div 4" using 5 r by (intro less.hyps) simp_all
    moreover have "length cs * 3 div 4 = (length cs' * 3 + 3 * 4) div 4" using 5 by simp
    ultimately show ?thesis using b64_dec4_length [OF g] o by (simp only: div_mult_self3) simp
  qed (use less.prems in \<open>auto simp: Let_def split: bind_splits\<close>)
qed

lemma decode_ok:
  assumes "s + n \<le> length src" "d + n * 3 div 4 \<le> length dest"
  shows "\<exists>rv dest'. decode src s n dest d = Some (rv, dest') \<and>
    (case b64_dec (take n (drop s src)) of
       Some out \<Rightarrow> rv = PR_SUCCESS \<and> dest' = overlay dest d out
     | None \<Rightarrow> rv = PR_FAILURE \<and> length dest' = length dest)"
  using assms
proof (induction n arbitrary: s dest d rule: less_induct)
  case (less n)
  consider (ge) "4 \<le> n" | (three) "n = 3" | (two) "n = 2" | (one) "n = 1" | (zero) "n = 0" by linarith
  then show ?case
  proof cases
    case ge
    then obtain m where m: "n = m + 4" using le_Suc_ex [of 4 n] by (auto simp: add.commute)
    have "n * 3 div 4 = (m * 3 + 3 * 4) div 4" using m by simp
    then have dv: "n * 3 div 4 = m * 3 div 4 + 3" by (simp only: div_mult_self3)
    have t4: "take 4 (drop s src) = [src ! s, src ! (s+1), src ! (s+2), src ! (s+3)]"
      using less.prems(1) m by (simp add: take_drop_step numeral_eq_Suc)
    have "take n (drop s src) = take 4 (drop s src) @ take m (drop (s + 4) src)"
      using m take_add [of 4 m "drop s src"] by (simp add: add.commute)
    then have tn: "b64_dec (take n (drop s src)) =
       do { x \<leftarrow> b64_dec (take 4 (drop s src)); y \<leftarrow> b64_dec (take m (drop (s + 4) src)); Some (x @ y) }"
      using b64_dec_app [of "src ! s" "src ! (s+1)" "src ! (s+2)" "src ! (s+3)"] unfolding t4 by simp
    have d4: "decode4to3 src s dest d = Some (case b64_dec (take 4 (drop s src)) of
           None \<Rightarrow> (PR_FAILURE, dest) | Some out \<Rightarrow> (PR_SUCCESS, overlay dest d out))"
      using less.prems dv m by (intro decode4to3_ok) simp_all
    show ?thesis
    proof (cases "b64_dec (take 4 (drop s src))")
      case None
      then show ?thesis using d4 tn ge by (simp add: decode.simps [of src s])
    next
      case (Some g)
      then have lg: "length g = 3" unfolding t4 by (rule b64_dec4_length)
      have len: "length (overlay dest d g) = length dest"
        using less.prems(2) dv lg by (intro length_overlay) simp
      obtain rv dest' where ih: "decode src (s + 4) m (overlay dest d g) (d + 3) = Some (rv, dest')"
        "case b64_dec (take m (drop (s + 4) src)) of
           Some out \<Rightarrow> rv = PR_SUCCESS \<and> dest' = overlay (overlay dest d g) (d + 3) out
         | None \<Rightarrow> rv = PR_FAILURE \<and> length dest' = length (overlay dest d g)"
        using less.IH [of m "s + 4" "d + 3" "overlay dest d g"] less.prems dv m len by auto
      have "overlay (overlay dest d g) (d + 3) out = overlay dest d (g @ out)" for out
        using overlay_append [of d g dest out] less.prems(2) dv lg by simp
      then show ?thesis using Some d4 ih tn ge m len
        by (auto simp: decode.simps [of src s] split: option.splits)
    qed
  next
    case three
    then show ?thesis using less.prems
      by (simp add: decode.simps [of src s] decode3to2_ok split: option.splits)
  next
    case two
    then show ?thesis using less.prems
      by (simp add: decode.simps [of src s] decode2to1_ok split: option.splits)
  next
    case one
    then have "take n (drop s src) = [src ! s]" using less.prems(1) by (simp add: take_drop_step)
    with one show ?thesis by (simp add: decode.simps [of src s])
  next
    case zero
    then show ?thesis by (simp add: decode.simps [of src s])
  qed
qed

definition b64_pad :: "nat \<Rightarrow> nat" where
  "b64_pad n = (3 - n mod 3) mod 3"

lemma b64_char_not_pad: "b64_char n \<noteq> chr_of CHR ''=''"
proof
  assume "b64_char n = chr_of CHR ''=''"
  then have "codetovalue (chr_of CHR ''='') = int (n mod 64)" using codetovalue_char [of n] by simp
  then show False by (simp add: codetovalue_def chr_of_def)
qed

lemma b64_char_nonzero: "b64_char n \<noteq> 0"
proof
  assume "b64_char n = 0"
  then have "codetovalue 0 = int (n mod 64)" using codetovalue_char [of n] by simp
  then show False by (simp add: codetovalue_def chr_of_def)
qed

lemma b64_nonzero: "0 \<notin> set (b64 xs)"
  by (induction xs rule: b64.induct) (auto simp: Let_def b64_char_nonzero [symmetric] chr_of_def)

lemma b64_ends:
  "xs \<noteq> [] \<Longrightarrow> \<exists>front x y z w. b64 xs = front @ [x, y, z, w] \<and>
     (w = chr_of CHR ''='' \<longleftrightarrow> length xs mod 3 \<noteq> 0) \<and>
     (z = chr_of CHR ''='' \<longleftrightarrow> length xs mod 3 = 1)"
proof (induction xs rule: b64.induct)
  case (4 a b c xs)
  let ?v = "unat a * 65536 + unat b * 256 + unat c"
  let ?g = "[b64_char (?v div 262144), b64_char (?v div 4096), b64_char (?v div 64), b64_char ?v]"
  have e: "b64 (a # b # c # xs) = ?g @ b64 xs" by (simp add: Let_def)
  have "length (a # b # c # xs) = length xs + 3" by simp
  then have m: "length (a # b # c # xs) mod 3 = length xs mod 3" by (simp only: mod_add_self2)
  show ?case
  proof (cases "xs = []")
    case True
    then show ?thesis using b64_char_not_pad by (intro exI [of _ "[]"]) (simp add: Let_def)
  next
    case False
    then obtain front x y z w where "b64 xs = front @ [x, y, z, w]"
      "(w = chr_of CHR ''='' \<longleftrightarrow> length xs mod 3 \<noteq> 0) \<and> (z = chr_of CHR ''='' \<longleftrightarrow> length xs mod 3 = 1)"
      using "4.IH" by blast
    then show ?thesis unfolding m e
      by (intro exI [of _ "?g @ front"] exI [of _ x] exI [of _ y] exI [of _ z] exI [of _ w]) simp
  qed
qed (simp_all add: Let_def b64_char_not_pad)

lemma b64_pad_3: "b64_pad (Suc (Suc (Suc n))) = b64_pad n"
proof -
  have "Suc (Suc (Suc n)) mod 3 = (n + 3) mod 3" by simp
  then show ?thesis by (simp only: b64_pad_def mod_add_self2)
qed

lemma b64_pad_le: "b64_pad (length xs) \<le> length (b64 xs)"
  by (induction xs rule: b64.induct) (simp_all add: b64_pad_3 Let_def, simp_all add: b64_pad_def)

lemma b64_dec_chars:
  "b64_dec [b64_char p, b64_char q] = Some [word_of_nat ((p mod 64 * 64 + q mod 64) div 16)]"
  "b64_dec [b64_char p, b64_char q, b64_char r] =
     Some [word_of_nat ((p mod 64 * 4096 + q mod 64 * 64 + r mod 64) div 4 div 256),
       word_of_nat ((p mod 64 * 4096 + q mod 64 * 64 + r mod 64) div 4)]"
  "b64_dec [b64_char p, b64_char q, b64_char r, b64_char t] =
     (let v = p mod 64 * 262144 + q mod 64 * 4096 + r mod 64 * 64 + t mod 64 in
     Some [word_of_nat (v div 65536), word_of_nat (v div 256), word_of_nat v])"
  by (simp_all only: b64_dec.simps b64_val_char Option.bind.simps Let_def)

lemma byte_digits:
  "word_of_nat (unat a * 65536 + unat b * 256 + unat c) = (c :: byte)"
  "word_of_nat ((unat a * 65536 + unat b * 256 + unat c) div 256) = (b :: byte)"
  "word_of_nat ((unat a * 65536 + unat b * 256 + unat c) div 65536) = (a :: byte)"
proof -
  let ?v = "unat a * 65536 + unat b * 256 + unat c"
  have "?v = unat c + 256 * (unat a * 256 + unat b)" by simp
  then have "?v mod 256 = unat c mod 256" by (simp only: mod_mult_self2)
  then show "word_of_nat ?v = c"
    using word_of_nat_mod [of ?v] unat_byte_less [of c] by (simp del: of_nat_add of_nat_mult)
  have v: "?v = unat c + 256 * (unat b + 256 * unat a)" by simp
  then have d: "?v div 256 = unat b + 256 * unat a"
    using unat_byte_less [of c] by simp
  then have "?v div 256 mod 256 = unat b mod 256" by (simp only: mod_mult_self2)
  then show "word_of_nat (?v div 256) = b"
    using word_of_nat_mod [of "?v div 256"] unat_byte_less [of b] by (simp del: of_nat_add of_nat_mult)
  have "?v div 65536 = ?v div 256 div 256" by (simp only: div_mult2_eq [symmetric]) simp
  then have "?v div 65536 = unat a" using d unat_byte_less [of b] by simp
  then show "word_of_nat (?v div 65536) = a" by (simp only: of_nat_unat ucast_id)
qed

lemma b64_dec_b64:
  "b64_dec (take (length (b64 xs) - b64_pad (length xs)) (b64 xs)) = Some xs"
proof (induction xs rule: b64.induct)
  case 1 show ?case by simp
next
  case (2 a)
  have 1: "unat a div 4 mod 64 = unat a div 4" using unat_byte_less [of a] by simp
  have "unat a mod 4 * 16 < 64" by simp
  then have 2: "unat a mod 4 * 16 mod 64 = unat a mod 4 * 16" by (rule mod_less)
  have "(unat a div 4 * 64 + unat a mod 4 * 16) = 16 * (unat a div 4 * 4 + unat a mod 4)" by (simp only: distrib_left)
  then have 3: "(unat a div 4 * 64 + unat a mod 4 * 16) div 16 = unat a" by simp
  have "b64_dec [b64_char (unat a div 4), b64_char (unat a mod 4 * 16)] = Some [a]"
    unfolding b64_dec_chars 1 2 3 by simp
  then show ?case unfolding b64_1 by (simp add: b64_pad_def numeral_2_eq_2 del: b64_dec.simps)
next
  case (3 a b)
  let ?v = "(unat a * 256 + unat b) * 4"
  have e: "?v div 4096 mod 64 * 4096 + ?v div 64 mod 64 * 64 + ?v mod 64 = ?v"
    using digits4 [of ?v] unat_byte_less [of a] unat_byte_less [of b] by simp
  have "?v div 4 = unat (0::byte) * 65536 + unat a * 256 + unat b" by simp
  then have "b64_dec [b64_char (?v div 4096), b64_char (?v div 64), b64_char ?v] = Some [a, b]"
    unfolding b64_dec_chars e by (simp only: byte_digits)
  then show ?case by (simp add: b64_pad_def Let_def numeral_2_eq_2 del: b64_dec.simps)
next
  case (4 a b c xs)
  let ?v = "unat a * 65536 + unat b * 256 + unat c"
  have v: "?v < 16777216" using unat_byte_less [of a] unat_byte_less [of b] unat_byte_less [of c] by linarith
  have "b64_dec [b64_char (?v div 262144), b64_char (?v div 4096), b64_char (?v div 64), b64_char ?v] = Some [a,b,c]"
    unfolding b64_dec_chars digits4 [OF v] Let_def byte_digits ..
  then show ?case using 4 b64_pad_le [of xs]
   by (simp add: b64_pad_3 Let_def Suc_diff_le b64_dec_app [of _ _ _ _ "take _ _"] del: b64_dec.simps)
qed


section \<open>The entry points\<close>

lemma unat_encode_len:
  assumes "srclen \<le> (0xFFFFFFFF div 4) * 3"
  shows "unat (((srclen + 2) div 3) * 4 :: u32) = 4 * ((unat srclen + 2) div 3)"
    and "unat (((srclen + 2) div 3) * 4 + 1 :: u32) = 4 * ((unat srclen + 2) div 3) + 1"
proof -
  have b: "unat srclen \<le> 3221225469" using assms by (simp add: word_le_nat_alt)
  have "unat (srclen + 2) = unat srclen + 2" using b by (subst unat_word_ariths) simp
  then have 1: "unat ((srclen + 2) div 3) = (unat srclen + 2) div 3" by (simp add: unat_div)
  have "(unat srclen + 2) div 3 \<le> 1073741823" using b by simp
  then have m: "4 * ((unat srclen + 2) div 3) + 1 < 4294967296" by linarith
  then show 2: "unat (((srclen + 2) div 3) * 4 :: u32) = 4 * ((unat srclen + 2) div 3)"
    using 1 by (subst unat_word_ariths) simp
  show "unat (((srclen + 2) div 3) * 4 + 1 :: u32) = 4 * ((unat srclen + 2) div 3) + 1"
    using 2 m by (subst unat_word_ariths) (simp only: 2, simp)
qed

lemma drop_last_update: "length b = Suc n \<Longrightarrow> drop n (b[n := x]) = [x]"
  by (simp add: list_eq_iff_nth_eq)

lemma PL_Base64Encode_alloc:
  assumes "malloc_ok malloc" "srclen \<noteq> 0" "unat srclen \<le> length src"
    "srclen \<le> (0xFFFFFFFF div 4) * 3" "malloc (4 * ((unat srclen + 2) div 3) + 1) = Some b"
  shows "PL_Base64Encode malloc src srclen None = Some (Some (b64 (take (unat srclen) src) @ [0]))"
proof -
  let ?n = "unat srclen"
  let ?L = "4 * ((?n + 2) div 3)"
  let ?e = "b64 (take ?n src)"
  have lb: "length b = ?L + 1" using assms(1,5) by (auto simp: malloc_ok_def)
  have le: "length ?e = ?L" using assms(3) by (simp add: length_b64)
  have enc: "encode src 0 ?n (b[?L := 0]) 0 = Some (overlay (b[?L := 0]) 0 ?e)"
    using encode_ok [of 0 ?n src 0 "b[?L := 0]"] assms(3) lb by simp
  have ov: "overlay (b[?L := 0]) 0 ?e = ?e @ [0]"
    unfolding overlay_def le using drop_last_update [of b ?L 0] lb by simp
  show ?thesis
    using assms(2,4,5) enc ov lb unat_encode_len [OF assms(4)]
    by (simp add: PL_Base64Encode_def b64_srclen_def Let_def wr_ok not_less)
qed


lemma unat_and_3: "x AND 3 = 0 \<longleftrightarrow> unat (x :: u32) mod 4 = 0"
proof -
  have "unat (x AND 3) = unat x mod 4" using unat_and_mask [of x 2] by (simp add: mask_literals)
  then show ?thesis by (metis unat_0 unat_eq_zero)
qed

text \<open>The \<open>=\<close> signs the encoder wrote are the ones the decoder drops.\<close>

lemma b64_unpad_b64:
  assumes "xs \<noteq> []" "length (b64 xs) < 2 ^ 32" "take (length (b64 xs)) src = b64 xs"
  shows "b64_unpad src (word_of_nat (length (b64 xs))) =
    Some (word_of_nat (length (b64 xs) - b64_pad (length xs)))"
proof -
  obtain front x y z w where e: "b64 xs = front @ [x, y, z, w]"
    and w: "w = chr_of CHR ''='' \<longleftrightarrow> length xs mod 3 \<noteq> 0"
    and z: "z = chr_of CHR ''='' \<longleftrightarrow> length xs mod 3 = 1"
    using b64_ends [OF assms(1)] by blast
  define L where "L = length (b64 xs)"
  have L: "L = length front + 4" using e by (simp add: L_def)
  have ul: "unat (word_of_nat L :: u32) = L"
    using assms(2) by (intro unat_word_of_nat_u32) (simp add: L_def)
  have usub: "unat (word_of_nat (L - k) :: u32) = L - k" for k
    using assms(2) by (intro unat_word_of_nat_u32) (simp add: L_def)
  have sub1: "word_of_nat L - 1 = (word_of_nat (L - 1) :: u32)"
    and sub2: "word_of_nat L - 2 = (word_of_nat (L - 2) :: u32)"
    using L by simp_all
  have ls: "L \<le> length src" using arg_cong [OF assms(3), of length] unfolding L_def
    by (simp add: min_def split: if_splits)
  have "src ! (L - 1) = take L src ! (L - 1)" "src ! (L - 2) = take L src ! (L - 2)"
    using L by simp_all
  then have wz: "src ! (L - 1) = w" "src ! (L - 2) = z"
    unfolding L_def assms(3) by (simp_all add: e nth_append)
  have m: "L mod 4 = 0" using length_b64 [of xs] by (simp add: L_def)
  have "b64_unpad src (word_of_nat L) = Some (if w = chr_of CHR ''='' then if z = chr_of CHR ''='' then word_of_nat (L - 2) else word_of_nat (L - 1) else word_of_nat L)"
  proof -
    have "L \<noteq> 0" "L - 1 < length src" "L - 2 < length src" using L ls by simp_all
    moreover have "(word_of_nat L :: u32) \<noteq> 0" using ul \<open>L \<noteq> 0\<close> by (metis unat_0)
    ultimately show ?thesis
      using sub1 sub2 usub [of 1] usub [of 2] wz m ul
      by (simp add: b64_unpad_def unat_and_3 rd_ok)
  qed
  moreover have "b64_pad (length xs) = (if length xs mod 3 = 1 then 2 else if length xs mod 3 \<noteq> 0 then 1 else 0)"
  proof -
    have "length xs mod 3 < 3" by simp
    then consider "length xs mod 3 = 0" | "length xs mod 3 = 1" | "length xs mod 3 = 2" by linarith
    then show ?thesis by cases (simp_all add: b64_pad_def)
  qed
  ultimately show ?thesis using w z by (auto simp: L_def)
qed

lemma unat_decode_len:
  fixes srclen :: u32
  shows "unat ((srclen div 4) * 3 + ((srclen mod 4) * 3) div 4) = unat srclen * 3 div 4"
    and "unat ((srclen div 4) * 3 + ((srclen mod 4) * 3) div 4 + 1) = unat srclen * 3 div 4 + 1"
proof -
  let ?q = "unat srclen div 4" and ?r = "unat srclen mod 4"
  have q: "?q < 1073741824" using unat_u32_less [of srclen] by (simp add: less_mult_imp_div_less)
  have r: "?r < 4" by simp
  have 1: "unat (srclen div 4 * 3) = ?q * 3" using q by (subst unat_word_ariths) (simp add: unat_div)
  have "unat (srclen mod 4 * 3) = ?r * 3" using r by (subst unat_word_ariths) (simp add: unat_mod)
  then have 2: "unat (srclen mod 4 * 3 div 4) = ?r * 3 div 4" by (simp add: unat_div)
  have b: "?q * 3 + ?r * 3 div 4 + 1 < 4294967296" using q r by linarith
  have 3: "unat ((srclen div 4) * 3 + ((srclen mod 4) * 3) div 4) = ?q * 3 + ?r * 3 div 4"
    using b by (subst unat_word_ariths) (simp only: 1 2, simp)
  have "unat srclen * 3 = (?r * 3) + 4 * (?q * 3)" using div_mult_mod_eq [of "unat srclen" 4] by linarith
  then have 4: "unat srclen * 3 div 4 = ?q * 3 + ?r * 3 div 4" by simp
  show "unat ((srclen div 4) * 3 + ((srclen mod 4) * 3) div 4) = unat srclen * 3 div 4"
    using 3 4 by simp
  show "unat ((srclen div 4) * 3 + ((srclen mod 4) * 3) div 4 + 1) = unat srclen * 3 div 4 + 1"
    using b 3 unfolding 4 by (subst unat_word_ariths) (simp only: 3, simp)
qed


lemma PL_Base64Decode_alloc:
  assumes "malloc_ok malloc" "b64_srclen src srclen = Some (Some sl)" "b64_unpad src sl = Some sl'"
    "unat sl' \<le> length src" "malloc (unat sl' * 3 div 4 + 1) = Some b"
  shows "PL_Base64Decode malloc (Some src) srclen None =
    Some (case b64_dec (take (unat sl') src) of None \<Rightarrow> (None, None) | Some out \<Rightarrow> (Some (out @ [0]), None))"
proof -
  let ?n = "unat sl'"
  let ?L = "?n * 3 div 4"
  have lb: "length b = ?L + 1" using assms(1,5) by (auto simp: malloc_ok_def)
  obtain rv dest' where d: "decode src 0 ?n (b[?L := 0]) 0 = Some (rv, dest')"
    "case b64_dec (take ?n src) of Some out \<Rightarrow> rv = PR_SUCCESS \<and> dest' = overlay (b[?L := 0]) 0 out
     | None \<Rightarrow> rv = PR_FAILURE \<and> length dest' = length (b[?L := 0])"
    using decode_ok [of 0 ?n src 0 "b[?L := 0]"] assms(4) lb by auto
  have ov: "overlay (b[?L := 0]) 0 out = out @ [0]" if "b64_dec (take ?n src) = Some out" for out
    using length_b64_dec [OF that] assms(4) drop_last_update [of b ?L 0] lb
    by (simp add: overlay_def)
  have "?L < length b" using lb by simp
  then show ?thesis
    using assms(2,3,5) d ov unat_decode_len [of sl']
    by (cases "b64_dec (take ?n src)") (auto simp: PL_Base64Decode_def Let_def wr_ok)
qed

lemma b64_unpad_bound:
  assumes "srclen \<noteq> 0" "unat srclen \<le> length src"
  shows "\<exists>sl. b64_unpad src srclen = Some sl \<and> unat sl \<le> unat srclen"
proof (cases "srclen AND 3 = 0")
  case True
  have "0 < unat srclen" using assms(1) by (simp add: unat_gt_0)
  then have "4 \<le> unat srclen" using True unfolding unat_and_3 by presburger
  then have "unat (srclen - 1) = unat srclen - 1" "unat (srclen - 2) = unat srclen - 2"
    by (simp_all add: unat_sub word_le_nat_alt)
  then show ?thesis using True assms \<open>4 \<le> unat srclen\<close>
    by (simp add: b64_unpad_def rd_ok)
qed (simp add: b64_unpad_def)

lemma b64_dec_pad:
  assumes "chr_of CHR ''='' \<in> set cs"
  shows "b64_dec cs = None"
proof -
  have p: "b64_val (chr_of CHR ''='') = None" by code_simp
  show ?thesis using assms
  proof (induction cs rule: b64_dec.induct)
    case (5 a b c e cs)
    then show ?case using p by (cases "b64_val a"; cases "b64_val b"; cases "b64_val c"; cases "b64_val e") (auto simp: Let_def)
  qed (use p in \<open>auto split: bind_splits\<close>)
qed

text \<open>Dropping the last signs leaves the digits of a padded text, and of any other text something that has no value.\<close>

lemma b64_padded_split:
  assumes "cs = f @ rest" "rest \<in> {[], bytes_of ''='', bytes_of ''==''}" "rest \<noteq> [] \<longrightarrow> length cs mod 4 = 0"
    and "rest = [] \<longrightarrow> length cs mod 4 \<noteq> 0 \<or> cs = [] \<or> last cs \<noteq> chr_of CHR ''=''"
    and "rest = bytes_of ''='' \<longrightarrow> last f \<noteq> chr_of CHR ''=''"
  shows "b64_padded cs = b64_dec f"
proof (cases "chr_of CHR ''='' \<in> set f")
  case False
  then have "takeWhile (\<lambda>c. c \<noteq> chr_of CHR ''='') cs = f"
    using assms(2) unfolding assms(1) by (auto simp: bytes_of_def chr_of_def takeWhile_append)
  then show ?thesis using assms(1-3) by (auto simp: b64_padded_def)
next
  case True
  then obtain g h where f: "f = g @ chr_of CHR ''='' # h" "chr_of CHR ''='' \<notin> set g" by (meson split_list_first)
  then have "takeWhile (\<lambda>c. c \<noteq> chr_of CHR ''='') cs = g"
    unfolding assms(1) by (simp add: takeWhile_append)
  then have d: "b64_padded cs = (if length cs mod 4 = 0 \<and> chr_of CHR ''='' # h @ rest \<in> {bytes_of ''='', bytes_of ''==''}
      then b64_dec g else None)"
    using f(1) assms(1) by (simp add: b64_padded_def)
  have "\<not> (length cs mod 4 = 0 \<and> chr_of CHR ''='' # h @ rest \<in> {bytes_of ''='', bytes_of ''==''})"
    using assms(1,2,4,5) f(1) by (auto simp: bytes_of_def append_eq_Cons_conv)
  then have "b64_padded cs = None" unfolding d by (rule if_not_P)
  then show ?thesis using b64_dec_pad [OF True] by simp
qed

lemma b64_unpad_padded:
  assumes "srclen \<noteq> 0" "unat srclen \<le> length src" "b64_unpad src srclen = Some sl"
  shows "b64_dec (take (unat sl) src) = b64_padded (take (unat srclen) src)"
proof -
  let ?cs = "take (unat srclen) src"
  have n: "0 < unat srclen" using assms(1) by (simp add: unat_gt_0)
  have lc: "length ?cs = unat srclen" using assms(2) by simp
  have m: "srclen AND 3 = 0 \<longleftrightarrow> unat srclen mod 4 = 0" by (rule unat_and_3)
  have la: "last ?cs = src ! (unat srclen - 1)" using n assms(2) by (cases "take (unat srclen) src = []") (auto simp: last_conv_nth)
  show ?thesis
  proof (cases "unat srclen mod 4 = 0 \<and> last ?cs = chr_of CHR ''=''")
    case False
    then have "sl = srclen"
      using assms m la n by (auto simp: b64_unpad_def rd_ok unat_sub word_le_nat_alt Suc_le_eq)
    then show ?thesis using b64_padded_split [of ?cs ?cs "[]"] False lc by (auto simp: bytes_of_def)
  next
    case True
    then have "4 dvd unat srclen" by (simp add: mod_eq_0_iff_dvd)
    then have n4: "4 \<le> unat srclen" using n by (rule dvd_imp_le)
    then have u: "unat (srclen - 1) = unat srclen - 1" "unat (srclen - 2) = unat srclen - 2"
      by (simp_all add: unat_sub word_le_nat_alt)
    have one: "?cs = take (unat srclen - 1) src @ [last ?cs]"
      using take_Suc_conv_app_nth [of "unat srclen - 1" src] n assms(2) la by simp
    have two: "take (unat srclen - 1) src = take (unat srclen - 2) src @ [src ! (unat srclen - 2)]"
      using take_Suc_conv_app_nth [of "unat srclen - 2" src] n4 assms(2) by (simp add: Suc_diff_Suc numeral_2_eq_2)
    show ?thesis
    proof (cases "src ! (unat srclen - 2) = chr_of CHR ''=''")
      case eq: True
      then have "sl = srclen - 2" using assms True m la n4 u by (simp add: b64_unpad_def rd_ok)
      moreover have cs: "?cs = take (unat srclen - 2) src @ bytes_of ''==''"
        using one two True eq by (simp add: bytes_of_def chr_of_def)
      have "b64_padded ?cs = b64_dec (take (unat srclen - 2) src)"
        by (rule b64_padded_split [OF cs]) (use True lc in \<open>simp_all add: bytes_of_def\<close>)
      ultimately show ?thesis using u by simp
    next
      case ne: False
      then have "sl = srclen - 1" using assms True m la n4 u by (simp add: b64_unpad_def rd_ok)
      moreover have cs: "?cs = take (unat srclen - 1) src @ bytes_of ''=''" using one True by (simp add: bytes_of_def chr_of_def)
      have "last (take (unat srclen - 1) src) \<noteq> chr_of CHR ''=''" using two ne by simp
      then have "b64_padded ?cs = b64_dec (take (unat srclen - 1) src)"
        by (intro b64_padded_split [OF cs]) (use True lc in \<open>simp_all add: bytes_of_def\<close>)
      ultimately show ?thesis using u by simp
    qed
  qed
qed

section \<open>Properties\<close>

text \<open>C1: what \<open>PL_Base64Encode\<close> writes to a buffer it allocates, the decoder called on the
  resulting C string (length argument 0, so that it measures the string itself) turns back into
  exactly the source bytes, followed by the terminating NUL, whatever bytes \<open>malloc\<close> handed
  out.\<close>

theorem base64_roundtrip:
  assumes "malloc_ok malloc" "srclen \<noteq> 0" "unat srclen \<le> length src"
    and "PL_Base64Encode malloc src srclen None = Some (Some e)"
    and "malloc (unat srclen + 1) \<noteq> None"
  shows "PL_Base64Decode malloc (Some e) 0 None = Some (Some (take (unat srclen) src @ [0]), None)"
proof -
  let ?xs = "take (unat srclen) src"
  let ?L = "length (b64 ?xs)"
  have small: "srclen \<le> (0xFFFFFFFF div 4) * 3"
    using assms(2,4) by (auto simp: PL_Base64Encode_def b64_srclen_def not_less [symmetric])
  then obtain b where "malloc (4 * ((unat srclen + 2) div 3) + 1) = Some b"
    using assms(2,4) unat_encode_len [OF small] leD [OF small]
    by (auto simp: PL_Base64Encode_def b64_srclen_def Let_def split: option.splits)
  then have e: "e = b64 ?xs @ [0]"
    using PL_Base64Encode_alloc [OF assms(1-3) small] assms(4) by simp
  have lx: "length ?xs = unat srclen" and ne: "?xs \<noteq> []" using assms(2,3) by (auto simp: unat_eq_zero)
  have L: "?L = 4 * ((unat srclen + 2) div 3)" using lx by (simp add: length_b64)
  have lt: "?L < 2 ^ 32"
    using unat_encode_len(1) [OF small] unat_u32_less [of "(srclen + 2) div 3 * 4"] L by simp
  have c: "cstr e = b64 ?xs" unfolding e by (rule cstr_append_0 [OF b64_nonzero])
  have "b64_srclen e 0 = Some (Some (word_of_nat ?L))"
    using lt e c by (simp add: b64_srclen_def c_strlen_eq unat_word_of_nat_u32)
  moreover have "b64_unpad e (word_of_nat ?L) = Some (word_of_nat (?L - b64_pad (unat srclen)))"
    using b64_unpad_b64 [OF ne lt, of e] lx e by simp
  moreover have u: "unat (word_of_nat (?L - b64_pad (unat srclen)) :: u32) = ?L - b64_pad (unat srclen)"
    using lt by (intro unat_word_of_nat_u32) simp
  moreover have dec: "b64_dec (take (?L - b64_pad (unat srclen)) e) = Some ?xs"
    using b64_dec_b64 [of ?xs] lx e by simp
  moreover have "(?L - b64_pad (unat srclen)) * 3 div 4 = unat srclen"
    using length_b64_dec [OF dec] lx e by simp
  ultimately show ?thesis
    using PL_Base64Decode_alloc [OF assms(1), of e 0] assms(5) e by auto
qed
theorem base64_roundtrip_witness:
  "PL_Base64Decode (\<lambda>n. Some (replicate n 0)) (Some (bytes_of ''Zm9vYg=='' @ [0])) 0 None =
     Some (Some (take (unat (4::u32)) (bytes_of ''foobar'') @ [0]), None)"
proof (rule base64_roundtrip)
  show "malloc_ok (\<lambda>n. Some (replicate n 0))" by (simp add: malloc_ok_def)
  show "unat (4 :: u32) \<le> length (bytes_of ''foobar'')" by (simp add: bytes_of_def)
  show "PL_Base64Encode (\<lambda>n. Some (replicate n 0)) (bytes_of ''foobar'') 4 None =
    Some (Some (bytes_of ''Zm9vYg=='' @ [0]))" by code_simp
qed simp_all

text \<open>C2: called with the caller's own buffer, the encoder stays inside both buffers and writes
  the reference encoding over the first \<open>4 * ((n + 2) div 3)\<close> bytes and nothing else; in
  particular it writes no NUL, as its comment says.\<close>

theorem base64_encode_in_place:
  assumes "srclen \<noteq> 0" "unat srclen \<le> length src"
    and "4 * ((unat srclen + 2) div 3) \<le> length dest"
  shows "PL_Base64Encode malloc src srclen (Some dest) =
    Some (Some (b64 (take (unat srclen) src) @ drop (4 * ((unat srclen + 2) div 3)) dest))"
proof -
  have "length (b64 (take (unat srclen) src)) = 4 * ((unat srclen + 2) div 3)"
    using assms(2) by (simp add: length_b64)
  then show ?thesis
    using assms encode_ok [of 0 "unat srclen" src 0 dest]
    by (simp add: PL_Base64Encode_def b64_srclen_def overlay_def)
qed

theorem base64_encode_in_place_witness:
  "PL_Base64Encode Map.empty [1, 2] 2 (Some [9, 9, 9, 9, 9]) =
     Some (Some (b64 (take (unat (2::u32)) [1, 2]) @ drop (4 * ((unat (2::u32) + 2) div 3)) [9, 9, 9, 9, 9]))"
  by (rule base64_encode_in_place) simp_all

text \<open>C3: on every source string, well formed or not, the decoder stays inside the source and inside a destination of
  \<open>n * 3 div 4\<close> bytes. It returns the destination, with the decoded bytes at its beginning, exactly when the source
  consists of digits of the alphabet with no lone last digit, followed by nothing or by the one or two \<open>=\<close> signs that fill
  the last group of four; otherwise it returns null, and the caller's buffer may have been partly overwritten but keeps
  its size.\<close>

theorem base64_decode_total:
  assumes "srclen \<noteq> 0" "unat srclen \<le> length src" "unat srclen * 3 div 4 \<le> length dest"
  shows "\<exists>dest'. length dest' = length dest \<and>
    PL_Base64Decode malloc (Some src) srclen (Some dest) =
      Some (case b64_padded (take (unat srclen) src) of
              Some out \<Rightarrow> (Some (overlay dest 0 out), Some (overlay dest 0 out))
            | None \<Rightarrow> (None, Some dest'))"
proof -
  obtain sl where sl: "b64_unpad src srclen = Some sl" "unat sl \<le> unat srclen"
    using b64_unpad_bound [OF assms(1,2)] by blast
  have "unat sl * 3 div 4 \<le> unat srclen * 3 div 4" using sl(2) by (intro div_le_mono) simp
  then obtain rv dest' where d: "decode src 0 (unat sl) dest 0 = Some (rv, dest')"
    "case b64_dec (take (unat sl) src) of Some out \<Rightarrow> rv = PR_SUCCESS \<and> dest' = overlay dest 0 out
     | None \<Rightarrow> rv = PR_FAILURE \<and> length dest' = length dest"
    using decode_ok [of 0 "unat sl" src 0 dest] sl(2) assms(2,3) by auto
  show ?thesis using d sl(1) assms(1) unfolding b64_unpad_padded [OF assms(1,2) sl(1)]
    by (cases "b64_padded (take (unat srclen) src)") (auto simp: PL_Base64Decode_def b64_srclen_def)
qed

theorem base64_decode_total_witness:
  "PL_Base64Decode Map.empty (Some (bytes_of ''Zg=='')) 4 (Some [9, 9, 9]) = Some (Some [102, 9, 9], Some [102, 9, 9]) \<and>
   fst (the (PL_Base64Decode Map.empty (Some (bytes_of ''Zg==Zg=='')) 8 (Some [9, 9, 9, 9, 9, 9]))) = None"
proof -
  have v: "b64_padded (bytes_of ''Zg=='') = Some [102]" "b64_padded (bytes_of ''Zg==Zg=='') = None" by code_simp+
  show ?thesis
    using base64_decode_total [of 4 "bytes_of ''Zg==''" "[9, 9, 9]" Map.empty]
      base64_decode_total [of 8 "bytes_of ''Zg==Zg==''" "[9, 9, 9, 9, 9, 9]" Map.empty] v
    by (auto simp: bytes_of_def overlay_def)
qed

end
