(* ===== verification/Moz_Bits.thy ===== *)
theory Moz_Bits
  imports Moz_Prelude
begin

text \<open>
  \<open>src/nsprpub/pr/include/prbit.h\<close> and \<open>src/nsprpub/pr/src/misc/prlog2.c\<close>: the integer logarithms
  that size hash tables and alignment masks, in the portable (shift and test) variant of the
  macros, and the 32-bit rotations.
\<close>

section \<open>Definitions\<close>

text \<open>One test of the binary search: \<open>if (j_ >> k) { log2 += k; j_ >>= k; }\<close>.\<close>

definition log2_step :: "nat \<Rightarrow> u32 \<times> nat \<Rightarrow> u32 \<times> nat" where
  "log2_step k = (\<lambda>(j, l). if drop_bit k j \<noteq> 0 then (drop_bit k j, l + k) else (j, l))"

definition log2_search :: "u32 \<Rightarrow> nat \<Rightarrow> nat" where
  "log2_search n l =
     (let (j, l) = log2_step 2 (log2_step 4 (log2_step 8 (log2_step 16 (n, l))))
      in if drop_bit 1 j \<noteq> 0 then l + 1 else l)"

definition PR_CeilingLog2 :: "u32 \<Rightarrow> nat" where
  "PR_CeilingLog2 n = log2_search n (if n AND (n - 1) \<noteq> 0 then 1 else 0)"

definition PR_FloorLog2 :: "u32 \<Rightarrow> nat" where
  "PR_FloorLog2 n = log2_search n 0"

definition PR_ROTATE_LEFT32 :: "u32 \<Rightarrow> nat \<Rightarrow> u32" where
  "PR_ROTATE_LEFT32 a bits = push_bit bits a OR drop_bit (32 - bits) a"

definition PR_ROTATE_RIGHT32 :: "u32 \<Rightarrow> nat \<Rightarrow> u32" where
  "PR_ROTATE_RIGHT32 a bits = drop_bit bits a OR push_bit (32 - bits) a"

section \<open>The binary search finds the highest set bit\<close>

lemma drop_bit_nonzero: "drop_bit k (j :: u32) \<noteq> 0 \<longleftrightarrow> 2 ^ k \<le> unat j"
proof -
  have "unat (drop_bit k j) = unat j div 2 ^ k" by (rule unat_drop_bit)
  then have "drop_bit k j = 0 \<longleftrightarrow> unat j div 2 ^ k = 0" by (metis unat_eq_zero)
  then show ?thesis using div_eq_0_iff [of "unat j" "2 ^ k"] by (simp add: not_less)
qed

text \<open>What a step keeps: the number shifted by what has been counted so far, and a bound that
  halves (in bits) with each step.\<close>

definition log2_inv :: "u32 \<Rightarrow> nat \<Rightarrow> nat \<Rightarrow> u32 \<times> nat \<Rightarrow> bool" where
  "log2_inv n l0 w = (\<lambda>(j, l). l0 \<le> l \<and> unat j = unat n div 2 ^ (l - l0) \<and> unat j < 2 ^ w \<and>
     (unat n \<noteq> 0 \<longrightarrow> unat j \<noteq> 0))"

lemma log2_step_inv:
  assumes "log2_inv n l0 (k + k) s"
  shows "log2_inv n l0 k (log2_step k s)"
proof -
  obtain j l where s: "s = (j, l)" by force
  have j: "unat j = unat n div 2 ^ (l - l0)" "l0 \<le> l" "unat j < 2 ^ k * 2 ^ k" "unat n \<noteq> 0 \<longrightarrow> unat j \<noteq> 0"
    using assms unfolding log2_inv_def s prod.case power_add by blast+
  show ?thesis
  proof (cases "drop_bit k j \<noteq> 0")
    case True
    have "unat (drop_bit k j) = unat n div 2 ^ (l + k - l0)"
      using j(1,2) by (simp add: unat_drop_bit div_mult2_eq [symmetric] power_add [symmetric])
    moreover have "unat (drop_bit k j) < 2 ^ k"
      using j(3) by (simp add: unat_drop_bit less_mult_imp_div_less)
    moreover have "unat (drop_bit k j) \<noteq> 0" using True by (simp add: unat_eq_zero)
    ultimately show ?thesis using True j(2) by (simp add: log2_inv_def log2_step_def s)
  next
    case False
    then show ?thesis using j drop_bit_nonzero [of k j] by (simp add: log2_inv_def log2_step_def s)
  qed
qed

lemma log2_search_spec:
  assumes "n \<noteq> 0"
  shows "\<exists>k. log2_search n l = l + k \<and> 2 ^ k \<le> unat n \<and> unat n < 2 ^ Suc k"
proof -
  obtain j l' where s: "log2_step 2 (log2_step 4 (log2_step 8 (log2_step 16 (n, l)))) = (j, l')" by force
  have "log2_inv n l 32 (n, l)" using unat_u32_less [of n] by (simp add: log2_inv_def)
  then have "log2_inv n l 2 (j, l')"
    unfolding s [symmetric]
    by (intro log2_step_inv [of _ _ 2, simplified] log2_step_inv [of _ _ 4, simplified]
        log2_step_inv [of _ _ 8, simplified] log2_step_inv [of _ _ 16, simplified])
  then have j: "l \<le> l'" "unat j = unat n div 2 ^ (l' - l)" "unat j < 2 ^ 2" "unat n \<noteq> 0 \<longrightarrow> unat j \<noteq> 0"
    unfolding log2_inv_def prod.case by blast+
  have j4: "unat j < 4" "unat j \<noteq> 0" using j(3,4) assms by (simp_all add: unat_eq_zero)
  have n: "unat n = 2 ^ (l' - l) * unat j + unat n mod 2 ^ (l' - l)" "unat n mod 2 ^ (l' - l) < 2 ^ (l' - l)"
    using j(2) by simp_all
  have lo: "2 ^ (l' - l) * unat j \<le> unat n" using n by linarith
  have hi: "unat n < 2 ^ (l' - l) * (unat j + 1)" using n unfolding distrib_left mult_1_right by linarith
  have r: "log2_search n l = (if 2 \<le> unat j then l' + 1 else l')"
    using drop_bit_nonzero [of 1 j] by (simp add: log2_search_def s)
  consider "unat j = 1" | "unat j = 2" | "unat j = 3" using j4 by linarith
  then show ?thesis
  proof cases
    case 1
    then show ?thesis using lo hi r j(1) by (intro exI [of _ "l' - l"]) simp
  next
    case 2
    then show ?thesis using lo hi r j(1) by (intro exI [of _ "l' - l + 1"]) simp
  next
    case 3
    then show ?thesis using lo hi r j(1) by (intro exI [of _ "l' - l + 1"]) simp
  qed
qed

text \<open>Between two powers of two, the highest bit survives in \<open>n & (n - 1)\<close> unless \<open>n\<close> is the
  power itself.\<close>

lemma and_pred_zero:
  assumes "2 ^ k \<le> unat (n :: u32)" "unat n < 2 ^ Suc k"
  shows "n AND (n - 1) = 0 \<longleftrightarrow> unat n = 2 ^ k"
proof
  assume "unat n = 2 ^ k"
  have "n \<noteq> 0" using assms(1) by auto
  then have "unat (n - 1) = 2 ^ k - 1" using \<open>unat n = 2 ^ k\<close>
    by (simp add: unat_minus_one)
  then have "unat (n AND (n - 1)) = 2 ^ k AND (2 ^ k - 1)"
    using \<open>unat n = 2 ^ k\<close> by (simp add: unsigned_and_eq)
  also have "\<dots> = take_bit k (2 ^ k :: nat)"
    by (simp only: take_bit_eq_mask mask_eq_exp_minus_1)
  also have "\<dots> = 0" by (simp add: take_bit_eq_mod)
  finally show "n AND (n - 1) = 0" by (simp add: unat_eq_zero)
next
  assume z: "n AND (n - 1) = 0"
  show "unat n = 2 ^ k"
  proof (rule ccontr)
    assume "unat n \<noteq> 2 ^ k"
    then have "n \<noteq> 0" "2 ^ k \<le> unat n - 1" using assms(1) by auto
    then have m: "unat (n - 1) = unat n - 1" by (simp add: unat_minus_one)
    have "bit (unat x) k" if "2 ^ k \<le> unat x" "unat x < 2 ^ Suc k" for x :: u32
    proof -
      have "unat x div 2 ^ k = 1" using that by (intro div_nat_eqI) simp_all
      then show ?thesis by (simp add: bit_iff_odd)
    qed
    from this [of n] this [of "n - 1"] have "bit (unat n) k" "bit (unat (n - 1)) k"
      using assms m \<open>2 ^ k \<le> unat n - 1\<close> by auto
    then have "bit (n AND (n - 1)) k" by (simp add: bit_and_iff bit_unsigned_iff)
    then show False using z by simp
  qed
qed

lemma log2_search_0: "log2_search n l = l" if "n = 0"
  using that by (simp add: log2_search_def log2_step_def)

lemma FloorLog2_bounds:
  assumes "n \<noteq> 0"
  shows "2 ^ PR_FloorLog2 n \<le> unat n \<and> unat n < 2 ^ Suc (PR_FloorLog2 n)"
  using log2_search_spec [OF assms, of 0] by (auto simp: PR_FloorLog2_def)

text \<open>The ceiling is the floor, plus one exactly when the number is not a power of two.\<close>

lemma CeilingLog2_floor:
  assumes "n \<noteq> 0"
  shows "PR_CeilingLog2 n = (if unat n = 2 ^ PR_FloorLog2 n then PR_FloorLog2 n else Suc (PR_FloorLog2 n))"
proof -
  obtain k where k: "PR_FloorLog2 n = k" "2 ^ k \<le> unat n" "unat n < 2 ^ Suc k"
    using FloorLog2_bounds [OF assms] by blast
  obtain i where i: "PR_CeilingLog2 n = (if n AND (n - 1) \<noteq> 0 then 1 else 0) + i"
      "2 ^ i \<le> unat n" "unat n < 2 ^ Suc i"
    using log2_search_spec [OF assms, of "if n AND (n - 1) \<noteq> 0 then 1 else 0"]
    by (auto simp: PR_CeilingLog2_def)
  have "(2::nat) ^ i < 2 ^ Suc k" "(2::nat) ^ k < 2 ^ Suc i" using k i by linarith+
  then have "i < Suc k" "k < Suc i" by (simp_all only: power_strict_increasing_iff)
  then have "i = k" by linarith
  then show ?thesis using i(1) k(1) and_pred_zero [OF k(2,3)] by simp
qed

lemma CeilingLog2_upper: "n \<noteq> 0 \<Longrightarrow> unat n \<le> 2 ^ PR_CeilingLog2 n"
  using FloorLog2_bounds [of n] by (simp add: CeilingLog2_floor)

lemma CeilingLog2_least:
  assumes "n \<noteq> 0" "i < PR_CeilingLog2 n"
  shows "2 ^ i < unat n"
proof (cases "unat n = 2 ^ PR_FloorLog2 n")
  case True
  then show ?thesis using assms by (simp add: CeilingLog2_floor)
next
  case False
  then have "i \<le> PR_FloorLog2 n" using assms by (simp add: CeilingLog2_floor)
  then have "(2::nat) ^ i \<le> 2 ^ PR_FloorLog2 n" by simp
  then show ?thesis using False FloorLog2_bounds [OF assms(1)] by linarith
qed

text \<open>The rotations undo one another.\<close>

lemma bit_rotate_left:
  assumes "0 < k" "k < 32" "n < 32"
  shows "bit (PR_ROTATE_LEFT32 a k) n \<longleftrightarrow> bit a (if k \<le> n then n - k else n + 32 - k)"
proof -
  have "bit a (n + 32 - k) \<Longrightarrow> n < k" using bit_imp_le_length [of a "n + 32 - k"] assms by simp
  then show ?thesis
    using assms by (auto simp: PR_ROTATE_LEFT32_def bit_or_iff bit_push_bit_iff bit_drop_bit_eq add.commute)
qed

lemma bit_rotate_right:
  assumes "0 < k" "k < 32" "n < 32"
  shows "bit (PR_ROTATE_RIGHT32 a k) n \<longleftrightarrow> bit a (if n + k < 32 then n + k else n + k - 32)"
proof -
  have "bit a (n + k) \<Longrightarrow> n + k < 32" using bit_imp_le_length [of a "n + k"] by simp
  then show ?thesis
    using assms by (auto simp: PR_ROTATE_RIGHT32_def bit_or_iff bit_push_bit_iff bit_drop_bit_eq add.commute)
qed

section \<open>Properties\<close>

text \<open>C4: \<open>PR_CeilingLog2\<close> is the least exponent whose power of two reaches its argument, and
  \<open>PR_FloorLog2\<close> the greatest whose power does not exceed it, for every nonzero 32-bit number.\<close>

theorem log2_correct:
  assumes "n \<noteq> 0"
  shows "unat n \<le> 2 ^ PR_CeilingLog2 n \<and> (\<forall>k < PR_CeilingLog2 n. 2 ^ k < unat n) \<and>
    2 ^ PR_FloorLog2 n \<le> unat n \<and> unat n < 2 ^ Suc (PR_FloorLog2 n)"
  using CeilingLog2_upper [OF assms] CeilingLog2_least [OF assms] FloorLog2_bounds [OF assms] by blast

theorem log2_correct_witness:
  "unat (100 :: u32) \<le> 2 ^ PR_CeilingLog2 100 \<and> 2 ^ 6 < unat (100 :: u32) \<and>
   2 ^ PR_FloorLog2 100 \<le> unat (100 :: u32) \<and> PR_CeilingLog2 100 = 7"
proof -
  have "PR_CeilingLog2 100 = 7" by code_simp
  then show ?thesis using log2_correct [of 100] by auto
qed

end
