(* ===== verification/Moz_Hash.thy ===== *)
theory Moz_Hash
  imports Moz_Bits "HOL-Library.Multiset"
begin

text \<open>
  \<open>src/nsprpub/lib/ds/plhash.c\<close>: the chained hash table of NSPR, with multiplicative hashing,
  move-to-front chains and a bucket vector that doubles and halves.

  A chain is the list of its entries and \<open>buckets\<close> the list of chains; a \<open>PLHashEntry **\<close> into
  a chain is a pair of a bucket number and a position, the position past the last entry being
  the null link at its end. Client callbacks (\<open>allocOps\<close>) act on the client's pool \<open>'p\<close>, which
  the table carries in \<open>allocPriv\<close>; addresses are numbers. The meters of \<open>HASHMETER\<close> builds and
  the \<open>memset 0xDB\<close> of \<open>DEBUG\<close> builds are left out.
\<close>

section \<open>Data\<close>

record ('k, 'v) PLHashEntry =
  he_at :: nat
  he_keyHash :: u32
  he_key :: 'k
  he_value :: "'v ptr"

record ('k, 'v, 'p) PLHashAllocOps =
  allocTable :: "'p \<Rightarrow> nat \<Rightarrow> nat ptr \<times> 'p"
  freeTable :: "'p \<Rightarrow> nat \<Rightarrow> 'p"
  allocEntry :: "'p \<Rightarrow> 'k \<Rightarrow> nat ptr \<times> 'p"
  freeEntry :: "'p \<Rightarrow> ('k, 'v) PLHashEntry \<Rightarrow> u32 \<Rightarrow> 'p"

record ('k, 'v, 'p) PLHashTable =
  ht_at :: nat
  buckets_at :: nat
  buckets :: "('k, 'v) PLHashEntry list list"
  nentries :: u32
  shift :: u32
  keyHash :: "'k \<Rightarrow> u32"
  keyCompare :: "'k \<Rightarrow> 'k \<Rightarrow> bool"
  valueCompare :: "'v ptr \<Rightarrow> 'v ptr \<Rightarrow> bool"
  allocOps :: "('k, 'v, 'p) PLHashAllocOps"
  allocPriv :: 'p

type_synonym hep = "nat \<times> nat"

definition PL_HASH_BITS :: u32 where "PL_HASH_BITS = 32"
definition HT_FREE_VALUE :: u32 where "HT_FREE_VALUE = 0"
definition HT_FREE_ENTRY :: u32 where "HT_FREE_ENTRY = 1"
definition HT_ENUMERATE_NEXT :: u32 where "HT_ENUMERATE_NEXT = 0"
definition HT_ENUMERATE_STOP :: u32 where "HT_ENUMERATE_STOP = 1"
definition HT_ENUMERATE_REMOVE :: u32 where "HT_ENUMERATE_REMOVE = 2"
definition HT_ENUMERATE_UNHASH :: u32 where "HT_ENUMERATE_UNHASH = 4"

text \<open>Sizes on an LP64 target: a pointer, a \<open>PLHashEntry\<close> and a \<open>PLHashTable\<close>.\<close>

definition sizeof_ptr :: nat where "sizeof_ptr = 8"
definition sizeof_PLHashEntry :: nat where "sizeof_PLHashEntry = 32"
definition sizeof_PLHashTable :: nat where "sizeof_PLHashTable = 56"

section \<open>Macros\<close>

text \<open>\<open>1 << k\<close> has no meaning in C for \<open>k\<close> of 32 and more.\<close>

definition shl1 :: "u32 \<Rightarrow> u32 exec" where
  "shl1 k = (if unat k < 32 then Some (push_bit (unat k) 1) else None)"

definition NBUCKETS :: "('k, 'v, 'p) PLHashTable \<Rightarrow> u32 exec" where
  "NBUCKETS ht = shl1 (PL_HASH_BITS - shift ht)"

definition MINBUCKETSLOG2 :: u32 where "MINBUCKETSLOG2 = 4"
definition MINBUCKETS :: u32 where "MINBUCKETS = push_bit 4 1"

definition OVERLOADED :: "u32 \<Rightarrow> u32" where
  "OVERLOADED n = n - drop_bit 3 n"

definition UNDERLOADED :: "u32 \<Rightarrow> u32" where
  "UNDERLOADED n = (if n > MINBUCKETS then drop_bit 2 n else 0)"

definition GOLDEN_RATIO :: u32 where "GOLDEN_RATIO = 0x9E3779B9"

section \<open>Default allocator\<close>

text \<open>\<open>PR_MALLOC\<close> and \<open>PR_Free\<close> are parameters, functions on the state of the heap.\<close>

definition DefaultAllocTable :: "('h \<Rightarrow> nat \<Rightarrow> nat ptr \<times> 'h) \<Rightarrow> 'h \<Rightarrow> nat \<Rightarrow> nat ptr \<times> 'h" where
  "DefaultAllocTable malloc pool nb = malloc pool nb"

definition DefaultFreeTable :: "('h \<Rightarrow> nat \<Rightarrow> 'h) \<Rightarrow> 'h \<Rightarrow> nat \<Rightarrow> 'h" where
  "DefaultFreeTable free pool item = free pool item"

definition DefaultAllocEntry :: "('h \<Rightarrow> nat \<Rightarrow> nat ptr \<times> 'h) \<Rightarrow> 'h \<Rightarrow> 'k \<Rightarrow> nat ptr \<times> 'h" where
  "DefaultAllocEntry malloc pool key = malloc pool sizeof_PLHashEntry"

definition DefaultFreeEntry :: "('h \<Rightarrow> nat \<Rightarrow> 'h) \<Rightarrow> 'h \<Rightarrow> ('k, 'v) PLHashEntry \<Rightarrow> u32 \<Rightarrow> 'h" where
  "DefaultFreeEntry free pool he flag = (if flag = HT_FREE_ENTRY then free pool (he_at he) else pool)"

definition defaultHashAllocOps ::
  "('h \<Rightarrow> nat \<Rightarrow> nat ptr \<times> 'h) \<Rightarrow> ('h \<Rightarrow> nat \<Rightarrow> 'h) \<Rightarrow> ('k, 'v, 'h) PLHashAllocOps" where
  "defaultHashAllocOps malloc free =
     \<lparr>allocTable = DefaultAllocTable malloc, freeTable = DefaultFreeTable free,
      allocEntry = DefaultAllocEntry malloc, freeEntry = DefaultFreeEntry free\<rparr>"

section \<open>Creation and destruction\<close>

definition PL_NewHashTable ::
  "('p \<Rightarrow> nat \<Rightarrow> nat ptr \<times> 'p) \<Rightarrow> ('p \<Rightarrow> nat \<Rightarrow> 'p) \<Rightarrow>
   u32 \<Rightarrow> ('k \<Rightarrow> u32) \<Rightarrow> ('k \<Rightarrow> 'k \<Rightarrow> bool) \<Rightarrow> ('v ptr \<Rightarrow> 'v ptr \<Rightarrow> bool) \<Rightarrow>
   ('k, 'v, 'p) PLHashAllocOps ptr \<Rightarrow> 'p \<Rightarrow> (('k, 'v, 'p) PLHashTable ptr \<times> 'p) exec" where
  "PL_NewHashTable malloc free n hash cmp vcmp ops pool =
     (let small = (n \<le> MINBUCKETS);
          n = (if small then MINBUCKETSLOG2 else word_of_nat (PR_CeilingLog2 n)) in
      if \<not> small \<and> sint n < 0 then Some (None, pool)
      else
        let ops = (case ops of None \<Rightarrow> defaultHashAllocOps malloc free | Some o1 \<Rightarrow> o1) in
        case allocTable ops pool sizeof_PLHashTable of
          (None, pool) \<Rightarrow> Some (None, pool)
        | (Some at, pool) \<Rightarrow>
            do { nb \<leftarrow> shl1 n;
                 case allocTable ops pool (unat nb * sizeof_ptr) of
                   (None, pool) \<Rightarrow> Some (None, freeTable ops pool at)
                 | (Some bat, pool) \<Rightarrow>
                     Some (Some \<lparr>ht_at = at, buckets_at = bat, buckets = replicate (unat nb) [],
                                 nentries = 0, shift = PL_HASH_BITS - n, keyHash = hash,
                                 keyCompare = cmp, valueCompare = vcmp, allocOps = ops,
                                 allocPriv = pool\<rparr>, pool) })"

primrec free_chain :: "('k, 'v, 'p) PLHashAllocOps \<Rightarrow> ('k, 'v) PLHashEntry list \<Rightarrow> 'p \<Rightarrow> 'p" where
  "free_chain ops [] pool = pool"
| "free_chain ops (he # next) pool = free_chain ops next (freeEntry ops pool he HT_FREE_ENTRY)"

primrec free_chains :: "('k, 'v, 'p) PLHashAllocOps \<Rightarrow> ('k, 'v) PLHashEntry list list \<Rightarrow> 'p \<Rightarrow> 'p" where
  "free_chains ops [] pool = pool"
| "free_chains ops (c # cs) pool = free_chains ops cs (free_chain ops c pool)"

text \<open>The first \<open>n\<close> chains of a bucket vector, the ones \<open>for (i = 0; i < n; i++)\<close> visits.\<close>

definition chains :: "u32 \<Rightarrow> 'a list \<Rightarrow> 'a list exec" where
  "chains n b = (if unat n \<le> length b then Some (take (unat n) b) else None)"

definition PL_HashTableDestroy :: "('k, 'v, 'p) PLHashTable \<Rightarrow> 'p exec" where
  "PL_HashTableDestroy ht =
     do { n \<leftarrow> NBUCKETS ht;
          cs \<leftarrow> chains n (buckets ht);
          let pool = free_chains (allocOps ht) cs (allocPriv ht);
          let pool = freeTable (allocOps ht) pool (buckets_at ht);
          Some (freeTable (allocOps ht) pool (ht_at ht)) }"

section \<open>Lookup\<close>

definition hash_index :: "('k, 'v, 'p) PLHashTable \<Rightarrow> u32 \<Rightarrow> nat exec" where
  "hash_index ht kh =
     (if unat (shift ht) < 32 then Some (unat (drop_bit (unat (shift ht)) (kh * GOLDEN_RATIO))) else None)"

text \<open>The loop over a chain: the position of the first hit.\<close>

fun chain_find :: "('k \<Rightarrow> 'k \<Rightarrow> bool) \<Rightarrow> u32 \<Rightarrow> 'k \<Rightarrow> ('k, 'v) PLHashEntry list \<Rightarrow> nat option" where
  "chain_find cmp kh key [] = None"
| "chain_find cmp kh key (he # next) =
     (if he_keyHash he = kh \<and> cmp key (he_key he) then Some 0
      else case chain_find cmp kh key next of None \<Rightarrow> None | Some i \<Rightarrow> Some (Suc i))"

definition PL_HashTableRawLookup ::
  "('k, 'v, 'p) PLHashTable \<Rightarrow> u32 \<Rightarrow> 'k \<Rightarrow> (hep \<times> ('k, 'v, 'p) PLHashTable) exec" where
  "PL_HashTableRawLookup ht kh key =
     do { h \<leftarrow> hash_index ht kh;
          chain \<leftarrow> rd (buckets ht) h;
          case chain_find (keyCompare ht) kh key chain of
            None \<Rightarrow> Some ((h, length chain), ht)
          | Some i \<Rightarrow>
              if i \<noteq> 0 then
                Some ((h, 0), ht\<lparr>buckets := (buckets ht)[h := chain ! i # take i chain @ drop (Suc i) chain]\<rparr>)
              else Some ((h, 0), ht) }"

definition PL_HashTableRawLookupConst ::
  "('k, 'v, 'p) PLHashTable \<Rightarrow> u32 \<Rightarrow> 'k \<Rightarrow> hep exec" where
  "PL_HashTableRawLookupConst ht kh key =
     do { h \<leftarrow> hash_index ht kh;
          chain \<leftarrow> rd (buckets ht) h;
          case chain_find (keyCompare ht) kh key chain of
            None \<Rightarrow> Some (h, length chain)
          | Some i \<Rightarrow> Some (h, i) }"

text \<open>\<open>*hep\<close>, and the stores \<open>*hep = ...\<close>: append after the prefix up to \<open>hep\<close>, insert, unlink,
  and the assignment to the value of the entry \<open>*hep\<close>.\<close>

definition deref :: "('k, 'v, 'p) PLHashTable \<Rightarrow> hep \<Rightarrow> ('k, 'v) PLHashEntry ptr exec" where
  "deref ht = (\<lambda>(h, i). do { chain \<leftarrow> rd (buckets ht) h;
     if i < length chain then Some (Some (chain ! i)) else if i = length chain then Some None else None })"

definition store_chain :: "('k, 'v, 'p) PLHashTable \<Rightarrow> hep \<Rightarrow>
    (('k, 'v) PLHashEntry list \<Rightarrow> ('k, 'v) PLHashEntry list) \<Rightarrow> ('k, 'v, 'p) PLHashTable exec" where
  "store_chain ht = (\<lambda>(h, i) f. do { chain \<leftarrow> rd (buckets ht) h;
     if i \<le> length chain then Some (ht\<lparr>buckets := (buckets ht)[h := take i chain @ f (drop i chain)]\<rparr>) else None })"

section \<open>Insertion\<close>

primrec rehash_chain :: "('k, 'v) PLHashEntry list \<Rightarrow> ('k, 'v, 'p) PLHashTable \<Rightarrow> ('k, 'v, 'p) PLHashTable exec" where
  "rehash_chain [] ht = Some ht"
| "rehash_chain (he # next) ht =
     do { (hep, ht) \<leftarrow> PL_HashTableRawLookup ht (he_keyHash he) (he_key he);
          ht \<leftarrow> store_chain ht hep (\<lambda>_. [he]);
          rehash_chain next ht }"

primrec rehash_chains :: "('k, 'v) PLHashEntry list list \<Rightarrow> ('k, 'v, 'p) PLHashTable \<Rightarrow> ('k, 'v, 'p) PLHashTable exec" where
  "rehash_chains [] ht = Some ht"
| "rehash_chains (c # cs) ht = do { ht \<leftarrow> rehash_chain c ht; rehash_chains cs ht }"

text \<open>Growing. The result says whether the larger vector could be allocated.\<close>

definition grow :: "u32 \<Rightarrow> ('k, 'v, 'p) PLHashTable \<Rightarrow> (bool \<times> ('k, 'v, 'p) PLHashTable) exec" where
  "grow n ht =
     (case allocTable (allocOps ht) (allocPriv ht) (unat (2 * n) * sizeof_ptr) of
        (None, pool) \<Rightarrow> Some (False, ht\<lparr>allocPriv := pool\<rparr>)
      | (Some bat, pool) \<Rightarrow>
          do { cs \<leftarrow> chains n (buckets ht);
               ht' \<leftarrow> rehash_chains cs
                 (ht\<lparr>buckets_at := bat, buckets := replicate (unat (2 * n)) [], shift := shift ht - 1,
                     allocPriv := pool\<rparr>);
               Some (True, ht'\<lparr>allocPriv := freeTable (allocOps ht') (allocPriv ht') (buckets_at ht)\<rparr>) })"

definition link_new :: "('k, 'v, 'p) PLHashTable \<Rightarrow> hep \<Rightarrow> u32 \<Rightarrow> 'k \<Rightarrow> 'v ptr \<Rightarrow>
    (('k, 'v) PLHashEntry ptr \<times> ('k, 'v, 'p) PLHashTable) exec" where
  "link_new ht hep kh key value =
     (case allocEntry (allocOps ht) (allocPriv ht) key of
        (None, pool) \<Rightarrow> Some (None, ht\<lparr>allocPriv := pool\<rparr>)
      | (Some at, pool) \<Rightarrow>
          let he = \<lparr>he_at = at, he_keyHash = kh, he_key = key, he_value = value\<rparr> in
          do { ht' \<leftarrow> store_chain (ht\<lparr>allocPriv := pool\<rparr>) hep (\<lambda>next. he # next);
               Some (Some he, ht'\<lparr>nentries := nentries ht' + 1\<rparr>) })"

definition PL_HashTableRawAdd ::
  "('k, 'v, 'p) PLHashTable \<Rightarrow> hep \<Rightarrow> u32 \<Rightarrow> 'k \<Rightarrow> 'v ptr \<Rightarrow>
   (('k, 'v) PLHashEntry ptr \<times> ('k, 'v, 'p) PLHashTable) exec" where
  "PL_HashTableRawAdd ht hep kh key value =
     do { n \<leftarrow> NBUCKETS ht;
          if nentries ht \<ge> OVERLOADED n then
            do { (ok, ht) \<leftarrow> grow n ht;
                 if \<not> ok then Some (None, ht)
                 else do { (hep, ht) \<leftarrow> PL_HashTableRawLookup ht kh key;
                           link_new ht hep kh key value } }
          else link_new ht hep kh key value }"

definition PL_HashTableAdd ::
  "('k, 'v, 'p) PLHashTable \<Rightarrow> 'k \<Rightarrow> 'v ptr \<Rightarrow>
   (('k, 'v) PLHashEntry ptr \<times> ('k, 'v, 'p) PLHashTable) exec" where
  "PL_HashTableAdd ht key value =
     do { let kh = keyHash ht key;
          (hep, ht) \<leftarrow> PL_HashTableRawLookup ht kh key;
          hit \<leftarrow> deref ht hep;
          case hit of
            Some he \<Rightarrow>
              if valueCompare ht (he_value he) value then Some (Some he, ht)
              else
                let pool = (if he_value he \<noteq> None then freeEntry (allocOps ht) (allocPriv ht) he HT_FREE_VALUE
                            else allocPriv ht);
                    he' = he\<lparr>he_value := value\<rparr> in
                do { ht \<leftarrow> store_chain (ht\<lparr>allocPriv := pool\<rparr>) hep (\<lambda>c. he' # tl c);
                     Some (Some he', ht) }
          | None \<Rightarrow> PL_HashTableRawAdd ht hep kh key value }"

section \<open>Removal\<close>

text \<open>What \<open>PL_HashTableRawRemove\<close> does after \<open>*hep = he->next\<close>: free the entry, count it off, and
  shrink an underloaded table.\<close>

definition shrink :: "u32 \<Rightarrow> ('k, 'v, 'p) PLHashTable \<Rightarrow> ('k, 'v, 'p) PLHashTable exec" where
  "shrink n ht =
     (case allocTable (allocOps ht) (allocPriv ht) (unat n * sizeof_ptr div 2) of
        (None, pool) \<Rightarrow> Some (ht\<lparr>allocPriv := pool\<rparr>)
      | (Some bat, pool) \<Rightarrow>
          do { cs \<leftarrow> chains n (buckets ht);
               ht' \<leftarrow> rehash_chains cs
                 (ht\<lparr>buckets_at := bat, buckets := replicate (unat n div 2) [], shift := shift ht + 1,
                     allocPriv := pool\<rparr>);
               Some (ht'\<lparr>allocPriv := freeTable (allocOps ht') (allocPriv ht') (buckets_at ht)\<rparr>) })"

definition dispose :: "('k, 'v, 'p) PLHashTable \<Rightarrow> ('k, 'v) PLHashEntry \<Rightarrow> ('k, 'v, 'p) PLHashTable exec" where
  "dispose ht he =
     do { let ht = ht\<lparr>allocPriv := freeEntry (allocOps ht) (allocPriv ht) he HT_FREE_ENTRY\<rparr>;
          n \<leftarrow> NBUCKETS ht;
          let ht = ht\<lparr>nentries := nentries ht - 1\<rparr>;
          if nentries ht < UNDERLOADED n then shrink n ht else Some ht }"

definition PL_HashTableRawRemove ::
  "('k, 'v, 'p) PLHashTable \<Rightarrow> hep \<Rightarrow> ('k, 'v) PLHashEntry \<Rightarrow> ('k, 'v, 'p) PLHashTable exec" where
  "PL_HashTableRawRemove ht hep he =
     do { ht \<leftarrow> store_chain ht hep tl; dispose ht he }"

definition PL_HashTableRemove ::
  "('k, 'v, 'p) PLHashTable \<Rightarrow> 'k \<Rightarrow> (bool \<times> ('k, 'v, 'p) PLHashTable) exec" where
  "PL_HashTableRemove ht key =
     do { (hep, ht) \<leftarrow> PL_HashTableRawLookup ht (keyHash ht key) key;
          hit \<leftarrow> deref ht hep;
          case hit of
            None \<Rightarrow> Some (False, ht)
          | Some he \<Rightarrow> do { ht \<leftarrow> PL_HashTableRawRemove ht hep he; Some (True, ht) } }"

section \<open>Queries\<close>

definition PL_HashTableLookup ::
  "('k, 'v, 'p) PLHashTable \<Rightarrow> 'k \<Rightarrow> ('v ptr \<times> ('k, 'v, 'p) PLHashTable) exec" where
  "PL_HashTableLookup ht key =
     do { (hep, ht) \<leftarrow> PL_HashTableRawLookup ht (keyHash ht key) key;
          hit \<leftarrow> deref ht hep;
          case hit of Some he \<Rightarrow> Some (he_value he, ht) | None \<Rightarrow> Some (None, ht) }"

definition PL_HashTableLookupConst :: "('k, 'v, 'p) PLHashTable \<Rightarrow> 'k \<Rightarrow> 'v ptr exec" where
  "PL_HashTableLookupConst ht key =
     do { hep \<leftarrow> PL_HashTableRawLookupConst ht (keyHash ht key) key;
          hit \<leftarrow> deref ht hep;
          case hit of Some he \<Rightarrow> Some (he_value he) | None \<Rightarrow> Some None }"

section \<open>Enumeration\<close>

text \<open>A client enumerator gets the entry, the running count and its own state, and returns the
  flag bits. The walk over one chain yields the chain that is left, the entries to dispose of
  (the last one met first, as the code links them), the count, and whether to stop.\<close>

type_synonym ('k, 'v, 's) PLHashEnumerator = "('k, 'v) PLHashEntry \<Rightarrow> nat \<Rightarrow> 's \<Rightarrow> u32 \<times> 's"

fun enum_chain :: "('k, 'v, 's) PLHashEnumerator \<Rightarrow> ('k, 'v) PLHashEntry list \<Rightarrow>
    ('k, 'v) PLHashEntry list \<Rightarrow> nat \<Rightarrow> 's \<Rightarrow>
    ('k, 'v) PLHashEntry list \<times> ('k, 'v) PLHashEntry list \<times> nat \<times> 's \<times> bool" where
  "enum_chain f [] todo n s = ([], todo, n, s, False)"
| "enum_chain f (he # next) todo n s =
     (let (rv, s) = f he n s;
          n = n + 1;
          drop1 = (rv AND (HT_ENUMERATE_REMOVE OR HT_ENUMERATE_UNHASH) \<noteq> 0);
          todo = (if drop1 \<and> rv AND HT_ENUMERATE_REMOVE \<noteq> 0 then he # todo else todo);
          (next, todo, n, s, stop) =
            (if rv AND HT_ENUMERATE_STOP \<noteq> 0 then (next, todo, n, s, True) else enum_chain f next todo n s)
      in (if drop1 then next else he # next, todo, n, s, stop))"

fun enum_chains :: "('k, 'v, 's) PLHashEnumerator \<Rightarrow> ('k, 'v) PLHashEntry list list \<Rightarrow>
    ('k, 'v) PLHashEntry list \<Rightarrow> nat \<Rightarrow> 's \<Rightarrow>
    ('k, 'v) PLHashEntry list list \<times> ('k, 'v) PLHashEntry list \<times> nat \<times> 's" where
  "enum_chains f [] todo n s = ([], todo, n, s)"
| "enum_chains f (c # cs) todo n s =
     (let (c, todo, n, s, stop) = enum_chain f c todo n s in
      if stop then (c # cs, todo, n, s)
      else let (cs, todo, n, s) = enum_chains f cs todo n s in (c # cs, todo, n, s))"

primrec dispose_all :: "('k, 'v) PLHashEntry list \<Rightarrow> ('k, 'v, 'p) PLHashTable \<Rightarrow> ('k, 'v, 'p) PLHashTable exec" where
  "dispose_all [] ht = Some ht"
| "dispose_all (he # todo) ht = do { ht \<leftarrow> dispose ht he; dispose_all todo ht }"

definition PL_HashTableEnumerateEntries ::
  "('k, 'v, 'p) PLHashTable \<Rightarrow> ('k, 'v, 's) PLHashEnumerator \<Rightarrow> 's \<Rightarrow>
   (nat \<times> 's \<times> ('k, 'v, 'p) PLHashTable) exec" where
  "PL_HashTableEnumerateEntries ht f arg =
     do { nb \<leftarrow> NBUCKETS ht;
          cs \<leftarrow> chains nb (buckets ht);
          let (cs, todo, n, s) = enum_chains f cs [] 0 arg;
          ht \<leftarrow> dispose_all todo (ht\<lparr>buckets := cs @ drop (unat nb) (buckets ht)\<rparr>);
          Some (n, s, ht) }"

definition PL_HashTableDump ::
  "('k, 'v, 'p) PLHashTable \<Rightarrow> ('k, 'v, 's) PLHashEnumerator \<Rightarrow> 's \<Rightarrow>
   (nat \<times> 's \<times> ('k, 'v, 'p) PLHashTable) exec" where
  "PL_HashTableDump ht dump fp = PL_HashTableEnumerateEntries ht dump fp"

section \<open>String keys\<close>

text \<open>A C string is the list of its bytes; its end, or a zero byte, is the terminator.\<close>

fun hash_string_loop :: "u32 \<Rightarrow> byte list \<Rightarrow> u32" where
  "hash_string_loop h [] = h"
| "hash_string_loop h (c # s) =
     (if c = 0 then h else hash_string_loop (PR_ROTATE_LEFT32 h 4 XOR ucast c) s)"

definition PL_HashString :: "byte list \<Rightarrow> u32" where
  "PL_HashString key = hash_string_loop 0 key"

definition PL_CompareStrings :: "byte list \<Rightarrow> byte list \<Rightarrow> bool" where
  "PL_CompareStrings v1 v2 = (c_strcmp v1 v2 = 0)"

definition PL_CompareValues :: "'v ptr \<Rightarrow> 'v ptr \<Rightarrow> bool" where
  "PL_CompareValues v1 v2 = (v1 = v2)"

section \<open>Lists of chains\<close>

lemma mset_concat_update:
  "h < length bs \<Longrightarrow> mset (concat (bs[h := c])) + mset (bs ! h) = mset (concat bs) + mset c"
  by (induction bs arbitrary: h) (auto split: nat.splits simp: algebra_simps)

lemma mset_concat_update_eq:
  "h < length bs \<Longrightarrow> mset c = mset (bs ! h) \<Longrightarrow> mset (concat (bs[h := c])) = mset (concat bs)"
  using mset_concat_update [of h bs c] by simp

lemma mset_move_front:
  "i < length c \<Longrightarrow> mset (c ! i # take i c @ drop (Suc i) c) = mset c"
  using id_take_nth_drop [of i c] by (metis mset.simps(2) mset_append union_mset_add_mset_right)

section \<open>Keys\<close>

text \<open>What the table asks of the client's hash and comparison functions: the comparison is an
  equivalence, and keys it identifies hash alike.\<close>

locale hash_keys =
  fixes hash :: "'k \<Rightarrow> u32" and cmp :: "'k \<Rightarrow> 'k \<Rightarrow> bool"
  assumes cmp_refl: "cmp a a"
    and cmp_sym: "cmp a b \<Longrightarrow> cmp b a"
    and cmp_trans: "cmp a b \<Longrightarrow> cmp b c \<Longrightarrow> cmp a c"
    and cmp_hash: "cmp a b \<Longrightarrow> hash a = hash b"

definition key_class :: "('k \<Rightarrow> 'k \<Rightarrow> bool) \<Rightarrow> 'k \<Rightarrow> 'k set" where
  "key_class cmp k = {k'. cmp k k'}"

definition keys_ok :: "('k \<Rightarrow> u32) \<Rightarrow> ('k \<Rightarrow> 'k \<Rightarrow> bool) \<Rightarrow> ('k, 'v) PLHashEntry list \<Rightarrow> bool" where
  "keys_ok hash cmp es \<longleftrightarrow> (\<forall>e\<in>set es. he_keyHash e = hash (he_key e)) \<and>
     distinct (map (\<lambda>e. key_class cmp (he_key e)) es)"

definition look :: "('k \<Rightarrow> 'k \<Rightarrow> bool) \<Rightarrow> ('k, 'v) PLHashEntry list \<Rightarrow> 'k \<Rightarrow> ('k, 'v) PLHashEntry option" where
  "look cmp es k = find (\<lambda>e. cmp k (he_key e)) es"

lemma keys_ok_mset: "mset es = mset es' \<Longrightarrow> keys_ok hash cmp es \<longleftrightarrow> keys_ok hash cmp es'"
  unfolding keys_ok_def
  by (metis (no_types, lifting) mset_eq_imp_distinct_iff mset_eq_setD mset_map)

context hash_keys
begin

lemma class_eq_iff: "key_class cmp a = key_class cmp b \<longleftrightarrow> cmp a b"
  unfolding key_class_def using cmp_refl cmp_sym cmp_trans by blast

lemma cmp_eqv: "cmp a b \<Longrightarrow> cmp b k \<longleftrightarrow> cmp a k"
  using cmp_sym cmp_trans by blast

lemma keys_ok_Cons:
  "keys_ok hash cmp (e # es) \<longleftrightarrow> he_keyHash e = hash (he_key e) \<and>
     (\<forall>e'\<in>set es. \<not> cmp (he_key e) (he_key e')) \<and> keys_ok hash cmp es"
  by (auto simp: keys_ok_def class_eq_iff image_iff)

lemma look_Some:
  "keys_ok hash cmp es \<Longrightarrow> look cmp es k = Some e \<longleftrightarrow> e \<in> set es \<and> cmp k (he_key e)"
proof (induction es)
  case Nil
  then show ?case by (simp add: look_def)
next
  case (Cons a es)
  then have ok: "keys_ok hash cmp es" and a: "\<forall>e'\<in>set es. \<not> cmp (he_key a) (he_key e')"
    by (simp_all add: keys_ok_Cons)
  show ?case
  proof (cases "cmp k (he_key a)")
    case True
    then have "\<forall>e'\<in>set es. \<not> cmp k (he_key e')" using a cmp_sym cmp_trans by blast
    with True show ?thesis by (auto simp: look_def)
  next
    case False
    then have "look cmp (a # es) k = look cmp es k" by (simp add: look_def)
    with False Cons.IH [OF ok] show ?thesis by auto
  qed
qed

lemma look_mset:
  assumes "mset es = mset es'" "keys_ok hash cmp es"
  shows "look cmp es = look cmp es'"
proof
  fix k
  have ok: "keys_ok hash cmp es'" using assms keys_ok_mset by blast
  have "\<forall>e. look cmp es k = Some e \<longleftrightarrow> look cmp es' k = Some e"
    using mset_eq_setD [OF assms(1)] by (simp add: look_Some [OF assms(2)] look_Some [OF ok])
  then show "look cmp es k = look cmp es' k" by (cases "look cmp es k") (auto, metis not_Some_eq)
qed

lemma look_None: "look cmp es k = None \<longleftrightarrow> (\<forall>e\<in>set es. \<not> cmp k (he_key e))"
  by (auto simp: look_def find_None_iff)

lemma look_Cons:
  assumes "keys_ok hash cmp (e # es)"
  shows "look cmp (e # es) = (\<lambda>k. if cmp (he_key e) k then Some e else look cmp es k)"
  using cmp_sym by (auto simp: look_def fun_eq_iff)

lemma look_remove:
  assumes "keys_ok hash cmp (e # es)"
  shows "look cmp es = (\<lambda>k. if cmp (he_key e) k then None else look cmp (e # es) k)"
proof
  fix k
  have a: "\<forall>e'\<in>set es. \<not> cmp (he_key e) (he_key e')" using assms by (simp add: keys_ok_Cons)
  show "look cmp es k = (if cmp (he_key e) k then None else look cmp (e # es) k)"
  proof (cases "cmp (he_key e) k")
    case True
    then have "\<forall>e'\<in>set es. \<not> cmp k (he_key e')" using a cmp_trans by blast
    with True show ?thesis by (simp add: look_None)
  next
    case False
    then have "\<not> cmp k (he_key e)" using cmp_sym by blast
    with False show ?thesis by (simp add: look_def)
  qed
qed

end

section \<open>The invariant\<close>

definition hindex :: "u32 \<Rightarrow> u32 \<Rightarrow> nat" where
  "hindex sh kh = unat (drop_bit (unat sh) (kh * GOLDEN_RATIO))"

definition shape :: "u32 \<Rightarrow> ('k, 'v) PLHashEntry list list \<Rightarrow> bool" where
  "shape sh bs \<longleftrightarrow> 1 \<le> unat sh \<and> unat sh \<le> 28 \<and> length bs = 2 ^ (32 - unat sh) \<and>
     (\<forall>i < length bs. \<forall>e\<in>set (bs ! i). hindex sh (he_keyHash e) = i)"

definition entries :: "('k, 'v, 'p) PLHashTable \<Rightarrow> ('k, 'v) PLHashEntry list" where
  "entries ht = concat (buckets ht)"

text \<open>The table as a consistent set of entries, whatever \<open>nentries\<close> says, and the full invariant.\<close>

definition ht_inv0 :: "('k, 'v, 'p) PLHashTable \<Rightarrow> bool" where
  "ht_inv0 ht \<longleftrightarrow> shape (shift ht) (buckets ht) \<and> keys_ok (keyHash ht) (keyCompare ht) (entries ht)"

definition ht_inv :: "('k, 'v, 'p) PLHashTable \<Rightarrow> bool" where
  "ht_inv ht \<longleftrightarrow> ht_inv0 ht \<and> unat (nentries ht) = length (entries ht)"

text \<open>The finite map the table stores: from a key to the value pointer of its entry.\<close>

definition ht_map :: "('k, 'v, 'p) PLHashTable \<Rightarrow> 'k \<Rightarrow> 'v ptr option" where
  "ht_map ht k = map_option he_value (look (keyCompare ht) (entries ht) k)"

text \<open>Two tables with the same client functions.\<close>

definition same_client :: "('k, 'v, 'p) PLHashTable \<Rightarrow> ('k, 'v, 'p) PLHashTable \<Rightarrow> bool" where
  "same_client ht ht' \<longleftrightarrow> keyHash ht' = keyHash ht \<and> keyCompare ht' = keyCompare ht \<and>
     valueCompare ht' = valueCompare ht \<and> allocOps ht' = allocOps ht \<and> ht_at ht' = ht_at ht"

lemma hindex_less: "1 \<le> unat sh \<Longrightarrow> unat sh \<le> 28 \<Longrightarrow> hindex sh kh < 2 ^ (32 - unat sh)"
proof -
  assume "1 \<le> unat sh" "unat sh \<le> 28"
  then have p: "(2::nat) ^ (32 - unat sh) * 2 ^ unat sh = 4294967296"
    by (simp add: power_add [symmetric])
  have "unat (kh * GOLDEN_RATIO) < 4294967296" by (rule unat_u32_less)
  then have "unat (kh * GOLDEN_RATIO) div 2 ^ unat sh < 2 ^ (32 - unat sh)"
    using p by (metis less_mult_imp_div_less)
  then show ?thesis by (simp add: hindex_def unat_drop_bit)
qed

lemma NBUCKETS_shape:
  assumes "1 \<le> unat (shift ht)" "unat (shift ht) \<le> 28"
  shows "NBUCKETS ht = Some (push_bit (32 - unat (shift ht)) 1)"
    and "unat (push_bit (32 - unat (shift ht)) 1 :: u32) = 2 ^ (32 - unat (shift ht))"
proof -
  have "shift ht \<le> 32" using assms(2) by (simp add: word_le_nat_alt)
  then have "unat (32 - shift ht) = 32 - unat (shift ht)" by (simp add: unat_sub)
  then show "NBUCKETS ht = Some (push_bit (32 - unat (shift ht)) 1)"
    using assms by (simp add: NBUCKETS_def shl1_def PL_HASH_BITS_def)
  have "(2::nat) ^ (32 - unat (shift ht)) < 2 ^ 32"
    using assms by (intro power_strict_increasing) simp_all
  then show "unat (push_bit (32 - unat (shift ht)) 1 :: u32) = 2 ^ (32 - unat (shift ht))"
    unfolding unat_push_bit by simp
qed

lemma chains_all: "unat n = length b \<Longrightarrow> chains n b = Some b"
  by (simp add: chains_def)

lemma hash_index_ok: "shape (shift ht) bs \<Longrightarrow> hash_index ht kh = Some (hindex (shift ht) kh)"
  by (simp add: hash_index_def shape_def hindex_def)

lemma shape_update:
  assumes "shape sh bs" "\<forall>e\<in>set c. hindex sh (he_keyHash e) = h"
  shows "shape sh (bs[h := c])"
proof (cases "h < length bs")
  case True
  then show ?thesis using assms by (simp add: shape_def nth_list_update)
next
  case False
  then show ?thesis using assms by (simp add: list_update_beyond)
qed

lemma shape_in_bucket:
  assumes "shape sh bs" "e \<in> set (concat bs)"
  shows "e \<in> set (bs ! hindex sh (he_keyHash e))"
proof -
  obtain c where "c \<in> set bs" "e \<in> set c" using assms(2) by auto
  then obtain i where "i < length bs" "e \<in> set (bs ! i)" by (metis in_set_conv_nth)
  then show ?thesis using assms(1) by (auto simp: shape_def)
qed

lemma chain_find_None:
  "chain_find cmp kh key c = None \<longleftrightarrow> (\<forall>e\<in>set c. \<not> (he_keyHash e = kh \<and> cmp key (he_key e)))"
  by (induction c) (auto split: option.splits)

lemma chain_find_Some:
  "chain_find cmp kh key c = Some i \<Longrightarrow> i < length c \<and> he_keyHash (c ! i) = kh \<and> cmp key (he_key (c ! i))"
  by (induction c arbitrary: i) (auto split: option.splits if_splits)

section \<open>Lookup and the elementary stores\<close>

lemma chain_miss:
  assumes K: "hash_keys (keyHash ht) (keyCompare ht)" and inv: "ht_inv0 ht"
    and kh: "kh = keyHash ht key"
    and none: "chain_find (keyCompare ht) kh key (buckets ht ! hindex (shift ht) kh) = None"
  shows "\<forall>e\<in>set (entries ht). \<not> keyCompare ht key (he_key e)"
proof (intro ballI notI)
  fix e assume e: "e \<in> set (entries ht)" and hit: "keyCompare ht key (he_key e)"
  have sh: "shape (shift ht) (buckets ht)" and ok: "keys_ok (keyHash ht) (keyCompare ht) (entries ht)"
    using inv by (simp_all add: ht_inv0_def)
  have "he_keyHash e = kh"
    using ok e hash_keys.cmp_hash [OF K hit] kh by (simp add: keys_ok_def)
  moreover from this have "e \<in> set (buckets ht ! hindex (shift ht) kh)"
    using shape_in_bucket [OF sh, of e] e by (simp add: entries_def)
  ultimately show False using none hit by (auto simp: chain_find_None)
qed

lemma RawLookup_cases:
  assumes K: "hash_keys (keyHash ht) (keyCompare ht)" and inv: "ht_inv0 ht"
    and kh: "kh = keyHash ht key"
  obtains
    (hit) bs' e rest where
      "PL_HashTableRawLookup ht kh key = Some ((hindex (shift ht) kh, 0), ht\<lparr>buckets := bs'\<rparr>)"
      "mset (concat bs') = mset (entries ht)" "shape (shift ht) bs'"
      "bs' ! hindex (shift ht) kh = e # rest" "keyCompare ht key (he_key e)" "he_keyHash e = kh"
  | (miss) "PL_HashTableRawLookup ht kh key =
        Some ((hindex (shift ht) kh, length (buckets ht ! hindex (shift ht) kh)), ht)"
      "\<forall>e\<in>set (entries ht). \<not> keyCompare ht key (he_key e)"
proof -
  define h where "h = hindex (shift ht) kh"
  define c where "c = buckets ht ! h"
  have sh: "shape (shift ht) (buckets ht)" and ok: "keys_ok (keyHash ht) (keyCompare ht) (entries ht)"
    using inv by (simp_all add: ht_inv0_def)
  have h: "h < length (buckets ht)" using sh hindex_less by (simp add: shape_def h_def)
  have run: "PL_HashTableRawLookup ht kh key = (case chain_find (keyCompare ht) kh key c of
      None \<Rightarrow> Some ((h, length c), ht)
    | Some i \<Rightarrow> if i \<noteq> 0 then Some ((h, 0), ht\<lparr>buckets := (buckets ht)[h := c ! i # take i c @ drop (Suc i) c]\<rparr>)
               else Some ((h, 0), ht))"
    using h by (simp add: PL_HashTableRawLookup_def hash_index_ok [OF sh] rd_ok h_def [symmetric] c_def [symmetric])
  show ?thesis
  proof (cases "chain_find (keyCompare ht) kh key c")
    case None
    have "\<forall>e\<in>set (entries ht). \<not> keyCompare ht key (he_key e)"
      by (rule chain_miss [OF K inv kh None [unfolded c_def h_def]])
    then show ?thesis using miss None run by (simp add: h_def c_def)
  next
    case (Some i)
    note f = chain_find_Some [OF Some]
    let ?c = "c ! i # take i c @ drop (Suc i) c"
    let ?b = "(buckets ht)[h := ?c]"
    have m: "mset (concat ?b) = mset (entries ht)"
      unfolding entries_def using h f mset_move_front [of i c] by (intro mset_concat_update_eq) (simp_all add: c_def)
    have "set ?c = set c" using mset_eq_setD [OF mset_move_front [of i c]] f by simp
    then have s: "shape (shift ht) ?b"
      using sh h by (intro shape_update) (auto simp: shape_def c_def)
    have b0: "buckets ht = ?b" if "i = 0"
    proof -
      have "c = ?c" using f that by (cases c) simp_all
      then show ?thesis by (metis c_def list_update_id)
    qed
    have "PL_HashTableRawLookup ht kh key = Some ((h, 0), ht\<lparr>buckets := ?b\<rparr>)"
      using run Some b0 by auto
    then show ?thesis
      using m s f h by (intro hit [of ?b "c ! i" "take i c @ drop (Suc i) c"]) (simp_all add: h_def)
  qed
qed

lemma store_chain_ok:
  assumes "shape (shift ht) (buckets ht)" "i \<le> length (buckets ht ! hindex (shift ht) kh)"
  shows "store_chain ht (hindex (shift ht) kh, i) f =
    Some (ht\<lparr>buckets := (buckets ht)[hindex (shift ht) kh :=
      take i (buckets ht ! hindex (shift ht) kh) @ f (drop i (buckets ht ! hindex (shift ht) kh))]\<rparr>)"
proof -
  have "hindex (shift ht) kh < length (buckets ht)" using assms(1) hindex_less by (simp add: shape_def)
  then show ?thesis using assms(2) by (simp add: store_chain_def rd_ok)
qed

text \<open>Inserting at the end of the chain of its hash keeps the shape and adds the entry.\<close>

lemma chain_add:
  assumes "shape sh bs" "h = hindex sh (he_keyHash e)"
  shows "shape sh (bs[h := bs ! h @ [e]])"
    and "mset (concat (bs[h := bs ! h @ [e]])) = add_mset e (mset (concat bs))"
proof -
  have h: "h < length bs" using assms hindex_less by (simp add: shape_def)
  show "shape sh (bs[h := bs ! h @ [e]])"
    using assms h by (intro shape_update) (auto simp: shape_def)
  show "mset (concat (bs[h := bs ! h @ [e]])) = add_mset e (mset (concat bs))"
    using mset_concat_update [OF h, of "bs ! h @ [e]"] by simp
qed

section \<open>Rehashing\<close>

text \<open>Moving entries with new keys into a consistent table keeps it consistent, loses nothing and
  touches nothing but the buckets.\<close>

lemma rehash_chain_ok:
  assumes K: "hash_keys (keyHash ht) (keyCompare ht)" and "shape (shift ht) (buckets ht)"
    and "keys_ok (keyHash ht) (keyCompare ht) (es @ entries ht)"
  shows "\<exists>bs. rehash_chain es ht = Some (ht\<lparr>buckets := bs\<rparr>) \<and> shape (shift ht) bs \<and>
    mset (concat bs) = mset es + mset (entries ht)"
  using assms
proof (induction es arbitrary: ht)
  case Nil
  then show ?case by (intro exI [of _ "buckets ht"]) (simp add: entries_def)
next
  case (Cons e es)
  let ?kh = "he_keyHash e" and ?h = "hindex (shift ht) (he_keyHash e)"
  have ok: "he_keyHash e = keyHash ht (he_key e)"
    "\<forall>e'\<in>set (es @ entries ht). \<not> keyCompare ht (he_key e) (he_key e')"
    "keys_ok (keyHash ht) (keyCompare ht) (es @ entries ht)"
    using Cons.prems(3) hash_keys.keys_ok_Cons [OF Cons.prems(1), of e "es @ entries ht"] by simp_all
  then have inv: "ht_inv0 ht" using Cons.prems(2) by (auto simp: ht_inv0_def keys_ok_def)
  have l: "PL_HashTableRawLookup ht ?kh (he_key e) = Some ((?h, length (buckets ht ! ?h)), ht)"
  proof (cases rule: RawLookup_cases [OF Cons.prems(1) inv ok(1)])
    case hit: (1 bs' e' rest)
    have "e' \<in> set (concat bs')"
      using hit(3,4) hindex_less [of "shift ht" ?kh] by (auto simp: shape_def) (metis list.set_intros(1) nth_mem)
    then have "e' \<in> set (entries ht)" using mset_eq_setD [OF hit(2)] by metis
    then show ?thesis using ok(2) hit(5) by simp
  qed
  let ?bs = "(buckets ht)[?h := buckets ht ! ?h @ [e]]"
  let ?ht = "ht\<lparr>buckets := ?bs\<rparr>"
  note add = chain_add [OF Cons.prems(2) refl, of e]
  have m: "mset (es @ entries ?ht) = mset (e # es @ entries ht)" using add(2) by (simp add: entries_def)
  have "keys_ok (keyHash ?ht) (keyCompare ?ht) (es @ entries ?ht)"
    using Cons.prems(3) keys_ok_mset [OF m] by simp
  then obtain bs where "rehash_chain es ?ht = Some (?ht\<lparr>buckets := bs\<rparr>)" "shape (shift ht) bs"
      "mset (concat bs) = mset es + mset (entries ?ht)"
    using Cons.IH [of ?ht] Cons.prems(1) add(1) by auto
  then show ?case using l add(2) Cons.prems(2)
    by (intro exI [of _ bs]) (simp add: store_chain_ok entries_def)
qed

lemma rehash_chain_append:
  "rehash_chain (a @ b) ht = do { ht \<leftarrow> rehash_chain a ht; rehash_chain b ht }"
  by (induction a arbitrary: ht) (simp_all add: Option.bind_assoc case_prod_unfold)

lemma rehash_chains_eq: "rehash_chains cs ht = rehash_chain (concat cs) ht"
  by (induction cs arbitrary: ht) (simp_all add: rehash_chain_append)

lemma rehash_all:
  assumes K: "hash_keys (keyHash ht) (keyCompare ht)" and "keys_ok (keyHash ht) (keyCompare ht) (concat cs)"
    and "1 \<le> unat (shift ht)" "unat (shift ht) \<le> 28" "buckets ht = replicate (2 ^ (32 - unat (shift ht))) []"
  shows "\<exists>bs. rehash_chains cs ht = Some (ht\<lparr>buckets := bs\<rparr>) \<and> shape (shift ht) bs \<and>
    mset (concat bs) = mset (concat cs)"
proof -
  have "entries ht = []" using assms(5) by (simp add: entries_def)
  moreover have "shape (shift ht) (buckets ht)" using assms(3-5) by (simp add: shape_def)
  ultimately show ?thesis
    using rehash_chain_ok [OF K, of "concat cs"] assms(2) by (simp add: rehash_chains_eq)
qed

section \<open>Growing and shrinking\<close>

text \<open>Replacing the bucket vector and rehashing into it keeps the entries and the invariant, and
  releases the old vector; when the new vector cannot be allocated only the pool changes.\<close>

lemma ht_inv0_mset:
  assumes "ht_inv0 ht" "mset (entries ht') = mset (entries ht)" "shape (shift ht') (buckets ht')"
    "same_client ht ht'"
  shows "ht_inv0 ht'"
proof -
  have "keys_ok (keyHash ht) (keyCompare ht) (entries ht')"
    using assms(1) keys_ok_mset [OF assms(2)] by (simp add: ht_inv0_def)
  then show ?thesis using assms by (simp add: ht_inv0_def same_client_def)
qed

lemma ht_inv_mset:
  assumes "ht_inv ht" "mset (entries ht') = mset (entries ht)" "shape (shift ht') (buckets ht')"
    "nentries ht' = nentries ht" "same_client ht ht'"
  shows "ht_inv ht'"
  using ht_inv0_mset [OF _ assms(2,3,5)] mset_eq_length [OF assms(2)] assms(1,4) by (simp add: ht_inv_def)

lemma ht_map_mset:
  assumes "hash_keys (keyHash ht) (keyCompare ht)" "ht_inv ht"
    "mset (entries ht') = mset (entries ht)" "same_client ht ht'"
  shows "ht_map ht' = ht_map ht"
proof -
  have "keys_ok (keyHash ht) (keyCompare ht) (entries ht')"
    using assms(2) keys_ok_mset [OF assms(3)] by (simp add: ht_inv_def ht_inv0_def)
  then have "look (keyCompare ht) (entries ht') = look (keyCompare ht) (entries ht)"
    using hash_keys.look_mset [OF assms(1) assms(3)] by simp
  then show ?thesis using assms(4) by (intro ext) (simp add: ht_map_def same_client_def)
qed

lemma grow_ok:
  assumes K: "hash_keys (keyHash ht) (keyCompare ht)" and inv: "ht_inv ht" and sh: "2 \<le> unat (shift ht)"
    and n: "NBUCKETS ht = Some n"
  shows "\<exists>ok ht'. grow n ht = Some (ok, ht') \<and> ht_inv ht' \<and> same_client ht ht' \<and>
    mset (entries ht') = mset (entries ht) \<and> nentries ht' = nentries ht \<and>
    (\<not> ok \<longrightarrow> fst (allocTable (allocOps ht) (allocPriv ht) (unat (2 * n) * sizeof_ptr)) = None)"
proof (cases "allocTable (allocOps ht) (allocPriv ht) (unat (2 * n) * sizeof_ptr)")
  case (Pair r pool)
  have s: "shape (shift ht) (buckets ht)" and ok: "keys_ok (keyHash ht) (keyCompare ht) (concat (buckets ht))"
    using inv by (simp_all add: ht_inv_def ht_inv0_def entries_def)
  have s28: "unat (shift ht) \<le> 28" using s by (simp add: shape_def)
  have nn: "unat n = 2 ^ (32 - unat (shift ht))" using NBUCKETS_shape [of ht] sh s28 n by simp
  have s1: "unat (shift ht - 1) = unat (shift ht) - 1"
    using sh by (intro unat_minus_one) auto
  have e: "32 - (unat (shift ht) - 1) = Suc (32 - unat (shift ht))" using sh s28 by linarith
  have "(2::nat) ^ (32 - unat (shift ht)) \<le> 2 ^ 30" using sh by (intro power_increasing) simp_all
  then have n2: "unat (2 * n) = 2 ^ (32 - unat (shift ht - 1))"
    using nn unfolding s1 e by (simp add: unat_word_ariths)
  have len: "length (buckets ht) = unat n" using s nn by (simp add: shape_def)
  show ?thesis
  proof (cases r)
    case None
    have "ht_inv (ht\<lparr>allocPriv := pool\<rparr>)" using inv by (simp add: ht_inv_def ht_inv0_def entries_def)
    then show ?thesis using Pair None by (intro exI [of _ False]) (simp add: grow_def same_client_def entries_def)
  next
    case (Some bat)
    define ht0 where "ht0 = ht\<lparr>buckets_at := bat, buckets := replicate (unat (2 * n)) [], shift := shift ht - 1,
                     allocPriv := pool\<rparr>"
    have "\<exists>bs. rehash_chains (buckets ht) ht0 = Some (ht0\<lparr>buckets := bs\<rparr>) \<and> shape (shift ht0) bs \<and>
        mset (concat bs) = mset (concat (buckets ht))"
      using K ok s1 sh s28 n2 by (intro rehash_all) (simp_all add: ht0_def)
    then obtain bs where bs: "rehash_chains (buckets ht) ht0 = Some (ht0\<lparr>buckets := bs\<rparr>)"
        "shape (shift ht0) bs" "mset (concat bs) = mset (concat (buckets ht))" by blast
    define ht' where "ht' = (ht0\<lparr>buckets := bs\<rparr>)\<lparr>allocPriv := freeTable (allocOps ht) pool (buckets_at ht)\<rparr>"
    have g: "grow n ht = Some (True, ht')"
      using Pair Some bs(1) len by (simp add: grow_def chains_all ht0_def ht'_def)
    have c: "same_client ht ht'" "mset (entries ht') = mset (entries ht)" "nentries ht' = nentries ht"
      using bs(3) by (simp_all add: same_client_def ht'_def ht0_def entries_def)
    have "ht_inv ht'" using ht_inv_mset [OF inv c(2) _ c(3) c(1)] bs(2) by (simp add: ht'_def)
    with g c show ?thesis by blast
  qed
qed

lemma shrink_ok:
  assumes K: "hash_keys (keyHash ht) (keyCompare ht)" and inv: "ht_inv0 ht" and sh: "unat (shift ht) < 28"
    and n: "NBUCKETS ht = Some n"
  shows "\<exists>ht'. shrink n ht = Some ht' \<and> ht_inv0 ht' \<and> same_client ht ht' \<and>
    nentries ht' = nentries ht \<and> mset (entries ht') = mset (entries ht)"
proof (cases "allocTable (allocOps ht) (allocPriv ht) (unat n * sizeof_ptr div 2)")
  case (Pair r pool)
  have s: "shape (shift ht) (buckets ht)" and ok: "keys_ok (keyHash ht) (keyCompare ht) (concat (buckets ht))"
    using inv by (simp_all add: ht_inv0_def entries_def)
  have s1: "1 \<le> unat (shift ht)" using s by (simp add: shape_def)
  have nn: "unat n = 2 ^ (32 - unat (shift ht))" using NBUCKETS_shape [of ht] sh s1 n by simp
  have su: "unat (shift ht + 1) = unat (shift ht) + 1"
    using sh by (simp add: unat_word_ariths)
  have "32 - unat (shift ht) = Suc (32 - unat (shift ht + 1))" using sh unfolding su by linarith
  then have n2: "unat n div 2 = 2 ^ (32 - unat (shift ht + 1))" using nn by simp
  have len: "length (buckets ht) = unat n" using s nn by (simp add: shape_def)
  show ?thesis
  proof (cases r)
    case None
    have "ht_inv0 (ht\<lparr>allocPriv := pool\<rparr>)" using inv by (simp add: ht_inv0_def entries_def)
    then show ?thesis using Pair None by (simp add: shrink_def same_client_def entries_def)
  next
    case (Some bat)
    define ht0 where "ht0 = ht\<lparr>buckets_at := bat, buckets := replicate (unat n div 2) [], shift := shift ht + 1,
                     allocPriv := pool\<rparr>"
    have "\<exists>bs. rehash_chains (buckets ht) ht0 = Some (ht0\<lparr>buckets := bs\<rparr>) \<and> shape (shift ht0) bs \<and>
        mset (concat bs) = mset (concat (buckets ht))"
      using K ok su sh s1 n2 by (intro rehash_all) (simp_all add: ht0_def)
    then obtain bs where bs: "rehash_chains (buckets ht) ht0 = Some (ht0\<lparr>buckets := bs\<rparr>)"
        "shape (shift ht0) bs" "mset (concat bs) = mset (concat (buckets ht))" by blast
    define ht' where "ht' = (ht0\<lparr>buckets := bs\<rparr>)\<lparr>allocPriv := freeTable (allocOps ht) pool (buckets_at ht)\<rparr>"
    have g: "shrink n ht = Some ht'"
      using Pair Some bs(1) len by (simp add: shrink_def chains_all ht0_def ht'_def)
    have c: "same_client ht ht'" "mset (entries ht') = mset (entries ht)" "nentries ht' = nentries ht"
      using bs(3) by (simp_all add: same_client_def ht'_def ht0_def entries_def)
    have "ht_inv0 ht'" using ht_inv0_mset [OF inv c(2) _ c(1)] bs(2) by (simp add: ht'_def)
    with g c show ?thesis by blast
  qed
qed

section \<open>Adding and removing one entry\<close>

lemma ht_map_add:
  assumes K: "hash_keys (keyHash ht) (keyCompare ht)" and ok: "keys_ok (keyHash ht) (keyCompare ht) (he # es)"
    and m: "mset (entries ht) = mset (he # es)"
  shows "ht_map ht = (\<lambda>k. if keyCompare ht (he_key he) k then Some (he_value he)
                          else map_option he_value (look (keyCompare ht) es k))"
proof -
  have "look (keyCompare ht) (entries ht) = look (keyCompare ht) (he # es)"
    using hash_keys.look_mset [OF K m [symmetric] ok] by simp
  then show ?thesis using hash_keys.look_Cons [OF K ok] by (auto simp: ht_map_def fun_eq_iff)
qed

lemma ht_map_del:
  assumes K: "hash_keys (keyHash ht) (keyCompare ht)" and inv: "ht_inv ht"
    and m: "mset (entries ht) = mset (he # es)"
  shows "map_option he_value \<circ> look (keyCompare ht) es =
    (\<lambda>k. if keyCompare ht (he_key he) k then None else ht_map ht k)"
proof -
  have ok: "keys_ok (keyHash ht) (keyCompare ht) (he # es)"
    using inv keys_ok_mset [OF m] by (simp add: ht_inv_def ht_inv0_def)
  have "look (keyCompare ht) (entries ht) = look (keyCompare ht) (he # es)"
    using hash_keys.look_mset [OF K m [symmetric] ok] by simp
  then show ?thesis using hash_keys.look_remove [OF K ok] by (auto simp: ht_map_def fun_eq_iff)
qed

lemma link_new_ok:
  assumes K: "hash_keys (keyHash ht) (keyCompare ht)" and inv: "ht_inv ht"
    and few: "unat (nentries ht) < 2 ^ 30" and kh: "kh = keyHash ht key"
    and miss: "\<forall>e\<in>set (entries ht). \<not> keyCompare ht key (he_key e)"
    and hep: "hep = (hindex (shift ht) kh, length (buckets ht ! hindex (shift ht) kh))"
  shows "\<exists>r ht'. link_new ht hep kh key value = Some (r, ht') \<and> ht_inv ht' \<and> same_client ht ht' \<and>
    unat (nentries ht') \<le> unat (nentries ht) + 1 \<and>
    (r = None \<longrightarrow> ht_map ht' = ht_map ht) \<and>
    (\<forall>he. r = Some he \<longrightarrow> he_key he = key \<and> he_value he = value \<and>
       ht_map ht' = (\<lambda>k. if keyCompare ht key k then Some value else ht_map ht k))"
proof (cases "allocEntry (allocOps ht) (allocPriv ht) key")
  case (Pair r pool)
  show ?thesis
  proof (cases r)
    case None
    then show ?thesis using Pair inv
      by (simp add: link_new_def ht_inv_def ht_inv0_def ht_map_def entries_def same_client_def fun_eq_iff)
  next
    case (Some a)
    define he where "he = \<lparr>he_at = a, he_keyHash = kh, he_key = key, he_value = value\<rparr>"
    define h where "h = hindex (shift ht) kh"
    have s: "shape (shift ht) (buckets ht)" using inv by (simp add: ht_inv_def ht_inv0_def)
    note add = chain_add [OF s, of h he]
    define ht' where "ht' = ht\<lparr>allocPriv := pool, buckets := (buckets ht)[h := buckets ht ! h @ [he]],
      nentries := nentries ht + 1\<rparr>"
    have run: "link_new ht hep kh key value = Some (Some he, ht')"
    proof -
      have "store_chain (ht\<lparr>allocPriv := pool\<rparr>) hep (\<lambda>next. he # next) =
          Some (ht\<lparr>allocPriv := pool, buckets := (buckets ht)[h := buckets ht ! h @ [he]]\<rparr>)"
        using store_chain_ok [of "ht\<lparr>allocPriv := pool\<rparr>"] s hep by (simp add: h_def)
      then show ?thesis using Pair Some by (simp add: link_new_def he_def [symmetric] ht'_def)
    qed
    have c: "same_client ht ht'" by (simp add: same_client_def ht'_def)
    have m: "mset (entries ht') = mset (he # entries ht)"
      using add(2) by (simp add: entries_def ht'_def h_def he_def)
    have ok: "keys_ok (keyHash ht) (keyCompare ht) (he # entries ht)"
      using inv miss kh hash_keys.keys_ok_Cons [OF K, of he "entries ht"]
      by (simp add: ht_inv_def ht_inv0_def he_def)
    have n1: "unat (nentries ht + 1) = unat (nentries ht) + 1"
      using few by (simp add: unat_word_ariths)
    then have inv': "ht_inv ht'"
      using add(1) ok keys_ok_mset [OF m] mset_eq_length [OF m] inv
      by (simp add: ht_inv_def ht_inv0_def ht'_def h_def he_def)
    have "ht_map ht' = (\<lambda>k. if keyCompare ht key k then Some value else ht_map ht k)"
    proof -
      have 1: "keyHash ht' = keyHash ht" "keyCompare ht' = keyCompare ht"
        using c by (simp_all add: same_client_def)
      show ?thesis
        using ht_map_add [of ht' he "entries ht"] K ok m unfolding 1 by (intro ext) (simp add: he_def ht_map_def)
    qed
    then show ?thesis using run inv' c n1 by (simp add: he_def ht'_def)
  qed
qed

lemma same_client_trans: "same_client a b \<Longrightarrow> same_client b c \<Longrightarrow> same_client a c"
  by (simp add: same_client_def)

text \<open>With fewer than \<open>2 ^ 30\<close> entries the vector is never at its largest size when it is full.\<close>

lemma overloaded_shift:
  assumes "ht_inv ht" "unat (nentries ht) < 2 ^ 30" "NBUCKETS ht = Some n" "nentries ht \<ge> OVERLOADED n"
  shows "2 \<le> unat (shift ht)"
proof (rule ccontr)
  assume "\<not> 2 \<le> unat (shift ht)"
  then have 1: "unat (shift ht) = 1" using assms(1) by (simp add: ht_inv_def ht_inv0_def shape_def)
  then have "n = push_bit 31 1" using NBUCKETS_shape(1) [of ht] assms(3) by simp
  then have "OVERLOADED n = 0x70000000" by (simp add: OVERLOADED_def)
  then have "0x70000000 \<le> unat (nentries ht)" using assms(4) by (simp add: word_le_nat_alt)
  then show False using assms(2) by simp
qed

lemma entries_hit:
  assumes "shape (shift ht) bs'" "bs' ! hindex (shift ht) kh = e # rest"
  shows "mset (concat bs') = add_mset e (mset (concat (bs'[hindex (shift ht) kh := rest])))"
proof -
  have "hindex (shift ht) kh < length bs'" using assms hindex_less by (simp add: shape_def)
  from mset_concat_update [OF this, of rest] show ?thesis using assms(2) by simp
qed

lemma RawAdd_ok:
  assumes K: "hash_keys (keyHash ht) (keyCompare ht)" and inv: "ht_inv ht"
    and few: "unat (nentries ht) < 2 ^ 30" and kh: "kh = keyHash ht key"
    and miss: "\<forall>e\<in>set (entries ht). \<not> keyCompare ht key (he_key e)"
    and hep: "hep = (hindex (shift ht) kh, length (buckets ht ! hindex (shift ht) kh))"
  shows "\<exists>r ht'. PL_HashTableRawAdd ht hep kh key value = Some (r, ht') \<and> ht_inv ht' \<and> same_client ht ht' \<and>
    unat (nentries ht') \<le> unat (nentries ht) + 1 \<and>
    (r = None \<longrightarrow> ht_map ht' = ht_map ht) \<and>
    (\<forall>he. r = Some he \<longrightarrow> he_key he = key \<and> he_value he = value \<and>
       ht_map ht' = (\<lambda>k. if keyCompare ht key k then Some value else ht_map ht k))"
proof -
  have "1 \<le> unat (shift ht)" "unat (shift ht) \<le> 28" using inv by (simp_all add: ht_inv_def ht_inv0_def shape_def)
  then obtain n where n: "NBUCKETS ht = Some n" using NBUCKETS_shape(1) by blast
  show ?thesis
  proof (cases "nentries ht \<ge> OVERLOADED n")
    case False
    then show ?thesis using link_new_ok [OF assms] n by (simp add: PL_HashTableRawAdd_def)
  next
    case True
    obtain ok ht1 where g: "grow n ht = Some (ok, ht1)" "ht_inv ht1" "same_client ht ht1"
        "mset (entries ht1) = mset (entries ht)" "nentries ht1 = nentries ht"
      using grow_ok [OF K inv overloaded_shift [OF inv few n True] n] by blast
    have mp: "ht_map ht1 = ht_map ht" by (rule ht_map_mset [OF K inv g(4,3)])
    have 1: "keyHash ht1 = keyHash ht" "keyCompare ht1 = keyCompare ht" using g(3) by (simp_all add: same_client_def)
    have miss1: "\<forall>e\<in>set (entries ht1). \<not> keyCompare ht1 key (he_key e)"
      using miss mset_eq_setD [OF g(4)] unfolding 1 by simp
    have K1: "hash_keys (keyHash ht1) (keyCompare ht1)" using K unfolding 1 .
    have kh1: "kh = keyHash ht1 key" using kh unfolding 1 .
    show ?thesis
    proof (cases ok)
      case False
      then show ?thesis using n True g mp by (simp add: PL_HashTableRawAdd_def)
    next
      case ok: True
      let ?hep = "(hindex (shift ht1) kh, length (buckets ht1 ! hindex (shift ht1) kh))"
      have l: "PL_HashTableRawLookup ht1 kh key = Some (?hep, ht1)"
      proof (cases rule: RawLookup_cases [OF K1 _ kh1])
        case 1 then show ?case using g(2) by (simp add: ht_inv_def)
      next
        case hit: (2 bs' e rest)
        have "e \<in># mset (concat bs')" using entries_hit [OF hit(3,4)] by simp
        then have "e \<in> set (entries ht1)" unfolding hit(2) by simp
        then show ?thesis using miss1 hit(5) by blast
      next
        case 3 then show ?thesis by simp
      qed
      have few1: "unat (nentries ht1) < 2 ^ 30" using few g(5) by simp
      obtain r ht' where r: "link_new ht1 ?hep kh key value = Some (r, ht')" "ht_inv ht'" "same_client ht1 ht'"
          "unat (nentries ht') \<le> unat (nentries ht1) + 1" "r = None \<longrightarrow> ht_map ht' = ht_map ht1"
          "\<forall>he. r = Some he \<longrightarrow> he_key he = key \<and> he_value he = value \<and>
             ht_map ht' = (\<lambda>k. if keyCompare ht1 key k then Some value else ht_map ht1 k)"
        using link_new_ok [OF K1 g(2) few1 kh1 miss1 refl] by blast
      have run: "PL_HashTableRawAdd ht hep kh key value = Some (r, ht')"
        using n True g(1) ok l r(1) by (simp add: PL_HashTableRawAdd_def)
      have "same_client ht ht'" by (rule same_client_trans [OF g(3) r(3)])
      then show ?thesis using run r(2,4-) unfolding mp 1 g(5) by blast
    qed
  qed
qed

lemma dispose_ok:
  assumes K: "hash_keys (keyHash ht) (keyCompare ht)" and inv0: "ht_inv0 ht" and cnt: "nentries ht \<noteq> 0"
  shows "\<exists>ht'. dispose ht he = Some ht' \<and> ht_inv0 ht' \<and> same_client ht ht' \<and>
    unat (nentries ht') = unat (nentries ht) - 1 \<and> mset (entries ht') = mset (entries ht)"
proof -
  define ht1 where "ht1 = ht\<lparr>allocPriv := freeEntry (allocOps ht) (allocPriv ht) he HT_FREE_ENTRY,
    nentries := nentries ht - 1\<rparr>"
  have cnt1: "unat (nentries ht1) = unat (nentries ht) - 1"
    using cnt by (simp add: ht1_def unat_minus_one)
  have inv: "ht_inv0 ht1" using inv0 by (simp add: ht_inv0_def ht1_def entries_def)
  have c: "same_client ht ht1" "entries ht1 = entries ht" by (simp_all add: same_client_def ht1_def entries_def)
  have "1 \<le> unat (shift ht1)" "unat (shift ht1) \<le> 28" using inv by (simp_all add: ht_inv0_def shape_def)
  note nb = NBUCKETS_shape [OF this]
  let ?n = "push_bit (32 - unat (shift ht1)) 1 :: u32"
  have run: "dispose ht he = (if nentries ht1 < UNDERLOADED ?n then shrink ?n ht1 else Some ht1)"
    using nb(1) by (simp add: dispose_def ht1_def Let_def NBUCKETS_def)
  show ?thesis
  proof (cases "nentries ht1 < UNDERLOADED ?n")
    case True
    then have "?n > MINBUCKETS" by (auto simp: UNDERLOADED_def split: if_splits)
    then have "16 < (2::nat) ^ (32 - unat (shift ht1))"
      using nb(2) by (simp add: word_less_nat_alt MINBUCKETS_def)
    then have "unat (shift ht1) < 28"
    proof (rule contrapos_pp)
      assume "\<not> unat (shift ht1) < 28"
      then have "(2::nat) ^ (32 - unat (shift ht1)) \<le> 2 ^ 4" by (intro power_increasing) auto
      then show "\<not> 16 < (2::nat) ^ (32 - unat (shift ht1))" by simp
    qed
    moreover have "hash_keys (keyHash ht1) (keyCompare ht1)" using K by (simp add: ht1_def)
    ultimately obtain ht' where "shrink ?n ht1 = Some ht'" "ht_inv0 ht'" "same_client ht1 ht'"
        "nentries ht' = nentries ht1" "mset (entries ht') = mset (entries ht1)"
      using shrink_ok [OF _ inv _ nb(1)] by blast
    then show ?thesis using run True c cnt1 same_client_trans [OF c(1)] by simp
  next
    case False
    then show ?thesis using run inv c cnt1 by simp
  qed
qed

section \<open>The operations on the abstract map\<close>

lemma ht_inv_ht_inv0: "ht_inv ht \<Longrightarrow> ht_inv0 ht"
  by (simp add: ht_inv_def)

lemma hit_facts:
  assumes K: "hash_keys (keyHash ht) (keyCompare ht)" and inv: "ht_inv ht"
    and "mset (concat bs') = mset (entries ht)" "shape (shift ht) bs'"
    and "bs' ! hindex (shift ht) kh = e # rest" "keyCompare ht key (he_key e)"
  shows "ht_inv (ht\<lparr>buckets := bs'\<rparr>)" "ht_map (ht\<lparr>buckets := bs'\<rparr>) = ht_map ht"
    "ht_map ht key = Some (he_value e)"
    "deref (ht\<lparr>buckets := bs'\<rparr>) (hindex (shift ht) kh, 0) = Some (Some e)"
proof -
  let ?ht = "ht\<lparr>buckets := bs'\<rparr>"
  have c: "same_client ht ?ht" "mset (entries ?ht) = mset (entries ht)"
    using assms(3) by (simp_all add: same_client_def entries_def)
  show "ht_inv ?ht" using ht_inv_mset [OF inv c(2) _ _ c(1)] assms(4) by simp
  show "ht_map ?ht = ht_map ht" by (rule ht_map_mset [OF K inv c(2,1)])
  have "e \<in># mset (concat bs')" using entries_hit [OF assms(4,5)] by simp
  then have "e \<in> set (entries ht)" unfolding assms(3) by simp
  then have "look (keyCompare ht) (entries ht) key = Some e"
    using hash_keys.look_Some [OF K] inv assms(6) by (auto simp: ht_inv_def ht_inv0_def)
  then show "ht_map ht key = Some (he_value e)" by (simp add: ht_map_def)
  have "hindex (shift ht) kh < length bs'" using assms(4) hindex_less by (simp add: shape_def)
  then show "deref ?ht (hindex (shift ht) kh, 0) = Some (Some e)"
    using assms(5) by (simp add: deref_def rd_ok)
qed

lemma miss_facts:
  assumes K: "hash_keys (keyHash ht) (keyCompare ht)" and inv: "ht_inv ht"
    and "\<forall>e\<in>set (entries ht). \<not> keyCompare ht key (he_key e)"
  shows "ht_map ht key = None"
    "deref ht (hindex (shift ht) kh, length (buckets ht ! hindex (shift ht) kh)) = Some None"
proof -
  show "ht_map ht key = None" using hash_keys.look_None [OF K, of "entries ht" key] assms(3) by (simp add: ht_map_def)
  have "hindex (shift ht) kh < length (buckets ht)"
    using inv hindex_less by (simp add: ht_inv_def ht_inv0_def shape_def)
  then show "deref ht (hindex (shift ht) kh, length (buckets ht ! hindex (shift ht) kh)) = Some None"
    by (simp add: deref_def rd_ok)
qed

lemma Lookup_ok:
  assumes K: "hash_keys (keyHash ht) (keyCompare ht)" and inv: "ht_inv ht"
  shows "\<exists>v ht'. PL_HashTableLookup ht key = Some (v, ht') \<and> ht_inv ht' \<and> same_client ht ht' \<and>
    nentries ht' = nentries ht \<and> ht_map ht' = ht_map ht \<and> v = Option.bind (ht_map ht key) id"
proof (cases rule: RawLookup_cases [OF K ht_inv_ht_inv0 [OF inv] refl, of key])
  case hit: (1 bs' e rest)
  note f = hit_facts [OF K inv hit(2-5)]
  show ?thesis using hit(1) f by (simp add: PL_HashTableLookup_def same_client_def)
next
  case miss: 2
  note f = miss_facts [OF K inv miss(2)]
  show ?thesis using miss(1) f inv by (simp add: PL_HashTableLookup_def same_client_def)
qed

lemma LookupConst_ok:
  assumes K: "hash_keys (keyHash ht) (keyCompare ht)" and inv: "ht_inv ht"
  shows "PL_HashTableLookupConst ht key = Some (Option.bind (ht_map ht key) id)"
proof -
  define h where "h = hindex (shift ht) (keyHash ht key)"
  define c where "c = buckets ht ! h"
  have s: "shape (shift ht) (buckets ht)" using inv by (simp add: ht_inv_def ht_inv0_def)
  have h: "h < length (buckets ht)" using s hindex_less by (simp add: shape_def h_def)
  have run: "PL_HashTableRawLookupConst ht (keyHash ht key) key =
      (case chain_find (keyCompare ht) (keyHash ht key) key c of None \<Rightarrow> Some (h, length c) | Some i \<Rightarrow> Some (h, i))"
    using h by (simp add: PL_HashTableRawLookupConst_def hash_index_ok [OF s] rd_ok h_def [symmetric] c_def [symmetric])
  show ?thesis
  proof (cases "chain_find (keyCompare ht) (keyHash ht key) key c")
    case None
    have "\<forall>e\<in>set (entries ht). \<not> keyCompare ht key (he_key e)"
      by (rule chain_miss [OF K ht_inv_ht_inv0 [OF inv] refl None [unfolded c_def h_def]])
    note f = miss_facts(1) [OF K inv this] miss_facts(2) [OF K inv this, where kh = "keyHash ht key"]
    then show ?thesis using run None by (simp add: PL_HashTableLookupConst_def h_def c_def)
  next
    case (Some i)
    note f = chain_find_Some [OF Some]
    have "c \<in> set (buckets ht)" using h by (simp add: c_def)
    then have "c ! i \<in> set (entries ht)" using f by (auto simp: entries_def intro!: bexI [of _ c])
    then have "look (keyCompare ht) (entries ht) key = Some (c ! i)"
      using hash_keys.look_Some [OF K] inv f by (auto simp: ht_inv_def ht_inv0_def)
    moreover have "deref ht (h, i) = Some (Some (c ! i))" using f h by (simp add: deref_def rd_ok c_def)
    ultimately show ?thesis using run Some by (simp add: PL_HashTableLookupConst_def ht_map_def)
  qed
qed

lemma Add_ok:
  assumes K: "hash_keys (keyHash ht) (keyCompare ht)" and inv: "ht_inv ht"
    and few: "unat (nentries ht) < 2 ^ 30"
  shows "\<exists>r ht'. PL_HashTableAdd ht key value = Some (r, ht') \<and> ht_inv ht' \<and> same_client ht ht' \<and>
    unat (nentries ht') \<le> unat (nentries ht) + 1 \<and>
    (r = None \<longrightarrow> ht_map ht key = None \<and> ht_map ht' = ht_map ht) \<and>
    (\<forall>he. r = Some he \<longrightarrow> (he_value he = value \<or> valueCompare ht (he_value he) value) \<and>
       keyCompare ht key (he_key he) \<and>
       ht_map ht' = (\<lambda>k. if keyCompare ht key k then Some (he_value he) else ht_map ht k))"
proof (cases rule: RawLookup_cases [OF K ht_inv_ht_inv0 [OF inv] refl, of key])
  case miss: 2
  note f = miss_facts(1) [OF K inv miss(2)] miss_facts(2) [OF K inv miss(2), where kh = "keyHash ht key"]
  obtain r ht' where r: "PL_HashTableRawAdd ht
      (hindex (shift ht) (keyHash ht key), length (buckets ht ! hindex (shift ht) (keyHash ht key)))
      (keyHash ht key) key value = Some (r, ht')" "ht_inv ht'" "same_client ht ht'"
      "unat (nentries ht') \<le> unat (nentries ht) + 1" "r = None \<longrightarrow> ht_map ht' = ht_map ht"
      "\<forall>he. r = Some he \<longrightarrow> he_key he = key \<and> he_value he = value \<and>
         ht_map ht' = (\<lambda>k. if keyCompare ht key k then Some value else ht_map ht k)"
    using RawAdd_ok [OF K inv few refl miss(2) refl] by blast
  have "PL_HashTableAdd ht key value = Some (r, ht')"
    using miss(1) f(2) r(1) by (simp add: PL_HashTableAdd_def)
  then show ?thesis using r(2-) f(1) hash_keys.cmp_refl [OF K] by auto
next
  case hit: (1 bs' e rest)
  let ?kh = "keyHash ht key" and ?h = "hindex (shift ht) (keyHash ht key)"
  let ?ht = "ht\<lparr>buckets := bs'\<rparr>"
  note f = hit_facts [OF K inv hit(2-5)]
  have sub: "ht_map ht = (\<lambda>k. if keyCompare ht key k then Some (he_value e) else ht_map ht k)"
    (is "_ = ?m")
  proof
    fix k
    show "ht_map ht k = ?m k"
    proof (cases "keyCompare ht key k")
      case True
      then have "keyCompare ht k (he_key e)" using hit(5) hash_keys.cmp_sym [OF K] hash_keys.cmp_trans [OF K] by blast
      then show ?thesis using hit_facts(3) [OF K inv hit(2-4), of k] True by simp
    qed simp
  qed
  show ?thesis
  proof (cases "valueCompare ht (he_value e) value")
    case True
    then have "PL_HashTableAdd ht key value = Some (Some e, ?ht)"
      using hit(1) f(4) by (simp add: PL_HashTableAdd_def)
    then show ?thesis using f True hit(5) sub by (simp add: same_client_def)
  next
    case False
    define pool where "pool = (if he_value e \<noteq> None
      then freeEntry (allocOps ?ht) (allocPriv ?ht) e HT_FREE_VALUE else allocPriv ?ht)"
    define e' where "e' = e\<lparr>he_value := value\<rparr>"
    define ht' where "ht' = ht\<lparr>buckets := bs'[?h := e' # rest], allocPriv := pool\<rparr>"
    have "store_chain (?ht\<lparr>allocPriv := pool\<rparr>) (?h, 0) (\<lambda>c. e' # tl c) = Some ht'"
      using store_chain_ok [of "?ht\<lparr>allocPriv := pool\<rparr>" 0 ?kh] hit(3,4) by (simp add: ht'_def)
    then have run: "PL_HashTableAdd ht key value = Some (Some e', ht')"
      using hit(1) f(4) False by (simp add: PL_HashTableAdd_def Let_def pool_def [symmetric] e'_def [symmetric]
          del: not_None_eq split del: if_split)
    define es where "es = concat (bs'[?h := rest])"
    have hl: "?h < length bs'" using hit(3) hindex_less by (simp add: shape_def)
    have m: "mset (entries ht) = mset (e # es)" using entries_hit [OF hit(3,4)] hit(2) by (simp add: es_def)
    have m': "mset (entries ht') = mset (e' # es)"
      using mset_concat_update [OF hl, of "e' # rest"] entries_hit [OF hit(3,4)] hit(4)
      by (simp add: es_def ht'_def entries_def)
    have sh': "shape (shift ht) (bs'[?h := e' # rest])"
      using hit(3,4) hl by (intro shape_update) (auto simp: shape_def e'_def)
    have ok: "keys_ok (keyHash ht) (keyCompare ht) (e # es)"
      using inv keys_ok_mset [OF m] by (simp add: ht_inv_def ht_inv0_def)
    then have ok': "keys_ok (keyHash ht) (keyCompare ht) (e' # es)" by (simp add: keys_ok_def e'_def)
    have inv': "ht_inv ht'"
      using inv sh' ok' keys_ok_mset [OF m'] mset_eq_length [OF m] mset_eq_length [OF m']
      by (simp add: ht_inv_def ht_inv0_def ht'_def)
    have v: "he_value e' = value" "keyHash ht' = keyHash ht" "keyCompare ht' = keyCompare ht"
      by (simp_all add: ht'_def e'_def)
    have eqv: "keyCompare ht (he_key e) k \<longleftrightarrow> keyCompare ht key k" for k by (rule hash_keys.cmp_eqv [OF K hit(5)])
    have "ht_map ht' = (\<lambda>k. if keyCompare ht (he_key e') k then Some value else map_option he_value (look (keyCompare ht) es k))"
      using ht_map_add [of ht' e' es] K ok' m' unfolding v by simp
    also have "\<dots> = (\<lambda>k. if keyCompare ht key k then Some value else ht_map ht k)"
      using fun_cong [OF ht_map_del [OF K inv m]] by (intro ext) (simp add: e'_def eqv)
    finally have "ht_map ht' = (\<lambda>k. if keyCompare ht key k then Some value else ht_map ht k)" .
    then show ?thesis using run inv' hit(5) by (auto simp: same_client_def ht'_def e'_def)
  qed
qed

lemma Remove_ok:
  assumes K: "hash_keys (keyHash ht) (keyCompare ht)" and inv: "ht_inv ht"
  shows "\<exists>r ht'. PL_HashTableRemove ht key = Some (r, ht') \<and> ht_inv ht' \<and> same_client ht ht' \<and>
    unat (nentries ht') \<le> unat (nentries ht) \<and> (r \<longleftrightarrow> ht_map ht key \<noteq> None) \<and>
    ht_map ht' = (\<lambda>k. if keyCompare ht key k then None else ht_map ht k)"
proof (cases rule: RawLookup_cases [OF K ht_inv_ht_inv0 [OF inv] refl, of key])
  case miss: 2
  note f = miss_facts(1) [OF K inv miss(2)] miss_facts(2) [OF K inv miss(2), where kh = "keyHash ht key"]
  have run: "PL_HashTableRemove ht key = Some (False, ht)"
    using miss(1) f(2) by (simp add: PL_HashTableRemove_def)
  have "ht_map ht k = None" if "keyCompare ht key k" for k
    using miss(2) hash_keys.cmp_eqv [OF K that] hash_keys.look_None [OF K, of "entries ht" k] by (simp add: ht_map_def)
  then show ?thesis using run inv f(1) by (auto simp: same_client_def fun_eq_iff)
next
  case hit: (1 bs' e rest)
  let ?kh = "keyHash ht key" and ?h = "hindex (shift ht) (keyHash ht key)"
  note f = hit_facts [OF K inv hit(2-5)]
  define ht1 where "ht1 = ht\<lparr>buckets := bs'[?h := rest]\<rparr>"
  have hl: "?h < length bs'" using hit(3) hindex_less by (simp add: shape_def)
  have m: "mset (entries ht) = mset (e # entries ht1)"
    using entries_hit [OF hit(3,4)] hit(2) by (simp add: ht1_def entries_def)
  have sh1: "shape (shift ht) (bs'[?h := rest])"
    using hit(3,4) hl by (intro shape_update) (auto simp: shape_def)
  have "keys_ok (keyHash ht) (keyCompare ht) (e # entries ht1)"
    using inv keys_ok_mset [OF m] by (simp add: ht_inv_def ht_inv0_def)
  then have inv1: "ht_inv0 ht1"
    using sh1 hash_keys.keys_ok_Cons [OF K, of e "entries ht1"] by (simp add: ht_inv0_def ht1_def)
  have c1: "same_client ht ht1" by (simp add: same_client_def ht1_def)
  have K1: "hash_keys (keyHash ht1) (keyCompare ht1)" using K by (simp add: ht1_def)
  have n1: "unat (nentries ht1) = Suc (length (entries ht1))"
    using inv mset_eq_length [OF m] by (simp add: ht_inv_def ht1_def)
  then have "nentries ht1 \<noteq> 0" by auto
  from dispose_ok [OF K1 inv1 this] obtain ht' where d0: "dispose ht1 e = Some ht'" "ht_inv0 ht'"
    "same_client ht1 ht'" "mset (entries ht') = mset (entries ht1)" "unat (nentries ht') = unat (nentries ht1) - 1"
    by blast
  then have "ht_inv ht'" using n1 mset_eq_length [OF d0(4)] by (simp add: ht_inv_def)
  note d = d0(1) this d0(3,4)
  have "store_chain (ht\<lparr>buckets := bs'\<rparr>) (?h, 0) tl = Some ht1"
    using store_chain_ok [of "ht\<lparr>buckets := bs'\<rparr>" 0 ?kh] hit(3,4) by (simp add: ht1_def)
  then have run: "PL_HashTableRemove ht key = Some (True, ht')"
    using hit(1) f(4) d(1) by (simp add: PL_HashTableRemove_def PL_HashTableRawRemove_def)
  have c: "same_client ht ht'" by (rule same_client_trans [OF c1 d(3)])
  have "keys_ok (keyHash ht) (keyCompare ht) (entries ht')"
    using d(2) c by (simp add: ht_inv_def ht_inv0_def same_client_def)
  then have "look (keyCompare ht) (entries ht') = look (keyCompare ht) (entries ht1)"
    by (rule hash_keys.look_mset [OF K d(4)])
  then have "ht_map ht' = map_option he_value \<circ> look (keyCompare ht) (entries ht1)"
    using c by (intro ext) (simp add: ht_map_def same_client_def)
  also have "\<dots> = (\<lambda>k. if keyCompare ht key k then None else ht_map ht k)"
    using ht_map_del [OF K inv m] hash_keys.cmp_eqv [OF K hit(5)] by simp
  finally show ?thesis using run d(2) c f(3) d0(5) by (intro exI [of _ True] exI [of _ ht']) (simp add: ht1_def)
qed

section \<open>Creation and enumeration\<close>

lemma New_ok:
  assumes "unat n \<le> 2 ^ 31"
  shows "\<exists>r pool'. PL_NewHashTable malloc free n hash cmp vcmp ops pool = Some (r, pool') \<and>
    (\<forall>ht. r = Some ht \<longrightarrow> ht_inv ht \<and> ht_map ht = Map.empty \<and> nentries ht = 0 \<and> keyHash ht = hash \<and>
       keyCompare ht = cmp \<and> valueCompare ht = vcmp \<and> allocPriv ht = pool' \<and> unat n \<le> length (buckets ht))"
proof -
  define l where "l = (if n \<le> MINBUCKETS then 4 else PR_CeilingLog2 n)"
  have l: "4 \<le> l \<and> l \<le> 31 \<and> unat n \<le> 2 ^ l"
  proof (cases "n \<le> MINBUCKETS")
    case True
    then show ?thesis by (simp add: l_def MINBUCKETS_def word_le_nat_alt)
  next
    case False
    then have n0: "n \<noteq> 0" and n16: "16 < unat n" by (auto simp: MINBUCKETS_def word_le_nat_alt)
    have "\<not> 31 < PR_CeilingLog2 n" using CeilingLog2_least [OF n0, of 31] assms by auto
    moreover have "\<not> PR_CeilingLog2 n < 4"
    proof
      assume "PR_CeilingLog2 n < 4"
      then have "(2::nat) ^ PR_CeilingLog2 n \<le> 2 ^ 4" by (intro power_increasing) simp_all
      then show False using CeilingLog2_upper [OF n0] n16 by simp
    qed
    ultimately show ?thesis using CeilingLog2_upper [OF n0] False by (simp add: l_def)
  qed
  define w where "w = (word_of_nat l :: u32)"
  have w: "unat w = l" using l unfolding w_def by (intro unat_word_of_nat_u32) simp
  have wl: "(if n \<le> MINBUCKETS then MINBUCKETSLOG2 else word_of_nat (PR_CeilingLog2 n)) = w"
    by (simp add: w_def l_def MINBUCKETSLOG2_def)
  have si: "\<not> sint w < 0"
  proof -
    have "w < 32" using w l by (simp add: word_less_nat_alt)
    then have "uint w < 32" by (simp add: word_less_def)
    moreover have "- 2147483648 \<le> uint w" by (rule order_trans [OF _ uint_ge_0]) simp
    ultimately have "sint w = uint w"
      unfolding sint_uint by (intro signed_take_bit_int_eq_self) simp_all
    then show ?thesis by simp
  qed
  define nb where "nb = (push_bit l 1 :: u32)"
  have "(2::nat) ^ l < 2 ^ 32" using l by (intro power_strict_increasing) simp_all
  then have nb: "shl1 w = Some nb" "unat nb = 2 ^ l"
    using w l unfolding shl1_def nb_def unat_push_bit by simp_all
  have shw: "unat (PL_HASH_BITS - w) = 32 - l"
    using w l by (simp add: PL_HASH_BITS_def unat_sub word_le_nat_alt)
  have shp: "shape (PL_HASH_BITS - w) (replicate (unat nb) [])"
  proof -
    have "1 \<le> 32 - l" "32 - l \<le> 28" "32 - (32 - l) = l" using l by linarith+
    then show ?thesis unfolding shape_def shw nb(2) by simp
  qed
  have len: "unat n \<le> unat nb" using l nb(2) by simp
  define ops' where "ops' = (case ops of None \<Rightarrow> defaultHashAllocOps malloc free | Some o1 \<Rightarrow> o1)"
  define mk where "mk a bat p = \<lparr>ht_at = a, buckets_at = bat, buckets = replicate (unat nb) [],
      nentries = 0, shift = PL_HASH_BITS - w, keyHash = hash, keyCompare = cmp, valueCompare = vcmp,
      allocOps = ops', allocPriv = p\<rparr>" for a bat p
  have mk: "ht_inv (mk a bat p)" "ht_map (mk a bat p) = Map.empty" for a bat p
    using shp by (simp_all add: mk_def ht_inv_def ht_inv0_def entries_def keys_ok_def ht_map_def look_def fun_eq_iff)
  have run: "PL_NewHashTable malloc free n hash cmp vcmp ops pool =
    (case allocTable ops' pool sizeof_PLHashTable of
       (None, p) \<Rightarrow> Some (None, p)
     | (Some a, p) \<Rightarrow> (case allocTable ops' p (unat nb * sizeof_ptr) of
         (None, p) \<Rightarrow> Some (None, freeTable ops' p a) | (Some bat, p) \<Rightarrow> Some (Some (mk a bat p), p)))"
    unfolding PL_NewHashTable_def Let_def wl ops'_def [symmetric] mk_def using si nb(1)
    by (simp split: prod.splits option.splits)
  show ?thesis
  proof (cases "allocTable ops' pool sizeof_PLHashTable")
    case (Pair a p)
    then show ?thesis
    proof (cases a)
      case None
      then show ?thesis using Pair run by simp
    next
      case (Some b)
      show ?thesis
        using Pair Some run mk len
        by (cases "allocTable ops' p (unat nb * sizeof_ptr)"; cases "fst (allocTable ops' p (unat nb * sizeof_ptr))")
          (auto simp: mk_def)
    qed
  qed
qed

lemma free_chains_fold:
  "free_chains ops cs p = fold (\<lambda>he p. freeEntry ops p he HT_FREE_ENTRY) (concat cs) p"
proof -
  have "free_chain ops c p = fold (\<lambda>he p. freeEntry ops p he HT_FREE_ENTRY) c p" for c p
    by (induction c arbitrary: p) simp_all
  then show ?thesis by (induction cs arbitrary: p) simp_all
qed

text \<open>What an enumeration is meant to do, on the list of the entries in the order of the buckets:
  the entries that stay, the number of entries scanned and the client's final state.\<close>

fun enum_spec :: "('k, 'v, 's) PLHashEnumerator \<Rightarrow> ('k, 'v) PLHashEntry list \<Rightarrow> nat \<Rightarrow> 's \<Rightarrow>
    ('k, 'v) PLHashEntry list \<times> nat \<times> 's" where
  "enum_spec f [] n s = ([], n, s)"
| "enum_spec f (he # es) n s =
     (let (rv, s) = f he n s;
          keep = (rv AND (HT_ENUMERATE_REMOVE OR HT_ENUMERATE_UNHASH) = 0);
          (es, n, s) = (if rv AND HT_ENUMERATE_STOP \<noteq> 0 then (es, n + 1, s) else enum_spec f es (n + 1) s)
      in (if keep then he # es else es, n, s))"

definition never :: "u32 \<Rightarrow> ('k, 'v, 's) PLHashEnumerator \<Rightarrow> bool" where
  "never bits f \<longleftrightarrow> (\<forall>he n s. fst (f he n s) AND bits = 0)"

lemma enum_chain_spec:
  "enum_chain f c todo n s = (c', todo', n', s', stop) \<Longrightarrow>
   enum_spec f (c @ es) n s = (if stop then (c' @ es, n', s')
     else let (k, n2, s2) = enum_spec f es n' s' in (c' @ k, n2, s2))"
proof (induction f c todo n s arbitrary: c' todo' n' s' stop rule: enum_chain.induct)
  case (1 f todo n s)
  then show ?case by (auto split: prod.splits)
next
  case (2 f he rest todo n s)
  obtain rv s1 where f: "f he n s = (rv, s1)" by force
  show ?case
  proof (cases "rv AND HT_ENUMERATE_STOP \<noteq> 0")
    case True
    then show ?thesis using 2(2) f by (auto simp: Let_def split: if_splits)
  next
    case False
    let ?drop = "rv AND (HT_ENUMERATE_REMOVE OR HT_ENUMERATE_UNHASH) \<noteq> 0"
    let ?todo = "if ?drop \<and> rv AND HT_ENUMERATE_REMOVE \<noteq> 0 then he # todo else todo"
    obtain c1 where r: "enum_chain f rest ?todo (n + 1) s1 = (c1, todo', n', s', stop)"
        "c' = (if ?drop then c1 else he # c1)"
      using 2(2) f False by (auto simp: Let_def split: prod.splits)
    have "enum_spec f (rest @ es) (n + 1) s1 = (if stop then (c1 @ es, n', s')
        else let (k, n2, s2) = enum_spec f es n' s' in (c1 @ k, n2, s2))"
      using 2(1) [OF f [symmetric] refl refl refl] False r(1) by simp
    then show ?thesis using f False r(2) by (simp add: Let_def split: prod.splits)
  qed
qed

lemma enum_chains_spec:
  "enum_chains f cs todo n s = (cs', todo', n', s') \<Longrightarrow>
   enum_spec f (concat cs) n s = (concat cs', n', s') \<and> length cs' = length cs"
proof (induction f cs todo n s arbitrary: cs' todo' n' s' rule: enum_chains.induct)
  case (1 f todo n s)
  then show ?case by simp
next
  case (2 f c cs todo n s)
  obtain c1 t1 n1 s1 st where c: "enum_chain f c todo n s = (c1, t1, n1, s1, st)" by (metis prod_cases5)
  note sp = enum_chain_spec [OF c, of "concat cs"]
  show ?case
  proof (cases st)
    case True
    then show ?thesis using 2(2) c sp by auto
  next
    case False
    obtain cs1 where r: "enum_chains f cs t1 n1 s1 = (cs1, todo', n', s')" "cs' = c1 # cs1"
      using 2(2) c False by (auto split: prod.splits)
    then show ?thesis using 2(1) [OF c [symmetric] refl refl refl refl False r(1)] sp False by simp
  qed
qed

lemma enum_chain_subset:
  "enum_chain f c todo n s = (c', todo', n', s', stop) \<Longrightarrow> set c' \<subseteq> set c \<and>
   (never HT_ENUMERATE_UNHASH f \<longrightarrow> mset c' + mset todo' = mset c + mset todo) \<and>
   (never HT_ENUMERATE_REMOVE f \<longrightarrow> todo' = todo)"
proof (induction f c todo n s arbitrary: c' todo' n' s' stop rule: enum_chain.induct)
  case (1 f todo n s)
  then show ?case by simp
next
  case (2 f he rest todo n s)
  obtain rv s1 where f: "f he n s = (rv, s1)" by force
  let ?drop = "rv AND (HT_ENUMERATE_REMOVE OR HT_ENUMERATE_UNHASH) \<noteq> 0"
  let ?todo = "if ?drop \<and> rv AND HT_ENUMERATE_REMOVE \<noteq> 0 then he # todo else todo"
  have Z: "never HT_ENUMERATE_UNHASH f \<Longrightarrow> rv AND HT_ENUMERATE_UNHASH = 0"
    using f by (metis fst_conv never_def)
  have U: "never HT_ENUMERATE_UNHASH f \<Longrightarrow> ?drop \<longleftrightarrow> rv AND HT_ENUMERATE_REMOVE \<noteq> 0"
    by (simp add: bit.conj_disj_distrib Z)
  have R: "never HT_ENUMERATE_REMOVE f \<Longrightarrow> rv AND HT_ENUMERATE_REMOVE = 0"
    using f by (metis fst_conv never_def)
  obtain c1 t2 n2 s2 st where e: "(if rv AND HT_ENUMERATE_STOP \<noteq> 0 then (rest, ?todo, Suc n, s1, True)
        else enum_chain f rest ?todo (Suc n) s1) = (c1, t2, n2, s2, st)" by (metis prod_cases5)
  then have "enum_chain f (he # rest) todo n s = (if ?drop then c1 else he # c1, t2, n2, s2, st)"
    by (simp add: f Let_def split del: if_split)
  then have r: "(if rv AND HT_ENUMERATE_STOP \<noteq> 0 then (rest, ?todo, Suc n, s1, True)
        else enum_chain f rest ?todo (Suc n) s1) = (c1, todo', n', s', stop)"
      "c' = (if ?drop then c1 else he # c1)"
    using 2(2) e by simp_all
  have ih: "set c1 \<subseteq> set rest \<and>
      (never HT_ENUMERATE_UNHASH f \<longrightarrow> mset c1 + mset todo' = mset rest + mset ?todo) \<and>
      (never HT_ENUMERATE_REMOVE f \<longrightarrow> todo' = ?todo)"
  proof (cases "rv AND HT_ENUMERATE_STOP \<noteq> 0")
    case True
    then show ?thesis using r(1) by simp
  next
    case False
    then show ?thesis using 2(1) [OF f [symmetric] refl refl refl] r(1) by simp
  qed
  show ?case
  proof (intro conjI impI)
    show "set c' \<subseteq> set (he # rest)" using ih r(2) by auto
  next
    assume n: "never HT_ENUMERATE_UNHASH f"
    show "mset c' + mset todo' = mset (he # rest) + mset todo"
      using ih r(2) U [OF n] n by (cases ?drop) simp_all
  next
    assume n: "never HT_ENUMERATE_REMOVE f"
    show "todo' = todo" using ih R [OF n] n by simp
  qed
qed

lemma enum_chains_subset:
  "enum_chains f cs todo n s = (cs', todo', n', s') \<Longrightarrow> (\<forall>i < length cs. set (cs' ! i) \<subseteq> set (cs ! i)) \<and>
   (never HT_ENUMERATE_UNHASH f \<longrightarrow> mset (concat cs') + mset todo' = mset (concat cs) + mset todo) \<and>
   (never HT_ENUMERATE_REMOVE f \<longrightarrow> todo' = todo)"
proof (induction f cs todo n s arbitrary: cs' todo' n' s' rule: enum_chains.induct)
  case (1 f todo n s)
  then show ?case by simp
next
  case (2 f c cs todo n s)
  obtain c1 t1 n1 s1 st where c: "enum_chain f c todo n s = (c1, t1, n1, s1, st)" by (metis prod_cases5)
  note sp = enum_chain_subset [OF c]
  show ?case
  proof (cases st)
    case True
    then have "cs' = c1 # cs" "todo' = t1" using 2(2) c by auto
    then show ?thesis using sp by (auto simp: nth_Cons split: nat.splits)
  next
    case False
    obtain cs1 where r: "enum_chains f cs t1 n1 s1 = (cs1, todo', n', s')" "cs' = c1 # cs1"
      using 2(2) c False by (auto split: prod.splits)
    note ih = 2(1) [OF c [symmetric] refl refl refl refl False r(1)]
    show ?thesis
    proof (intro conjI impI)
      show "\<forall>i < length (c # cs). set (cs' ! i) \<subseteq> set ((c # cs) ! i)"
        using ih sp r(2) by (auto simp: nth_Cons split: nat.splits)
    next
      assume n: "never HT_ENUMERATE_UNHASH f"
      then have "mset c1 + mset t1 = mset c + mset todo"
        "mset (concat cs1) + mset todo' = mset (concat cs) + mset t1" using sp ih by simp_all
      then show "mset (concat cs') + mset todo' = mset (concat (c # cs)) + mset todo"
        unfolding r(2) by (simp add: algebra_simps)
    next
      assume n: "never HT_ENUMERATE_REMOVE f"
      then show "todo' = todo" using sp ih by simp
    qed
  qed
qed

lemma dispose_all_ok:
  assumes "hash_keys (keyHash ht) (keyCompare ht)" "ht_inv0 ht"
    "unat (nentries ht) = length (entries ht) + length todo"
  shows "\<exists>ht'. dispose_all todo ht = Some ht' \<and> ht_inv ht' \<and> same_client ht ht' \<and>
    mset (entries ht') = mset (entries ht)"
  using assms
proof (induction todo arbitrary: ht)
  case Nil
  then show ?case by (simp add: ht_inv_def same_client_def)
next
  case (Cons he todo)
  have "nentries ht \<noteq> 0" using Cons.prems(3) by auto
  then obtain ht1 where d: "dispose ht he = Some ht1" "ht_inv0 ht1" "same_client ht ht1"
      "unat (nentries ht1) = unat (nentries ht) - 1" "mset (entries ht1) = mset (entries ht)"
    using dispose_ok [OF Cons.prems(1,2)] by blast
  have "hash_keys (keyHash ht1) (keyCompare ht1)" using Cons.prems(1) d(3) by (simp add: same_client_def)
  moreover have "unat (nentries ht1) = length (entries ht1) + length todo"
    using d(4) Cons.prems(3) mset_eq_length [OF d(5)] by simp
  ultimately obtain ht' where "dispose_all todo ht1 = Some ht'" "ht_inv ht'" "same_client ht1 ht'"
      "mset (entries ht') = mset (entries ht1)" using Cons.IH [OF _ d(2)] by blast
  then show ?case using d same_client_trans [OF d(3)] by simp
qed

text \<open>The table right after the walk over its chains.\<close>

lemma Enumerate_walk:
  assumes inv: "ht_inv ht"
  obtains cs todo n s where "enum_chains f (buckets ht) [] 0 arg = (cs, todo, n, s)"
    "PL_HashTableEnumerateEntries ht f arg =
       Option.bind (dispose_all todo (ht\<lparr>buckets := cs\<rparr>)) (\<lambda>ht. Some (n, s, ht))"
    "enum_spec f (entries ht) 0 arg = (concat cs, n, s)" "shape (shift ht) cs"
proof -
  obtain cs todo n s where e: "enum_chains f (buckets ht) [] 0 arg = (cs, todo, n, s)" by (metis prod_cases4)
  have sh: "shape (shift ht) (buckets ht)" using inv by (simp add: ht_inv_def ht_inv0_def)
  then have b: "1 \<le> unat (shift ht)" "unat (shift ht) \<le> 28" "length (buckets ht) = 2 ^ (32 - unat (shift ht))"
    by (simp_all add: shape_def)
  have r: "PL_HashTableEnumerateEntries ht f arg =
       Option.bind (dispose_all todo (ht\<lparr>buckets := cs\<rparr>)) (\<lambda>ht. Some (n, s, ht))"
    using e NBUCKETS_shape [OF b(1,2)] b(3) by (simp add: PL_HashTableEnumerateEntries_def chains_all)
  note sp = enum_chains_spec [OF e] and sub = conjunct1 [OF enum_chains_subset [OF e]]
  have "shape (shift ht) cs" using sh conjunct2 [OF sp] sub by (force simp: shape_def)
  then show ?thesis using that e r sp by (simp add: entries_def)
qed

lemma Enumerate_ok:
  assumes K: "hash_keys (keyHash ht) (keyCompare ht)" and inv: "ht_inv ht" and u: "never HT_ENUMERATE_UNHASH f"
  shows "\<exists>n s ht' kept. PL_HashTableEnumerateEntries ht f arg = Some (n, s, ht') \<and> ht_inv ht' \<and>
    same_client ht ht' \<and> enum_spec f (entries ht) 0 arg = (kept, n, s) \<and>
    ht_map ht' = (\<lambda>k. map_option he_value (look (keyCompare ht) kept k))"
proof (cases rule: Enumerate_walk [OF inv, of f arg])
  case (1 cs todo n s)
  let ?ht = "ht\<lparr>buckets := cs\<rparr>"
  have m: "mset (entries ht) = mset (todo @ concat cs)"
    using enum_chains_subset [OF 1(1)] u by (simp add: entries_def add.commute)
  have "keys_ok (keyHash ht) (keyCompare ht) (todo @ concat cs)"
    using inv keys_ok_mset [OF m] by (simp add: ht_inv_def ht_inv0_def)
  then have ok: "keys_ok (keyHash ht) (keyCompare ht) (concat cs)" by (auto simp: keys_ok_def)
  then have i0: "ht_inv0 ?ht" using 1(4) by (simp add: ht_inv0_def entries_def)
  have cnt: "unat (nentries ?ht) = length (entries ?ht) + length todo"
    using inv mset_eq_length [OF m] by (simp add: ht_inv_def entries_def)
  have K1: "hash_keys (keyHash ?ht) (keyCompare ?ht)" using K by simp
  obtain ht' where d: "dispose_all todo ?ht = Some ht'" "ht_inv ht'" "same_client ?ht ht'"
      "mset (entries ht') = mset (concat cs)"
    using dispose_all_ok [OF K1 i0 cnt] by (auto simp: entries_def)
  have c: "same_client ht ht'" using d(3) by (simp add: same_client_def)
  have "look (keyCompare ht) (entries ht') = look (keyCompare ht) (concat cs)"
    using hash_keys.look_mset [OF K d(4) [symmetric] ok] by simp
  then have "ht_map ht' = (\<lambda>k. map_option he_value (look (keyCompare ht) (concat cs) k))"
    using c by (intro ext) (simp add: ht_map_def same_client_def)
  then show ?thesis using 1(2,3) d c by auto
qed

lemma enum_spec_unhash: "enum_spec (\<lambda>he n s. (HT_ENUMERATE_UNHASH, s)) es i a = ([], i + length es, a)"
  by (induction es arbitrary: i)
    (simp_all add: HT_ENUMERATE_UNHASH_def HT_ENUMERATE_REMOVE_def HT_ENUMERATE_STOP_def)

lemma Enumerate_unhash:
  assumes inv: "ht_inv ht" and r: "never HT_ENUMERATE_REMOVE f"
  shows "\<exists>n s ht'. PL_HashTableEnumerateEntries ht f arg = Some (n, s, ht') \<and>
    enum_spec f (entries ht) 0 arg = (entries ht', n, s) \<and> nentries ht' = nentries ht"
proof (cases rule: Enumerate_walk [OF inv, of f arg])
  case (1 cs todo n s)
  have "todo = []" using enum_chains_subset [OF 1(1)] r by simp
  then show ?thesis using 1(2,3) by (simp add: entries_def)
qed

section \<open>String keys\<close>

lemma hash_string_cstr: "hash_string_loop h s = hash_string_loop h (cstr s)"
  by (induction h s rule: hash_string_loop.induct) (simp_all add: cstr_def)

interpretation string_keys: hash_keys PL_HashString PL_CompareStrings
proof
  fix a b :: "byte list"
  show "PL_CompareStrings a b \<Longrightarrow> PL_HashString a = PL_HashString b"
    unfolding PL_CompareStrings_def strcmp_eq_iff PL_HashString_def by (metis hash_string_cstr)
qed (simp_all add: PL_CompareStrings_def strcmp_eq_iff)

section \<open>The table as an interface\<close>

text \<open>A client sees a store of values under keys: three operations on a state \<open>'t\<close>, an abstraction
  of the state to a map, and a measure that bounds how many entries it can hold.\<close>

datatype ('k, 'v) table_op = Op_add 'k "'v ptr" | Op_remove 'k | Op_lookup 'k
datatype 'v table_res = Res_added bool | Res_removed bool | Res_value "'v ptr"

definition upd_class :: "('k \<Rightarrow> 'k \<Rightarrow> bool) \<Rightarrow> ('k \<Rightarrow> 'b) \<Rightarrow> 'k \<Rightarrow> 'b \<Rightarrow> 'k \<Rightarrow> 'b" where
  "upd_class eqv m k x = (\<lambda>k'. if eqv k k' then x else m k')"

text \<open>The abstract machine: it checks a list of results against the operations, on a map.\<close>

fun spec_run :: "('k \<Rightarrow> 'k \<Rightarrow> bool) \<Rightarrow> ('k, 'v) table_op list \<Rightarrow> 'v table_res list \<Rightarrow>
    ('k \<Rightarrow> 'v ptr option) \<Rightarrow> ('k \<Rightarrow> 'v ptr option) option" where
  "spec_run eqv [] [] m = Some m"
| "spec_run eqv (Op_add k v # ops) (Res_added ok # rs) m =
     spec_run eqv ops rs (if ok then upd_class eqv m k (Some v) else m)"
| "spec_run eqv (Op_remove k # ops) (Res_removed b # rs) m =
     (if b = (m k \<noteq> None) then spec_run eqv ops rs (upd_class eqv m k None) else None)"
| "spec_run eqv (Op_lookup k # ops) (Res_value v # rs) m =
     (if v = Option.bind (m k) id then spec_run eqv ops rs m else None)"
| "spec_run eqv _ _ m = None"

text \<open>Running a list of operations with given implementations of the three.\<close>

fun run_ops :: "('t \<Rightarrow> 'k \<Rightarrow> 'v ptr \<Rightarrow> (bool \<times> 't) exec) \<Rightarrow> ('t \<Rightarrow> 'k \<Rightarrow> (bool \<times> 't) exec) \<Rightarrow>
    ('t \<Rightarrow> 'k \<Rightarrow> ('v ptr \<times> 't) exec) \<Rightarrow> ('k, 'v) table_op list \<Rightarrow> 't \<Rightarrow> ('v table_res list \<times> 't) exec" where
  "run_ops add rem lkp [] t = Some ([], t)"
| "run_ops add rem lkp (op # ops) t =
     do { (r, t) \<leftarrow> (case op of
            Op_add k v \<Rightarrow> do { (ok, t) \<leftarrow> add t k v; Some (Res_added ok, t) }
          | Op_remove k \<Rightarrow> do { (b, t) \<leftarrow> rem t k; Some (Res_removed b, t) }
          | Op_lookup k \<Rightarrow> do { (v, t) \<leftarrow> lkp t k; Some (Res_value v, t) });
          (rs, t) \<leftarrow> run_ops add rem lkp ops t;
          Some (r # rs, t) }"

locale assoc_table =
  fixes inv :: "'t \<Rightarrow> bool" and sz :: "'t \<Rightarrow> nat" and absm :: "'t \<Rightarrow> 'k \<Rightarrow> 'v ptr option"
    and eqv :: "'k \<Rightarrow> 'k \<Rightarrow> bool" and cap :: nat
    and add :: "'t \<Rightarrow> 'k \<Rightarrow> 'v ptr \<Rightarrow> (bool \<times> 't) exec"
    and rem :: "'t \<Rightarrow> 'k \<Rightarrow> (bool \<times> 't) exec"
    and lkp :: "'t \<Rightarrow> 'k \<Rightarrow> ('v ptr \<times> 't) exec"
  assumes add_law: "inv t \<Longrightarrow> sz t < cap \<Longrightarrow> \<exists>ok t'. add t k v = Some (ok, t') \<and> inv t' \<and> sz t' \<le> Suc (sz t) \<and>
      absm t' = (if ok then upd_class eqv (absm t) k (Some v) else absm t)"
    and rem_law: "inv t \<Longrightarrow> \<exists>b t'. rem t k = Some (b, t') \<and> inv t' \<and> sz t' \<le> sz t \<and>
      b = (absm t k \<noteq> None) \<and> absm t' = upd_class eqv (absm t) k None"
    and lkp_law: "inv t \<Longrightarrow> \<exists>v t'. lkp t k = Some (v, t') \<and> inv t' \<and> sz t' \<le> sz t \<and>
      v = Option.bind (absm t k) id \<and> absm t' = absm t"
begin

lemma run_step:
  assumes "inv t" "sz t < cap"
  shows "\<exists>r t'. (\<forall>ops. run_ops add rem lkp (op # ops) t =
      Option.bind (run_ops add rem lkp ops t') (\<lambda>(rs, t''). Some (r # rs, t''))) \<and>
    inv t' \<and> sz t' \<le> Suc (sz t) \<and> (\<forall>ops rs. spec_run eqv (op # ops) (r # rs) (absm t) = spec_run eqv ops rs (absm t'))"
proof (cases op)
  case (Op_add k v)
  obtain ok t' where "add t k v = Some (ok, t')" "inv t'" "sz t' \<le> Suc (sz t)"
    "absm t' = (if ok then upd_class eqv (absm t) k (Some v) else absm t)" using add_law [OF assms] by blast
  then show ?thesis using Op_add by (intro exI [of _ "Res_added ok"] exI [of _ t']) simp
next
  case (Op_remove k)
  obtain b t' where "rem t k = Some (b, t')" "inv t'" "sz t' \<le> sz t"
    "b = (absm t k \<noteq> None)" "absm t' = upd_class eqv (absm t) k None" using rem_law [OF assms(1)] by blast
  then show ?thesis using Op_remove by (intro exI [of _ "Res_removed b"] exI [of _ t']) simp
next
  case (Op_lookup k)
  obtain v t' where "lkp t k = Some (v, t')" "inv t'" "sz t' \<le> sz t"
    "v = Option.bind (absm t k) id" "absm t' = absm t" using lkp_law [OF assms(1)] by blast
  then show ?thesis using Op_lookup by (intro exI [of _ "Res_value v"] exI [of _ t']) simp
qed

lemma run_refines:
  assumes "inv t" "sz t + length ops \<le> cap"
  shows "\<exists>rs t'. run_ops add rem lkp ops t = Some (rs, t') \<and> inv t' \<and>
    spec_run eqv ops rs (absm t) = Some (absm t')"
  using assms
proof (induction ops arbitrary: t)
  case Nil
  then show ?case by simp
next
  case (Cons op ops)
  have "sz t < cap" using Cons.prems(2) by simp
  then obtain r t1 where s: "\<forall>ops. run_ops add rem lkp (op # ops) t =
      Option.bind (run_ops add rem lkp ops t1) (\<lambda>(rs, t''). Some (r # rs, t''))"
    "inv t1" "sz t1 \<le> Suc (sz t)"
    "\<forall>ops rs. spec_run eqv (op # ops) (r # rs) (absm t) = spec_run eqv ops rs (absm t1)"
    using run_step [OF Cons.prems(1), of op] by blast
  then have "sz t1 + length ops \<le> cap" using Cons.prems(2) by simp
  from Cons.IH [OF s(2) this] obtain rs t' where "run_ops add rem lkp ops t1 = Some (rs, t')" "inv t'"
    "spec_run eqv ops rs (absm t1) = Some (absm t')" by blast
  then show ?case using s(1,4) by (intro exI [of _ "r # rs"] exI [of _ t']) simp
qed

end

text \<open>A hash table with pointer values provides this interface, whatever its keys are.\<close>

definition keyed_table :: "('k \<Rightarrow> u32) \<Rightarrow> ('k \<Rightarrow> 'k \<Rightarrow> bool) \<Rightarrow> ('k, 'v, 'p) PLHashTable \<Rightarrow> bool" where
  "keyed_table hash cmp ht \<longleftrightarrow> ht_inv ht \<and> keyHash ht = hash \<and> keyCompare ht = cmp \<and> valueCompare ht = PL_CompareValues"

definition table_add :: "('k, 'v, 'p) PLHashTable \<Rightarrow> 'k \<Rightarrow> 'v ptr \<Rightarrow> (bool \<times> ('k, 'v, 'p) PLHashTable) exec" where
  "table_add ht key value = do { (he, ht) \<leftarrow> PL_HashTableAdd ht key value; Some (he \<noteq> None, ht) }"

sublocale hash_keys \<subseteq> table: assoc_table "keyed_table hash cmp" "\<lambda>ht. unat (nentries ht)" ht_map cmp "2 ^ 30"
  table_add PL_HashTableRemove PL_HashTableLookup
proof
  fix t :: "('k, 'v, 'p) PLHashTable" and k :: 'k and v :: "'v ptr"
  assume s: "keyed_table hash cmp t"
  then have K: "hash_keys (keyHash t) (keyCompare t)"
    by (simp add: keyed_table_def hash_keys_axioms)
  have inv: "ht_inv t" using s by (simp add: keyed_table_def)
  show "\<exists>ok t'. table_add t k v = Some (ok, t') \<and> keyed_table hash cmp t' \<and> unat (nentries t') \<le> Suc (unat (nentries t)) \<and>
      ht_map t' = (if ok then upd_class cmp (ht_map t) k (Some v) else ht_map t)"
    if few: "unat (nentries t) < 2 ^ 30"
  proof -
    obtain r t' where a: "PL_HashTableAdd t k v = Some (r, t')" "ht_inv t'" "same_client t t'"
      "unat (nentries t') \<le> unat (nentries t) + 1" "r = None \<longrightarrow> ht_map t k = None \<and> ht_map t' = ht_map t"
      "\<forall>he. r = Some he \<longrightarrow> (he_value he = v \<or> valueCompare t (he_value he) v) \<and> keyCompare t k (he_key he) \<and>
         ht_map t' = (\<lambda>k'. if keyCompare t k k' then Some (he_value he) else ht_map t k')"
      using Add_ok [OF K inv few] by blast
    have "keyed_table hash cmp t'" using s a(2,3) by (simp add: keyed_table_def same_client_def)
    moreover have "ht_map t' = (if r \<noteq> None then upd_class cmp (ht_map t) k (Some v) else ht_map t)"
      using a(5,6) s by (cases r) (auto simp: keyed_table_def PL_CompareValues_def upd_class_def)
    ultimately show ?thesis using a(1,4) by (simp add: table_add_def)
  qed
  show "\<exists>b t'. PL_HashTableRemove t k = Some (b, t') \<and> keyed_table hash cmp t' \<and> unat (nentries t') \<le> unat (nentries t) \<and>
      b = (ht_map t k \<noteq> None) \<and> ht_map t' = upd_class cmp (ht_map t) k None"
  proof -
    obtain r t' where a: "PL_HashTableRemove t k = Some (r, t')" "ht_inv t'" "same_client t t'"
      "unat (nentries t') \<le> unat (nentries t)" "r \<longleftrightarrow> ht_map t k \<noteq> None"
      "ht_map t' = (\<lambda>k'. if keyCompare t k k' then None else ht_map t k')"
      using Remove_ok [OF K inv] by blast
    have "keyed_table hash cmp t'" using s a(2,3) by (simp add: keyed_table_def same_client_def)
    then show ?thesis using a s by (simp add: keyed_table_def upd_class_def)
  qed
  show "\<exists>v t'. PL_HashTableLookup t k = Some (v, t') \<and> keyed_table hash cmp t' \<and> unat (nentries t') \<le> unat (nentries t) \<and>
      v = Option.bind (ht_map t k) id \<and> ht_map t' = ht_map t"
  proof -
    obtain w t' where a: "PL_HashTableLookup t k = Some (w, t')" "ht_inv t'" "same_client t t'"
      "nentries t' = nentries t" "ht_map t' = ht_map t" "w = Option.bind (ht_map t k) id"
      using Lookup_ok [OF K inv] by blast
    have "keyed_table hash cmp t'" using s a(2,3) by (simp add: keyed_table_def same_client_def)
    then show ?thesis using a by simp
  qed
qed

definition string_table :: "(byte list, 'v, 'p) PLHashTable \<Rightarrow> bool" where
  "string_table = keyed_table PL_HashString PL_CompareStrings"

interpretation hashtab: assoc_table string_table "\<lambda>ht. unat (nentries ht)" ht_map PL_CompareStrings "2 ^ 30"
  table_add PL_HashTableRemove PL_HashTableLookup
  unfolding string_table_def by (rule string_keys.table.assoc_table_axioms)

section \<open>Properties\<close>

text \<open>A pool that hands out ascending addresses, for concrete tables.\<close>

definition bump_ops :: "('k, 'v, nat) PLHashAllocOps" where
  "bump_ops = \<lparr>allocTable = (\<lambda>p n. (Some p, p + n)), freeTable = (\<lambda>p a. p),
     allocEntry = (\<lambda>p k. (Some p, p + sizeof_PLHashEntry)), freeEntry = (\<lambda>p he flag. p)\<rparr>"

definition demo_new :: "((byte list, nat, nat) PLHashTable ptr \<times> nat) exec" where
  "demo_new = PL_NewHashTable (\<lambda>p n. (Some p, p + n)) (\<lambda>p a. p) 10 PL_HashString PL_CompareStrings
     PL_CompareValues (Some bump_ops) 4096"

definition demo_table :: "(byte list, nat, nat) PLHashTable" where
  "demo_table = \<lparr>ht_at = 4096, buckets_at = 4152, buckets = replicate 16 [], nentries = 0, shift = 28,
     keyHash = PL_HashString, keyCompare = PL_CompareStrings, valueCompare = PL_CompareValues,
     allocOps = bump_ops, allocPriv = 4280\<rparr>"

lemma demo_new_eq: "demo_new = Some (Some demo_table, 4280)"
  by (simp add: demo_new_def demo_table_def PL_NewHashTable_def bump_ops_def shl1_def MINBUCKETS_def
      MINBUCKETSLOG2_def PL_HASH_BITS_def sizeof_ptr_def sizeof_PLHashTable_def)

lemma demo_table_ok: "string_table demo_table" "nentries demo_table = 0" "entries demo_table = []"
proof -
  have "\<exists>r pool'. demo_new = Some (r, pool') \<and>
    (\<forall>ht. r = Some ht \<longrightarrow> ht_inv ht \<and> ht_map ht = Map.empty \<and> nentries ht = 0 \<and> keyHash ht = PL_HashString \<and>
       keyCompare ht = PL_CompareStrings \<and> valueCompare ht = PL_CompareValues \<and> allocPriv ht = pool' \<and>
       unat (10 :: u32) \<le> length (buckets ht))"
    unfolding demo_new_def by (rule New_ok) simp
  then have "ht_inv demo_table" using demo_new_eq by (metis Pair_inject option.inject)
  then show "string_table demo_table" "nentries demo_table = 0" "entries demo_table = []"
    by (simp_all add: string_table_def keyed_table_def demo_table_def entries_def)
qed





text \<open>\<open>PL_HashTableRemove\<close> returns true exactly when the key was present, and afterwards no key it
  compares equal to is bound while all others keep their values, also when the table shrinks or cannot
  allocate the smaller vector.\<close>

theorem hash_remove_correct:
  assumes "hash_keys (keyHash ht) (keyCompare ht)" and "ht_inv ht"
  shows "\<exists>r ht'. PL_HashTableRemove ht key = Some (r, ht') \<and> ht_inv ht' \<and> same_client ht ht' \<and>
    (r \<longleftrightarrow> ht_map ht key \<noteq> None) \<and> ht_map ht' = upd_class (keyCompare ht) (ht_map ht) key None"
  using Remove_ok [OF assms, of key] unfolding upd_class_def by blast

theorem hash_remove_correct_witness:
  "\<exists>r ht'. PL_HashTableRemove demo_table [97] = Some (r, ht') \<and> ht_inv ht' \<and> same_client demo_table ht' \<and>
    (r \<longleftrightarrow> ht_map demo_table [97] \<noteq> None) \<and>
    ht_map ht' = upd_class (keyCompare demo_table) (ht_map demo_table) [97] None"
  by (rule hash_remove_correct)
    (use demo_table_ok string_keys.hash_keys_axioms in \<open>simp_all add: string_table_def keyed_table_def\<close>)

text \<open>\<open>PL_HashTableLookup\<close>, which moves the entry it finds to the front of its chain, and
  \<open>PL_HashTableLookupConst\<close>, which does not, return the same value: the one the map holds, and null for
  a key that is absent. The reordering changes neither the map nor the invariant.\<close>

theorem hash_lookup_correct:
  assumes "hash_keys (keyHash ht) (keyCompare ht)" and "ht_inv ht"
  shows "\<exists>v ht'. PL_HashTableLookup ht key = Some (v, ht') \<and> PL_HashTableLookupConst ht key = Some v \<and>
    v = Option.bind (ht_map ht key) id \<and> ht_inv ht' \<and> ht_map ht' = ht_map ht"
  using Lookup_ok [OF assms, of key] LookupConst_ok [OF assms, of key] by auto

theorem hash_lookup_correct_witness:
  "\<exists>v ht'. PL_HashTableLookup demo_table [98] = Some (v, ht') \<and> PL_HashTableLookupConst demo_table [98] = Some v \<and>
    v = Option.bind (ht_map demo_table [98]) id \<and> ht_inv ht' \<and> ht_map ht' = ht_map demo_table"
  by (rule hash_lookup_correct)
    (use demo_table_ok string_keys.hash_keys_axioms in \<open>simp_all add: string_table_def keyed_table_def\<close>)

text \<open>\<open>PL_NewHashTable\<close> with up to \<open>2 ^ 31\<close> requested buckets returns null or an empty table in the
  invariant that holds at least that many buckets; asked for more, and given memory for the header, it
  shifts a 32-bit one by 32 places, which is undefined in C.\<close>

theorem hash_new_correct:
  "if unat n \<le> 2 ^ 31
   then \<exists>r pool'. PL_NewHashTable malloc free n hash cmp vcmp ops pool = Some (r, pool') \<and>
      (case r of None \<Rightarrow> True
       | Some ht \<Rightarrow> ht_inv ht \<and> ht_map ht = Map.empty \<and> unat n \<le> length (buckets ht) \<and> allocPriv ht = pool')
   else fst (allocTable (case ops of None \<Rightarrow> defaultHashAllocOps malloc free | Some o1 \<Rightarrow> o1) pool sizeof_PLHashTable) \<noteq> None
      \<longleftrightarrow> PL_NewHashTable malloc free n hash cmp vcmp ops pool = None"
proof (cases "unat n \<le> 2 ^ 31")
  case True
  obtain r pool' where "PL_NewHashTable malloc free n hash cmp vcmp ops pool = Some (r, pool')"
    "\<forall>ht. r = Some ht \<longrightarrow> ht_inv ht \<and> ht_map ht = Map.empty \<and> nentries ht = 0 \<and> keyHash ht = hash \<and>
       keyCompare ht = cmp \<and> valueCompare ht = vcmp \<and> allocPriv ht = pool' \<and> unat n \<le> length (buckets ht)"
    using New_ok [OF True, of malloc free hash cmp vcmp ops pool] by blast
  then show ?thesis using True by (simp split: option.split)
next
  case False
  then have n: "\<not> n \<le> MINBUCKETS" and n0: "n \<noteq> 0" by (auto simp: MINBUCKETS_def word_le_nat_alt)
  have "\<not> PR_CeilingLog2 n < 32"
  proof
    assume "PR_CeilingLog2 n < 32"
    then have "(2::nat) ^ PR_CeilingLog2 n \<le> 2 ^ 31" by (intro power_increasing) simp_all
    then show False using CeilingLog2_upper [OF n0] False by linarith
  qed
  moreover have "\<not> 32 < PR_CeilingLog2 n"
    using CeilingLog2_least [OF n0, of 32] unat_u32_less [of n] by auto
  ultimately have "PR_CeilingLog2 n = 32" by linarith
  moreover have "shl1 32 = None" by (simp add: shl1_def)
  ultimately show ?thesis using False n
    by (simp add: PL_NewHashTable_def Let_def split: prod.split option.split)
qed

text \<open>\<open>PL_HashTableEnumerateEntries\<close> with an enumerator that does not unhash: it scans the entries in
  bucket order until told to stop, returns the number scanned, and leaves a table in the invariant that
  holds exactly the entries not marked for removal.\<close>

theorem hash_enumerate_correct:
  assumes "hash_keys (keyHash ht) (keyCompare ht)" and "ht_inv ht" and "never HT_ENUMERATE_UNHASH f"
  shows "\<exists>n s ht' kept. PL_HashTableEnumerateEntries ht f arg = Some (n, s, ht') \<and> ht_inv ht' \<and>
    enum_spec f (entries ht) 0 arg = (kept, n, s) \<and>
    ht_map ht' = (\<lambda>k. map_option he_value (look (keyCompare ht) kept k))"
  using Enumerate_ok [OF assms] by blast

theorem hash_enumerate_correct_witness:
  "\<exists>n s ht' kept. PL_HashTableEnumerateEntries demo_table (\<lambda>he n s. (HT_ENUMERATE_REMOVE, s + n)) (0::nat) = Some (n, s, ht') \<and>
    ht_inv ht' \<and> enum_spec (\<lambda>he n s. (HT_ENUMERATE_REMOVE, s + n)) (entries demo_table) 0 0 = (kept, n, s) \<and>
    ht_map ht' = (\<lambda>k. map_option he_value (look (keyCompare demo_table) kept k))"
  by (rule hash_enumerate_correct)
    (use demo_table_ok string_keys.hash_keys_axioms in
      \<open>simp_all add: string_table_def keyed_table_def never_def HT_ENUMERATE_REMOVE_def HT_ENUMERATE_UNHASH_def\<close>)

text \<open>An enumerator that unhashes entries takes them out of the table, but \<open>nentries\<close> is not counted
  down: after unhashing every entry of a table that is not empty, the table is empty and still claims its
  old number of entries, so its invariant is broken.\<close>

theorem hash_unhash_miscounts:
  assumes "ht_inv ht" and "entries ht \<noteq> []"
  shows "\<exists>ht'. PL_HashTableEnumerateEntries ht (\<lambda>he n s. (HT_ENUMERATE_UNHASH, s)) arg =
      Some (length (entries ht), arg, ht') \<and> entries ht' = [] \<and> nentries ht' = nentries ht \<and> \<not> ht_inv ht'"
proof -
  let ?f = "\<lambda>he n s. (HT_ENUMERATE_UNHASH, s)"
  have "never HT_ENUMERATE_REMOVE ?f" by (simp add: never_def HT_ENUMERATE_UNHASH_def HT_ENUMERATE_REMOVE_def)
  from Enumerate_unhash [OF assms(1) this, of arg] obtain n s ht' where
    r: "PL_HashTableEnumerateEntries ht ?f arg = Some (n, s, ht')"
      "enum_spec ?f (entries ht) 0 arg = (entries ht', n, s)" "nentries ht' = nentries ht" by blast
  have e: "entries ht' = []" "n = length (entries ht)" "s = arg" using r(2) by (simp_all add: enum_spec_unhash)
  then have "\<not> ht_inv ht'" using assms r(3) by (auto simp: ht_inv_def)
  then show ?thesis using r(1,3) e by simp
qed

definition demo_full :: "(byte list, nat, nat) PLHashTable" where
  "demo_full = demo_table\<lparr>nentries := 1, buckets := (replicate 16 [])[hindex 28 97 :=
     [\<lparr>he_at = 4280, he_keyHash = 97, he_key = [97], he_value = Some 5\<rparr>]]\<rparr>"

lemma demo_full_ok: "ht_inv demo_full" "entries demo_full \<noteq> []"
proof -
  let ?e = "\<lparr>he_at = 4280, he_keyHash = 97, he_key = [97], he_value = Some 5\<rparr> :: (byte list, nat) PLHashEntry"
  have sh: "shape 28 (replicate 16 [] :: (byte list, nat) PLHashEntry list list)" by (simp add: shape_def)
  have h: "hindex 28 97 < length (replicate 16 ([] :: (byte list, nat) PLHashEntry list))"
    using hindex_less [of 28 97] by simp
  have m: "mset (entries demo_full) = {#?e#}"
    using chain_add(2) [OF sh refl, of ?e] h by (simp add: demo_full_def entries_def)
  then have e: "entries demo_full = [?e]" by simp
  have "shape 28 ((replicate 16 [])[hindex 28 97 := [?e]])"
    using chain_add(1) [OF sh refl, of ?e] h by simp
  then show "ht_inv demo_full"
    using e by (simp add: ht_inv_def ht_inv0_def keys_ok_def) (simp add: demo_full_def demo_table_def PL_HashString_def PR_ROTATE_LEFT32_def)
  show "entries demo_full \<noteq> []" using e by simp
qed

theorem hash_unhash_miscounts_witness:
  "\<exists>ht'. PL_HashTableEnumerateEntries demo_full (\<lambda>he n s. (HT_ENUMERATE_UNHASH, s)) () =
      Some (length (entries demo_full), (), ht') \<and> entries ht' = [] \<and> nentries ht' = nentries demo_full \<and> \<not> ht_inv ht'"
  by (rule hash_unhash_miscounts [OF demo_full_ok])

text \<open>\<open>PL_HashTableDestroy\<close> hands every entry of the table to the client's \<open>freeEntry\<close> once, in bucket
  order and with \<open>HT_FREE_ENTRY\<close>, then frees the bucket vector, then the header.\<close>

theorem hash_destroy_frees_all:
  assumes "ht_inv ht"
  shows "PL_HashTableDestroy ht =
    Some (freeTable (allocOps ht)
      (freeTable (allocOps ht)
        (fold (\<lambda>he p. freeEntry (allocOps ht) p he HT_FREE_ENTRY) (entries ht) (allocPriv ht)) (buckets_at ht))
      (ht_at ht))"
proof -
  have b: "1 \<le> unat (shift ht)" "unat (shift ht) \<le> 28" "length (buckets ht) = 2 ^ (32 - unat (shift ht))"
    using assms by (simp_all add: ht_inv_def ht_inv0_def shape_def)
  show ?thesis
    using NBUCKETS_shape [OF b(1,2)] b(3)
    by (simp add: PL_HashTableDestroy_def chains_all free_chains_fold entries_def)
qed

theorem hash_destroy_frees_all_witness:
  "PL_HashTableDestroy demo_full =
    Some (freeTable (allocOps demo_full)
      (freeTable (allocOps demo_full)
        (fold (\<lambda>he p. freeEntry (allocOps demo_full) p he HT_FREE_ENTRY) (entries demo_full) (allocPriv demo_full))
        (buckets_at demo_full))
      (ht_at demo_full))"
  by (rule hash_destroy_frees_all [OF demo_full_ok(1)])

end
