(* ===== verification/Moz_Time.thy ===== *)
theory Moz_Time
  imports Moz_Prelude
begin

text \<open>
  \<open>src/nsprpub/pr/src/misc/prtime.c\<close>, calendar part: conversion between \<open>PRTime\<close> (microseconds
  since 1970) and the broken-down \<open>PRExplodedTime\<close>, normalization, and the time zone parameter
  functions.

  The fields are \<open>int\<close>; a store into one applies the wrap of its C type (\<open>PRInt32\<close>, \<open>PRInt16\<close> for
  \<open>tm_year\<close> and \<open>tm_yday\<close>, \<open>PRInt8\<close> for \<open>tm_wday\<close>). A read of the month tables outside their
  bounds is \<open>None\<close>. \<open>PRTime\<close> arithmetic is 64-bit.
\<close>

section \<open>Data\<close>

record PRTimeParameters =
  tp_gmt_offset :: int
  tp_dst_offset :: int

record PRExplodedTime =
  tm_usec :: int
  tm_sec :: int
  tm_min :: int
  tm_hour :: int
  tm_mday :: int
  tm_month :: int
  tm_year :: int
  tm_wday :: int
  tm_yday :: int
  tm_params :: PRTimeParameters

type_synonym PRTimeParamFn = "PRExplodedTime \<Rightarrow> PRTimeParameters exec"

text \<open>An array of the source, indexed by a C integer.\<close>

definition aref :: "'a list \<Rightarrow> int \<Rightarrow> 'a exec" where
  "aref a i = (if 0 \<le> i then rd a (nat i) else None)"

definition lastDayOfMonth :: "bool \<Rightarrow> int list" where
  "lastDayOfMonth leap = (if leap
     then [-1, 30, 59, 90, 120, 151, 181, 212, 243, 273, 304, 334, 365]
     else [-1, 30, 58, 89, 119, 150, 180, 211, 242, 272, 303, 333, 364])"

definition nDays :: "bool \<Rightarrow> int list" where
  "nDays leap = (if leap
     then [31, 29, 31, 30, 31, 30, 31, 31, 30, 31, 30, 31]
     else [31, 28, 31, 30, 31, 30, 31, 31, 30, 31, 30, 31])"

definition COUNT_LEAPS :: "int \<Rightarrow> int" where
  "COUNT_LEAPS Y = (Y - 1) sdiv 4 - (Y - 1) sdiv 100 + (Y - 1) sdiv 400"

definition COUNT_DAYS :: "int \<Rightarrow> int" where
  "COUNT_DAYS Y = (Y - 1) * 365 + COUNT_LEAPS Y"

definition DAYS_BETWEEN_YEARS :: "int \<Rightarrow> int \<Rightarrow> int" where
  "DAYS_BETWEEN_YEARS A B = COUNT_DAYS B - COUNT_DAYS A"

definition IsLeapYear :: "int \<Rightarrow> bool" where
  "IsLeapYear year \<longleftrightarrow> (year smod 4 = 0 \<and> year smod 100 \<noteq> 0) \<or> year smod 400 = 0"

section \<open>From microseconds to a date\<close>

text \<open>The year and the day of the year, from the number of days since January 1, 0001.\<close>

definition year_of_days :: "int \<Rightarrow> int \<times> int" where
  "year_of_days numDays =
     (let tmp = numDays sdiv 146097; rem = numDays smod 146097;
          year = i16 (tmp * 400 + 1);
          tmp = rem sdiv 36524; rem = rem smod 36524;
          (tmp, rem) = (if tmp = 4 then (3, 36524) else (tmp, rem));
          year = i16 (year + tmp * 100);
          tmp = rem sdiv 1461; rem = rem smod 1461;
          year = i16 (year + tmp * 4);
          tmp = rem sdiv 365; rem = rem smod 365;
          (tmp, rem) = (if tmp = 4 then (3, 365) else (tmp, rem));
          year = i16 (year + tmp)
      in (year, i16 rem))"

text \<open>\<open>for (tmp = 1; lastDayOfMonth[isLeap][tmp] < yday; tmp++)\<close>, on the rest of the table.\<close>

fun month_loop :: "int \<Rightarrow> int list \<Rightarrow> int \<Rightarrow> int exec" where
  "month_loop yday [] tmp = None"
| "month_loop yday (l # ls) tmp = (if l < yday then month_loop yday ls (tmp + 1) else Some tmp)"

definition ComputeGMT :: "int \<Rightarrow> PRExplodedTime exec" where
  "ComputeGMT time =
     (let sec = time sdiv 1000000; usec = i32 (time smod 1000000);
          (sec, usec) = (if usec < 0 then (sec - 1, i32 (usec + 1000000)) else (sec, usec));
          numDays = i32 (sec sdiv 86400); rem = i32 (sec smod 86400);
          (numDays, rem) = (if rem < 0 then (i32 (numDays - 1), i32 (rem + 86400)) else (numDays, rem));
          wday = i8 ((numDays + 4) smod 7);
          wday = (if wday < 0 then i8 (wday + 7) else wday);
          hour = rem sdiv 3600;
          rem = rem smod 3600;
          minute = rem sdiv 60;
          second = rem smod 60;
          numDays = i32 (numDays + 719162);
          (year, yday) = year_of_days numDays;
          isLeap = IsLeapYear year
      in do { tmp \<leftarrow> month_loop yday (tl (lastDayOfMonth isLeap)) 1;
              let month = tmp - 1;
              l \<leftarrow> aref (lastDayOfMonth isLeap) month;
              Some \<lparr>tm_usec = usec, tm_sec = second, tm_min = minute, tm_hour = hour,
                    tm_mday = i32 (yday - l), tm_month = month, tm_year = year, tm_wday = wday,
                    tm_yday = yday, tm_params = \<lparr>tp_gmt_offset = 0, tp_dst_offset = 0\<rparr>\<rparr> })"

section \<open>Offsets\<close>

text \<open>The carry \<open>hi += lo / m; lo %= m; if (lo < 0) { lo += m; hi--; }\<close> under its guard.\<close>

definition carry :: "int \<Rightarrow> int \<Rightarrow> int \<Rightarrow> int \<times> int" where
  "carry m lo hi =
     (if lo < 0 \<or> m \<le> lo then
        let hi = i32 (hi + lo sdiv m); lo = lo smod m in
        if lo < 0 then (i32 (lo + m), i32 (hi - 1)) else (lo, hi)
      else (lo, hi))"

definition prev_day :: "PRExplodedTime \<Rightarrow> PRExplodedTime exec" where
  "prev_day t =
     do { let mday = i32 (tm_mday t - 1);
          let yday = i16 (tm_yday t - 1);
          (mday, month, year, yday) \<leftarrow>
            (if mday < 1 then
               let month = i32 (tm_month t - 1);
                   (month, year, yday) =
                     (if month < 0 then
                        let year = i16 (tm_year t - 1) in
                        (11, year, if IsLeapYear year then 365 else 364)
                      else (month, tm_year t, yday))
               in do { d \<leftarrow> aref (nDays (IsLeapYear year)) month; Some (d, month, year, yday) }
             else Some (mday, tm_month t, tm_year t, yday));
          let wday = i8 (tm_wday t - 1);
          Some (t\<lparr>tm_mday := mday, tm_month := month, tm_year := year, tm_yday := yday,
                  tm_wday := (if wday < 0 then 6 else wday)\<rparr>) }"

definition next_day :: "PRExplodedTime \<Rightarrow> PRExplodedTime exec" where
  "next_day t =
     do { let mday = i32 (tm_mday t + 1);
          let yday = i16 (tm_yday t + 1);
          d \<leftarrow> aref (nDays (IsLeapYear (tm_year t))) (tm_month t);
          let (mday, month, year, yday) =
            (if mday > d then
               let month = i32 (tm_month t + 1) in
               if month > 11 then (1, 0, i16 (tm_year t + 1), 0) else (1, month, tm_year t, yday)
             else (mday, tm_month t, tm_year t, yday));
          let wday = i8 (tm_wday t + 1);
          Some (t\<lparr>tm_mday := mday, tm_month := month, tm_year := year, tm_yday := yday,
                  tm_wday := (if wday > 6 then 0 else wday)\<rparr>) }"

definition ApplySecOffset :: "PRExplodedTime \<Rightarrow> int \<Rightarrow> PRExplodedTime exec" where
  "ApplySecOffset t secOffset =
     (let (sec, minute) = carry 60 (i32 (tm_sec t + secOffset)) (tm_min t);
          (minute, hour) = carry 60 minute (tm_hour t);
          t = t\<lparr>tm_sec := sec, tm_min := minute\<rparr>
      in if hour < 0 then prev_day (t\<lparr>tm_hour := i32 (hour + 24)\<rparr>)
         else if hour > 23 then next_day (t\<lparr>tm_hour := i32 (hour - 24)\<rparr>)
         else Some (t\<lparr>tm_hour := hour\<rparr>))"

definition PR_ExplodeTime :: "int \<Rightarrow> PRTimeParamFn \<Rightarrow> PRExplodedTime exec" where
  "PR_ExplodeTime usecs params =
     do { e \<leftarrow> ComputeGMT usecs;
          p \<leftarrow> params e;
          ApplySecOffset (e\<lparr>tm_params := p\<rparr>) (i32 (tp_gmt_offset p + tp_dst_offset p)) }"

section \<open>Normalization\<close>

lemma nDays_bounds:
  assumes "aref (nDays leap) m = Some d"
  shows "28 \<le> d \<and> d \<le> 31"
proof -
  have "d \<in> set (nDays leap)" using assms by (auto simp: aref_def rd_def split: if_splits)
  then show ?thesis by (auto simp: nDays_def split: if_splits)
qed

text \<open>The two loops that bring \<open>tm_mday\<close> into the month.\<close>

function mday_small :: "int \<Rightarrow> int \<Rightarrow> int \<Rightarrow> (int \<times> int \<times> int) exec" where
  "mday_small mday month year =
     (let month = i32 (month - 1);
          (month, year) = (if month < 0 then (11, i16 (year - 1)) else (month, year))
      in do { d \<leftarrow> aref (nDays (IsLeapYear year)) month;
              let mday = mday + d;
              if mday < 1 then mday_small mday month year else Some (mday, month, year) })"
  by pat_completeness auto
termination
  by (relation "measure (\<lambda>(mday, month, year). nat (1 - mday))") (auto dest!: nDays_bounds)

function mday_large :: "int \<Rightarrow> int \<Rightarrow> int \<Rightarrow> (int \<times> int \<times> int) exec" where
  "mday_large mday month year =
     do { d \<leftarrow> aref (nDays (IsLeapYear year)) month;
          if mday > d then
            let mday = mday - d; month = i32 (month + 1);
                (month, year) = (if month > 11 then (0, i16 (year + 1)) else (month, year))
            in mday_large mday month year
          else Some (mday, month, year) }"
  by pat_completeness auto
termination
  by (relation "measure (\<lambda>(mday, month, year). nat mday)") (auto dest!: nDays_bounds)

declare mday_small.simps [simp del] mday_large.simps [simp del]

definition carry_month :: "int \<Rightarrow> int \<Rightarrow> int \<times> int" where
  "carry_month month year =
     (if month < 0 \<or> 12 \<le> month then
        let year = i16 (year + month sdiv 12); month = month smod 12 in
        if month < 0 then (i32 (month + 12), i16 (year - 1)) else (month, year)
      else (month, year))"

definition PR_NormalizeTime :: "PRExplodedTime \<Rightarrow> PRTimeParamFn \<Rightarrow> PRExplodedTime exec" where
  "PR_NormalizeTime t params =
     (let sec = i32 (tm_sec t - (tp_gmt_offset (tm_params t) + tp_dst_offset (tm_params t)));
          (usec, sec) = carry 1000000 (tm_usec t) sec;
          (sec, minute) = carry 60 sec (tm_min t);
          (minute, hour) = carry 60 minute (tm_hour t);
          (hour, mday) = carry 24 hour (tm_mday t);
          (month, year) = carry_month (tm_month t) (tm_year t)
      in do { (mday, month, year) \<leftarrow>
                (if mday < 1 then mday_small mday month year else mday_large mday month year);
              l \<leftarrow> aref (lastDayOfMonth (IsLeapYear year)) month;
              let yday = i16 (mday + l);
              let numDays = i32 (DAYS_BETWEEN_YEARS 1970 year + yday);
              let wday = i8 ((numDays + 4) smod 7);
              let wday = (if wday < 0 then i8 (wday + 7) else wday);
              let g = \<lparr>tm_usec = usec, tm_sec = sec, tm_min = minute, tm_hour = hour, tm_mday = mday,
                       tm_month = month, tm_year = year, tm_wday = wday, tm_yday = yday,
                       tm_params = \<lparr>tp_gmt_offset = 0, tp_dst_offset = 0\<rparr>\<rparr>;
              p \<leftarrow> params g;
              ApplySecOffset (g\<lparr>tm_params := p\<rparr>) (i32 (tp_gmt_offset p + tp_dst_offset p)) })"

section \<open>Time zones\<close>

definition PR_GMTParameters :: PRTimeParamFn where
  "PR_GMTParameters gmt = Some \<lparr>tp_gmt_offset = 0, tp_dst_offset = 0\<rparr>"

definition PR_ImplodeTime :: "PRExplodedTime \<Rightarrow> int exec" where
  "PR_ImplodeTime exploded =
     do { copy \<leftarrow> PR_NormalizeTime exploded PR_GMTParameters;
          let numDays = i32 (DAYS_BETWEEN_YEARS 1970 (tm_year copy));
          let numSecs = i32 (tm_yday copy * 86400 + tm_hour copy * 3600 + tm_min copy * 60 + tm_sec copy);
          let temp = i64 (numDays * 86400);
          let numSecs64 = i64 (numSecs + temp);
          let numSecs64 = i64 (numSecs64 - tp_gmt_offset (tm_params copy));
          let numSecs64 = i64 (numSecs64 - tp_dst_offset (tm_params copy));
          let temp = i64 (numSecs64 * 1000000);
          Some (i64 (tm_usec copy + temp)) }"

definition firstSunday :: "int \<Rightarrow> int \<Rightarrow> int" where
  "firstSunday mday wday = (mday - wday + 7 - 1) smod 7 + 1"

definition NthSunday :: "int \<Rightarrow> int \<Rightarrow> int \<Rightarrow> int \<Rightarrow> int" where
  "NthSunday mday wday N ndays =
     (let firstSun = i32 (firstSunday mday wday);
          N = (if N < 0 then (ndays - firstSun) sdiv 7 else N)
      in i32 (firstSun + 7 * N))"

record DSTParams =
  dst_start_month :: int
  dst_start_Nth_Sunday :: int
  dst_start_month_ndays :: int
  dst_end_month :: int
  dst_end_Nth_Sunday :: int
  dst_end_month_ndays :: int

definition dstParams :: "DSTParams list" where
  "dstParams =
     [\<lparr>dst_start_month = 3, dst_start_Nth_Sunday = 0, dst_start_month_ndays = 30,
       dst_end_month = 9, dst_end_Nth_Sunday = -1, dst_end_month_ndays = 31\<rparr>,
      \<lparr>dst_start_month = 2, dst_start_Nth_Sunday = 1, dst_start_month_ndays = 31,
       dst_end_month = 10, dst_end_Nth_Sunday = 0, dst_end_month_ndays = 30\<rparr>]"

definition dst_offset_of :: "PRExplodedTime \<Rightarrow> DSTParams \<Rightarrow> int" where
  "dst_offset_of st dst =
     (if tm_month st < dst_start_month dst then 0
      else if tm_month st = dst_start_month dst then
        let NthSun = NthSunday (tm_mday st) (tm_wday st) (dst_start_Nth_Sunday dst) (dst_start_month_ndays dst) in
        if tm_mday st < NthSun then 0
        else if tm_mday st = NthSun then (if tm_hour st < 2 then 0 else 3600)
        else 3600
      else if tm_month st < dst_end_month dst then 3600
      else if tm_month st = dst_end_month dst then
        let NthSun = NthSunday (tm_mday st) (tm_wday st) (dst_end_Nth_Sunday dst) (dst_end_month_ndays dst) in
        if tm_mday st < NthSun then 3600
        else if tm_mday st = NthSun then (if tm_hour st < 1 then 3600 else 0)
        else 0
      else 0)"

definition PR_USPacificTimeParameters :: PRTimeParamFn where
  "PR_USPacificTimeParameters gmt =
     do { let off = -8 * 3600;
          st \<leftarrow> ApplySecOffset gmt off;
          dst \<leftarrow> aref dstParams (if tm_year st < 2007 then 0 else 1);
          Some \<lparr>tp_gmt_offset = off, tp_dst_offset = dst_offset_of st dst\<rparr> }"

section \<open>The Gregorian calendar\<close>

text \<open>The reference: leap years, the number of days before a year, a month and a date, counted from
  January 1 of the year 1 in the proleptic Gregorian calendar with floor division.\<close>

definition leap :: "int \<Rightarrow> bool" where
  "leap y \<longleftrightarrow> (4 dvd y \<and> \<not> 100 dvd y) \<or> 400 dvd y"

definition days_before_year :: "int \<Rightarrow> int" where
  "days_before_year y = (y - 1) * 365 + (y - 1) div 4 - (y - 1) div 100 + (y - 1) div 400"

definition month_days :: "bool \<Rightarrow> int \<Rightarrow> int" where
  "month_days l m = nDays l ! nat m"

definition before_month :: "bool \<Rightarrow> int \<Rightarrow> int" where
  "before_month l m = lastDayOfMonth l ! nat m"

definition date_days :: "int \<Rightarrow> int \<Rightarrow> int \<Rightarrow> int" where
  "date_days y m d = days_before_year y + before_month (leap y) m + d"

lemma div_step: "0 < m \<Longrightarrow> (y::int) div m = (y - 1) div m + (if m dvd y then 1 else 0)"
proof -
  assume m: "0 < m"
  obtain q r where y: "y = q * m + r" "0 \<le> r" "r < m"
    using m by (metis div_mult_mod_eq mult.commute pos_mod_bound pos_mod_sign)
  show ?thesis
  proof (cases "r = 0")
    case True
    have e: "q * m - 1 = (m - 1) + (q - 1) * m" by (simp add: algebra_simps)
    have "((m - 1) + (q - 1) * m) div m = (q - 1) + (m - 1) div m"
      using m by (intro div_mult_self1) simp
    then have "(q * m - 1) div m = q - 1" unfolding e using m by simp
    then show ?thesis using True y m by simp
  next
    case False
    have "(q * m + (r - 1)) div m = q" using y m False by (simp add: div_add1_eq)
    moreover have "\<not> m dvd y" using y False m by (simp add: dvd_eq_mod_eq_0)
    ultimately show ?thesis using y m by (simp add: algebra_simps)
  qed
qed

lemma leap_count: "leap y \<longleftrightarrow> (if 4 dvd y then 1 else 0) - (if 100 dvd y then 1 else 0) + (if 400 dvd y then 1 else (0::int)) = 1"
  and leap_count': "\<not> leap y \<longleftrightarrow> (if 4 dvd y then 1 else 0) - (if 100 dvd y then 1 else 0) + (if 400 dvd y then 1 else (0::int)) = 0"
proof -
  have a: "4 dvd y" if "100 dvd y" using that by (rule dvd_trans [rotated]) simp
  have b: "100 dvd y" if "400 dvd y" using that by (rule dvd_trans [rotated]) simp
  show "leap y \<longleftrightarrow> (if 4 dvd y then 1 else 0) - (if 100 dvd y then 1 else 0) + (if 400 dvd y then 1 else (0::int)) = 1"
    unfolding leap_def using a b by (cases "4 dvd y"; cases "100 dvd y"; cases "400 dvd y") simp_all
  show "\<not> leap y \<longleftrightarrow> (if 4 dvd y then 1 else 0) - (if 100 dvd y then 1 else 0) + (if 400 dvd y then 1 else (0::int)) = 0"
    unfolding leap_def using a b by (cases "4 dvd y"; cases "100 dvd y"; cases "400 dvd y") simp_all
qed

lemma days_before_year_Suc: "days_before_year (y + 1) = days_before_year y + 365 + (if leap y then 1 else 0)"
proof -
  let ?a = "if 4 dvd y then 1 else (0::int)" and ?b = "if 100 dvd y then 1 else (0::int)" and ?c = "if 400 dvd y then 1 else (0::int)"
  have "days_before_year (y + 1) = y * 365 + ((y - 1) div 4 + ?a) - ((y - 1) div 100 + ?b) + ((y - 1) div 400 + ?c)"
  proof -
    have s: "y div 4 = (y - 1) div 4 + ?a" "y div 100 = (y - 1) div 100 + ?b" "y div 400 = (y - 1) div 400 + ?c"
      by (rule div_step, simp)+
    show ?thesis unfolding days_before_year_def add_diff_cancel_right' by (simp only: s)
  qed
  also have "\<dots> = days_before_year y + 365 + (?a - ?b + ?c)"
    unfolding days_before_year_def by (simp only: algebra_simps)
  also have "?a - ?b + ?c = (if leap y then 1 else 0)"
    using leap_count [of y] leap_count' [of y] by (cases "leap y") (simp_all only: if_True if_False simp_thms)
  finally show ?thesis .
qed

lemma smod_zero_iff:
  assumes "0 < m"
  shows "(x::int) smod m = 0 \<longleftrightarrow> m dvd x"
proof (cases "0 \<le> x")
  case True
  then show ?thesis using assms by (simp add: smod_nonneg dvd_eq_mod_eq_0)
next
  case False
  then have "x smod m = - (- x mod m)" using assms by (simp add: smod_neg)
  then show ?thesis using dvd_eq_mod_eq_0 [of m "- x"] by simp
qed

lemma IsLeapYear_leap: "IsLeapYear y = leap y"
  by (auto simp: IsLeapYear_def leap_def smod_zero_iff)

lemma days_before_1970: "days_before_year 1970 = 719162"
  by (simp add: days_before_year_def)

lemma COUNT_DAYS_eq: "1 \<le> y \<Longrightarrow> COUNT_DAYS y = days_before_year y"
  by (simp add: COUNT_DAYS_def COUNT_LEAPS_def days_before_year_def sdiv_nonneg)

lemma DAYS_BETWEEN_eq: "1 \<le> y \<Longrightarrow> DAYS_BETWEEN_YEARS 1970 y = days_before_year y - 719162"
  by (simp add: DAYS_BETWEEN_YEARS_def COUNT_DAYS_eq days_before_1970)

lemma days_before_year_mono: "y \<le> z \<Longrightarrow> days_before_year y + 365 * (z - y) \<le> days_before_year z"
proof -
  have "days_before_year y + 365 * int n \<le> days_before_year (y + int n)" for n
  proof (induction n)
    case (Suc n)
    have "days_before_year (y + int (Suc n)) = days_before_year (y + int n) + 365 + (if leap (y + int n) then 1 else 0)"
      using days_before_year_Suc [of "y + int n"] by (simp add: algebra_simps)
    then show ?case using Suc by (simp split: if_splits)
  qed simp
  from this [of "nat (z - y)"] show "y \<le> z \<Longrightarrow> ?thesis" by simp
qed

section \<open>Months\<close>

lemma month_cases:
  assumes "0 \<le> m" "m \<le> (11::int)"
  obtains "m = 0" | "m = 1" | "m = 2" | "m = 3" | "m = 4" | "m = 5" | "m = 6" | "m = 7" | "m = 8"
    | "m = 9" | "m = 10" | "m = 11"
proof -
  have "m \<in> set [0..11]" using assms by simp
  moreover have "[0..11::int] = [0, 1, 2, 3, 4, 5, 6, 7, 8, 9, 10, 11]" by code_simp
  ultimately show ?thesis using that by auto
qed

lemma aref_nDays: "0 \<le> m \<Longrightarrow> m \<le> 11 \<Longrightarrow> aref (nDays l) m = Some (month_days l m)"
  by (simp add: aref_def rd_def nDays_def month_days_def)

lemma aref_last: "0 \<le> m \<Longrightarrow> m \<le> 11 \<Longrightarrow> aref (lastDayOfMonth l) m = Some (before_month l m)"
  by (simp add: aref_def rd_def lastDayOfMonth_def before_month_def)

lemma month_days_bounds: "0 \<le> m \<Longrightarrow> m \<le> 11 \<Longrightarrow> 28 \<le> month_days l m \<and> month_days l m \<le> 31"
  using nDays_bounds [of l m] aref_nDays [of m l] by simp

lemma before_month_step: "1 \<le> m \<Longrightarrow> m \<le> 11 \<Longrightarrow> before_month l m = before_month l (m - 1) + month_days l (m - 1)"
  by (rule month_cases [of m]) (simp_all add: before_month_def month_days_def lastDayOfMonth_def nDays_def)

lemma before_month_0: "before_month l 0 = -1"
  by (simp add: before_month_def lastDayOfMonth_def)

lemma before_month_11: "before_month l 11 + month_days l 11 = (if l then 365 else 364)"
  by (simp add: before_month_def month_days_def lastDayOfMonth_def nDays_def)

lemma before_month_bounds: "0 \<le> m \<Longrightarrow> m \<le> 11 \<Longrightarrow> -1 \<le> before_month l m \<and> before_month l m \<le> 334"
  by (rule month_cases [of m]) (simp_all add: before_month_def lastDayOfMonth_def)

lemmas month_table = before_month_def month_days_def lastDayOfMonth_def nDays_def

text \<open>The loop that finds the month of a day of the year.\<close>

lemma month_loop_first:
  "\<exists>x\<in>set ls. yday \<le> x \<Longrightarrow> \<exists>i < length ls. month_loop yday ls tmp = Some (tmp + int i) \<and> yday \<le> ls ! i \<and>
     (i = 0 \<or> ls ! (i - 1) < yday)"
proof (induction ls arbitrary: tmp)
  case (Cons a ls)
  show ?case
  proof (cases "a < yday")
    case True
    then have "\<exists>x\<in>set ls. yday \<le> x" using Cons.prems by auto
    from Cons.IH [OF this, of "tmp + 1"] obtain i where "i < length ls"
      "month_loop yday ls (tmp + 1) = Some (tmp + 1 + int i)" "yday \<le> ls ! i" "i = 0 \<or> ls ! (i - 1) < yday" by blast
    then show ?thesis using True by (intro exI [of _ "Suc i"]) (auto simp: nth_Cons' )
  qed (intro exI [of _ 0], simp)
qed simp

lemma before_month_next: "0 \<le> m \<Longrightarrow> m \<le> 11 \<Longrightarrow> before_month l m + month_days l m = lastDayOfMonth l ! nat (m + 1)"
  by (rule month_cases [of m]) (simp_all add: month_table)

lemma month_loop_ok:
  assumes "0 \<le> yday" "yday \<le> (if l then 365 else 364)"
  shows "\<exists>m. month_loop yday (tl (lastDayOfMonth l)) 1 = Some (m + 1) \<and> 0 \<le> m \<and> m \<le> 11 \<and>
    before_month l m < yday \<and> yday \<le> before_month l m + month_days l m"
proof -
  have "\<exists>x\<in>set (tl (lastDayOfMonth l)). yday \<le> x" using assms by (auto simp: lastDayOfMonth_def split: if_splits)
  from month_loop_first [OF this, of 1] obtain i where i: "i < length (tl (lastDayOfMonth l))"
    "month_loop yday (tl (lastDayOfMonth l)) 1 = Some (1 + int i)" "yday \<le> tl (lastDayOfMonth l) ! i"
    "i = 0 \<or> tl (lastDayOfMonth l) ! (i - 1) < yday" by blast
  have len: "length (lastDayOfMonth l) = 13" by (simp add: lastDayOfMonth_def)
  have "before_month l (int i) < yday"
  proof (cases i)
    case 0
    then show ?thesis using assms by (simp add: before_month_0)
  next
    case (Suc j)
    then show ?thesis using i(1,4) by (simp add: before_month_def nth_tl nat_add_distrib)
  qed
  moreover have "yday \<le> before_month l (int i) + month_days l (int i)"
    using before_month_next [of "int i" l] i(1,3) len by (simp add: nth_tl nat_add_distrib)
  ultimately show ?thesis using i(1,2) len by (intro exI [of _ "int i"]) simp
qed

section \<open>Dates\<close>

lemma date_prev_month:
  assumes "0 \<le> m" "m \<le> 11"
  shows "date_days y m d = (if m = 0 then date_days (y - 1) 11 (d + month_days (leap (y - 1)) 11)
     else date_days y (m - 1) (d + month_days (leap y) (m - 1)))"
proof (cases "m = 0")
  case True
  have "days_before_year y = days_before_year (y - 1) + 365 + (if leap (y - 1) then 1 else 0)"
    using days_before_year_Suc [of "y - 1"] by simp
  then show ?thesis using True before_month_11 [of "leap (y - 1)"] by (simp add: date_days_def before_month_0)
next
  case False
  then show ?thesis using assms before_month_step [of m "leap y"] by (simp add: date_days_def)
qed

lemma date_next_month:
  assumes "0 \<le> m" "m \<le> 11"
  shows "date_days y m (month_days (leap y) m + d) =
    (if m = 11 then date_days (y + 1) 0 d else date_days y (m + 1) d)"
  using date_prev_month [of 0 "y + 1" d] date_prev_month [of "m + 1" y d] assms
  by (auto simp: add.commute)

text \<open>A date of the calendar, in the years that fit \<open>tm_year\<close>.\<close>

definition date_ok :: "int \<Rightarrow> int \<Rightarrow> int \<Rightarrow> bool" where
  "date_ok y m d \<longleftrightarrow> 1 \<le> y \<and> y \<le> 32767 \<and> 0 \<le> m \<and> m \<le> 11 \<and> 1 \<le> d \<and> d \<le> month_days (leap y) m"

text \<open>The last day of the year 32767, the largest a \<open>PRInt16\<close> can hold, is the day with this number
  less one.\<close>

definition max_day :: int where "max_day = 11967900"

lemma max_day_eq: "days_before_year 32768 = max_day"
  by (simp add: days_before_year_def max_day_def)

lemma date_year_bounds:
  assumes "0 \<le> m" "m \<le> 11" "1 \<le> d" "d \<le> month_days (leap y) m"
  shows "days_before_year y \<le> date_days y m d" "date_days y m d < days_before_year (y + 1)"
proof -
  show "days_before_year y \<le> date_days y m d"
    using before_month_bounds [of m "leap y"] assms by (simp add: date_days_def)
  have "before_month (leap y) m + month_days (leap y) m \<le> (if leap y then 365 else 364)"
    by (rule month_cases [OF assms(1,2)]) (simp_all add: month_table)
  then show "date_days y m d < days_before_year (y + 1)"
    using assms by (simp add: date_days_def days_before_year_Suc split: if_splits)
qed

lemma mday_small_ok:
  assumes "0 \<le> month" "month \<le> 11" "1 \<le> year" "year \<le> 32767" "mday < 1" "0 \<le> date_days year month mday"
  shows "\<exists>d m y. mday_small mday month year = Some (d, m, y) \<and> date_ok y m d \<and>
    date_days y m d = date_days year month mday"
  using assms
proof (induction "nat (1 - mday)" arbitrary: mday month year rule: less_induct)
  case 1: less
  define m y where "m = (if month = 0 then 11 else month - 1)" and "y = (if month = 0 then year - 1 else year)"
  define d where "d = mday + month_days (leap y) m"
  have v: "date_days y m d = date_days year month mday"
    using date_prev_month [OF 1(2,3), of year mday] by (simp add: m_def y_def d_def)
  have mb: "0 \<le> m" "m \<le> 11" using 1(2,3) by (auto simp: m_def)
  have yb: "1 \<le> y" "y \<le> 32767"
  proof -
    have "1 < year" if "month = 0"
    proof (rule ccontr)
      assume "\<not> 1 < year"
      then have "year = 1" using 1(4) by simp
      then show False using 1(6,7) that by (simp add: date_days_def before_month_0 days_before_year_def)
    qed
    then show "1 \<le> y" "y \<le> 32767" using 1(4,5) by (auto simp: y_def)
  qed
  have ym: "(let month = i32 (month - 1) in if month < 0 then (11, i16 (year - 1)) else (month, year)) = (m, y)"
    using 1(2-5) by (auto simp: m_def y_def i32_id i16_id Let_def)
  have run: "mday_small mday month year = (if d < 1 then mday_small d m y else Some (d, m, y))"
    using ym mb by (subst mday_small.simps) (simp add: Let_def aref_nDays IsLeapYear_leap d_def split: if_splits)
  show ?case
  proof (cases "d < 1")
    case True
    have "\<exists>d' m' y'. mday_small d m y = Some (d', m', y') \<and> date_ok y' m' d' \<and> date_days y' m' d' = date_days y m d"
    proof (rule 1(1) [OF _ mb yb True])
      show "nat (1 - d) < nat (1 - mday)" using month_days_bounds [OF mb, of "leap y"] 1(6) by (simp add: d_def)
      show "0 \<le> date_days y m d" using v 1(7) by simp
    qed
    then show ?thesis using run True v by simp
  next
    case False
    then have "date_ok y m d" using mb yb 1(6) by (simp add: date_ok_def d_def)
    then show ?thesis using run False v by simp
  qed
qed

lemma mday_large_ok:
  assumes "0 \<le> month" "month \<le> 11" "1 \<le> year" "year \<le> 32767" "1 \<le> mday" "date_days year month mday < max_day"
  shows "\<exists>d m y. mday_large mday month year = Some (d, m, y) \<and> date_ok y m d \<and>
    date_days y m d = date_days year month mday"
  using assms
proof (induction "nat mday" arbitrary: mday month year rule: less_induct)
  case less
  note l = less(2-6)
  let ?dm = "month_days (leap year) month"
  note dm = month_days_bounds [OF l(1,2), of "leap year"]
  show ?case
  proof (cases "mday > ?dm")
    case False
    then show ?thesis using l
      by (subst mday_large.simps) (simp add: aref_nDays IsLeapYear_leap date_ok_def)
  next
    case True
    define m y where "m = (if month = 11 then 0 else month + 1)" and "y = (if month = 11 then year + 1 else year)"
    define d where "d = mday - ?dm"
    have v: "date_days y m d = date_days year month mday"
      using date_next_month [OF l(1,2), of year d] by (simp add: m_def y_def d_def)
    have mb: "0 \<le> m" "m \<le> 11" using l(1,2) by (auto simp: m_def)
    have d1: "1 \<le> d" using True by (simp add: d_def)
    have yb: "1 \<le> y" "y \<le> 32767"
    proof -
      have "year < 32767" if "month = 11"
      proof (rule ccontr)
        assume "\<not> year < 32767"
        then have "year = 32767" using l(4) by simp
        then have "date_days 32768 0 d < max_day" using v less(7) that by (simp add: m_def y_def)
        then show False using d1 max_day_eq by (simp add: date_days_def before_month_0)
      qed
      then show "1 \<le> y" "y \<le> 32767" using l(3,4) by (auto simp: y_def)
    qed
    have run: "mday_large mday month year = mday_large d m y"
      using True l mb yb by (subst mday_large.simps)
        (auto simp: aref_nDays IsLeapYear_leap Let_def i32_id i16_id m_def y_def d_def)
    have "\<exists>d' m' y'. mday_large d m y = Some (d', m', y') \<and> date_ok y' m' d' \<and> date_days y' m' d' = date_days y m d"
    proof (rule less(1) [OF _ mb yb d1])
      show "nat d < nat mday" using dm l(5) d1 by (simp add: d_def)
      show "date_days y m d < max_day" using v less(7) by simp
    qed
    then show ?thesis using run v by simp
  qed
qed

section \<open>The year of a day\<close>

lemma dvd_lin: "0 \<le> r \<Longrightarrow> r < m \<Longrightarrow> m dvd (q * m + r :: int) \<longleftrightarrow> r = 0"
  by (metis dvd_add_right_iff dvd_imp_le dvd_triv_right le_less not_less zdvd_not_zless dvd_0_right)

lemma div_lin: "0 \<le> r \<Longrightarrow> r < m \<Longrightarrow> (q * m + r :: int) div m = q"
  by (metis add.right_neutral div_mult_self3 div_pos_pos_trivial less_irrefl order.strict_trans1)

lemma year_decomp:
  assumes "0 \<le> b" "b \<le> 3" "0 \<le> c" "c \<le> 24" "0 \<le> d" "d \<le> (3::int)"
  shows "days_before_year (400 * a + 100 * b + 4 * c + d + 1) = 146097 * a + 36524 * b + 1461 * c + 365 * d"
    and "leap (400 * a + 100 * b + 4 * c + d + 1) \<longleftrightarrow> d = 3 \<and> (c \<noteq> 24 \<or> b = 3)"
proof -
  let ?x = "400 * a + 100 * b + 4 * c + d"
  have "?x div 4 = 100 * a + 25 * b + c" using div_lin [of d 4 "100 * a + 25 * b + c"] assms by (simp add: algebra_simps)
  moreover have "?x div 100 = 4 * a + b" using div_lin [of "4 * c + d" 100 "4 * a + b"] assms by (simp add: algebra_simps)
  moreover have "?x div 400 = a" using div_lin [of "100 * b + 4 * c + d" 400 a] assms by (simp add: algebra_simps)
  ultimately show "days_before_year (?x + 1) = 146097 * a + 36524 * b + 1461 * c + 365 * d"
    by (simp add: days_before_year_def)
  have "4 dvd ?x + 1 \<longleftrightarrow> d = 3"
  proof (cases "d = 3")
    case True
    then have "?x + 1 = (100 * a + 25 * b + c + 1) * 4 + 0" by simp
    then show ?thesis using True by (metis dvd_triv_right add.right_neutral)
  next
    case False
    then show ?thesis using dvd_lin [of "d + 1" 4 "100 * a + 25 * b + c"] assms by (simp add: algebra_simps)
  qed
  moreover have "100 dvd ?x + 1 \<longleftrightarrow> d = 3 \<and> c = 24"
  proof (cases "d = 3 \<and> c = 24")
    case True
    then have "?x + 1 = (4 * a + b + 1) * 100" by simp
    then show ?thesis using True by (metis dvd_triv_right)
  next
    case False
    then have "4 * c + d + 1 < 100" using assms by auto
    then show ?thesis using False dvd_lin [of "4 * c + d + 1" 100 "4 * a + b"] assms by (simp add: algebra_simps)
  qed
  moreover have "400 dvd ?x + 1 \<longleftrightarrow> d = 3 \<and> c = 24 \<and> b = 3"
  proof (cases "d = 3 \<and> c = 24 \<and> b = 3")
    case True
    then have "?x + 1 = (a + 1) * 400" by simp
    then show ?thesis using True by (metis dvd_triv_right)
  next
    case False
    then have "100 * b + 4 * c + d + 1 < 400" using assms by auto
    then show ?thesis using False dvd_lin [of "100 * b + 4 * c + d + 1" 400 a] assms by (simp add: algebra_simps)
  qed
  ultimately show "leap (?x + 1) \<longleftrightarrow> d = 3 \<and> (c \<noteq> 24 \<or> b = 3)" by (auto simp: leap_def)
qed

lemma split_div: "0 < (m::int) \<Longrightarrow> x = m * (x div m) + x mod m \<and> 0 \<le> x mod m \<and> x mod m < m"
  by simp

lemma year_of_days_ok:
  assumes "0 \<le> D" "D < max_day"
  shows "\<exists>y yd. year_of_days D = (y, yd) \<and> 1 \<le> y \<and> y \<le> 32767 \<and> 0 \<le> yd \<and> yd \<le> (if leap y then 365 else 364) \<and>
    days_before_year y + yd = D"
proof -
  define a r1 where "a = D div 146097" and "r1 = D mod 146097"
  have a: "D = 146097 * a + r1" "0 \<le> r1" "r1 < 146097" using split_div [of 146097 D] by (simp_all add: a_def r1_def)
  then have a0: "0 \<le> a" "a \<le> 81" using assms by (simp_all add: max_day_def)
  define b0 s where "b0 = r1 div 36524" and "s = r1 mod 36524"
  have b0: "r1 = 36524 * b0 + s" "0 \<le> s" "s < 36524" using split_div [of 36524 r1] by (simp_all add: b0_def s_def)
  define b r2 where "b = (if b0 = 4 then 3 else b0)" and "r2 = (if b0 = 4 then 36524 else s)"
  have b: "0 \<le> b" "b \<le> 3" "r1 = 36524 * b + r2" "0 \<le> r2" "r2 \<le> 36524" "r2 = 36524 \<longrightarrow> b = 3"
    using b0 a(2,3) by (auto simp: b_def r2_def)
  define c r3 where "c = r2 div 1461" and "r3 = r2 mod 1461"
  have c: "r2 = 1461 * c + r3" "0 \<le> r3" "r3 < 1461" using split_div [of 1461 r2] by (simp_all add: c_def r3_def)
  have c0: "0 \<le> c" "c \<le> 24" using c b(4,5) by linarith+
  define d0 u where "d0 = r3 div 365" and "u = r3 mod 365"
  have d0: "r3 = 365 * d0 + u" "0 \<le> u" "u < 365" using split_div [of 365 r3] by (simp_all add: d0_def u_def)
  define d yd where "d = (if d0 = 4 then 3 else d0)" and "yd = (if d0 = 4 then 365 else u)"
  have d: "0 \<le> d" "d \<le> 3" "r3 = 365 * d + yd" "0 \<le> yd" "yd \<le> 365" "yd = 365 \<longrightarrow> d = 3 \<and> r3 = 1460"
    using d0 c(2,3) by (auto simp: d_def yd_def)
  define y where "y = 400 * a + 100 * b + 4 * c + d + 1"
  note dec = year_decomp [OF b(1,2) c0 d(1,2), of a, folded y_def]
  have D: "days_before_year y + yd = D" using a(1) b(3) c(1) d(3) dec(1) by simp
  have lp: "yd \<le> (if leap y then 365 else 364)"
  proof (cases "yd = 365")
    case True
    then have "d = 3" "r3 = 1460" using d(6) by simp_all
    moreover have "c \<noteq> 24 \<or> b = 3" using c(1) \<open>r3 = 1460\<close> b(6) by linarith
    ultimately show ?thesis using dec(2) True by simp
  qed (use d(5) in auto)
  have y1: "1 \<le> y" using a0 b(1) c0 d(1) by (simp add: y_def)
  have y2: "y \<le> 32767"
  proof (rule ccontr)
    assume "\<not> y \<le> 32767"
    then have "32768 \<le> y" by simp
    then have "days_before_year 32768 \<le> days_before_year y" using days_before_year_mono [of 32768 y] by simp
    then show False using D d(4) assms(2) by (simp add: max_day_eq)
  qed
  have run: "year_of_days D = (y, yd)"
  proof -
    have s1: "D sdiv 146097 = a" "D smod 146097 = r1" using assms by (simp_all add: sdiv_nonneg smod_nonneg a_def r1_def)
    have s2: "r1 sdiv 36524 = b0" "r1 smod 36524 = s" using a(2) by (simp_all add: sdiv_nonneg smod_nonneg b0_def s_def)
    have s3: "r2 sdiv 1461 = c" "r2 smod 1461 = r3" using b(4) by (simp_all add: sdiv_nonneg smod_nonneg c_def r3_def)
    have s4: "r3 sdiv 365 = d0" "r3 smod 365 = u" using c(2) by (simp_all add: sdiv_nonneg smod_nonneg d0_def u_def)
    have p1: "(if b0 = 4 then (3, 36524) else (b0, s)) = (b, r2)" by (simp add: b_def r2_def)
    have p2: "(if d0 = 4 then (3, 365) else (d0, u)) = (d, yd)" by (simp add: d_def yd_def)
    have w: "i16 (a * 400 + 1) = a * 400 + 1" "i16 (a * 400 + 1 + b * 100) = a * 400 + 1 + b * 100"
      "i16 (a * 400 + 1 + b * 100 + c * 4) = a * 400 + 1 + b * 100 + c * 4"
      "i16 (a * 400 + 1 + b * 100 + c * 4 + d) = y" "i16 yd = yd"
      using a0 b(1,2) c0 d y2 y_def by (simp_all add: i16_id)
    show ?thesis unfolding year_of_days_def Let_def s1 s2 p1 prod.case s3 s4 p2 w ..
  qed
  then show ?thesis using y1 y2 d(4) lp D by blast
qed

section \<open>Normal times\<close>

text \<open>What a \<open>PRExplodedTime\<close> stands for: the microseconds since 1970 that its clock and calendar
  fields show, offsets not applied.\<close>

definition local_usec :: "PRExplodedTime \<Rightarrow> int" where
  "local_usec t = ((date_days (tm_year t) (tm_month t) (tm_mday t) - 719162) * 86400 +
     tm_hour t * 3600 + tm_min t * 60 + tm_sec t) * 1000000 + tm_usec t"

definition normal :: "PRExplodedTime \<Rightarrow> bool" where
  "normal t \<longleftrightarrow> 0 \<le> tm_usec t \<and> tm_usec t < 1000000 \<and> 0 \<le> tm_sec t \<and> tm_sec t < 60 \<and>
     0 \<le> tm_min t \<and> tm_min t < 60 \<and> 0 \<le> tm_hour t \<and> tm_hour t < 24 \<and>
     date_ok (tm_year t) (tm_month t) (tm_mday t) \<and>
     tm_yday t = before_month (leap (tm_year t)) (tm_month t) + tm_mday t \<and>
     tm_wday t = (date_days (tm_year t) (tm_month t) (tm_mday t) - 719162 + 4) mod 7"

definition time_min :: int where "time_min = - 62135596800000000"
definition time_max :: int where "time_max = 971890963200000000"

definition zero_params :: PRTimeParameters where
  "zero_params = \<lparr>tp_gmt_offset = 0, tp_dst_offset = 0\<rparr>"

lemma wday_idiom:
  assumes "\<bar>n\<bar> \<le> 2000000000"
  shows "(let wday = i8 (n smod 7) in if wday < 0 then i8 (wday + 7) else wday) = n mod 7"
proof -
  have "-7 < n smod 7 \<and> n smod 7 < 7"
  proof (cases "0 \<le> n")
    case True
    then show ?thesis using smod_nonneg [of n 7] split_div [of 7 n] by simp
  next
    case False
    then show ?thesis using smod_neg [of n 7] split_div [of 7 "- n"] by simp
  qed
  then have "i8 (n smod 7) = n smod 7" "n smod 7 < 0 \<longrightarrow> i8 (n smod 7 + 7) = n smod 7 + 7"
    by (simp_all add: i8_id)
  then show ?thesis using floor_div_idiom(2) [of 7 n] by (auto simp: Let_def split: if_splits)
qed

lemma floor_carry:
  assumes "0 < (m::int)"
  shows "(if x smod m < 0 then (x sdiv m - 1, x smod m + m) else (x sdiv m, x smod m)) = (x div m, x mod m)"
  using floor_div_idiom [OF assms, of x] by (simp split: if_splits)

lemma smod_bounds: "0 < (m::int) \<Longrightarrow> - m < x smod m \<and> x smod m < m"
proof (cases "0 \<le> x")
  case True
  then show "0 < m \<Longrightarrow> ?thesis" using smod_nonneg [of x m] split_div [of m x] by linarith
next
  case False
  then show "0 < m \<Longrightarrow> ?thesis" using smod_neg [of x m] split_div [of m "- x"] by linarith
qed

lemma sdiv_bounds: "0 < (m::int) \<Longrightarrow> x div m \<le> x sdiv m \<and> x sdiv m \<le> x div m + 1"
  using floor_div_idiom(1) [of m x] by (simp split: if_splits)

text \<open>The same idiom with the quotient and the remainder in 32-bit variables.\<close>

lemma floor_carry32:
  assumes "0 < m" "m \<le> 1000000000" "\<bar>x div m\<bar> \<le> 2000000000"
  shows "(let q = i32 (x sdiv m); r = i32 (x smod m) in
    if r < 0 then (i32 (q - 1), i32 (r + m)) else (q, r)) = (x div m, x mod m)"
proof -
  have b: "- m < x smod m" "x smod m < m" "x div m \<le> x sdiv m" "x sdiv m \<le> x div m + 1"
    using smod_bounds [OF assms(1), of x] sdiv_bounds [OF assms(1), of x] by blast+
  have w: "i32 (x sdiv m) = x sdiv m" "i32 (x smod m) = x smod m" "i32 (x sdiv m - 1) = x sdiv m - 1"
    using b assms by (intro i32_id; linarith)+
  have w2: "x smod m < 0 \<Longrightarrow> i32 (x smod m + m) = x smod m + m"
    using b assms by (intro i32_id; linarith)
  show "(let q = i32 (x sdiv m); r = i32 (x smod m) in
      if r < 0 then (i32 (q - 1), i32 (r + m)) else (q, r)) = (x div m, x mod m)"
    unfolding Let_def w(1,2) using w(3) floor_carry [OF assms(1), of x] w2 by (cases "x smod m < 0") simp_all
qed

lemma floor_carry64:
  assumes "0 < m" "m \<le> 1000000000"
  shows "(let q = x sdiv m; r = i32 (x smod m) in if r < 0 then (q - 1, i32 (r + m)) else (q, r)) = (x div m, x mod m)"
proof -
  have b: "- m < x smod m" "x smod m < m" using smod_bounds [OF assms(1), of x] by blast+
  have w: "i32 (x smod m) = x smod m" "x smod m < 0 \<Longrightarrow> i32 (x smod m + m) = x smod m + m"
    using b assms by (intro i32_id; linarith)+
  show ?thesis
    unfolding Let_def w(1) using floor_carry [OF assms(1), of x] w(2) by (cases "x smod m < 0") simp_all
qed

lemma ComputeGMT_ok:
  assumes "time_min \<le> time" "time < time_max"
  shows "\<exists>g. ComputeGMT time = Some g \<and> normal g \<and> local_usec g = time \<and> tm_params g = zero_params"
proof -
  define sec usec where "sec = time div 1000000" and "usec = time mod 1000000"
  have su: "time = 1000000 * sec + usec" "0 \<le> usec" "usec < 1000000"
    using split_div [of 1000000 time] by (simp_all add: sec_def usec_def)
  define D rem where "D = sec div 86400" and "rem = sec mod 86400"
  have dr: "sec = 86400 * D + rem" "0 \<le> rem" "rem < 86400" using split_div [of 86400 sec] by (simp_all add: D_def rem_def)
  have Db: "- 719162 \<le> D" "D < max_day - 719162"
    using assms su dr unfolding time_min_def time_max_def max_day_def by linarith+
  define h r where "h = rem div 3600" and "r = rem mod 3600"
  have hr: "rem = 3600 * h + r" "0 \<le> r" "r < 3600" using split_div [of 3600 rem] by (simp_all add: h_def r_def)
  define mi se where "mi = r div 60" and "se = r mod 60"
  have ms: "r = 60 * mi + se" "0 \<le> se" "se < 60" using split_div [of 60 r] by (simp_all add: mi_def se_def)
  obtain y yd where y: "year_of_days (D + 719162) = (y, yd)" "1 \<le> y" "y \<le> 32767" "0 \<le> yd"
      "yd \<le> (if leap y then 365 else 364)" "days_before_year y + yd = D + 719162"
    using year_of_days_ok [of "D + 719162"] Db by auto
  obtain m where m: "month_loop yd (tl (lastDayOfMonth (leap y))) 1 = Some (m + 1)" "0 \<le> m" "m \<le> 11"
      "before_month (leap y) m < yd" "yd \<le> before_month (leap y) m + month_days (leap y) m"
    using month_loop_ok [OF y(4,5)] by blast
  define md where "md = yd - before_month (leap y) m"
  have md: "date_ok y m md" using y(2,3) m by (simp add: date_ok_def md_def)
  define g where "g = \<lparr>tm_usec = usec, tm_sec = se, tm_min = mi, tm_hour = h, tm_mday = md, tm_month = m,
    tm_year = y, tm_wday = (D + 4) mod 7, tm_yday = yd, tm_params = zero_params\<rparr>"
  have p1: "(let sec = time sdiv 1000000; usec = i32 (time smod 1000000) in
      if usec < 0 then (sec - 1, i32 (usec + 1000000)) else (sec, usec)) = (sec, usec)"
    unfolding sec_def usec_def by (rule floor_carry64) simp_all
  have p2: "(let numDays = i32 (sec sdiv 86400); rem = i32 (sec smod 86400) in
      if rem < 0 then (i32 (numDays - 1), i32 (rem + 86400)) else (numDays, rem)) = (D, rem)"
    unfolding D_def rem_def by (rule floor_carry32) (use Db in \<open>simp_all add: D_def max_day_def\<close>)
  have p3: "(let wday = i8 ((D + 4) smod 7) in if wday < 0 then i8 (wday + 7) else wday) = (D + 4) mod 7"
    using Db by (intro wday_idiom) (simp add: max_day_def)
  have p4: "rem sdiv 3600 = h" "rem smod 3600 = r" "r sdiv 60 = mi" "r smod 60 = se"
    unfolding h_def mi_def se_def r_def
    by (rule sdiv_nonneg [OF dr(2)] smod_nonneg [OF dr(2)] sdiv_nonneg [OF hr(2) [unfolded r_def]]
        smod_nonneg [OF hr(2) [unfolded r_def]], simp)+
  have p5: "i32 (D + 719162) = D + 719162" using Db by (simp add: i32_id max_day_def)
  have p6: "i32 (yd - before_month (leap y) m) = md"
    using md month_days_bounds [OF m(2,3), of "leap y"] by (simp add: md_def date_ok_def i32_id)
  have run: "ComputeGMT time = Some g"
    unfolding ComputeGMT_def Let_def p1 [unfolded Let_def] prod.case p2 [unfolded Let_def] p3 [unfolded Let_def]
      p4 p5 y(1) IsLeapYear_leap m(1) bind.bind_lunit add_diff_cancel_right' aref_last [OF m(2,3)] p6
    by (simp add: g_def zero_params_def)
  have hb: "0 \<le> h" "h < 24" "0 \<le> mi" "mi < 60" using dr hr ms by linarith+
  have "normal g"
    unfolding normal_def g_def using su(2,3) ms(2,3) hb md y(6)
    by (simp add: md_def date_days_def)
  moreover have "local_usec g = time"
    using su(1) dr(1) hr(1) ms(1) y(6) by (simp add: local_usec_def g_def date_days_def md_def)
  ultimately show ?thesis using run by (simp add: g_def)
qed

section \<open>Offsets and normalization\<close>

lemma carry_eq:
  assumes "0 < m" "m \<le> 1000000000" "\<bar>hi + lo div m\<bar> \<le> 2000000000"
  shows "carry m lo hi = (lo mod m, hi + lo div m)"
proof (cases "lo < 0 \<or> m \<le> lo")
  case False
  then show ?thesis by (simp add: carry_def)
next
  case True
  have b: "- m < lo smod m" "lo smod m < m" "lo div m \<le> lo sdiv m" "lo sdiv m \<le> lo div m + 1"
    using smod_bounds [OF assms(1), of lo] sdiv_bounds [OF assms(1), of lo] by blast+
  have w: "i32 (hi + lo sdiv m) = hi + lo sdiv m" "i32 (hi + lo sdiv m - 1) = hi + lo sdiv m - 1"
    using b assms by (intro i32_id; linarith)+
  have w2: "lo smod m < 0 \<Longrightarrow> i32 (lo smod m + m) = lo smod m + m"
    using b assms by (intro i32_id; linarith)
  show ?thesis unfolding carry_def Let_def w
    using True w2 floor_carry [OF assms(1), of lo] by (cases "lo smod m < 0") (simp_all add: algebra_simps)
qed

text \<open>A day forward or backward, with the calendar carry.\<close>

definition same_clock :: "PRExplodedTime \<Rightarrow> PRExplodedTime \<Rightarrow> bool" where
  "same_clock t t' \<longleftrightarrow> tm_usec t' = tm_usec t \<and> tm_sec t' = tm_sec t \<and> tm_min t' = tm_min t \<and>
     tm_hour t' = tm_hour t \<and> tm_params t' = tm_params t"

definition cal_ok :: "PRExplodedTime \<Rightarrow> bool" where
  "cal_ok t \<longleftrightarrow> date_ok (tm_year t) (tm_month t) (tm_mday t) \<and>
     tm_yday t = before_month (leap (tm_year t)) (tm_month t) + tm_mday t \<and>
     tm_wday t = (date_days (tm_year t) (tm_month t) (tm_mday t) - 719162 + 4) mod 7"

definition cal_day :: "PRExplodedTime \<Rightarrow> int" where
  "cal_day t = date_days (tm_year t) (tm_month t) (tm_mday t)"

lemma mod7_pred: "(if i8 (n mod 7 - 1) < 0 then 6 else i8 (n mod 7 - 1)) = (n - 1) mod 7"
proof -
  have b: "0 \<le> n mod 7" "n mod 7 < 7" by simp_all
  then have "i8 (n mod 7 - 1) = n mod 7 - 1" by (intro i8_id) linarith+
  moreover have "(n - 1) mod 7 = (n mod 7 - 1) mod 7" by (simp add: mod_diff_left_eq)
  moreover have "(n mod 7 - 1) mod 7 = (if n mod 7 = 0 then 6 else n mod 7 - 1)" using b by auto
  moreover have "n mod 7 - 1 < 0 \<longleftrightarrow> n mod 7 = 0" using b by linarith
  ultimately show ?thesis by simp
qed

lemma mod7_succ: "(if i8 (n mod 7 + 1) > 6 then 0 else i8 (n mod 7 + 1)) = (n + 1) mod 7"
proof -
  have b: "0 \<le> n mod 7" "n mod 7 < 7" by simp_all
  then have "i8 (n mod 7 + 1) = n mod 7 + 1" by (intro i8_id) linarith+
  moreover have "(n + 1) mod 7 = (n mod 7 + 1) mod 7" by (simp add: mod_add_left_eq)
  moreover have "(n mod 7 + 1) mod 7 = (if n mod 7 = 6 then 0 else n mod 7 + 1)" using b by auto
  moreover have "n mod 7 + 1 > 6 \<longleftrightarrow> n mod 7 = 6" using b by linarith
  ultimately show ?thesis by simp
qed

lemma cal_ok_bounds:
  assumes "cal_ok t"
  shows "1 \<le> tm_year t" "tm_year t \<le> 32767" "0 \<le> tm_month t" "tm_month t \<le> 11" "1 \<le> tm_mday t"
    "tm_mday t \<le> 31" "tm_mday t \<le> month_days (leap (tm_year t)) (tm_month t)" "0 \<le> tm_yday t" "tm_yday t \<le> 365"
proof -
  show b: "1 \<le> tm_year t" "tm_year t \<le> 32767" "0 \<le> tm_month t" "tm_month t \<le> 11" "1 \<le> tm_mday t"
    "tm_mday t \<le> month_days (leap (tm_year t)) (tm_month t)"
    using assms by (simp_all add: cal_ok_def date_ok_def)
  note m = month_days_bounds [OF b(3,4), of "leap (tm_year t)"] before_month_bounds [OF b(3,4), of "leap (tm_year t)"]
  show "tm_mday t \<le> 31" using b m by linarith
  show "0 \<le> tm_yday t" "tm_yday t \<le> 365" using assms b m by (auto simp: cal_ok_def)
qed

lemma prev_day_ok:
  assumes "cal_ok t" "0 < cal_day t"
  shows "\<exists>t'. prev_day t = Some t' \<and> cal_ok t' \<and> cal_day t' = cal_day t - 1 \<and> same_clock t t'"
proof -
  note b = cal_ok_bounds [OF assms(1)]
  let ?w = "(cal_day t - 1 - 719162 + 4) mod 7"
  have w: "(if i8 (tm_wday t - 1) < 0 then 6 else i8 (tm_wday t - 1)) = ?w"
  proof -
    have "tm_wday t = (cal_day t - 719162 + 4) mod 7" using assms(1) unfolding cal_ok_def cal_day_def by blast
    then show ?thesis unfolding mod7_pred [symmetric] by (simp only: mod7_pred) (simp add: algebra_simps)
  qed
  have y: "tm_yday t = before_month (leap (tm_year t)) (tm_month t) + tm_mday t" using assms(1) by (simp add: cal_ok_def)
  have i: "i32 (tm_mday t - 1) = tm_mday t - 1" "i16 (tm_yday t - 1) = tm_yday t - 1"
    "i32 (tm_month t - 1) = tm_month t - 1" "i16 (tm_year t - 1) = tm_year t - 1"
    using b by (simp_all add: i32_id i16_id)
  consider (day) "1 < tm_mday t" | (month) "tm_mday t = 1" "0 < tm_month t" | (year) "tm_mday t = 1" "tm_month t = 0"
    using b by linarith
  then show ?thesis
  proof cases
    case day
    then have "prev_day t = Some (t\<lparr>tm_mday := tm_mday t - 1, tm_month := tm_month t, tm_year := tm_year t,
        tm_yday := tm_yday t - 1, tm_wday := ?w\<rparr>)"
      by (simp add: prev_day_def Let_def i w)
    then show ?thesis using day b y
      by (simp add: cal_ok_def cal_day_def date_ok_def date_days_def same_clock_def algebra_simps)
  next
    case month
    let ?d = "month_days (leap (tm_year t)) (tm_month t - 1)"
    have "prev_day t = Some (t\<lparr>tm_mday := ?d, tm_month := tm_month t - 1, tm_year := tm_year t,
        tm_yday := tm_yday t - 1, tm_wday := ?w\<rparr>)"
      using month b by (simp add: prev_day_def Let_def i w aref_nDays IsLeapYear_leap i32_id)
    moreover have "before_month (leap (tm_year t)) (tm_month t) = before_month (leap (tm_year t)) (tm_month t - 1) + ?d"
      using month b by (intro before_month_step) simp_all
    ultimately show ?thesis
      using month b y month_days_bounds [of "tm_month t - 1" "leap (tm_year t)"]
      by (simp add: cal_ok_def cal_day_def date_ok_def date_days_def same_clock_def algebra_simps)
  next
    case year
    let ?l = "leap (tm_year t - 1)"
    have d: "days_before_year (tm_year t) = days_before_year (tm_year t - 1) + 365 + (if ?l then 1 else 0)"
      using days_before_year_Suc [of "tm_year t - 1"] by simp
    have c: "cal_day t = days_before_year (tm_year t)" using year by (simp add: cal_day_def date_days_def before_month_0)
    have y2: "2 \<le> tm_year t"
    proof (rule ccontr)
      assume "\<not> 2 \<le> tm_year t"
      then have "tm_year t = 1" using b(1) by simp
      then show False using assms(2) c by (simp add: days_before_year_def)
    qed
    have run: "prev_day t = Some (t\<lparr>tm_mday := month_days ?l 11, tm_month := 11, tm_year := tm_year t - 1,
        tm_yday := (if ?l then 365 else 364), tm_wday := ?w\<rparr>)"
      using year b by (simp add: prev_day_def Let_def i w aref_nDays IsLeapYear_leap i32_id)
    have e: "date_days (tm_year t - 1) 11 (month_days ?l 11) = cal_day t - 1"
      using c d before_month_11 [of ?l] by (simp add: date_days_def)
    show ?thesis
      unfolding run using e before_month_11 [of ?l] y2 b(2) month_days_bounds [of 11 ?l]
      by (simp add: cal_ok_def cal_day_def date_ok_def same_clock_def)
  qed
qed

lemma next_day_ok:
  assumes "cal_ok t" "cal_day t + 1 < max_day"
  shows "\<exists>t'. next_day t = Some t' \<and> cal_ok t' \<and> cal_day t' = cal_day t + 1 \<and> same_clock t t'"
proof -
  note b = cal_ok_bounds [OF assms(1)]
  let ?l = "leap (tm_year t)"
  let ?w = "(cal_day t + 1 - 719162 + 4) mod 7" and ?dm = "month_days ?l (tm_month t)"
  have w: "(if i8 (tm_wday t + 1) > 6 then 0 else i8 (tm_wday t + 1)) = ?w"
  proof -
    have "tm_wday t = (cal_day t - 719162 + 4) mod 7" using assms(1) unfolding cal_ok_def cal_day_def by blast
    then show ?thesis unfolding mod7_succ [symmetric] by (simp only: mod7_succ) (simp add: algebra_simps)
  qed
  have y: "tm_yday t = before_month ?l (tm_month t) + tm_mday t" using assms(1) by (simp add: cal_ok_def)
  have i: "i32 (tm_mday t + 1) = tm_mday t + 1" "i16 (tm_yday t + 1) = tm_yday t + 1"
    "i32 (tm_month t + 1) = tm_month t + 1"
    using b by (simp_all add: i32_id i16_id)
  have a: "aref (nDays (IsLeapYear (tm_year t))) (tm_month t) = Some ?dm"
    using b by (simp add: aref_nDays IsLeapYear_leap)
  consider (day) "tm_mday t < ?dm" | (month) "tm_mday t = ?dm" "tm_month t < 11" | (year) "tm_mday t = ?dm" "tm_month t = 11"
    using b by linarith
  then show ?thesis
  proof cases
    case day
    then have "next_day t = Some (t\<lparr>tm_mday := tm_mday t + 1, tm_month := tm_month t, tm_year := tm_year t,
        tm_yday := tm_yday t + 1, tm_wday := ?w\<rparr>)"
      by (simp add: next_day_def Let_def i w a)
    then show ?thesis using day b y
      by (simp add: cal_ok_def cal_day_def date_ok_def date_days_def same_clock_def algebra_simps)
  next
    case month
    have "next_day t = Some (t\<lparr>tm_mday := 1, tm_month := tm_month t + 1, tm_year := tm_year t,
        tm_yday := tm_yday t + 1, tm_wday := ?w\<rparr>)"
      using month month_days_bounds [OF b(3,4), of ?l] by (simp add: next_day_def Let_def i w a i32_id)
    moreover have "before_month ?l (tm_month t + 1) = before_month ?l (tm_month t) + ?dm"
      using month b before_month_step [of "tm_month t + 1" ?l] by simp
    ultimately show ?thesis
      using month b y month_days_bounds [of "tm_month t + 1" ?l]
      by (simp add: cal_ok_def cal_day_def date_ok_def date_days_def same_clock_def algebra_simps)
  next
    case year
    have e: "date_days (tm_year t + 1) 0 1 = cal_day t + 1"
      using date_next_month [of 11 "tm_year t" 1] year by (simp add: cal_day_def date_days_def)
    have y2: "tm_year t < 32767"
    proof (rule ccontr)
      assume "\<not> tm_year t < 32767"
      then have "tm_year t = 32767" using b(2) by simp
      then show False using assms(2) e max_day_eq by (simp add: date_days_def before_month_0)
    qed
    have run: "next_day t = Some (t\<lparr>tm_mday := 1, tm_month := 0, tm_year := tm_year t + 1,
        tm_yday := 0, tm_wday := ?w\<rparr>)"
      using year b y2 a [unfolded year(2)] month_days_bounds [OF b(3,4), of ?l]
      by (simp add: next_day_def Let_def i w i16_id i32_id)
    show ?thesis
      unfolding run using e y2 b(1) month_days_bounds [of 0 "leap (tm_year t + 1)"]
      by (simp add: cal_ok_def cal_day_def date_ok_def same_clock_def before_month_0)
  qed
qed

lemma normal_iff:
  "normal t \<longleftrightarrow> 0 \<le> tm_usec t \<and> tm_usec t < 1000000 \<and> 0 \<le> tm_sec t \<and> tm_sec t < 60 \<and>
     0 \<le> tm_min t \<and> tm_min t < 60 \<and> 0 \<le> tm_hour t \<and> tm_hour t < 24 \<and> cal_ok t"
  by (auto simp: normal_def cal_ok_def)

lemma local_usec_eq: "local_usec t = ((cal_day t - 719162) * 86400 +
     tm_hour t * 3600 + tm_min t * 60 + tm_sec t) * 1000000 + tm_usec t"
  by (simp add: local_usec_def cal_day_def)

lemma mod_add_div: "0 < (m::int) \<Longrightarrow> x div m * m + x mod m = x"
  by simp

text \<open>Adding an offset of less than a day to a normal time moves it by that offset, as long as it
  stays within the years 1 to 32767.\<close>

lemma ApplySecOffset_ok:
  assumes n: "normal t" and off: "\<bar>off\<bar> < 86400"
    and lo: "time_min \<le> local_usec t + off * 1000000" and hi: "local_usec t + off * 1000000 < time_max"
  shows "\<exists>t'. ApplySecOffset t off = Some t' \<and> normal t' \<and> local_usec t' = local_usec t + off * 1000000 \<and>
    tm_params t' = tm_params t"
proof -
  have nb: "0 \<le> tm_sec t" "tm_sec t < 60" "0 \<le> tm_min t" "tm_min t < 60" "0 \<le> tm_hour t" "tm_hour t < 24"
    "0 \<le> tm_usec t" "tm_usec t < 1000000" "cal_ok t" using n by (simp_all add: normal_iff)
  define S where "S = tm_sec t + off"
  define s mi where "s = S mod 60" and "mi = tm_min t + S div 60"
  have s: "S = 60 * (S div 60) + s" "0 \<le> s" "s < 60" using split_div [of 60 S] by (simp_all add: s_def)
  have mb: "-1441 \<le> mi" "mi \<le> 1500" using s nb off by (simp_all add: mi_def S_def)
  define m h where "m = mi mod 60" and "h = tm_hour t + mi div 60"
  have m: "mi = 60 * (mi div 60) + m" "0 \<le> m" "m < 60" using split_div [of 60 mi] by (simp_all add: m_def)
  have tot: "h * 3600 + m * 60 + s = tm_hour t * 3600 + tm_min t * 60 + tm_sec t + off"
    using s(1) m(1) by (simp add: h_def mi_def S_def)
  have hb: "-24 \<le> h" "h \<le> 47" using tot nb off s m by linarith+
  have i: "i32 (tm_sec t + off) = S" using nb off by (simp add: S_def i32_id)
  have c1: "carry 60 S (tm_min t) = (s, mi)"
    unfolding s_def mi_def by (rule carry_eq) (use mb in \<open>simp_all add: mi_def\<close>)
  have c2: "carry 60 mi (tm_hour t) = (m, h)"
    unfolding m_def h_def by (rule carry_eq) (use hb in \<open>simp_all add: h_def\<close>)
  define t1 where "t1 = t\<lparr>tm_sec := s, tm_min := m\<rparr>"
  have run: "ApplySecOffset t off = (if h < 0 then prev_day (t1\<lparr>tm_hour := i32 (h + 24)\<rparr>)
      else if h > 23 then next_day (t1\<lparr>tm_hour := i32 (h - 24)\<rparr>) else Some (t1\<lparr>tm_hour := h\<rparr>))"
    by (simp add: ApplySecOffset_def i c1 c2 t1_def)
  have cal: "cal_ok (t1\<lparr>tm_hour := x\<rparr>)" "cal_day (t1\<lparr>tm_hour := x\<rparr>) = cal_day t" for x
    using nb(9) by (simp_all add: t1_def cal_ok_def cal_day_def)
  have sum: "local_usec t + off * 1000000 = ((cal_day t - 719162) * 86400 + (h * 3600 + m * 60 + s)) * 1000000 + tm_usec t"
    unfolding tot by (simp add: local_usec_eq algebra_simps)
  consider "h < 0" | "0 \<le> h" "h \<le> 23" | "23 < h" by linarith
  then show ?thesis
  proof cases
    case 1
    have "0 < cal_day (t1\<lparr>tm_hour := h + 24\<rparr>)"
    proof -
      have x: "h * 3600 + m * 60 + s \<le> -1" using 1 m(3) s(3) by linarith
      have "0 \<le> (cal_day t * 86400 + (h * 3600 + m * 60 + s)) * 1000000 + tm_usec t"
        using lo unfolding sum time_min_def by (simp add: algebra_simps)
      then have "0 < cal_day t * 86400 * 1000000" using x nb(8) unfolding distrib_right by linarith
      then show ?thesis unfolding cal(2) by simp
    qed
    then obtain t' where t': "prev_day (t1\<lparr>tm_hour := h + 24\<rparr>) = Some t'" "cal_ok t'"
        "cal_day t' = cal_day t - 1" "same_clock (t1\<lparr>tm_hour := h + 24\<rparr>) t'"
      using prev_day_ok [OF cal(1)] cal(2) by metis
    have "normal t'" "local_usec t' = local_usec t + off * 1000000"
      using t' 1 hb m(2,3) s(2,3) nb sum by (simp_all add: normal_iff same_clock_def t1_def local_usec_eq)
    then show ?thesis using run 1 hb t' by (simp add: i32_id same_clock_def t1_def)
  next
    case 2
    then show ?thesis using run cal m(2,3) s(2,3) nb sum by (simp add: normal_iff local_usec_eq t1_def)
  next
    case 3
    have "cal_day (t1\<lparr>tm_hour := h - 24\<rparr>) + 1 < max_day"
    proof -
      have x: "86400 \<le> h * 3600 + m * 60 + s" using 3 m(2) s(2) by linarith
      have "(cal_day t * 86400 + (h * 3600 + m * 60 + s)) * 1000000 + tm_usec t < max_day * 86400 * 1000000"
        using hi unfolding sum time_max_def max_day_def by (simp add: algebra_simps)
      then have "(cal_day t + 1) * 86400 * 1000000 < max_day * 86400 * 1000000"
        using x nb(7) unfolding distrib_right by linarith
      then show ?thesis unfolding cal(2) by simp
    qed
    then obtain t' where t': "next_day (t1\<lparr>tm_hour := h - 24\<rparr>) = Some t'" "cal_ok t'"
        "cal_day t' = cal_day t + 1" "same_clock (t1\<lparr>tm_hour := h - 24\<rparr>) t'"
      using next_day_ok [OF cal(1)] cal(2) by metis
    have "normal t'" "local_usec t' = local_usec t + off * 1000000"
      using t' 3 hb m(2,3) s(2,3) nb sum by (simp_all add: normal_iff same_clock_def t1_def local_usec_eq)
    then show ?thesis using run 3 hb t' by (simp add: i32_id same_clock_def t1_def)
  qed
qed

lemma day_range:
  assumes "0 \<le> x" "x \<le> 86399" "0 \<le> us" "us < 1000000"
  shows "time_min \<le> ((d - 719162) * 86400 + x) * 1000000 + us \<Longrightarrow> 0 \<le> d"
    and "((d - 719162) * 86400 + x) * 1000000 + us < time_max \<Longrightarrow> d < max_day"
proof -
  have e: "((d - 719162) * 86400 + x) * 1000000 + us = d * 86400000000 - 62135596800000000 + x * 1000000 + us"
    by (simp add: algebra_simps)
  show "time_min \<le> ((d - 719162) * 86400 + x) * 1000000 + us \<Longrightarrow> 0 \<le> d"
    using assms unfolding e time_min_def by linarith
  show "((d - 719162) * 86400 + x) * 1000000 + us < time_max \<Longrightarrow> d < max_day"
    using assms unfolding e time_max_def max_day_def by linarith
qed

text \<open>Normalization: the value of a time whose fields may lie outside their ranges, offsets included.\<close>

definition raw_usec :: "PRExplodedTime \<Rightarrow> int" where
  "raw_usec t = ((date_days (tm_year t + tm_month t div 12) (tm_month t mod 12) (tm_mday t) - 719162) * 86400 +
     tm_hour t * 3600 + tm_min t * 60 + tm_sec t - (tp_gmt_offset (tm_params t) + tp_dst_offset (tm_params t)))
     * 1000000 + tm_usec t"

text \<open>Fields so far inside their types that no carry overflows.\<close>

definition moderate :: "PRExplodedTime \<Rightarrow> bool" where
  "moderate t \<longleftrightarrow> \<bar>tm_usec t\<bar> \<le> 1000000000 \<and> \<bar>tm_sec t\<bar> \<le> 1000000000 \<and> \<bar>tm_min t\<bar> \<le> 1000000000 \<and>
     \<bar>tm_hour t\<bar> \<le> 1000000000 \<and> \<bar>tm_mday t\<bar> \<le> 1000000000 \<and> \<bar>tm_month t\<bar> \<le> 1000000000 \<and>
     \<bar>tp_gmt_offset (tm_params t) + tp_dst_offset (tm_params t)\<bar> \<le> 1000000 \<and>
     1 \<le> tm_year t \<and> tm_year t \<le> 32767 \<and>
     1 \<le> tm_year t + tm_month t div 12 \<and> tm_year t + tm_month t div 12 \<le> 32767 \<and>
     (tm_month t < 0 \<longrightarrow> tm_year t + tm_month t div 12 < 32767)"

lemma carry_month_eq:
  assumes "1 \<le> year + month div 12" "year + month div 12 \<le> 32767" "month < 0 \<longrightarrow> year + month div 12 < 32767"
  shows "carry_month month year = (month mod 12, year + month div 12)"
proof (cases "month < 0 \<or> 12 \<le> month")
  case False
  then show ?thesis by (simp add: carry_month_def)
next
  case True
  have b: "- 12 < month smod 12" "month smod 12 < 12" "month div 12 \<le> month sdiv 12" "month sdiv 12 \<le> month div 12 + 1"
    using smod_bounds [of 12 month] sdiv_bounds [of 12 month] by auto
  have w: "i16 (year + month sdiv 12) = year + month sdiv 12" "i16 (year + month sdiv 12 - 1) = year + month sdiv 12 - 1"
    using b assms sdiv_nonneg [of month 12] by (cases "month < 0"; intro i16_id; simp)+
  have w2: "month smod 12 < 0 \<Longrightarrow> i32 (month smod 12 + 12) = month smod 12 + 12"
    using b assms by (intro i32_id; linarith)
  show ?thesis unfolding carry_month_def Let_def w
    using True w2 floor_carry [of 12 month] by (cases "month smod 12 < 0") (simp_all add: algebra_simps)
qed

text \<open>The part of \<open>PR_NormalizeTime\<close> before the zone is consulted yields the normal time in GMT.\<close>

lemma Normalize_gmt:
  assumes md: "moderate t" and lo: "time_min \<le> raw_usec t" and hi: "raw_usec t < time_max"
  shows "\<exists>g. normal g \<and> local_usec g = raw_usec t \<and> tm_params g = zero_params \<and>
    (\<forall>params. PR_NormalizeTime t params = do { p \<leftarrow> params g;
       ApplySecOffset (g\<lparr>tm_params := p\<rparr>) (i32 (tp_gmt_offset p + tp_dst_offset p)) })"
proof -
  let ?off = "tp_gmt_offset (tm_params t) + tp_dst_offset (tm_params t)"
  define S0 where "S0 = tm_sec t - ?off"
  define us S where "us = tm_usec t mod 1000000" and "S = S0 + tm_usec t div 1000000"
  define s M where "s = S mod 60" and "M = tm_min t + S div 60"
  define m H where "m = M mod 60" and "H = tm_hour t + M div 60"
  define h D where "h = H mod 24" and "D = tm_mday t + H div 24"
  have mb: "\<bar>tm_usec t\<bar> \<le> 1000000000" "\<bar>tm_sec t\<bar> \<le> 1000000000" "\<bar>tm_min t\<bar> \<le> 1000000000"
     "\<bar>tm_hour t\<bar> \<le> 1000000000" "\<bar>tm_mday t\<bar> \<le> 1000000000" "\<bar>?off\<bar> \<le> 1000000"
     "1 \<le> tm_year t + tm_month t div 12" "tm_year t + tm_month t div 12 \<le> 32767"
     "tm_month t < 0 \<longrightarrow> tm_year t + tm_month t div 12 < 32767"
    using md unfolding moderate_def by blast+
  have us: "tm_usec t = 1000000 * (tm_usec t div 1000000) + us" "0 \<le> us" "us < 1000000"
    using split_div [of 1000000 "tm_usec t"] by (simp_all add: us_def)
  have s: "S = 60 * (S div 60) + s" "0 \<le> s" "s < 60" using split_div [of 60 S] by (simp_all add: s_def)
  have m: "M = 60 * (M div 60) + m" "0 \<le> m" "m < 60" using split_div [of 60 M] by (simp_all add: m_def)
  have h: "H = 24 * (H div 24) + h" "0 \<le> h" "h < 24" using split_div [of 24 H] by (simp_all add: h_def)
  have S0b: "\<bar>S0\<bar> \<le> 1001000000" using mb(2,6) unfolding S0_def by linarith
  have Sb: "\<bar>S\<bar> \<le> 1001001001" using mb(1) us S0b unfolding S_def by linarith
  have Mb: "\<bar>M\<bar> \<le> 1100000000" using mb(3) s Sb unfolding M_def by linarith
  have Hb: "\<bar>H\<bar> \<le> 1100000000" using mb(4) m Mb unfolding H_def by linarith
  have Dbd: "\<bar>D\<bar> \<le> 1100000000" using mb(5) h Hb unfolding D_def by linarith
  have c0: "i32 (tm_sec t - ?off) = S0" unfolding S0_def [symmetric] using S0b by (intro i32_id) linarith+
  have c1: "carry 1000000 (tm_usec t) S0 = (us, S)"
    unfolding us_def S_def by (rule carry_eq) (use Sb in \<open>simp_all add: S_def\<close>)
  have c2: "carry 60 S (tm_min t) = (s, M)" unfolding s_def M_def by (rule carry_eq) (use Mb in \<open>simp_all add: M_def\<close>)
  have c3: "carry 60 M (tm_hour t) = (m, H)" unfolding m_def H_def by (rule carry_eq) (use Hb in \<open>simp_all add: H_def\<close>)
  have c4: "carry 24 H (tm_mday t) = (h, D)" unfolding h_def D_def by (rule carry_eq) (use Dbd in \<open>simp_all add: D_def\<close>)
  define mo Y where "mo = tm_month t mod 12" and "Y = tm_year t + tm_month t div 12"
  have c5: "carry_month (tm_month t) (tm_year t) = (mo, Y)"
    unfolding mo_def Y_def by (rule carry_month_eq [OF mb(7,8,9)])
  have Yb: "1 \<le> Y" "Y \<le> 32767" "0 \<le> mo" "mo \<le> 11"
    using mb(7,8) split_div [of 12 "tm_month t"] by (simp_all add: Y_def mo_def)
  have dD: "date_days Y mo D = date_days Y mo (tm_mday t) + H div 24" by (simp add: date_days_def D_def)
  have lin: "(x + q) * (k * c) + r * c + z = x * (k * c) + (k * q + r) * c + z" for x q k c r z :: int
    by (simp add: algebra_simps)
  have "H div 24 * 86400 + h * 3600 + m * 60 + s = H * 3600 + m * 60 + s"
    using lin [of 0 "H div 24" 24 3600 h "m * 60 + s"] unfolding h(1) [symmetric] by simp
  also have "\<dots> = tm_hour t * 3600 + M * 60 + s"
    using lin [of "tm_hour t" "M div 60" 60 60 m s] unfolding m(1) [symmetric] H_def by simp
  also have "\<dots> = tm_hour t * 3600 + tm_min t * 60 + S"
    using lin [of "tm_min t" "S div 60" 60 1 s 0] unfolding s(1) [symmetric] M_def by simp
  finally have clk: "H div 24 * 86400 + h * 3600 + m * 60 + s = tm_hour t * 3600 + tm_min t * 60 + S" .
  have R: "raw_usec t = ((date_days Y mo D - 719162) * 86400 + (h * 3600 + m * 60 + s)) * 1000000 + us"
    unfolding raw_usec_def mo_def [symmetric] Y_def [symmetric] dD
    using clk us(1) unfolding S_def S0_def by (simp add: algebra_simps)
  have X: "0 \<le> h * 3600 + m * 60 + s" "h * 3600 + m * 60 + s \<le> 86399" using h m s by linarith+
  have V: "0 \<le> date_days Y mo D" "date_days Y mo D < max_day"
    using day_range [OF X us(2,3)] lo hi unfolding R by blast+
  have "\<exists>d m' y. (if D < 1 then mday_small D mo Y else mday_large D mo Y) = Some (d, m', y) \<and>
      date_ok y m' d \<and> date_days y m' d = date_days Y mo D"
    using mday_small_ok [OF Yb(3,4,1,2)] mday_large_ok [OF Yb(3,4,1,2)] V by (cases "D < 1") simp_all
  then obtain d m' y where dmy: "(if D < 1 then mday_small D mo Y else mday_large D mo Y) = Some (d, m', y)"
      "date_ok y m' d" "date_days y m' d = date_days Y mo D" by blast
  define yd where "yd = before_month (leap y) m' + d"
  define g where "g = \<lparr>tm_usec = us, tm_sec = s, tm_min = m, tm_hour = h, tm_mday = d, tm_month = m',
    tm_year = y, tm_wday = (days_before_year y - 719162 + yd + 4) mod 7, tm_yday = yd, tm_params = zero_params\<rparr>"
  have cal: "cal_ok g" using dmy(2) by (simp add: cal_ok_def g_def yd_def date_days_def algebra_simps)
  note b = cal_ok_bounds [OF cal, unfolded g_def, simplified]
  have e1: "i16 (d + before_month (leap y) m') = yd" using b by (simp add: yd_def i16_id add.commute)
  have dv: "days_before_year y + yd = date_days Y mo D" using dmy(3) by (simp add: yd_def date_days_def)
  have e2: "i32 (DAYS_BETWEEN_YEARS 1970 y + yd) = days_before_year y - 719162 + yd"
    using DAYS_BETWEEN_eq [OF b(1)] dv V by (simp add: i32_id max_day_def)
  have e3: "(let wday = i8 ((days_before_year y - 719162 + yd + 4) smod 7) in if wday < 0 then i8 (wday + 7) else wday) =
      (days_before_year y - 719162 + yd + 4) mod 7"
    using dv V by (intro wday_idiom) (simp add: max_day_def)
  have run: "PR_NormalizeTime t params = do { p \<leftarrow> params g;
       ApplySecOffset (g\<lparr>tm_params := p\<rparr>) (i32 (tp_gmt_offset p + tp_dst_offset p)) }" for params
    unfolding PR_NormalizeTime_def Let_def c0 c1 c2 c3 c4 c5 prod.case dmy(1) bind.bind_lunit IsLeapYear_leap
      aref_last [OF b(3,4)] e1 e2 e3 [unfolded Let_def]
    by (simp add: g_def zero_params_def)
  have "normal g" using cal us s m h by (simp add: normal_iff g_def)
  moreover have "local_usec g = raw_usec t"
    using R dmy(3) by (simp add: local_usec_def g_def)
  ultimately show ?thesis using run by (intro exI [of _ g]) (simp add: g_def)
qed

lemma zero_offset: "normal t \<Longrightarrow> ApplySecOffset t 0 = Some t"
  by (simp add: normal_iff ApplySecOffset_def carry_def i32_id)

lemma Implode_ok:
  assumes "moderate e" "time_min \<le> raw_usec e" "raw_usec e < time_max"
  shows "PR_ImplodeTime e = Some (raw_usec e)"
proof -
  obtain g where g: "normal g" "local_usec g = raw_usec e" "tm_params g = zero_params"
    "\<And>params. PR_NormalizeTime e params = do { p \<leftarrow> params g;
       ApplySecOffset (g\<lparr>tm_params := p\<rparr>) (i32 (tp_gmt_offset p + tp_dst_offset p)) }"
    using Normalize_gmt [OF assms] by blast
  have "g\<lparr>tm_params := zero_params\<rparr> = g" using g(3) by (metis PRExplodedTime.surjective PRExplodedTime.update_convs(10))
  then have n: "PR_NormalizeTime e PR_GMTParameters = Some g"
    using zero_offset [OF g(1)] by (simp add: g(4) PR_GMTParameters_def zero_params_def [symmetric])
      (simp add: zero_params_def i32_id)
  have nb: "0 \<le> tm_sec g" "tm_sec g < 60" "0 \<le> tm_min g" "tm_min g < 60" "0 \<le> tm_hour g" "tm_hour g < 24"
    "0 \<le> tm_usec g" "tm_usec g < 1000000" "cal_ok g" using g(1) by (simp_all add: normal_iff)
  note b = cal_ok_bounds [OF nb(9)]
  let ?d = "days_before_year (tm_year g) - 719162"
  let ?s = "tm_yday g * 86400 + tm_hour g * 3600 + tm_min g * 60 + tm_sec g"
  have d: "DAYS_BETWEEN_YEARS 1970 (tm_year g) = ?d" by (rule DAYS_BETWEEN_eq [OF b(1)])
  have "days_before_year 1 \<le> days_before_year (tm_year g)" using days_before_year_mono [of 1 "tm_year g"] b(1) by simp
  moreover have "days_before_year (tm_year g) \<le> days_before_year 32767"
    using days_before_year_mono [of "tm_year g" 32767] b(2) by simp
  ultimately have db: "- 719162 \<le> ?d" "?d \<le> 11967900" by (simp_all add: days_before_year_def)
  have sb: "0 \<le> ?s" "?s \<le> 40000000" using nb b by linarith+
  have w: "i32 ?d = ?d" "i32 ?s = ?s" "i64 (?d * 86400) = ?d * 86400" "i64 (?s + ?d * 86400) = ?s + ?d * 86400"
    "i64 ((?s + ?d * 86400) * 1000000) = (?s + ?d * 86400) * 1000000"
    "i64 (tm_usec g + (?s + ?d * 86400) * 1000000) = tm_usec g + (?s + ?d * 86400) * 1000000"
  proof -
    show "i32 ?d = ?d" "i32 ?s = ?s" "i64 (?d * 86400) = ?d * 86400" "i64 (?s + ?d * 86400) = ?s + ?d * 86400"
      using db sb by (simp_all add: i32_id i64_id)
    have x: "- 62135596800 \<le> ?s + ?d * 86400" "?s + ?d * 86400 \<le> 1034066560000" using db sb by simp_all
    define x where "x = ?s + ?d * 86400"
    have "i64 (x * 1000000) = x * 1000000" "i64 (tm_usec g + x * 1000000) = tm_usec g + x * 1000000"
      using x nb(7,8) unfolding x_def [symmetric] by (simp_all add: i64_id)
    then show "i64 ((?s + ?d * 86400) * 1000000) = (?s + ?d * 86400) * 1000000"
      "i64 (tm_usec g + (?s + ?d * 86400) * 1000000) = tm_usec g + (?s + ?d * 86400) * 1000000" unfolding x_def by simp_all
  qed
  have v: "tm_usec g + (?s + ?d * 86400) * 1000000 = local_usec g"
    using nb(9) by (simp add: local_usec_eq cal_day_def date_days_def cal_ok_def algebra_simps)
  show ?thesis
    unfolding PR_ImplodeTime_def n bind.bind_lunit Let_def d g(3) zero_params_def PRTimeParameters.select_convs
      diff_zero w
    by (simp only: v g(2))
qed

section \<open>Zones\<close>

text \<open>What \<open>PR_ExplodeTime\<close> asks of a zone: on a normal GMT time it returns offsets that add up to less
  than a day. The range leaves a day at either end.\<close>

locale time_zone =
  fixes params :: PRTimeParamFn
  assumes zone_total: "normal g \<Longrightarrow> tm_params g = zero_params \<Longrightarrow> time_min + 86400000000 \<le> local_usec g \<Longrightarrow>
     local_usec g < time_max - 86400000000 \<Longrightarrow>
     \<exists>p. params g = Some p \<and> \<bar>tp_gmt_offset p + tp_dst_offset p\<bar> < 86400"
begin

lemma explode_ok:
  assumes "time_min + 86400000000 \<le> time" "time < time_max - 86400000000"
  shows "\<exists>e. PR_ExplodeTime time params = Some e \<and> normal e \<and> raw_usec e = time \<and>
    \<bar>tp_gmt_offset (tm_params e) + tp_dst_offset (tm_params e)\<bar> < 86400 \<and>
    local_usec e = time + (tp_gmt_offset (tm_params e) + tp_dst_offset (tm_params e)) * 1000000"
proof -
  obtain g where g: "ComputeGMT time = Some g" "normal g" "local_usec g = time" "tm_params g = zero_params"
    using ComputeGMT_ok [of time] assms by auto
  obtain p where p: "params g = Some p" "\<bar>tp_gmt_offset p + tp_dst_offset p\<bar> < 86400"
    using zone_total [OF g(2,4)] g(3) assms by auto
  let ?o = "tp_gmt_offset p + tp_dst_offset p"
  define g1 where "g1 = g\<lparr>tm_params := p\<rparr>"
  have g1: "normal g1" "local_usec g1 = time"
    using g(2,3) by (simp_all add: g1_def normal_def local_usec_def)
  have "\<exists>t'. ApplySecOffset g1 ?o = Some t' \<and> normal t' \<and> local_usec t' = local_usec g1 + ?o * 1000000 \<and>
      tm_params t' = tm_params g1"
    using p(2) g1(2) assms by (intro ApplySecOffset_ok [OF g1(1)]) (simp_all add: abs_less_iff)
  then obtain e where e: "ApplySecOffset g1 ?o = Some e" "normal e" "local_usec e = time + ?o * 1000000"
    "tm_params e = p" using g1(2) by (auto simp: g1_def)
  have "i32 ?o = ?o" using p(2) by (intro i32_id) linarith+
  then have run: "PR_ExplodeTime time params = Some e"
    using g(1) p(1) e(1) by (simp add: PR_ExplodeTime_def g1_def)
  have "tm_month e div 12 = 0" "tm_month e mod 12 = tm_month e"
    using e(2) by (simp_all add: normal_def date_ok_def)
  then have "raw_usec e = local_usec e - ?o * 1000000"
    using e(4) by (simp add: raw_usec_def local_usec_def algebra_simps)
  then show ?thesis using run e p(2) by (intro exI [of _ e]) simp
qed

lemma explode_implode:
  assumes "time_min + 86400000000 \<le> time" "time < time_max - 86400000000"
  shows "\<exists>e. PR_ExplodeTime time params = Some e \<and> normal e \<and> PR_ImplodeTime e = Some time"
proof -
  obtain e where e: "PR_ExplodeTime time params = Some e" "normal e" "raw_usec e = time"
    "\<bar>tp_gmt_offset (tm_params e) + tp_dst_offset (tm_params e)\<bar> < 86400"
    using explode_ok [OF assms] by blast
  have m: "0 \<le> tm_month e" "tm_month e \<le> 11" "tm_month e div 12 = 0" using e(2) by (simp_all add: normal_def date_ok_def)
  have "moderate e"
    using e(2,4) m cal_ok_bounds [of e] by (simp add: moderate_def normal_iff)
  then show ?thesis using Implode_ok [of e] e assms by simp
qed

end

interpretation gmt: time_zone PR_GMTParameters
  by unfold_locales (simp add: PR_GMTParameters_def)

lemma dst_offset_cases: "dst_offset_of st dst = 0 \<or> dst_offset_of st dst = 3600"
  by (simp add: dst_offset_of_def Let_def)

interpretation us_pacific: time_zone PR_USPacificTimeParameters
proof
  fix g assume g: "normal g" "time_min + 86400000000 \<le> local_usec g" "local_usec g < time_max - 86400000000"
  have "\<exists>t'. ApplySecOffset g (- 28800) = Some t' \<and> normal t' \<and> local_usec t' = local_usec g + - 28800 * 1000000 \<and>
    tm_params t' = tm_params g"
    using g(2,3) by (intro ApplySecOffset_ok [OF g(1)]) simp_all
  then obtain st where "ApplySecOffset g (- 28800) = Some st" by blast
  moreover obtain d where "aref dstParams (if tm_year st < 2007 then 0 else 1) = Some d"
    by (cases "tm_year st < 2007") (simp_all add: aref_def rd_def dstParams_def)
  ultimately show "\<exists>p. PR_USPacificTimeParameters g = Some p \<and> \<bar>tp_gmt_offset p + tp_dst_offset p\<bar> < 86400"
    using dst_offset_cases [of st d] by (auto simp: PR_USPacificTimeParameters_def)
qed

section \<open>A time has one normal form\<close>

lemma before_month_mono: "0 \<le> a \<Longrightarrow> a < b \<Longrightarrow> b \<le> 11 \<Longrightarrow> before_month l a + month_days l a \<le> before_month l b"
proof -
  assume a: "0 \<le> a" "a < b" "b \<le> 11"
  have "a + 1 + int n \<le> 11 \<longrightarrow> before_month l a + month_days l a \<le> before_month l (a + 1 + int n)" for n
  proof (induction n)
    case 0
    then show ?case using before_month_step [of "a + 1" l] a by simp
  next
    case (Suc n)
    have e: "a + 1 + int (Suc n) - 1 = a + 1 + int n" by simp
    show ?case
    proof
      assume "a + 1 + int (Suc n) \<le> 11"
      then have "before_month l (a + 1 + int (Suc n)) = before_month l (a + 1 + int n) + month_days l (a + 1 + int n)"
        using before_month_step [of "a + 1 + int (Suc n)" l] a unfolding e by simp
      then show "before_month l a + month_days l a \<le> before_month l (a + 1 + int (Suc n))"
        using Suc month_days_bounds [of "a + 1 + int n" l] a \<open>a + 1 + int (Suc n) \<le> 11\<close> by simp
    qed
  qed
  from this [of "nat (b - a - 1)"] show ?thesis using a by simp
qed

lemma date_unique:
  assumes "date_ok y m d" "date_ok y' m' d'" "date_days y m d = date_days y' m' d'"
  shows "y = y' \<and> m = m' \<and> d = d'"
proof -
  have b: "days_before_year y \<le> date_days y m d" "date_days y m d < days_before_year (y + 1)"
    "days_before_year y' \<le> date_days y' m' d'" "date_days y' m' d' < days_before_year (y' + 1)"
    using assms(1,2) by (auto simp: date_ok_def intro: date_year_bounds)
  have "\<not> y < y'" using days_before_year_mono [of "y + 1" y'] b assms(3) by auto
  moreover have "\<not> y' < y" using days_before_year_mono [of "y' + 1" y] b assms(3) by auto
  ultimately have y: "y = y'" by simp
  have md: "0 \<le> m" "m \<le> 11" "1 \<le> d" "d \<le> month_days (leap y) m" "0 \<le> m'" "m' \<le> 11" "1 \<le> d'"
    "d' \<le> month_days (leap y) m'" "before_month (leap y) m + d = before_month (leap y) m' + d'"
    using assms y by (simp_all add: date_ok_def date_days_def)
  have "\<not> m < m'" using before_month_mono [of m m' "leap y"] md by auto
  moreover have "\<not> m' < m" using before_month_mono [of m' m "leap y"] md by auto
  ultimately show ?thesis using y md by simp
qed

lemma normal_unique:
  assumes "normal a" "normal b" "local_usec a = local_usec b" "tm_params a = tm_params b"
  shows "a = b"
proof -
  let ?c = "\<lambda>t. tm_hour t * 3600 + tm_min t * 60 + tm_sec t"
  let ?D = "\<lambda>t. date_days (tm_year t) (tm_month t) (tm_mday t)"
  have n: "0 \<le> tm_sec a" "tm_sec a < 60" "0 \<le> tm_min a" "tm_min a < 60" "0 \<le> tm_hour a" "tm_hour a < 24"
    "0 \<le> tm_usec a" "tm_usec a < 1000000" "0 \<le> tm_sec b" "tm_sec b < 60" "0 \<le> tm_min b" "tm_min b < 60"
    "0 \<le> tm_hour b" "tm_hour b < 24" "0 \<le> tm_usec b" "tm_usec b < 1000000"
    using assms(1,2) by (simp_all add: normal_def)
  define A B where "A = (?D a - 719162) * 86400 + ?c a" and "B = (?D b - 719162) * 86400 + ?c b"
  have AB: "A * 1000000 + tm_usec a = B * 1000000 + tm_usec b"
    using assms(3) by (simp add: local_usec_def A_def B_def add.assoc)
  have us1: "A = B" using AB n(7,8,15,16) by linarith
  then have us: "A = B" "tm_usec a = tm_usec b" using AB by simp_all
  have cb: "0 \<le> ?c a" "?c a < 86400" "0 \<le> ?c b" "?c b < 86400" using n by linarith+
  have "?D a * 86400 + ?c a = ?D b * 86400 + ?c b" using us(1) unfolding A_def B_def by (simp add: algebra_simps)
  moreover from this have day1: "?D a = ?D b" using cb by linarith
  ultimately have day: "?D a = ?D b" "?c a = ?c b" by simp_all
  have hour: "tm_hour a = tm_hour b" using day(2) n by linarith
  have minute: "tm_min a = tm_min b" using day(2) hour n by linarith
  have clock: "tm_hour a = tm_hour b" "tm_min a = tm_min b" "tm_sec a = tm_sec b"
    using day(2) hour minute by simp_all
  have "tm_year a = tm_year b \<and> tm_month a = tm_month b \<and> tm_mday a = tm_mday b"
    using assms(1,2) day(1) by (intro date_unique) (simp_all add: normal_def)
  then show ?thesis using clock us(2) assms by (intro PRExplodedTime.equality) (simp_all add: normal_def)
qed

lemma Explode_gmt:
  assumes "normal g" "tm_params g = zero_params" "time_min \<le> local_usec g" "local_usec g < time_max"
  shows "PR_ExplodeTime (local_usec g) PR_GMTParameters = Some g"
proof -
  obtain e where e: "ComputeGMT (local_usec g) = Some e" "normal e" "local_usec e = local_usec g" "tm_params e = zero_params"
    using ComputeGMT_ok [OF assms(3,4)] by blast
  then have "e = g" using assms by (intro normal_unique) simp_all
  moreover have "g\<lparr>tm_params := zero_params\<rparr> = g" using assms(2) by (metis PRExplodedTime.surjective PRExplodedTime.update_convs(10))
  ultimately show ?thesis using e(1) zero_offset [OF assms(1)]
    by (simp add: PR_ExplodeTime_def PR_GMTParameters_def zero_params_def [symmetric]) (simp add: zero_params_def i32_id)
qed

section \<open>Daylight saving time\<close>

definition weekday :: "int \<Rightarrow> int \<Rightarrow> int \<Rightarrow> int" where
  "weekday y m d = (date_days y m d - 719162 + 4) mod 7"

text \<open>The Sunday among the seven days of a month that start with day \<open>d\<close>.\<close>

definition sunday_from :: "int \<Rightarrow> int \<Rightarrow> int \<Rightarrow> int" where
  "sunday_from y m d = d + (- weekday y m d) mod 7"

lemma sunday_from_ok: "weekday y m (sunday_from y m d) = 0 \<and> d \<le> sunday_from y m d \<and> sunday_from y m d < d + 7"
proof -
  define w where "w = date_days y m d - 719162 + 4"
  have wd: "weekday y m d = w mod 7" by (simp add: weekday_def w_def)
  have "weekday y m (sunday_from y m d) = (w + (- (w mod 7)) mod 7) mod 7"
    unfolding sunday_from_def wd by (simp add: weekday_def w_def date_days_def algebra_simps)
  also have "\<dots> = (w - w mod 7) mod 7" by (simp only: mod_add_right_eq diff_conv_add_uminus)
  also have "\<dots> = 0" by (simp add: minus_mod_eq_mult_div)
  finally show ?thesis by (simp add: sunday_from_def)
qed

lemma sunday_unique:
  assumes "weekday y m a = 0" "weekday y m b = 0" "\<bar>a - b\<bar> < 7"
  shows "a = b"
proof -
  have "(date_days y m a - 719162 + 4 - (date_days y m b - 719162 + 4)) mod 7 = 0"
    using assms(1,2) unfolding weekday_def by (metis diff_self mod_0 mod_diff_eq)
  then have "7 dvd a - b" by (simp add: date_days_def dvd_eq_mod_eq_0)
  then obtain k where "a - b = 7 * k" by (rule dvdE)
  moreover from this have "k < 1" "-1 < k" using assms(3) by linarith+
  ultimately show ?thesis by simp
qed

lemma weekday_shift: "weekday y m (d + 7 * k) = weekday y m d"
proof -
  have "date_days y m (d + 7 * k) - 719162 + 4 = (date_days y m d - 719162 + 4) + k * 7" by (simp add: date_days_def)
  then show ?thesis unfolding weekday_def by (simp only: mod_mult_self1)
qed

lemma firstSunday_ok:
  assumes "1 \<le> d" "d \<le> 31" "w = weekday y m d"
  shows "1 \<le> firstSunday d w" "firstSunday d w \<le> 7" "weekday y m (firstSunday d w) = 0"
proof -
  have w: "0 \<le> w" "w < 7" using assms(3) by (simp_all add: weekday_def)
  have f: "firstSunday d w = (d - w + 6) mod 7 + 1"
  proof -
    have e: "d - w + 7 - 1 = d - w + 6" by simp
    have "(d - w + 6) smod 7 = (d - w + 6) mod 7" by (rule smod_nonneg) (use w assms(1) in simp_all)
    then show ?thesis unfolding firstSunday_def e by simp
  qed
  show "1 \<le> firstSunday d w" "firstSunday d w \<le> 7" unfolding f using split_div [of 7 "d - w + 6"] by simp_all
  define q where "q = (d - w + 6) div 7"
  have "firstSunday d w + 7 * (q - 1) = d - w" unfolding f q_def using split_div [of 7 "d - w + 6"] by simp
  then have "weekday y m (firstSunday d w) = weekday y m (d - w)" using weekday_shift [of y m "firstSunday d w" "q - 1"] by simp
  also have "\<dots> = 0"
  proof -
    define x where "x = date_days y m d - 719162 + 4"
    have "date_days y m (d - w) - 719162 + 4 = x - x mod 7"
      using assms(3) by (simp add: x_def weekday_def date_days_def)
    then show ?thesis unfolding weekday_def by (simp add: minus_mod_eq_mult_div)
  qed
  finally show "weekday y m (firstSunday d w) = 0" .
qed

lemma NthSunday_ok:
  assumes "1 \<le> d" "d \<le> 31" "w = weekday y m d"
  shows "NthSunday d w 0 n = sunday_from y m 1" "NthSunday d w 1 n = sunday_from y m 8"
    "NthSunday d w (- 1) 31 = sunday_from y m 25"
proof -
  let ?f = "firstSunday d w"
  note f = firstSunday_ok [OF assms]
  have i: "i32 ?f = ?f" "i32 (?f + 7) = ?f + 7" using f by (simp_all add: i32_id)
  have u: "x = sunday_from y m a" if "weekday y m x = 0" "a \<le> x" "x < a + 7" for x a
    using sunday_unique [OF that(1), of "sunday_from y m a"] sunday_from_ok [of y m a] that by auto
  have "NthSunday d w 0 n = ?f" "NthSunday d w 1 n = ?f + 7" by (simp_all add: NthSunday_def i)
  then show "NthSunday d w 0 n = sunday_from y m 1" "NthSunday d w 1 n = sunday_from y m 8"
    using u [of ?f 1] u [of "?f + 7" 8] f weekday_shift [of y m ?f 1] by simp_all
  define q where "q = (31 - ?f) div 7"
  have q: "31 - ?f = 7 * q + (31 - ?f) mod 7" "0 \<le> (31 - ?f) mod 7" "(31 - ?f) mod 7 < 7"
    using split_div [of 7 "31 - ?f"] by (simp_all add: q_def)
  have s: "(31 - ?f) sdiv 7 = q" unfolding q_def by (rule sdiv_nonneg) (use f(2) in simp_all)
  have qb: "25 \<le> ?f + 7 * q" "?f + 7 * q \<le> 31" using q by linarith+
  then have "NthSunday d w (- 1) 31 = ?f + 7 * q" by (simp add: NthSunday_def i s i32_id)
  then show "NthSunday d w (- 1) 31 = sunday_from y m 25"
    using u [of "?f + 7 * q" 25] qb f(3) weekday_shift [of y m ?f q] by simp
qed

text \<open>The US rule: from 2:00 standard time on the first Sunday of April (since 2007, the second of
  March) to 1:00 standard time on the last Sunday of October (since 2007, the first of November).\<close>

definition hour_of_year :: "int \<Rightarrow> int \<Rightarrow> int \<Rightarrow> int" where
  "hour_of_year m d h = (m * 32 + d) * 24 + h"

definition in_dst :: "PRExplodedTime \<Rightarrow> bool" where
  "in_dst st \<longleftrightarrow>
     (let y = tm_year st; x = hour_of_year (tm_month st) (tm_mday st) (tm_hour st) in
      if y < 2007 then hour_of_year 3 (sunday_from y 3 1) 2 \<le> x \<and> x < hour_of_year 9 (sunday_from y 9 25) 1
      else hour_of_year 2 (sunday_from y 2 8) 2 \<le> x \<and> x < hour_of_year 10 (sunday_from y 10 1) 1)"

lemma hour_of_year_mono:
  assumes "m < m'" "d \<le> 31" "h < 24" "1 \<le> d'" "0 \<le> h'"
  shows "hour_of_year m d h < hour_of_year m' d' h'"
proof -
  have "(m * 32 + d + 1) * 24 \<le> (m' * 32 + d') * 24" using assms by simp
  then show ?thesis using assms(3,5) unfolding hour_of_year_def distrib_right by linarith
qed

lemma dst_generic:
  assumes b: "0 \<le> tm_hour st" "tm_hour st < 24" "1 \<le> tm_mday st" "tm_mday st \<le> 31"
    and SE: "1 \<le> S" "S \<le> 31" "1 \<le> E" "E \<le> 31" "dst_start_month dst < dst_end_month dst"
    and s: "tm_month st = dst_start_month dst \<Longrightarrow>
      NthSunday (tm_mday st) (tm_wday st) (dst_start_Nth_Sunday dst) (dst_start_month_ndays dst) = S"
    and e: "tm_month st = dst_end_month dst \<Longrightarrow>
      NthSunday (tm_mday st) (tm_wday st) (dst_end_Nth_Sunday dst) (dst_end_month_ndays dst) = E"
  shows "dst_offset_of st dst =
    (if hour_of_year (dst_start_month dst) S 2 \<le> hour_of_year (tm_month st) (tm_mday st) (tm_hour st) \<and>
        hour_of_year (tm_month st) (tm_mday st) (tm_hour st) < hour_of_year (dst_end_month dst) E 1 then 3600 else 0)"
proof -
  let ?x = "hour_of_year (tm_month st) (tm_mday st) (tm_hour st)"
  let ?s = "hour_of_year (dst_start_month dst) S 2" and ?e = "hour_of_year (dst_end_month dst) E 1"
  have lt: "tm_month st < k \<Longrightarrow> 1 \<le> d \<Longrightarrow> 0 \<le> h \<Longrightarrow> ?x < hour_of_year k d h" for k d h
    using b by (intro hour_of_year_mono) simp_all
  have gt: "k < tm_month st \<Longrightarrow> d \<le> 31 \<Longrightarrow> h < 24 \<Longrightarrow> hour_of_year k d h < ?x" for k d h
    using b by (intro hour_of_year_mono) simp_all
  consider "tm_month st < dst_start_month dst" | "tm_month st = dst_start_month dst"
    | "dst_start_month dst < tm_month st" "tm_month st < dst_end_month dst" | "tm_month st = dst_end_month dst"
    | "dst_end_month dst < tm_month st" by linarith
  then show ?thesis
  proof cases
    case 1
    then show ?thesis using lt [OF 1, of S 2] SE by (simp add: dst_offset_of_def)
  next
    case 2
    have "?x < ?e" using lt [of "dst_end_month dst" E 1] 2 SE by simp
    moreover have "?s \<le> ?x \<longleftrightarrow> S < tm_mday st \<or> S = tm_mday st \<and> 2 \<le> tm_hour st"
      using b 2 by (auto simp: hour_of_year_def)
    ultimately show ?thesis using 2 s SE by (auto simp: dst_offset_of_def Let_def)
  next
    case 3
    then show ?thesis using lt [OF 3(2), of E 1] gt [OF 3(1), of S 2] SE by (simp add: dst_offset_of_def)
  next
    case 4
    have "?s < ?x" using gt [of "dst_start_month dst" S 2] 4 SE by simp
    moreover have "?x < ?e \<longleftrightarrow> tm_mday st < E \<or> E = tm_mday st \<and> tm_hour st < 1"
      using b 4 by (auto simp: hour_of_year_def)
    ultimately show ?thesis using 4 e SE by (auto simp: dst_offset_of_def Let_def)
  next
    case 5
    then show ?thesis using gt [OF 5, of E 1] SE by (simp add: dst_offset_of_def)
  qed
qed

lemma dst_offset_ok:
  assumes "normal st" "aref dstParams (if tm_year st < 2007 then 0 else 1) = Some dst"
  shows "dst_offset_of st dst = (if in_dst st then 3600 else 0)"
proof -
  have b: "0 \<le> tm_hour st" "tm_hour st < 24" "1 \<le> tm_mday st" "tm_mday st \<le> 31"
    using assms(1) cal_ok_bounds [of st] by (simp_all add: normal_iff)
  have w: "tm_wday st = weekday (tm_year st) (tm_month st) (tm_mday st)"
    using assms(1) by (simp add: normal_def weekday_def)
  note N = NthSunday_ok [OF b(3,4) w]
  have sb: "a \<le> sunday_from y m a" "sunday_from y m a \<le> a + 6" for y m a using sunday_from_ok [of y m a] by simp_all
  show ?thesis
  proof (cases "tm_year st < 2007")
    case True
    then have d: "dst = dstParams ! 0" using assms(2) by (simp add: aref_def rd_def dstParams_def)
    show ?thesis
      using dst_generic [OF b, of "sunday_from (tm_year st) 3 1" "sunday_from (tm_year st) 9 25" dst]
        N sb [where y = "tm_year st" and m = 3 and a = 1] sb [where y = "tm_year st" and m = 9 and a = 25] True
      unfolding d by (simp add: dstParams_def in_dst_def Let_def)
  next
    case False
    then have d: "dst = dstParams ! 1" using assms(2) by (simp add: aref_def rd_def dstParams_def)
    show ?thesis
      using dst_generic [OF b, of "sunday_from (tm_year st) 2 8" "sunday_from (tm_year st) 10 1" dst]
        N sb [where y = "tm_year st" and m = 2 and a = 8] sb [where y = "tm_year st" and m = 10 and a = 1] False
      unfolding d by (simp add: dstParams_def in_dst_def Let_def)
  qed
qed

lemma Implode_normal:
  assumes "normal g" "tm_params g = zero_params" "time_min \<le> local_usec g" "local_usec g < time_max"
  shows "PR_ImplodeTime g = Some (local_usec g)"
proof -
  have m: "0 \<le> tm_month g" "tm_month g \<le> 11" "tm_month g div 12 = 0" "tm_month g mod 12 = tm_month g"
    using assms(1) by (simp_all add: normal_def date_ok_def)
  have "moderate g" using assms(1,2) m cal_ok_bounds [of g] by (simp add: moderate_def normal_iff zero_params_def)
  moreover have "raw_usec g = local_usec g" using assms(2) m by (simp add: raw_usec_def local_usec_def zero_params_def)
  ultimately show ?thesis using Implode_ok [of g] assms(3,4) by simp
qed

section \<open>Times before the year 1\<close>

lemma ComputeGMT_before:
  assumes "time_min - 364 * 86400000000 \<le> time" "time < time_min"
  shows "\<exists>g. ComputeGMT time = Some g \<and> tm_year g = 1 \<and> tm_month g = 0 \<and> tm_mday g \<le> 0"
proof -
  define sec usec where "sec = time div 1000000" and "usec = time mod 1000000"
  have su: "time = 1000000 * sec + usec" "0 \<le> usec" "usec < 1000000"
    using split_div [of 1000000 time] by (simp_all add: sec_def usec_def)
  define D rem where "D = sec div 86400" and "rem = sec mod 86400"
  have dr: "sec = 86400 * D + rem" "0 \<le> rem" "rem < 86400" using split_div [of 86400 sec] by (simp_all add: D_def rem_def)
  have "86400000000 * D + (1000000 * rem + usec) = time" using su(1) dr(1) by simp
  then have Db: "- 719526 \<le> D" "D < - 719162"
    using assms su(2,3) dr(2,3) unfolding time_min_def by linarith+
  have p1: "(let sec = time sdiv 1000000; usec = i32 (time smod 1000000) in
      if usec < 0 then (sec - 1, i32 (usec + 1000000)) else (sec, usec)) = (sec, usec)"
    unfolding sec_def usec_def by (rule floor_carry64) simp_all
  have p2: "(let numDays = i32 (sec sdiv 86400); rem = i32 (sec smod 86400) in
      if rem < 0 then (i32 (numDays - 1), i32 (rem + 86400)) else (numDays, rem)) = (D, rem)"
    unfolding D_def rem_def by (rule floor_carry32) (use Db in \<open>simp_all add: D_def\<close>)
  define d where "d = D + 719162"
  have d: "- 364 \<le> d" "d < 0" using Db by (simp_all add: d_def)
  have p5: "i32 (D + 719162) = d" using d unfolding d_def [symmetric] by (simp add: i32_id)
  have z: "d sdiv m = 0" "d smod m = d" if "364 < m" for m :: int
    using d that by (simp_all add: sdiv_neg smod_neg)
  have y: "year_of_days d = (1, d)"
    using d by (simp add: year_of_days_def z i16_id)
  have m: "month_loop d (tl (lastDayOfMonth (IsLeapYear 1))) 1 = Some 1"
    using d by (simp add: lastDayOfMonth_def)
  have a: "aref (lastDayOfMonth (IsLeapYear 1)) 0 = Some (- 1)" by (simp add: aref_def rd_def lastDayOfMonth_def)
  have i: "i32 (d - - 1) = d + 1" using d by (simp add: i32_id)
  show ?thesis
    unfolding ComputeGMT_def Let_def p1 [unfolded Let_def] prod.case p2 [unfolded Let_def] p5 y m bind.bind_lunit
    using d by (simp add: a i i32_id)
qed

section \<open>Properties\<close>

text \<open>C7: \<open>ComputeGMT\<close>, the conversion behind \<open>PR_ExplodeTime\<close>: for every time from the start of the year 1 to
  the end of the year 32767 it yields a date of the Gregorian calendar with all fields in range, the day of
  the year and of the week right, and standing for exactly that number of microseconds.\<close>

theorem time_compute_gmt:
  assumes "time_min \<le> time" and "time < time_max"
  shows "\<exists>g. ComputeGMT time = Some g \<and> normal g \<and> local_usec g = time \<and> tm_params g = zero_params"
  by (rule ComputeGMT_ok [OF assms])

theorem time_compute_gmt_witness:
  "\<exists>g. ComputeGMT 951782400000000 = Some g \<and> normal g \<and> local_usec g = 951782400000000 \<and> tm_params g = zero_params"
  by (rule time_compute_gmt) (simp_all add: time_min_def time_max_def)

text \<open>C8: Exploding a time in GMT or in the US Pacific zone, daylight saving included, gives a normal time, and
  imploding that gives the time back, for all times but the first and last day of the range.\<close>

theorem time_explode_implode:
  assumes "time_min + 86400000000 \<le> time" and "time < time_max - 86400000000"
  shows "(\<exists>e. PR_ExplodeTime time PR_GMTParameters = Some e \<and> normal e \<and> PR_ImplodeTime e = Some time) \<and>
    (\<exists>e. PR_ExplodeTime time PR_USPacificTimeParameters = Some e \<and> normal e \<and> PR_ImplodeTime e = Some time)"
  using gmt.explode_implode [OF assms] us_pacific.explode_implode [OF assms] by blast

theorem time_explode_implode_witness:
  "(\<exists>e. PR_ExplodeTime 1300000000123456 PR_GMTParameters = Some e \<and> normal e \<and> PR_ImplodeTime e = Some 1300000000123456) \<and>
    (\<exists>e. PR_ExplodeTime 1300000000123456 PR_USPacificTimeParameters = Some e \<and> normal e \<and>
         PR_ImplodeTime e = Some 1300000000123456)"
  by (rule time_explode_implode) (simp_all add: time_min_def time_max_def)

text \<open>C9: Imploding a normal GMT time gives the microseconds it stands for, and exploding them gives back the
  very same fields.\<close>

theorem time_implode_explode:
  assumes "normal g" and "tm_params g = zero_params" and "time_min \<le> local_usec g" and "local_usec g < time_max"
  shows "PR_ImplodeTime g = Some (local_usec g) \<and> PR_ExplodeTime (local_usec g) PR_GMTParameters = Some g"
  using Implode_normal [OF assms] Explode_gmt [OF assms] by blast

definition leap_day :: PRExplodedTime where
  "leap_day = \<lparr>tm_usec = 5, tm_sec = 59, tm_min = 59, tm_hour = 23, tm_mday = 29, tm_month = 1, tm_year = 2000,
     tm_wday = 2, tm_yday = 59, tm_params = zero_params\<rparr>"

lemma leap_day_ok: "normal leap_day" "local_usec leap_day = 951868799000005"
  by (simp_all add: leap_day_def normal_def date_ok_def local_usec_def date_days_def days_before_year_def month_table leap_def)

theorem time_implode_explode_witness:
  "PR_ImplodeTime leap_day = Some (local_usec leap_day) \<and>
   PR_ExplodeTime (local_usec leap_day) PR_GMTParameters = Some leap_day"
  by (rule time_implode_explode) (use leap_day_ok in \<open>simp_all add: time_min_def time_max_def leap_day_def\<close>)

text \<open>C10: \<open>PR_NormalizeTime\<close> on a time whose fields may be far out of range, in either direction, and carry
  offsets: it terminates and yields the normal GMT time that stands for the same moment.\<close>

theorem time_normalize:
  assumes "moderate t" and "time_min \<le> raw_usec t" and "raw_usec t < time_max"
  shows "\<exists>g. PR_NormalizeTime t PR_GMTParameters = Some g \<and> normal g \<and> local_usec g = raw_usec t"
proof -
  obtain g where g: "normal g" "local_usec g = raw_usec t" "tm_params g = zero_params"
    "\<And>params. PR_NormalizeTime t params = do { p \<leftarrow> params g;
       ApplySecOffset (g\<lparr>tm_params := p\<rparr>) (i32 (tp_gmt_offset p + tp_dst_offset p)) }"
    using Normalize_gmt [OF assms] by blast
  have "g\<lparr>tm_params := zero_params\<rparr> = g" using g(3) by (metis PRExplodedTime.surjective PRExplodedTime.update_convs(10))
  then have "PR_NormalizeTime t PR_GMTParameters = Some g"
    using zero_offset [OF g(1)] by (simp add: g(4) PR_GMTParameters_def zero_params_def [symmetric])
      (simp add: zero_params_def i32_id)
  then show ?thesis using g(1,2) by blast
qed

definition messy_time :: PRExplodedTime where
  "messy_time = \<lparr>tm_usec = - 1, tm_sec = 100000, tm_min = - 70, tm_hour = 500, tm_mday = - 400, tm_month = 25,
     tm_year = 1999, tm_wday = 0, tm_yday = 0, tm_params = \<lparr>tp_gmt_offset = - 28800, tp_dst_offset = 3600\<rparr>\<rparr>"

theorem time_normalize_witness:
  "\<exists>g. PR_NormalizeTime messy_time PR_GMTParameters = Some g \<and> normal g \<and> local_usec g = raw_usec messy_time"
  by (rule time_normalize)
    (simp_all add: messy_time_def moderate_def raw_usec_def time_min_def time_max_def date_days_def
      days_before_year_def month_table leap_def)

text \<open>C11: \<open>PR_USPacificTimeParameters\<close>: eight hours west of GMT, and an hour of daylight saving exactly in the
  period of the US rule, which changed in 2007, decided on local standard time.\<close>

theorem time_us_pacific_dst:
  assumes "normal g" and "time_min + 86400000000 \<le> local_usec g" and "local_usec g < time_max"
  shows "\<exists>st. normal st \<and> local_usec st = local_usec g - 8 * 3600 * 1000000 \<and>
    PR_USPacificTimeParameters g =
      Some \<lparr>tp_gmt_offset = - 28800, tp_dst_offset = (if in_dst st then 3600 else 0)\<rparr>"
proof -
  have "\<exists>t'. ApplySecOffset g (- 28800) = Some t' \<and> normal t' \<and> local_usec t' = local_usec g + - 28800 * 1000000 \<and>
    tm_params t' = tm_params g"
    using assms(2,3) by (intro ApplySecOffset_ok [OF assms(1)]) simp_all
  then obtain st where st: "ApplySecOffset g (- 28800) = Some st" "normal st"
    "local_usec st = local_usec g + - 28800 * 1000000" by blast
  obtain d where d: "aref dstParams (if tm_year st < 2007 then 0 else 1) = Some d"
    by (cases "tm_year st < 2007") (simp_all add: aref_def rd_def dstParams_def)
  have "PR_USPacificTimeParameters g = Some \<lparr>tp_gmt_offset = - 28800, tp_dst_offset = dst_offset_of st d\<rparr>"
    using st(1) d by (simp add: PR_USPacificTimeParameters_def)
  then show ?thesis using dst_offset_ok [OF st(2) d] st(2,3) by auto
qed

theorem time_us_pacific_dst_witness:
  "\<exists>st. normal st \<and> local_usec st = local_usec leap_day - 8 * 3600 * 1000000 \<and>
    PR_USPacificTimeParameters leap_day =
      Some \<lparr>tp_gmt_offset = - 28800, tp_dst_offset = (if in_dst st then 3600 else 0)\<rparr>"
  by (rule time_us_pacific_dst) (use leap_day_ok in \<open>simp_all add: time_min_def time_max_def\<close>)

text \<open>Where the conversion of a time fails. For the 364 days before the year 1, \<open>ComputeGMT\<close> answers with January
  of the year 1 and a day of the month that is zero or negative, because C's division rounds towards zero. Past
  the year 32767 the year wraps around in its 16 bits, and with it the leap year rule: for the last day of the year
  32836, a leap year whose wrapped number \<open>-32700\<close> is not one, the search for the month runs past the end of
  \<open>lastDayOfMonth\<close>, an undefined read, although the time is a legal \<open>PRTime\<close>.\<close>

theorem time_calendar_limits:
  assumes "time_min - 364 * 86400000000 \<le> time" and "time < time_min"
  shows "(\<exists>g. ComputeGMT time = Some g \<and> tm_year g = 1 \<and> tm_month g = 0 \<and> tm_mday g \<le> 0 \<and> \<not> normal g) \<and>
    i64 974068416000000000 = 974068416000000000 \<and> ComputeGMT 974068416000000000 = None"
proof
  show "\<exists>g. ComputeGMT time = Some g \<and> tm_year g = 1 \<and> tm_month g = 0 \<and> tm_mday g \<le> 0 \<and> \<not> normal g"
    using ComputeGMT_before [OF assms] by (auto simp: normal_def date_ok_def)
  show "i64 974068416000000000 = 974068416000000000 \<and> ComputeGMT 974068416000000000 = None"
    by code_simp
qed

theorem time_calendar_limits_witness:
  "\<exists>g. ComputeGMT (- 62135596800000001) = Some g \<and> tm_year g = 1 \<and> tm_month g = 0 \<and> tm_mday g \<le> 0 \<and> \<not> normal g"
  by (rule time_calendar_limits [THEN conjunct1]) (simp_all add: time_min_def)

end
