(* ===== verification/Moz_TimeParse.thy ===== *)
theory Moz_TimeParse
  imports Moz_Time
begin

text \<open>
  \<open>src/nsprpub/pr/src/misc/prtime.c\<close>, the parts that talk to strings and to the C library's clock:
  \<open>PR_LocalTimeParameters\<close>, \<open>PR_ParseTimeStringToExplodedTime\<close> and \<open>PR_ParseTimeString\<close>.

  The string is a buffer of bytes and the pointers into it are offsets; every character the C code
  looks at is an access \<open>rd\<close>, so a result \<open>Some\<close> says that the parser did not run past the buffer.
  \<open>localtime\<close> and \<open>mktime\<close> are parameters. The switch over the first letter of a word is a table of
  its \<open>if\<close>s in their order.
\<close>

section \<open>The C library's clock\<close>

record c_tm =
  ct_sec :: int
  ct_min :: int
  ct_hour :: int
  ct_mday :: int
  ct_mon :: int
  ct_year :: int
  ct_wday :: int
  ct_yday :: int
  ct_isdst :: int

type_synonym localtime_fn = "int \<Rightarrow> c_tm ptr"
type_synonym mktime_fn = "c_tm \<Rightarrow> int"

text \<open>On a thread-safe platform \<open>MT_safe_localtime\<close> is \<open>localtime_r\<close>. A failed first call leaves
  \<open>localTime\<close> uninitialised, and reading it is undefined.\<close>

definition local_secs :: "int \<Rightarrow> int" where
  "local_secs usecs =
     (if 0 \<le> usecs then usecs sdiv 1000000
      else - (i64 (i64 (- usecs) + 999999) sdiv 1000000))"

definition PR_LocalTimeParameters :: "localtime_fn \<Rightarrow> PRTimeParamFn" where
  "PR_LocalTimeParameters localtime gmt =
     do { lt0 \<leftarrow> localtime 86400;
          let offset2Jan1970 = i32 (ct_sec lt0 + 60 * ct_min lt0 + 3600 * ct_hour lt0 + 86400 * i32 (ct_mday lt0 - 2));
          let isdst2Jan1970 = ct_isdst lt0;
          usecs \<leftarrow> PR_ImplodeTime gmt;
          let secs64 = local_secs usecs;
          if secs64 > 2147483647 \<or> secs64 < -2147483648 then
            Some \<lparr>tp_gmt_offset = offset2Jan1970, tp_dst_offset = 0\<rparr>
          else case localtime secs64 of
            None \<Rightarrow> Some \<lparr>tp_gmt_offset = offset2Jan1970, tp_dst_offset = 0\<rparr>
          | Some lt \<Rightarrow>
              (let dayOffset = i32 (ct_wday lt - tm_wday gmt);
                   dayOffset = (if dayOffset = -6 then 1 else if dayOffset = 6 then -1 else dayOffset);
                   offsetNew = i32 (ct_sec lt - tm_sec gmt + 60 * (ct_min lt - tm_min gmt)
                                 + 3600 * (ct_hour lt - tm_hour gmt) + 86400 * dayOffset)
               in Some (if ct_isdst lt \<le> 0 then \<lparr>tp_gmt_offset = offsetNew, tp_dst_offset = 0\<rparr>
                        else if isdst2Jan1970 \<le> 0 then
                          \<lparr>tp_gmt_offset = offset2Jan1970, tp_dst_offset = i32 (offsetNew - offset2Jan1970)\<rparr>
                        else \<lparr>tp_gmt_offset = i32 (offsetNew - 3600), tp_dst_offset = 3600\<rparr>)) }"

section \<open>Tokens\<close>

text \<open>The enumeration \<open>TIME_TOKEN\<close>, as the integers C gives it.\<close>

type_synonym TIME_TOKEN = int

definition TT_UNKNOWN :: TIME_TOKEN where "TT_UNKNOWN = 0"
definition TT_SUN :: TIME_TOKEN where "TT_SUN = 1"
definition TT_JAN :: TIME_TOKEN where "TT_JAN = 8"
definition TT_PST :: TIME_TOKEN where "TT_PST = 20"
definition TT_GMT :: TIME_TOKEN where "TT_GMT = 30"

datatype token_kind = Kdotw | Kmonth | Kzone

text \<open>One \<open>if\<close> of the switch: the variable it fills, the second and third letter (in lower case), and
  the token.\<close>

type_synonym word_rule = "token_kind \<times> char \<times> char \<times> TIME_TOKEN"

definition rules_a_to_j :: "byte \<Rightarrow> word_rule list" where
  "rules_a_to_j c =
     (if c = 97 then
        [(Kmonth, CHR ''p'', CHR ''r'', 11), (Kzone, CHR ''s'', CHR ''t'', 28), (Kmonth, CHR ''u'', CHR ''g'', 15)]
      else if c = 98 then [(Kzone, CHR ''s'', CHR ''t'', 31)]
      else if c = 99 then [(Kzone, CHR ''d'', CHR ''t'', 25), (Kzone, CHR ''s'', CHR ''t'', 24)]
      else if c = 100 then [(Kmonth, CHR ''e'', CHR ''c'', 19)]
      else if c = 101 then
        [(Kzone, CHR ''d'', CHR ''t'', 27), (Kzone, CHR ''e'', CHR ''t'', 33), (Kzone, CHR ''s'', CHR ''t'', 26)]
      else if c = 102 then [(Kmonth, CHR ''e'', CHR ''b'', 9), (Kdotw, CHR ''r'', CHR ''i'', 6)]
      else if c = 103 then [(Kzone, CHR ''m'', CHR ''t'', 30)]
      else if c = 106 then
        [(Kmonth, CHR ''a'', CHR ''n'', 8), (Kzone, CHR ''s'', CHR ''t'', 34),
         (Kmonth, CHR ''u'', CHR ''l'', 14), (Kmonth, CHR ''u'', CHR ''n'', 13)]
      else [])"

definition rules_m_to_w :: "byte \<Rightarrow> word_rule list" where
  "rules_m_to_w c =
     (if c = 109 then
        [(Kmonth, CHR ''a'', CHR ''r'', 10), (Kmonth, CHR ''a'', CHR ''y'', 12), (Kzone, CHR ''d'', CHR ''t'', 23),
         (Kzone, CHR ''e'', CHR ''t'', 32), (Kdotw, CHR ''o'', CHR ''n'', 2), (Kzone, CHR ''s'', CHR ''t'', 22)]
      else if c = 110 then [(Kmonth, CHR ''o'', CHR ''v'', 18), (Kzone, CHR ''s'', CHR ''t'', 29)]
      else if c = 111 then [(Kmonth, CHR ''c'', CHR ''t'', 17)]
      else if c = 112 then [(Kzone, CHR ''d'', CHR ''t'', 21), (Kzone, CHR ''s'', CHR ''t'', 20)]
      else if c = 115 then
        [(Kdotw, CHR ''a'', CHR ''t'', 7), (Kmonth, CHR ''e'', CHR ''p'', 16), (Kdotw, CHR ''u'', CHR ''n'', 1)]
      else if c = 116 then [(Kdotw, CHR ''h'', CHR ''u'', 5), (Kdotw, CHR ''u'', CHR ''e'', 3)]
      else if c = 119 then [(Kdotw, CHR ''e'', CHR ''d'', 4)]
      else [])"

section \<open>Parser state\<close>

record parse =
  ps_dotw :: TIME_TOKEN
  ps_month :: TIME_TOKEN
  ps_zone :: TIME_TOKEN
  ps_zone_offset :: int
  ps_dst_offset :: int
  ps_date :: int
  ps_year :: int
  ps_hour :: int
  ps_min :: int
  ps_sec :: int

definition parse_init :: parse where
  "parse_init = \<lparr>ps_dotw = 0, ps_month = 0, ps_zone = 0, ps_zone_offset = -1, ps_dst_offset = 0,
     ps_date = -1, ps_year = -1, ps_hour = -1, ps_min = -1, ps_sec = -1\<rparr>"

definition is_digit :: "byte \<Rightarrow> bool" where "is_digit c \<longleftrightarrow> 48 \<le> c \<and> c \<le> 57"
definition is_alpha :: "byte \<Rightarrow> bool" where
  "is_alpha c \<longleftrightarrow> (65 \<le> c \<and> c \<le> 90) \<or> (97 \<le> c \<and> c \<le> 122)"
definition is_letter :: "byte \<Rightarrow> char \<Rightarrow> bool" where
  "is_letter c l \<longleftrightarrow> c = chr_of l \<or> c = chr_of l - 32"

definition dig :: "buf \<Rightarrow> nat \<Rightarrow> int exec" where
  "dig b i = do { c \<leftarrow> rd b i; Some (int (unat c) - 48) }"

section \<open>Words\<close>

definition unset :: "token_kind \<Rightarrow> parse \<Rightarrow> bool" where
  "unset k st = ((case k of Kdotw \<Rightarrow> ps_dotw st | Kmonth \<Rightarrow> ps_month st | Kzone \<Rightarrow> ps_zone st) = TT_UNKNOWN)"

definition set_token :: "token_kind \<Rightarrow> TIME_TOKEN \<Rightarrow> parse \<Rightarrow> parse" where
  "set_token k v st = (case k of Kdotw \<Rightarrow> st\<lparr>ps_dotw := v\<rparr> | Kmonth \<Rightarrow> st\<lparr>ps_month := v\<rparr> | Kzone \<Rightarrow> st\<lparr>ps_zone := v\<rparr>)"

definition match2 :: "buf \<Rightarrow> nat \<Rightarrow> char \<Rightarrow> char \<Rightarrow> bool exec" where
  "match2 b rest l1 l2 =
     do { c1 \<leftarrow> rd b (rest + 1);
          if is_letter c1 l1 then do { c2 \<leftarrow> rd b (rest + 2); Some (is_letter c2 l2) } else Some False }"

fun run_rules :: "buf \<Rightarrow> nat \<Rightarrow> word_rule list \<Rightarrow> parse \<Rightarrow> parse exec" where
  "run_rules b rest [] st = Some st"
| "run_rules b rest ((k, l1, l2, v) # rules) st =
     (if unset k st then
        do { hit \<leftarrow> match2 b rest l1 l2;
             if hit then Some (set_token k v st) else run_rules b rest rules st }
      else run_rules b rest rules st)"

definition ut_case :: "buf \<Rightarrow> parse \<Rightarrow> nat \<Rightarrow> parse exec" where
  "ut_case b st rest =
     (if ps_zone st = TT_UNKNOWN then
        do { c1 \<leftarrow> rd b (rest + 1);
             if is_letter c1 CHR ''t'' then
               do { c2 \<leftarrow> rd b (rest + 2);
                    Some (if \<not> is_alpha c2 then st\<lparr>ps_zone := TT_GMT\<rparr> else st) }
             else Some st }
      else Some st)"

definition word_case :: "buf \<Rightarrow> parse \<Rightarrow> nat \<Rightarrow> byte \<Rightarrow> parse exec" where
  "word_case b st rest c =
     (let lc = (if 65 \<le> c \<and> c \<le> 90 then c + 32 else c) in
      if lc = 117 then ut_case b st rest
      else run_rules b rest (rules_a_to_j lc @ rules_m_to_w lc) st)"

section \<open>Zone offsets\<close>

definition sign_case :: "buf \<Rightarrow> parse \<Rightarrow> nat \<Rightarrow> byte \<Rightarrow> (parse \<times> nat) exec" where
  "sign_case b st rest c =
     (if ps_zone_offset st \<noteq> -1 then Some (st, rest + 1)
      else if ps_zone st \<noteq> TT_UNKNOWN \<and> ps_zone st \<noteq> TT_GMT then Some (st, rest + 1)
      else
        let sign = (if c = 43 then 1 else -1); rest = rest + 1 in
        do { e \<leftarrow> skip_while is_digit b rest;
             if e - rest = 4 then
               do { d0 \<leftarrow> dig b rest; d1 \<leftarrow> dig b (rest + 1); d2 \<leftarrow> dig b (rest + 2); d3 \<leftarrow> dig b (rest + 3);
                    Some (st\<lparr>ps_zone_offset := ((d0 * 10 + d1) * 60 + (d2 * 10 + d3)) * sign, ps_zone := TT_GMT\<rparr>, rest) }
             else if e - rest = 2 then
               do { d0 \<leftarrow> dig b rest; d1 \<leftarrow> dig b (rest + 1);
                    Some (st\<lparr>ps_zone_offset := (d0 * 10 + d1) * 60 * sign, ps_zone := TT_GMT\<rparr>, rest) }
             else if e - rest = 1 then
               do { d0 \<leftarrow> dig b rest;
                    Some (st\<lparr>ps_zone_offset := d0 * 60 * sign, ps_zone := TT_GMT\<rparr>, rest) }
             else Some (st, rest) })"

section \<open>Times of day\<close>

text \<open>A number of one or two digits at \<open>[rest, e)\<close>.\<close>

definition num12 :: "buf \<Rightarrow> nat \<Rightarrow> nat \<Rightarrow> int exec" where
  "num12 b rest e =
     (if e - rest = 2 then do { d0 \<leftarrow> dig b rest; d1 \<leftarrow> dig b (rest + 1); Some (d0 * 10 + d1) }
      else dig b rest)"

definition am_pm :: "buf \<Rightarrow> nat \<Rightarrow> int \<Rightarrow> int exec" where
  "am_pm b e tmp_hour =
     (if tmp_hour \<le> 12 then
        do { s \<leftarrow> skip_while (\<lambda>c. c \<noteq> 0 \<and> (c = 32 \<or> c = 9)) b e;
             s0 \<leftarrow> rd b s;
             pm \<leftarrow> (if is_letter s0 CHR ''p'' then do { s1 \<leftarrow> rd b (s + 1); Some (is_letter s1 CHR ''m'') } else Some False);
             if pm then Some (if tmp_hour = 12 then 12 else tmp_hour + 12)
             else
               do { am \<leftarrow> (if tmp_hour = 12 \<and> is_letter s0 CHR ''a''
                           then do { s1 \<leftarrow> rd b (s + 1); Some (is_letter s1 CHR ''m'') } else Some False);
                    Some (if am then 0 else tmp_hour) } }
      else Some tmp_hour)"

definition clock_case :: "buf \<Rightarrow> parse \<Rightarrow> nat \<Rightarrow> nat \<Rightarrow> (parse \<times> nat) exec" where
  "clock_case b st rest e =
     (if 0 \<le> ps_hour st \<and> 0 \<le> ps_min st then Some (st, rest)
      else if e - rest > 2 then Some (st, rest)
      else
        do { tmp_hour \<leftarrow> num12 b rest e;
             let rest = e + 1;
             e \<leftarrow> skip_while is_digit b rest;
             if e = rest \<or> e - rest > 2 then Some (st, rest)
             else
               do { tmp_min \<leftarrow> num12 b rest e;
                    c \<leftarrow> rd b e;
                    let rest = (if c = 58 then e + 1 else e);
                    e \<leftarrow> skip_while is_digit b rest;
                    if e - rest > 2 then Some (st, rest)
                    else
                      do { tmp_sec \<leftarrow> (if e = rest then Some (-1) else num12 b rest e);
                           tmp_hour \<leftarrow> am_pm b e tmp_hour;
                           Some (st\<lparr>ps_hour := tmp_hour, ps_min := tmp_min, ps_sec := tmp_sec\<rparr>, e) } } })"

section \<open>Numeric dates\<close>

definition opt_digit :: "buf \<Rightarrow> nat \<Rightarrow> int \<Rightarrow> (int \<times> nat) exec" where
  "opt_digit b s n =
     do { c \<leftarrow> rd b s;
          if is_digit c then do { d \<leftarrow> dig b s; Some (n * 10 + d, s + 1) } else Some (n, s) }"

text \<open>A number of one or two digits; \<open>None\<close> in the inner option is the \<open>break\<close>.\<close>

definition small_num :: "buf \<Rightarrow> nat \<Rightarrow> (int \<times> nat) option exec" where
  "small_num b s =
     do { c \<leftarrow> rd b s;
          if is_digit c then do { n \<leftarrow> dig b s; (n, s) \<leftarrow> opt_digit b (s + 1) n; Some (Some (n, s)) }
          else Some None }"

definition is_sep :: "byte \<Rightarrow> bool" where "is_sep c \<longleftrightarrow> c = 47 \<or> c = 45"

text \<open>The third number: 1, 2, 4 or 5 digits.\<close>

definition year_num :: "buf \<Rightarrow> nat \<Rightarrow> (int \<times> nat) option exec" where
  "year_num b s =
     do { r \<leftarrow> small_num b s;
          case r of
            None \<Rightarrow> Some None
          | Some (n3, s) \<Rightarrow>
              do { c \<leftarrow> rd b s;
                   if is_digit c then
                     do { d \<leftarrow> dig b s;
                          let n3 = n3 * 10 + d;
                          r \<leftarrow> rd b (s + 1);
                          if is_digit r then
                            do { d \<leftarrow> dig b (s + 1);
                                 (n3, s) \<leftarrow> opt_digit b (s + 2) (n3 * 10 + d);
                                 Some (Some (n3, s)) }
                          else Some None }
                   else Some (Some (n3, s)) } }"

definition three_nums :: "buf \<Rightarrow> nat \<Rightarrow> (int \<times> int \<times> int \<times> nat) option exec" where
  "three_nums b s =
     do { n1 \<leftarrow> dig b s;
          (n1, s) \<leftarrow> opt_digit b (s + 1) n1;
          c \<leftarrow> rd b s;
          if \<not> is_sep c then Some None
          else
            do { r2 \<leftarrow> small_num b (s + 1);
                 case r2 of
                   None \<Rightarrow> Some None
                 | Some (n2, s) \<Rightarrow>
                     do { c \<leftarrow> rd b s;
                          if \<not> is_sep c then Some None
                          else
                            do { r3 \<leftarrow> year_num b (s + 1);
                                 case r3 of
                                   None \<Rightarrow> Some None
                                 | Some (n3, s) \<Rightarrow>
                                     do { c \<leftarrow> rd b s;
                                          Some (if is_digit c \<or> is_alpha c then None else Some (n1, n2, n3, s)) } } } } }"

definition century :: "int \<Rightarrow> int" where
  "century y = (if y < 70 then y + 2000 else if y < 100 then y + 1900 else y)"

definition date_fields :: "parse \<Rightarrow> nat \<Rightarrow> int \<Rightarrow> int \<Rightarrow> int \<Rightarrow> nat \<Rightarrow> parse \<times> nat" where
  "date_fields st rest n1 n2 n3 s =
     (if n1 > 31 \<or> n1 = 0 then
        if n2 > 12 then (st, rest)
        else if n3 > 31 then (st, rest)
        else (st\<lparr>ps_year := century n1, ps_month := n2 + TT_JAN - 1, ps_date := n3\<rparr>, s)
      else if n1 > 12 \<and> n2 > 12 then (st, s)
      else if n1 > 12 then (st\<lparr>ps_date := n1, ps_month := n2 + TT_JAN - 1, ps_year := century n3\<rparr>, s)
      else (st\<lparr>ps_month := n1 + TT_JAN - 1, ps_date := n2, ps_year := century n3\<rparr>, s))"

definition slash_case :: "buf \<Rightarrow> parse \<Rightarrow> nat \<Rightarrow> (parse \<times> nat) exec" where
  "slash_case b st rest =
     (if ps_month st \<noteq> TT_UNKNOWN then Some (st, rest)
      else
        do { r \<leftarrow> three_nums b rest;
             case r of None \<Rightarrow> Some (st, rest)
             | Some (n1, n2, n3, s) \<Rightarrow> Some (date_fields st rest n1 n2 n3 s) })"

section \<open>Plain numbers\<close>

definition two_digits :: "parse \<Rightarrow> int \<Rightarrow> parse" where
  "two_digits st n =
     (if ps_date st < 0 \<and> n < 32 then st\<lparr>ps_date := n\<rparr>
      else if ps_year st < 0 then
        st\<lparr>ps_year := (if n < 70 then 2000 + n else if n < 100 then 1900 + n else n)\<rparr>
      else st)"

definition plain_case :: "buf \<Rightarrow> parse \<Rightarrow> nat \<Rightarrow> nat \<Rightarrow> parse exec" where
  "plain_case b st rest e =
     (if e - rest = 5 then
        do { d0 \<leftarrow> dig b rest; d1 \<leftarrow> dig b (rest + 1); d2 \<leftarrow> dig b (rest + 2); d3 \<leftarrow> dig b (rest + 3);
             d4 \<leftarrow> dig b (rest + 4);
             Some (if ps_year st < 0 then st\<lparr>ps_year := d0 * 10000 + d1 * 1000 + d2 * 100 + d3 * 10 + d4\<rparr> else st) }
      else if e - rest = 4 then
        do { d0 \<leftarrow> dig b rest; d1 \<leftarrow> dig b (rest + 1); d2 \<leftarrow> dig b (rest + 2); d3 \<leftarrow> dig b (rest + 3);
             Some (if ps_year st < 0 then st\<lparr>ps_year := d0 * 1000 + d1 * 100 + d2 * 10 + d3\<rparr> else st) }
      else if e - rest = 2 then
        do { d0 \<leftarrow> dig b rest; d1 \<leftarrow> dig b (rest + 1); Some (two_digits st (d0 * 10 + d1)) }
      else if e - rest = 1 then
        do { d0 \<leftarrow> dig b rest; Some (if ps_date st < 0 then st\<lparr>ps_date := d0\<rparr> else st) }
      else Some st)"

definition digit_case :: "buf \<Rightarrow> parse \<Rightarrow> nat \<Rightarrow> (parse \<times> nat) exec" where
  "digit_case b st rest =
     do { e \<leftarrow> skip_while is_digit b (rest + 1);
          c \<leftarrow> rd b e;
          if c = 58 then clock_case b st rest e
          else
            do { slash \<leftarrow> (if is_sep c then do { c1 \<leftarrow> rd b (e + 1); Some (is_digit c1) } else Some False);
                 if slash then slash_case b st rest
                 else if is_alpha c then Some (st, rest)
                 else do { st \<leftarrow> plain_case b st rest e; Some (st, rest) } } }"

section \<open>The token loop\<close>

definition token_end :: "byte \<Rightarrow> bool" where
  "token_end c \<longleftrightarrow> c = 0 \<or> c = 32 \<or> c = 9 \<or> c = 44 \<or> c = 59 \<or> c = 45 \<or> c = 43 \<or> c = 47 \<or> c = 40 \<or> c = 41 \<or>
     c = 91 \<or> c = 93"

definition uninteresting :: "byte \<Rightarrow> bool" where
  "uninteresting c \<longleftrightarrow> c = 32 \<or> c = 9 \<or> c = 44 \<or> c = 59 \<or> c = 47 \<or> c = 40 \<or> c = 41 \<or> c = 91 \<or> c = 93"

function skip_more :: "buf \<Rightarrow> int \<Rightarrow> nat \<Rightarrow> nat exec" where
  "skip_more b year rest =
     do { rest \<leftarrow> skip_while uninteresting b rest;
          c \<leftarrow> rd b rest;
          if c = 45 then
            do { dash \<leftarrow> (if 0 < rest then do { p \<leftarrow> rd b (rest - 1); Some (is_alpha p \<and> year < 0) } else Some False);
                 ignore \<leftarrow> (if dash then Some True else do { c1 \<leftarrow> rd b (rest + 1); Some (\<not> is_digit c1) });
                 if ignore then skip_more b year (rest + 1) else Some rest }
          else Some rest }"
  by pat_completeness auto
termination
  by (relation "measure (\<lambda>(b, year, rest). length b - rest)") (auto simp: rd_eq_Some dest!: skip_while_range)

declare skip_more.simps [simp del]

definition token_step :: "buf \<Rightarrow> parse \<Rightarrow> nat \<Rightarrow> byte \<Rightarrow> (parse \<times> nat) exec" where
  "token_step b st rest c =
     do { (st, rest) \<leftarrow>
            (if c = 43 \<or> c = 45 then sign_case b st rest c
             else if is_digit c then digit_case b st rest
             else if is_alpha c then do { st \<leftarrow> word_case b st rest c; Some (st, rest) }
             else Some (st, rest));
          rest \<leftarrow> skip_while (\<lambda>c. \<not> token_end c) b rest;
          rest \<leftarrow> skip_more b (ps_year st) rest;
          Some (st, rest) }"

text \<open>The loop over tokens, with the number of iterations the code still allows; the inner \<open>None\<close> is the
  failure after the 1001st.\<close>

fun parse_loop :: "nat \<Rightarrow> buf \<Rightarrow> parse \<Rightarrow> nat \<Rightarrow> parse option exec" where
  "parse_loop n b st rest =
     do { c \<leftarrow> rd b rest;
          if c = 0 then Some (Some st)
          else case n of
            0 \<Rightarrow> Some None
          | Suc n \<Rightarrow> do { (st, rest) \<leftarrow> token_step b st rest c; parse_loop n b st rest } }"

declare parse_loop.simps [simp del]

section \<open>The result\<close>

definition zone_table :: "parse \<Rightarrow> parse" where
  "zone_table st =
     (let set1 = (\<lambda>z. st\<lparr>ps_zone_offset := z\<rparr>);
          set2 = (\<lambda>z. st\<lparr>ps_zone_offset := z, ps_dst_offset := 60\<rparr>);
          z = ps_zone st in
      if z = 20 then set1 (-480) else if z = 21 then set2 (-480)
      else if z = 22 then set1 (-420) else if z = 23 then set2 (-420)
      else if z = 24 then set1 (-360) else if z = 25 then set2 (-360)
      else if z = 26 then set1 (-300) else if z = 27 then set2 (-300)
      else if z = 28 then set1 (-240) else if z = 29 then set1 (-210)
      else if z = 30 then set1 0 else if z = 31 then set2 0
      else if z = 32 then set1 60 else if z = 33 then set1 120
      else if z = 34 then set1 540 else st)"

definition parsed_fields :: "parse \<Rightarrow> PRExplodedTime" where
  "parsed_fields st =
     \<lparr>tm_usec = 0,
      tm_sec = (if ps_sec st \<noteq> -1 then ps_sec st else 0),
      tm_min = (if ps_min st \<noteq> -1 then ps_min st else 0),
      tm_hour = (if ps_hour st \<noteq> -1 then ps_hour st else 0),
      tm_mday = ps_date st,
      tm_month = ps_month st - TT_JAN,
      tm_year = i16 (ps_year st),
      tm_wday = (if ps_dotw st \<noteq> TT_UNKNOWN then ps_dotw st - TT_SUN else 0),
      tm_yday = 0,
      tm_params = \<lparr>tp_gmt_offset = 0, tp_dst_offset = 0\<rparr>\<rparr>"

definition set_params :: "PRExplodedTime \<Rightarrow> int \<Rightarrow> int \<Rightarrow> PRExplodedTime" where
  "set_params r zone_offset dst_offset =
     r\<lparr>tm_params := \<lparr>tp_gmt_offset = zone_offset * 60, tp_dst_offset = dst_offset * 60\<rparr>\<rparr>"

definition local_result :: "localtime_fn \<Rightarrow> mktime_fn \<Rightarrow> parse \<Rightarrow> PRExplodedTime \<Rightarrow> PRExplodedTime exec" where
  "local_result localtime mktime st r =
     (let fallback =
            do { lt \<leftarrow> localtime 86400;
                 Some (set_params r (ct_min lt + 60 * ct_hour lt + 1440 * (ct_mday lt - 2)) (ps_dst_offset st)) }
      in if tm_year r \<ge> 1970 then
           let secs = mktime \<lparr>ct_sec = tm_sec r, ct_min = tm_min r, ct_hour = tm_hour r, ct_mday = tm_mday r,
                             ct_mon = tm_month r, ct_year = tm_year r - 1900, ct_wday = 0, ct_yday = 0, ct_isdst = -1\<rparr>
           in if secs \<noteq> -1 then PR_ExplodeTime (i64 (secs * 1000000)) (PR_LocalTimeParameters localtime)
              else fallback
         else fallback)"

definition PR_ParseTimeStringToExplodedTime ::
  "localtime_fn \<Rightarrow> mktime_fn \<Rightarrow> buf \<Rightarrow> bool \<Rightarrow> PRExplodedTime option exec" where
  "PR_ParseTimeStringToExplodedTime localtime mktime string default_to_gmt =
     do { loop \<leftarrow> parse_loop 1001 string parse_init 0;
          case loop of
            None \<Rightarrow> Some None
          | Some st \<Rightarrow>
              (let st = (if ps_zone st \<noteq> TT_UNKNOWN \<and> ps_zone_offset st = -1 then zone_table st else st) in
               if ps_month st = TT_UNKNOWN \<or> ps_date st = -1 \<or> ps_year st = -1 \<or> ps_year st > 32767 then Some None
               else
                 do { r \<leftarrow> PR_NormalizeTime (parsed_fields st) PR_GMTParameters;
                      let zone_offset = (if ps_zone st = TT_UNKNOWN \<and> default_to_gmt then 0 else ps_zone_offset st);
                      if zone_offset = -1 then do { r \<leftarrow> local_result localtime mktime st r; Some (Some r) }
                      else Some (Some (set_params r zone_offset (ps_dst_offset st))) }) }"

definition PR_ParseTimeString :: "localtime_fn \<Rightarrow> mktime_fn \<Rightarrow> buf \<Rightarrow> bool \<Rightarrow> int option exec" where
  "PR_ParseTimeString localtime mktime string default_to_gmt =
     do { r \<leftarrow> PR_ParseTimeStringToExplodedTime localtime mktime string default_to_gmt;
          case r of None \<Rightarrow> Some None | Some tm \<Rightarrow> do { t \<leftarrow> PR_ImplodeTime tm; Some (Some t) } }"

section \<open>Reading up to the terminator\<close>

text \<open>The offset of the terminating NUL. Reads up to it are defined, and a character that is not NUL has a
  successor within the string.\<close>

lemma digit_nonzero: "is_digit c \<Longrightarrow> c \<noteq> 0" "is_alpha c \<Longrightarrow> c \<noteq> 0" "is_sep c \<Longrightarrow> c \<noteq> 0" "\<not> is_digit 0" "\<not> is_alpha 0"
  by (auto simp: is_digit_def is_alpha_def is_sep_def)

definition lower :: "char set" where "lower = set ''abcdefghijklmnopqrstuvwxyz''"

lemma letter_nonzero: "is_letter c l \<Longrightarrow> l \<in> lower \<Longrightarrow> c \<noteq> 0"
  by (auto simp: is_letter_def chr_of_def lower_def)

lemma lower_letters: "CHR ''a'' \<in> lower" "CHR ''m'' \<in> lower" "CHR ''p'' \<in> lower" "CHR ''t'' \<in> lower"
  by (simp_all add: lower_def)

lemma wpx_dig: "has_nul b \<Longrightarrow> i \<le> nul b \<Longrightarrow> (\<And>d. Q d) \<Longrightarrow> wpx (dig b i) Q"
  by (simp add: dig_def wpx_def rd_nul)

section \<open>No token leaves the string\<close>

text \<open>What the loop keeps: the zone variable holds a zone or nothing, and an explicit offset goes with GMT.\<close>

definition zone_ok :: "parse \<Rightarrow> bool" where
  "zone_ok st \<longleftrightarrow> (ps_zone st = 0 \<or> 20 \<le> ps_zone st \<and> ps_zone st \<le> 34) \<and> (ps_zone_offset st \<noteq> -1 \<longrightarrow> ps_zone st = 30)"

definition step_ok :: "buf \<Rightarrow> parse \<times> nat \<Rightarrow> bool" where
  "step_ok b = (\<lambda>(st, r). r \<le> nul b \<and> zone_ok st)"

definition rule_ok :: "word_rule \<Rightarrow> bool" where
  "rule_ok = (\<lambda>(k, l1, l2, v). l1 \<in> lower \<and> (k = Kzone \<longrightarrow> 20 \<le> v \<and> v \<le> 34))"

lemma wpx_match2:
  assumes "has_nul b" "rest < nul b" "l1 \<in> lower" "\<And>h. Q h"
  shows "wpx (match2 b rest l1 l2) Q"
  unfolding match2_def
  by (intro wp wpx_rd_nul assms) (use assms letter_nonzero in auto)

lemma wpx_run_rules:
  assumes "has_nul b" "rest < nul b" "\<forall>r\<in>set rules. rule_ok r" "zone_ok st"
  shows "wpx (run_rules b rest rules st) zone_ok"
  using assms(3)
proof (induction rules)
  case Nil
  then show ?case using assms(4) by (simp add: wpx_Some)
next
  case (Cons r rules)
  obtain k l1 l2 v where r: "r = (k, l1, l2, v)" by (metis prod_cases4)
  have l1: "l1 \<in> lower" and v: "k = Kzone \<longrightarrow> 20 \<le> v \<and> v \<le> 34" using Cons.prems r by (simp_all add: rule_ok_def)
  have z: "zone_ok (set_token k v st)" if "unset k st"
    using that v assms(4) by (cases k) (auto simp: zone_ok_def set_token_def unset_def TT_UNKNOWN_def)
  have ih: "wpx (run_rules b rest rules st) zone_ok" using Cons by simp
  show ?case unfolding r run_rules.simps
    by (intro wp wpx_match2 assms(1,2) l1 ih z) simp_all
qed

lemma lower_all: "l \<in> set ''abcdefghijklmnopqrstuvwxyz'' \<Longrightarrow> l \<in> lower"
  by (simp add: lower_def)

lemma rules_ok: "\<forall>r\<in>set (rules_a_to_j c @ rules_m_to_w c). rule_ok r"
proof -
  have l: "CHR ''p'' \<in> lower" "CHR ''s'' \<in> lower" "CHR ''u'' \<in> lower" "CHR ''d'' \<in> lower" "CHR ''e'' \<in> lower"
    "CHR ''r'' \<in> lower" "CHR ''m'' \<in> lower" "CHR ''a'' \<in> lower" "CHR ''o'' \<in> lower" "CHR ''c'' \<in> lower" "CHR ''h'' \<in> lower"
    by (simp_all add: lower_def)
  have "list_all rule_ok (rules_a_to_j c)" "list_all rule_ok (rules_m_to_w c)"
    by (simp_all add: rules_a_to_j_def rules_m_to_w_def rule_ok_def l)
  then show ?thesis by (auto simp: list_all_iff)
qed

lemma wpx_word_case:
  assumes "has_nul b" "rest < nul b" "zone_ok st"
  shows "wpx (word_case b st rest c) zone_ok"
  unfolding word_case_def ut_case_def
  by (intro wp wpx_rd_nul wpx_run_rules assms rules_ok)
    (use assms letter_nonzero lower_letters in \<open>auto simp: zone_ok_def TT_GMT_def TT_UNKNOWN_def\<close>)

lemma wpx_sign_case:
  assumes "has_nul b" "rest < nul b" "zone_ok st"
  shows "wpx (sign_case b st rest c) (step_ok b)"
  unfolding sign_case_def
  by (intro wp wpx_skip_while wpx_dig assms)
    (use assms digit_nonzero in \<open>auto simp: step_ok_def zone_ok_def TT_GMT_def\<close>)

lemma wpx_num12:
  assumes "has_nul b" "rest < e" "e \<le> nul b" "\<And>n. Q n"
  shows "wpx (num12 b rest e) Q"
  unfolding num12_def by (intro wp wpx_dig assms) (use assms in auto)

lemma wpx_am_pm:
  assumes "has_nul b" "e \<le> nul b" "\<And>n. Q n"
  shows "wpx (am_pm b e h) Q"
  unfolding am_pm_def
  by (intro wp wpx_rd_nul wpx_skip_while assms) (use assms letter_nonzero lower_letters in auto)

lemma wpx_clock_case:
  assumes "has_nul b" "rest < e" "e < nul b" "zone_ok st"
  shows "wpx (clock_case b st rest e) (step_ok b)"
  unfolding clock_case_def
  by (intro wp wpx_rd_nul wpx_skip_while wpx_num12 wpx_am_pm assms)
    (use assms digit_nonzero in \<open>auto simp: step_ok_def zone_ok_def\<close>)

lemma wpx_opt_digit:
  assumes "has_nul b" "s \<le> nul b" "\<And>n s'. s \<le> s' \<Longrightarrow> s' \<le> nul b \<Longrightarrow> Q (n, s')"
  shows "wpx (opt_digit b s n) Q"
  unfolding opt_digit_def
  by (intro wp wpx_rd_nul wpx_dig assms) (use assms digit_nonzero in auto)

lemma wpx_small_num:
  assumes "has_nul b" "s \<le> nul b" "Q None" "\<And>n s'. s \<le> s' \<Longrightarrow> s' \<le> nul b \<Longrightarrow> Q (Some (n, s'))"
  shows "wpx (small_num b s) Q"
  unfolding small_num_def
  by (intro wp wpx_rd_nul wpx_dig wpx_opt_digit assms) (use assms digit_nonzero in auto)

lemma wpx_year_num:
  assumes "has_nul b" "s \<le> nul b" "Q None" "\<And>n s'. s' \<le> nul b \<Longrightarrow> Q (Some (n, s'))"
  shows "wpx (year_num b s) Q"
  unfolding year_num_def
  by (intro wp wpx_rd_nul wpx_dig wpx_opt_digit wpx_small_num assms) (use assms digit_nonzero in auto)

lemma wpx_three_nums:
  assumes "has_nul b" "s < nul b" "Q None" "\<And>n1 n2 n3 s'. s' \<le> nul b \<Longrightarrow> Q (Some (n1, n2, n3, s'))"
  shows "wpx (three_nums b s) Q"
  unfolding three_nums_def
  by (intro wp wpx_rd_nul wpx_dig wpx_opt_digit wpx_small_num wpx_year_num assms)
    (use assms digit_nonzero in \<open>auto split: if_splits\<close>)

lemma wpx_slash_case:
  assumes "has_nul b" "rest < nul b" "zone_ok st"
  shows "wpx (slash_case b st rest) (step_ok b)"
  unfolding slash_case_def
  by (intro wp wpx_three_nums assms)
    (use assms in \<open>auto simp: step_ok_def date_fields_def zone_ok_def\<close>)

lemma wpx_plain_case:
  assumes "has_nul b" "rest < e" "e \<le> nul b" "zone_ok st"
  shows "wpx (plain_case b st rest e) zone_ok"
  unfolding plain_case_def two_digits_def
  by (intro wp wpx_dig assms) (use assms in \<open>auto simp: zone_ok_def\<close>)

lemma wpx_digit_case:
  assumes "has_nul b" "rest < nul b" "zone_ok st"
  shows "wpx (digit_case b st rest) (step_ok b)"
  unfolding digit_case_def
  by (intro wp wpx_rd_nul wpx_skip_while wpx_clock_case wpx_slash_case wpx_conseq [OF wpx_plain_case] assms)
    (use assms digit_nonzero in \<open>auto simp: step_ok_def\<close>)

lemma wpx_skip_more:
  assumes "has_nul b" "rest \<le> nul b"
  shows "wpx (skip_more b year rest) (\<lambda>r. r \<le> nul b)"
  using assms(2)
proof (induction "nul b - rest" arbitrary: rest rule: less_induct)
  case less
  have rec: "wpx (skip_more b year (j + 1)) (\<lambda>r. r \<le> nul b)" if "rest \<le> j" "j < nul b" for j
    using that less(1) [of "j + 1"] by simp
  show ?case
    by (subst skip_more.simps)
      (intro wp wpx_rd_nul wpx_skip_while rec assms(1); use less(2) in \<open>auto simp: uninteresting_def\<close>)
qed

lemma wpx_token_step:
  assumes "has_nul b" "rest < nul b" "zone_ok st"
  shows "wpx (token_step b st rest c) (step_ok b)"
proof -
  have tail: "wpx (case p of (st, rest) \<Rightarrow> do { rest \<leftarrow> skip_while (\<lambda>c. \<not> token_end c) b rest;
      rest \<leftarrow> skip_more b (ps_year st) rest; Some (st, rest) }) (step_ok b)" if "step_ok b p" for p
    using that unfolding step_ok_def
    by (intro wp wpx_skip_while wpx_conseq [OF wpx_skip_more] assms(1)) (auto simp: token_end_def)
  show ?thesis unfolding token_step_def
    by (intro wpx_bind wpx_if wpx_conseq [OF wpx_sign_case] wpx_conseq [OF wpx_digit_case]
        wpx_conseq [OF wpx_word_case] wpx_Some tail assms)
      (use assms in \<open>auto simp: step_ok_def\<close>)
qed

lemma wpx_parse_loop:
  assumes "has_nul b" "rest \<le> nul b" "zone_ok st"
  shows "wpx (parse_loop n b st rest) (\<lambda>r. case r of None \<Rightarrow> True | Some st \<Rightarrow> zone_ok st)"
  using assms(2,3)
proof (induction n arbitrary: st rest)
  case 0
  then show ?case by (subst parse_loop.simps) (intro wp wpx_rd_nul assms(1); simp add: wpx_def)
next
  case (Suc n)
  show ?case
  proof (cases "b ! rest = 0")
    case True
    then show ?thesis using Suc.prems rd_nul [OF assms(1) Suc.prems(1)]
      by (subst parse_loop.simps) (simp add: wpx_def)
  next
    case False
    then have "rest < nul b" using rd_nul_next [OF assms(1) Suc.prems(1)] by simp
    then have "wpx (token_step b st rest (b ! rest)) (\<lambda>(st, rest). wpx (parse_loop n b st rest)
        (\<lambda>r. case r of None \<Rightarrow> True | Some st \<Rightarrow> zone_ok st))"
      using Suc.IH by (intro wpx_conseq [OF wpx_token_step [OF assms(1) _ Suc.prems(2)]]) (auto simp: step_ok_def)
    then have "wpx (Option.bind (token_step b st rest (b ! rest)) (\<lambda>(st, rest). parse_loop n b st rest))
        (\<lambda>r. case r of None \<Rightarrow> True | Some st \<Rightarrow> zone_ok st)"
      by (intro wpx_bind) (auto elim!: wpx_conseq)
    then show ?thesis using rd_nul [OF assms(1) Suc.prems(1)] False by (subst parse_loop.simps) simp
  qed
qed

section \<open>Normalization always returns\<close>

lemma carry_range: "0 < m \<Longrightarrow> m \<le> 1000000000 \<Longrightarrow> 0 \<le> fst (carry m lo hi) \<and> fst (carry m lo hi) < m"
proof -
  assume m: "0 < m" "m \<le> 1000000000"
  have b: "- m < lo smod m" "lo smod m < m" using smod_bounds [OF m(1), of lo] by blast+
  have "lo smod m < 0 \<Longrightarrow> i32 (lo smod m + m) = lo smod m + m" using b m by (intro i32_id; linarith)
  then show ?thesis using b m by (auto simp: carry_def Let_def)
qed

lemma carry_month_range: "0 \<le> fst (carry_month m y) \<and> fst (carry_month m y) \<le> 11"
proof -
  have b: "- 12 < m smod 12" "m smod 12 < 12" using smod_bounds [of 12 m] by simp_all
  have "m smod 12 < 0 \<Longrightarrow> i32 (m smod 12 + 12) = m smod 12 + 12" using b by (intro i32_id; linarith)
  then show ?thesis using b by (auto simp: carry_month_def Let_def)
qed

lemma i16_le: "i16 x \<le> 32767"
  using signed_take_bit_int_less_exp [of 15 x] by (simp add: i16_def)

lemma mday_small_total: "0 \<le> m \<Longrightarrow> m \<le> 11 \<Longrightarrow> d < 1 \<Longrightarrow> y \<le> B \<Longrightarrow> 32767 \<le> B \<Longrightarrow>
    wpx (mday_small d m y) (\<lambda>(d, m, y). 0 \<le> m \<and> m \<le> 11 \<and> 1 \<le> d \<and> d \<le> 31 \<and> y \<le> B)"
proof (induction "nat (1 - d)" arbitrary: d m y rule: less_induct)
  case less
  define m' y' where "m' = (if m = 0 then 11 else m - 1)" and "y' = (if m = 0 then i16 (y - 1) else y)"
  have mb: "0 \<le> m'" "m' \<le> 11" using less(2,3) by (auto simp: m'_def)
  let ?d = "d + month_days (leap y') m'"
  have run: "mday_small d m y = (if ?d < 1 then mday_small ?d m' y' else Some (?d, m', y'))"
    using less(2,3) mb by (subst mday_small.simps) (auto simp: Let_def i32_id m'_def y'_def aref_nDays IsLeapYear_leap)
  have "y' \<le> B" using less(5,6) order.trans [OF i16_le less(6)] by (simp add: y'_def)
  then show ?case unfolding run
    using less(1) [of ?d m' y'] less(4,6) mb month_days_bounds [OF mb, of "leap y'"] by (intro wp) simp_all
qed

lemma mday_large_total: "0 \<le> m \<Longrightarrow> m \<le> 11 \<Longrightarrow> 1 \<le> d \<Longrightarrow> y \<le> B \<Longrightarrow> 32767 \<le> B \<Longrightarrow>
    wpx (mday_large d m y) (\<lambda>(d, m, y). 0 \<le> m \<and> m \<le> 11 \<and> 1 \<le> d \<and> d \<le> 31 \<and> y \<le> B)"
proof (induction "nat d" arbitrary: d m y rule: less_induct)
  case less
  define m' y' where "m' = (if m = 11 then 0 else m + 1)" and "y' = (if m = 11 then i16 (y + 1) else y)"
  have mb: "0 \<le> m'" "m' \<le> 11" using less(2,3) by (auto simp: m'_def)
  let ?dm = "month_days (leap y) m"
  have run: "mday_large d m y = (if d > ?dm then mday_large (d - ?dm) m' y' else Some (d, m, y))"
    using less(2,3) mb by (subst mday_large.simps) (auto simp: Let_def i32_id m'_def y'_def aref_nDays IsLeapYear_leap)
  have "y' \<le> B" using less(5,6) order.trans [OF i16_le less(6)] by (simp add: y'_def)
  then show ?case unfolding run
    using less(1) [of "d - ?dm" m' y'] mb month_days_bounds [OF less(2,3), of "leap y"] less(2-6) by (intro wp) simp_all
qed

lemma ApplySec_zero:
  "0 \<le> tm_sec g \<Longrightarrow> tm_sec g < 60 \<Longrightarrow> 0 \<le> tm_min g \<Longrightarrow> tm_min g < 60 \<Longrightarrow> 0 \<le> tm_hour g \<Longrightarrow> tm_hour g < 24 \<Longrightarrow>
   ApplySecOffset g 0 = Some g"
  by (simp add: ApplySecOffset_def carry_def i32_id)

definition clock_ok :: "PRExplodedTime \<Rightarrow> bool" where
  "clock_ok g \<longleftrightarrow> 0 \<le> tm_sec g \<and> tm_sec g < 60 \<and> 0 \<le> tm_min g \<and> tm_min g < 60 \<and> 0 \<le> tm_hour g \<and> tm_hour g < 24 \<and>
     1 \<le> tm_mday g \<and> tm_mday g \<le> 31 \<and> 0 \<le> tm_month g \<and> tm_month g \<le> 11"

lemma carry_month_year: "y \<le> B \<Longrightarrow> 32767 \<le> B \<Longrightarrow> snd (carry_month m y) \<le> B"
  using order.trans [OF i16_le] by (simp add: carry_month_def Let_def)

lemma Normalize_clock:
  assumes "tm_year t \<le> B" "32767 \<le> B"
  shows "\<exists>g. PR_NormalizeTime t PR_GMTParameters = Some g \<and> clock_ok g \<and> tm_year g \<le> B"
proof -
  define S0 where "S0 = i32 (tm_sec t - (tp_gmt_offset (tm_params t) + tp_dst_offset (tm_params t)))"
  obtain us S where c1: "carry 1000000 (tm_usec t) S0 = (us, S)" by force
  obtain s M where c2: "carry 60 S (tm_min t) = (s, M)" by force
  obtain m H where c3: "carry 60 M (tm_hour t) = (m, H)" by force
  obtain h D where c4: "carry 24 H (tm_mday t) = (h, D)" by force
  obtain mo Y where c5: "carry_month (tm_month t) (tm_year t) = (mo, Y)" by force
  have b: "0 \<le> s" "s < 60" "0 \<le> m" "m < 60" "0 \<le> h" "h < 24" "0 \<le> mo" "mo \<le> 11"
    using carry_range [of 60 S "tm_min t"] carry_range [of 60 M "tm_hour t"] carry_range [of 24 H "tm_mday t"]
      carry_month_range [of "tm_month t" "tm_year t"] c2 c3 c4 c5 by simp_all
  have Y: "Y \<le> B" using carry_month_year [OF assms, of "tm_month t"] c5 by simp
  obtain d m' y where dmy: "(if D < 1 then mday_small D mo Y else mday_large D mo Y) = Some (d, m', y)" "0 \<le> m'" "m' \<le> 11"
    "1 \<le> d" "d \<le> 31" "y \<le> B"
    using mday_small_total [OF b(7,8) _ Y assms(2), of D] mday_large_total [OF b(7,8) _ Y assms(2), of D]
    by (cases "D < 1") (auto simp: wpx_def)
  show ?thesis
    unfolding PR_NormalizeTime_def Let_def S0_def [symmetric] c1 c2 c3 c4 c5 prod.case dmy(1) bind.bind_lunit
      aref_last [OF dmy(2,3)] PR_GMTParameters_def
    using b dmy(2-6) by (simp add: ApplySec_zero i32_id clock_ok_def)
qed

lemma Normalize_total: "\<exists>g. PR_NormalizeTime t PR_GMTParameters = Some g"
  using Normalize_clock [of t "max 32767 (tm_year t)"] by auto

lemma Implode_total: "\<exists>x. PR_ImplodeTime t = Some x"
  using Normalize_total [of t] by (auto simp: PR_ImplodeTime_def Let_def)

lemma zone_table_sets: "zone_ok st \<Longrightarrow> ps_zone st \<noteq> 0 \<Longrightarrow> ps_zone_offset (zone_table st) \<noteq> -1"
proof -
  assume "zone_ok st" "ps_zone st \<noteq> 0"
  then have "20 \<le> ps_zone st \<and> ps_zone st \<le> 34" by (auto simp: zone_ok_def)
  then have "ps_zone st \<in> set [20..34]" by (simp only: set_upto atLeastAtMost_iff)
  moreover have "[20..34::int] = [20, 21, 22, 23, 24, 25, 26, 27, 28, 29, 30, 31, 32, 33, 34]" by code_simp
  ultimately have "ps_zone st \<in> {20, 21, 22, 23, 24, 25, 26, 27, 28, 29, 30, 31, 32, 33, 34}"
    by (simp only: list.set)
  then show ?thesis by (elim insertE emptyE) (simp_all add: zone_table_def)
qed

section \<open>Local time\<close>

text \<open>What the C standard says of \<open>localtime\<close>: it breaks a moment down into the clock and calendar of the
  local zone, which at that moment is \<open>off\<close> seconds ahead of GMT.\<close>

definition ct_of :: "PRExplodedTime \<Rightarrow> int \<Rightarrow> c_tm" where
  "ct_of g isdst = \<lparr>ct_sec = tm_sec g, ct_min = tm_min g, ct_hour = tm_hour g, ct_mday = tm_mday g,
     ct_mon = tm_month g, ct_year = tm_year g - 1900, ct_wday = tm_wday g, ct_yday = tm_yday g, ct_isdst = isdst\<rparr>"

definition localtime_ok :: "localtime_fn \<Rightarrow> (int \<Rightarrow> int) \<Rightarrow> bool" where
  "localtime_ok localtime off \<longleftrightarrow>
     (\<forall>s. \<exists>g d. - 2147483648 \<le> s \<and> s \<le> 2147483647 \<longrightarrow>
        localtime s = Some (ct_of g d) \<and> normal g \<and> local_usec g = (s + off s) * 1000000 \<and> \<bar>off s\<bar> < 86400)"

lemma localtime_okD:
  assumes "localtime_ok localtime off" "- 2147483648 \<le> s" "s \<le> 2147483647"
  shows "\<exists>g d. localtime s = Some (ct_of g d) \<and> normal g \<and> local_usec g = (s + off s) * 1000000 \<and> \<bar>off s\<bar> < 86400"
  using assms unfolding localtime_ok_def by blast

lemma local_secs_floor: "\<bar>u\<bar> \<le> 1000000000000000000 \<Longrightarrow> local_secs u = u div 1000000"
proof (cases "0 \<le> u")
  case True
  then show ?thesis by (simp add: local_secs_def sdiv_nonneg)
next
  case False
  assume b: "\<bar>u\<bar> \<le> 1000000000000000000"
  have w: "i64 (i64 (- u) + 999999) = - u + 999999" using b False by (simp add: i64_id)
  have "(- u + 999999) sdiv 1000000 = (- u + 999999) div 1000000" using False by (intro sdiv_nonneg) simp_all
  moreover define q r where "q = u div 1000000" and "r = u mod 1000000"
  have qr: "u = q * 1000000 + r" "0 \<le> r" "r < 1000000" using split_div [of 1000000 u] by (simp_all add: q_def r_def)
  have "- u + 999999 = (- q) * 1000000 + (999999 - r)" using qr(1) by simp
  then have "(- u + 999999) div 1000000 = - q" using div_lin [of "999999 - r" 1000000 "- q"] qr(2,3) by simp
  ultimately show ?thesis using False w by (simp add: local_secs_def q_def)
qed

lemma day_diff_wday:
  assumes "cal_ok a" "cal_ok b" "\<bar>cal_day a - cal_day b\<bar> \<le> 1"
  shows "(let d = i32 (tm_wday a - tm_wday b) in if d = -6 then 1 else if d = 6 then -1 else d) = cal_day a - cal_day b"
proof -
  define n where "n = cal_day b - 719162 + 4"
  have wb: "tm_wday b = n mod 7" using assms(2) by (simp add: cal_ok_def cal_day_def n_def)
  have wa: "tm_wday a = (n + (cal_day a - cal_day b)) mod 7"
    using assms(1) by (simp add: cal_ok_def cal_day_def n_def)
  have r: "0 \<le> n mod 7" "n mod 7 < 7" by simp_all
  have i: "i32 x = x" if "\<bar>x\<bar> \<le> 6" for x using that by (intro i32_id) linarith+
  consider "cal_day a - cal_day b = 0" | "cal_day a - cal_day b = 1" | "cal_day a - cal_day b = -1" using assms(3) by linarith
  then show ?thesis
  proof cases
    case 1
    then show ?thesis using wa wb i [of 0] by (simp add: Let_def)
  next
    case 2
    have "(n + 1) mod 7 = (if n mod 7 = 6 then 0 else n mod 7 + 1)"
      using mod_add_left_eq [of n 7 1] r by (cases "n mod 7 = 6") simp_all
    then have "tm_wday a - tm_wday b = (if n mod 7 = 6 then -6 else 1)" unfolding wa wb 2 by simp
    then show ?thesis unfolding 2 using i [of "-6"] i [of 1] by (simp add: Let_def)
  next
    case 3
    have "(n + -1) mod 7 = (if n mod 7 = 0 then 6 else n mod 7 - 1)"
      using mod_diff_left_eq [of n 7 1] r by (cases "n mod 7 = 0") simp_all
    then have "tm_wday a - tm_wday b = (if n mod 7 = 0 then 6 else -1)" unfolding wa wb 3 by simp
    then show ?thesis unfolding 3 using i [of "-1"] i [of 6] by (simp add: Let_def)
  qed
qed

lemma clock_bounds:
  assumes "normal g"
  shows "0 \<le> tm_hour g * 3600 + tm_min g * 60 + tm_sec g" "tm_hour g * 3600 + tm_min g * 60 + tm_sec g \<le> 86399"
  using assms unfolding normal_def by linarith+

lemma LocalTime_ok:
  assumes L: "localtime_ok localtime off" and g: "normal g" "tm_params g = zero_params"
    and s: "s = local_usec g div 1000000" "- 2147483648 \<le> s" "s \<le> 2147483647"
  shows "\<exists>p. PR_LocalTimeParameters localtime g = Some p \<and> tp_gmt_offset p + tp_dst_offset p = off s"
proof -
  obtain g0 d0 where l0: "localtime 86400 = Some (ct_of g0 d0)" "normal g0"
    using localtime_okD [OF L, of 86400] by auto
  obtain gl dl where l1: "localtime s = Some (ct_of gl dl)" "normal gl" "local_usec gl = (s + off s) * 1000000" "\<bar>off s\<bar> < 86400"
    using localtime_okD [OF L s(2,3)] by blast
  let ?c = "\<lambda>t. tm_hour t * 3600 + tm_min t * 60 + tm_sec t"
  have sg: "local_usec g = s * 1000000 + tm_usec g" "s = (cal_day g - 719162) * 86400 + ?c g"
  proof -
    have e: "local_usec g = ((cal_day g - 719162) * 86400 + ?c g) * 1000000 + tm_usec g" by (simp add: local_usec_eq)
    moreover have "0 \<le> tm_usec g" "tm_usec g < 1000000" using g(1) by (simp_all add: normal_def)
    ultimately show "s = (cal_day g - 719162) * 86400 + ?c g" unfolding s(1) using div_lin by metis
    then show "local_usec g = s * 1000000 + tm_usec g" using e by simp
  qed
  have sl: "s + off s = (cal_day gl - 719162) * 86400 + ?c gl"
  proof -
    have "((cal_day gl - 719162) * 86400 + ?c gl) * 1000000 + tm_usec gl = (s + off s) * 1000000"
      using l1(3) by (simp add: local_usec_eq)
    moreover have "0 \<le> tm_usec gl" "tm_usec gl < 1000000" using l1(2) by (simp_all add: normal_def)
    ultimately show ?thesis by (metis add.right_neutral div_lin dvd_refl le_numeral_extra(3) zero_less_numeral)
  qed
  note cb = clock_bounds [OF g(1)] clock_bounds [OF l1(2)] clock_bounds [OF l0(2)]
  have dd: "off s = (cal_day gl - cal_day g) * 86400 + (?c gl - ?c g)" using sg(2) sl by (simp add: algebra_simps)
  have "\<bar>cal_day gl - cal_day g\<bar> \<le> 1"
  proof -
    have "(cal_day gl - cal_day g) * 86400 < 2 * 86400" "- 2 * 86400 < (cal_day gl - cal_day g) * 86400"
      using dd l1(4) cb by linarith+
    then show ?thesis by simp
  qed
  then have wd: "(let d = i32 (tm_wday gl - tm_wday g) in if d = -6 then 1 else if d = 6 then -1 else d) = cal_day gl - cal_day g"
    using day_diff_wday g(1) l1(2) by (simp add: normal_iff)
  have new: "i32 (tm_sec gl - tm_sec g + 60 * (tm_min gl - tm_min g) + 3600 * (tm_hour gl - tm_hour g)
      + 86400 * (cal_day gl - cal_day g)) = off s"
  proof -
    have "tm_sec gl - tm_sec g + 60 * (tm_min gl - tm_min g) + 3600 * (tm_hour gl - tm_hour g)
      + 86400 * (cal_day gl - cal_day g) = off s" using dd by (simp add: algebra_simps)
    then show ?thesis using l1(4) by (simp add: i32_id abs_less_iff)
  qed
  define o2 where "o2 = i32 (tm_sec g0 + 60 * tm_min g0 + 3600 * tm_hour g0 + 86400 * i32 (tm_mday g0 - 2))"
  have md: "1 \<le> tm_mday g0" "tm_mday g0 \<le> 31" using l0(2) cal_ok_bounds [of g0] by (simp_all add: normal_iff)
  have "o2 = tm_sec g0 + 60 * tm_min g0 + 3600 * tm_hour g0 + 86400 * (tm_mday g0 - 2)"
    unfolding o2_def using md cb(5,6) by (simp add: i32_id)
  then have o2: "- 100000 \<le> o2" "o2 \<le> 3000000" using md cb(5,6) by simp_all
  have imp: "PR_ImplodeTime g = Some (local_usec g)"
    using s(2,3) sg(1) g(1) by (intro Implode_normal [OF g]) (simp_all add: normal_def time_min_def time_max_def)
  have ls: "local_secs (local_usec g) = s"
  proof -
    have "0 \<le> tm_usec g" "tm_usec g < 1000000" using g(1) by (simp_all add: normal_def)
    then have "\<bar>local_usec g\<bar> \<le> 1000000000000000000" using s(2,3) unfolding sg(1) by linarith
    then show ?thesis unfolding s(1) by (rule local_secs_floor)
  qed
  have run: "PR_LocalTimeParameters localtime g = Some
      (if dl \<le> 0 then \<lparr>tp_gmt_offset = off s, tp_dst_offset = 0\<rparr>
       else if d0 \<le> 0 then \<lparr>tp_gmt_offset = o2, tp_dst_offset = i32 (off s - o2)\<rparr>
       else \<lparr>tp_gmt_offset = i32 (off s - 3600), tp_dst_offset = 3600\<rparr>)"
    unfolding PR_LocalTimeParameters_def l0(1) bind.bind_lunit imp ls
    using s(2,3) new wd by (simp add: Let_def l1(1) ct_of_def o2_def [symmetric])
  have "i32 (off s - o2) = off s - o2" "i32 (off s - 3600) = off s - 3600"
    using o2 l1(4) by (simp_all add: i32_id abs_less_iff)
  then show ?thesis using run by auto
qed

section \<open>Properties\<close>

section \<open>The local time zone\<close>

lemma ApplySec_total:
  assumes "0 \<le> tm_month t" "tm_month t \<le> 11"
  shows "\<exists>r. ApplySecOffset t off = Some r"
proof -
  have p: "\<exists>r. prev_day u = Some r" if "tm_month u = tm_month t" for u
  proof -
    have "i32 (tm_month u - 1) = tm_month u - 1" using assms that by (intro i32_id) simp_all
    then show ?thesis using assms that
      by (auto simp: prev_day_def Let_def aref_nDays)
  qed
  have n: "\<exists>r. next_day u = Some r" if "tm_month u = tm_month t" for u
    using assms that by (simp add: next_day_def Let_def aref_nDays)
  obtain s m where c1: "carry 60 (i32 (tm_sec t + off)) (tm_min t) = (s, m)" by force
  obtain m' h where c2: "carry 60 m (tm_hour t) = (m', h)" by force
  show ?thesis unfolding ApplySecOffset_def Let_def c1 c2 prod.case using p n by simp
qed

text \<open>The first day after the last year that a \<open>PRInt16\<close> can hold: the year wraps around, and nothing worse happens.\<close>

lemma ComputeGMT_after:
  assumes "time_max \<le> time" "time < time_max + 86400000000"
  shows "\<exists>g. ComputeGMT time = Some g \<and> tm_month g = 0"
proof -
  define sec usec where "sec = time div 1000000" and "usec = time mod 1000000"
  have su: "time = 1000000 * sec + usec" "0 \<le> usec" "usec < 1000000"
    using split_div [of 1000000 time] by (simp_all add: sec_def usec_def)
  define rem where "rem = sec mod 86400"
  have sb: "971890963200 \<le> sec" "sec < 971890963200 + 86400" using assms su unfolding time_max_def by linarith+
  have sp: "sec = 86400 * (sec div 86400) + rem" "0 \<le> rem" "rem < 86400"
    using split_div [of 86400 sec] by (simp_all add: rem_def)
  have D: "sec div 86400 = 11248738" using sb sp by linarith
  have dr: "sec = 86400 * 11248738 + rem" "0 \<le> rem" "rem < 86400" using sp unfolding D by blast+
  have e: "time sdiv 1000000 = sec" "time smod 1000000 = usec" "sec sdiv 86400 = 11248738" "sec smod 86400 = rem"
    using assms(1) sb(1) D by (simp_all add: time_max_def sdiv_nonneg smod_nonneg sec_def [symmetric] usec_def [symmetric] rem_def [symmetric])
  have "year_of_days (i32 (i32 11248738 + 719162)) = (-32768, 0)" by code_simp
  moreover have "month_loop 0 (tl (lastDayOfMonth l)) 1 = Some 1" for l by (simp add: lastDayOfMonth_def)
  moreover have "aref (lastDayOfMonth l) 0 = Some (-1)" for l by (simp add: aref_def rd_def lastDayOfMonth_def)
  ultimately show ?thesis using su(2,3) dr(2,3)
    by (simp add: ComputeGMT_def Let_def e i32_id)
qed

lemma Explode_local_total:
  assumes "localtime 86400 \<noteq> None" "- 86400000000 \<le> time" "time < time_max + 86400000000"
  shows "\<exists>r. PR_ExplodeTime time (PR_LocalTimeParameters localtime) = Some r"
proof -
  obtain g where g: "ComputeGMT time = Some g" "0 \<le> tm_month g" "tm_month g \<le> 11"
  proof (cases "time < time_max")
    case True
    have "time_min \<le> time" using assms(2) by (simp add: time_min_def)
    then show ?thesis using that ComputeGMT_ok [OF _ True] by (auto simp: normal_def date_ok_def)
  next
    case False
    then show ?thesis using that ComputeGMT_after [of time] assms(3) by auto
  qed
  obtain lt0 where "localtime 86400 = Some lt0" using assms(1) by blast
  moreover obtain x where "PR_ImplodeTime g = Some x" using Implode_total by blast
  ultimately have "\<exists>p. PR_LocalTimeParameters localtime g = Some p"
    by (cases "localtime (local_secs x)") (simp_all add: PR_LocalTimeParameters_def Let_def)
  then obtain p where "PR_LocalTimeParameters localtime g = Some p" by blast
  then show ?thesis using g ApplySec_total [of "g\<lparr>tm_params := p\<rparr>"] by (simp add: PR_ExplodeTime_def)
qed

text \<open>What the parser relies on: \<open>localtime\<close> knows January 2, 1970, and \<open>mktime\<close>, applied to a date and a clock of the years
  1970 to 32767, fails or returns a number of seconds that lies within a day of these years.\<close>

definition c_library_ok :: "localtime_fn \<Rightarrow> mktime_fn \<Rightarrow> bool" where
  "c_library_ok localtime mktime \<longleftrightarrow> localtime 86400 \<noteq> None \<and>
     (\<forall>m. 0 \<le> ct_sec m \<and> ct_sec m < 60 \<and> 0 \<le> ct_min m \<and> ct_min m < 60 \<and> 0 \<le> ct_hour m \<and> ct_hour m < 24 \<and>
          1 \<le> ct_mday m \<and> ct_mday m \<le> 31 \<and> 0 \<le> ct_mon m \<and> ct_mon m \<le> 11 \<and> 70 \<le> ct_year m \<and> ct_year m \<le> 30867 \<longrightarrow>
        mktime m = -1 \<or> -86400 \<le> mktime m \<and> mktime m < time_max div 1000000 + 86400)"

lemma local_result_total:
  assumes "c_library_ok localtime mktime" "clock_ok r" "tm_year r \<le> 32767"
  shows "\<exists>r'. local_result localtime mktime st r = Some r'"
proof -
  let ?m = "\<lparr>ct_sec = tm_sec r, ct_min = tm_min r, ct_hour = tm_hour r, ct_mday = tm_mday r, ct_mon = tm_month r,
    ct_year = tm_year r - 1900, ct_wday = 0, ct_yday = 0, ct_isdst = -1\<rparr>"
  obtain lt0 where l: "localtime 86400 = Some lt0" using assms(1) by (auto simp: c_library_ok_def)
  show ?thesis
  proof (cases "1970 \<le> tm_year r \<and> mktime ?m \<noteq> -1")
    case False
    then show ?thesis using l by (auto simp: local_result_def Let_def)
  next
    case True
    have "mktime ?m = -1 \<or> -86400 \<le> mktime ?m \<and> mktime ?m < time_max div 1000000 + 86400"
      using assms True unfolding c_library_ok_def clock_ok_def by (elim conjE allE [of _ ?m]) simp
    then have b: "-86400 \<le> mktime ?m" "mktime ?m < 971890963200 + 86400" using True by (simp_all add: time_max_def)
    then have "i64 (mktime ?m * 1000000) = mktime ?m * 1000000" by (intro i64_id) simp_all
    then show ?thesis using True b Explode_local_total [of localtime "mktime ?m * 1000000"] l
      by (simp add: local_result_def Let_def time_max_def)
  qed
qed

text \<open>C12: \<open>PR_ParseTimeString\<close> on any NUL-terminated string, whether times without a zone are taken as GMT or as local
  time: it reads nothing past the terminator, ends (its loop stops after at most 1001 tokens), and returns a time or the
  failure status. For local times \<open>localtime\<close> must know the second day of 1970, and what \<open>mktime\<close> returns for a date of the
  years 1970 to 32767 must lie within a day of them; with GMT nothing is asked of the C library.\<close>

theorem parse_time_total:
  assumes "has_nul string" "default_to_gmt \<or> c_library_ok localtime mktime"
  shows "\<exists>r. PR_ParseTimeString localtime mktime string default_to_gmt = Some r"
proof -
  have "zone_ok parse_init" by (simp add: zone_ok_def parse_init_def)
  then have "wpx (parse_loop 1001 string parse_init 0) (\<lambda>r. case r of None \<Rightarrow> True | Some st \<Rightarrow> zone_ok st)"
    by (intro wpx_parse_loop [OF assms(1)]) simp_all
  then obtain loop where l: "parse_loop 1001 string parse_init 0 = Some loop" "\<forall>st. loop = Some st \<longrightarrow> zone_ok st"
    by (auto simp: wpx_def split: option.splits)
  have "\<exists>r. PR_ParseTimeStringToExplodedTime localtime mktime string default_to_gmt = Some r"
  proof (cases loop)
    case None
    then show ?thesis using l(1) by (simp add: PR_ParseTimeStringToExplodedTime_def)
  next
    case (Some st)
    define st' where "st' = (if ps_zone st \<noteq> TT_UNKNOWN \<and> ps_zone_offset st = -1 then zone_table st else st)"
    have z: "ps_zone st' = ps_zone st" by (simp add: st'_def zone_table_def Let_def)
    have "ps_zone st \<noteq> TT_UNKNOWN \<longrightarrow> ps_zone_offset st' \<noteq> -1"
      using zone_table_sets [of st] l(2) Some by (auto simp: st'_def TT_UNKNOWN_def)
    then have zo: "default_to_gmt \<longrightarrow> (if ps_zone st' = TT_UNKNOWN \<and> default_to_gmt then 0 else ps_zone_offset st') \<noteq> -1"
      using z by simp
    have "tm_year (parsed_fields st') \<le> 32767" using i16_le by (simp add: parsed_fields_def)
    then obtain g where g: "PR_NormalizeTime (parsed_fields st') PR_GMTParameters = Some g" "clock_ok g" "tm_year g \<le> 32767"
      using Normalize_clock by blast
    have loc: "\<exists>r'. local_result localtime mktime st' g = Some r'" if "\<not> default_to_gmt"
      using local_result_total [OF _ g(2,3)] assms(2) that by blast
    show ?thesis
      using l(1) Some g(1) zo loc
      by (cases default_to_gmt) (auto simp: PR_ParseTimeStringToExplodedTime_def Let_def st'_def [symmetric])
  qed
  then show ?thesis using Implode_total
    by (auto simp: PR_ParseTimeString_def split: option.splits) (metis not_Some_eq option.simps(5) bind.bind_lunit)
qed

text \<open>A C library whose local time is GMT at the beginning of 1970\<close>

theorem parse_time_total_witness:
  "\<exists>r. PR_ParseTimeString
      (\<lambda>_. Some \<lparr>ct_sec = 0, ct_min = 0, ct_hour = 0, ct_mday = 2, ct_mon = 0, ct_year = 70, ct_wday = 5, ct_yday = 1, ct_isdst = 0\<rparr>)
      (\<lambda>m. 86400 * (ct_year m - 70)) (bytes_of ''06/21/1995 04:24'' @ [0]) False = Some r"
  by (rule parse_time_total) (simp_all add: has_nul_def c_library_ok_def time_max_def)

definition parse_gmt :: "string \<Rightarrow> int option exec" where
  "parse_gmt s = PR_ParseTimeString (\<lambda>_. None) (\<lambda>_. -1) (bytes_of s @ [0]) True"

text \<open>The formats that the comment above the parser documents, each parsed to the moment it means (the
  fifteen examples of that comment, times without a zone taken as GMT).\<close>

theorem parse_documented_formats:
  "map parse_gmt
     [''14 Apr 89 03:20:12'', ''14 Apr 89 03:20 GMT'', ''Fri, 17 Mar 89 4:01:33'', ''Fri, 17 Mar 89 4:01 GMT'',
      ''Mon Jan 16 16:12 PDT 1989'', ''Mon Jan 16 16:12 +0130 1989'', ''6 May 1992 16:41-JST (Wednesday)'',
      ''22-AUG-1993 10:59:12.82'', ''22-AUG-1993 10:59pm'', ''22-AUG-1993 12:59am'', ''22-AUG-1993 12:59 PM'',
      ''Friday, August 04, 1995 3:54 PM'', ''06/21/95 04:24:34 PM'', ''20/06/95 21:07'', ''95-06-08 19:32:48 EDT''] =
   map (\<lambda>s. Some (Some (s * 1000000)))
     [608527212, 608527200, 606110493, 606110460, 600995520, 600964920, 705138060, 746017152, 746060340,
      745981140, 746024340, 807551640, 803751874, 803682420, 802654368]"
  by code_simp

text \<open>Two inputs that are misread. A zone offset of minus one minute has the value the code uses for
  \<^emph>\<open>no offset seen\<close>, so it is dropped and the time taken as GMT; and a numeric date whose month is zero is
  not rejected but read as December of the year before.\<close>

theorem parse_misreadings:
  "parse_gmt ''1 Jan 1990 00:00 -0001'' = parse_gmt ''1 Jan 1990 00:00 GMT'' \<and>
   parse_gmt ''1 Jan 1990 00:00 -0002'' = Some (Some (631152120 * 1000000)) \<and>
   parse_gmt ''13/0/95'' = parse_gmt ''13 Dec 1994''"
  by code_simp

text \<open>\<open>PR_LocalTimeParameters\<close>, which reconstructs the zone from two calls of \<open>localtime\<close> and compares
  only clock and day of the week: over a \<open>localtime\<close> that does what the C standard says, for every normal GMT time
  whose seconds fit 32 bits the two offsets it returns add up to the true offset of local time at that moment.\<close>

theorem local_offset_correct:
  assumes "localtime_ok localtime off" and "normal g" and "tm_params g = zero_params"
    and "s = local_usec g div 1000000" and "- 2147483648 \<le> s" and "s \<le> 2147483647"
  shows "\<exists>p. PR_LocalTimeParameters localtime g = Some p \<and> tp_gmt_offset p + tp_dst_offset p = off s"
  by (rule LocalTime_ok [OF assms])

text \<open>A \<open>localtime\<close> for a place five and a half hours ahead of GMT.\<close>

definition kolkata :: localtime_fn where
  "kolkata s = (case ComputeGMT ((s + 19800) * 1000000) of None \<Rightarrow> None | Some g \<Rightarrow> Some (ct_of g 0))"

lemma kolkata_ok: "localtime_ok kolkata (\<lambda>_. 19800)"
  unfolding localtime_ok_def
proof (intro allI)
  fix s :: int
  show "\<exists>g d. - 2147483648 \<le> s \<and> s \<le> 2147483647 \<longrightarrow> kolkata s = Some (ct_of g d) \<and> normal g \<and>
      local_usec g = (s + 19800) * 1000000 \<and> \<bar>19800 :: int\<bar> < 86400"
  proof (cases "- 2147483648 \<le> s \<and> s \<le> 2147483647")
    case True
    then obtain g where "ComputeGMT ((s + 19800) * 1000000) = Some g" "normal g" "local_usec g = (s + 19800) * 1000000"
      using ComputeGMT_ok [of "(s + 19800) * 1000000"] by (auto simp: time_min_def time_max_def)
    then show ?thesis by (intro exI [of _ g] exI [of _ 0]) (simp add: kolkata_def)
  qed blast
qed

theorem local_offset_correct_witness:
  "\<exists>p. PR_LocalTimeParameters kolkata leap_day = Some p \<and> tp_gmt_offset p + tp_dst_offset p = 19800"
  by (rule local_offset_correct [OF kolkata_ok leap_day_ok(1) _ refl])
    (use leap_day_ok(2) in \<open>simp_all add: leap_day_def\<close>)

end
