(* ===== verification/Moz_Strings.thy ===== *)
theory Moz_Strings
  imports Moz_Prelude
begin

text \<open>
  The string library of \<open>src/nsprpub/lib/libc/src/str*.c\<close>.

  A \<open>const char *\<close> argument is a \<open>cptr\<close>: null, or an address together with the bytes of its object
  from there on. A \<open>char *\<close> that is written through is a \<open>dptr\<close>: null, or an object and an offset into
  it. Functions that return a pointer into an argument return the offset, and functions that write
  return the changed object too. An execution that leaves an object, or that \<open>PR_Assert\<close> aborts, is
  \<open>None\<close>. A loop counter that counts a \<open>PRUint32\<close> down to zero is a natural number; loops that run
  backwards stop when the offset reaches the start of the string.
\<close>

type_synonym cptr = "(uword \<times> buf) ptr"
type_synonym dptr = "(buf \<times> nat) ptr"

definition offset :: "cptr \<Rightarrow> nat \<Rightarrow> cptr" where
  "offset p i = map_option (\<lambda>(a, b). (a + word_of_nat i, drop i b)) p"

definition address :: "cptr \<Rightarrow> uword" where
  "address p = (case p of None \<Rightarrow> 0 | Some (a, b) \<Rightarrow> a)"

section \<open>The C library functions the sources call\<close>

definition c_strcpy :: "buf \<Rightarrow> nat \<Rightarrow> buf \<Rightarrow> buf exec" where
  "c_strcpy dest d src =
     do { n \<leftarrow> c_strlen src;
          if d + n + 1 \<le> length dest then Some (overlay dest d (take (n + 1) src)) else None }"

definition c_strcat :: "buf \<Rightarrow> nat \<Rightarrow> buf \<Rightarrow> buf exec" where
  "c_strcat dest d src = do { k \<leftarrow> c_strlen (drop d dest); c_strcpy dest (d + k) src }"

fun c_strncmp :: "buf \<Rightarrow> buf \<Rightarrow> nat \<Rightarrow> int exec" where
  "c_strncmp a b 0 = Some 0"
| "c_strncmp (x # xs) (y # ys) (Suc n) =
     (if x = y then if x = 0 then Some 0 else c_strncmp xs ys n
      else Some (int (unat x) - int (unat y)))"
| "c_strncmp a b (Suc n) = None"

definition c_strcmpx :: "buf \<Rightarrow> buf \<Rightarrow> int exec" where
  "c_strcmpx a b = (if has_nul a \<and> has_nul b then Some (c_strcmp a b) else None)"

definition first_index :: "(nat \<Rightarrow> bool) \<Rightarrow> nat \<Rightarrow> nat ptr" where
  "first_index P n = find P [0..<n]"

definition last_index :: "(nat \<Rightarrow> bool) \<Rightarrow> nat \<Rightarrow> nat ptr" where
  "last_index P n = find P (rev [0..<n])"

definition c_strchr :: "buf \<Rightarrow> byte \<Rightarrow> nat ptr exec" where
  "c_strchr s c = do { n \<leftarrow> c_strlen s; Some (first_index (\<lambda>i. s ! i = c) (Suc n)) }"

definition c_strrchr :: "buf \<Rightarrow> byte \<Rightarrow> nat ptr exec" where
  "c_strrchr s c = do { n \<leftarrow> c_strlen s; Some (last_index (\<lambda>i. s ! i = c) (Suc n)) }"

definition c_strpbrk :: "buf \<Rightarrow> buf \<Rightarrow> nat ptr exec" where
  "c_strpbrk s l =
     do { n \<leftarrow> c_strlen s; k \<leftarrow> c_strlen l; Some (first_index (\<lambda>i. s ! i \<in> set (take k l)) n) }"

definition c_strstr :: "buf \<Rightarrow> buf \<Rightarrow> nat ptr exec" where
  "c_strstr big little =
     do { n \<leftarrow> c_strlen big; k \<leftarrow> c_strlen little;
          Some (first_index (\<lambda>i. take k (drop i (take n big)) = take k little) (Suc n)) }"

section \<open>Lengths (strlen.c)\<close>

definition PL_strlen :: "cptr \<Rightarrow> u32 exec" where
  "PL_strlen str = (case str of None \<Rightarrow> Some 0 | Some (_, s) \<Rightarrow>
     do { l \<leftarrow> c_strlen s; if l > 2147483647 then None else Some (word_of_nat l) })"

text \<open>\<open>for( ; max && *s; s++, max-- );\<close> with the end values of \<open>s\<close> and \<open>max\<close>\<close>

fun scan_n :: "buf \<Rightarrow> nat \<Rightarrow> nat \<Rightarrow> (nat \<times> nat) exec" where
  "scan_n b s 0 = Some (s, 0)"
| "scan_n b s (Suc n) = do { c \<leftarrow> rd b s; if c = 0 then Some (s, Suc n) else scan_n b (Suc s) n }"

definition PL_strnlen :: "cptr \<Rightarrow> u32 \<Rightarrow> u32 exec" where
  "PL_strnlen str n = (case str of None \<Rightarrow> Some 0 | Some (_, b) \<Rightarrow>
     do { (s, _) \<leftarrow> scan_n b 0 (unat n); Some (word_of_nat s) })"

section \<open>Copying (strcpy.c, strdup.c, strcat.c)\<close>

definition PL_strcpy :: "dptr \<Rightarrow> cptr \<Rightarrow> (nat ptr \<times> buf ptr) exec" where
  "PL_strcpy dest src = (case dest of None \<Rightarrow> Some (None, None) | Some (d, i) \<Rightarrow>
     (case src of None \<Rightarrow> Some (None, Some d) | Some (_, s) \<Rightarrow>
        do { d \<leftarrow> c_strcpy d i s; Some (Some i, Some d) }))"

text \<open>\<open>for( ; max && ((*dest = *src) != 0); dest++, src++, max-- );\<close>\<close>

fun copy_n :: "buf \<Rightarrow> nat \<Rightarrow> buf \<Rightarrow> nat \<Rightarrow> nat \<Rightarrow> (buf \<times> nat) exec" where
  "copy_n dest d src s 0 = Some (dest, d)"
| "copy_n dest d src s (Suc n) =
     do { c \<leftarrow> rd src s;
          dest \<leftarrow> wr dest d c;
          if c = 0 then Some (dest, d) else copy_n dest (Suc d) src (Suc s) n }"

definition PL_strncpy :: "dptr \<Rightarrow> cptr \<Rightarrow> u32 \<Rightarrow> (nat ptr \<times> buf ptr) exec" where
  "PL_strncpy dest src n = (case dest of None \<Rightarrow> Some (None, None) | Some (d, i) \<Rightarrow>
     (case src of None \<Rightarrow> Some (None, Some d) | Some (_, s) \<Rightarrow>
        do { (d, _) \<leftarrow> copy_n d i s 0 (unat n); Some (Some i, Some d) }))"

definition PL_strncpyz :: "dptr \<Rightarrow> cptr \<Rightarrow> u32 \<Rightarrow> (nat ptr \<times> buf ptr) exec" where
  "PL_strncpyz dest src n = (case dest of None \<Rightarrow> Some (None, None) | Some (d, i) \<Rightarrow>
     (case src of None \<Rightarrow> Some (None, Some d) | Some (_, s) \<Rightarrow>
        if n = 0 then Some (None, Some d)
        else do { (d, e) \<leftarrow> copy_n d i s 0 (unat (n - 1));
                  d \<leftarrow> wr d e 0;
                  Some (Some i, Some d) }))"

text \<open>A null argument is replaced by the literal \<open>""\<close>; the address of that literal is not used.\<close>

definition or_empty :: "cptr \<Rightarrow> buf" where
  "or_empty s = (case s of None \<Rightarrow> [0] | Some (_, b) \<Rightarrow> b)"

definition PL_strdup :: "(nat \<Rightarrow> buf ptr) \<Rightarrow> cptr \<Rightarrow> buf ptr exec" where
  "PL_strdup malloc p =
     do { let s = or_empty p;
          l \<leftarrow> c_strlen s;
          let n = l + 1;
          case malloc n of
            None \<Rightarrow> Some None
          | Some rv \<Rightarrow> Some (Some (overlay rv 0 (take n s))) }"

definition PL_strndup :: "(nat \<Rightarrow> buf ptr) \<Rightarrow> cptr \<Rightarrow> u32 \<Rightarrow> buf ptr exec" where
  "PL_strndup malloc p n =
     do { let s = or_empty p;
          len \<leftarrow> PL_strnlen (Some (address p, s)) n;
          let l = unat len;
          case malloc (l + 1) of
            None \<Rightarrow> Some None
          | Some rv \<Rightarrow> do { rv \<leftarrow> wr (overlay rv 0 (take l s)) l 0; Some (Some rv) } }"

definition PL_strcat :: "dptr \<Rightarrow> cptr \<Rightarrow> (nat ptr \<times> buf ptr) exec" where
  "PL_strcat dest src = (case dest of None \<Rightarrow> Some (None, None) | Some (d, i) \<Rightarrow>
     (case src of None \<Rightarrow> Some (Some i, Some d) | Some (_, s) \<Rightarrow>
        do { d \<leftarrow> c_strcat d i s; Some (Some i, Some d) }))"

definition PL_strncat :: "dptr \<Rightarrow> cptr \<Rightarrow> u32 \<Rightarrow> (nat ptr \<times> buf ptr) exec" where
  "PL_strncat dest src n = (case dest of None \<Rightarrow> Some (None, None) | Some (d, i) \<Rightarrow>
     if src = None \<or> n = 0 then Some (Some i, Some d)
     else do { e \<leftarrow> skip_while (\<lambda>c. c \<noteq> 0) d i;
               (_, d') \<leftarrow> PL_strncpy (Some (d, e)) src n;
               Some (Some i, d') })"

definition PL_strcatn :: "dptr \<Rightarrow> u32 \<Rightarrow> cptr \<Rightarrow> (nat ptr \<times> buf ptr) exec" where
  "PL_strcatn dest n src = (case dest of None \<Rightarrow> Some (None, None) | Some (d, i) \<Rightarrow>
     if src = None then Some (Some i, Some d)
     else do { e \<leftarrow> skip_while (\<lambda>c. c \<noteq> 0) d i;
               let dl = (word_of_nat (e - i) :: u32);
               if n \<le> dl then Some (Some i, Some d)
               else do { (_, d') \<leftarrow> PL_strncpyz (Some (d, e)) src (n - dl);
                         Some (Some i, d') } })"

section \<open>Comparing (strcmp.c, strcase.c)\<close>

text \<open>\<open>(PRIntn)(a-b)\<close>: the difference of the addresses, cut to 32 bits.\<close>

definition null_order :: "cptr \<Rightarrow> cptr \<Rightarrow> int" where
  "null_order a b = i32 (sint (address a - address b))"

definition PL_strcmp :: "cptr \<Rightarrow> cptr \<Rightarrow> int exec" where
  "PL_strcmp a b = (case (a, b) of
     (Some (_, x), Some (_, y)) \<Rightarrow> c_strcmpx x y
   | _ \<Rightarrow> Some (null_order a b))"

definition PL_strncmp :: "cptr \<Rightarrow> cptr \<Rightarrow> u32 \<Rightarrow> int exec" where
  "PL_strncmp a b n = (case (a, b) of
     (Some (_, x), Some (_, y)) \<Rightarrow> c_strncmp x y (unat n)
   | _ \<Rightarrow> Some (null_order a b))"

definition uc :: "byte list" where
  "uc =
   [0, 1, 2, 3, 4, 5, 6, 7, 8, 9, 10, 11, 12, 13, 14, 15, 16, 17, 18, 19, 20, 21, 22, 23, 24, 25, 26, 27, 28, 29, 30, 31,
    32, 33, 34, 35, 36, 37, 38, 39, 40, 41, 42, 43, 44, 45, 46, 47, 48, 49, 50, 51, 52, 53, 54, 55, 56, 57, 58, 59, 60, 61, 62, 63,
    64, 65, 66, 67, 68, 69, 70, 71, 72, 73, 74, 75, 76, 77, 78, 79, 80, 81, 82, 83, 84, 85, 86, 87, 88, 89, 90, 91, 92, 93, 94, 95,
    96, 65, 66, 67, 68, 69, 70, 71, 72, 73, 74, 75, 76, 77, 78, 79, 80, 81, 82, 83, 84, 85, 86, 87, 88, 89, 90, 123, 124, 125, 126, 127,
    128, 129, 130, 131, 132, 133, 134, 135, 136, 137, 138, 139, 140, 141, 142, 143, 144, 145, 146, 147, 148, 149, 150, 151, 152, 153, 154, 155, 156, 157, 158, 159,
    160, 161, 162, 163, 164, 165, 166, 167, 168, 169, 170, 171, 172, 173, 174, 175, 176, 177, 178, 179, 180, 181, 182, 183, 184, 185, 186, 187, 188, 189, 190, 191,
    192, 193, 194, 195, 196, 197, 198, 199, 200, 201, 202, 203, 204, 205, 206, 207, 208, 209, 210, 211, 212, 213, 214, 215, 216, 217, 218, 219, 220, 221, 222, 223,
    224, 225, 226, 227, 228, 229, 230, 231, 232, 233, 234, 235, 236, 237, 238, 239, 240, 241, 242, 243, 244, 245, 246, 247, 248, 249, 250, 251, 252, 253, 254, 255]"

definition uc_at :: "byte \<Rightarrow> byte exec" where
  "uc_at c = rd uc (unat c)"

function casecmp :: "buf \<Rightarrow> buf \<Rightarrow> int exec" where
  "casecmp a b =
     do { x \<leftarrow> rd a 0; y \<leftarrow> rd b 0;
          ux \<leftarrow> uc_at x; uy \<leftarrow> uc_at y;
          if ux = uy \<and> x \<noteq> 0 then casecmp (tl a) (tl b)
          else Some (int (unat ux) - int (unat uy)) }"
  by pat_completeness auto
termination by (relation "measure (\<lambda>(a, b). length a)") (auto simp: rd_eq_Some)

declare casecmp.simps [simp del]

definition PL_strcasecmp :: "cptr \<Rightarrow> cptr \<Rightarrow> int exec" where
  "PL_strcasecmp a b = (case (a, b) of
     (Some (_, x), Some (_, y)) \<Rightarrow> casecmp x y
   | _ \<Rightarrow> Some (null_order a b))"

fun casecmp_n :: "buf \<Rightarrow> buf \<Rightarrow> nat \<Rightarrow> int exec" where
  "casecmp_n a b 0 = Some 0"
| "casecmp_n a b (Suc n) =
     do { x \<leftarrow> rd a 0; y \<leftarrow> rd b 0;
          ux \<leftarrow> uc_at x; uy \<leftarrow> uc_at y;
          if ux = uy \<and> x \<noteq> 0 then casecmp_n (tl a) (tl b) n
          else Some (int (unat ux) - int (unat uy)) }"

definition PL_strncasecmp :: "cptr \<Rightarrow> cptr \<Rightarrow> u32 \<Rightarrow> int exec" where
  "PL_strncasecmp a b n = (case (a, b) of
     (Some (_, x), Some (_, y)) \<Rightarrow> casecmp_n x y (unat n)
   | _ \<Rightarrow> Some (null_order a b))"

section \<open>Searching for a character (strchr.c, strpbrk.c)\<close>

definition PL_strchr :: "cptr \<Rightarrow> byte \<Rightarrow> nat ptr exec" where
  "PL_strchr p c = (case p of None \<Rightarrow> Some None | Some (_, s) \<Rightarrow> c_strchr s c)"

definition PL_strrchr :: "cptr \<Rightarrow> byte \<Rightarrow> nat ptr exec" where
  "PL_strrchr p c = (case p of None \<Rightarrow> Some None | Some (_, s) \<Rightarrow> c_strrchr s c)"

text \<open>\<open>for( ; n && *s; s++, n-- ) if( hit(*s) ) return s;\<close> with the values of \<open>s\<close> and \<open>n\<close> at the end when
  nothing is hit. The test may itself read memory.\<close>

fun find_n :: "(byte \<Rightarrow> bool exec) \<Rightarrow> buf \<Rightarrow> nat \<Rightarrow> nat \<Rightarrow> (nat + nat \<times> nat) exec" where
  "find_n hit b s 0 = Some (Inr (s, 0))"
| "find_n hit b s (Suc n) =
     do { c \<leftarrow> rd b s;
          if c = 0 then Some (Inr (s, Suc n))
          else do { h \<leftarrow> hit c; if h then Some (Inl s) else find_n hit b (Suc s) n } }"

text \<open>\<open>for( p--; p >= s; p-- ) if( hit(*p) ) return p;\<close> where \<open>p\<close> is the argument\<close>

fun rfind :: "(byte \<Rightarrow> bool exec) \<Rightarrow> buf \<Rightarrow> nat \<Rightarrow> nat ptr exec" where
  "rfind hit b 0 = Some None"
| "rfind hit b (Suc p) =
     do { c \<leftarrow> rd b p; h \<leftarrow> hit c; if h then Some (Some p) else rfind hit b p }"

definition PL_strnchr :: "cptr \<Rightarrow> byte \<Rightarrow> u32 \<Rightarrow> nat ptr exec" where
  "PL_strnchr q c n = (case q of None \<Rightarrow> Some None | Some (_, b) \<Rightarrow>
     do { r \<leftarrow> find_n (\<lambda>x. Some (x = c)) b 0 (unat n);
          case r of
            Inl s \<Rightarrow> Some (Some s)
          | Inr (s, k) \<Rightarrow>
              if c = 0 \<and> k > 0 then do { x \<leftarrow> rd b s; Some (if x = 0 then Some s else None) }
              else Some None })"

definition PL_strnrchr :: "cptr \<Rightarrow> byte \<Rightarrow> u32 \<Rightarrow> nat ptr exec" where
  "PL_strnrchr q c n = (case q of None \<Rightarrow> Some None | Some (_, b) \<Rightarrow>
     do { (p, k) \<leftarrow> scan_n b 0 (unat n);
          z \<leftarrow> (if c = 0 \<and> k > 0 then do { x \<leftarrow> rd b p; Some (x = 0) } else Some False);
          if z then Some (Some p) else rfind (\<lambda>x. Some (x = c)) b p })"

definition PL_strpbrk :: "cptr \<Rightarrow> cptr \<Rightarrow> nat ptr exec" where
  "PL_strpbrk s l = (case (s, l) of (Some (_, b), Some (_, ls)) \<Rightarrow> c_strpbrk b ls | _ \<Rightarrow> Some None)"

text \<open>\<open>for( p = list; *p; p++ ) if( c == *p )\<close> leave with a hit\<close>

fun in_list :: "buf \<Rightarrow> byte \<Rightarrow> bool exec" where
  "in_list [] c = None"
| "in_list (x # xs) c = (if x = 0 then Some False else if c = x then Some True else in_list xs c)"

definition PL_strprbrk :: "cptr \<Rightarrow> cptr \<Rightarrow> nat ptr exec" where
  "PL_strprbrk s l = (case (s, l) of
     (Some (_, b), Some (_, ls)) \<Rightarrow>
       do { r \<leftarrow> skip_while (\<lambda>c. c \<noteq> 0) b 0; rfind (in_list ls) b r }
   | _ \<Rightarrow> Some None)"

definition PL_strnpbrk :: "cptr \<Rightarrow> cptr \<Rightarrow> u32 \<Rightarrow> nat ptr exec" where
  "PL_strnpbrk s l n = (case (s, l) of
     (Some (_, b), Some (_, ls)) \<Rightarrow>
       do { r \<leftarrow> find_n (in_list ls) b 0 (unat n);
            Some (case r of Inl i \<Rightarrow> Some i | Inr _ \<Rightarrow> None) }
   | _ \<Rightarrow> Some None)"

definition PL_strnprbrk :: "cptr \<Rightarrow> cptr \<Rightarrow> u32 \<Rightarrow> nat ptr exec" where
  "PL_strnprbrk s l n = (case (s, l) of
     (Some (_, b), Some (_, ls)) \<Rightarrow>
       do { (r, _) \<leftarrow> scan_n b 0 (unat n); rfind (in_list ls) b r }
   | _ \<Rightarrow> Some None)"

section \<open>Searching for a string (strstr.c, strcase.c)\<close>

text \<open>The null and empty arguments every search rejects first\<close>

definition search_args :: "cptr \<Rightarrow> cptr \<Rightarrow> (uword \<times> buf \<Rightarrow> uword \<times> buf \<Rightarrow> nat ptr exec) \<Rightarrow> nat ptr exec" where
  "search_args big little k = (case (big, little) of
     (Some x, Some y) \<Rightarrow>
       do { c \<leftarrow> rd (snd x) 0;
            if c = 0 then Some None
            else do { d \<leftarrow> rd (snd y) 0; if d = 0 then Some None else k x y } }
   | _ \<Rightarrow> Some None)"

definition PL_strstr :: "cptr \<Rightarrow> cptr \<Rightarrow> nat ptr exec" where
  "PL_strstr big little = search_args big little (\<lambda>x y. c_strstr (snd x) (snd y))"

text \<open>\<open>if( *little == *p ) if( 0 == strncmp(p, little, ll) )\<close>, and
  \<open>if( 0 == PL_strncasecmp(p, little, ll) )\<close>, where \<open>p\<close> is at an offset of the big string\<close>

definition same_at :: "uword \<times> buf \<Rightarrow> uword \<times> buf \<Rightarrow> nat \<Rightarrow> nat \<Rightarrow> bool exec" where
  "same_at big little ll p =
     do { c \<leftarrow> rd (snd little) 0; d \<leftarrow> rd (snd big) p;
          if c = d then do { r \<leftarrow> c_strncmp (drop p (snd big)) (snd little) ll; Some (r = 0) }
          else Some False }"

definition casesame_at :: "uword \<times> buf \<Rightarrow> uword \<times> buf \<Rightarrow> u32 \<Rightarrow> nat \<Rightarrow> bool exec" where
  "casesame_at big little ll p =
     do { r \<leftarrow> PL_strncasecmp (offset (Some big) p) (Some little) ll; Some (r = 0) }"

text \<open>\<open>for( ; max && *big; big++, max-- ) if( same(big) ) return big;\<close> and
  \<open>for( ; p >= big; p-- ) if( same(p) ) return p;\<close>\<close>

fun search_n :: "(nat \<Rightarrow> bool exec) \<Rightarrow> buf \<Rightarrow> nat \<Rightarrow> nat \<Rightarrow> nat ptr exec" where
  "search_n same b p 0 = Some None"
| "search_n same b p (Suc n) =
     do { c \<leftarrow> rd b p;
          if c = 0 then Some None
          else do { h \<leftarrow> same p; if h then Some (Some p) else search_n same b (Suc p) n } }"

fun rsearch :: "(nat \<Rightarrow> bool exec) \<Rightarrow> nat \<Rightarrow> nat ptr exec" where
  "rsearch same p =
     do { h \<leftarrow> same p;
          if h then Some (Some p) else case p of 0 \<Rightarrow> Some None | Suc q \<Rightarrow> rsearch same q }"

declare rsearch.simps [simp del]

definition PL_strrstr :: "cptr \<Rightarrow> cptr \<Rightarrow> nat ptr exec" where
  "PL_strrstr big little = search_args big little (\<lambda>x y.
     do { ll \<leftarrow> c_strlen (snd y); bl \<leftarrow> c_strlen (snd x);
          if bl < ll then Some None else rsearch (same_at x y ll) (bl - ll) })"

definition PL_strnstr :: "cptr \<Rightarrow> cptr \<Rightarrow> u32 \<Rightarrow> nat ptr exec" where
  "PL_strnstr big little n = search_args big little (\<lambda>x y.
     do { ll \<leftarrow> c_strlen (snd y);
          if ll > unat n then Some None
          else search_n (same_at x y ll) (snd x) 0 (unat (n - word_of_nat ll + 1)) })"

definition PL_strnrstr :: "cptr \<Rightarrow> cptr \<Rightarrow> u32 \<Rightarrow> nat ptr exec" where
  "PL_strnrstr big little n = search_args big little (\<lambda>x y.
     do { ll \<leftarrow> c_strlen (snd y);
          (p, _) \<leftarrow> scan_n (snd x) 0 (unat n);
          if p < ll then Some None else rsearch (same_at x y ll) (p - ll) })"

text \<open>The unbounded forward search is \<open>for( ; *big; big++ )\<close>: the object ends before the counter does.\<close>

definition PL_strcasestr :: "cptr \<Rightarrow> cptr \<Rightarrow> nat ptr exec" where
  "PL_strcasestr big little = search_args big little (\<lambda>x y.
     do { ll \<leftarrow> c_strlen (snd y);
          search_n (casesame_at x y (word_of_nat ll)) (snd x) 0 (Suc (length (snd x))) })"

definition PL_strcaserstr :: "cptr \<Rightarrow> cptr \<Rightarrow> nat ptr exec" where
  "PL_strcaserstr big little = search_args big little (\<lambda>x y.
     do { b \<leftarrow> c_strlen (snd x); l \<leftarrow> c_strlen (snd y);
          let bl = (word_of_nat b :: u32); let ll = (word_of_nat l :: u32);
          if bl < ll then Some None else rsearch (casesame_at x y ll) (unat (bl - ll)) })"

definition PL_strncasestr :: "cptr \<Rightarrow> cptr \<Rightarrow> u32 \<Rightarrow> nat ptr exec" where
  "PL_strncasestr big little n = search_args big little (\<lambda>x y.
     do { l \<leftarrow> c_strlen (snd y);
          let ll = (word_of_nat l :: u32);
          if ll > n then Some None
          else search_n (casesame_at x y ll) (snd x) 0 (unat (n - ll + 1)) })"

definition PL_strncaserstr :: "cptr \<Rightarrow> cptr \<Rightarrow> u32 \<Rightarrow> nat ptr exec" where
  "PL_strncaserstr big little n = search_args big little (\<lambda>x y.
     do { l \<leftarrow> c_strlen (snd y);
          let ll = (word_of_nat l :: u32);
          (p, _) \<leftarrow> scan_n (snd x) 0 (unat n);
          if p < unat ll then Some None else rsearch (casesame_at x y ll) (p - unat ll) })"

section \<open>Tokens (strtok.c)\<close>

text \<open>The string that is split is one object \<open>b\<close>; \<open>s1\<close>, \<open>*lasts\<close> and the token are offsets into it.
  \<open>skip_seps\<close> and \<open>token_rest\<close> are the two loops: the second one ends at a separator (\<open>True\<close>) or at
  the terminator.\<close>

function skip_seps :: "buf \<Rightarrow> buf \<Rightarrow> nat \<Rightarrow> (nat \<times> byte) exec" where
  "skip_seps b s2 s1 =
     do { c \<leftarrow> rd b s1;
          if c = 0 then Some (s1, c)
          else do { sep \<leftarrow> in_list s2 c; if sep then skip_seps b s2 (Suc s1) else Some (s1, c) } }"
  by pat_completeness auto
termination by (relation "measure (\<lambda>(b, s2, s1). length b - s1)") (auto simp: rd_eq_Some)

function token_rest :: "buf \<Rightarrow> buf \<Rightarrow> nat \<Rightarrow> (nat \<times> bool) exec" where
  "token_rest b s2 s1 =
     do { c \<leftarrow> rd b s1;
          if c = 0 then Some (s1, False)
          else do { sep \<leftarrow> in_list s2 c; if sep then Some (s1, True) else token_rest b s2 (Suc s1) } }"
  by pat_completeness auto
termination by (relation "measure (\<lambda>(b, s2, s1). length b - s1)") (auto simp: rd_eq_Some)

declare skip_seps.simps [simp del] token_rest.simps [simp del]

definition PL_strtok_r :: "buf \<Rightarrow> nat ptr \<Rightarrow> buf \<Rightarrow> nat ptr \<Rightarrow> (nat ptr \<times> buf \<times> nat ptr) exec" where
  "PL_strtok_r b s1 s2 lasts =
     (case (case s1 of None \<Rightarrow> lasts | Some i \<Rightarrow> Some i) of
        None \<Rightarrow> Some (None, b, lasts)
      | Some i \<Rightarrow>
          do { (i, c) \<leftarrow> skip_seps b s2 i;
               if c = 0 then Some (None, b, None)
               else do { (j, sep) \<leftarrow> token_rest b s2 (Suc i);
                         if sep then do { b \<leftarrow> wr b j 0; Some (Some i, b, Some (Suc j)) }
                         else Some (Some i, b, None) } })"

text \<open>How the function is used: the first call names the string, the others pass null, until one returns
  null. The characters of each token are read off when it is returned.\<close>

fun tokens_from :: "nat \<Rightarrow> buf \<Rightarrow> nat ptr \<Rightarrow> buf \<Rightarrow> nat ptr \<Rightarrow> buf list exec" where
  "tokens_from 0 b s1 s2 lasts = None"
| "tokens_from (Suc n) b s1 s2 lasts =
     do { (tok, b, lasts) \<leftarrow> PL_strtok_r b s1 s2 lasts;
          case tok of
            None \<Rightarrow> Some []
          | Some i \<Rightarrow> do { ts \<leftarrow> tokens_from n b None s2 lasts; Some (cstr (drop i b) # ts) } }"

section \<open>First and last positions\<close>

lemma first_index_eq_Some: "first_index P n = Some i \<longleftrightarrow> i < n \<and> P i \<and> (\<forall>j<i. \<not> P j)"
  unfolding first_index_def find_Some_iff by auto

lemma first_index_eq_None: "first_index P n = None \<longleftrightarrow> (\<forall>i<n. \<not> P i)"
  unfolding first_index_def find_None_iff by auto

lemma last_index_0 [simp]: "last_index P 0 = None"
  by (simp add: last_index_def)

lemma last_index_Suc [simp]: "last_index P (Suc n) = (if P n then Some n else last_index P n)"
  by (simp add: last_index_def)

lemma last_index_eq_Some: "last_index P n = Some i \<longleftrightarrow> i < n \<and> P i \<and> (\<forall>j. i < j \<and> j < n \<longrightarrow> \<not> P j)"
  by (induction n) (auto simp: less_Suc_eq)

lemma last_index_eq_None: "last_index P n = None \<longleftrightarrow> (\<forall>i<n. \<not> P i)"
  by (induction n) (auto simp: less_Suc_eq)

lemma first_index_cong:
  assumes "m \<le> k" "\<And>i. i < m \<Longrightarrow> P i = Q i" "\<And>i. m \<le> i \<Longrightarrow> i < k \<Longrightarrow> \<not> Q i"
  shows "first_index P m = first_index Q k"
proof (cases "first_index Q k")
  case None
  then have "first_index P m = None" using assms(1,2) by (simp add: first_index_eq_None)
  then show ?thesis using None by simp
next
  case (Some i)
  then have q: "i < k" "Q i" "\<forall>j<i. \<not> Q j" by (simp_all add: first_index_eq_Some)
  then have "i < m" using assms(3) not_le by blast
  then have "first_index P m = Some i" using q assms(2) by (simp add: first_index_eq_Some)
  then show ?thesis using Some by simp
qed

lemma last_index_cong:
  assumes "m \<le> k" "\<And>i. i < m \<Longrightarrow> P i = Q i" "\<And>i. m \<le> i \<Longrightarrow> i < k \<Longrightarrow> \<not> Q i"
  shows "last_index P m = last_index Q k"
  using assms
proof (induction k)
  case (Suc k)
  show ?case
  proof (cases "m = Suc k")
    case True
    have "last_index P j = last_index Q j" if "j \<le> m" for j
      using that by (induction j) (simp_all add: Suc.prems(2))
    from this [of "Suc k"] True show ?thesis by (simp del: last_index_Suc)
  next
    case False
    then have "last_index P m = last_index Q k" using Suc by simp
    then show ?thesis using Suc.prems(1,3) False by simp
  qed
qed simp

section \<open>Bounded scans\<close>

text \<open>What a function that looks at no more than \<open>n\<close> characters needs: a terminator, or \<open>n\<close> bytes.\<close>

definition readable :: "buf \<Rightarrow> nat \<Rightarrow> bool" where
  "readable b n \<longleftrightarrow> has_nul b \<or> n \<le> length b"

lemma cstr_Nil [simp]: "cstr [] = []"
  by (simp add: cstr_def)

lemma cstr_Cons [simp]: "cstr (x # xs) = (if x = 0 then [] else x # cstr xs)"
  by (simp add: cstr_def)

lemma readable_Cons: "readable (x # xs) (Suc n) \<Longrightarrow> x \<noteq> 0 \<Longrightarrow> readable xs n"
  by (auto simp: readable_def has_nul_def)

lemma readable_Suc: "readable b (Suc n) \<Longrightarrow> \<exists>x xs. b = x # xs"
  by (cases b) (auto simp: readable_def has_nul_def)

lemma drop_nth_Cons: "drop s b = x # xs \<Longrightarrow> s < length b \<and> b ! s = x \<and> drop (Suc s) b = xs"
proof -
  assume h: "drop s b = x # xs"
  then have l: "s < length b" by (metis drop_all list.distinct(1) not_le)
  have "drop s b = b ! s # drop (Suc s) b" using l by (rule Cons_nth_drop_Suc [symmetric])
  with h l show ?thesis by simp
qed

lemma scan_n_eq:
  "readable (drop s b) n \<Longrightarrow>
   scan_n b s n = Some (s + min n (length (cstr (drop s b))), n - length (cstr (drop s b)))"
proof (induction n arbitrary: s)
  case (Suc n)
  from readable_Suc [OF Suc.prems] obtain x xs where d: "drop s b = x # xs" by blast
  note h = drop_nth_Cons [OF d]
  show ?case
  proof (cases "x = 0")
    case False
    then have "readable (drop (Suc s) b) n" using Suc.prems d h readable_Cons by metis
    then show ?thesis using Suc.IH [of "Suc s"] d h False by (simp add: rd_ok)
  qed (use d h in \<open>simp add: rd_ok\<close>)
qed simp

lemma scan_n_0: "readable b n \<Longrightarrow> scan_n b 0 n = Some (min n (length (cstr b)), n - length (cstr b))"
  using scan_n_eq [of 0 b n] by simp

lemma skip_nonzero:
  assumes "has_nul (drop i b)"
  shows "skip_while (\<lambda>c. c \<noteq> 0) b i = Some (i + length (cstr (drop i b)))"
  using assms
proof (induction "length (drop i b)" arbitrary: i)
  case 0
  then show ?case by (simp add: has_nul_def)
next
  case (Suc n)
  then obtain x xs where d: "drop i b = x # xs" by (cases "drop i b") auto
  note h = drop_nth_Cons [OF d]
  show ?case
  proof (cases "x = 0")
    case True
    then show ?thesis using d h by (simp add: skip_while.simps rd_ok)
  next
    case False
    then have "has_nul (drop (Suc i) b)" using Suc.prems d h by (auto simp: has_nul_def)
    moreover have "n = length (drop (Suc i) b)" using Suc.hyps(2) by simp
    ultimately have "skip_while (\<lambda>c. c \<noteq> 0) b (Suc i) = Some (Suc i + length (cstr (drop (Suc i) b)))"
      using Suc.hyps(1) by blast
    then show ?thesis using d h False by (simp add: skip_while.simps [of _ b i] rd_ok)
  qed
qed

lemma copy_n_eq:
  assumes "readable (drop s src) n" "d + min n (Suc (length (cstr (drop s src)))) \<le> length dest"
  shows "copy_n dest d src s n =
    Some (overlay dest d (take n (cstr (drop s src) @ [0])), d + min n (length (cstr (drop s src))))"
  using assms
proof (induction n arbitrary: s d dest)
  case (Suc n)
  from readable_Suc [OF Suc.prems(1)] obtain x xs where dr: "drop s src = x # xs" by blast
  note h = drop_nth_Cons [OF dr]
  have l: "d < length dest" using Suc.prems(2) by simp
  show ?case
  proof (cases "x = 0")
    case True
    then show ?thesis using dr h l by (simp add: rd_ok wr_ok overlay_Cons)
  next
    case False
    then have "readable (drop (Suc s) src) n" using Suc.prems(1) dr h readable_Cons by metis
    then have "copy_n (dest[d := x]) (Suc d) src (Suc s) n =
      Some (overlay (dest[d := x]) (Suc d) (take n (cstr (drop (Suc s) src) @ [0])),
            Suc d + min n (length (cstr (drop (Suc s) src))))"
      using Suc.prems(2) dr h False by (intro Suc.IH) simp_all
    then show ?thesis using dr h l False by (simp add: rd_ok wr_ok overlay_Cons)
  qed
qed simp

section \<open>Copying within bounds\<close>

lemma readable_mono: "readable b n \<Longrightarrow> m \<le> n \<Longrightarrow> readable b m"
  by (auto simp: readable_def)

lemma unat_minus_u32: "m \<le> n \<Longrightarrow> unat (n - m :: u32) = unat n - unat m"
  by (simp add: unat_sub)

lemma unat_pred_u32: "n \<noteq> 0 \<Longrightarrow> unat (n - 1 :: u32) = unat n - 1"
  using unat_minus_u32 [of 1 n] by (simp add: word_le_nat_alt Suc_le_eq unat_gt_0)

lemma overlay_keep:
  assumes "i + k \<le> length d"
  shows "overlay d (i + k) xs = overlay d i (take k (drop i d) @ xs)"
  using assms by (simp add: overlay_def take_add add.commute add.left_commute)

lemma overlay_terminate:
  assumes "length rv = Suc (length xs)"
  shows "(overlay rv 0 xs)[length xs := z] = xs @ [z]"
proof -
  have "length (drop (length xs) rv) = Suc 0" using assms by simp
  then obtain y where "drop (length xs) rv = [y]" unfolding length_Suc_conv by auto
  then show ?thesis by (simp add: overlay_def)
qed

lemma strncpyz_at:
  assumes "readable s (unat n)" "e + unat n \<le> length d" "n \<noteq> 0"
  shows "PL_strncpyz (Some (d, e)) (Some (a, s)) n =
    Some (Some e, Some (overlay d e (take (unat n - 1) (cstr s) @ [0])))"
proof -
  let ?k = "unat n - 1" and ?c = "cstr s"
  have n: "unat n = Suc ?k" using assms(3) by (simp add: unat_gt_0)
  have "copy_n d e s 0 ?k = Some (overlay d e (take ?k (?c @ [0])), e + min ?k (length ?c))"
    using copy_n_eq [of 0 s ?k e d] assms readable_mono [of s "unat n" ?k] by simp
  moreover have "wr (overlay d e (take ?k (?c @ [0]))) (e + min ?k (length ?c)) 0 =
      Some (overlay d e (take ?k ?c @ [0]))"
  proof (cases "?k \<le> length ?c")
    case True
    have l: "e + length (take ?k ?c) \<le> length d" using assms(2) n by simp
    have b: "e + ?k < length (overlay d e (take ?k ?c))"
      using assms(2) n True length_overlay [OF l] by simp
    have "overlay (overlay d e (take ?k ?c)) (e + length (take ?k ?c)) [0] =
        (overlay d e (take ?k ?c))[e + ?k := 0]"
      using overlay_Cons [OF b, of 0 "[]"] True by simp
    then have "(overlay d e (take ?k ?c))[e + ?k := 0] = overlay d e (take ?k ?c @ [0])"
      using overlay_append [OF l, of "[0]"] by simp
    then show ?thesis using b True by (simp add: wr_ok)
  next
    case False
    let ?o = "overlay d e (?c @ [0])"
    have l: "e + length (?c @ [0]) \<le> length d" using assms(2) n False by simp
    have b: "e + length ?c < length ?o" using length_overlay [OF l] l by simp
    have "?o ! (e + length ?c) = 0"
      using l by (simp add: overlay_def nth_append)
    then have "?o[e + length ?c := 0] = ?o" by (metis list_update_id)
    then show ?thesis using b False by (simp add: wr_ok)
  qed
  ultimately show ?thesis using assms(3) by (simp add: PL_strncpyz_def unat_pred_u32)
qed

text \<open>C13: The bounded copies, on a destination with \<open>n\<close> bytes at offset \<open>i\<close> and a source that is terminated or
  has \<open>n\<close> bytes, stay inside both objects and change nothing outside those \<open>n\<close> bytes: \<open>PL_strncpy\<close> writes the
  first \<open>n\<close> of the characters and the terminator, \<open>PL_strncpyz\<close> the first \<open>n - 1\<close> characters and always a
  terminator, and \<open>PL_strcatn\<close> leaves the first \<open>n - 1\<close> characters of the concatenation, terminated;
  \<open>PL_strndup\<close> returns null when \<open>malloc\<close> does and otherwise the first \<open>n\<close> characters, terminated.\<close>

theorem strings_bounded_copy:
  assumes "readable s (unat n)" "i + unat n \<le> length d" "malloc_ok malloc"
  shows "PL_strncpy (Some (d, i)) (Some (a, s)) n =
      Some (Some i, Some (overlay d i (take (unat n) (cstr s @ [0])))) \<and>
    (n \<noteq> 0 \<longrightarrow> PL_strncpyz (Some (d, i)) (Some (a, s)) n =
      Some (Some i, Some (overlay d i (take (unat n - 1) (cstr s) @ [0])))) \<and>
    (has_nul (drop i d) \<and> length (cstr (drop i d)) < unat n \<longrightarrow>
      PL_strcatn (Some (d, i)) n (Some (a, s)) =
        Some (Some i, Some (overlay d i (take (unat n - 1) (cstr (drop i d) @ cstr s) @ [0])))) \<and>
    PL_strndup malloc (Some (a, s)) n =
      Some (if malloc (min (unat n) (length (cstr s)) + 1) = None then None
            else Some (take (unat n) (cstr s) @ [0]))"
proof (intro conjI impI)
  show "PL_strncpy (Some (d, i)) (Some (a, s)) n =
      Some (Some i, Some (overlay d i (take (unat n) (cstr s @ [0]))))"
    using copy_n_eq [of 0 s "unat n" i d] assms(1,2) by (simp add: PL_strncpy_def)
next
  assume "n \<noteq> 0"
  then show "PL_strncpyz (Some (d, i)) (Some (a, s)) n =
      Some (Some i, Some (overlay d i (take (unat n - 1) (cstr s) @ [0])))"
    using strncpyz_at [OF assms(1,2)] by simp
next
  assume "has_nul (drop i d) \<and> length (cstr (drop i d)) < unat n"
  then have h: "has_nul (drop i d)" and k: "length (cstr (drop i d)) < unat n" by simp_all
  let ?k = "length (cstr (drop i d))" and ?w = "word_of_nat (length (cstr (drop i d))) :: u32"
  have w: "unat ?w = ?k" using k unat_u32_less [of n] by (intro unat_word_of_nat_u32) simp
  then have lt: "?w < n" using k by (simp add: word_less_nat_alt)
  then have nle: "\<not> n \<le> ?w" by (simp only: not_le)
  from lt have m: "unat (n - ?w) = unat n - ?k" using unat_minus_u32 [of ?w n] w by simp
  have "PL_strncpyz (Some (d, i + ?k)) (Some (a, s)) (n - ?w) =
    Some (Some (i + ?k), Some (overlay d (i + ?k) (take (unat (n - ?w) - 1) (cstr s) @ [0])))"
    using assms k m readable_mono [OF assms(1), of "unat (n - ?w)"] lt by (intro strncpyz_at) auto
  also have "overlay d (i + ?k) (take (unat (n - ?w) - 1) (cstr s) @ [0]) =
      overlay d i (cstr (drop i d) @ take (unat n - 1 - ?k) (cstr s) @ [0])"
    using overlay_keep [of i ?k d] has_nul_length [OF h] m cstr_eq_take [of "drop i d"]
    by (simp add: diff_right_commute)
  finally show "PL_strcatn (Some (d, i)) n (Some (a, s)) =
      Some (Some i, Some (overlay d i (take (unat n - 1) (cstr (drop i d) @ cstr s) @ [0])))"
    using skip_nonzero [OF h] nle k by (simp add: PL_strcatn_def Let_def)
next
  let ?l = "min (unat n) (length (cstr s))"
  have u: "unat (word_of_nat ?l :: u32) = ?l"
    using unat_u32_less [of n] by (intro unat_word_of_nat_u32) simp
  have t: "take ?l s = take (unat n) (cstr s)"
    by (subst (2) cstr_eq_take) (simp add: min_def)
  show "PL_strndup malloc (Some (a, s)) n =
    Some (if malloc (?l + 1) = None then None else Some (take (unat n) (cstr s) @ [0]))"
  proof (cases "malloc (?l + 1)")
    case None
    then show ?thesis using scan_n_0 [OF assms(1)] u
      by (simp add: PL_strndup_def PL_strnlen_def or_empty_def Let_def)
  next
    case (Some rv)
    then have rv: "length rv = Suc ?l" using assms(3) by (simp add: malloc_ok_def)
    have tl: "length (take (unat n) (cstr s)) = ?l" by (simp add: min.commute)
    have "(overlay rv 0 (take (unat n) (cstr s)))[?l := 0] = take (unat n) (cstr s) @ [0]"
      using overlay_terminate [of rv "take (unat n) (cstr s)"] rv tl by simp
    then show ?thesis using Some scan_n_0 [OF assms(1)] u rv tl t length_overlay [of 0 "take (unat n) (cstr s)" rv]
      by (simp add: PL_strndup_def PL_strnlen_def or_empty_def Let_def wr_ok)
  qed
qed

theorem strings_bounded_copy_witness:
  "PL_strncpyz (Some (bytes_of ''0123456789'', 2)) (Some (64, bytes_of ''abcdefg'' @ [0])) 5 =
     Some (Some 2, Some (bytes_of ''01abcd'' @ [0] @ bytes_of ''789''))"
proof -
  have "overlay (bytes_of ''0123456789'') 2 (take 4 (cstr (bytes_of ''abcdefg'' @ [0])) @ [0]) =
      bytes_of ''01abcd'' @ [0] @ bytes_of ''789''"
    by code_simp
  then show ?thesis
    using strings_bounded_copy [of "bytes_of ''abcdefg'' @ [0]" 5 2 "bytes_of ''0123456789''" "\<lambda>_. None" 64]
    by (simp add: malloc_ok_def readable_def has_nul_def bytes_of_def)
qed

section \<open>Searching for characters\<close>

lemma first_index_shift:
  "first_index P (Suc n) = (if P 0 then Some 0 else map_option Suc (first_index (P \<circ> Suc) n))"
proof -
  have u: "[0..<Suc n] = 0 # map Suc [0..<n]" by (simp only: upt_conv_Cons [OF zero_less_Suc] map_Suc_upt)
  have "find P (map Suc xs) = map_option Suc (find (P \<circ> Suc) xs)" for xs
    by (induction xs) auto
  then show ?thesis unfolding first_index_def u by simp
qed

text \<open>The forward loop finds the first character that is hit among the first \<open>n\<close> of the string.\<close>

lemma find_n_eq:
  assumes "readable (drop s b) n" "\<And>c. c \<noteq> 0 \<Longrightarrow> hit c = Some (Q c)"
  shows "find_n hit b s n =
    Some (case first_index (\<lambda>i. Q (cstr (drop s b) ! i)) (min n (length (cstr (drop s b)))) of
            Some i \<Rightarrow> Inl (s + i)
          | None \<Rightarrow> Inr (s + min n (length (cstr (drop s b))), n - length (cstr (drop s b))))"
  using assms(1)
proof (induction n arbitrary: s)
  case 0
  then show ?case by (simp add: first_index_def)
next
  case (Suc n)
  from readable_Suc [OF Suc.prems] obtain x xs where d: "drop s b = x # xs" by blast
  note h = drop_nth_Cons [OF d]
  show ?case
  proof (cases "x = 0")
    case True
    then show ?thesis using d h by (simp add: rd_ok first_index_def)
  next
    case False
    then have "readable (drop (Suc s) b) n" using Suc.prems d h readable_Cons by metis
    note ih = Suc.IH [OF this]
    show ?thesis using ih d h False assms(2) [OF False]
      by (simp add: rd_ok first_index_shift comp_def split: option.splits)
  qed
qed

lemma rfind_eq:
  assumes "p \<le> length b" "\<And>i. i < p \<Longrightarrow> hit (b ! i) = Some (Q (b ! i))"
  shows "rfind hit b p = Some (last_index (\<lambda>i. Q (b ! i)) p)"
  using assms by (induction p) (simp_all add: rd_ok)

lemma in_list_eq: "has_nul l \<Longrightarrow> in_list l c = Some (c \<in> set (cstr l))"
  by (induction l) (auto simp: has_nul_def)

lemma last_index_cstr: "n \<le> length (cstr b) \<Longrightarrow> last_index (\<lambda>i. Q (b ! i)) n = last_index (\<lambda>i. Q (cstr b ! i)) n"
  by (induction n) (simp_all add: cstr_nth)

lemma cstr_length_le: "length (cstr b) \<le> length b"
  by (simp add: cstr_def length_takeWhile_le)

lemma nul_at:
  assumes "readable b n" "length (cstr b) < n"
  shows "length (cstr b) < length b \<and> b ! length (cstr b) = 0"
proof -
  have "length (cstr b) < length b"
  proof (rule ccontr)
    assume "\<not> length (cstr b) < length b"
    then have "cstr b = b" by (metis cstr_def cstr_length_le linorder_not_less takeWhile_eq_take take_all)
    then have "\<not> has_nul b" by (metis cstr_def has_nul_def set_takeWhileD)
    then show False using assms \<open>cstr b = b\<close> by (simp add: readable_def)
  qed
  then show ?thesis using nth_length_takeWhile [of "\<lambda>c. c \<noteq> 0" b] by (simp add: cstr_def)
qed

text \<open>Positions in the string with its terminator\<close>

lemma find_app: "find P (xs @ ys) = (case find P xs of None \<Rightarrow> find P ys | Some x \<Rightarrow> Some x)"
  by (induction xs) simp_all

lemma nth_cstr_nonzero: "i < length (cstr s) \<Longrightarrow> cstr s ! i \<noteq> 0"
  using nth_mem [of i "cstr s"] set_takeWhileD [of "cstr s ! i" "\<lambda>c. c \<noteq> 0" s] by (simp add: cstr_def)

lemma first_index_Suc: "first_index P (Suc n) = (case first_index P n of None \<Rightarrow> if P n then Some n else None | Some i \<Rightarrow> Some i)"
  by (simp add: first_index_def find_app split: option.split)

lemma index_cong:
  "(\<And>i. i < n \<Longrightarrow> P i = Q i) \<Longrightarrow> first_index P n = first_index Q n"
  "(\<And>i. i < n \<Longrightarrow> P i = Q i) \<Longrightarrow> last_index P n = last_index Q n"
  by (auto simp: first_index_def last_index_def intro!: find_cong)

lemma index_terminated:
  fixes c :: byte
  shows "first_index (\<lambda>i. (cstr s @ [0]) ! i = c) (min n (Suc (length (cstr s)))) =
      (if c = 0 then if length (cstr s) < n then Some (length (cstr s)) else None
       else first_index (\<lambda>i. cstr s ! i = c) (min n (length (cstr s))))"
    and "last_index (\<lambda>i. (cstr s @ [0]) ! i = c) (min n (Suc (length (cstr s)))) =
      (if c = 0 then if length (cstr s) < n then Some (length (cstr s)) else None
       else last_index (\<lambda>i. cstr s ! i = c) (min n (length (cstr s))))"
proof -
  let ?l = "length (cstr s)" and ?P = "\<lambda>i. (cstr s @ [0]) ! i = c" and ?Q = "\<lambda>i. cstr s ! i = c"
  have f: "first_index ?P k = (if c = 0 then None else first_index ?Q k)" "last_index ?P k = (if c = 0 then None else last_index ?Q k)"
    if "k \<le> ?l" for k
  proof -
    have "first_index ?P k = first_index ?Q k" "last_index ?P k = last_index ?Q k"
      using that by (auto simp: nth_append intro!: index_cong)
    moreover have "first_index ?Q k = None" "last_index ?Q k = None" if "c = 0"
      using \<open>k \<le> ?l\<close> nth_cstr_nonzero that by (auto simp: first_index_def last_index_def find_None_iff)
    ultimately show "first_index ?P k = (if c = 0 then None else first_index ?Q k)"
      "last_index ?P k = (if c = 0 then None else last_index ?Q k)" by auto
  qed
  have m: "min n (Suc ?l) = Suc ?l" "min n ?l = ?l" if "?l < n" using that by auto
  have m': "min n (Suc ?l) = n" "min n ?l = n" if "\<not> ?l < n" using that by auto
  have P: "?P ?l \<longleftrightarrow> c = 0" by auto
  show "first_index ?P (min n (Suc ?l)) = (if c = 0 then if ?l < n then Some ?l else None else first_index ?Q (min n ?l))"
    using f(1) [of ?l] f(1) [of n] P by (cases "?l < n") (simp_all add: m m' first_index_Suc split: option.split)
  show "last_index ?P (min n (Suc ?l)) = (if c = 0 then if ?l < n then Some ?l else None else last_index ?Q (min n ?l))"
    using f(2) [of ?l] f(2) [of n] P by (cases "?l < n") (simp_all add: m m' last_index_Suc)
qed

text \<open>C14: The bounded character searches look only at the first \<open>n\<close> characters of a source that is terminated or
  has \<open>n\<close> bytes. \<open>PL_strnchr\<close> and \<open>PL_strnrchr\<close> return the first and the last position of the character there, where
  the terminator, if it is among them, counts as a character; \<open>PL_strnpbrk\<close> and \<open>PL_strnprbrk\<close> return the first and the
  last position of any character of the list; and all return null when there is none.\<close>

theorem strings_char_search:
  assumes "readable s (unat n)" "has_nul l"
  shows "PL_strnchr (Some (a, s)) c n =
      Some (first_index (\<lambda>i. (cstr s @ [0]) ! i = c) (min (unat n) (Suc (length (cstr s))))) \<and>
    PL_strnrchr (Some (a, s)) c n =
      Some (last_index (\<lambda>i. (cstr s @ [0]) ! i = c) (min (unat n) (Suc (length (cstr s))))) \<and>
    PL_strnpbrk (Some (a, s)) (Some (a', l)) n =
      Some (first_index (\<lambda>i. cstr s ! i \<in> set (cstr l)) (min (unat n) (length (cstr s)))) \<and>
    PL_strnprbrk (Some (a, s)) (Some (a', l)) n =
      Some (last_index (\<lambda>i. cstr s ! i \<in> set (cstr l)) (min (unat n) (length (cstr s))))"
proof -
  let ?m = "min (unat n) (length (cstr s))"
  have r: "readable (drop 0 s) (unat n)" using assms(1) by simp
  have le: "?m \<le> length s" using cstr_length_le [of s] by simp
  note lastc = last_index_cstr [of ?m s]
  have z: "rd s (length (cstr s)) = Some 0" if "length (cstr s) < unat n" using nul_at [OF assms(1) that] by (simp add: rd_ok)
  have min1: "?m = length (cstr s)" if "length (cstr s) < unat n" using that by simp
  have none: "first_index (\<lambda>i. cstr s ! i = 0) k = None" "last_index (\<lambda>i. cstr s ! i = 0) k = None" if "k \<le> length (cstr s)" for k
    using that nth_cstr_nonzero by (auto simp: first_index_def last_index_def find_None_iff)
  have 1: "PL_strnchr (Some (a, s)) c n = Some (first_index (\<lambda>i. (cstr s @ [0]) ! i = c) (min (unat n) (Suc (length (cstr s)))))"
    using find_n_eq [OF r, of "\<lambda>x. Some (x = c)" "\<lambda>x. x = c"] z min1 none [of ?m]
    unfolding index_terminated by (cases "c = 0") (auto simp: PL_strnchr_def split: option.splits)
  have 2: "PL_strnrchr (Some (a, s)) c n = Some (last_index (\<lambda>i. (cstr s @ [0]) ! i = c) (min (unat n) (Suc (length (cstr s)))))"
    using scan_n_0 [OF assms(1)] rfind_eq [OF le, of "\<lambda>x. Some (x = c)" "\<lambda>x. x = c"] lastc [of "\<lambda>x. x = c"] z min1 none [of ?m]
    unfolding index_terminated by (cases "c = 0") (auto simp: PL_strnrchr_def)
  have 3: "PL_strnpbrk (Some (a, s)) (Some (a', l)) n = Some (first_index (\<lambda>i. cstr s ! i \<in> set (cstr l)) ?m)"
    using find_n_eq [OF r, of "in_list l" "\<lambda>x. x \<in> set (cstr l)"] in_list_eq [OF assms(2)]
    by (simp add: PL_strnpbrk_def split: option.splits)
  have 4: "PL_strnprbrk (Some (a, s)) (Some (a', l)) n = Some (last_index (\<lambda>i. cstr s ! i \<in> set (cstr l)) ?m)"
    using scan_n_0 [OF assms(1)] rfind_eq [OF le, of "in_list l" "\<lambda>x. x \<in> set (cstr l)"] lastc in_list_eq [OF assms(2)]
    by (simp add: PL_strnprbrk_def)
  from 1 2 3 4 show ?thesis by blast
qed

theorem strings_char_search_witness:
  "PL_strnrchr (Some (0, bytes_of ''/usr/lib/x'')) 47 8 = Some (Some 4) \<and>
   PL_strnrchr (Some (0, bytes_of ''/usr/lib/x'')) 47 9 = Some (Some 8) \<and>
   PL_strnchr (Some (0, [47, 48, 0, 49])) 0 2 = Some None \<and> PL_strnchr (Some (0, [47, 48, 0, 49])) 0 3 = Some (Some 2)"
proof -
  have v: "last_index (\<lambda>i. (cstr (bytes_of ''/usr/lib/x'') @ [0]) ! i = 47) 8 = Some 4"
    "last_index (\<lambda>i. (cstr (bytes_of ''/usr/lib/x'') @ [0]) ! i = 47) 9 = Some 8"
    "length (cstr (bytes_of ''/usr/lib/x'')) = 10"
    "first_index (\<lambda>i. (cstr [47, 48, 0, 49 :: byte] @ [0]) ! i = 0) (Suc (Suc 0)) = None"
    "first_index (\<lambda>i. (cstr [47, 48, 0, 49 :: byte] @ [0]) ! i = 0) (Suc (Suc (Suc 0))) = Some 2" by code_simp+
  show ?thesis
    using strings_char_search [of "bytes_of ''/usr/lib/x''" 8 "[0]" 0 47 0]
      strings_char_search [of "bytes_of ''/usr/lib/x''" 9 "[0]" 0 47 0]
      strings_char_search [of "[47, 48, 0, 49]" 2 "[0]" 0 0 0] strings_char_search [of "[47, 48, 0, 49]" 3 "[0]" 0 0 0] v
    by (simp add: readable_def has_nul_def bytes_of_def)
qed

section \<open>Searching for strings\<close>

text \<open>Upper case as a formula; the table agrees with it.\<close>

definition upcase :: "byte \<Rightarrow> byte" where
  "upcase c = (if 97 \<le> c \<and> c \<le> 122 then c - 32 else c)"

lemma uc_eq: "uc = map (upcase \<circ> word_of_nat) [0..<256]"
  by code_simp

lemma uc_at_eq: "uc_at c = Some (upcase c)"
  using unat_byte_less [of c] by (simp add: uc_at_def uc_eq rd_ok)

lemma upcase_0 [simp]: "upcase c = 0 \<longleftrightarrow> c = 0"
proof -
  have "c - 32 \<noteq> 0" if "97 \<le> c" using that by auto
  then show ?thesis by (auto simp: upcase_def)
qed

lemma upcase_zero [simp]: "upcase 0 = 0" "0 = upcase c \<longleftrightarrow> c = 0"
  using upcase_0 by metis+

text \<open>\<open>occurs hay needle i\<close>: the needle stands in the hay at position \<open>i\<close>.\<close>

definition occurs :: "'a list \<Rightarrow> 'a list \<Rightarrow> nat \<Rightarrow> bool" where
  "occurs hay needle i \<longleftrightarrow> take (length needle) (drop i hay) = needle"

lemma occurs_bound: "occurs hay needle i \<Longrightarrow> needle \<noteq> [] \<Longrightarrow> i + length needle \<le> length hay"
proof -
  assume "occurs hay needle i" "needle \<noteq> []"
  then have "min (length hay - i) (length needle) = length needle" "0 < length needle"
    by (auto simp: occurs_def dest: arg_cong [where f = length])
  moreover from this(1) have "length needle \<le> length hay - i" by (metis min.cobounded1)
  ultimately show ?thesis by linarith
qed

lemma occurs_take:
  assumes "i + length needle \<le> n"
  shows "occurs (take n hay) needle i = occurs hay needle i"
  using assms by (simp add: occurs_def drop_take take_take min_def)

lemma plus_0_id: "(+) (0::nat) = (\<lambda>x. x)"
  by auto

text \<open>A comparison that decides, at a position of the big string, whether the little one stands there, up to
  a normalisation of the characters. The searches rest on this law only.\<close>

locale text_search =
  fixes same :: "uword \<times> buf \<Rightarrow> uword \<times> buf \<Rightarrow> nat \<Rightarrow> bool exec" and norm :: "byte \<Rightarrow> byte"
  assumes same_iff: "has_nul (snd x) \<Longrightarrow> has_nul (snd y) \<Longrightarrow> cstr (snd y) \<noteq> [] \<Longrightarrow>
    length (cstr (snd y)) < 2 ^ 32 \<Longrightarrow> p \<le> length (cstr (snd x)) \<Longrightarrow>
    same x y p = Some (occurs (map norm (cstr (snd x))) (map norm (cstr (snd y))) p)"
begin

lemma forward:
  assumes "has_nul (snd x)" "has_nul (snd y)" "cstr (snd y) \<noteq> []" "length (cstr (snd y)) < 2 ^ 32"
    "k \<le> length (cstr (snd x))"
  shows "search_n (same x y) (snd x) k n =
    Some (map_option ((+) k) (first_index (\<lambda>i. occurs (map norm (cstr (snd x))) (map norm (cstr (snd y))) (k + i))
      (min n (length (cstr (snd x)) - k))))"
  using assms(5)
proof (induction n arbitrary: k)
  case 0
  then show ?case by (simp add: first_index_def)
next
  case (Suc n)
  let ?b = "snd x" and ?O = "occurs (map norm (cstr (snd x))) (map norm (cstr (snd y)))"
  have r: "rd ?b k = Some (?b ! k)" "?b ! k = 0 \<longleftrightarrow> k = length (cstr ?b)"
    using rd_nul [OF assms(1), of k] Suc.prems by (simp_all add: nul_def)
  show ?case
  proof (cases "k = length (cstr ?b)")
    case True
    then show ?thesis using r by (simp add: first_index_def)
  next
    case False
    then obtain m where m: "length (cstr ?b) - k = Suc m" using Suc.prems by (metis Suc_diff_Suc le_neq_implies_less)
    have "search_n (same x y) ?b (Suc k) n =
      Some (map_option ((+) (Suc k)) (first_index (\<lambda>i. ?O (Suc k + i)) (min n (length (cstr ?b) - Suc k))))"
      using Suc.prems False by (intro Suc.IH) simp
    moreover have "length (cstr ?b) - Suc k = m" using m by simp
    moreover have "(+) (Suc k) = (\<lambda>i. Suc (k + i))" by auto
    ultimately show ?thesis using r False m same_iff [OF assms(1-4) Suc.prems]
      by (simp add: first_index_shift comp_def option.map_comp)
  qed
qed

lemma backward:
  assumes "has_nul (snd x)" "has_nul (snd y)" "cstr (snd y) \<noteq> []" "length (cstr (snd y)) < 2 ^ 32"
    "p \<le> length (cstr (snd x))"
  shows "rsearch (same x y) p =
    Some (last_index (occurs (map norm (cstr (snd x))) (map norm (cstr (snd y)))) (Suc p))"
  using assms(5)
proof (induction p)
  case 0
  then show ?case using same_iff [OF assms(1-4), of 0] by (simp add: rsearch.simps)
next
  case (Suc p)
  then show ?case using same_iff [OF assms(1-4), of "Suc p"] by (simp add: rsearch.simps [of _ "Suc p"])
qed

text \<open>The bounds the callers compute cover every place where the little string can stand.\<close>

lemma forward_all:
  assumes "has_nul (snd x)" "has_nul (snd y)" "cstr (snd y) \<noteq> []" "length (cstr (snd y)) < 2 ^ 32"
    "length (cstr (snd y)) \<le> n \<and> k = n - length (cstr (snd y)) + 1 \<or> length (cstr (snd x)) \<le> n \<and> n \<le> k"
  shows "search_n (same x y) (snd x) 0 k =
    Some (first_index (occurs (map norm (take n (cstr (snd x)))) (map norm (cstr (snd y)))) (length (cstr (snd x))))"
proof -
  let ?c = "map norm (cstr (snd x))" and ?y = "map norm (cstr (snd y))" and ?l = "length (cstr (snd x))"
  have y: "?y \<noteq> []" "0 < length (cstr (snd y))" using assms(3) by auto
  have "first_index (occurs ?c ?y) (min k ?l) = first_index (occurs (take n ?c) ?y) ?l"
  proof (rule first_index_cong)
    fix i assume i: "i < min k ?l"
    show "occurs ?c ?y i = occurs (take n ?c) ?y i"
    proof (cases "i + length ?y \<le> n")
      case False
      then have "\<not> occurs (take n ?c) ?y i" "?l \<le> n"
        using occurs_bound [OF _ y(1), of "take n ?c" i] i assms(5) by auto
      then show ?thesis by simp
    qed (simp add: occurs_take)
  next
    fix i assume i: "min k ?l \<le> i" "i < ?l"
    show "\<not> occurs (take n ?c) ?y i"
      using occurs_bound [OF _ y(1), of "take n ?c" i] i assms(5) y(2) by (auto simp: min_def split: if_splits)
  qed simp
  then show ?thesis using forward [OF assms(1-4), of 0 k] by (simp add: take_map plus_0_id option.map_ident)
qed

lemma backward_all:
  assumes "has_nul (snd x)" "has_nul (snd y)" "cstr (snd y) \<noteq> []" "length (cstr (snd y)) < 2 ^ 32"
    "length (cstr (snd y)) \<le> min n (length (cstr (snd x)))"
  shows "rsearch (same x y) (min n (length (cstr (snd x))) - length (cstr (snd y))) =
    Some (last_index (occurs (map norm (take n (cstr (snd x)))) (map norm (cstr (snd y)))) (length (cstr (snd x))))"
proof -
  let ?c = "map norm (cstr (snd x))" and ?y = "map norm (cstr (snd y))" and ?l = "length (cstr (snd x))"
  let ?p = "min n ?l - length (cstr (snd y))"
  have y: "?y \<noteq> []" "0 < length (cstr (snd y))" using assms(3) by auto
  have "last_index (occurs ?c ?y) (Suc ?p) = last_index (occurs (take n ?c) ?y) ?l"
  proof (rule last_index_cong)
    show "Suc ?p \<le> ?l" using assms(5) y(2) min.cobounded2 [of n ?l] by linarith
    fix i assume "i < Suc ?p"
    then show "occurs ?c ?y i = occurs (take n ?c) ?y i" using assms(5)
      by (intro occurs_take [symmetric]) (simp, linarith)
  next
    fix i assume "Suc ?p \<le> i" "i < ?l"
    then show "\<not> occurs (take n ?c) ?y i"
      using occurs_bound [OF _ y(1), of "take n ?c" i] assms(5) by auto
  qed
  then show ?thesis using backward [OF assms(1-4), of ?p] assms(5) by (simp add: take_map)
qed

end

section \<open>The two comparisons\<close>

lemma strncmp_prefix:
  "has_nul a \<Longrightarrow> has_nul b \<Longrightarrow>
   \<exists>r. c_strncmp a b (length (cstr b)) = Some r \<and> (r = 0 \<longleftrightarrow> take (length (cstr b)) (cstr a) = cstr b)"
proof (induction b arbitrary: a)
  case (Cons y ys)
  from Cons.prems(1) obtain x xs where a: "a = x # xs" by (cases a) (auto simp: has_nul_def)
  show ?case
  proof (cases "y = 0")
    case False
    note y = this
    show ?thesis
    proof (cases "x = y")
      case True
      then have "has_nul xs" "has_nul ys" using Cons.prems a y by (auto simp: has_nul_def)
      then show ?thesis using Cons.IH [of xs] a y True by simp
    next
      case False
      then have "uint x \<noteq> uint y" by (metis unsigned_word_eqI)
      then show ?thesis using a y False by auto
    qed
  qed simp
qed (simp add: has_nul_def)

lemma casecmp_n_prefix:
  "has_nul a \<Longrightarrow> has_nul b \<Longrightarrow>
   \<exists>r. casecmp_n a b (length (cstr b)) = Some r \<and>
       (r = 0 \<longleftrightarrow> take (length (cstr b)) (map upcase (cstr a)) = map upcase (cstr b))"
proof (induction b arbitrary: a)
  case (Cons y ys)
  from Cons.prems(1) obtain x xs where a: "a = x # xs" by (cases a) (auto simp: has_nul_def)
  show ?case
  proof (cases "y = 0")
    case False
    note y = this
    show ?thesis
    proof (cases "upcase x = upcase y")
      case True
      then have x: "x \<noteq> 0" using y upcase_0 by metis
      then have "has_nul xs" "has_nul ys" using Cons.prems a y by (auto simp: has_nul_def)
      then show ?thesis using Cons.IH [of xs] a y x True by (simp add: uc_at_eq)
    next
      case False
      then have "uint (upcase x) \<noteq> uint (upcase y)" by (metis unsigned_word_eqI)
      then show ?thesis using a y False by (auto simp: uc_at_eq)
    qed
  qed simp
qed (simp add: has_nul_def)

interpretation exact: text_search "\<lambda>x y. same_at x y (length (cstr (snd y)))" "\<lambda>c. c"
proof unfold_locales
  fix x y :: "uword \<times> buf" and p
  assume h: "has_nul (snd x)" "has_nul (snd y)" "p \<le> length (cstr (snd x))" and ne: "cstr (snd y) \<noteq> []"
  let ?l = "length (cstr (snd y))"
  have r: "rd (snd x) p = Some (snd x ! p)" using rd_nul(1) [OF h(1)] h(3) by (simp add: nul_def)
  from h(2) obtain z zs where y: "snd y = z # zs" by (cases "snd y") (auto simp: has_nul_def)
  have d: "has_nul (drop p (snd x))" "cstr (drop p (snd x)) = drop p (cstr (snd x))"
    using h has_nul_drop cstr_drop by simp_all
  from strncmp_prefix [OF d(1) h(2)] d(2) obtain r where
    c: "c_strncmp (drop p (snd x)) (snd y) ?l = Some r" "(r = 0) = (take ?l (drop p (cstr (snd x))) = cstr (snd y))"
    by auto
  have head: "snd x ! p = z" if "take ?l (drop p (cstr (snd x))) = cstr (snd y)" "z \<noteq> 0"
  proof -
    from that y obtain r where "drop p (cstr (snd x)) = z # r" (is "?d = _") by (cases ?d) auto
    then show ?thesis using drop_nth_Cons cstr_nth by metis
  qed
  show "same_at x y ?l p = Some (occurs (map (\<lambda>c. c) (cstr (snd x))) (map (\<lambda>c. c) (cstr (snd y))) p)"
  proof (cases "z = snd x ! p")
    case True
    then show ?thesis using r y c by (simp add: same_at_def occurs_def)
  next
    case False
    moreover have "z \<noteq> 0" using ne y by auto
    ultimately have "\<not> occurs (cstr (snd x)) (cstr (snd y)) p" using head by (auto simp: occurs_def)
    then show ?thesis using False r y by (simp add: same_at_def)
  qed
qed

interpretation nocase: text_search "\<lambda>x y. casesame_at x y (word_of_nat (length (cstr (snd y))))" upcase
proof unfold_locales
  fix x y :: "uword \<times> buf" and p
  assume h: "has_nul (snd x)" "has_nul (snd y)" "length (cstr (snd y)) < 2 ^ 32" "p \<le> length (cstr (snd x))"
  let ?l = "length (cstr (snd y))"
  have u: "unat (word_of_nat ?l :: u32) = ?l" using h(3) by (intro unat_word_of_nat_u32) simp
  have d: "has_nul (drop p (snd x))" "cstr (drop p (snd x)) = drop p (cstr (snd x))"
    using h has_nul_drop cstr_drop by simp_all
  from casecmp_n_prefix [OF d(1) h(2)] d(2) obtain r where
    "casecmp_n (drop p (snd x)) (snd y) ?l = Some r"
    "(r = 0) = (take ?l (map upcase (drop p (cstr (snd x)))) = map upcase (cstr (snd y)))"
    by auto
  then show "casesame_at x y (word_of_nat ?l) p =
      Some (occurs (map upcase (cstr (snd x))) (map upcase (cstr (snd y))) p)"
    using u by (cases x, cases y)
      (simp add: casesame_at_def PL_strncasecmp_def offset_def occurs_def drop_map)
qed

lemma has_nul_upcase [simp]: "has_nul (map upcase b) = has_nul b"
  by (auto simp: has_nul_def image_iff)

lemma cstr_upcase: "cstr (map upcase b) = map upcase (cstr b)"
  by (induction b) auto

text \<open>What every search returns: the first or last position of the little string in the first \<open>n\<close> characters of
  the big one, and null when either is empty.\<close>

definition first_found :: "(byte \<Rightarrow> byte) \<Rightarrow> buf \<Rightarrow> buf \<Rightarrow> nat \<Rightarrow> nat ptr" where
  "first_found f b l n =
     (if cstr b = [] \<or> cstr l = [] then None
      else first_index (occurs (map f (take n (cstr b))) (map f (cstr l))) (length (cstr b)))"

definition last_found :: "(byte \<Rightarrow> byte) \<Rightarrow> buf \<Rightarrow> buf \<Rightarrow> nat \<Rightarrow> nat ptr" where
  "last_found f b l n =
     (if cstr b = [] \<or> cstr l = [] then None
      else last_index (occurs (map f (take n (cstr b))) (map f (cstr l))) (length (cstr b)))"

lemma found_upcase:
  "first_found upcase b l n = first_found (\<lambda>c. c) (map upcase b) (map upcase l) n"
  "last_found upcase b l n = last_found (\<lambda>c. c) (map upcase b) (map upcase l) n"
  by (simp_all add: first_found_def last_found_def cstr_upcase take_map)

lemma found_too_long:
  "min n (length (cstr b)) < length (cstr l) \<Longrightarrow> first_found f b l n = None"
  "min n (length (cstr b)) < length (cstr l) \<Longrightarrow> last_found f b l n = None"
  using occurs_bound [of "map f (take n (cstr b))" "map f (cstr l)"]
  by (fastforce simp: first_found_def last_found_def first_index_eq_None last_index_eq_None min.commute)+

lemma search_args_eq:
  assumes "has_nul b" "has_nul l"
  shows "search_args (Some (a, b)) (Some (a', l)) k =
    (if cstr b = [] \<or> cstr l = [] then Some None else k (a, b) (a', l))"
  using assms by (cases b; cases l) (auto simp: search_args_def has_nul_def)

lemma lens:
  assumes "has_nul b" "length (cstr b) < 2 ^ 32"
  shows "c_strlen b = Some (length (cstr b))" "unat (word_of_nat (length (cstr b)) :: u32) = length (cstr b)"
  using assms by (simp_all add: c_strlen_eq unat_word_of_nat_u32)

section \<open>What the searches return\<close>

lemma forward_count:
  assumes "l \<le> unat n" "0 < l" "unat (w :: u32) = l"
  shows "unat (n - w + 1) = unat n - l + 1"
proof -
  have "w \<le> n" using assms by (simp add: word_le_nat_alt)
  then have m: "unat (n - w) = unat n - l" using unat_minus_u32 assms(3) by simp
  have "unat (n - w) + unat (1 :: u32) < 2 ^ LENGTH(32)"
    using m assms(1,2) unat_u32_less [of n] by simp
  then have "unat (n - w + 1) = unat (n - w) + unat (1 :: u32)" by (simp only: unat_add_lem [THEN iffD1])
  then show ?thesis using m by simp
qed

lemma strstr_eq:
  assumes "has_nul b" "has_nul l"
  shows "PL_strstr (Some (a, b)) (Some (a', l)) = Some (first_found (\<lambda>c. c) b l (length (cstr b)))"
proof -
  have "first_index (occurs (cstr b) (cstr l)) (Suc (length (cstr b))) =
        first_index (occurs (cstr b) (cstr l)) (length (cstr b))" if "cstr l \<noteq> []"
    using occurs_bound [OF _ that, of "cstr b" "length (cstr b)"] that
    by (intro first_index_cong [symmetric]) (auto dest: le_neq_implies_less)
  then show ?thesis
    using assms cstr_eq_take [of b, symmetric] cstr_eq_take [of l, symmetric]
    by (simp add: PL_strstr_def search_args_eq c_strstr_def c_strlen_eq first_found_def occurs_def [abs_def])
qed

lemma strrstr_eq:
  assumes "has_nul b" "has_nul l" "length (cstr l) < 2 ^ 32"
  shows "PL_strrstr (Some (a, b)) (Some (a', l)) = Some (last_found (\<lambda>c. c) b l (length (cstr b)))"
proof (cases "length (cstr b) < length (cstr l)")
  case True
  then show ?thesis using assms found_too_long(2) [of "length (cstr b)" b l]
    by (simp add: PL_strrstr_def search_args_eq c_strlen_eq)
next
  case False
  then show ?thesis using assms exact.backward_all [of "(a, b)" "(a', l)" "length (cstr b)"]
    by (simp add: PL_strrstr_def search_args_eq c_strlen_eq last_found_def)
qed

lemma strnstr_eq:
  assumes "has_nul b" "has_nul l" "length (cstr l) < 2 ^ 32"
  shows "PL_strnstr (Some (a, b)) (Some (a', l)) n = Some (first_found (\<lambda>c. c) b l (unat n))"
proof (cases "unat n < length (cstr l)")
  case True
  then show ?thesis using assms found_too_long(1) [of "unat n" b l]
    by (simp add: PL_strnstr_def search_args_eq c_strlen_eq)
next
  case False
  then show ?thesis
    using assms exact.forward_all [of "(a, b)" "(a', l)" "unat n"] forward_count [of "length (cstr l)" n]
    by (simp add: PL_strnstr_def search_args_eq lens first_found_def del: search_n.simps)
qed

lemma strnrstr_eq:
  assumes "has_nul b" "has_nul l" "length (cstr l) < 2 ^ 32"
  shows "PL_strnrstr (Some (a, b)) (Some (a', l)) n = Some (last_found (\<lambda>c. c) b l (unat n))"
proof (cases "min (unat n) (length (cstr b)) < length (cstr l)")
  case True
  then show ?thesis using assms found_too_long(2) [of "unat n" b l] scan_n_0 [of b "unat n"]
    by (simp add: PL_strnrstr_def search_args_eq c_strlen_eq readable_def)
next
  case False
  then have "length (cstr l) \<le> unat n" "length (cstr l) \<le> length (cstr b)" by simp_all
  then show ?thesis using False assms exact.backward_all [of "(a, b)" "(a', l)" "unat n"] scan_n_0 [of b "unat n"]
    by (simp add: PL_strnrstr_def search_args_eq c_strlen_eq readable_def last_found_def)
qed

lemma strcasestr_eq:
  assumes "has_nul b" "has_nul l" "length (cstr l) < 2 ^ 32"
  shows "PL_strcasestr (Some (a, b)) (Some (a', l)) = Some (first_found upcase b l (length (cstr b)))"
  using assms nocase.forward_all [of "(a, b)" "(a', l)" "length (cstr b)" "Suc (length b)"] cstr_length_le [of b]
  by (simp add: PL_strcasestr_def search_args_eq lens first_found_def del: search_n.simps)

lemma strcaserstr_eq:
  assumes "has_nul b" "has_nul l" "length (cstr l) < 2 ^ 32" "length (cstr b) < 2 ^ 32"
  shows "PL_strcaserstr (Some (a, b)) (Some (a', l)) = Some (last_found upcase b l (length (cstr b)))"
proof -
  note w = lens(2) [OF assms(1,4)] lens(2) [OF assms(2,3)]
  show ?thesis
  proof (cases "length (cstr b) < length (cstr l)")
    case True
    then show ?thesis using assms w found_too_long(2) [of "length (cstr b)" b l]
      by (simp add: PL_strcaserstr_def search_args_eq lens Let_def word_less_nat_alt)
  next
    case False
    then have "unat (word_of_nat (length (cstr b)) - word_of_nat (length (cstr l)) :: u32) =
        length (cstr b) - length (cstr l)"
      using w by (simp add: unat_minus_u32 word_le_nat_alt)
    then show ?thesis using False assms w nocase.backward_all [of "(a, b)" "(a', l)" "length (cstr b)"]
      by (simp add: PL_strcaserstr_def search_args_eq lens Let_def word_less_nat_alt last_found_def)
  qed
qed

lemma strncasestr_eq:
  assumes "has_nul b" "has_nul l" "length (cstr l) < 2 ^ 32"
  shows "PL_strncasestr (Some (a, b)) (Some (a', l)) n = Some (first_found upcase b l (unat n))"
proof (cases "unat n < length (cstr l)")
  case True
  then show ?thesis using assms found_too_long(1) [of "unat n" b l]
    by (simp add: PL_strncasestr_def search_args_eq lens Let_def word_less_nat_alt)
next
  case False
  then show ?thesis
    using assms nocase.forward_all [of "(a, b)" "(a', l)" "unat n"] forward_count [of "length (cstr l)" n]
    by (simp add: PL_strncasestr_def search_args_eq lens Let_def word_less_nat_alt first_found_def del: search_n.simps)
qed

lemma strncaserstr_eq:
  assumes "has_nul b" "has_nul l" "length (cstr l) < 2 ^ 32"
  shows "PL_strncaserstr (Some (a, b)) (Some (a', l)) n = Some (last_found upcase b l (unat n))"
proof (cases "min (unat n) (length (cstr b)) < length (cstr l)")
  case True
  then show ?thesis using assms found_too_long(2) [of "unat n" b l] scan_n_0 [of b "unat n"]
    by (simp add: PL_strncaserstr_def search_args_eq lens Let_def readable_def)
next
  case False
  then have "length (cstr l) \<le> unat n" "length (cstr l) \<le> length (cstr b)" by simp_all
  then show ?thesis using False assms nocase.backward_all [of "(a, b)" "(a', l)" "unat n"] scan_n_0 [of b "unat n"]
    by (simp add: PL_strncaserstr_def search_args_eq lens Let_def readable_def last_found_def)
qed

text \<open>C15: \<open>PL_strstr\<close>, \<open>PL_strrstr\<close>, \<open>PL_strnstr\<close> and \<open>PL_strnrstr\<close> on two terminated strings return the first or
  the last position at which the little string stands in the big one (for the bounded ones, in its first \<open>n\<close>
  characters), and null when it stands nowhere or when either string is empty; in particular a position that
  is returned is an occurrence inside the first \<open>n\<close> characters.\<close>

theorem strings_substring_search:
  assumes "has_nul b" "has_nul l" "length (cstr l) < 2 ^ 32"
  shows "PL_strstr (Some (a, b)) (Some (a', l)) = Some (first_found (\<lambda>c. c) b l (length (cstr b))) \<and>
    PL_strrstr (Some (a, b)) (Some (a', l)) = Some (last_found (\<lambda>c. c) b l (length (cstr b))) \<and>
    PL_strnstr (Some (a, b)) (Some (a', l)) n = Some (first_found (\<lambda>c. c) b l (unat n)) \<and>
    PL_strnrstr (Some (a, b)) (Some (a', l)) n = Some (last_found (\<lambda>c. c) b l (unat n)) \<and>
    (\<forall>i. PL_strnstr (Some (a, b)) (Some (a', l)) n = Some (Some i) \<or>
         PL_strnrstr (Some (a, b)) (Some (a', l)) n = Some (Some i) \<longrightarrow>
       i + length (cstr l) \<le> unat n \<and> take (length (cstr l)) (drop i (cstr b)) = cstr l)"
proof -
  have occ: "i + length (cstr l) \<le> unat n \<and> take (length (cstr l)) (drop i (cstr b)) = cstr l"
    if "cstr l \<noteq> []" "occurs (take (unat n) (cstr b)) (cstr l) i" for i
    using occurs_bound [OF that(2,1)] that(2) occurs_take [of i "cstr l" "unat n" "cstr b"]
    by (simp add: occurs_def)
  show ?thesis
    using strstr_eq [OF assms(1,2)] strrstr_eq [OF assms] strnstr_eq [OF assms] strnrstr_eq [OF assms] occ
    by (auto simp: first_found_def last_found_def first_index_eq_Some last_index_eq_Some split: if_splits)
qed

theorem strings_substring_search_witness:
  "PL_strnrstr (Some (0, bytes_of ''abcabcabc'' @ [0])) (Some (0, bytes_of ''abc'' @ [0])) 8 = Some (Some 3)"
proof -
  have "last_found (\<lambda>c. c) (bytes_of ''abcabcabc'' @ [0]) (bytes_of ''abc'' @ [0]) 8 = Some 3"
    "length (cstr (bytes_of ''abc'' @ [0])) = 3" by code_simp+
  then show ?thesis
    using strings_substring_search [of "bytes_of ''abcabcabc'' @ [0]" "bytes_of ''abc'' @ [0]" 0 0 8]
    by (simp add: has_nul_def)
qed

section \<open>Ignoring case\<close>

lemma sgn_strcmp: "sgn (c_strcmp a b) = c_strcmp a b"
  by (induction a b rule: c_strcmp.induct) auto

lemma uint_diff_sgn: "sgn (uint (x :: byte) - uint y) = (if x = y then 0 else if x < y then -1 else 1)"
  by (auto simp: word_less_def sgn_if dest: unsigned_word_eqI)

text \<open>The case-insensitive comparison has the sign of \<open>strcmp\<close> on the folded strings.\<close>

lemma casecmp_strcmp:
  "has_nul a \<Longrightarrow> has_nul b \<Longrightarrow>
   map_option sgn (casecmp a b) = Some (c_strcmp (map upcase a) (map upcase b))"
proof (induction a b rule: casecmp.induct)
  case (1 a b)
  from 1(2) obtain x xs where a: "a = x # xs" by (cases a) (auto simp: has_nul_def)
  from 1(3) obtain y ys where b: "b = y # ys" by (cases b) (auto simp: has_nul_def)
  show ?case
  proof (cases "upcase x = upcase y \<and> x \<noteq> 0")
    case True
    then have ne: "x \<noteq> 0" "y \<noteq> 0" using upcase_0 by metis+
    then have "has_nul xs" "has_nul ys" using 1(2,3) a b by (auto simp: has_nul_def)
    then have "map_option sgn (casecmp xs ys) = Some (c_strcmp (map upcase xs) (map upcase ys))"
      using 1(1) [of x y "upcase x" "upcase y"] True a b by (simp add: uc_at_eq)
    then show ?thesis using a b True ne by (simp add: casecmp.simps [of "x # xs" "y # ys"] uc_at_eq)
  next
    case False
    then show ?thesis using a b uint_diff_sgn [of "upcase x" "upcase y"]
      by (auto simp: casecmp.simps [of "x # xs" "y # ys"] uc_at_eq)
  qed
qed

text \<open>The functions that ignore case are the exact ones on the folded strings: \<open>PL_strcasecmp\<close> has the sign of
  \<open>PL_strcmp\<close> after both strings are put in upper case, and each of \<open>PL_strcasestr\<close>, \<open>PL_strcaserstr\<close>,
  \<open>PL_strncasestr\<close>, \<open>PL_strncaserstr\<close> finds what \<open>PL_strstr\<close>, \<open>PL_strrstr\<close>, \<open>PL_strnstr\<close>, \<open>PL_strnrstr\<close> find
  there.\<close>

theorem strings_ignore_case:
  assumes "has_nul b" "has_nul l" "length (cstr l) < 2 ^ 32" "length (cstr b) < 2 ^ 32"
  defines "B \<equiv> map upcase b" and "L \<equiv> map upcase l"
  shows "map_option sgn (PL_strcasecmp (Some (a, b)) (Some (a', l))) = PL_strcmp (Some (a, B)) (Some (a', L)) \<and>
    PL_strcasestr (Some (a, b)) (Some (a', l)) = PL_strstr (Some (a, B)) (Some (a', L)) \<and>
    PL_strcaserstr (Some (a, b)) (Some (a', l)) = PL_strrstr (Some (a, B)) (Some (a', L)) \<and>
    PL_strncasestr (Some (a, b)) (Some (a', l)) n = PL_strnstr (Some (a, B)) (Some (a', L)) n \<and>
    PL_strncaserstr (Some (a, b)) (Some (a', l)) n = PL_strnrstr (Some (a, B)) (Some (a', L)) n"
proof -
  have h: "has_nul B" "has_nul L" "length (cstr L) < 2 ^ 32" "length (cstr B) = length (cstr b)"
    using assms(1-3) by (simp_all add: B_def L_def cstr_upcase)
  note found = found_upcase [of b l, folded B_def L_def]
  have "map_option sgn (PL_strcasecmp (Some (a, b)) (Some (a', l))) = PL_strcmp (Some (a, B)) (Some (a', L))"
    using casecmp_strcmp [OF assms(1,2), folded B_def L_def] h
    by (simp add: PL_strcasecmp_def PL_strcmp_def c_strcmpx_def)
  then show ?thesis
    using strcasestr_eq [OF assms(1-3)] strcaserstr_eq [OF assms(1-4)] strncasestr_eq [OF assms(1-3)]
      strncaserstr_eq [OF assms(1-3)] strstr_eq [OF h(1,2)] strrstr_eq [OF h(1-3)] strnstr_eq [OF h(1-3)]
      strnrstr_eq [OF h(1-3)] h(4) found
    by simp
qed

theorem strings_ignore_case_witness:
  "PL_strcasestr (Some (0, bytes_of ''Content-Type'' @ [0])) (Some (0, bytes_of ''TYPE'' @ [0])) = Some (Some 8)"
proof -
  have "PL_strstr (Some (0, map upcase (bytes_of ''Content-Type'' @ [0])))
      (Some (0, map upcase (bytes_of ''TYPE'' @ [0]))) = Some (Some 8)"
    "length (cstr (bytes_of ''Content-Type'' @ [0])) = 12" "length (cstr (bytes_of ''TYPE'' @ [0])) = 4"
    by code_simp+
  then show ?thesis
    using strings_ignore_case [of "bytes_of ''Content-Type'' @ [0]" "bytes_of ''TYPE'' @ [0]" 0 0 0]
    by (simp add: has_nul_def)
qed

text \<open>A null pointer compares by address: with the addresses of a 64-bit target the difference is cut to 32
  bits, so null can compare equal to a string, or greater than it.\<close>

theorem strings_null_compare:
  "PL_strcmp None (Some (0x700000000, [97, 0])) = Some 0 \<and>
   PL_strcmp None (Some (0x7080000001, [97, 0])) = Some 2147483647 \<and>
   PL_strcasecmp None (Some (0x700000000, [97, 0])) = Some 0"
  by code_simp

section \<open>Tokens\<close>

text \<open>The pieces of a list between separators, and the ones that are not empty.\<close>

fun pieces :: "('a \<Rightarrow> bool) \<Rightarrow> 'a list \<Rightarrow> 'a list list" where
  "pieces P [] = [[]]"
| "pieces P (x # xs) =
     (if P x then [] # pieces P xs
      else case pieces P xs of [] \<Rightarrow> [[x]] | p # ps \<Rightarrow> (x # p) # ps)"

definition words :: "('a \<Rightarrow> bool) \<Rightarrow> 'a list \<Rightarrow> 'a list list" where
  "words P xs = filter (\<lambda>w. w \<noteq> []) (pieces P xs)"

lemma words_dropWhile: "words P (dropWhile P xs) = words P xs"
  by (induction xs) (simp_all add: words_def)

lemma pieces_span:
  "pieces P xs = takeWhile (\<lambda>x. \<not> P x) xs #
     (case dropWhile (\<lambda>x. \<not> P x) xs of [] \<Rightarrow> [] | s # r \<Rightarrow> pieces P r)"
  by (induction xs) auto

lemma words_step:
  assumes "\<not> P y"
  shows "words P (y # ys) = (y # takeWhile (\<lambda>x. \<not> P x) ys) #
    (case dropWhile (\<lambda>x. \<not> P x) ys of [] \<Rightarrow> [] | s # r \<Rightarrow> words P r)"
  unfolding words_def pieces_span [of P "y # ys"] using assms
  by (cases "dropWhile (\<lambda>x. \<not> P x) ys") (simp_all del: dropWhile_eq_Nil_conv)

lemma skip_seps_eq:
  assumes "has_nul s2" "has_nul (drop i b)"
  shows "skip_seps b s2 i =
    (let c = cstr (drop i b); k = length (takeWhile (\<lambda>x. x \<in> set (cstr s2)) c)
     in Some (i + k, if k = length c then 0 else c ! k))"
  using assms(2)
proof (induction "length (drop i b)" arbitrary: i)
  case 0
  then show ?case by (simp add: has_nul_def)
next
  case (Suc n)
  then obtain x xs where d: "drop i b = x # xs" by (cases "drop i b") auto
  note h = drop_nth_Cons [OF d]
  show ?case
  proof (cases "x \<noteq> 0 \<and> x \<in> set (cstr s2)")
    case True
    then have "has_nul (drop (Suc i) b)" using Suc.prems d h by (auto simp: has_nul_def)
    moreover have "n = length (drop (Suc i) b)" using Suc.hyps(2) by simp
    ultimately show ?thesis using Suc.hyps(1) [of "Suc i"] d h True in_list_eq [OF assms(1)]
      by (simp add: skip_seps.simps [of b s2 i] rd_ok Let_def)
  next
    case False
    then show ?thesis using d h in_list_eq [OF assms(1)]
      by (auto simp: skip_seps.simps [of b s2 i] rd_ok Let_def)
  qed
qed

lemma token_rest_eq:
  assumes "has_nul s2" "has_nul (drop i b)"
  shows "token_rest b s2 i =
    (let c = cstr (drop i b); k = length (takeWhile (\<lambda>x. x \<notin> set (cstr s2)) c)
     in Some (i + k, k < length c))"
  using assms(2)
proof (induction "length (drop i b)" arbitrary: i)
  case 0
  then show ?case by (simp add: has_nul_def)
next
  case (Suc n)
  then obtain x xs where d: "drop i b = x # xs" by (cases "drop i b") auto
  note h = drop_nth_Cons [OF d]
  show ?case
  proof (cases "x \<noteq> 0 \<and> x \<notin> set (cstr s2)")
    case True
    then have "has_nul (drop (Suc i) b)" using Suc.prems d h by (auto simp: has_nul_def)
    moreover have "n = length (drop (Suc i) b)" using Suc.hyps(2) by simp
    ultimately show ?thesis using Suc.hyps(1) [of "Suc i"] d h True in_list_eq [OF assms(1)]
      by (simp add: token_rest.simps [of b s2 i] rd_ok Let_def)
  next
    case False
    then show ?thesis using d h in_list_eq [OF assms(1)]
      by (auto simp: token_rest.simps [of b s2 i] rd_ok Let_def)
  qed
qed

lemma cstr_cut: "t < length (cstr d) \<Longrightarrow> cstr (d[t := 0]) = take t (cstr d)"
proof (induction d arbitrary: t)
  case (Cons x xs)
  then show ?case by (cases t) (auto split: if_splits)
qed simp

lemma strtok_continue: "tokens_from n b None s2 (Some i) = tokens_from n b (Some i) s2 lasts"
  by (cases n) (simp_all add: PL_strtok_r_def)

text \<open>One call: with \<open>c\<close> the string at \<open>i\<close>, \<open>k\<close> leading separators and a token that ends at \<open>j\<close>.\<close>

lemma strtok_call:
  assumes "has_nul s2" "has_nul (drop i b)"
  defines "P \<equiv> \<lambda>x. x \<in> set (cstr s2)"
  shows "(dropWhile P (cstr (drop i b)) = [] \<and> PL_strtok_r b (Some i) s2 lasts = Some (None, b, None)) \<or>
    (\<exists>y ys m b' nxt. dropWhile P (cstr (drop i b)) = y # ys \<and> \<not> P y \<and>
       PL_strtok_r b (Some i) s2 lasts = Some (Some m, b', nxt) \<and>
       cstr (drop m b') = y # takeWhile (\<lambda>x. \<not> P x) ys \<and>
       (case dropWhile (\<lambda>x. \<not> P x) ys of
          [] \<Rightarrow> nxt = None
        | s # r \<Rightarrow> \<exists>j. nxt = Some j \<and> has_nul (drop j b') \<and> cstr (drop j b') = r))"
proof -
  let ?c = "cstr (drop i b)"
  define k where "k = length (takeWhile P ?c)"
  have dw: "dropWhile P ?c = drop k ?c" unfolding k_def by (rule dropWhile_eq_drop)
  have sk: "skip_seps b s2 i = Some (i + k, if k = length ?c then 0 else ?c ! k)"
    using skip_seps_eq [OF assms(1,2)] by (simp add: Let_def k_def P_def)
  show ?thesis
  proof (cases "drop k ?c")
    case Nil
    then have "k = length ?c" using length_takeWhile_le [of P ?c] by (simp add: k_def)
    then show ?thesis using sk Nil dw by (simp add: PL_strtok_r_def)
  next
    case (Cons y ys)
    note h = drop_nth_Cons [OF Cons]
    have np: "\<not> P y" using hd_dropWhile [of P ?c] dw Cons by (metis list.distinct(1) list.sel(1))
    have c0: "?c ! k \<noteq> 0" using h cstr_nonzero [of "?c ! k" "drop i b"] by (metis nth_mem)
    have n1: "has_nul (drop (Suc (i + k)) b)" "cstr (drop (Suc (i + k)) b) = ys"
      using has_nul_drop [OF assms(2), of "Suc k"] cstr_drop [of "Suc k" "drop i b"] h
      by (simp_all add: add.commute)
    define t where "t = length (takeWhile (\<lambda>x. \<not> P x) ys)"
    have tr: "token_rest b s2 (Suc (i + k)) = Some (Suc (i + k) + t, t < length ys)"
      using token_rest_eq [OF assms(1) n1(1)] n1(2) by (simp add: Let_def t_def P_def)
    have dt: "dropWhile (\<lambda>x. \<not> P x) ys = drop t ys" unfolding t_def by (rule dropWhile_eq_drop)
    have ck: "cstr (drop (i + k) b) = y # ys" "has_nul (drop (i + k) b)"
      using cstr_drop [of k "drop i b"] has_nul_drop [OF assms(2), of k] h Cons by (simp_all add: add.commute)
    show ?thesis
    proof (cases "drop t ys")
      case Nil
      then have "t = length ys" using length_takeWhile_le [of "\<lambda>x. \<not> P x" ys] by (simp add: t_def)
      moreover from this have "takeWhile (\<lambda>x. \<not> P x) ys = ys"
        by (metis t_def takeWhile_eq_take take_all order_refl)
      ultimately show ?thesis using sk tr c0 np h Cons dw dt Nil ck(1)
        by (simp add: PL_strtok_r_def del: dropWhile_eq_Nil_conv takeWhile_eq_all_conv)
    next
      case (Cons s r)
      note g = drop_nth_Cons [OF Cons]
      let ?j = "Suc (i + k) + t" and ?b' = "b[Suc (i + k) + t := 0]"
      have lj: "?j < length b"
        using has_nul_length [OF n1(1)] n1(2) g by auto
      have tk: "takeWhile (\<lambda>x. \<not> P x) ys = take t ys" unfolding t_def by (rule takeWhile_eq_take)
      have "drop (i + k) ?b' = (drop (i + k) b)[Suc t := 0]" using lj by (simp add: drop_update_swap)
      then have "cstr (drop (i + k) ?b') = y # takeWhile (\<lambda>x. \<not> P x) ys"
        using cstr_cut [of "Suc t" "drop (i + k) b"] ck(1) g tk by simp
      moreover have "drop (Suc ?j) ?b' = drop (Suc ?j) b" by simp
      moreover have "has_nul (drop (Suc ?j) b)" "cstr (drop (Suc ?j) b) = r"
        using has_nul_drop [OF n1(1), of "Suc t"] cstr_drop [of "Suc t" "drop (Suc (i + k)) b"] n1(2) g
        by (simp_all add: add.commute)
      ultimately show ?thesis using sk tr c0 np h \<open>drop k ?c = y # ys\<close> dw dt Cons g lj
        by (simp add: PL_strtok_r_def wr_ok)
    qed
  qed
qed

lemma tokens_from_eq:
  assumes "has_nul s2"
  shows "has_nul (drop i b) \<Longrightarrow> length (cstr (drop i b)) < n \<Longrightarrow>
    tokens_from n b (Some i) s2 lasts = Some (words (\<lambda>x. x \<in> set (cstr s2)) (cstr (drop i b)))"
proof (induction n arbitrary: i b lasts)
  case (Suc n)
  let ?P = "\<lambda>x. x \<in> set (cstr s2)" and ?c = "cstr (drop i b)"
  note w = words_dropWhile [of ?P ?c, symmetric]
  from strtok_call [OF assms Suc.prems(1), of lasts] show ?case
  proof (elim disjE exE conjE)
    assume "dropWhile ?P ?c = []" "PL_strtok_r b (Some i) s2 lasts = Some (None, b, None)"
    then show ?thesis using w by (simp add: words_def del: dropWhile_eq_Nil_conv)
  next
    fix y ys m b' nxt
    assume d: "dropWhile ?P ?c = y # ys" "\<not> ?P y"
      and call: "PL_strtok_r b (Some i) s2 lasts = Some (Some m, b', nxt)"
      and tok: "cstr (drop m b') = y # takeWhile (\<lambda>x. \<not> ?P x) ys"
      and rest: "case dropWhile (\<lambda>x. \<not> ?P x) ys of [] \<Rightarrow> nxt = None
          | s # r \<Rightarrow> \<exists>j. nxt = Some j \<and> has_nul (drop j b') \<and> cstr (drop j b') = r"
    have len: "length ys < n" using d(1) length_dropWhile_le [of ?P ?c] Suc.prems(2) by simp
    have "tokens_from n b' None s2 nxt =
        Some (case dropWhile (\<lambda>x. \<not> ?P x) ys of [] \<Rightarrow> [] | s # r \<Rightarrow> words ?P r)"
    proof (cases "dropWhile (\<lambda>x. \<not> ?P x) ys")
      case Nil
      then show ?thesis using rest len by (cases n) (simp_all add: PL_strtok_r_def del: dropWhile_eq_Nil_conv)
    next
      case (Cons s r)
      then obtain j where j: "nxt = Some j" "has_nul (drop j b')" "cstr (drop j b') = r" using rest by auto
      have "length r < n" using Cons len length_dropWhile_le [of "\<lambda>x. \<not> ?P x" ys] by simp
      then have "tokens_from n b' (Some j) s2 None = Some (words ?P r)" using Suc.IH j(2,3) by blast
      then show ?thesis using Cons j(1) strtok_continue [of n b' s2 j None] by simp
    qed
    then show ?thesis using w d call tok words_step [of ?P y ys] by simp
  qed
qed simp

text \<open>C16: Calling \<open>PL_strtok_r\<close> on a terminated string, first with the string and then with null until it returns
  null, ends after at most one call per character and one more, and yields exactly the non-empty pieces of the
  string between separators, in order, whatever \<open>*lasts\<close> held before.\<close>

theorem strings_tokens:
  assumes "has_nul b" "has_nul s2"
  shows "tokens_from (Suc (length (cstr b))) b (Some 0) s2 lasts =
    Some (words (\<lambda>x. x \<in> set (cstr s2)) (cstr b))"
  using tokens_from_eq [OF assms(2), of 0 b] assms(1) by (simp del: tokens_from.simps)

theorem strings_tokens_witness:
  "tokens_from 14 (bytes_of '' one,, two ,3'' @ [0]) (Some 0) (bytes_of '', '' @ [0]) None =
     Some [bytes_of ''one'', bytes_of ''two'', bytes_of ''3'']"
proof -
  have "words (\<lambda>x. x \<in> set (cstr (bytes_of '', '' @ [0]))) (cstr (bytes_of '' one,, two ,3'' @ [0])) =
      [bytes_of ''one'', bytes_of ''two'', bytes_of ''3'']"
    "Suc (length (cstr (bytes_of '' one,, two ,3'' @ [0]))) = 14" by code_simp+
  then show ?thesis
    using strings_tokens [of "bytes_of '' one,, two ,3'' @ [0]" "bytes_of '', '' @ [0]" None]
    by (simp only: has_nul_append_0)
qed

end
