(* ===== verification/Moz_Printf.thy ===== *)
theory Moz_Printf
  imports Moz_Strings
begin

text \<open>
  The formatted output of \<open>src/nsprpub/pr/src/io/prprf.c\<close>: \<open>dosprintf\<close>, the conversions it calls, and the
  entry points that write to a buffer of fixed size, to a buffer that grows, to a function and to a file.

  The function pointer \<open>ss->stuff\<close> is the parameter \<open>stuff\<close>: it takes the state of the sink and a piece of
  output and returns the C result (negative for a failure) with the new state. \<open>ap\<close> is the list of the
  arguments not yet fetched; fetching one with another type is undefined. The format is an object, read
  through an offset. \<open>FLAG_*\<close> is a record of booleans. What \<open>%n\<close> stores is a list of pairs of a pointer
  and the number stored. The native \<open>sprintf\<close> that converts floating point is a parameter. The build is not for
  Windows; pointers have 64 bits. On the targets where \<open>va_list\<close> is an array, as assumed here, what
  \<open>BuildArgArray\<close> fetches is gone for its caller.
\<close>

section \<open>Data\<close>

datatype 'd va = VInt int | VInt64 int | VDouble 'd | VStr "buf ptr" | VIntPtr "nat ptr"

type_synonym 's stuff = "'s \<Rightarrow> buf \<Rightarrow> (int \<times> 's) exec"

definition TYPE_INT16 :: nat where "TYPE_INT16 = 0"
definition TYPE_UINT16 :: nat where "TYPE_UINT16 = 1"
definition TYPE_INTN :: nat where "TYPE_INTN = 2"
definition TYPE_UINTN :: nat where "TYPE_UINTN = 3"
definition TYPE_INT32 :: nat where "TYPE_INT32 = 4"
definition TYPE_UINT32 :: nat where "TYPE_UINT32 = 5"
definition TYPE_INT64 :: nat where "TYPE_INT64 = 6"
definition TYPE_UINT64 :: nat where "TYPE_UINT64 = 7"
definition TYPE_STRING :: nat where "TYPE_STRING = 8"
definition TYPE_DOUBLE :: nat where "TYPE_DOUBLE = 9"
definition TYPE_INTSTR :: nat where "TYPE_INTSTR = 10"
definition TYPE_UNKNOWN :: nat where "TYPE_UNKNOWN = 20"

lemmas types = TYPE_INT16_def TYPE_UINT16_def TYPE_INTN_def TYPE_UINTN_def TYPE_INT32_def TYPE_UINT32_def
  TYPE_INT64_def TYPE_UINT64_def TYPE_STRING_def TYPE_DOUBLE_def TYPE_INTSTR_def TYPE_UNKNOWN_def

record flags =
  LEFT :: bool
  SIGNED :: bool
  SPACED :: bool
  ZEROS :: bool
  NEG :: bool

definition no_flags :: flags where
  "no_flags = \<lparr>LEFT = False, SIGNED = False, SPACED = False, ZEROS = False, NEG = False\<rparr>"

text \<open>A call of the sink, and the statements after it unless it failed\<close>

definition skip :: "'s \<Rightarrow> (int \<times> 's) exec" where
  "skip s = Some (0, s)"

definition put :: "'s stuff \<Rightarrow> buf \<Rightarrow> 's \<Rightarrow> (int \<times> 's) exec" where
  "put stuff x s = stuff s x"

definition and_then :: "('s \<Rightarrow> (int \<times> 's) exec) \<Rightarrow> ('s \<Rightarrow> (int \<times> 's) exec) \<Rightarrow> 's \<Rightarrow> (int \<times> 's) exec" where
  "and_then f g s = do { (rv, s) \<leftarrow> f s; if rv < 0 then Some (rv, s) else g s }"

text \<open>\<open>while (--n >= 0) { rv = stuff(ss, &c, 1); if (rv < 0) return rv; }\<close>\<close>

fun put_n :: "'s stuff \<Rightarrow> nat \<Rightarrow> byte \<Rightarrow> 's \<Rightarrow> (int \<times> 's) exec" where
  "put_n stuff 0 c = skip"
| "put_n stuff (Suc n) c = and_then (put stuff [c]) (put_n stuff n c)"

section \<open>Conversions\<close>

definition fill2 :: "'s stuff \<Rightarrow> buf \<Rightarrow> int \<Rightarrow> int \<Rightarrow> flags \<Rightarrow> 's \<Rightarrow> (int \<times> 's) exec" where
  "fill2 stuff src srclen width fl =
     (let w = i32 (width - srclen) in
      and_then (if w > 0 \<and> \<not> LEFT fl then put_n stuff (nat w) (if ZEROS fl then 48 else 32) else skip)
        (and_then (put stuff (take (nat (srclen mod 4294967296)) src))
          (if w > 0 \<and> LEFT fl then put_n stuff (nat w) 32 else skip)))"

definition fill_n :: "'s stuff \<Rightarrow> buf \<Rightarrow> int \<Rightarrow> int \<Rightarrow> int \<Rightarrow> nat \<Rightarrow> flags \<Rightarrow> 's \<Rightarrow> (int \<times> 's) exec" where
  "fill_n stuff src srclen width prec type fl =
     (let sign = (if even type then
                    if NEG fl then [45] else if SIGNED fl then [43] else if SPACED fl then [32] else []
                  else []);
          cvtwidth = int (length sign) + srclen;
          precwidth = (if prec > 0 \<and> prec > srclen then prec - srclen else 0);
          cvtwidth = cvtwidth + precwidth;
          zerowidth = (if ZEROS fl \<and> prec < 0 \<and> width > cvtwidth then width - cvtwidth else 0);
          cvtwidth = cvtwidth + zerowidth;
          rightspaces = (if LEFT fl \<and> width > cvtwidth then width - cvtwidth else 0);
          leftspaces = (if \<not> LEFT fl \<and> width > cvtwidth then width - cvtwidth else 0)
      in and_then (put_n stuff (nat leftspaces) 32)
          (and_then (if sign \<noteq> [] then put stuff sign else skip)
            (and_then (put_n stuff (nat precwidth) 48)
              (and_then (put_n stuff (nat zerowidth) 48)
                (and_then (put stuff (take (nat srclen) src))
                  (put_n stuff (nat rightspaces) 32))))))"

text \<open>The loop of \<open>cvt_l\<close> and \<open>cvt_ll\<close>: the digits are written backwards into a buffer of 100 bytes.\<close>

function cvt_digits :: "nat \<Rightarrow> nat \<Rightarrow> buf \<Rightarrow> buf \<Rightarrow> buf exec" where
  "cvt_digits num radix hexp cvt =
     (if num = 0 then Some cvt
      else if radix < 2 \<or> length cvt = 100 then None
      else do { d \<leftarrow> rd hexp (num mod radix mod 16); cvt_digits (num div radix) radix hexp (d # cvt) })"
  by pat_completeness auto
termination by (relation "measure (\<lambda>(num, _). num)") auto

declare cvt_digits.simps [simp del]

definition cvt_l :: "'s stuff \<Rightarrow> int \<Rightarrow> int \<Rightarrow> int \<Rightarrow> nat \<Rightarrow> nat \<Rightarrow> flags \<Rightarrow> buf \<Rightarrow> 's \<Rightarrow> (int \<times> 's) exec" where
  "cvt_l stuff num width prec radix type fl hexp s =
     (if prec = 0 \<and> num = 0 then Some (0, s)
      else do { cvt \<leftarrow> cvt_digits (nat (num mod 2 ^ 64)) radix hexp [];
                let cvt = (if cvt = [] then [48] else cvt);
                fill_n stuff cvt (int (length cvt)) width prec type fl s })"

definition cvt_ll :: "'s stuff \<Rightarrow> int \<Rightarrow> int \<Rightarrow> int \<Rightarrow> nat \<Rightarrow> nat \<Rightarrow> flags \<Rightarrow> buf \<Rightarrow> 's \<Rightarrow> (int \<times> 's) exec" where
  "cvt_ll stuff num width prec radix type fl hexp s =
     (if prec = 0 \<and> num = 0 then Some (0, s)
      else do { cvt \<leftarrow> cvt_digits (nat (num mod 2 ^ 64)) radix hexp [];
                let cvt = (if cvt = [] then [48] else cvt);
                fill_n stuff cvt (int (length cvt)) width prec type fl s })"

definition cvt_f :: "(buf \<Rightarrow> 'd \<Rightarrow> buf) \<Rightarrow> 's stuff \<Rightarrow> 'd \<Rightarrow> buf \<Rightarrow> 's \<Rightarrow> (int \<times> 's) exec" where
  "cvt_f native stuff d fin s =
     (if length fin \<ge> 20 then Some (0, s)
      else let fout = native (fin @ [0]) d in
           if length fout \<ge> 300 then None else put stuff fout s)"

definition cvt_s :: "'s stuff \<Rightarrow> buf ptr \<Rightarrow> int \<Rightarrow> int \<Rightarrow> flags \<Rightarrow> 's \<Rightarrow> (int \<times> 's) exec" where
  "cvt_s stuff str width prec fl s =
     (if prec = 0 then Some (0, s)
      else do { let str = (case str of None \<Rightarrow> bytes_of ''(null)'' @ [0] | Some b \<Rightarrow> b);
                slen \<leftarrow> (if prec > 0 then map_option fst (scan_n str 0 (nat prec)) else c_strlen str);
                fill2 stuff str (i32 (int slen)) width fl s })"

section \<open>Numbered arguments\<close>

definition digit :: "byte \<Rightarrow> bool" where "digit c \<longleftrightarrow> 48 \<le> c \<and> c \<le> 57"

definition digit_val :: "byte \<Rightarrow> int" where "digit_val c = sint c - 48"

text \<open>First pass: the number of arguments that are numbered, or \<open>None\<close> when both styles are mixed. \<open>i\<close> says that
  one without a number was seen.\<close>

function count_numbered :: "buf \<Rightarrow> nat \<Rightarrow> nat \<Rightarrow> bool \<Rightarrow> nat option exec" where
  "count_numbered fmt p number i =
     do { c \<leftarrow> rd fmt p;
          if c = 0 then Some (Some number)
          else if c \<noteq> 37 then count_numbered fmt (p + 1) number i
          else do { c \<leftarrow> rd fmt (p + 1);
                    if c = 37 then count_numbered fmt (p + 2) number i
                    else do { e \<leftarrow> skip_while digit fmt (p + 1);
                              c \<leftarrow> rd fmt e;
                              if c = 0 then count_numbered fmt (e + 1) number i
                              else if c = 36 then
                                if i then Some None else count_numbered fmt (e + 1) (number + 1) i
                              else if number > 0 then Some None else count_numbered fmt (e + 1) number True } } }"
  by pat_completeness auto
termination
  by (relation "measure (\<lambda>(fmt, p, _). length fmt - p)") (auto simp: rd_eq_Some dest!: skip_while_range)

declare count_numbered.simps [simp del]

text \<open>\<open>while( c && c != '$' ) cn = cn*10 + c - '0';\<close>\<close>

function read_cn :: "buf \<Rightarrow> nat \<Rightarrow> int \<Rightarrow> (int \<times> nat) exec" where
  "read_cn fmt p cn =
     do { c \<leftarrow> rd fmt p;
          if c = 0 \<or> c = 36 then Some (cn, p) else read_cn fmt (p + 1) (i32 (cn * 10 + digit_val c)) }"
  by pat_completeness auto
termination by (relation "measure (\<lambda>(fmt, p, cn). length fmt - p)") (auto simp: rd_eq_Some)

declare read_cn.simps [simp del]

text \<open>The size letters\<close>

definition read_size :: "buf \<Rightarrow> nat \<Rightarrow> (nat \<times> nat) exec" where
  "read_size fmt p =
     do { c \<leftarrow> rd fmt p;
          if c = 104 then Some (TYPE_INT16, p + 1)
          else if c = 76 then Some (TYPE_INT64, p + 1)
          else if c = 108 then
            do { c \<leftarrow> rd fmt (p + 1);
                 Some (if c = 108 then (TYPE_INT64, p + 2) else (TYPE_INT32, p + 1)) }
          else Some (TYPE_INTN, p) }"

text \<open>The type of a numbered argument, from the character after the \<open>$\<close>; \<open>None\<close> for an error\<close>

definition format_type :: "byte \<Rightarrow> nat \<Rightarrow> nat" where
  "format_type c t =
     (if c \<in> {100, 99, 105, 111, 117, 120, 88} then t
      else if c \<in> {101, 102, 103} then TYPE_DOUBLE
      else if c = 112 then TYPE_UINT64
      else if c = 115 then TYPE_STRING
      else if c = 110 then TYPE_INTSTR
      else TYPE_UNKNOWN)"

definition numbered_type :: "buf \<Rightarrow> nat \<Rightarrow> (nat \<times> nat) option exec" where
  "numbered_type fmt p =
     do { c \<leftarrow> rd fmt p;
          if c = 42 then Some None
          else do { p \<leftarrow> skip_while digit fmt p;
                    c \<leftarrow> rd fmt p;
                    q \<leftarrow> (if c = 46 then
                           do { c \<leftarrow> rd fmt (p + 1);
                                if c = 42 then Some None
                                else do { e \<leftarrow> skip_while digit fmt (p + 1); Some (Some e) } }
                         else Some (Some p));
                    case q of
                      None \<Rightarrow> Some None
                    | Some p \<Rightarrow>
                        do { (t, p) \<leftarrow> read_size fmt p;
                             c \<leftarrow> rd fmt p;
                             let t = format_type c t;
                             Some (if t = TYPE_UNKNOWN then None else Some (t, p + 1)) } } }"

lemma read_size_range: "read_size fmt p = Some (t, q) \<Longrightarrow> p \<le> q"
  by (auto simp: read_size_def rd_eq_Some split: if_splits bind_splits)

lemma numbered_type_range: "numbered_type fmt p = Some (Some (t, q)) \<Longrightarrow> p < q"
  by (auto simp: numbered_type_def rd_eq_Some Let_def split: if_splits bind_splits option.splits prod.splits
      dest!: skip_while_range read_size_range)

lemma read_cn_range: "read_cn fmt p cn = Some (i, q) \<Longrightarrow> p \<le> q \<and> q < length fmt"
proof (induction fmt p cn rule: read_cn.induct)
  case (1 fmt p cn)
  show ?case using 1(2) [unfolded read_cn.simps [of fmt p cn]]
    using 1(1) by (auto simp: rd_eq_Some split: if_splits bind_splits)
qed

text \<open>Second pass: the types of the arguments; \<open>None\<close> for an error. A directive whose argument has a type already is
  left right after its \<open>$\<close>.\<close>

function set_types :: "buf \<Rightarrow> nat \<Rightarrow> nat list \<Rightarrow> nat list option exec" where
  "set_types fmt p nas =
     do { c \<leftarrow> rd fmt p;
          if c = 0 then Some (Some nas)
          else if c \<noteq> 37 then set_types fmt (p + 1) nas
          else do { c \<leftarrow> rd fmt (p + 1);
                    if c = 37 then set_types fmt (p + 2) nas
                    else do { (cn, q) \<leftarrow> read_cn fmt (p + 1) 0;
                              c \<leftarrow> rd fmt q;
                              if c = 0 \<or> cn < 1 \<or> cn > int (length nas) then Some None
                              else if nas ! nat (cn - 1) \<noteq> TYPE_UNKNOWN then set_types fmt (q + 1) nas
                              else do { r \<leftarrow> numbered_type fmt (q + 1);
                                        case r of
                                          None \<Rightarrow> Some None
                                        | Some (t, q') \<Rightarrow> set_types fmt q' (nas[nat (cn - 1) := t]) } } } }"
  by pat_completeness auto
termination
  by (relation "measure (\<lambda>(fmt, p, _). length fmt - p)")
    (auto simp: rd_eq_Some dest!: read_cn_range numbered_type_range)

declare set_types.simps [simp del]

text \<open>\<open>va_arg\<close> with the type of the third pass. The values of one width share a constructor.\<close>

definition va_arg :: "nat \<Rightarrow> 'd va list \<Rightarrow> ('d va \<times> 'd va list) exec" where
  "va_arg t ap =
     (case ap of
        [] \<Rightarrow> None
      | v # ap \<Rightarrow>
          if (case v of
                VInt _ \<Rightarrow> t \<in> {TYPE_INT16, TYPE_UINT16, TYPE_INTN, TYPE_UINTN, TYPE_INT32, TYPE_UINT32}
              | VInt64 _ \<Rightarrow> t \<in> {TYPE_INT64, TYPE_UINT64}
              | VStr _ \<Rightarrow> t = TYPE_STRING
              | VIntPtr _ \<Rightarrow> t = TYPE_INTSTR
              | VDouble _ \<Rightarrow> t = TYPE_DOUBLE)
          then Some (v, ap) else None)"

text \<open>Third pass: \<open>nas[cn].u\<close>; \<open>None\<close> where the type stays unknown\<close>

fun fetch_args :: "nat list \<Rightarrow> 'd va list \<Rightarrow> ('d va option list \<times> 'd va list) exec" where
  "fetch_args [] ap = Some ([], ap)"
| "fetch_args (t # ts) ap =
     (if t = TYPE_UNKNOWN then do { (us, ap) \<leftarrow> fetch_args ts ap; Some (None # us, ap) }
      else do { (v, ap) \<leftarrow> va_arg t ap; (us, ap) \<leftarrow> fetch_args ts ap; Some (Some v # us, ap) })"

text \<open>The result is \<open>Inl ()\<close> for \<open>*rv = -1\<close>, else the array (\<open>None\<close> is \<open>NULL\<close>) and the arguments left. \<open>mem n\<close> says
  whether \<open>PR_MALLOC(n)\<close> succeeds.\<close>

definition BuildArgArray :: "(nat \<Rightarrow> bool) \<Rightarrow> buf \<Rightarrow> 'd va list \<Rightarrow> (unit + 'd va option list ptr \<times> 'd va list) exec" where
  "BuildArgArray mem fmt ap =
     do { r \<leftarrow> count_numbered fmt 0 0 False;
          case r of
            None \<Rightarrow> Some (Inl ())
          | Some number \<Rightarrow>
              if number = 0 then Some (Inr (None, ap))
              else if number > 20 \<and> \<not> mem (number * 16) then Some (Inl ())
              else do { ts \<leftarrow> set_types fmt 0 (replicate number TYPE_UNKNOWN);
                        case ts of
                          None \<Rightarrow> Some (Inl ())
                        | Some ts \<Rightarrow> do { (us, ap) \<leftarrow> fetch_args ts ap; Some (Inr (Some us, ap)) } } }"

section \<open>The directives\<close>

function read_flags :: "buf \<Rightarrow> nat \<Rightarrow> flags \<Rightarrow> (flags \<times> nat) exec" where
  "read_flags fmt p fl =
     do { c \<leftarrow> rd fmt p;
          if c = 45 then read_flags fmt (p + 1) (fl\<lparr>LEFT := True\<rparr>)
          else if c = 43 then read_flags fmt (p + 1) (fl\<lparr>SIGNED := True\<rparr>)
          else if c = 32 then read_flags fmt (p + 1) (fl\<lparr>SPACED := True\<rparr>)
          else if c = 48 then read_flags fmt (p + 1) (fl\<lparr>ZEROS := True\<rparr>)
          else Some (fl, p) }"
  by pat_completeness auto
termination by (relation "measure (\<lambda>(fmt, p, fl). length fmt - p)") (auto simp: rd_eq_Some)

declare read_flags.simps [simp del]

definition settle_flags :: "flags \<Rightarrow> flags" where
  "settle_flags fl =
     (let fl = (if SIGNED fl then fl\<lparr>SPACED := False\<rparr> else fl)
      in if LEFT fl then fl\<lparr>ZEROS := False\<rparr> else fl)"

function read_num :: "buf \<Rightarrow> nat \<Rightarrow> int \<Rightarrow> (int \<times> nat) exec" where
  "read_num fmt p n =
     do { c \<leftarrow> rd fmt p;
          if digit c then read_num fmt (p + 1) (i32 (n * 10 + digit_val c)) else Some (n, p) }"
  by pat_completeness auto
termination by (relation "measure (\<lambda>(fmt, p, n). length fmt - p)") (auto simp: rd_eq_Some)

declare read_num.simps [simp del]

fun va_int :: "'d va list \<Rightarrow> (int \<times> 'd va list) exec" where
  "va_int (VInt n # ap) = Some (i32 n, ap)"
| "va_int _ = None"

definition read_width :: "buf \<Rightarrow> nat \<Rightarrow> 'd va list \<Rightarrow> (int \<times> nat \<times> 'd va list) exec" where
  "read_width fmt p ap =
     do { c \<leftarrow> rd fmt p;
          if c = 42 then do { (width, ap) \<leftarrow> va_int ap; Some (width, p + 1, ap) }
          else do { (width, p) \<leftarrow> read_num fmt p 0; Some (width, p, ap) } }"

definition read_prec :: "buf \<Rightarrow> nat \<Rightarrow> 'd va list \<Rightarrow> (int \<times> nat \<times> 'd va list) exec" where
  "read_prec fmt p ap =
     do { c \<leftarrow> rd fmt p;
          if c = 46 then read_width fmt (p + 1) ap else Some (-1, p, ap) }"

lemma read_flags_range: "read_flags fmt p fl = Some (fl', q) \<Longrightarrow> p \<le> q"
proof (induction fmt p fl rule: read_flags.induct)
  case (1 fmt p fl)
  show ?case using 1(5) [unfolded read_flags.simps [of fmt p fl]]
    using 1(1-4) by (force split: if_splits bind_splits)
qed

lemma read_num_range: "read_num fmt p n = Some (m, q) \<Longrightarrow> p \<le> q"
proof (induction fmt p n rule: read_num.induct)
  case (1 fmt p n)
  show ?case using 1(2) [unfolded read_num.simps [of fmt p n]]
    using 1(1) by (force split: if_splits bind_splits)
qed

lemma read_width_range: "read_width fmt p ap = Some (w, q, ap') \<Longrightarrow> p \<le> q"
  by (auto simp: read_width_def split: if_splits bind_splits prod.splits dest!: read_num_range)

lemma read_prec_range: "read_prec fmt p ap = Some (w, q, ap') \<Longrightarrow> p \<le> q"
  by (auto simp: read_prec_def split: if_splits bind_splits dest!: read_width_range)

text \<open>\<open>nas ? nap->u.x : va_arg(ap, t)\<close>: a member of the union other than the one stored is undefined.\<close>

definition fetch :: "'d va option \<Rightarrow> 'd va list \<Rightarrow> ('d va \<times> 'd va list) exec" where
  "fetch nap ap =
     (case nap of
        Some v \<Rightarrow> Some (v, ap)
      | None \<Rightarrow> (case ap of [] \<Rightarrow> None | v # ap \<Rightarrow> Some (v, ap)))"

definition hex :: buf where "hex = bytes_of ''0123456789abcdef''"
definition HEX :: buf where "HEX = bytes_of ''0123456789ABCDEF''"

type_synonym ('s, 'd) out = "int \<times> 's \<times> 'd va list \<times> (nat \<times> int) list"

text \<open>The label \<open>fetch_and_convert\<close>\<close>

definition convert_int :: "'s stuff \<Rightarrow> 'd va \<Rightarrow> int \<Rightarrow> int \<Rightarrow> nat \<Rightarrow> nat \<Rightarrow> flags \<Rightarrow> buf \<Rightarrow> 's \<Rightarrow> (int \<times> 's) exec" where
  "convert_int stuff v width prec radix type fl hexp s =
     (case v of
        VInt n \<Rightarrow>
          if type = TYPE_INT16 \<or> type = TYPE_INTN \<or> type = TYPE_INT32 then
            (let l = i32 n in
             if l < 0 then cvt_l stuff (- l) width prec radix type (fl\<lparr>NEG := True\<rparr>) hexp s
             else cvt_l stuff l width prec radix type fl hexp s)
          else if type = TYPE_UINT16 then cvt_l stuff (n mod 65536) width prec radix type fl hexp s
          else if type = TYPE_UINTN \<or> type = TYPE_UINT32 then
            cvt_l stuff (n mod 4294967296) width prec radix type fl hexp s
          else None
      | VInt64 n \<Rightarrow>
          if type = TYPE_INT64 then
            (let ll = i64 n in
             if ll < 0 then cvt_ll stuff (i64 (- ll)) width prec radix type (fl\<lparr>NEG := True\<rparr>) hexp s
             else cvt_ll stuff ll width prec radix type fl hexp s)
          else if type = TYPE_UINT64 then cvt_ll stuff (i64 n) width prec radix type fl hexp s
          else None
      | _ \<Rightarrow> None)"

text \<open>The case \<open>c\<close>\<close>

definition convert_char :: "'s stuff \<Rightarrow> byte \<Rightarrow> int \<Rightarrow> flags \<Rightarrow> 's \<Rightarrow> (int \<times> 's) exec" where
  "convert_char stuff ch width fl =
     and_then (if LEFT fl then skip else put_n stuff (nat (width - 1)) 32)
       (and_then (put stuff [ch])
         (if LEFT fl then put_n stuff (nat (width - 1)) 32 else skip))"

text \<open>An argument of the constructor that a conversion needs\<close>

definition convert_arg :: "(buf \<Rightarrow> 'd \<Rightarrow> buf) \<Rightarrow> 's stuff \<Rightarrow> 'd va \<Rightarrow> byte \<Rightarrow> buf option \<Rightarrow> int \<Rightarrow> int \<Rightarrow> nat \<Rightarrow> flags \<Rightarrow> 's \<Rightarrow> (int \<times> 's) exec" where
  "convert_arg native stuff v c pattern width prec type fl s =
     (if c = 100 \<or> c = 105 then convert_int stuff v width prec 10 type fl hex s
      else if c = 111 then convert_int stuff v width prec 8 (type OR 1) fl hex s
      else if c = 117 then convert_int stuff v width prec 10 (type OR 1) fl hex s
      else if c = 120 then convert_int stuff v width prec 16 (type OR 1) fl hex s
      else if c = 88 then convert_int stuff v width prec 16 (type OR 1) fl HEX s
      else if c = 112 then convert_int stuff v width prec 16 TYPE_UINT64 fl hex s
      else if c = 99 then (case v of VInt n \<Rightarrow> convert_char stuff (word_of_int n) width fl s | _ \<Rightarrow> None)
      else if c = 115 then (case v of VStr str \<Rightarrow> cvt_s stuff str width prec fl s | _ \<Rightarrow> None)
      else (case v of
              VDouble d \<Rightarrow> (case pattern of None \<Rightarrow> skip s | Some fin \<Rightarrow> cvt_f native stuff d fin s)
            | _ \<Rightarrow> None))"

text \<open>The \<open>switch\<close> on the conversion character. \<open>pos\<close> is \<open>ss->cur - ss->base\<close>; \<open>pattern\<close> is what is handed to
  \<open>cvt_f\<close>, \<open>None\<close> when it does not fit.\<close>

definition convert :: "(buf \<Rightarrow> 'd \<Rightarrow> buf) \<Rightarrow> 's stuff \<Rightarrow> ('s \<Rightarrow> int exec) \<Rightarrow> 'd va option \<Rightarrow> 'd va list \<Rightarrow> byte \<Rightarrow> buf option \<Rightarrow> int \<Rightarrow> int \<Rightarrow> nat \<Rightarrow> flags \<Rightarrow> 's \<Rightarrow> ('s, 'd) out exec" where
  "convert native stuff pos nap ap c pattern width prec type fl s =
     (if c \<in> {100, 105, 111, 117, 120, 88, 112, 99, 115, 101, 69, 102, 103} then
        do { (v, ap) \<leftarrow> fetch nap ap;
             (rv, s) \<leftarrow> convert_arg native stuff v c pattern width prec type fl s;
             Some (rv, s, ap, []) }
      else if c = 110 then
        do { (v, ap) \<leftarrow> fetch nap ap;
             case v of
               VIntPtr None \<Rightarrow> Some (0, s, ap, [])
             | VIntPtr (Some ip) \<Rightarrow> do { n \<leftarrow> pos s; Some (0, s, ap, [(ip, i32 n)]) }
             | _ \<Rightarrow> None }
      else if c = 83 then Some (0, s, ap, [])
      else do { (rv, s) \<leftarrow> and_then (put stuff [37]) (put stuff [c]) s; Some (rv, s, ap, []) })"

text \<open>A numbered directive: the argument and \<open>dolPt\<close>; \<open>Inl ()\<close> for \<open>return -1\<close>\<close>

definition find_arg :: "'d va option list ptr \<Rightarrow> buf \<Rightarrow> nat \<Rightarrow> (unit + 'd va option \<times> nat) exec" where
  "find_arg nas fmt p =
     (case nas of
        None \<Rightarrow> Some (Inr (None, p))
      | Some nas \<Rightarrow>
          do { (i, q) \<leftarrow> read_cn fmt p 0;
               if i < 1 then None
               else do { nap \<leftarrow> rd nas (nat (i - 1));
                         case nap of None \<Rightarrow> Some (Inl ()) | Some v \<Rightarrow> Some (Inr (Some v, q + 1)) } })"

text \<open>A directive from the character after its \<open>%\<close>: its effect and where the next one is looked for\<close>

definition directive :: "(buf \<Rightarrow> 'd \<Rightarrow> buf) \<Rightarrow> 's stuff \<Rightarrow> ('s \<Rightarrow> int exec) \<Rightarrow> 'd va option list ptr \<Rightarrow> buf \<Rightarrow> nat \<Rightarrow> 'd va list \<Rightarrow> 's \<Rightarrow> (int \<times> 's \<times> 'd va list \<times> (nat \<times> int) list \<times> nat) exec" where
  "directive native stuff pos nas fmt p ap s =
     do { r \<leftarrow> find_arg nas fmt p;
          case r of
            Inl _ \<Rightarrow> Some (-1, s, ap, [], p)
          | Inr (nap, dolPt) \<Rightarrow>
              do { (fl, q) \<leftarrow> read_flags fmt dolPt no_flags;
                   (width, q, ap) \<leftarrow> read_width fmt q ap;
                   (prec, q, ap) \<leftarrow> read_prec fmt q ap;
                   (type, q) \<leftarrow> read_size fmt q;
                   c \<leftarrow> rd fmt q;
                   let pattern = (if nas = None then Some (take (q + 2 - p) (drop (p - 1) fmt))
                                  else if q + 1 - dolPt < 20 then Some (37 # take (q + 1 - dolPt) (drop dolPt fmt))
                                  else None);
                   (rv, s, ap, ws) \<leftarrow> convert native stuff pos nap ap c pattern width prec type (settle_flags fl) s;
                   Some (rv, s, ap, ws, q + 1) } }"

lemma read_cn_mono: "read_cn fmt p cn = Some (i, q) \<Longrightarrow> p \<le> q"
  using read_cn_range by blast

lemma directive_range:
  assumes "directive native stuff pos nas fmt p ap s = Some (rv, s', ap', ws, q)" "0 \<le> rv"
  shows "p < q"
  using assms
  by (auto simp: directive_def find_arg_def Let_def split: option.splits sum.splits bind_splits prod.splits if_splits
      dest!: read_cn_mono read_flags_range read_width_range read_prec_range read_size_range)

section \<open>The loop\<close>

function dosprintf_loop :: "(buf \<Rightarrow> 'd \<Rightarrow> buf) \<Rightarrow> 's stuff \<Rightarrow> ('s \<Rightarrow> int exec) \<Rightarrow> 'd va option list ptr \<Rightarrow> buf \<Rightarrow> nat \<Rightarrow> 'd va list \<Rightarrow> 's \<Rightarrow> (int \<times> 's \<times> (nat \<times> int) list) exec" where
  "dosprintf_loop native stuff pos nas fmt p ap s =
     do { c \<leftarrow> rd fmt p;
          if c = 0 then do { (rv, s) \<leftarrow> put stuff [0] s; Some (rv, s, []) }
          else if c \<noteq> 37 then
            do { (rv, s) \<leftarrow> put stuff [c] s;
                 if rv < 0 then Some (rv, s, []) else dosprintf_loop native stuff pos nas fmt (p + 1) ap s }
          else do { c \<leftarrow> rd fmt (p + 1);
                    if c = 37 then
                      do { (rv, s) \<leftarrow> put stuff [c] s;
                           if rv < 0 then Some (rv, s, []) else dosprintf_loop native stuff pos nas fmt (p + 2) ap s }
                    else do { (rv, s, ap, ws, q) \<leftarrow> directive native stuff pos nas fmt (p + 1) ap s;
                              if rv < 0 then Some (rv, s, ws)
                              else do { (rv, s, ws') \<leftarrow> dosprintf_loop native stuff pos nas fmt q ap s;
                                        Some (rv, s, ws @ ws') } } } }"
  by pat_completeness auto
termination
  by (relation "measure (\<lambda>(native, stuff, pos, nas, fmt, p, _). length fmt - p)")
    (auto simp: rd_eq_Some dest!: directive_range)

declare dosprintf_loop.simps [simp del]

definition dosprintf :: "(nat \<Rightarrow> bool) \<Rightarrow> (buf \<Rightarrow> 'd \<Rightarrow> buf) \<Rightarrow> 's stuff \<Rightarrow> ('s \<Rightarrow> int exec) \<Rightarrow> buf \<Rightarrow> 'd va list \<Rightarrow> 's \<Rightarrow> (int \<times> 's \<times> (nat \<times> int) list) exec" where
  "dosprintf mem native stuff pos fmt ap s =
     do { r \<leftarrow> BuildArgArray mem fmt ap;
          case r of
            Inl _ \<Rightarrow> Some (-1, s, [])
          | Inr (nas, ap) \<Rightarrow> dosprintf_loop native stuff pos nas fmt 0 ap s }"

section \<open>Sinks\<close>

text \<open>\<open>while (len) { --len; *ss->cur++ = *sp++; }\<close>\<close>

fun put_bytes :: "buf \<Rightarrow> nat \<Rightarrow> buf \<Rightarrow> buf exec" where
  "put_bytes b i [] = Some b"
| "put_bytes b i (x # xs) = do { b \<leftarrow> wr b i x; put_bytes b (i + 1) xs }"

text \<open>\<open>cur\<close> is the offset \<open>ss->cur - ss->base\<close>.\<close>

record SprintfState =
  base :: "buf ptr"
  cur :: nat
  maxlen :: u32

definition LimitStuff :: "SprintfState stuff" where
  "LimitStuff ss sp =
     (let limit = maxlen ss - word_of_nat (cur ss);
          len = min (word_of_nat (length sp)) limit
      in case base ss of
           None \<Rightarrow> if len = 0 then Some (0, ss) else None
         | Some b \<Rightarrow> do { b \<leftarrow> put_bytes b (cur ss) (take (unat len) sp);
                         Some (0, ss\<lparr>base := Some b, cur := cur ss + unat len\<rparr>) })"

text \<open>\<open>realloc None n\<close> is \<open>PR_MALLOC(n)\<close>, \<open>realloc (Some b) n\<close> is \<open>PR_REALLOC(b, n)\<close>.\<close>

definition GrowStuff :: "(buf ptr \<Rightarrow> nat \<Rightarrow> buf ptr) \<Rightarrow> SprintfState stuff" where
  "GrowStuff realloc ss sp =
     (let len = word_of_nat (length sp) :: u32;
          ss' = (if cur ss + unat len \<ge> unat (maxlen ss) then
                   let newlen = maxlen ss + (if len > 32 then len else 32)
                   in case realloc (base ss) (unat newlen) of
                        None \<Rightarrow> None
                      | Some newbase \<Rightarrow> Some (ss\<lparr>base := Some newbase, maxlen := newlen\<rparr>)
                 else Some ss)
      in case ss' of
           None \<Rightarrow> Some (-1, ss)
         | Some ss \<Rightarrow>
             (case base ss of
                None \<Rightarrow> if len = 0 then Some (0, ss) else None
              | Some b \<Rightarrow> do { b \<leftarrow> put_bytes b (cur ss) (take (unat len) sp);
                              Some (0, ss\<lparr>base := Some b, cur := cur ss + unat len\<rparr>) }))"

text \<open>\<open>ss->func\<close> with its \<open>ss->arg\<close> is itself a sink.\<close>

definition FuncStuff :: "'a stuff \<Rightarrow> ('a \<times> u32) stuff" where
  "FuncStuff func ss sp =
     (case ss of (arg, len) \<Rightarrow>
        do { (rv, arg) \<leftarrow> func arg sp;
             Some (if rv < 0 then (rv, arg, len) else (0, arg, len + word_of_nat (length sp))) })"

definition off :: "SprintfState \<Rightarrow> int exec" where
  "off ss = Some (int (cur ss))"

section \<open>Entry points\<close>

text \<open>Each returns the result of the C function, with the buffer or argument it changed and the stores of \<open>%n\<close>.
  \<open>PR_vsxprintf\<close> leaves \<open>ss.cur\<close> and \<open>ss.base\<close> without a value.\<close>

definition PR_vsxprintf :: "(nat \<Rightarrow> bool) \<Rightarrow> (buf \<Rightarrow> 'd \<Rightarrow> buf) \<Rightarrow> 'a stuff \<Rightarrow> 'a \<Rightarrow> buf \<Rightarrow> 'd va list \<Rightarrow> (u32 \<times> 'a) exec" where
  "PR_vsxprintf mem native func arg fmt ap =
     do { (rv, (arg, len), _) \<leftarrow> dosprintf mem native (FuncStuff func) (\<lambda>_. None) fmt ap (arg, 0);
          Some (if rv < 0 then (-1, arg) else (len, arg)) }"

definition PR_vsmprintf :: "(nat \<Rightarrow> bool) \<Rightarrow> (buf \<Rightarrow> 'd \<Rightarrow> buf) \<Rightarrow> (buf ptr \<Rightarrow> nat \<Rightarrow> buf ptr) \<Rightarrow> buf \<Rightarrow> 'd va list \<Rightarrow> (buf ptr \<times> (nat \<times> int) list) exec" where
  "PR_vsmprintf mem native realloc fmt ap =
     do { (rv, ss, ws) \<leftarrow> dosprintf mem native (GrowStuff realloc) off fmt ap \<lparr>base = None, cur = 0, maxlen = 0\<rparr>;
          Some (if rv < 0 then None else base ss, ws) }"

definition PR_vsnprintf :: "(nat \<Rightarrow> bool) \<Rightarrow> (buf \<Rightarrow> 'd \<Rightarrow> buf) \<Rightarrow> buf \<Rightarrow> u32 \<Rightarrow> buf \<Rightarrow> 'd va list \<Rightarrow> (u32 \<times> buf \<times> (nat \<times> int) list) exec" where
  "PR_vsnprintf mem native out outlen fmt ap =
     (if sint outlen \<le> 0 then Some (0, out, [])
      else do { (rv, ss, ws) \<leftarrow> dosprintf mem native LimitStuff off fmt ap \<lparr>base = Some out, cur = 0, maxlen = outlen\<rparr>;
                b \<leftarrow> base ss;
                b \<leftarrow> (if cur ss \<noteq> 0 then
                       do { c \<leftarrow> rd b (cur ss - 1); if c \<noteq> 0 then wr b (cur ss - 1) 0 else Some b }
                     else Some b);
                let n = (word_of_nat (cur ss) :: u32);
                Some (if n \<noteq> 0 then n - 1 else n, b, ws) })"

definition PR_vsprintf_append :: "(nat \<Rightarrow> bool) \<Rightarrow> (buf \<Rightarrow> 'd \<Rightarrow> buf) \<Rightarrow> (buf ptr \<Rightarrow> nat \<Rightarrow> buf ptr) \<Rightarrow> buf ptr \<Rightarrow> buf \<Rightarrow> 'd va list \<Rightarrow> (buf ptr \<times> (nat \<times> int) list) exec" where
  "PR_vsprintf_append mem native realloc prev fmt ap =
     do { ss \<leftarrow> (case prev of
                   None \<Rightarrow> Some \<lparr>base = None, cur = 0, maxlen = 0\<rparr>
                 | Some b \<Rightarrow> do { lastlen \<leftarrow> c_strlen b;
                                 let lastlen = i32 (int lastlen);
                                 Some \<lparr>base = prev, cur = nat lastlen, maxlen = word_of_int lastlen\<rparr> });
          (rv, ss, ws) \<leftarrow> dosprintf mem native (GrowStuff realloc) off fmt ap ss;
          Some (if rv < 0 then None else base ss, ws) }"

text \<open>The functions with \<open>...\<close> pass on the list of their arguments.\<close>

definition PR_sxprintf :: "(nat \<Rightarrow> bool) \<Rightarrow> (buf \<Rightarrow> 'd \<Rightarrow> buf) \<Rightarrow> 'a stuff \<Rightarrow> 'a \<Rightarrow> buf \<Rightarrow> 'd va list \<Rightarrow> (u32 \<times> 'a) exec" where
  "PR_sxprintf mem native func arg fmt args = PR_vsxprintf mem native func arg fmt args"

definition PR_smprintf :: "(nat \<Rightarrow> bool) \<Rightarrow> (buf \<Rightarrow> 'd \<Rightarrow> buf) \<Rightarrow> (buf ptr \<Rightarrow> nat \<Rightarrow> buf ptr) \<Rightarrow> buf \<Rightarrow> 'd va list \<Rightarrow> (buf ptr \<times> (nat \<times> int) list) exec" where
  "PR_smprintf mem native realloc fmt args = PR_vsmprintf mem native realloc fmt args"

definition PR_snprintf :: "(nat \<Rightarrow> bool) \<Rightarrow> (buf \<Rightarrow> 'd \<Rightarrow> buf) \<Rightarrow> buf \<Rightarrow> u32 \<Rightarrow> buf \<Rightarrow> 'd va list \<Rightarrow> (u32 \<times> buf \<times> (nat \<times> int) list) exec" where
  "PR_snprintf mem native out outlen fmt args = PR_vsnprintf mem native out outlen fmt args"

definition PR_sprintf_append :: "(nat \<Rightarrow> bool) \<Rightarrow> (buf \<Rightarrow> 'd \<Rightarrow> buf) \<Rightarrow> (buf ptr \<Rightarrow> nat \<Rightarrow> buf ptr) \<Rightarrow> buf ptr \<Rightarrow> buf \<Rightarrow> 'd va list \<Rightarrow> (buf ptr \<times> (nat \<times> int) list) exec" where
  "PR_sprintf_append mem native realloc prev fmt args = PR_vsprintf_append mem native realloc prev fmt args"

text \<open>\<open>src/nsprpub/pr/src/io/prstdio.c\<close>: \<open>write fd x\<close> is \<open>PR_Write\<close>, with the state of the file it leaves.\<close>

definition PR_vfprintf :: "(nat \<Rightarrow> bool) \<Rightarrow> (buf \<Rightarrow> 'd \<Rightarrow> buf) \<Rightarrow> (buf ptr \<Rightarrow> nat \<Rightarrow> buf ptr) \<Rightarrow> 'f stuff \<Rightarrow> 'f \<Rightarrow> buf \<Rightarrow> 'd va list \<Rightarrow> (u32 \<times> 'f \<times> (nat \<times> int) list) exec" where
  "PR_vfprintf mem native realloc write fd fmt ap =
     do { (msg, ws) \<leftarrow> PR_vsmprintf mem native realloc fmt ap;
          case msg of
            None \<Rightarrow> Some (-1, fd, ws)
          | Some msg \<Rightarrow>
              do { len \<leftarrow> c_strlen msg;
                   let len = (word_of_nat len :: u32);
                   (rv, fd) \<leftarrow> write fd (take (unat len) msg);
                   Some (word_of_int rv, fd, ws) } }"

definition PR_fprintf :: "(nat \<Rightarrow> bool) \<Rightarrow> (buf \<Rightarrow> 'd \<Rightarrow> buf) \<Rightarrow> (buf ptr \<Rightarrow> nat \<Rightarrow> buf ptr) \<Rightarrow> 'f stuff \<Rightarrow> 'f \<Rightarrow> buf \<Rightarrow> 'd va list \<Rightarrow> (u32 \<times> 'f \<times> (nat \<times> int) list) exec" where
  "PR_fprintf mem native realloc write fd fmt args = PR_vfprintf mem native realloc write fd fmt args"

section \<open>The text of a format\<close>

text \<open>The abstract sink keeps the text itself, of fewer than \<open>2^30\<close> bytes. What \<open>dosprintf\<close> gives it is the text that
  the format denotes, with its NUL; a sink with another representation receives the same text.\<close>

definition collect :: "buf stuff" where
  "collect t x = (if int (length t + length x) < 1073741824 then Some (0, t @ x) else None)"

definition text_len :: "buf \<Rightarrow> int exec" where
  "text_len t = Some (int (length t))"

definition sprintf_text :: "(buf \<Rightarrow> int exec) \<Rightarrow> (nat \<Rightarrow> bool) \<Rightarrow> (buf \<Rightarrow> 'd \<Rightarrow> buf) \<Rightarrow> buf \<Rightarrow> 'd va list \<Rightarrow> buf option" where
  "sprintf_text pos mem native fmt ap =
     (case dosprintf mem native collect pos fmt ap [] of
        None \<Rightarrow> None
      | Some (rv, t, ws) \<Rightarrow> if rv < 0 then None else Some (butlast t))"

text \<open>\<open>sim R F f g\<close>: where \<open>f\<close> is defined on a state, \<open>g\<close> is on a related one, and fails with \<open>F\<close> or ends related.\<close>

definition sim :: "('a \<Rightarrow> 's \<Rightarrow> bool) \<Rightarrow> ('s \<Rightarrow> bool) \<Rightarrow> ('a \<Rightarrow> (int \<times> 'a) exec) \<Rightarrow> ('s \<Rightarrow> (int \<times> 's) exec) \<Rightarrow> bool" where
  "sim R F f g \<longleftrightarrow>
     (\<forall>a s r a'. R a s \<longrightarrow> f a = Some (r, a') \<longrightarrow>
        (\<exists>rc s'. g s = Some (rc, s') \<and> (0 \<le> r \<and> 0 \<le> rc \<and> R a' s' \<or> rc < 0 \<and> F s')))"

lemma simD:
  assumes "sim R F f g" "R a s" "f a = Some (r, a')"
  obtains rc s' where "g s = Some (rc, s')" "0 \<le> r" "0 \<le> rc" "R a' s'"
  | rc s' where "g s = Some (rc, s')" "rc < 0" "F s'"
  using assms unfolding sim_def by blast

locale sink_refinement =
  fixes stuffA :: "'a stuff" and posA :: "'a \<Rightarrow> int exec"
    and stuffC :: "'s stuff" and posC :: "'s \<Rightarrow> int exec"
    and R :: "'a \<Rightarrow> 's \<Rightarrow> bool" and F :: "'s \<Rightarrow> bool"
  assumes stuff_sim: "sim R F (\<lambda>a. stuffA a x) (\<lambda>s. stuffC s x)"
    and pos_sim: "R a s \<Longrightarrow> posA a = Some n \<Longrightarrow> \<exists>m. posC s = Some m"
begin

lemma sim_put: "sim R F (put stuffA x) (put stuffC x)"
  using stuff_sim by (simp add: sim_def put_def)

lemma sim_skip: "sim R F skip skip"
  by (simp add: sim_def skip_def)

lemma sim_and_then:
  assumes "sim R F f g" "sim R F f' g'"
  shows "sim R F (and_then f f') (and_then g g')"
  unfolding sim_def
proof (intro allI impI)
  fix a s r a'
  assume R: "R a s" and "and_then f f' a = Some (r, a')"
  then obtain r1 a1 where 1: "f a = Some (r1, a1)" and 2: "(if r1 < 0 then Some (r1, a1) else f' a1) = Some (r, a')"
    by (auto simp: and_then_def split: bind_splits)
  show "\<exists>rc s'. and_then g g' s = Some (rc, s') \<and> (0 \<le> r \<and> 0 \<le> rc \<and> R a' s' \<or> rc < 0 \<and> F s')"
  proof (rule simD [OF assms(1) R 1])
    fix rc s' assume g: "g s = Some (rc, s')" "0 \<le> r1" "0 \<le> rc" "R a1 s'"
    show ?thesis
      by (rule simD [OF assms(2) g(4), of r a']) (use 2 g in \<open>auto simp: and_then_def\<close>)
  qed (auto simp: and_then_def)
qed

lemma sim_if: "sim R F f g \<Longrightarrow> sim R F f' g' \<Longrightarrow> sim R F (if c then f else f') (if c then g else g')"
  by simp

lemma sim_put_n: "sim R F (put_n stuffA n c) (put_n stuffC n c)"
  by (induction n) (simp_all add: sim_skip sim_and_then sim_put)

lemmas sim_intros = sim_and_then sim_if sim_put sim_skip sim_put_n

lemma sim_fill2: "sim R F (fill2 stuffA src n w fl) (fill2 stuffC src n w fl)"
  unfolding fill2_def Let_def by (intro sim_intros)

lemma sim_fill_n: "sim R F (fill_n stuffA src n w p t fl) (fill_n stuffC src n w p t fl)"
  unfolding fill_n_def Let_def by (intro sim_intros)

lemma sim_None: "sim R F (\<lambda>a. None) g"
  by (simp add: sim_def)

lemma sim_bind:
  assumes "\<And>v. x = Some v \<Longrightarrow> sim R F (f v) (g v)"
  shows "sim R F (\<lambda>a. Option.bind x (\<lambda>v. f v a)) (\<lambda>s. Option.bind x (\<lambda>v. g v s))"
  using assms by (cases x) (simp_all add: sim_None)

lemma sim_ret: "sim R F (\<lambda>a. Some (0, a)) (\<lambda>s. Some (0, s))"
  by (simp add: sim_def)

lemma sim_ite:
  "(c \<Longrightarrow> sim R F f g) \<Longrightarrow> (\<not> c \<Longrightarrow> sim R F f' g') \<Longrightarrow>
   sim R F (\<lambda>a. if c then f a else f' a) (\<lambda>s. if c then g s else g' s)"
  by (cases c) simp_all

lemmas sim_steps = sim_ret sim_ite sim_bind sim_None

lemma sim_cvt_l: "sim R F (cvt_l stuffA num w p r t fl h) (cvt_l stuffC num w p r t fl h)"
  unfolding cvt_l_def Let_def by (intro sim_steps sim_fill_n)

lemma sim_cvt_ll: "sim R F (cvt_ll stuffA num w p r t fl h) (cvt_ll stuffC num w p r t fl h)"
  unfolding cvt_ll_def Let_def by (intro sim_steps sim_fill_n)

lemma sim_cvt_f: "sim R F (cvt_f native stuffA d fin) (cvt_f native stuffC d fin)"
  unfolding cvt_f_def Let_def by (intro sim_steps sim_put)

lemma sim_cvt_s: "sim R F (cvt_s stuffA str w p fl) (cvt_s stuffC str w p fl)"
  unfolding cvt_s_def Let_def by (intro sim_steps sim_fill2)

lemma sim_convert_int: "sim R F (convert_int stuffA v w p r t fl h) (convert_int stuffC v w p r t fl h)"
  unfolding convert_int_def Let_def
  by (cases v; simp only: va.case; intro sim_steps sim_cvt_l sim_cvt_ll)

lemma sim_convert_char: "sim R F (convert_char stuffA ch w fl) (convert_char stuffC ch w fl)"
  unfolding convert_char_def by (intro sim_intros)

lemma sim_convert_arg:
  "sim R F (convert_arg native stuffA v c pat w p t fl) (convert_arg native stuffC v c pat w p t fl)"
  unfolding convert_arg_def
  by (cases v; cases pat; simp only: va.case option.case;
      intro sim_steps sim_convert_int sim_convert_char sim_cvt_s sim_cvt_f sim_skip)

text \<open>The same for what also moves the list of arguments: it ends with the same arguments.\<close>

lemma convert_sim:
  assumes "R a s" "convert native stuffA posA nap ap c pat w p t fl a = Some (r, a', ap', ws)"
  shows "\<exists>rc s' ws'. convert native stuffC posC nap ap c pat w p t fl s = Some (rc, s', ap', ws') \<and>
           (0 \<le> r \<and> 0 \<le> rc \<and> R a' s' \<or> rc < 0 \<and> F s')"
proof -
  consider (arg) "c \<in> {100, 105, 111, 117, 120, 88, 112, 99, 115, 101, 69, 102, 103}"
    | (n) "c = 110" | (S) "c = 83"
    | (other) "c \<notin> {100, 105, 111, 117, 120, 88, 112, 99, 115, 101, 69, 102, 103}" "c \<noteq> 110" "c \<noteq> 83"
    by blast
  then show ?thesis
  proof cases
    case arg
    then obtain v where v: "fetch nap ap = Some (v, ap')"
      "convert_arg native stuffA v c pat w p t fl a = Some (r, a')"
      using assms(2) by (auto simp: convert_def split: bind_splits)
    show ?thesis
      by (rule simD [OF sim_convert_arg assms(1) v(2)]) (use arg v(1) in \<open>auto simp: convert_def\<close>)
  next
    case n
    then show ?thesis using assms(2) pos_sim [OF assms(1)] assms(1)
      by (auto simp: convert_def split: bind_splits va.splits option.splits)
  next
    case S
    then show ?thesis using assms by (auto simp: convert_def)
  next
    case other
    then have "and_then (put stuffA [37]) (put stuffA [c]) a = Some (r, a')" "ap' = ap"
      using assms(2) by (auto simp: convert_def split: bind_splits)
    then show ?thesis
      by (elim simD [OF sim_and_then [OF sim_put sim_put] assms(1)]) (use other in \<open>auto simp: convert_def\<close>)
  qed
qed

text \<open>A directive may also fail for its own reasons, with the sink as it was.\<close>

definition rel :: "int \<Rightarrow> 'a \<Rightarrow> int \<Rightarrow> 's \<Rightarrow> bool" where
  "rel r a rc s \<longleftrightarrow> 0 \<le> r \<and> 0 \<le> rc \<and> R a s \<or> rc < 0 \<and> (F s \<or> r < 0 \<and> R a s)"

lemma directive_sim:
  assumes "R a s" "directive native stuffA posA nas fmt p ap a = Some (r, a', ap', ws, q)"
  shows "\<exists>rc s' ws'. directive native stuffC posC nas fmt p ap s = Some (rc, s', ap', ws', q) \<and> rel r a' rc s'"
proof -
  obtain x where x: "find_arg nas fmt p = Some x"
    using assms(2) by (auto simp: directive_def split: bind_splits)
  show ?thesis
  proof (cases x)
    case (Inl u)
    then show ?thesis using assms x by (auto simp: directive_def rel_def)
  next
    case (Inr y)
    then obtain nap dolPt where y: "x = Inr (nap, dolPt)" by (cases y) auto
    obtain fl q1 where 1: "read_flags fmt dolPt no_flags = Some (fl, q1)"
      using assms(2) x y by (auto simp: directive_def split: bind_splits)
    obtain w q2 ap2 where 2: "read_width fmt q1 ap = Some (w, q2, ap2)"
      using assms(2) x y 1 by (auto simp: directive_def split: bind_splits)
    obtain pr q3 ap3 where 3: "read_prec fmt q2 ap2 = Some (pr, q3, ap3)"
      using assms(2) x y 1 2 by (auto simp: directive_def split: bind_splits)
    obtain t q4 c where 4: "read_size fmt q3 = Some (t, q4)" "rd fmt q4 = Some c"
      using assms(2) x y 1 2 3 by (auto simp: directive_def split: bind_splits)
    define pat where "pat = (if nas = None then Some (take (q4 + 2 - p) (drop (p - 1) fmt))
      else if q4 + 1 - dolPt < 20 then Some (37 # take (q4 + 1 - dolPt) (drop dolPt fmt)) else None)"
    note d = directive_def x y 1 2 3 4 Let_def pat_def [symmetric]
    have "convert native stuffA posA nap ap3 c pat w pr t (settle_flags fl) a = Some (r, a', ap', ws)" "q = q4 + 1"
      using assms(2) by (auto simp: d split: bind_splits)
    then show ?thesis using convert_sim [OF assms(1)] by (fastforce simp: d rel_def)
  qed
qed

lemma put_sim:
  assumes "R a s" "put stuffA x a = Some (r, a')"
  shows "0 \<le> r \<and> (\<exists>rc s'. put stuffC x s = Some (rc, s') \<and> 0 \<le> rc \<and> R a' s') \<or>
    (\<exists>rc s'. put stuffC x s = Some (rc, s') \<and> rc < 0 \<and> F s')"
  by (rule simD [OF sim_put assms]) auto

lemma loop_sim:
  assumes "R a s" "dosprintf_loop native stuffA posA nas fmt p ap a = Some (r, a', ws)"
  shows "\<exists>rc s' ws'. dosprintf_loop native stuffC posC nas fmt p ap s = Some (rc, s', ws') \<and> rel r a' rc s'"
  using assms
proof (induction "length fmt - p" arbitrary: p ap a s ws rule: less_induct)
  case less
  note A = less(3) [unfolded dosprintf_loop.simps [of native stuffA posA nas fmt p ap a]]
  note C = dosprintf_loop.simps [of native stuffC posC nas fmt p ap s]
  obtain c where c: "rd fmt p = Some c" using A by (auto split: bind_splits)
  then have lt: "p < length fmt" by (simp add: rd_eq_Some)
  have out: "\<exists>rc s' ws'. Option.bind (put stuffC [x] s) (\<lambda>(rv, s). if rv < 0 then Some (rv, s, [])
        else dosprintf_loop native stuffC posC nas fmt q ap s) = Some (rc, s', ws') \<and> rel r a' rc s'"
    if q: "p < q" and o: "Option.bind (put stuffA [x] a) (\<lambda>(rv, s). if rv < 0 then Some (rv, s, [])
        else dosprintf_loop native stuffA posA nas fmt q ap s) = Some (r, a', ws)" for x q
  proof -
    obtain r1 a1 where 1: "put stuffA [x] a = Some (r1, a1)"
      and 2: "(if r1 < 0 then Some (r1, a1, []) else dosprintf_loop native stuffA posA nas fmt q ap a1) = Some (r, a', ws)"
      using o by (auto split: bind_splits)
    show ?thesis using put_sim [OF less(2) 1]
    proof (elim disjE conjE exE)
      fix rc s' assume "0 \<le> r1" "put stuffC [x] s = Some (rc, s')" "0 \<le> rc" "R a1 s'"
      then show ?thesis using less(1) [of q a1 s' ap ws] 2 q lt by (auto split: if_splits)
    qed (auto simp: rel_def)
  qed
  consider (nul) "c = 0" | (char) "c \<noteq> 0" "c \<noteq> 37" | (pct) "c = 37" by blast
  then show ?case
  proof cases
    case nul
    then obtain "put stuffA [0] a = Some (r, a')" using A c by (auto split: bind_splits)
    from put_sim [OF less(2) this] show ?thesis using c nul by (auto simp: C rel_def)
  next
    case char
    then show ?thesis using A c out [of "p + 1" c] by (simp add: C)
  next
    case pct
    then obtain d where d: "rd fmt (p + 1) = Some d" using A c by (auto split: bind_splits)
    show ?thesis
    proof (cases "d = 37")
      case True
      then show ?thesis using A c d pct out [of "p + 2" d] by (simp add: C)
    next
      case False
      then obtain r1 a1 ap1 ws1 q where 1: "directive native stuffA posA nas fmt (p + 1) ap a = Some (r1, a1, ap1, ws1, q)"
        using A c d pct by (auto split: bind_splits)
      obtain rc s1 ws1' where 2: "directive native stuffC posC nas fmt (p + 1) ap s = Some (rc, s1, ap1, ws1', q)" "rel r1 a1 rc s1"
        using directive_sim [OF less(2) 1] by blast
      show ?thesis
      proof (cases "r1 < 0 \<or> rc < 0")
        case True
        then show ?thesis using A 1 2 c d pct False by (auto simp: C rel_def split: if_splits)
      next
        case False
        then have R: "R a1 s1" using 2(2) by (auto simp: rel_def)
        have q: "p + 1 < q" using directive_range [OF 1] False by simp
        obtain ws2 where "dosprintf_loop native stuffA posA nas fmt q ap1 a1 = Some (r, a', ws2)"
          using A 1 c d pct False \<open>d \<noteq> 37\<close> by (auto split: bind_splits)
        from less(1) [OF _ R this] q lt obtain rc2 s2 ws2'
          where "dosprintf_loop native stuffC posC nas fmt q ap1 s1 = Some (rc2, s2, ws2')" "rel r a' rc2 s2" by force
        then show ?thesis using c d pct False \<open>d \<noteq> 37\<close> 2(1) by (simp add: C)
      qed
    qed
  qed
qed

lemma dosprintf_sim:
  assumes "R a s" "dosprintf mem native stuffA posA fmt ap a = Some (r, a', ws)"
  shows "\<exists>rc s' ws'. dosprintf mem native stuffC posC fmt ap s = Some (rc, s', ws') \<and> rel r a' rc s'"
proof -
  obtain x where x: "BuildArgArray mem fmt ap = Some x"
    using assms(2) by (auto simp: dosprintf_def split: bind_splits)
  show ?thesis
  proof (cases x)
    case (Inl u)
    then show ?thesis using assms x by (auto simp: dosprintf_def rel_def)
  next
    case (Inr y)
    then show ?thesis using assms(2) x loop_sim [OF assms(1)] by (cases y) (auto simp: dosprintf_def)
  qed
qed

lemma dosprintf_refines:
  assumes "R a s" "dosprintf mem native stuffA posA fmt ap a = Some (r, a', ws)" "0 \<le> r"
  obtains rc s' ws' where "dosprintf mem native stuffC posC fmt ap s = Some (rc, s', ws')" "0 \<le> rc" "R a' s'"
  | rc s' ws' where "dosprintf mem native stuffC posC fmt ap s = Some (rc, s', ws')" "rc < 0" "F s'"
  using dosprintf_sim [OF assms(1,2)] assms(3) by (auto simp: rel_def)

end

section \<open>The sinks receive the text\<close>

lemma put_bytes_ok: "i + length xs \<le> length b \<Longrightarrow> put_bytes b i xs = Some (overlay b i xs)"
  by (induction xs arbitrary: b i) (simp_all add: wr_ok overlay_Cons)

lemma collect_eq: "collect t x = Some (r, t') \<longleftrightarrow> r = 0 \<and> t' = t @ x \<and> length t' < 1073741824"
  by (auto simp: collect_def)

lemma u32_len: "n < 1073741824 \<Longrightarrow> unat (word_of_nat n :: u32) = n"
  by (rule unat_word_of_nat_u32) simp

text \<open>A buffer of fixed size holds the first \<open>outlen\<close> bytes.\<close>

definition limit_rel :: "buf \<Rightarrow> u32 \<Rightarrow> buf \<Rightarrow> SprintfState \<Rightarrow> bool" where
  "limit_rel out outlen t ss \<longleftrightarrow>
     unat outlen \<le> length out \<and> maxlen ss = outlen \<and> cur ss = min (length t) (unat outlen) \<and>
     base ss = Some (overlay out 0 (take (unat outlen) t)) \<and> length t < 1073741824"

lemma LimitStuff_rel:
  assumes "limit_rel out outlen t ss" "length (t @ x) < 1073741824"
  shows "\<exists>ss'. LimitStuff ss x = Some (0, ss') \<and> limit_rel out outlen (t @ x) ss'"
proof -
  define n where "n = unat outlen"
  define b where "b = overlay out 0 (take n t)"
  have r: "n \<le> length out" "maxlen ss = outlen" "cur ss = min (length t) n" "base ss = Some b"
    using assms(1) by (simp_all add: limit_rel_def n_def b_def)
  have "(word_of_nat (cur ss) :: u32) \<le> outlen" "unat (word_of_nat (cur ss) :: u32) = cur ss"
    using r(3) assms(2) by (simp_all add: word_le_nat_alt u32_len n_def)
  then have lim: "unat (maxlen ss - word_of_nat (cur ss)) = n - cur ss"
    using r(2) by (simp add: unat_sub n_def)
  have len: "unat (min (word_of_nat (length x)) (maxlen ss - word_of_nat (cur ss))) = min (length x) (n - cur ss)"
    using lim assms(2) by (simp add: min_def word_le_nat_alt u32_len)
  have c: "cur ss = length (take n t)" by (simp add: r(3))
  have tk: "take n t @ take (min (length x) (n - cur ss)) x = take n (t @ x)"
    by (cases "length t \<le> n") (simp_all add: r(3) min_def)
  have "put_bytes b (cur ss) (take (min (length x) (n - cur ss)) x) = Some (overlay out 0 (take n (t @ x)))"
  proof (subst put_bytes_ok)
    show "cur ss + length (take (min (length x) (n - cur ss)) x) \<le> length b"
      using r(1,3) by (simp add: b_def length_overlay)
    have "overlay b (cur ss) y = overlay out 0 (take n t @ y)" for y
      using overlay_append [of 0 "take n t" out y] r(1) by (simp add: b_def c)
    then show "Some (overlay b (cur ss) (take (min (length x) (n - cur ss)) x)) = Some (overlay out 0 (take n (t @ x)))"
      by (simp only: tk)
  qed
  then have "LimitStuff ss x = Some (0, ss\<lparr>base := Some (overlay out 0 (take n (t @ x))),
      cur := cur ss + min (length x) (n - cur ss)\<rparr>)"
    unfolding LimitStuff_def Let_def r(4) option.case len by (simp only: bind.bind_lunit)
  moreover have "cur ss + min (length x) (n - cur ss) = min (length (t @ x)) n" using r(3) by auto
  ultimately show ?thesis
    using assms(2) r(1,2) by (simp add: limit_rel_def n_def [symmetric])
qed

interpretation limit: sink_refinement collect text_len LimitStuff off "limit_rel out outlen" "\<lambda>_. False" for out outlen
proof
  show "sim (limit_rel out outlen) (\<lambda>_. False) (\<lambda>a. collect a x) (\<lambda>s. LimitStuff s x)" for x
    using LimitStuff_rel by (fastforce simp: sim_def collect_eq)
qed (simp add: off_def)

text \<open>What \<open>realloc\<close> promises: a block of the size asked for that begins with the old contents\<close>

definition realloc_ok :: "(buf ptr \<Rightarrow> nat \<Rightarrow> buf ptr) \<Rightarrow> bool" where
  "realloc_ok realloc \<longleftrightarrow>
     (\<forall>p n b. realloc p n = Some b \<longrightarrow>
        length b = n \<and> (\<forall>old. p = Some old \<longrightarrow> take (min n (length old)) b = take (min n (length old)) old))"

text \<open>A buffer that grows holds what it began with and all of the text.\<close>

definition grow_rel :: "(buf ptr \<Rightarrow> nat \<Rightarrow> buf ptr) \<Rightarrow> buf \<Rightarrow> buf \<Rightarrow> SprintfState \<Rightarrow> bool" where
  "grow_rel realloc pre t ss \<longleftrightarrow>
     realloc_ok realloc \<and> length pre + 32 \<le> 1073741824 \<and> length t < 1073741824 \<and>
     cur ss = length (pre @ t) \<and> cur ss \<le> unat (maxlen ss) \<and> unat (maxlen ss) \<le> 2 * cur ss + 32 \<and>
     (case base ss of
        None \<Rightarrow> pre @ t = [] \<and> maxlen ss = 0
      | Some b \<Rightarrow> unat (maxlen ss) \<le> length b \<and> take (cur ss) b = pre @ t)"

lemma GrowStuff_room [consumes 2, case_names no yes]:
  assumes "grow_rel realloc pre t ss" "length (t @ x) < 1073741824"
  obtains (no) p n where "GrowStuff realloc ss x = Some (-1, ss)" "realloc p n = None"
  | (yes) b m where
    "GrowStuff realloc ss x = do { b \<leftarrow> put_bytes b (cur ss) x;
       Some (0, ss\<lparr>maxlen := m, base := Some b, cur := cur ss + length x\<rparr>) }"
    "cur ss + length x \<le> unat m" "unat m \<le> 2 * (cur ss + length x) + 32" "unat m \<le> length b"
    "take (cur ss) b = pre @ t"
proof -
  define len where "len = (word_of_nat (length x) :: u32)"
  have l: "unat len = length x" using assms(2) by (simp add: len_def u32_len)
  have r: "realloc_ok realloc" "cur ss = length (pre @ t)" "cur ss \<le> unat (maxlen ss)"
    "unat (maxlen ss) \<le> 2 * cur ss + 32" "cur ss + length x < 2147483648 - 32"
    using assms by (simp_all add: grow_rel_def)
  show ?thesis
  proof (cases "unat (maxlen ss) \<le> cur ss + length x")
    case True
    define m where "m = maxlen ss + (if len > 32 then len else 32)"
    have big: "unat (if len > 32 then len else 32) = max (length x) 32"
      by (simp add: word_less_nat_alt l max_def)
    have m: "unat m = unat (maxlen ss) + max (length x) 32"
      unfolding m_def
      using True r(5) assms(2) by (subst unat_add_lem [THEN iffD1]) (simp_all add: big max_def)
    note G = GrowStuff_def l len_def [symmetric] m_def [symmetric] Let_def
    show ?thesis
    proof (cases "realloc (base ss) (unat m)")
      case None
      then show ?thesis using True by (intro no) (simp_all add: G)
    next
      case (Some b)
      then have b: "length b = unat m"
        "\<And>old. base ss = Some old \<Longrightarrow> take (min (unat m) (length old)) b = take (min (unat m) (length old)) old"
        using r(1) unfolding realloc_ok_def by blast+
      have "take (cur ss) b = pre @ t"
      proof (cases "base ss")
        case None
        then show ?thesis using assms(1) r(2) by (simp add: grow_rel_def)
      next
        case (Some old)
        then have o: "unat (maxlen ss) \<le> length old" "take (cur ss) old = pre @ t"
          using assms(1) by (auto simp: grow_rel_def)
        have "cur ss \<le> min (unat m) (length old)" using o(1) r(3) m by simp
        then show ?thesis using arg_cong [OF b(2) [OF Some], of "take (cur ss)"] o(2) by (simp add: min_def)
      qed
      then show ?thesis
        using True Some r b(1) m
        by (intro yes [of b m]) (auto simp: G max_def)
    qed
  next
    case False
    then obtain b where b: "base ss = Some b"
      using assms(1) by (cases "base ss") (auto simp: grow_rel_def)
    show ?thesis
      using False b assms(1) r
      by (intro yes [of b "maxlen ss"]) (simp_all add: GrowStuff_def l len_def [symmetric] Let_def grow_rel_def)
  qed
qed

lemma GrowStuff_rel:
  assumes "grow_rel realloc pre t ss" "length (t @ x) < 1073741824"
  shows "\<exists>rc ss'. GrowStuff realloc ss x = Some (rc, ss') \<and>
    (0 \<le> rc \<and> grow_rel realloc pre (t @ x) ss' \<or> rc < 0 \<and> (\<exists>p n. realloc p n = None))"
  using assms
proof (cases rule: GrowStuff_room)
  case (yes b m)
  have c: "cur ss = length (pre @ t)" "realloc_ok realloc" "length pre + 32 \<le> 1073741824"
    using assms(1) by (simp_all add: grow_rel_def)
  have le: "cur ss + length x \<le> length b" using yes(2,4) by simp
  have "take (cur ss + length x) (overlay b (cur ss) x) = pre @ t @ x"
    using take_overlay [OF le] yes(5) by simp
  then show ?thesis
    using yes le c assms(2) by (simp add: put_bytes_ok grow_rel_def length_overlay)
qed auto

interpretation grow: sink_refinement collect text_len "GrowStuff realloc" off "grow_rel realloc pre"
  "\<lambda>_. \<exists>p n. realloc p n = None" for realloc pre
proof
  show "sim (grow_rel realloc pre) (\<lambda>_. \<exists>p n. realloc p n = None) (\<lambda>a. collect a x) (\<lambda>s. GrowStuff realloc s x)" for x
    using GrowStuff_rel by (fastforce simp: sim_def collect_eq)
qed (simp add: off_def)

text \<open>A function is called with pieces that make up the text.\<close>

fun feed :: "'a stuff \<Rightarrow> 'a \<Rightarrow> buf list \<Rightarrow> 'a exec" where
  "feed func a [] = Some a"
| "feed func a (x # xs) = do { (rv, a) \<leftarrow> func a x; if rv < 0 then None else feed func a xs }"

definition func_rel :: "'a stuff \<Rightarrow> 'a \<Rightarrow> buf \<Rightarrow> 'a \<times> u32 \<Rightarrow> bool" where
  "func_rel func arg t ss \<longleftrightarrow>
     (\<forall>a x. func a x \<noteq> None) \<and> snd ss = word_of_nat (length t) \<and>
     (\<exists>xs. concat xs = t \<and> feed func arg xs = Some (fst ss))"

lemma feed_append: "feed func a (xs @ ys) = do { a \<leftarrow> feed func a xs; feed func a ys }"
  by (induction xs arbitrary: a) (auto split: bind_splits)

lemma FuncStuff_rel:
  assumes "func_rel func arg t ss"
  shows "\<exists>rc ss'. FuncStuff func ss x = Some (rc, ss') \<and>
    (0 \<le> rc \<and> func_rel func arg (t @ x) ss' \<or> rc < 0 \<and> (\<exists>a y rv a'. func a y = Some (rv, a') \<and> rv < 0))"
proof -
  obtain rv a' where f: "func (fst ss) x = Some (rv, a')"
    using assms by (metis func_rel_def option.exhaust surj_pair)
  obtain xs where "concat xs = t" "feed func arg xs = Some (fst ss)"
    using assms by (auto simp: func_rel_def)
  then have "\<not> rv < 0 \<Longrightarrow> func_rel func arg (t @ x) (a', snd ss + word_of_nat (length x))"
    using f assms unfolding func_rel_def by (intro conjI exI [of _ "xs @ [x]"]) (simp_all add: feed_append)
  then show ?thesis
    using f by (cases ss) (auto simp: FuncStuff_def)
qed

interpretation func: sink_refinement collect "\<lambda>_. None" "FuncStuff func" "\<lambda>_. None" "func_rel func arg"
  "\<lambda>_. \<exists>a y rv a'. func a y = Some (rv, a') \<and> rv < 0" for func arg
proof
  show "sim (func_rel func arg) (\<lambda>_. \<exists>a y rv a'. func a y = Some (rv, a') \<and> rv < 0)
    (\<lambda>a. collect a x) (\<lambda>s. FuncStuff func s x)" for x
    using FuncStuff_rel unfolding sim_def collect_eq by (metis order_refl)
qed simp

lemma loop_ends_NUL:
  "dosprintf_loop native collect pos nas fmt p ap t = Some (r, t', ws) \<Longrightarrow> 0 \<le> r \<Longrightarrow> \<exists>u. t' = u @ [0]"
proof (induction "length fmt - p" arbitrary: p ap t ws rule: less_induct)
  case less
  note L = less(2) [unfolded dosprintf_loop.simps [of native collect pos nas fmt p ap t]]
  obtain c where c: "rd fmt p = Some c" using L by (auto split: bind_splits)
  then have lt: "p < length fmt" by (simp add: rd_eq_Some)
  consider (nul) "c = 0" | (out) q t1 ap1 ws1 where "p < q" "dosprintf_loop native collect pos nas fmt q ap1 t1 = Some (r, t', ws1)"
  proof -
    consider "c = 0" | "c \<noteq> 0" "c \<noteq> 37" | d where "c = 37" "rd fmt (p + 1) = Some d" "d = 37"
      | d where "c = 37" "rd fmt (p + 1) = Some d" "d \<noteq> 37"
      using L c by (cases "rd fmt (p + 1)") (auto split: if_splits)
    then show ?thesis
    proof cases
      case 2
      then show ?thesis using L c that(2) [of "p + 1"] less(3) by (auto simp: put_def collect_eq split: bind_splits if_splits)
    next
      case 3
      then show ?thesis using L c that(2) [of "p + 2"] less(3) by (auto simp: put_def collect_eq split: bind_splits if_splits)
    next
      case 4
      then obtain r1 t1 ap1 ws1 q where 1: "directive native collect pos nas fmt (p + 1) ap t = Some (r1, t1, ap1, ws1, q)"
        using L c by (auto split: bind_splits)
      then have "0 \<le> r1" using L c 4 less(3) by (auto split: if_splits)
      then show ?thesis using that(2) [of q] directive_range [OF 1] L c 4 1 by (auto split: bind_splits)
    qed (use that in simp)
  qed
  then show ?case
  proof cases
    case nul
    then show ?thesis using L c by (auto simp: put_def collect_eq split: bind_splits)
  next
    case (out q t1 ap1 ws1)
    then show ?thesis using less(1) [OF _ out(2) less(3)] lt by simp
  qed
qed

lemma sprintf_textD:
  assumes "sprintf_text pos mem native fmt ap = Some t"
  obtains r ws where "dosprintf mem native collect pos fmt ap [] = Some (r, t @ [0], ws)" "0 \<le> r"
proof -
  obtain r t' ws where d: "dosprintf mem native collect pos fmt ap [] = Some (r, t', ws)" "0 \<le> r" "t = butlast t'"
    using assms by (auto simp: sprintf_text_def split: option.splits if_splits)
  then obtain nas ap' where "dosprintf_loop native collect pos nas fmt 0 ap' [] = Some (r, t', ws)"
    by (auto simp: dosprintf_def split: bind_splits sum.splits)
  then obtain u where "t' = u @ [0]" using loop_ends_NUL d(2) by blast
  then show ?thesis using that d by simp
qed

section \<open>Properties\<close>

lemma snprintf_text:
  assumes "sprintf_text text_len mem native fmt ap = Some t" "0 < sint outlen" "unat outlen \<le> length out"
  shows "\<exists>ws. PR_snprintf mem native out outlen fmt ap =
    Some (word_of_nat (min (length t) (unat outlen - 1)), overlay out 0 (take (unat outlen - 1) t @ [0]), ws)"
proof -
  define n where "n = unat outlen"
  have "outlen \<noteq> 0" using assms(2) by auto
  then have n: "0 < n" by (simp add: n_def unat_gt_0)
  obtain r ws where d: "dosprintf mem native collect text_len fmt ap [] = Some (r, t @ [0], ws)" "0 \<le> r"
    using sprintf_textD [OF assms(1)] .
  have "limit_rel out outlen [] \<lparr>base = Some out, cur = 0, maxlen = outlen\<rparr>"
    using assms(3) by (simp add: limit_rel_def)
  then obtain rc ss ws' where D: "dosprintf mem native LimitStuff off fmt ap \<lparr>base = Some out, cur = 0, maxlen = outlen\<rparr> =
      Some (rc, ss, ws')" and R: "limit_rel out outlen (t @ [0]) ss"
    by (rule limit.dosprintf_refines [OF _ d]) auto
  define x where "x = take n (t @ [0])"
  have x: "x = take (n - 1) t @ [x ! (length x - 1)]" "length x = min (length t + 1) n"
  proof -
    obtain m where m: "n = Suc m" using n by (cases n) auto
    show "x = take (n - 1) t @ [x ! (length x - 1)]"
      by (cases "length t \<le> m") (simp_all add: x_def m take_Suc_conv_app_nth nth_append)
  qed (simp add: x_def)
  have b: "cur ss = length x" "base ss = Some (overlay out 0 x)" "length x \<le> length out"
    using R assms(3) by (auto simp: limit_rel_def x_def n_def)
  have lx: "length x \<noteq> 0" using x(2) n by simp
  have at: "overlay out 0 x ! (length x - 1) = x ! (length x - 1)"
    using lx by (simp add: overlay_def nth_append)
  have z: "(overlay out 0 x)[length x - 1 := 0] = overlay out 0 (take (n - 1) t @ [0])"
    unfolding overlay_def using lx x(1)
    by (metis (no_types, lifting) append_Nil diff_less length_append_singleton length_list_update list_update_append1
        list_update_length diff_Suc_1 take0 less_one linorder_neqE_nat not_less0 add_0 zero_less_one gr0I)
  have l1: "length x - 1 < length out" using lx b(3) by linarith
  have w: "rd (overlay out 0 x) (length x - 1) = Some (x ! (length x - 1))"
    "wr (overlay out 0 x) (length x - 1) 0 = Some (overlay out 0 (take (n - 1) t @ [0]))"
    using l1 at z b(3) by (simp_all add: rd_def wr_def length_overlay)
  have c: "(if x ! (length x - 1) \<noteq> 0 then Some (overlay out 0 (take (n - 1) t @ [0])) else Some (overlay out 0 x)) =
    Some (overlay out 0 (take (n - 1) t @ [0]))"
    using x(1) by (auto intro: arg_cong)
  have "length t + 1 < 1073741824" using R by (simp add: limit_rel_def)
  then have "(word_of_nat (length x) :: u32) \<noteq> 0" "(word_of_nat (length x) :: u32) - 1 = word_of_nat (min (length t) (n - 1))"
    using lx x(2) u32_len [of "length x"] by (auto simp: of_nat_diff min_def)
  moreover have "(if cur ss \<noteq> 0 then
      do { c \<leftarrow> rd (overlay out 0 x) (cur ss - 1);
           if c \<noteq> 0 then wr (overlay out 0 x) (cur ss - 1) 0 else Some (overlay out 0 x) }
      else Some (overlay out 0 x)) = Some (overlay out 0 (take (n - 1) t @ [0]))"
    unfolding b(1) w bind.bind_lunit c using lx by simp
  ultimately show ?thesis
    unfolding PR_snprintf_def PR_vsnprintf_def D bind.bind_lunit prod.case Let_def b(2)
    using assms(2) by (simp only: bind.bind_lunit b(1) n_def [symmetric]) simp
qed

text \<open>C22: A format that denotes a text is written by \<open>PR_snprintf\<close> without leaving the buffer: the first
  \<open>outlen - 1\<close> bytes of the text and a NUL, the rest of the buffer as it was. The result is the number of bytes
  written before the NUL.\<close>

theorem printf_bounded_output:
  assumes "sprintf_text text_len mem native fmt ap = Some t" "0 < sint outlen" "unat outlen \<le> length out"
  shows "\<exists>ws. PR_snprintf mem native out outlen fmt ap =
    Some (word_of_nat (min (length t) (unat outlen - 1)), overlay out 0 (take (unat outlen - 1) t @ [0]), ws)"
  by (rule snprintf_text [OF assms])

text \<open>C23: \<open>PR_smprintf\<close> returns a block that begins with the whole text and its NUL, and \<open>PR_sprintf_append\<close> one that
  begins with the old string and the whole text; they return \<open>NULL\<close> only when the allocator did.\<close>

theorem printf_allocated_output:
  assumes "sprintf_text text_len mem native fmt ap = Some t" "realloc_ok realloc"
    "has_nul prev" "length (cstr prev) + 32 \<le> 1073741824"
  shows "(\<exists>p ws. PR_smprintf mem native realloc fmt ap = Some (p, ws) \<and>
      (case p of None \<Rightarrow> \<exists>q n. realloc q n = None | Some b \<Rightarrow> take (length t + 1) b = t @ [0])) \<and>
    (\<exists>p ws. PR_sprintf_append mem native realloc (Some prev) fmt ap = Some (p, ws) \<and>
      (case p of None \<Rightarrow> \<exists>q n. realloc q n = None
       | Some b \<Rightarrow> take (length (cstr prev @ t) + 1) b = cstr prev @ t @ [0]))"
proof
  obtain r ws where d: "dosprintf mem native collect text_len fmt ap [] = Some (r, t @ [0], ws)" "0 \<le> r"
    using sprintf_textD [OF assms(1)] .
  have out: "\<exists>p ws. do { (rv, ss, ws) \<leftarrow> dosprintf mem native (GrowStuff realloc) off fmt ap ss;
        Some (if rv < 0 then None else base ss, ws) } = Some (p, ws) \<and>
      (case p of None \<Rightarrow> \<exists>q n. realloc q n = None | Some b \<Rightarrow> take (length (pre @ t) + 1) b = pre @ t @ [0])"
    if "grow_rel realloc pre [] ss" for pre ss
    by (rule grow.dosprintf_refines [OF that d]) (auto simp: grow_rel_def split: option.splits)
  show "\<exists>p ws. PR_smprintf mem native realloc fmt ap = Some (p, ws) \<and>
      (case p of None \<Rightarrow> \<exists>q n. realloc q n = None | Some b \<Rightarrow> take (length t + 1) b = t @ [0])"
    using out [of "[]" "\<lparr>base = None, cur = 0, maxlen = 0\<rparr>", unfolded append_Nil] assms(2)
    by (simp add: grow_rel_def PR_smprintf_def PR_vsmprintf_def)
  note p = assms(3,4)
  define l where "l = length (cstr prev)"
  have "take l prev = cstr prev" unfolding l_def by (rule cstr_eq_take [symmetric])
  then have "grow_rel realloc (cstr prev) [] \<lparr>base = Some prev, cur = l, maxlen = word_of_nat l\<rparr>"
    using assms(2) p has_nul_length [OF p(1)] by (simp add: grow_rel_def l_def u32_len)
  from out [OF this] show "\<exists>p ws. PR_sprintf_append mem native realloc (Some prev) fmt ap = Some (p, ws) \<and>
      (case p of None \<Rightarrow> \<exists>q n. realloc q n = None
       | Some b \<Rightarrow> take (length (cstr prev @ t) + 1) b = cstr prev @ t @ [0])"
    using p by (simp add: PR_sprintf_append_def PR_vsprintf_append_def c_strlen_eq l_def i32_id)
qed

text \<open>\<open>PR_sxprintf\<close> calls the function with pieces that make up the text and its NUL and returns their number of
  bytes; it returns -1 only when the function reported a failure.\<close>

theorem printf_function_output:
  assumes "sprintf_text (\<lambda>_. None) mem native fmt ap = Some t" "\<forall>a x. func a x \<noteq> None"
  shows "\<exists>n arg'. PR_sxprintf mem native func arg fmt ap = Some (n, arg') \<and>
    (n = word_of_nat (length t + 1) \<and> (\<exists>xs. concat xs = t @ [0] \<and> feed func arg xs = Some arg') \<or>
     n = -1 \<and> (\<exists>a y rv a'. func a y = Some (rv, a') \<and> rv < 0))"
proof -
  obtain r ws where d: "dosprintf mem native collect (\<lambda>_. None) fmt ap [] = Some (r, t @ [0], ws)" "0 \<le> r"
    using sprintf_textD [OF assms(1)] .
  have "feed func arg [] = Some arg" by simp
  then have "func_rel func arg [] (arg, 0)"
    using assms(2) unfolding func_rel_def by (intro conjI exI [of _ "[]"]) simp_all
  then show ?thesis
    by (rule func.dosprintf_refines [OF _ d]) (auto simp: PR_sxprintf_def PR_vsxprintf_def func_rel_def)
qed

section \<open>Integers\<close>

definition digit_of :: "byte \<Rightarrow> nat" where
  "digit_of c = (if c \<le> 57 then unat c - 48 else if c \<le> 70 then unat c - 55 else unat c - 87)"

definition value_of :: "nat \<Rightarrow> buf \<Rightarrow> nat" where
  "value_of radix ds = foldl (\<lambda>v c. v * radix + digit_of c) 0 ds"

lemma value_of_append: "value_of radix (ds @ [d]) = value_of radix ds * radix + digit_of d"
  by (simp add: value_of_def)

lemma hex_bytes:
  "hex = [48, 49, 50, 51, 52, 53, 54, 55, 56, 57, 97, 98, 99, 100, 101, 102]"
  "HEX = [48, 49, 50, 51, 52, 53, 54, 55, 56, 57, 65, 66, 67, 68, 69, 70]"
  by (simp_all add: hex_def HEX_def bytes_of_def)

lemma hex_digits:
  assumes "hexp = hex \<or> hexp = HEX" "i < 16"
  shows "digit_of (hexp ! i) = i \<and> (hexp ! i = 48 \<longleftrightarrow> i = 0)"
proof -
  have d: "map digit_of hexp = [0..<16]"
    using assms(1) by (auto simp: hex_bytes digit_of_def upt_rec)
  moreover have l: "length hexp = 16" using assms(1) by (auto simp: hex_bytes)
  ultimately have "digit_of (hexp ! i) = i" if "i < 16" for i
    using that by (metis nth_map nth_upt add_0)
  moreover have "hexp ! 0 = 48" using assms(1) by (auto simp: hex_bytes)
  moreover have "digit_of 48 = 0" by (simp add: digit_of_def)
  ultimately show ?thesis using assms(2) l by (metis zero_less_numeral)
qed

text \<open>The conversion yields the digits of the number, most significant first, without a leading zero.\<close>

lemma cvt_digits_value:
  assumes "num < 2 ^ k" "k + length cvt \<le> 100" "2 \<le> radix" "radix \<le> 16" "hexp = hex \<or> hexp = HEX"
  shows "\<exists>ds. cvt_digits num radix hexp cvt = Some (ds @ cvt) \<and> value_of radix ds = num \<and>
    length ds \<le> k \<and> (num \<noteq> 0 \<longrightarrow> ds \<noteq> [] \<and> hd ds \<noteq> 48) \<and> (num = 0 \<longrightarrow> ds = []) \<and> set ds \<subseteq> set (take radix hexp)"
  using assms
proof (induction k arbitrary: num cvt)
  case 0
  then show ?case by (simp add: cvt_digits.simps value_of_def)
next
  case (Suc k)
  have h: "length hexp = 16" "\<And>i. i < 16 \<Longrightarrow> digit_of (hexp ! i) = i \<and> (hexp ! i = 48 \<longleftrightarrow> i = 0)"
    using Suc(6) hex_digits by (auto simp: hex_bytes)
  show ?case
  proof (cases "num = 0")
    case True
    then show ?thesis by (simp add: cvt_digits.simps value_of_def)
  next
    case False
    define d where "d = hexp ! (num mod radix)"
    have m: "num mod radix < radix" "num mod radix < 16" using Suc(4,5) mod_less_divisor [of radix num] by linarith+
    have "num div radix \<le> num div 2" using Suc(4) by (intro div_le_mono2) simp_all
    also have "\<dots> < 2 ^ k" using Suc(2) by simp
    finally obtain ds where ds: "cvt_digits (num div radix) radix hexp (d # cvt) = Some (ds @ d # cvt)"
      "value_of radix ds = num div radix" "length ds \<le> k" "num div radix \<noteq> 0 \<longrightarrow> ds \<noteq> [] \<and> hd ds \<noteq> 48"
      "num div radix = 0 \<longrightarrow> ds = []" "set ds \<subseteq> set (take radix hexp)"
      using Suc.IH [of "num div radix" "d # cvt"] Suc(3-6) by auto
    have "cvt_digits num radix hexp cvt = Some ((ds @ [d]) @ cvt)"
      using False Suc(3,4) m h(1) ds(1) by (subst cvt_digits.simps) (simp add: rd_def d_def)
    moreover have "value_of radix (ds @ [d]) = num"
      using h(2) [OF m(2)] ds(2) by (simp add: value_of_append d_def)
    moreover have "hd (ds @ [d]) \<noteq> 48"
    proof (cases "num div radix = 0")
      case True
      then have "num mod radix \<noteq> 0" using False by (metis mod_div_mult_eq add_0_right mult_0 add_cancel_right_right)
      then show ?thesis using True ds(5) h(2) [OF m(2)] by (simp add: d_def)
    qed (use ds(4) in simp)
    moreover have "d \<in> set (take radix hexp)"
      unfolding d_def in_set_conv_nth using m(1) h(1) Suc(5) by (intro exI [of _ "num mod radix"]) simp
    ultimately show ?thesis using ds(3,6) False by (intro exI [of _ "ds @ [d]"]) simp
  qed
qed

text \<open>\<open>emits f x\<close>: on the abstract sink, \<open>f\<close> appends \<open>x\<close>.\<close>

definition emits :: "(buf \<Rightarrow> (int \<times> buf) exec) \<Rightarrow> buf \<Rightarrow> bool" where
  "emits f x \<longleftrightarrow> (\<forall>t. length t + length x < 1073741824 \<longrightarrow> f t = Some (0, t @ x))"

named_theorems emit \<open>what the parts of a conversion append\<close>

lemma emits_skip [emit]: "emits skip []"
  by (simp add: emits_def skip_def)

lemma emits_put [emit]: "emits (put collect x) x"
  by (simp add: emits_def put_def collect_def)

lemma emits_and_then [emit]: "emits f x \<Longrightarrow> emits g y \<Longrightarrow> emits (and_then f g) (x @ y)"
  by (simp add: emits_def and_then_def)

lemma emits_if [emit]: "emits f x \<Longrightarrow> emits g y \<Longrightarrow> emits (if c then f else g) (if c then x else y)"
  by simp

lemma emits_put_n [emit]: "emits (put_n collect n c) (replicate n c)"
proof (induction n)
  case (Suc n)
  then show ?case using emits_and_then [OF emits_put [of "[c]"] Suc] by simp
qed (simp add: emits_skip)

lemma emits_eq: "emits f x \<Longrightarrow> x = y \<Longrightarrow> emits f y"
  by simp

lemma emits_fill_n:
  assumes "\<not> SIGNED fl" "\<not> SPACED fl" "\<not> LEFT fl" "\<not> ZEROS fl" "even type" "sign = (if NEG fl then [45] else [])"
  shows "emits (fill_n collect ds (int (length ds)) width prec type fl)
    (replicate (nat width - (length sign + max (nat prec) (length ds))) 32 @ sign @ replicate (nat prec - length ds) 48 @ ds)"
proof -
  define pw where "pw = nat prec - length ds"
  define c where "c = length sign + length ds + pw"
  have pw: "(if prec > 0 \<and> prec > int (length ds) then prec - int (length ds) else 0) = int pw"
    by (auto simp: pw_def)
  have sg: "(if even type then if NEG fl then [45] else if SIGNED fl then [43] else if SPACED fl then [32] else [] else []) = sign"
    using assms by simp
  have ls: "nat (if width > int c then width - int c else 0) = nat width - c" by auto
  have cw: "int (length sign) + int (length ds) + int pw = int c" by (simp add: c_def)
  have sp: "emits (if sign \<noteq> [] then put collect sign else skip) sign"
    by (cases sign) (auto intro: emit)
  have f: "ZEROS fl = False" "LEFT fl = False" using assms(3,4) by simp_all
  have "emits (fill_n collect ds (int (length ds)) width prec type fl)
    (replicate (nat width - c) 32 @ sign @ replicate pw 48 @ ds)"
    unfolding fill_n_def pw sg Let_def cw f simp_thms if_False add_0_right ls
    by (rule emits_eq, (rule emits_and_then emits_put_n emits_put sp)+) simp
  moreover have "c = length sign + max (nat prec) (length ds)" by (simp add: c_def pw_def)
  ultimately show ?thesis by (simp add: pw_def)
qed

lemma emits_cvt_ll:
  assumes "\<not> SIGNED fl" "\<not> SPACED fl" "\<not> LEFT fl" "\<not> ZEROS fl" "even type" "prec \<noteq> 0 \<or> num \<noteq> 0"
  shows "\<exists>ds. emits (cvt_ll collect num width prec 10 type fl hex)
    (replicate (nat width - (length (if NEG fl then [45::byte] else []) + max (nat prec) (length ds))) 32 @
     (if NEG fl then [45] else []) @ replicate (nat prec - length ds) 48 @ ds) \<and>
    int (value_of 10 ds) = num mod 2 ^ 64 \<and> ds \<noteq> [] \<and> list_all digit ds \<and> length ds \<le> 64"
proof -
  have "nat (num mod 2 ^ 64) < 2 ^ 64" by (simp add: nat_less_iff)
  then obtain ds where ds: "cvt_digits (nat (num mod 2 ^ 64)) 10 hex [] = Some ds" "value_of 10 ds = nat (num mod 2 ^ 64)"
      "length ds \<le> 64" "nat (num mod 2 ^ 64) = 0 \<longrightarrow> ds = []" "set ds \<subseteq> set (take 10 hex)" 
    using cvt_digits_value [of "nat (num mod 2 ^ 64)" 64 "[]" 10 hex] by auto
  have "list_all digit (take 10 hex)" by (simp add: hex_bytes digit_def)
  then have dig: "list_all digit ds" using ds(5) by (auto simp: list_all_iff)
  define es where "es = (if ds = [] then [48] else ds)"
  have "cvt_ll collect num width prec 10 type fl hex = fill_n collect es (int (length es)) width prec type fl"
    using assms(6) ds(1) by (auto simp: cvt_ll_def es_def fun_eq_iff)
  moreover have "int (value_of 10 es) = num mod 2 ^ 64"
    using ds(2) by (auto simp: es_def value_of_def digit_of_def)
  ultimately show ?thesis
    using emits_fill_n [OF assms(1-5) refl, where ds = es and width = width and prec = prec] dig ds(3)
    by (intro exI [of _ es]) (auto simp: es_def digit_def)
qed

lemma i64_mod: "i64 x mod 18446744073709551616 = x mod 18446744073709551616"
  using take_bit_signed_take_bit [of 64 63 x] by (simp add: i64_def take_bit_eq_mod)

lemma emits_convert_int64:
  assumes "-9223372036854775808 \<le> n" "n \<le> 9223372036854775807" "prec \<noteq> 0 \<or> n \<noteq> 0"
  shows "\<exists>ds. emits (convert_int collect (VInt64 n) width prec 10 TYPE_INT64 no_flags hex)
    (replicate (nat width - (length (if n < 0 then [45::byte] else []) + max (nat prec) (length ds))) 32 @
     (if n < 0 then [45] else []) @ replicate (nat prec - length ds) 48 @ ds) \<and>
    value_of 10 ds = nat \<bar>n\<bar> \<and> ds \<noteq> [] \<and> list_all digit ds \<and> length ds \<le> 64"
proof -
  define num fl where "num = (if n < 0 then i64 (- n) else n)" and "fl = no_flags\<lparr>NEG := n < 0\<rparr>"
  have c: "convert_int collect (VInt64 n) width prec 10 TYPE_INT64 no_flags hex = cvt_ll collect num width prec 10 TYPE_INT64 fl hex"
    using assms(1,2) by (auto simp: convert_int_def num_def fl_def types i64_id fun_eq_iff no_flags_def)
  have m: "num mod 2 ^ 64 = \<bar>n\<bar>"
    using assms(1,2) by (simp add: num_def i64_mod)
  have "prec \<noteq> 0 \<or> num \<noteq> 0" using m assms(3) by auto
  then obtain ds where "emits (cvt_ll collect num width prec 10 TYPE_INT64 fl hex)
    (replicate (nat width - (length (if NEG fl then [45::byte] else []) + max (nat prec) (length ds))) 32 @
     (if NEG fl then [45] else []) @ replicate (nat prec - length ds) 48 @ ds)"
    "int (value_of 10 ds) = num mod 2 ^ 64" "ds \<noteq> []" "list_all digit ds" "length ds \<le> 64"
    using emits_cvt_ll [of fl TYPE_INT64 prec num width] by (auto simp: fl_def no_flags_def types)
  then show ?thesis unfolding c m by (intro exI [of _ ds]) (auto simp: fl_def)
qed

lemma settle_no_flags: "settle_flags no_flags = no_flags"
  by (simp add: settle_flags_def no_flags_def)

lemma star_format_directive:
  fixes native :: "buf \<Rightarrow> 'd \<Rightarrow> buf"
  assumes "convert_int collect (VInt64 n :: 'd va) (i32 w) (i32 p) 10 TYPE_INT64 no_flags hex [] = Some (0, t)"
    "length t + 1 < 1073741824"
  shows "sprintf_text text_len mem native (bytes_of ''%*.*lld'' @ [0]) [VInt w, VInt p, VInt64 n] = Some t"
proof -
  define fmt :: buf where "fmt = [37, 42, 46, 42, 108, 108, 100, 0]"
  have f: "bytes_of ''%*.*lld'' @ [0] = fmt" by (simp add: bytes_of_def fmt_def)
  have r: "rd fmt 0 = Some 37" "rd fmt (Suc 0) = Some 42" "rd fmt 2 = Some 46" "rd fmt 3 = Some 42"
    "rd fmt 4 = Some 108" "rd fmt 5 = Some 108" "rd fmt 6 = Some 100" "rd fmt 7 = Some 0"
    by (simp_all add: fmt_def rd_def)
  have "count_numbered fmt 0 0 False = Some (Some 0)"
    unfolding fmt_def by code_simp
  then have b: "BuildArgArray mem fmt ap = Some (Inr (None, ap))" for ap :: "'d va list"
    by (simp add: BuildArgArray_def)
  have 1: "read_flags fmt (Suc 0) no_flags = Some (no_flags, Suc 0)"
    by (subst read_flags.simps) (simp add: r)
  have 2: "read_width fmt (Suc 0) [VInt w, VInt p, VInt64 n] = Some (i32 w, 2, [VInt p, VInt64 n])"
    by (simp add: read_width_def r)
  have 3: "read_prec fmt 2 [VInt p, VInt64 n] = Some (i32 p, 4, [VInt64 n])"
    by (simp add: read_prec_def read_width_def r)
  have 4: "read_size fmt 4 = Some (TYPE_INT64, 6)"
    by (simp add: read_size_def r)
  have "directive native collect text_len None fmt (Suc 0) [VInt w, VInt p, VInt64 n] [] = Some (0, t, [], [], 7)"
    using assms(1) by (simp add: directive_def find_arg_def 1 2 3 4 r settle_no_flags convert_def fetch_def convert_arg_def)
  then have "dosprintf_loop native collect text_len None fmt 0 [VInt w, VInt p, VInt64 n] [] = Some (0, t @ [0], [])"
    using assms(2)
    by (subst dosprintf_loop.simps, simp add: r, subst dosprintf_loop.simps) (simp add: r put_def collect_def)
  then show ?thesis by (simp add: sprintf_text_def dosprintf_def f b)
qed

lemma emits_convert_zero: "convert_int collect (VInt64 0) width 0 10 TYPE_INT64 no_flags hex s = Some (0, s)"
  by (simp add: convert_int_def cvt_ll_def types no_flags_def Let_def i64_id)

text \<open>C24: A 64-bit integer printed by \<open>%*.*lld\<close>, with a width and a precision of at most a thousand million given as
  arguments, reads back: the text is the padding to the width, a sign for a negative number, the zeros that the precision
  asks for, and decimal digits whose value is that of the number, the smallest one included. The one exception is a zero
  printed with the precision 0, which prints nothing, not even the padding.\<close>

theorem printf_integer_roundtrip:
  fixes native :: "buf \<Rightarrow> 'd \<Rightarrow> buf"
  assumes "-9223372036854775808 \<le> n" "n \<le> 9223372036854775807" "\<bar>w\<bar> \<le> 1000000000" "\<bar>p\<bar> \<le> 1000000000"
  shows "if p = 0 \<and> n = 0 then sprintf_text text_len mem native (bytes_of ''%*.*lld'' @ [0]) [VInt w, VInt p, VInt64 n] = Some []
    else \<exists>sign ds. sprintf_text text_len mem native (bytes_of ''%*.*lld'' @ [0]) [VInt w, VInt p, VInt64 n] =
      Some (replicate (nat w - (length sign + max (nat p) (length ds))) 32 @ sign @ replicate (nat p - length ds) 48 @ ds) \<and>
    sign = (if n < 0 then [45] else []) \<and> value_of 10 ds = nat \<bar>n\<bar> \<and> ds \<noteq> [] \<and> list_all digit ds"
proof (cases "p = 0 \<and> n = 0")
  case True
  have "convert_int collect (VInt64 n :: 'd va) (i32 w) (i32 p) 10 TYPE_INT64 no_flags hex [] = Some (0, [])"
    using True emits_convert_zero by (simp add: i32_id)
  from star_format_directive [OF this, of mem native] show ?thesis using True by simp
next
  case False
  define sign :: buf where "sign = (if n < 0 then [45] else [])"
  have w: "i32 w = w" "i32 p = p" using assms(3,4) by (simp_all add: i32_id)
  have "p \<noteq> 0 \<or> n \<noteq> 0" using False by blast
  from emits_convert_int64 [OF assms(1,2) this, of w]
  obtain ds where ds: "emits (convert_int collect (VInt64 n :: 'd va) w p 10 TYPE_INT64 no_flags hex)
    (replicate (nat w - (length sign + max (nat p) (length ds))) 32 @ sign @ replicate (nat p - length ds) 48 @ ds)"
    "value_of 10 ds = nat \<bar>n\<bar>" "ds \<noteq> []" "list_all digit ds" "length ds \<le> 64"
    unfolding sign_def by blast
  define t where "t = replicate (nat w - (length sign + max (nat p) (length ds))) 32 @ sign @ replicate (nat p - length ds) 48 @ ds"
  have "length sign \<le> 1" by (simp add: sign_def)
  then have len: "length t + 1 < 1073741824" using assms(3,4) ds(5) by (simp add: t_def)
  have "convert_int collect (VInt64 n :: 'd va) (i32 w) (i32 p) 10 TYPE_INT64 no_flags hex [] = Some (0, t)"
    unfolding w using ds(1) [folded t_def, unfolded emits_def, rule_format, of "[]"] len by simp
  from star_format_directive [OF this len, of mem native] show ?thesis
    using ds(2-4) False sign_def unfolding t_def by auto
qed

section \<open>Formats that are not text\<close>

lemma trailing_percent: "dosprintf mem native stuff pos [37, 0] ap s = None"
proof -
  have "count_numbered [37, 0] 0 0 False = None" by code_simp
  then show ?thesis by (simp add: dosprintf_def BuildArgArray_def)
qed

lemma mixed_styles: "BuildArgArray mem (bytes_of ''%d %1$d'' @ [0]) ap = Some (Inl ())"
proof -
  have "count_numbered (bytes_of ''%d %1$d'' @ [0]) 0 0 False = Some None" by code_simp
  then show ?thesis by (simp add: BuildArgArray_def)
qed

lemma store_without_buffer: "dosprintf mem native stuff (\<lambda>_. None) [37, 110, 0] [VIntPtr (Some ip)] s = None"
proof -
  have "count_numbered [37, 110, 0] 0 0 False = Some (Some 0)" by code_simp
  moreover have "directive native stuff (\<lambda>_. None) None [37, 110, 0] (Suc 0) [VIntPtr (Some ip)] s = None"
    by (simp add: directive_def find_arg_def read_flags.simps [of _ "Suc 0"] read_width_def read_num.simps [of _ "Suc 0"]
        read_prec_def read_size_def digit_def convert_def fetch_def)
  ultimately show ?thesis
    by (simp add: dosprintf_def BuildArgArray_def dosprintf_loop.simps [of native stuff _ _ _ 0])
qed

text \<open>What the entry points do with formats that denote no text. A format that ends in \<open>%\<close> is read past its
  terminator. After two directives for the same numbered argument, one whose number was never checked indexes the
  array beyond its end. A format that mixes the styles leaves the buffer of \<open>PR_snprintf\<close> without a NUL and returns 0.
  \<open>%n\<close> in \<open>PR_sxprintf\<close> reads members of the state that were never set.\<close>

theorem printf_format_errors:
  "PR_snprintf mem native out 8 [37, 0] ap = None \<and>
   sprintf_text text_len (\<lambda>_. True) (\<lambda>f (d :: unit). f) (bytes_of ''%1$d%1$%%5$d'' @ [0]) [VInt 7, VInt 8] = None \<and>
   PR_snprintf mem native out 4 (bytes_of ''%d %1$d'' @ [0]) ap = Some (0, out, []) \<and>
   PR_sxprintf mem native func arg [37, 110, 0] [VIntPtr (Some ip)] = None"
proof (intro conjI)
  show "PR_snprintf mem native out 8 [37, 0] ap = None"
    by (simp add: PR_snprintf_def PR_vsnprintf_def trailing_percent)
  show "sprintf_text text_len (\<lambda>_. True) (\<lambda>f (d :: unit). f) (bytes_of ''%1$d%1$%%5$d'' @ [0]) [VInt 7, VInt 8] = None"
    by code_simp
  show "PR_snprintf mem native out 4 (bytes_of ''%d %1$d'' @ [0]) ap = Some (0, out, [])"
    by (simp only: PR_snprintf_def PR_vsnprintf_def dosprintf_def mixed_styles bind.bind_lunit sum.case prod.case) simp
  show "PR_sxprintf mem native func arg [37, 110, 0] [VIntPtr (Some ip)] = None"
    by (simp add: PR_sxprintf_def PR_vsxprintf_def store_without_buffer)
qed

section \<open>Examples\<close>

lemma sample_text:
  "sprintf_text text_len (\<lambda>_. True) (\<lambda>f (d :: unit). f) (bytes_of ''x=%05d;%1x'' @ [0]) [VInt (-42), VInt 255] =
    Some (bytes_of ''x=-0042;ff'')"
  by code_simp

theorem printf_bounded_output_witness:
  "\<exists>ws. PR_snprintf (\<lambda>_. True) (\<lambda>f (d :: unit). f) (replicate 9 1) 6 (bytes_of ''x=%05d;%1x'' @ [0]) [VInt (-42), VInt 255] =
    Some (5, bytes_of ''x=-00'' @ [0] @ replicate 3 1, ws)"
  using printf_bounded_output [OF sample_text, of 6 "replicate 9 1"]
  by (simp add: overlay_def bytes_of_def)

definition sample_realloc :: "buf ptr \<Rightarrow> nat \<Rightarrow> buf ptr" where
  "sample_realloc p n =
     (let old = (case p of None \<Rightarrow> [] | Some b \<Rightarrow> b) in Some (take n old @ replicate (n - length old) 7))"

lemma sample_realloc_ok: "realloc_ok sample_realloc" "sample_realloc p n \<noteq> None"
  by (auto simp: realloc_ok_def sample_realloc_def Let_def min_def)

theorem printf_allocated_output_witness:
  "(\<exists>b ws. PR_smprintf (\<lambda>_. True) (\<lambda>f (d :: unit). f) sample_realloc (bytes_of ''x=%05d;%1x'' @ [0]) [VInt (-42), VInt 255] =
      Some (Some b, ws) \<and> take 11 b = bytes_of ''x=-0042;ff'' @ [0]) \<and>
   (\<exists>b ws. PR_sprintf_append (\<lambda>_. True) (\<lambda>f (d :: unit). f) sample_realloc (Some [65, 66, 0]) (bytes_of ''x=%05d;%1x'' @ [0])
        [VInt (-42), VInt 255] = Some (Some b, ws) \<and> take 13 b = bytes_of ''ABx=-0042;ff'' @ [0])"
proof
  have n: "cstr [65, 66, 0] = [65, 66]" "has_nul [65, 66, 0]" by (simp_all add: cstr_def has_nul_def)
  have l: "length (cstr [65, 66, 0]) + 32 \<le> 1073741824" by (simp add: n)
  note t = printf_allocated_output [OF sample_text sample_realloc_ok(1) n(2) l, unfolded n(1)]
  show "\<exists>b ws. PR_smprintf (\<lambda>_. True) (\<lambda>f (d :: unit). f) sample_realloc (bytes_of ''x=%05d;%1x'' @ [0]) [VInt (-42), VInt 255] =
      Some (Some b, ws) \<and> take 11 b = bytes_of ''x=-0042;ff'' @ [0]"
    using t [THEN conjunct1] sample_realloc_ok(2) by (auto simp: bytes_of_def eval_nat_numeral split: option.splits)
  show "\<exists>b ws. PR_sprintf_append (\<lambda>_. True) (\<lambda>f (d :: unit). f) sample_realloc (Some [65, 66, 0]) (bytes_of ''x=%05d;%1x'' @ [0])
        [VInt (-42), VInt 255] = Some (Some b, ws) \<and> take 13 b = bytes_of ''ABx=-0042;ff'' @ [0]"
    using t [THEN conjunct2] sample_realloc_ok(2) by (auto simp: bytes_of_def eval_nat_numeral split: option.splits)
qed

theorem printf_function_output_witness:
  "\<exists>arg' xs. PR_sxprintf (\<lambda>_. True) (\<lambda>f (d :: unit). f) (\<lambda>a x. Some (0, x # a)) [] (bytes_of ''%s=%c'' @ [0])
      [VStr (Some [97, 98, 0]), VInt 67] = Some (5, arg') \<and> concat xs = bytes_of ''ab=C'' @ [0] \<and>
      feed (\<lambda>a x. Some (0, x # a)) [] xs = Some arg'"
proof -
  have "sprintf_text (\<lambda>_. None) (\<lambda>_. True) (\<lambda>f (d :: unit). f) (bytes_of ''%s=%c'' @ [0]) [VStr (Some [97, 98, 0]), VInt 67] =
      Some (bytes_of ''ab=C'')"
    by code_simp
  from printf_function_output [OF this, of "\<lambda>a x. Some (0, x # a)" "[]"] show ?thesis
    by (auto simp: bytes_of_def)
qed

theorem printf_integer_roundtrip_witness:
  "\<exists>ds. sprintf_text text_len (\<lambda>_. True) (\<lambda>f (d :: unit). f) (bytes_of ''%*.*lld'' @ [0])
      [VInt 30, VInt 22, VInt64 (-9223372036854775808)] =
      Some (replicate (30 - (1 + max 22 (length ds))) 32 @ [45] @ replicate (22 - length ds) 48 @ ds) \<and>
    value_of 10 ds = nat 9223372036854775808"
  using printf_integer_roundtrip [of "-9223372036854775808" 30 22 "\<lambda>_. True" "\<lambda>f (d :: unit). f"] by auto

end
