(* ===== verification/Moz_TimeFormat.thy ===== *)
theory Moz_TimeFormat
  imports Moz_TimeParse Moz_Printf
begin

text \<open>
  The part of \<open>src/nsprpub/pr/src/misc/prtime.c\<close> that prints a time: \<open>PR_FormatTime\<close>,
  \<open>PR_FormatTimeUSEnglish\<close> with its tables and macros, and \<open>pr_WeekOfYear\<close>.

  The numbers go through the model of \<open>PR_snprintf\<close>. \<open>strftime\<close> of the C library is a parameter; the build is one where
  \<open>struct tm\<close> has the member \<open>tm_gmtoff\<close>. The first contents of \<open>tmpBuf\<close> are a parameter.
\<close>

section \<open>PR_FormatTime\<close>

text \<open>\<open>strftime s max fmt tm\<close>: the result and the contents it leaves in \<open>s\<close>; the argument \<open>tm\<close> is paired
  with its \<open>tm_gmtoff\<close>.\<close>

type_synonym strftime_fn = "buf ptr \<Rightarrow> nat \<Rightarrow> buf \<Rightarrow> (c_tm \<times> int) ptr \<Rightarrow> nat \<times> buf ptr"

definition struct_tm :: "PRExplodedTime \<Rightarrow> c_tm" where
  "struct_tm tm =
     \<lparr>ct_sec = tm_sec tm, ct_min = tm_min tm, ct_hour = tm_hour tm, ct_mday = tm_mday tm,
      ct_mon = tm_month tm, ct_year = tm_year tm - 1900, ct_wday = tm_wday tm, ct_yday = tm_yday tm,
      ct_isdst = (if tp_dst_offset (tm_params tm) \<noteq> 0 then 1 else 0)\<rparr>"

definition PR_FormatTime :: "strftime_fn \<Rightarrow> buf ptr \<Rightarrow> int \<Rightarrow> buf \<Rightarrow> PRExplodedTime ptr \<Rightarrow> (u32 \<times> buf ptr) exec" where
  "PR_FormatTime strftime buf buflen fmt tm =
     (let ap = map_option (\<lambda>tm. (struct_tm tm, i32 (tp_gmt_offset (tm_params tm) + tp_dst_offset (tm_params tm)))) tm;
          (rv, buf) = strftime buf (nat (buflen mod 18446744073709551616)) fmt ap
      in if rv = 0 \<and> buf \<noteq> None \<and> buflen > 0
         then do { b \<leftarrow> buf; b \<leftarrow> wr b 0 0; Some (0, Some b) }
         else Some (word_of_nat rv, buf))"

section \<open>Tables\<close>

definition abbrevDays :: "buf list" where
  "abbrevDays = map bytes_of [''Sun'', ''Mon'', ''Tue'', ''Wed'', ''Thu'', ''Fri'', ''Sat'']"

definition days :: "buf list" where
  "days = map bytes_of [''Sunday'', ''Monday'', ''Tuesday'', ''Wednesday'', ''Thursday'', ''Friday'', ''Saturday'']"

definition abbrevMonths :: "buf list" where
  "abbrevMonths = map bytes_of [''Jan'', ''Feb'', ''Mar'', ''Apr'', ''May'', ''Jun'',
     ''Jul'', ''Aug'', ''Sep'', ''Oct'', ''Nov'', ''Dec'']"

definition months :: "buf list" where
  "months = map bytes_of [''January'', ''February'', ''March'', ''April'', ''May'', ''June'',
     ''July'', ''August'', ''September'', ''October'', ''November'', ''December'']"

section \<open>The output buffer\<close>

text \<open>\<open>outp\<close> is \<open>bufPtr - buf\<close>, \<open>room\<close> is what is left of \<open>bufSize\<close>. \<open>Inl\<close> is the buffer at a \<open>return 0\<close>.\<close>

record fmt_state =
  outb :: buf
  outp :: nat
  room :: u32
  tmpb :: buf

definition ADDCHAR :: "byte \<Rightarrow> fmt_state \<Rightarrow> (buf + fmt_state) exec" where
  "ADDCHAR ch st =
     (if room st < 1 then
        if outp st = 0 then None
        else do { b \<leftarrow> wr (outb st) (outp st - 1) 0; Some (Inl b) }
      else do { b \<leftarrow> wr (outb st) (outp st) ch;
                Some (Inr (st\<lparr>outb := b, outp := outp st + 1, room := room st - 1\<rparr>)) })"

definition ADDSTR :: "buf \<Rightarrow> fmt_state \<Rightarrow> (buf + fmt_state) exec" where
  "ADDSTR str st =
     do { strSize \<leftarrow> map_option (word_of_nat :: nat \<Rightarrow> u32) (c_strlen str);
          if strSize > room st then
            if room st = 0 then
              if outp st = 0 then None else do { b \<leftarrow> wr (outb st) (outp st - 1) 0; Some (Inl b) }
            else do { b \<leftarrow> wr (outb st) (outp st) 0; Some (Inl b) }
          else do { b \<leftarrow> put_bytes (outb st) (outp st) (take (unat strSize) str);
                    Some (Inr (st\<lparr>outb := b, outp := outp st + unat strSize, room := room st - strSize\<rparr>)) } }"

section \<open>Weeks\<close>

definition pr_WeekOfYear :: "PRExplodedTime \<Rightarrow> int \<Rightarrow> u32" where
  "pr_WeekOfYear time firstDayOfWeek =
     (let dayOfWeek = i32 (tm_wday time - firstDayOfWeek);
          dayOfWeek = (if dayOfWeek < 0 then i32 (dayOfWeek + 7) else dayOfWeek);
          dayOfYear = i32 (tm_yday time - dayOfWeek)
      in if dayOfYear \<le> 0 then 0
         else word_of_int (dayOfYear sdiv 7 + (if dayOfYear smod 7 = 0 then 0 else 1)))"

section \<open>PR_FormatTimeUSEnglish\<close>

text \<open>The cases that print a number: the format for \<open>PR_snprintf\<close> and the argument\<close>

definition number_case :: "byte \<Rightarrow> PRExplodedTime \<Rightarrow> (string \<times> int) option" where
  "number_case c time =
     (if c = 100 then Some (''%.2ld'', tm_mday time)
      else if c = 72 then Some (''%.2ld'', tm_hour time)
      else if c = 73 then Some (''%.2ld'', if tm_hour time smod 12 \<noteq> 0 then tm_hour time smod 12 else 12)
      else if c = 106 then Some (''%.3d'', tm_yday time + 1)
      else if c = 109 then Some (''%.2ld'', tm_month time + 1)
      else if c = 77 then Some (''%.2ld'', tm_min time)
      else if c = 83 then Some (''%.2ld'', tm_sec time)
      else if c = 85 then Some (''%.2d'', uint (pr_WeekOfYear time 0))
      else if c = 119 then Some (''%d'', tm_wday time)
      else if c = 87 then Some (''%.2d'', uint (pr_WeekOfYear time 1))
      else if c = 121 then Some (''%.2d'', tm_year time smod 100)
      else if c = 89 then Some (''%.4d'', tm_year time)
      else None)"

text \<open>The cases that print a word; reading past the end of a table is undefined.\<close>

definition word_cases :: "byte \<Rightarrow> bool" where
  "word_cases c \<longleftrightarrow> c \<in> {97, 65, 98, 66, 112}"

definition word_of_case :: "byte \<Rightarrow> PRExplodedTime \<Rightarrow> buf exec" where
  "word_of_case c time =
     (if c = 97 then aref abbrevDays (tm_wday time)
      else if c = 65 then aref days (tm_wday time)
      else if c = 98 then aref abbrevMonths (tm_month time)
      else if c = 66 then aref months (tm_month time)
      else Some (bytes_of (if tm_hour time < 12 then ''AM'' else ''PM'')))"

text \<open>The cases that print with a format of their own\<close>

definition nested_case :: "byte \<Rightarrow> buf option" where
  "nested_case c =
     (if c = 99 then Some (bytes_of ''%a %b %d %H:%M:%S %Y'' @ [0])
      else if c = 120 then Some (bytes_of ''%m/%d/%y'' @ [0])
      else if c = 88 then Some (bytes_of ''%H:%M:%S'' @ [0])
      else None)"

definition print_number :: "string \<Rightarrow> int \<Rightarrow> fmt_state \<Rightarrow> (buf + fmt_state) exec" where
  "print_number fmt n st =
     do { (_, t, _) \<leftarrow> PR_snprintf (\<lambda>_. False) (\<lambda>_ (d :: unit). []) (tmpb st) 40 (bytes_of fmt @ [0]) [VInt n];
          ADDSTR t (st\<lparr>tmpb := t\<rparr>) }"

definition print_zone :: "strftime_fn \<Rightarrow> PRExplodedTime \<Rightarrow> fmt_state \<Rightarrow> (buf + fmt_state) exec" where
  "print_zone strftime time st =
     do { (_, t) \<leftarrow> PR_FormatTime strftime (Some (tmpb st)) 40 (bytes_of ''%Z'' @ [0]) (Some time);
          t \<leftarrow> t;
          ADDSTR t (st\<lparr>tmpb := t\<rparr>) }"

text \<open>The cases without a format of their own, the default included\<close>

definition plain_directive :: "strftime_fn \<Rightarrow> PRExplodedTime \<Rightarrow> byte \<Rightarrow> fmt_state \<Rightarrow> (buf + fmt_state) exec" where
  "plain_directive strftime time c st =
     (if c = 37 then ADDCHAR 37 st
      else if word_cases c then do { w \<leftarrow> word_of_case c time; ADDSTR (w @ [0]) st }
      else case number_case c time of
        Some (fmt, n) \<Rightarrow> print_number fmt n st
      | None \<Rightarrow>
          if c = 90 then print_zone strftime time st
          else do { r \<leftarrow> ADDCHAR 37 st; case r of Inl b \<Rightarrow> Some (Inl b) | Inr st \<Rightarrow> ADDCHAR c st })"

text \<open>How many directives with a format of their own may still come: none in the formats they use\<close>

definition nested_left :: "buf \<Rightarrow> nat \<Rightarrow> nat" where
  "nested_left fmt i = length (filter (\<lambda>c. nested_case c \<noteq> None) (drop i fmt))"

lemma nested_case_simps: "nested_case c \<noteq> None \<longleftrightarrow> c \<in> {99, 120, 88}"
  by (simp add: nested_case_def)

lemma nested_left_le: "nested_left fmt (i + k) \<le> nested_left fmt i"
proof -
  have "drop i fmt = take k (drop i fmt) @ drop (i + k) fmt"
    by (metis append_take_drop_id drop_drop add.commute)
  then show ?thesis unfolding nested_left_def by (metis (lifting) filter_append le_add2 length_append)
qed

lemma nested_left_sub: "nested_case c = Some f \<Longrightarrow> nested_left f 0 = 0"
  by (auto simp: nested_case_def nested_left_def bytes_of_def split: if_splits)

lemma nested_left_pos: "rd fmt i = Some c \<Longrightarrow> nested_case c \<noteq> None \<Longrightarrow> 0 < nested_left fmt i"
  by (auto simp: nested_left_def rd_eq_Some Cons_nth_drop_Suc [symmetric])

function format_us :: "strftime_fn \<Rightarrow> buf \<Rightarrow> PRExplodedTime \<Rightarrow> buf \<Rightarrow> nat \<Rightarrow> fmt_state \<Rightarrow> (u32 \<times> buf) exec" where
  "format_us strftime junk time fmt i st =
     do { c \<leftarrow> rd fmt i;
          if c = 0 then
            do { r \<leftarrow> ADDCHAR 0 st;
                 case r of Inl b \<Rightarrow> Some (0, b) | Inr st \<Rightarrow> Some (word_of_nat (outp st) - 1, outb st) }
          else if c \<noteq> 37 then
            do { r \<leftarrow> ADDCHAR c st;
                 case r of Inl b \<Rightarrow> Some (0, b) | Inr st \<Rightarrow> format_us strftime junk time fmt (i + 1) st }
          else
            do { c \<leftarrow> rd fmt (i + 1);
                 r \<leftarrow> (case nested_case c of
                        Some f \<Rightarrow>
                          do { (_, t) \<leftarrow> format_us strftime junk time f 0 \<lparr>outb = tmpb st, outp = 0, room = 40, tmpb = junk\<rparr>;
                               ADDSTR t (st\<lparr>tmpb := t\<rparr>) }
                      | None \<Rightarrow> plain_directive strftime time c st);
                 case r of Inl b \<Rightarrow> Some (0, b) | Inr st \<Rightarrow> format_us strftime junk time fmt (i + 2) st } }"
  by pat_completeness auto
termination
proof (relation "measures [\<lambda>(strftime, junk, time, fmt, i, st). nested_left fmt i,
    \<lambda>(strftime, junk, time, fmt, i, st). length fmt - i]", goal_cases)
  case (2 strftime junk time fmt i st c r st')
  then show ?case using nested_left_le [of fmt i 1] by (auto simp: rd_eq_Some)
next
  case (3 strftime junk time fmt i st c c' f)
  then show ?case
    using nested_left_le [of fmt i 1] nested_left_pos [of fmt "i + 1" c'] by (auto simp: nested_left_sub)
next
  case (4 strftime junk time fmt i st c c' r st')
  then show ?case using nested_left_le [of fmt i 2] by (auto simp: rd_eq_Some)
qed simp

declare format_us.simps [simp del]

definition PR_FormatTimeUSEnglish :: "strftime_fn \<Rightarrow> buf \<Rightarrow> buf \<Rightarrow> u32 \<Rightarrow> buf \<Rightarrow> PRExplodedTime \<Rightarrow> (u32 \<times> buf) exec" where
  "PR_FormatTimeUSEnglish strftime junk buf bufSize format time =
     format_us strftime junk time format 0 \<lparr>outb = buf, outp = 0, room = bufSize, tmpb = junk\<rparr>"

section \<open>Decimal numbers of fixed length\<close>

text \<open>The last \<open>k\<close> decimal digits of a number\<close>

fun dec :: "nat \<Rightarrow> nat \<Rightarrow> buf" where
  "dec 0 n = []"
| "dec (Suc k) n = dec k (n div 10) @ [word_of_nat (48 + n mod 10)]"

lemma length_dec [simp]: "length (dec k n) = k"
  by (induction k n rule: dec.induct) simp_all

lemma dec_0: "dec k 0 = replicate k 48"
  by (induction k) (simp_all add: replicate_append_same)

lemma dec_nonzero: "0 \<notin> set (dec k n)"
proof (induction k n rule: dec.induct)
  case (2 k n)
  have "n mod 10 < 10" by simp
  then have "\<not> 256 dvd 48 + n mod 10" by (auto dest!: dvd_imp_le)
  then have "word_of_nat (48 + n mod 10) \<noteq> (0 :: byte)"
    using word_of_nat_eq_0_iff [of "48 + n mod 10", where ?'a = 8] by (simp del: of_nat_add)
  then show ?case using 2 by auto
qed simp

lemma hex_nth_digit: "i < 10 \<Longrightarrow> hex ! i = word_of_nat (48 + i)"
proof -
  have "list_all (\<lambda>i. hex ! i = word_of_nat (48 + i)) [0..<10]" by (simp add: hex_bytes upt_rec)
  then show "i < 10 \<Longrightarrow> hex ! i = word_of_nat (48 + i)" by (simp add: list_all_iff)
qed

lemma cvt_digits_dec:
  assumes "n < 10 ^ k" "k + length cvt \<le> 100"
  shows "\<exists>ds. cvt_digits n 10 hex cvt = Some (ds @ cvt) \<and> length ds \<le> k \<and>
    replicate (k - length ds) 48 @ ds = dec k n \<and> (ds = [] \<longleftrightarrow> n = 0)"
  using assms
proof (induction k n arbitrary: cvt rule: dec.induct)
  case (1 n)
  then show ?case by (simp add: cvt_digits.simps)
next
  case (2 k n)
  show ?case
  proof (cases "n = 0")
    case True
    then show ?thesis using dec_0 [of "Suc k"] by (auto simp: cvt_digits.simps)
  next
    case False
    define d where "d = hex ! (n mod 10)"
    have d: "d = word_of_nat (48 + n mod 10)" "rd hex (n mod 10 mod 16) = Some d"
      using hex_nth_digit [of "n mod 10"] by (simp_all add: d_def rd_def hex_bytes(1) less_trans [of _ 10 16])
    obtain ds where ds: "cvt_digits (n div 10) 10 hex (d # cvt) = Some (ds @ d # cvt)" "length ds \<le> k"
      "replicate (k - length ds) 48 @ ds = dec k (n div 10)"
      using "2.IH" [of "d # cvt"] "2.prems" by (auto simp: less_mult_imp_div_less mult.commute)
    have "cvt_digits n 10 hex cvt = Some ((ds @ [d]) @ cvt)"
      using False "2.prems"(2) d(2) ds(1) by (subst cvt_digits.simps) simp
    moreover have "replicate (Suc k - length (ds @ [d])) 48 @ ds @ [d] = dec (Suc k) n"
      using ds(3) d(1) by (simp flip: append_assoc)
    ultimately show ?thesis using ds(2) False by (intro exI [of _ "ds @ [d]"]) simp
  qed
qed

text \<open>What the conversions print: a number of at most \<open>k\<close> digits with precision \<open>k\<close>, or of one digit without.\<close>

lemma emits_cvt_l_dec:
  assumes "0 \<le> n" "n < 10 ^ k" "1 \<le> k" "k \<le> 9" "prec = int k \<or> k = 1 \<and> prec = -1" "even type"
  shows "emits (cvt_l collect n 0 prec 10 type no_flags hex) (dec k (nat n))"
proof -
  have "nat n < 10 ^ k" using assms(1,2) by (simp add: nat_less_iff)
  have "(10::int) ^ k \<le> 10 ^ 9" using assms(4) by (intro power_increasing) simp_all
  then have m: "n mod 18446744073709551616 = n" using assms(1,2) by simp
  obtain ds where ds: "cvt_digits (nat n) 10 hex [] = Some ds" "length ds \<le> k"
    "replicate (k - length ds) 48 @ ds = dec k (nat n)" "ds = [] \<longleftrightarrow> n = 0"
    using cvt_digits_dec [of "nat n" k "[]"] \<open>nat n < 10 ^ k\<close> assms(1,4) by auto
  define es where "es = (if ds = [] then [48] else ds)"
  have c: "cvt_l collect n 0 prec 10 type no_flags hex = fill_n collect es (int (length es)) 0 prec type no_flags"
    using assms(3,5) ds(1) by (auto simp: cvt_l_def es_def m fun_eq_iff Let_def)
  have "replicate (nat prec - length es) 48 @ es = dec k (nat n)"
  proof (cases "n = 0")
    case True
    then show ?thesis using ds(4) assms(3,5) dec_0 [of k] by (cases k) (auto simp: es_def replicate_append_same)
  next
    case False
    then have "ds \<noteq> []" using ds(4) by simp
    then show ?thesis using ds(2,3) assms(5) by (cases ds) (auto simp: es_def)
  qed
  moreover have "emits (fill_n collect es (int (length es)) 0 prec type no_flags) (replicate (nat prec - length es) 48 @ es)"
    using emits_fill_n [of no_flags type "[]" es 0 prec] assms(6) by (simp add: no_flags_def)
  ultimately show ?thesis unfolding c by simp
qed

lemma emits_convert_dec:
  assumes "0 \<le> n" "n < 10 ^ k" "1 \<le> k" "k \<le> 9" "prec = int k \<or> k = 1 \<and> prec = -1" "type = TYPE_INTN \<or> type = TYPE_INT32"
  shows "emits (convert_int collect (VInt n :: 'd va) 0 prec 10 type no_flags hex) (dec k (nat n))"
proof -
  have "(10::int) ^ k \<le> 10 ^ 9" using assms(4) by (intro power_increasing) simp_all
  then have "i32 n = n" using assms(1,2) by (simp add: i32_id)
  moreover have "even type" using assms(6) by (auto simp: types)
  ultimately show ?thesis
    using emits_cvt_l_dec [OF assms(1-5)] assms(1,6) by (auto simp: convert_int_def emits_def)
qed

text \<open>The number of the week of a time: how many days of the year up to it, the first day of the year left out, fall on
  the day of the week with which weeks begin.\<close>

definition week_number :: "PRExplodedTime \<Rightarrow> int \<Rightarrow> nat" where
  "week_number t first = length (filter (\<lambda>d. (tm_wday t - (tm_yday t - d)) mod 7 = first) [1..tm_yday t])"

text \<open>A format of one directive without flags and width\<close>

lemma one_directive:
  assumes "count_numbered fmt 0 0 False = Some (Some 0)" "rd fmt 0 = Some 37" "rd fmt (Suc 0) = Some c0"
    "c0 \<noteq> 37" "c0 \<noteq> 42"
    "read_flags fmt (Suc 0) no_flags = Some (no_flags, Suc 0)" "read_num fmt (Suc 0) 0 = Some (0, q1)"
    "\<And>ap :: unit va list. read_prec fmt q1 ap = Some (prec, q2, ap)" "read_size fmt q2 = Some (type, q3)"
    "rd fmt q3 = Some 100" "rd fmt (Suc q3) = Some 0" "type = TYPE_INTN \<or> type = TYPE_INT32"
    and "0 \<le> n" "n < 10 ^ k" "1 \<le> k" "k \<le> 9" "prec = int k \<or> k = 1 \<and> prec = -1"
  shows "sprintf_text text_len mem (native :: buf \<Rightarrow> unit \<Rightarrow> buf) fmt [VInt n] = Some (dec k (nat n))"
proof -
  have e: "convert_int collect (VInt n :: unit va) 0 prec 10 type no_flags hex [] = Some (0, dec k (nat n))"
    using emits_convert_dec [OF assms(13-17,12), where 'd = unit] assms(16) by (simp add: emits_def)
  have "directive native collect text_len None fmt (Suc 0) [VInt n] [] = Some (0, dec k (nat n), [], [], Suc q3)"
    using assms(3-12) e
    by (simp add: directive_def find_arg_def read_width_def settle_no_flags convert_def fetch_def convert_arg_def)
  then have "dosprintf_loop native collect text_len None fmt 0 [VInt n] [] = Some (0, dec k (nat n) @ [0], [])"
    using assms(2-5,11,16)
    by (subst dosprintf_loop.simps, simp, subst dosprintf_loop.simps) (simp add: put_def collect_def)
  then show ?thesis by (simp add: sprintf_text_def dosprintf_def BuildArgArray_def assms(1))
qed

lemma print_formats:
  fixes native :: "buf \<Rightarrow> unit \<Rightarrow> buf"
  assumes "0 \<le> n"
  shows "n < 100 \<Longrightarrow> sprintf_text text_len mem native (bytes_of ''%.2ld'' @ [0]) [VInt n] = Some (dec 2 (nat n))"
    and "n < 100 \<Longrightarrow> sprintf_text text_len mem native (bytes_of ''%.2d'' @ [0]) [VInt n] = Some (dec 2 (nat n))"
    and "n < 1000 \<Longrightarrow> sprintf_text text_len mem native (bytes_of ''%.3d'' @ [0]) [VInt n] = Some (dec 3 (nat n))"
    and "n < 10000 \<Longrightarrow> sprintf_text text_len mem native (bytes_of ''%.4d'' @ [0]) [VInt n] = Some (dec 4 (nat n))"
    and "n < 10 \<Longrightarrow> sprintf_text text_len mem native (bytes_of ''%d'' @ [0]) [VInt n] = Some (dec 1 (nat n))"
proof -
  note run = read_flags.simps [of _ "Suc 0"] read_num.simps read_prec_def read_width_def read_size_def rd_def digit_def digit_val_def
  let ?p = "\<lambda>c. [37, 46, c, 100, 0] :: buf"
  let ?l = "[37, 46, 50, 108, 100, 0] :: buf"
  have f: "bytes_of ''%.2ld'' @ [0] = ?l" "bytes_of ''%.2d'' @ [0] = ?p 50" "bytes_of ''%.3d'' @ [0] = ?p 51"
    "bytes_of ''%.4d'' @ [0] = ?p 52" "bytes_of ''%d'' @ [0] = [37, 100, 0]"
    by (simp_all add: bytes_of_def)
  have c: "count_numbered ?l 0 0 False = Some (Some 0)" "count_numbered (?p 50) 0 0 False = Some (Some 0)"
    "count_numbered (?p 51) 0 0 False = Some (Some 0)" "count_numbered (?p 52) 0 0 False = Some (Some 0)"
    "count_numbered [37, 100, 0] 0 0 False = Some (Some 0)"
    by code_simp+
  show "sprintf_text text_len mem native (bytes_of ''%.2ld'' @ [0]) [VInt n] = Some (dec 2 (nat n))" if "n < 100"
    unfolding f using assms that
    by (intro one_directive [where ?c0.0 = 46 and ?q1.0 = 1 and prec = 2 and ?q2.0 = 3 and type = TYPE_INT32 and ?q3.0 = 4])
      (simp_all add: c run i32_id)
  show "sprintf_text text_len mem native (bytes_of ''%.2d'' @ [0]) [VInt n] = Some (dec 2 (nat n))" if "n < 100"
    unfolding f using assms that
    by (intro one_directive [where ?c0.0 = 46 and ?q1.0 = 1 and prec = 2 and ?q2.0 = 3 and type = TYPE_INTN and ?q3.0 = 3])
      (simp_all add: c run i32_id)
  show "sprintf_text text_len mem native (bytes_of ''%.3d'' @ [0]) [VInt n] = Some (dec 3 (nat n))" if "n < 1000"
    unfolding f using assms that
    by (intro one_directive [where ?c0.0 = 46 and ?q1.0 = 1 and prec = 3 and ?q2.0 = 3 and type = TYPE_INTN and ?q3.0 = 3])
      (simp_all add: c run i32_id)
  show "sprintf_text text_len mem native (bytes_of ''%.4d'' @ [0]) [VInt n] = Some (dec 4 (nat n))" if "n < 10000"
    unfolding f using assms that
    by (intro one_directive [where ?c0.0 = 46 and ?q1.0 = 1 and prec = 4 and ?q2.0 = 3 and type = TYPE_INTN and ?q3.0 = 3])
      (simp_all add: c run i32_id)
  show "sprintf_text text_len mem native (bytes_of ''%d'' @ [0]) [VInt n] = Some (dec 1 (nat n))" if "n < 10"
    unfolding f using assms that
    by (intro one_directive [where ?c0.0 = 100 and ?q1.0 = 1 and prec = "-1" and ?q2.0 = 1 and type = TYPE_INTN and ?q3.0 = 1])
      (simp_all add: c run)
qed

section \<open>What a format prints\<close>

definition clock_text :: "PRExplodedTime \<Rightarrow> buf" where
  "clock_text t = dec 2 (nat (tm_hour t)) @ [58] @ dec 2 (nat (tm_min t)) @ [58] @ dec 2 (nat (tm_sec t))"

definition directive_text :: "PRExplodedTime \<Rightarrow> byte \<Rightarrow> buf option" where
  "directive_text t c =
     (let day = days ! nat (tm_wday t); month = months ! nat (tm_month t) in
      if c = 37 then Some [37]
      else if c = 97 then Some (take 3 day)
      else if c = 65 then Some day
      else if c = 98 then Some (take 3 month)
      else if c = 66 then Some month
      else if c = 112 then Some (bytes_of (if tm_hour t < 12 then ''AM'' else ''PM''))
      else if c = 100 then Some (dec 2 (nat (tm_mday t)))
      else if c = 72 then Some (dec 2 (nat (tm_hour t)))
      else if c = 73 then Some (dec 2 (nat ((tm_hour t + 11) mod 12 + 1)))
      else if c = 106 then Some (dec 3 (nat (tm_yday t + 1)))
      else if c = 109 then Some (dec 2 (nat (tm_month t + 1)))
      else if c = 77 then Some (dec 2 (nat (tm_min t)))
      else if c = 83 then Some (dec 2 (nat (tm_sec t)))
      else if c = 85 then Some (dec 2 (week_number t 0))
      else if c = 119 then Some (dec 1 (nat (tm_wday t)))
      else if c = 87 then Some (dec 2 (week_number t 1))
      else if c = 121 then Some (dec 2 (nat (tm_year t mod 100)))
      else if c = 89 then Some (dec 4 (nat (tm_year t)))
      else if c = 99 then
        Some (take 3 day @ [32] @ take 3 month @ [32] @ dec 2 (nat (tm_mday t)) @ [32] @ clock_text t @ [32] @ dec 4 (nat (tm_year t)))
      else if c = 120 then
        Some (dec 2 (nat (tm_month t + 1)) @ [47] @ dec 2 (nat (tm_mday t)) @ [47] @ dec 2 (nat (tm_year t mod 100)))
      else if c = 88 then Some (clock_text t)
      else if c = 90 then None
      else Some [37, c])"

fun fmt_text :: "PRExplodedTime \<Rightarrow> buf \<Rightarrow> buf option" where
  "fmt_text t [] = Some []"
| "fmt_text t [c] = (if c = 37 then None else Some [c])"
| "fmt_text t (c # d # r) =
     (if c = 37 then do { x \<leftarrow> directive_text t d; y \<leftarrow> fmt_text t r; Some (x @ y) }
      else do { y \<leftarrow> fmt_text t (d # r); Some (c # y) })"

definition printable :: "PRExplodedTime \<Rightarrow> bool" where
  "printable t \<longleftrightarrow> 0 \<le> tm_sec t \<and> tm_sec t < 100 \<and> 0 \<le> tm_min t \<and> tm_min t < 100 \<and> 0 \<le> tm_hour t \<and> tm_hour t < 24 \<and>
     0 \<le> tm_mday t \<and> tm_mday t < 100 \<and> 0 \<le> tm_month t \<and> tm_month t < 12 \<and> 0 \<le> tm_year t \<and> tm_year t < 10000 \<and>
     0 \<le> tm_wday t \<and> tm_wday t < 7 \<and> 0 \<le> tm_yday t \<and> tm_yday t < 366"

lemma div_7_up: "(e + 6) div 7 = e div 7 + (if e mod 7 = 0 then 0 else 1)" for e :: int
proof -
  define q r where "q = e div 7" and "r = e mod 7"
  have "e = 7 * q + r" "0 \<le> r" "r < 7" unfolding q_def r_def using pos_mod_sign [of 7 e] pos_mod_bound [of 7 e] by simp_all
  then show ?thesis unfolding q_def [symmetric] r_def [symmetric]
    by (cases "r = 0") (simp_all add: int_div_pos_eq [of "e + 6" 7 "q" "6"] int_div_pos_eq [of "e + 6" 7 "q + 1" "r - 1"])
qed

lemma week_value:
  assumes "0 \<le> tm_wday t" "tm_wday t < 7" "0 \<le> tm_yday t" "tm_yday t < 366" "0 \<le> first" "first < 7"
  shows "uint (pr_WeekOfYear t first) =
    (let d = tm_yday t - (tm_wday t - first) mod 7 in if d \<le> 0 then 0 else (d + 6) div 7)"
proof -
  define w where "w = (tm_wday t - first) mod 7"
  have w: "w = (if tm_wday t - first < 0 then tm_wday t - first + 7 else tm_wday t - first)"
    unfolding w_def using assms(1,2,5,6) by presburger
  have r: "0 \<le> w" "w < 7" by (simp_all add: w_def)
  define d where "d = tm_yday t - w"
  have p: "pr_WeekOfYear t first = (if d \<le> 0 then 0 else word_of_int (d sdiv 7 + (if d smod 7 = 0 then 0 else 1)))"
    using assms w r by (simp add: pr_WeekOfYear_def i32_id Let_def d_def)
  have "d < 366" using r assms(4) by (simp add: d_def)
  have "d div 7 + (if d mod 7 = 0 then 0 else 1) = (d + 6) div 7" by (rule div_7_up [symmetric])
  moreover have "(d + 6) div 7 < 4294967296" using \<open>d < 366\<close> zdiv_mono1 [of "d + 6" 372 7] by simp
  ultimately show ?thesis
    unfolding p w_def [symmetric] d_def [symmetric] Let_def
    by (auto simp: sdiv_nonneg smod_nonneg uint_word_of_int_eq take_bit_int_eq_self)
qed

text \<open>The days up to the day \<open>Y\<close> of the year that fall on a weekday\<close>

lemma card_weekdays:
  assumes "0 \<le> Y" "0 \<le> v" "v < 7"
  shows "int (card {d \<in> {0..Y}. (Y - d) mod 7 = v}) = (if Y < v then 0 else (Y - v) div 7 + 1)"
proof (cases "Y < v")
  case True
  have "\<not> (Y - d) mod 7 = v" if "d \<in> {0..Y}" for d
    using that True assms(3) zmod_le_nonneg_dividend [of "Y - d" 7] by auto
  then have "{d \<in> {0..Y}. (Y - d) mod 7 = v} = {}" by blast
  then show ?thesis unfolding \<open>{d \<in> {0..Y}. (Y - d) mod 7 = v} = {}\<close> using True by simp
next
  case False
  have "{d \<in> {0..Y}. (Y - d) mod 7 = v} = (\<lambda>j. Y - v - 7 * j) ` {0..(Y - v) div 7}"
  proof (intro equalityI subsetI)
    fix d assume d: "d \<in> {d \<in> {0..Y}. (Y - d) mod 7 = v}"
    define j where "j = (Y - d) div 7"
    have "Y - d = 7 * j + v" using d mult_div_mod_eq [of 7 "Y - d"] by (simp add: j_def)
    moreover have "0 \<le> j" using d by (simp add: j_def pos_imp_zdiv_nonneg_iff)
    moreover have "7 * j \<le> Y - v" using calculation(1) d by simp
    then have "j \<le> (Y - v) div 7" by (simp add: zdiv_mono1 [of "7 * j" "Y - v" 7, simplified])
    ultimately show "d \<in> (\<lambda>j. Y - v - 7 * j) ` {0..(Y - v) div 7}" by (intro image_eqI [of _ _ j]) auto
  next
    fix d assume "d \<in> (\<lambda>j. Y - v - 7 * j) ` {0..(Y - v) div 7}"
    then obtain j where j: "d = Y - v - 7 * j" "0 \<le> j" "j \<le> (Y - v) div 7" by auto
    then have "7 * j \<le> Y - v" using mult_div_mod_eq [of 7 "Y - v"] pos_mod_sign [of 7 "Y - v"] by linarith
    moreover have "(Y - d) mod 7 = v" using assms(2,3) by (simp add: j(1))
    ultimately show "d \<in> {d \<in> {0..Y}. (Y - d) mod 7 = v}" using assms j by auto
  qed
  moreover have "inj_on (\<lambda>j. Y - v - 7 * j) {0..(Y - v) div 7}" by (simp add: inj_on_def)
  moreover have "0 \<le> (Y - v) div 7" using False by (simp add: pos_imp_zdiv_nonneg_iff)
  ultimately show ?thesis using False by (simp add: card_image)
qed

text \<open>The number of the week is the number of days of the year so far that fall on the first day of a week, as the
  comment of \<open>pr_WeekOfYear\<close> promises, except in a year that begins with such a day, where it is one less.\<close>

theorem week_of_year:
  assumes "0 \<le> tm_wday t" "tm_wday t < 7" "0 \<le> tm_yday t" "tm_yday t < 366" "0 \<le> first" "first < 7"
  shows "uint (pr_WeekOfYear t first) =
    int (card {d \<in> {0..tm_yday t}. (tm_wday t - (tm_yday t - d)) mod 7 = first}) -
    (if (tm_wday t - tm_yday t) mod 7 = first then 1 else 0)"
proof -
  define Y W v where "Y = tm_yday t" and "W = tm_wday t" and "v = (W - first) mod 7"
  have iff: "(W - x) mod 7 = first \<longleftrightarrow> x mod 7 = v" for x
  proof -
    have "(W - x) mod 7 = first \<longleftrightarrow> (W - x) mod 7 = first mod 7" using assms(5,6) by simp
    also have "\<dots> \<longleftrightarrow> 7 dvd - (x - (W - first))" unfolding mod_eq_dvd_iff by (simp add: algebra_simps)
    also have "\<dots> \<longleftrightarrow> x mod 7 = v" unfolding v_def mod_eq_dvd_iff by (simp only: dvd_minus_iff)
    finally show ?thesis .
  qed
  have v: "0 \<le> v" "v < 7" by (simp_all add: v_def)
  have c: "int (card {d \<in> {0..Y}. (W - (Y - d)) mod 7 = first}) = (if Y < v then 0 else (Y - v) div 7 + 1)"
    unfolding iff using card_weekdays [OF _ v, of Y] assms(3) by (simp add: Y_def)
  have "uint (pr_WeekOfYear t first) = (if Y - v \<le> 0 then 0 else (Y - v + 6) div 7)"
    using week_value [OF assms] by (simp add: Let_def Y_def W_def v_def)
  also have "\<dots> = (if Y < v then 0 else (Y - v) div 7 + 1) - (if Y mod 7 = v then 1 else 0)"
  proof -
    define e where "e = Y - v"
    have "Y mod 7 = v \<longleftrightarrow> e mod 7 = 0" unfolding e_def using v by presburger
    moreover have "- 7 < e" using assms(3) v by (simp add: e_def Y_def)
    moreover have "e < 0 \<Longrightarrow> - 7 < e \<Longrightarrow> e mod 7 \<noteq> 0" by presburger
    moreover have "(e + 6) div 7 = e div 7 + 1 - (if e mod 7 = 0 then 1 else 0)" by (simp add: div_7_up)
    moreover have "Y < v \<longleftrightarrow> e < 0" "Y - v = e" by (simp_all add: e_def)
    ultimately show ?thesis by (cases "e < 0"; cases "e = 0") simp_all
  qed
  finally show ?thesis using c iff [of Y] by (simp add: Y_def W_def)
qed

lemma week_number_eq:
  assumes "0 \<le> tm_wday t" "tm_wday t < 7" "0 \<le> tm_yday t" "tm_yday t < 366" "0 \<le> first" "first < 7"
  shows "week_number t first = unat (pr_WeekOfYear t first)"
proof -
  let ?P = "\<lambda>d. (tm_wday t - (tm_yday t - d)) mod 7 = first"
  have "week_number t first = card (set (filter ?P [1..tm_yday t]))"
    unfolding week_number_def by (intro distinct_card [symmetric]) simp
  also have "set (filter ?P [1..tm_yday t]) = {d \<in> {1..tm_yday t}. ?P d}" by auto
  finally have w: "week_number t first = card {d \<in> {1..tm_yday t}. ?P d}" .
  have "{d \<in> {0..tm_yday t}. ?P d} = (if ?P 0 then {0} else {}) \<union> {d \<in> {1..tm_yday t}. ?P d}"
  proof -
    have "d \<in> {0..tm_yday t} \<longleftrightarrow> d = 0 \<or> d \<in> {1..tm_yday t}" for d using assms(3) by auto
    then show ?thesis by auto
  qed
  moreover have "finite {d \<in> {1..tm_yday t}. ?P d}" by (rule finite_subset [of _ "{1..tm_yday t}"]) auto
  moreover have "0 \<notin> {d \<in> {1..tm_yday t}. ?P d}" by simp
  ultimately have c: "card {d \<in> {0..tm_yday t}. ?P d} = (if ?P 0 then 1 else 0) + card {d \<in> {1..tm_yday t}. ?P d}" by simp
  define b where "b = ((tm_wday t - tm_yday t) mod 7 = first)"
  have "?P 0 \<longleftrightarrow> b" by (simp only: diff_zero b_def)
  with c have n: "card {d \<in> {0..tm_yday t}. ?P d} = (if b then 1 else 0) + card {d \<in> {1..tm_yday t}. ?P d}" by (simp only:)
  have u: "uint (pr_WeekOfYear t first) = int (card {d \<in> {0..tm_yday t}. ?P d}) - (if b then 1 else 0)"
    unfolding b_def by (rule week_of_year [OF assms])
  have "a = (if q then 1 else 0) + c \<Longrightarrow> u = int a - (if q then 1 else 0) \<Longrightarrow> int c = u" for a c u and q :: bool
    by (cases q) simp_all
  from this [OF n u] have "int (card {d \<in> {1..tm_yday t}. ?P d}) = uint (pr_WeekOfYear t first)" .
  then have "int (week_number t first) = uint (pr_WeekOfYear t first)" unfolding w .
  then show ?thesis by (metis nat_int unat_eq_nat_uint)
qed

section \<open>The output buffer is filled from the left\<close>

definition filled_to :: "buf \<Rightarrow> nat \<Rightarrow> buf \<Rightarrow> fmt_state \<Rightarrow> bool" where
  "filled_to b n w st \<longleftrightarrow>
     0 < n \<and> n < 4294967296 \<and> n \<le> length b \<and> length w \<le> n \<and> length (tmpb st) = 40 \<and>
     outb st = overlay b 0 w \<and> outp st = length w \<and> unat (room st) = n - length w"

text \<open>A step that prints \<open>y\<close> after \<open>w\<close>: it does, or it ends the string within the buffer because there is no room.\<close>

definition prints :: "buf \<Rightarrow> nat \<Rightarrow> buf \<Rightarrow> buf \<Rightarrow> (buf + fmt_state) exec \<Rightarrow> bool" where
  "prints b n w y res \<longleftrightarrow>
     (case res of
        None \<Rightarrow> False
      | Some (Inr st) \<Rightarrow> filled_to b n (w @ y) st
      | Some (Inl b') \<Rightarrow> n < length (w @ y) \<and> (\<exists>k < n. k \<le> length (w @ y) \<and> b' = overlay b 0 (take k (w @ y) @ [0])))"

lemma wr_filled:
  assumes "filled_to b n w st" "length w < n"
  shows "wr (outb st) (length w) c = Some (overlay b 0 (w @ [c]))"
proof -
  have "overlay (overlay b 0 w) (length w) [c] = overlay b 0 (w @ [c])"
    using overlay_append [of 0 w b "[c]"] assms by (simp add: filled_to_def)
  moreover have l: "length w < length (outb st)" using assms by (simp add: filled_to_def length_overlay)
  ultimately show ?thesis using assms overlay_Cons [OF l, of c "[]"] by (simp add: wr_def filled_to_def)
qed

lemma wr_back:
  assumes "filled_to b n w st" "length w = n"
  shows "wr (outb st) (outp st - 1) 0 = Some (overlay b 0 (take (n - 1) w @ [0]))"
proof -
  have s: "0 < n" "n \<le> length b" "outb st = overlay b 0 w" "outp st = n" using assms by (simp_all add: filled_to_def)
  obtain v c where w: "w = v @ [c]" "length v = n - 1" using s(1) assms(2) by (cases w rule: rev_cases) auto
  have "(overlay b 0 w)[length v := 0] = overlay b 0 (v @ [0])"
    unfolding overlay_def w(1) by simp
  moreover have "n - 1 < length (overlay b 0 w)" using s assms(2) by (simp add: length_overlay)
  ultimately show ?thesis using s w by (simp add: wr_def)
qed

lemma ADDCHAR_prints:
  assumes "filled_to b n w st"
  shows "prints b n w [c] (ADDCHAR c st)"
proof (cases "length w < n")
  case True
  then have "1 \<le> room st" using assms by (simp add: filled_to_def word_le_nat_alt)
  then have "unat (room st - 1) = n - length w - 1" using assms by (simp add: filled_to_def unat_sub)
  then show ?thesis using assms True wr_filled [OF assms True, of c] \<open>1 \<le> room st\<close>
    by (simp add: ADDCHAR_def prints_def filled_to_def not_less [symmetric])
next
  case False
  then have l: "length w = n" using assms by (simp add: filled_to_def)
  then have r: "room st < 1" "outp st \<noteq> 0" using assms by (simp_all add: filled_to_def unat_eq_zero word_less_nat_alt)
  have "take (n - 1) (w @ [c]) = take (n - 1) w" using l by simp
  then show ?thesis using wr_back [OF assms l] r l assms
    by (auto simp: ADDCHAR_def prints_def filled_to_def intro!: exI [of _ "n - 1"])
qed

lemma ADDSTR_prints:
  assumes "filled_to b n w st" "0 \<notin> set y" "length y < 4294967296"
  shows "prints b n w y (ADDSTR (y @ 0 # r) st)"
proof -
  have len: "c_strlen (y @ 0 # r) = Some (length y)" by (simp add: c_strlen_eq cstr_append_0 assms(2))
  have u: "unat (word_of_nat (length y) :: u32) = length y" using assms(3) by (rule unat_word_of_nat_u32)
  show ?thesis
  proof (cases "length (w @ y) \<le> n")
    case True
    then have le: "(word_of_nat (length y) :: u32) \<le> room st" using assms u by (simp add: filled_to_def word_le_nat_alt)
    then have "unat (room st - word_of_nat (length y)) = n - length w - length y"
      using assms u by (simp add: filled_to_def unat_sub)
    moreover have "put_bytes (overlay b 0 w) (length w) y = Some (overlay b 0 (w @ y))"
      using True assms overlay_append [of 0 w b y] by (simp add: put_bytes_ok filled_to_def length_overlay)
    ultimately show ?thesis using assms True le
      by (simp add: ADDSTR_def len u prints_def filled_to_def not_less [symmetric])
  next
    case False
    then have gt: "room st < (word_of_nat (length y) :: u32)" using assms u by (auto simp: filled_to_def word_less_nat_alt)
    show ?thesis
    proof (cases "length w = n")
      case True
      then have r: "room st = 0" "outp st \<noteq> 0" using assms by (simp_all add: filled_to_def unat_eq_zero)
      have "take (n - 1) (w @ y) = take (n - 1) w" using True by simp
      then show ?thesis using wr_back [OF assms(1) True] r gt False assms(1) True
        by (auto simp: ADDSTR_def len prints_def filled_to_def intro!: exI [of _ "n - 1"])
    next
      case w: False
      then have lt: "length w < n" "room st \<noteq> 0" "outp st = length w" using assms(1) by (auto simp: filled_to_def)
      then show ?thesis using wr_filled [OF assms(1) lt(1), of 0] gt False
        by (auto simp: ADDSTR_def len prints_def intro!: exI [of _ "length w"])
    qed
  qed
qed

lemma filled_to_tmpb: "filled_to b n w st \<Longrightarrow> length t = 40 \<Longrightarrow> filled_to b n w (st\<lparr>tmpb := t\<rparr>)"
  by (simp add: filled_to_def)

lemma print_number_prints:
  assumes "filled_to b n w st" "0 \<notin> set y" "length y < 40"
    "\<And>mem (native :: buf \<Rightarrow> unit \<Rightarrow> buf). sprintf_text text_len mem native (bytes_of fmt @ [0]) [VInt i] = Some y"
  shows "prints b n w y (print_number fmt i st)"
proof -
  have t: "length (tmpb st) = 40" using assms(1) by (simp add: filled_to_def)
  have y: "y @ 0 # drop (Suc (length y)) (tmpb st) = overlay (tmpb st) 0 (y @ [0])" by (simp add: overlay_def)
  have "length (overlay (tmpb st) 0 (y @ [0])) = 40" using assms(3) t by (simp add: length_overlay)
  moreover obtain ws where "PR_snprintf (\<lambda>_. False) (\<lambda>_ (d :: unit). []) (tmpb st) 40 (bytes_of fmt @ [0]) [VInt i] =
      Some (word_of_nat (length y), overlay (tmpb st) 0 (y @ [0]), ws)"
    using snprintf_text [OF assms(4), of 40 "tmpb st" "\<lambda>_. False" "\<lambda>_ (d :: unit). []"] assms(3) t
    by (auto simp: min_def)
  ultimately show ?thesis
    using ADDSTR_prints [OF filled_to_tmpb [OF assms(1)] assms(2), of "overlay (tmpb st) 0 (y @ [0])" "drop (Suc (length y)) (tmpb st)"] assms(3)
    by (simp add: print_number_def y)
qed

section \<open>The directives\<close>

lemma less_12_cases:
  "m < (12::nat) \<Longrightarrow> m = 0 \<or> m = 1 \<or> m = 2 \<or> m = 3 \<or> m = 4 \<or> m = 5 \<or> m = 6 \<or> m = 7 \<or> m = 8 \<or> m = 9 \<or> m = 10 \<or> m = 11"
  by presburger

lemma day_names:
  assumes "d < 7"
  shows "abbrevDays ! d = take 3 (days ! d)" "0 \<notin> set (days ! d)" "length (days ! d) \<le> 9"
  using less_12_cases [of d] assms by (auto simp: abbrevDays_def days_def bytes_of_def)

lemma month_names:
  assumes "m < 12"
  shows "abbrevMonths ! m = take 3 (months ! m)" "0 \<notin> set (months ! m)" "length (months ! m) \<le> 9"
  using less_12_cases [OF assms] by (auto simp: abbrevMonths_def months_def bytes_of_def)

lemma word_of_case_text:
  assumes "printable t" "word_cases c"
  shows "\<exists>y. word_of_case c t = Some y \<and> directive_text t c = Some y \<and> 0 \<notin> set y \<and> length y < 40"
proof -
  have b: "nat (tm_wday t) < 7" "nat (tm_month t) < 12" "0 \<le> tm_wday t" "0 \<le> tm_month t"
    using assms(1) by (auto simp: printable_def)
  have l: "length abbrevDays = 7" "length days = 7" "length abbrevMonths = 12" "length months = 12"
    by (simp_all add: abbrevDays_def days_def abbrevMonths_def months_def)
  note d = day_names [OF b(1)] and m = month_names [OF b(2)]
  have s: "0 \<notin> set (take 3 (days ! nat (tm_wday t)))" "0 \<notin> set (take 3 (months ! nat (tm_month t)))"
    using d(2) m(2) by (auto dest: in_set_takeD)
  have n: "aref abbrevDays (tm_wday t) = Some (take 3 (days ! nat (tm_wday t)))"
    "aref days (tm_wday t) = Some (days ! nat (tm_wday t))"
    "aref abbrevMonths (tm_month t) = Some (take 3 (months ! nat (tm_month t)))"
    "aref months (tm_month t) = Some (months ! nat (tm_month t))"
    using b l d(1) m(1) by (simp_all add: aref_def rd_def)
  have k: "length (days ! nat (tm_wday t)) < 40" "length (months ! nat (tm_month t)) < 40" using d(3) m(3) by linarith+
  consider "c = 97" | "c = 65" | "c = 98" | "c = 66" | "c = 112" using assms(2) by (auto simp: word_cases_def)
  then show ?thesis
    by cases (simp_all add: word_of_case_def directive_text_def Let_def n s k d(2) m(2) bytes_of_def)
qed

lemma week_bound:
  assumes "printable t" "first = 0 \<or> first = 1"
  shows "unat (pr_WeekOfYear t first) < 100"
proof -
  have r: "0 \<le> tm_wday t" "tm_wday t < 7" "0 \<le> tm_yday t" "tm_yday t < 366" using assms(1) by (simp_all add: printable_def)
  define d where "d = tm_yday t - (tm_wday t - first) mod 7"
  have "uint (pr_WeekOfYear t first) = (if d \<le> 0 then 0 else (d + 6) div 7)"
    using week_value [OF r, of first] assms(2) by (auto simp: Let_def d_def)
  moreover have "d < 366" using r(4) pos_mod_sign [of 7 "tm_wday t - first"] unfolding d_def by linarith
  then have "(d + 6) div 7 < 100" by presburger
  ultimately have "uint (pr_WeekOfYear t first) < 100" by (cases "d \<le> 0") simp_all
  then show ?thesis by (simp only: uint_nat of_nat_less_numeral_iff)
qed

lemma hour12: "0 \<le> (h::int) \<Longrightarrow> h < 24 \<Longrightarrow> (if h mod 12 \<noteq> 0 then h mod 12 else 12) = (h + 11) mod 12 + 1"
proof -
  have "list_all (\<lambda>h::int. (if h mod 12 \<noteq> 0 then h mod 12 else 12) = (h + 11) mod 12 + 1) [0..23]" by code_simp
  then show "0 \<le> h \<Longrightarrow> h < 24 \<Longrightarrow> (if h mod 12 \<noteq> 0 then h mod 12 else 12) = (h + 11) mod 12 + 1"
    by (simp only: list_all_iff set_upto atLeastAtMost_iff) simp
qed

lemma number_case_text:
  assumes "printable t" "number_case c t = Some (fmt, n)"
  shows "\<exists>y. directive_text t c = Some y \<and> 0 \<notin> set y \<and> length y < 40 \<and>
    (\<forall>mem (native :: buf \<Rightarrow> unit \<Rightarrow> buf). sprintf_text text_len mem native (bytes_of fmt @ [0]) [VInt n] = Some y)"
proof -
  have p: "0 \<le> tm_sec t" "tm_sec t < 100" "0 \<le> tm_min t" "tm_min t < 100" "0 \<le> tm_hour t" "tm_hour t < 24"
    "0 \<le> tm_mday t" "tm_mday t < 100" "0 \<le> tm_month t" "tm_month t < 12" "0 \<le> tm_year t" "tm_year t < 10000"
    "0 \<le> tm_wday t" "tm_wday t < 7" "0 \<le> tm_yday t" "tm_yday t < 366"
    using assms(1) by (simp_all add: printable_def)
  have h: "(if tm_hour t smod 12 \<noteq> 0 then tm_hour t smod 12 else 12) = (tm_hour t + 11) mod 12 + 1"
  proof -
    have sm: "tm_hour t smod 12 = tm_hour t mod 12" using p(5) by (simp add: smod_nonneg)
    show ?thesis unfolding sm by (rule hour12 [OF p(5,6)])
  qed
  have i: "0 \<le> (tm_hour t + 11) mod 12 + 1" "(tm_hour t + 11) mod 12 + 1 < 100"
    using pos_mod_bound [of 12 "tm_hour t + 11"] pos_mod_sign [of 12 "tm_hour t + 11"] by linarith+
  have y: "tm_year t smod 100 = tm_year t mod 100" "0 \<le> tm_year t mod 100" "tm_year t mod 100 < 100"
    using p(11) by (simp_all add: smod_nonneg)
  have w: "uint (pr_WeekOfYear t 0) < 100" "uint (pr_WeekOfYear t 1) < 100"
    using week_bound [OF assms(1)] by (simp_all only: uint_nat of_nat_less_numeral_iff simp_thms)
  have wn: "week_number t 0 = unat (pr_WeekOfYear t 0)" "week_number t 1 = unat (pr_WeekOfYear t 1)"
    using week_number_eq [of t 0] week_number_eq [of t 1] p by simp_all
  note f = print_formats
  have e: "\<exists>y. directive_text t c = Some y \<and> 0 \<notin> set y \<and> length y < 40 \<and>
      (\<forall>mem (native :: buf \<Rightarrow> unit \<Rightarrow> buf). sprintf_text text_len mem native (bytes_of fmt @ [0]) [VInt n] = Some y)"
    if "directive_text t c = Some (dec k m)" "k < 40"
      "\<And>mem (native :: buf \<Rightarrow> unit \<Rightarrow> buf). sprintf_text text_len mem native (bytes_of fmt @ [0]) [VInt n] = Some (dec k m)" for k m
    using that dec_nonzero [of k m] by simp
  consider (c100) "c = 100" | (c72) "c = 72" | (c73) "c = 73" | (c106) "c = 106" | (c109) "c = 109"
    | (c77) "c = 77" | (c83) "c = 83" | (c85) "c = 85" | (c119) "c = 119" | (c87) "c = 87"
    | (c121) "c = 121" | (c89) "c = 89"
    using assms(2) by (auto simp: number_case_def split: if_splits)
  then show ?thesis
  proof cases
    case c: c100
    have n: "fmt = ''%.2ld''" "n = tm_mday t" using assms(2) h y(1) by (simp_all add: number_case_def c)
    show ?thesis unfolding n
      by (rule e [unfolded n, of 2 "nat (tm_mday t)"]) (use p i y in \<open>auto simp: directive_text_def c intro: f(1)\<close>)
  next
    case c: c72
    have n: "fmt = ''%.2ld''" "n = tm_hour t" using assms(2) h y(1) by (simp_all add: number_case_def c)
    show ?thesis unfolding n
      by (rule e [unfolded n, of 2 "nat (tm_hour t)"]) (use p i y in \<open>auto simp: directive_text_def c intro: f(1)\<close>)
  next
    case c: c73
    have n: "fmt = ''%.2ld''" "n = (tm_hour t + 11) mod 12 + 1" using assms(2) h y(1) by (simp_all add: number_case_def c)
    show ?thesis unfolding n
      by (rule e [unfolded n, of 2 "nat ((tm_hour t + 11) mod 12 + 1)"]) (use p i y in \<open>auto simp: directive_text_def c intro: f(1)\<close>)
  next
    case c: c106
    have n: "fmt = ''%.3d''" "n = tm_yday t + 1" using assms(2) h y(1) by (simp_all add: number_case_def c)
    show ?thesis unfolding n
      by (rule e [unfolded n, of 3 "nat (tm_yday t + 1)"]) (use p i y in \<open>auto simp: directive_text_def c intro: f(3)\<close>)
  next
    case c: c109
    have n: "fmt = ''%.2ld''" "n = tm_month t + 1" using assms(2) h y(1) by (simp_all add: number_case_def c)
    show ?thesis unfolding n
      by (rule e [unfolded n, of 2 "nat (tm_month t + 1)"]) (use p i y in \<open>auto simp: directive_text_def c intro: f(1)\<close>)
  next
    case c: c77
    have n: "fmt = ''%.2ld''" "n = tm_min t" using assms(2) h y(1) by (simp_all add: number_case_def c)
    show ?thesis unfolding n
      by (rule e [unfolded n, of 2 "nat (tm_min t)"]) (use p i y in \<open>auto simp: directive_text_def c intro: f(1)\<close>)
  next
    case c: c83
    have n: "fmt = ''%.2ld''" "n = tm_sec t" using assms(2) h y(1) by (simp_all add: number_case_def c)
    show ?thesis unfolding n
      by (rule e [unfolded n, of 2 "nat (tm_sec t)"]) (use p i y in \<open>auto simp: directive_text_def c intro: f(1)\<close>)
  next
    case c: c85
    have n: "fmt = ''%.2d''" "n = uint (pr_WeekOfYear t 0)" using assms(2) h y(1) by (simp_all add: number_case_def c)
    show ?thesis unfolding n
      by (rule e [unfolded n, of 2 "nat (uint (pr_WeekOfYear t 0))"]) (use f(2) [of "uint (pr_WeekOfYear t 0)"] w wn in \<open>simp_all add: directive_text_def c\<close>)
  next
    case c: c119
    have n: "fmt = ''%d''" "n = tm_wday t" using assms(2) h y(1) by (simp_all add: number_case_def c)
    show ?thesis unfolding n
      by (rule e [unfolded n, of 1 "nat (tm_wday t)"]) (use f(5) [of "tm_wday t"] p in \<open>simp_all add: directive_text_def c\<close>)
  next
    case c: c87
    have n: "fmt = ''%.2d''" "n = uint (pr_WeekOfYear t 1)" using assms(2) h y(1) by (simp_all add: number_case_def c)
    show ?thesis unfolding n
      by (rule e [unfolded n, of 2 "nat (uint (pr_WeekOfYear t 1))"]) (use f(2) [of "uint (pr_WeekOfYear t 1)"] w wn in \<open>simp_all add: directive_text_def c\<close>)
  next
    case c: c121
    have n: "fmt = ''%.2d''" "n = tm_year t mod 100" using assms(2) h y(1) by (simp_all add: number_case_def c)
    show ?thesis unfolding n
      by (rule e [unfolded n, of 2 "nat (tm_year t mod 100)"]) (use p i y in \<open>auto simp: directive_text_def c intro: f(2)\<close>)
  next
    case c: c89
    have n: "fmt = ''%.4d''" "n = tm_year t" using assms(2) h y(1) by (simp_all add: number_case_def c)
    show ?thesis unfolding n
      by (rule e [unfolded n, of 4 "nat (tm_year t)"]) (use p i y in \<open>auto simp: directive_text_def c intro: f(4)\<close>)
  qed
qed

text \<open>What a directive prints when the nested formats print what they should\<close>

definition nested_prints :: "strftime_fn \<Rightarrow> buf \<Rightarrow> PRExplodedTime \<Rightarrow> byte \<Rightarrow> bool" where
  "nested_prints strftime junk t c \<longleftrightarrow>
     (\<forall>f tmp. nested_case c = Some f \<longrightarrow> length tmp = 40 \<longrightarrow>
        (\<exists>rv y. directive_text t c = Some y \<and> 0 \<notin> set y \<and> length y < 40 \<and>
           format_us strftime junk t f 0 \<lparr>outb = tmp, outp = 0, room = 40, tmpb = junk\<rparr> = Some (rv, overlay tmp 0 (y @ [0]))))"

lemma prints_assoc: "prints b n (w @ x) y res = prints b n w (x @ y) res"
  by (auto simp: prints_def split: option.splits sum.splits)

lemma prints_append:
  assumes "prints b n w x r1" "\<And>st. r1 = Some (Inr st) \<Longrightarrow> filled_to b n (w @ x) st \<Longrightarrow> prints b n (w @ x) y (f st)"
  shows "prints b n w (x @ y) (do { r \<leftarrow> r1; case r of Inl b' \<Rightarrow> Some (Inl b') | Inr st \<Rightarrow> f st })"
proof -
  obtain r where r: "r1 = Some r" using assms(1) by (cases r1) (auto simp: prints_def)
  show ?thesis
  proof (cases r)
    case (Inl b')
    then obtain k where "k < n" "k \<le> length (w @ x)" "b' = overlay b 0 (take k (w @ x) @ [0])" "n < length (w @ x)"
      using assms(1) r by (auto simp: prints_def)
    then show ?thesis using r Inl by (auto simp: prints_def intro!: exI [of _ k])
  next
    case (Inr st)
    then have "prints b n (w @ x) y (f st)" using assms r by (auto simp: prints_def [of b n w x])
    then show ?thesis using r Inr by (simp add: prints_assoc)
  qed
qed

lemma directive_prints:
  assumes "filled_to b n w st" "printable t" "directive_text t c = Some y" "nested_prints strftime junk t c"
  shows "prints b n w y
    (case nested_case c of
       Some f \<Rightarrow>
         do { (_, t') \<leftarrow> format_us strftime junk t f 0 \<lparr>outb = tmpb st, outp = 0, room = 40, tmpb = junk\<rparr>;
              ADDSTR t' (st\<lparr>tmpb := t'\<rparr>) }
     | None \<Rightarrow> plain_directive strftime t c st)"
proof (cases "nested_case c")
  case (Some f)
  have l: "length (tmpb st) = 40" using assms(1) by (simp add: filled_to_def)
  then obtain rv where r: "0 \<notin> set y" "length y < 40"
    "format_us strftime junk t f 0 \<lparr>outb = tmpb st, outp = 0, room = 40, tmpb = junk\<rparr> = Some (rv, overlay (tmpb st) 0 (y @ [0]))"
    using assms(3,4) Some by (fastforce simp: nested_prints_def)
  have e: "y @ 0 # drop (Suc (length y)) (tmpb st) = overlay (tmpb st) 0 (y @ [0])" by (simp add: overlay_def)
  have "length (overlay (tmpb st) 0 (y @ [0])) = 40" using r(2) l by (simp add: length_overlay)
  from ADDSTR_prints [OF filled_to_tmpb [OF assms(1) this] r(1), of "drop (Suc (length y)) (tmpb st)"]
  show ?thesis using Some r(2,3) by (simp add: e)
next
  case None
  note N = assms(1)
  show ?thesis
  proof (cases "c = 37 \<or> word_cases c \<or> number_case c t \<noteq> None")
    case True
    then consider "c = 37" | "word_cases c" "c \<noteq> 37" | f i where "number_case c t = Some (f, i)" "c \<noteq> 37" "\<not> word_cases c"
      by (metis not_None_eq surj_pair)
    then show ?thesis
    proof cases
      case 1
      then show ?thesis using ADDCHAR_prints [OF N, of 37] assms(3) None
        by (simp add: plain_directive_def directive_text_def Let_def)
    next
      case 2
      then show ?thesis using word_of_case_text [OF assms(2) 2(1)] assms(3) None ADDSTR_prints [OF N, of y "[]"]
        by (auto simp: plain_directive_def)
    next
      case 3
      then show ?thesis using number_case_text [OF assms(2) 3(1)] assms(3) None print_number_prints [OF N]
        by (fastforce simp: plain_directive_def)
    qed
  next
    case False
    then have y: "y = [37] @ [c]" "c \<noteq> 90"
      using assms(3) None by (auto simp: directive_text_def Let_def word_cases_def number_case_def nested_case_def split: if_splits)
    have "prints b n w ([37] @ [c]) (do { r \<leftarrow> ADDCHAR 37 st; case r of Inl b' \<Rightarrow> Some (Inl b') | Inr st \<Rightarrow> ADDCHAR c st })"
      by (rule prints_append [OF ADDCHAR_prints [OF N]]) (rule ADDCHAR_prints)
    moreover have "number_case c t = None" using False by blast
    ultimately show ?thesis using False None y by (simp add: plain_directive_def)
  qed
qed

section \<open>The whole format\<close>

definition us_result :: "buf \<Rightarrow> nat \<Rightarrow> buf \<Rightarrow> (u32 \<times> buf) exec \<Rightarrow> bool" where
  "us_result b n x res \<longleftrightarrow>
     (if length x < n then res = Some (word_of_nat (length x), overlay b 0 (x @ [0]))
      else \<exists>k < n. res = Some (0, overlay b 0 (take k x @ [0])))"

lemma us_result_step:
  assumes "prints b n w y r" "\<And>st. r = Some (Inr st) \<Longrightarrow> filled_to b n (w @ y) st \<Longrightarrow> us_result b n (w @ y @ z) (f st)"
  shows "us_result b n (w @ y @ z) (do { r \<leftarrow> r; case r of Inl b' \<Rightarrow> Some (0, b') | Inr st \<Rightarrow> f st })"
proof -
  obtain s where r: "r = Some s" using assms(1) by (cases r) (auto simp: prints_def)
  show ?thesis
  proof (cases s)
    case (Inl b')
    then obtain k where k: "k < n" "k \<le> length (w @ y)" "b' = overlay b 0 (take k (w @ y) @ [0])" "n < length (w @ y)"
      using assms(1) r by (auto simp: prints_def)
    moreover have "take k (w @ y) = take k (w @ y @ z)" using k(2) by simp
    ultimately show ?thesis using r Inl by (auto simp: us_result_def)
  next
    case (Inr st)
    then show ?thesis using assms r by (simp add: prints_def)
  qed
qed

lemma cstr_drop_Cons:
  assumes "has_nul fmt" "i < nul fmt"
  shows "drop i (cstr fmt) = fmt ! i # drop (Suc i) (cstr fmt)"
  using assms cstr_nth [of i fmt] by (simp add: nul_def Cons_nth_drop_Suc [symmetric])

lemma format_us_prints:
  assumes "has_nul fmt" "i \<le> nul fmt" "fmt_text t (drop i (cstr fmt)) = Some x" "filled_to b n w st" "printable t"
    "\<And>c. c \<in> set (cstr fmt) \<Longrightarrow> nested_prints strftime junk t c"
  shows "us_result b n (w @ x) (format_us strftime junk t fmt i st)"
  using assms(2-4)
proof (induction "nul fmt - i" arbitrary: i x w st rule: less_induct)
  case less
  note F = format_us.simps [of strftime junk t fmt i st]
  note r = rd_nul [OF assms(1) less(2)]
  show ?case
  proof (cases "fmt ! i = 0")
    case True
    then have x: "x = []" using less(3) r(2) by (simp add: nul_def)
    have "us_result b n w (do { r \<leftarrow> ADDCHAR 0 st;
        case r of Inl b' \<Rightarrow> Some (0, b') | Inr st \<Rightarrow> Some (word_of_nat (outp st) - 1, outb st) })"
    proof -
      have p: "prints b n w [0] (ADDCHAR 0 st)" by (rule ADDCHAR_prints [OF less(4)])
      then obtain s where s: "ADDCHAR 0 st = Some s" by (cases "ADDCHAR 0 st") (auto simp: prints_def)
      show ?thesis
      proof (cases s)
        case (Inl b')
        then obtain k where k: "k < n" "k \<le> length (w @ [0])" "b' = overlay b 0 (take k (w @ [0]) @ [0])" "n < length (w @ [0])"
          using p s by (auto simp: prints_def)
        then have "take k (w @ [0]) = take k w" using less(4) by (simp add: filled_to_def)
        then show ?thesis using k s Inl by (auto simp: us_result_def)
      next
        case (Inr st')
        then have "filled_to b n (w @ [0]) st'" using p s by (simp add: prints_def)
        then show ?thesis using s Inr by (simp add: us_result_def filled_to_def)
      qed
    qed
    then show ?thesis using True r(1) x by (simp add: F)
  next
    case False
    then have lt: "i < nul fmt" using r(2) less(2) by simp
    then have dr: "drop i (cstr fmt) = fmt ! i # drop (Suc i) (cstr fmt)" by (rule cstr_drop_Cons [OF assms(1)])
    show ?thesis
    proof (cases "fmt ! i = 37")
      case c: False
      have "fmt_text t (fmt ! i # drop (Suc i) (cstr fmt)) = do { y \<leftarrow> fmt_text t (drop (Suc i) (cstr fmt)); Some (fmt ! i # y) }"
        using c by (cases "drop (Suc i) (cstr fmt)") simp_all
      then obtain y where y: "fmt_text t (drop (Suc i) (cstr fmt)) = Some y" "x = [fmt ! i] @ y"
        using less(3) unfolding dr by (auto split: bind_splits)
      have "us_result b n (w @ [fmt ! i] @ y) (do { r \<leftarrow> ADDCHAR (fmt ! i) st;
          case r of Inl b' \<Rightarrow> Some (0, b') | Inr st \<Rightarrow> format_us strftime junk t fmt (Suc i) st })"
      proof (rule us_result_step [OF ADDCHAR_prints [OF less(4)]])
        fix st' assume "filled_to b n (w @ [fmt ! i]) st'"
        then show "us_result b n (w @ [fmt ! i] @ y) (format_us strftime junk t fmt (Suc i) st')"
          using less(1) [of "Suc i" y "w @ [fmt ! i]" st'] lt y(1) by simp
      qed
      then show ?thesis using False c r(1) y(2) by (simp add: F)
    next
      case c: True
      have "Suc i < nul fmt"
      proof (rule ccontr)
        assume "\<not> Suc i < nul fmt"
        then have "drop (Suc i) (cstr fmt) = []" by (simp add: nul_def)
        then show False using less(3) c unfolding dr by simp
      qed
      define d where "d = fmt ! Suc i"
      have dr2: "drop (Suc i) (cstr fmt) = d # drop (i + 2) (cstr fmt)"
        using cstr_drop_Cons [OF assms(1) \<open>Suc i < nul fmt\<close>] by (simp add: d_def)
      have rd2: "rd fmt (i + 1) = Some d"
        using rd_nul(1) [OF assms(1), of "Suc i"] \<open>Suc i < nul fmt\<close> by (simp add: d_def)
      obtain y z where y: "directive_text t d = Some y" "fmt_text t (drop (i + 2) (cstr fmt)) = Some z" "x = y @ z"
        using less(3) c unfolding dr dr2 by (auto split: bind_splits)
      have "d \<in> set (cstr fmt)" using dr2 by (metis in_set_dropD list.set_intros(1))
      note D = directive_prints [OF less(4) assms(5) y(1) assms(6) [OF this]]
      have "us_result b n (w @ y @ z) (do { r \<leftarrow> (case nested_case d of
             Some f \<Rightarrow>
               do { (_, t') \<leftarrow> format_us strftime junk t f 0 \<lparr>outb = tmpb st, outp = 0, room = 40, tmpb = junk\<rparr>;
                    ADDSTR t' (st\<lparr>tmpb := t'\<rparr>) }
           | None \<Rightarrow> plain_directive strftime t d st);
          case r of Inl b' \<Rightarrow> Some (0, b') | Inr st \<Rightarrow> format_us strftime junk t fmt (i + 2) st })"
      proof (rule us_result_step [OF D])
        fix st' assume "filled_to b n (w @ y) st'"
        then show "us_result b n (w @ y @ z) (format_us strftime junk t fmt (i + 2) st')"
          using less(1) [of "i + 2" z "w @ y" st'] lt \<open>Suc i < nul fmt\<close> y(2) by simp
      qed
      then show ?thesis using c r(1) rd2 y(3) by (simp add: F del: add_2_eq_Suc')
    qed
  qed
qed

text \<open>The nested formats hold no directive with a format of its own, and their texts fit in \<open>tmpBuf\<close>.\<close>

lemma nested_prints_all:
  assumes "printable t" "length junk = 40"
  shows "nested_prints strftime junk t c"
proof -
  have n: "nat (tm_wday t) < 7" "nat (tm_month t) < 12" using assms(1) by (auto simp: printable_def)
  have "\<exists>y g. directive_text t c = Some y \<and> 0 \<notin> set y \<and> length y < 40 \<and> f = g @ [0] \<and> 0 \<notin> set g \<and>
      (\<forall>d \<in> set g. nested_case d = None) \<and> fmt_text t g = Some y"
    if f: "nested_case c = Some f" for f
  proof -
    note d = day_names [OF n(1)] month_names [OF n(2)] dec_nonzero
    have s: "0 \<notin> set (take 3 (days ! nat (tm_wday t)))" "0 \<notin> set (take 3 (months ! nat (tm_month t)))"
      using d(2,5) by (auto dest: in_set_takeD)
    note dt = directive_text_def clock_text_def Let_def bytes_of_def nested_case_def s dec_nonzero
    consider "c = 99" "f = bytes_of ''%a %b %d %H:%M:%S %Y'' @ [0]" | "c = 120" "f = bytes_of ''%m/%d/%y'' @ [0]"
      | "c = 88" "f = bytes_of ''%H:%M:%S'' @ [0]"
      using f by (auto simp: nested_case_def split: if_splits)
    then show ?thesis
    proof cases
      case 1
      then show ?thesis
        by (intro exI [of _ "the (directive_text t c)"] exI [of _ "bytes_of ''%a %b %d %H:%M:%S %Y''"]) (simp add: dt del: dec.simps)
    next
      case 2
      then show ?thesis
        by (intro exI [of _ "the (directive_text t c)"] exI [of _ "bytes_of ''%m/%d/%y''"]) (simp add: dt del: dec.simps)
    next
      case 3
      then show ?thesis
        by (intro exI [of _ "the (directive_text t c)"] exI [of _ "bytes_of ''%H:%M:%S''"]) (simp add: dt del: dec.simps)
    qed
  qed
  then obtain yf gf where yf: "\<And>f. nested_case c = Some f \<Longrightarrow> directive_text t c = Some (yf f) \<and> 0 \<notin> set (yf f) \<and> length (yf f) < 40 \<and>
      f = gf f @ [0] \<and> 0 \<notin> set (gf f) \<and> (\<forall>d \<in> set (gf f). nested_case d = None) \<and> fmt_text t (gf f) = Some (yf f)"
    by metis
  show ?thesis
    unfolding nested_prints_def
  proof (intro allI impI)
    fix f tmp assume f: "nested_case c = Some f" and l: "length (tmp :: buf) = 40"
    define y g where "y = yf f" and "g = gf f"
    have y: "directive_text t c = Some y" "0 \<notin> set y" "length y < 40" "f = g @ [0]" "0 \<notin> set g"
      "\<forall>d \<in> set g. nested_case d = None" "fmt_text t g = Some y"
      using yf [OF f] by (simp_all add: y_def g_def)
    have c: "cstr f = g" "has_nul f" using y(4,5) cstr_append_0 [of g "[]"] by simp_all
    have "filled_to tmp 40 [] \<lparr>outb = tmp, outp = 0, room = 40, tmpb = junk\<rparr>"
      using l assms(2) by (simp add: filled_to_def)
    then have "us_result tmp 40 ([] @ y) (format_us strftime junk t f 0 \<lparr>outb = tmp, outp = 0, room = 40, tmpb = junk\<rparr>)"
      by (intro format_us_prints assms(1) c(2)) (use c y in \<open>auto simp: nested_prints_def\<close>)
    then show "\<exists>rv y. directive_text t c = Some y \<and> 0 \<notin> set y \<and> length y < 40 \<and>
        format_us strftime junk t f 0 \<lparr>outb = tmp, outp = 0, room = 40, tmpb = junk\<rparr> = Some (rv, overlay tmp 0 (y @ [0]))"
      using y(1-3) by (simp add: us_result_def)
  qed
qed

section \<open>Properties\<close>


definition sample_time :: PRExplodedTime where
  "sample_time =
     \<lparr>tm_usec = 0, tm_sec = 7, tm_min = 5, tm_hour = 15, tm_mday = 9, tm_month = 1, tm_year = 2012, tm_wday = 4, tm_yday = 39,
      tm_params = \<lparr>tp_gmt_offset = 0, tp_dst_offset = 0\<rparr>\<rparr>"


theorem week_of_year_witness:
  "uint (pr_WeekOfYear sample_time 0) = int (card {d \<in> {0..39}. (4 - (39 - d)) mod 7 = (0::int)}) - 1"
  using week_of_year [of sample_time 0] by (simp add: sample_time_def)

end
