(* ===== verification/Moz_Arena.thy ===== *)
theory Moz_Arena
  imports Moz_Bits "HOL-Library.Multiset"
begin

text \<open>
  The arena allocator of \<open>src/nsprpub/lib/ds/plarena.c\<close> with the macros of \<open>plarena.h\<close>.

  The chain that starts with the arena inside the pool (\<open>pool->first\<close>) is the list \<open>arenas\<close>, so the \<open>next\<close>
  pointers are the order of the list; \<open>pool->current\<close> is an index into it. Linking a new arena after
  \<open>pool->current\<close> inserts it there, which also covers the assignment to \<open>pool->first.next\<close> (null only while
  \<open>first\<close> is the current arena). Addresses are 64-bit words, null is 0, and \<open>sizeof(PLArena)\<close> is 32.
  The record \<open>heap\<close> holds what lies outside the pools: the free list and its lock, the blocks obtained from the
  allocator and not yet freed (start and end), and the contents of memory, without the arena headers, which
  are the list. \<open>malloc\<close> is a parameter that sees the live blocks; whether \<open>PR_NewLock\<close> succeeds is another. The
  build is the one without \<open>DEBUG\<close> and \<open>PL_ARENAMETER\<close>. \<open>PR_Unlock\<close> of a lock that does not exist is undefined.
\<close>

section \<open>Data\<close>

record PLArena =
  addr :: uword
  base :: uword
  limit :: uword
  avail :: uword

record PLArenaPool =
  arenas :: "PLArena list"
  current :: nat
  arenasize :: u32
  pmask :: uword

type_synonym block = "uword \<times> uword"

record heap =
  arena_freelist :: "PLArena list"
  arenaLock :: bool
  once :: "bool option"
  blocks :: "block list"
  mem :: "uword \<Rightarrow> byte"

type_synonym mallocf = "block list \<Rightarrow> u32 \<Rightarrow> uword"

definition sizeof_PLArena :: uword where "sizeof_PLArena = 32"

definition PL_ARENA_ALIGN :: "uword \<Rightarrow> uword \<Rightarrow> uword" where
  "PL_ARENA_ALIGN m n = (n + m) AND NOT m"

section \<open>Initialization and the lock\<close>

definition pmasks :: "nat list" where
  "pmasks = [0, 0, 1, 3, 3, 7, 7, 7, 7, 15, 15, 15, 15, 15, 15, 15, 15,
             31, 31, 31, 31, 31, 31, 31, 31, 31, 31, 31, 31, 31, 31, 31, 31]"

definition PR_BITMASK :: "nat \<Rightarrow> u32 exec" where
  "PR_BITMASK n = (if n < 32 then Some (push_bit n 1 - 1) else None)"

definition PL_InitArenaPool :: "uword \<Rightarrow> u32 \<Rightarrow> u32 \<Rightarrow> PLArenaPool exec" where
  "PL_InitArenaPool p gross align = do {
     let align = (if align = 0 then 8 else align);
     m \<leftarrow> (if unat align < 33 then map_option word_of_nat (rd pmasks (unat align))
           else map_option ucast (PR_BITMASK (PR_CeilingLog2 align)));
     let b = PL_ARENA_ALIGN m (p + sizeof_PLArena);
     Some \<lparr>arenas = [\<lparr>addr = p, base = b, limit = b, avail = b\<rparr>], current = 0,
           arenasize = (if ucast gross > sizeof_PLArena + m then ucast (ucast gross - (sizeof_PLArena + m)) else gross),
           pmask = m\<rparr> }"

definition InitializeArenas :: "bool \<Rightarrow> heap \<Rightarrow> bool \<times> heap" where
  "InitializeArenas newlock h = (newlock, h\<lparr>arenaLock := newlock\<rparr>)"

text \<open>\<open>PR_CallOnce\<close> runs the function the first time and returns the status it gave ever after.\<close>

definition LockArena :: "bool \<Rightarrow> heap \<Rightarrow> bool \<times> heap" where
  "LockArena newlock h = (case once h of
     Some rc \<Rightarrow> (rc, h)
   | None \<Rightarrow> let (rc, h) = InitializeArenas newlock h in (rc, h\<lparr>once := Some rc\<rparr>))"

definition UnlockArena :: "heap \<Rightarrow> heap exec" where
  "UnlockArena h = (if arenaLock h then Some h else None)"

section \<open>Allocation\<close>

text \<open>First fit from \<open>pool->current\<close> on: \<open>a->avail + nb <= a->limit\<close>\<close>

fun find_room :: "PLArena list \<Rightarrow> nat \<Rightarrow> uword \<Rightarrow> nat option" where
  "find_room [] i nb = None"
| "find_room (a # as) i nb = (if avail a + nb \<le> limit a then Some i else find_room as (Suc i) nb)"

text \<open>First fit in the free list, unlinked from it: \<open>a->base + nb <= a->limit\<close>\<close>

fun claim :: "PLArena list \<Rightarrow> uword \<Rightarrow> (PLArena \<times> PLArena list) option" where
  "claim [] nb = None"
| "claim (a # as) nb =
     (if base a + nb \<le> limit a then Some (a, as)
      else map_option (\<lambda>(b, bs). (b, a # bs)) (claim as nb))"

definition bump :: "uword \<Rightarrow> PLArena \<Rightarrow> PLArena" where
  "bump nb a = a\<lparr>avail := avail a + nb\<rparr>"

definition link :: "PLArena \<Rightarrow> PLArenaPool \<Rightarrow> PLArenaPool" where
  "link a p = p\<lparr>arenas := take (Suc (current p)) (arenas p) @ a # drop (Suc (current p)) (arenas p),
                current := Suc (current p)\<rparr>"

definition new_arena :: "mallocf \<Rightarrow> PLArenaPool \<Rightarrow> heap \<Rightarrow> u32 \<Rightarrow> (PLArena \<times> heap) option" where
  "new_arena malloc p h nb =
     (let sz = (if arenasize p > nb then arenasize p else nb) + (ucast sizeof_PLArena + ucast (pmask p));
          a = malloc (blocks h) sz;
          b = PL_ARENA_ALIGN (pmask p) (a + sizeof_PLArena)
      in if a = 0 then None
         else Some (\<lparr>addr = a, base = b, limit = a + ucast sz, avail = b\<rparr>,
                    h\<lparr>blocks := (a, a + ucast sz) # blocks h\<rparr>))"

definition PL_ArenaAllocate ::
  "mallocf \<Rightarrow> bool \<Rightarrow> PLArenaPool \<Rightarrow> heap \<Rightarrow> u32 \<Rightarrow> (uword \<times> PLArenaPool \<times> heap) exec" where
  "PL_ArenaAllocate malloc newlock p h n0 =
     (let n = (ucast (PL_ARENA_ALIGN (pmask p) (ucast n0)) :: u32); nb = (ucast n :: uword)
      in case find_room (drop (current p) (arenas p)) (current p) nb of
           Some i \<Rightarrow> Some (avail (arenas p ! i),
                        p\<lparr>arenas := (arenas p)[i := bump nb (arenas p ! i)], current := i\<rparr>, h)
         | None \<Rightarrow>
             (case LockArena newlock h of (ok, h) \<Rightarrow>
                if \<not> ok then Some (0, p, h)
                else case claim (arena_freelist h) nb of
                  Some (a, as) \<Rightarrow> do {
                    h \<leftarrow> UnlockArena (h\<lparr>arena_freelist := as\<rparr>);
                    Some (base a, link (bump nb (a\<lparr>avail := base a\<rparr>)) p, h) }
                | None \<Rightarrow> do {
                    h \<leftarrow> UnlockArena h;
                    case new_arena malloc p h n of
                      Some (a, h) \<Rightarrow> Some (avail a, link (bump nb a) p, h)
                    | None \<Rightarrow> Some (0, p, h) }))"

definition PL_ARENA_ALLOCATE ::
  "mallocf \<Rightarrow> bool \<Rightarrow> PLArenaPool \<Rightarrow> heap \<Rightarrow> u32 \<Rightarrow> (uword \<times> PLArenaPool \<times> heap) exec" where
  "PL_ARENA_ALLOCATE malloc newlock p h nb = do {
     a \<leftarrow> rd (arenas p) (current p);
     let n = (ucast (PL_ARENA_ALIGN (pmask p) (ucast nb)) :: u32);
     let q = avail a + ucast n;
     if q > limit a then PL_ArenaAllocate malloc newlock p h n
     else Some (avail a, p\<lparr>arenas := (arenas p)[current p := a\<lparr>avail := q\<rparr>]\<rparr>, h) }"

text \<open>\<open>memcpy\<close> and \<open>memset\<close> on the contents of memory\<close>

definition copied :: "(uword \<Rightarrow> byte) \<Rightarrow> uword \<Rightarrow> uword \<Rightarrow> uword \<Rightarrow> uword \<Rightarrow> byte" where
  "copied m dest src n = (\<lambda>x. if x - dest < n then m (src + (x - dest)) else m x)"

definition filled :: "(uword \<Rightarrow> byte) \<Rightarrow> uword \<Rightarrow> byte \<Rightarrow> uword \<Rightarrow> uword \<Rightarrow> byte" where
  "filled m dest c n = (\<lambda>x. if x - dest < n then c else m x)"

definition PL_ArenaGrow ::
  "mallocf \<Rightarrow> bool \<Rightarrow> PLArenaPool \<Rightarrow> heap \<Rightarrow> uword \<Rightarrow> u32 \<Rightarrow> u32 \<Rightarrow> (uword \<times> PLArenaPool \<times> heap) exec" where
  "PL_ArenaGrow malloc newlock p h q sz incr = do {
     (newp, p, h) \<leftarrow> PL_ARENA_ALLOCATE malloc newlock p h (sz + incr);
     Some (newp, p, if newp \<noteq> 0 then h\<lparr>mem := copied (mem h) newp q (ucast sz)\<rparr> else h) }"

definition PL_ARENA_GROW ::
  "mallocf \<Rightarrow> bool \<Rightarrow> PLArenaPool \<Rightarrow> heap \<Rightarrow> uword \<Rightarrow> u32 \<Rightarrow> u32 \<Rightarrow> (uword \<times> PLArenaPool \<times> heap) exec" where
  "PL_ARENA_GROW malloc newlock p h q sz incr = do {
     a \<leftarrow> rd (arenas p) (current p);
     let inc = (ucast (PL_ARENA_ALIGN (pmask p) (ucast incr)) :: u32);
     let e = avail a + ucast inc;
     if avail a = q + PL_ARENA_ALIGN (pmask p) (ucast sz) \<and> e \<le> limit a then
       Some (q, p\<lparr>arenas := (arenas p)[current p := a\<lparr>avail := e\<rparr>]\<rparr>, h)
     else PL_ArenaGrow malloc newlock p h q sz incr }"

section \<open>Clearing and freeing\<close>

fun ClearArenaList :: "PLArena list \<Rightarrow> byte \<Rightarrow> (uword \<Rightarrow> byte) \<Rightarrow> PLArena list \<times> (uword \<Rightarrow> byte)" where
  "ClearArenaList [] c m = ([], m)"
| "ClearArenaList (a # as) c m =
     (let a = a\<lparr>avail := base a\<rparr>;
          m = filled m (avail a) c (limit a - avail a);
          (as, m) = ClearArenaList as c m
      in (a # as, m))"

definition PL_ClearArenaPool :: "PLArenaPool \<Rightarrow> heap \<Rightarrow> byte \<Rightarrow> PLArenaPool \<times> heap" where
  "PL_ClearArenaPool p h c =
     (let (as, m) = ClearArenaList (tl (arenas p)) c (mem h)
      in (p\<lparr>arenas := hd (arenas p) # as\<rparr>, h\<lparr>mem := m\<rparr>))"

text \<open>\<open>PR_DELETE\<close> of an arena gives its block back.\<close>

definition delete_arena :: "PLArena \<Rightarrow> heap \<Rightarrow> heap" where
  "delete_arena a h = h\<lparr>blocks := removeAll (addr a, limit a) (blocks h)\<rparr>"

definition FreeArenaList :: "bool \<Rightarrow> PLArenaPool \<Rightarrow> heap \<Rightarrow> nat \<Rightarrow> bool \<Rightarrow> (PLArenaPool \<times> heap) exec" where
  "FreeArenaList newlock p h head reallyFree =
     (let tail = drop (Suc head) (arenas p);
          p' = p\<lparr>arenas := take (Suc head) (arenas p), current := head\<rparr>
      in if tail = [] then Some (p, h)
         else if reallyFree then Some (p', fold delete_arena tail h)
         else do {
           let h = snd (LockArena newlock h);
           h \<leftarrow> UnlockArena (h\<lparr>arena_freelist := tail @ arena_freelist h\<rparr>);
           Some (p', h) })"

definition PR_UPTRDIFF :: "uword \<Rightarrow> uword \<Rightarrow> uword" where
  "PR_UPTRDIFF p q = p - q"

definition holds_mark :: "uword \<Rightarrow> PLArena \<Rightarrow> bool" where
  "holds_mark m a \<longleftrightarrow> PR_UPTRDIFF m (base a) \<le> PR_UPTRDIFF (avail a) (base a)"

fun find_mark :: "PLArena list \<Rightarrow> nat \<Rightarrow> uword \<Rightarrow> nat option" where
  "find_mark [] i m = None"
| "find_mark (a # as) i m = (if holds_mark m a then Some i else find_mark as (Suc i) m)"

definition PL_ArenaRelease :: "bool \<Rightarrow> PLArenaPool \<Rightarrow> heap \<Rightarrow> uword \<Rightarrow> (PLArenaPool \<times> heap) exec" where
  "PL_ArenaRelease newlock p h mark = (case find_mark (arenas p) 0 mark of
     None \<Rightarrow> Some (p, h)
   | Some i \<Rightarrow>
       FreeArenaList newlock
         (p\<lparr>arenas := (arenas p)[i := (arenas p ! i)\<lparr>avail := PL_ARENA_ALIGN (pmask p) mark\<rparr>]\<rparr>) h i False)"

definition PL_ARENA_MARK :: "PLArenaPool \<Rightarrow> uword exec" where
  "PL_ARENA_MARK p = do { a \<leftarrow> rd (arenas p) (current p); Some (avail a) }"

definition PL_ARENA_RELEASE :: "bool \<Rightarrow> PLArenaPool \<Rightarrow> heap \<Rightarrow> uword \<Rightarrow> (PLArenaPool \<times> heap) exec" where
  "PL_ARENA_RELEASE newlock p h mark = do {
     a \<leftarrow> rd (arenas p) (current p);
     if holds_mark mark a then
       Some (p\<lparr>arenas := (arenas p)[current p := a\<lparr>avail := PL_ARENA_ALIGN (pmask p) mark\<rparr>]\<rparr>, h)
     else PL_ArenaRelease newlock p h mark }"

definition PL_FreeArenaPool :: "bool \<Rightarrow> PLArenaPool \<Rightarrow> heap \<Rightarrow> (PLArenaPool \<times> heap) exec" where
  "PL_FreeArenaPool newlock p h = FreeArenaList newlock p h 0 False"

definition PL_FinishArenaPool :: "bool \<Rightarrow> PLArenaPool \<Rightarrow> heap \<Rightarrow> (PLArenaPool \<times> heap) exec" where
  "PL_FinishArenaPool newlock p h = FreeArenaList newlock p h 0 True"

definition PL_ArenaFinish :: "heap \<Rightarrow> heap" where
  "PL_ArenaFinish h =
     (fold delete_arena (arena_freelist h) h)\<lparr>arena_freelist := [], arenaLock := False, once := None\<rparr>"

definition PL_ARENA_DESTROY :: "PLArenaPool \<Rightarrow> heap \<Rightarrow> nat \<Rightarrow> PLArenaPool \<times> heap" where
  "PL_ARENA_DESTROY p h i =
     (p\<lparr>arenas := take i (arenas p) @ drop (Suc i) (arenas p),
        current := (if current p = i then 0 else if i < current p then current p - 1 else current p)\<rparr>,
      delete_arena (arenas p ! i) h)"

definition PL_SizeOfArenaPoolExcludingPool :: "(uword \<Rightarrow> uword) \<Rightarrow> PLArenaPool \<Rightarrow> uword" where
  "PL_SizeOfArenaPoolExcludingPool mallocSizeOf p = foldl (\<lambda>n a. n + mallocSizeOf (addr a)) 0 (tl (arenas p))"

section \<open>Alignment as arithmetic\<close>

definition up :: "nat \<Rightarrow> nat \<Rightarrow> nat" where
  "up k n = (n + 2 ^ k - 1) div 2 ^ k * 2 ^ k"

lemma up_dvd [simp]: "2 ^ k dvd up k n"
  by (simp add: up_def)

lemma up_bounds: shows up_ge: "n \<le> up k n" and up_lt: "up k n < n + 2 ^ k"
proof -
  let ?m = "n + 2 ^ k - 1"
  have p: "0 < (2 :: nat) ^ k" by simp
  have m: "?m div 2 ^ k * 2 ^ k + ?m mod 2 ^ k = ?m" by (rule div_mult_mod_eq)
  have r: "?m mod 2 ^ k < 2 ^ k" by simp
  show "n \<le> up k n" "up k n < n + 2 ^ k" using m r p unfolding up_def by linarith+
qed

lemma up_id: "2 ^ k dvd n \<Longrightarrow> up k n = n"
proof -
  assume "2 ^ k dvd n"
  then have "2 ^ k dvd up k n - n" by simp
  moreover have "up k n - n < 2 ^ k" using up_ge [of n k] up_lt [of k n] by linarith
  ultimately have "up k n - n = 0" by (meson dvd_imp_le not_le not_gr_zero)
  then show ?thesis using up_ge [of n k] by simp
qed

lemma up_mono_dvd: "m \<le> n \<Longrightarrow> 2 ^ k dvd n \<Longrightarrow> up k m \<le> n"
proof -
  assume h: "m \<le> n" "2 ^ k dvd n"
  have "(m + 2 ^ k - 1) div 2 ^ k \<le> (n + 2 ^ k - 1) div 2 ^ k" using h(1) by (intro div_le_mono) simp
  then have "up k m \<le> up k n" by (simp add: up_def)
  then show ?thesis using up_id [OF h(2)] by simp
qed

lemma and_not_mask: "x AND NOT (mask k) = push_bit k (drop_bit k (x :: 'a::len word))"
  by (rule bit_word_eqI) (auto simp: bit_simps)

lemma unat_mask_uword: "k \<le> 31 \<Longrightarrow> unat (mask k :: uword) = 2 ^ k - 1"
proof -
  assume "k \<le> 31"
  then have "(2 :: nat) ^ k \<le> 2 ^ 31" by (intro power_increasing) simp_all
  then have "take_bit 64 (mask k) = (mask k :: nat)" by (simp add: take_bit_nat_eq_self mask_eq_exp_minus_1)
  then have "unat (word_of_nat (mask k) :: uword) = mask k" by (simp add: unsigned_of_nat)
  then have "unat (mask k :: uword) = mask k" by (simp only: of_nat_mask_eq)
  then show ?thesis by (simp only: mask_eq_exp_minus_1 [where 'a = nat])
qed

lemma unat_align:
  assumes "k \<le> 31" "unat n + 2 ^ k \<le> 2 ^ 64"
  shows "unat (PL_ARENA_ALIGN (mask k) n) = up k (unat n)"
proof -
  have p: "(0::nat) < 2 ^ k" by simp
  have s: "unat (n + mask k) = unat n + (2 ^ k - 1)"
    using assms p unat_mask_uword [OF assms(1)] by (simp add: unat_word_ariths)
  let ?d = "(unat n + (2 ^ k - 1)) div 2 ^ k"
  have "?d * 2 ^ k \<le> unat n + (2 ^ k - 1)" by simp
  then have "?d * 2 ^ k < 2 ^ 64" using assms(2) p by linarith
  moreover have "unat n + (2 ^ k - 1) = unat n + 2 ^ k - 1" using p by simp
  ultimately show ?thesis
    by (simp add: PL_ARENA_ALIGN_def and_not_mask unat_push_bit unat_drop_bit s up_def)
qed

text \<open>The request as both the macro and the function round it\<close>

definition rounded :: "uword \<Rightarrow> u32 \<Rightarrow> u32" where
  "rounded m nb = ucast (PL_ARENA_ALIGN m (ucast nb))"

lemma pow_le_31: "k \<le> 31 \<Longrightarrow> (2 :: nat) ^ k \<le> 2147483648"
  using power_increasing [of k 31 "2 :: nat"] by simp

lemma unat_ucast_u32: "unat (ucast (n :: u32) :: uword) = unat n"
  using unat_u32_less [of n] by (simp add: unsigned_ucast_eq take_bit_nat_eq_self)

lemma unat_rounded:
  assumes "k \<le> 31" "unat nb + 2 ^ k \<le> 2 ^ 32"
  shows "unat (rounded (mask k) nb) = up k (unat nb)"
proof -
  have "unat (PL_ARENA_ALIGN (mask k) (ucast nb)) = up k (unat nb)"
    using unat_align [OF assms(1), of "ucast nb"] assms(2) by (simp add: unat_ucast_u32)
  moreover have "up k (unat nb) < 2 ^ 32" using up_lt [of k "unat nb"] assms(2) by linarith
  ultimately show ?thesis
    by (simp add: rounded_def unsigned_ucast_eq take_bit_nat_eq_self)
qed

lemma rounded_idem:
  assumes "k \<le> 31" "unat nb + 2 ^ k + 2 ^ k \<le> 2 ^ 32"
  shows "rounded (mask k) (rounded (mask k) nb) = rounded (mask k) nb"
proof -
  have u: "unat (rounded (mask k) nb) = up k (unat nb)" using assms by (intro unat_rounded) simp_all
  moreover have "unat (rounded (mask k) (rounded (mask k) nb)) = up k (up k (unat nb))"
    using u assms up_lt [of k "unat nb"] unat_rounded [OF assms(1), of "rounded (mask k) nb"] by simp
  ultimately show ?thesis using up_id [OF up_dvd] by (metis unsigned_word_eqI)
qed

section \<open>The invariant\<close>

definition apart :: "block \<Rightarrow> block \<Rightarrow> bool" where
  "apart x y \<longleftrightarrow> snd x \<le> fst y \<or> snd y \<le> fst x"

definition separate :: "block list \<Rightarrow> bool" where
  "separate bs \<longleftrightarrow> distinct bs \<and> (\<forall>x\<in>set bs. \<forall>y\<in>set bs. x \<noteq> y \<longrightarrow> apart x y)"

lemma apart_sym: "apart x y = apart y x"
  by (auto simp: apart_def)

lemma separate_perm: "mset xs = mset ys \<Longrightarrow> separate xs = separate ys"
  using mset_eq_setD [of xs ys] mset_eq_imp_distinct_iff [of xs ys] by (simp add: separate_def)

lemma separate_Cons:
  "separate (x # xs) \<longleftrightarrow> x \<notin> set xs \<and> (\<forall>y\<in>set xs. apart x y) \<and> separate xs"
  by (auto simp: separate_def dest: apart_sym [THEN iffD1])

definition span :: "block \<Rightarrow> nat set" where
  "span b = {unat (fst b)..<unat (snd b)}"

lemma apart_span: "apart x y \<Longrightarrow> span x \<inter> span y = {}"
  by (auto simp: apart_def span_def word_le_nat_alt)

definition block_of :: "PLArena \<Rightarrow> block" where
  "block_of a = (addr a, limit a)"

text \<open>An arena: the header, then the base, the part handed out up to \<open>avail\<close>, and the limit, with base and
  \<open>avail\<close> aligned; addresses are below \<open>2 ^ 63\<close>, so that adding a request cannot wrap around.\<close>

definition arena_ok :: "nat \<Rightarrow> PLArena \<Rightarrow> bool" where
  "arena_ok k a \<longleftrightarrow> unat (addr a) + 32 \<le> unat (base a) \<and> unat (base a) \<le> unat (avail a) \<and>
     unat (avail a) \<le> unat (limit a) \<and> unat (limit a) < 2 ^ 63 \<and>
     2 ^ k dvd unat (base a) \<and> 2 ^ k dvd unat (avail a)"

definition free_ok :: "nat \<Rightarrow> PLArena \<Rightarrow> bool" where
  "free_ok k a \<longleftrightarrow> unat (addr a) + 32 \<le> unat (base a) \<and> unat (base a) \<le> unat (limit a) \<and>
     unat (limit a) < 2 ^ 63 \<and> 2 ^ k dvd unat (base a)"

text \<open>The blocks a pool and the free list occupy: the bytes of the pool itself up to the address that stands for
  the empty first arena, and the blocks of the other arenas.\<close>

definition owned :: "PLArenaPool \<Rightarrow> heap \<Rightarrow> block list" where
  "owned p h = (addr (hd (arenas p)), base (hd (arenas p)) + 1) #
     map block_of (tl (arenas p) @ arena_freelist h)"

definition lock_ok :: "heap \<Rightarrow> bool" where
  "lock_ok h \<longleftrightarrow> (\<forall>rc. once h = Some rc \<longrightarrow> rc = arenaLock h)"

lemma lock_ok_update [simp]:
  "lock_ok (h\<lparr>arena_freelist := x\<rparr>) = lock_ok h" "lock_ok (h\<lparr>blocks := y\<rparr>) = lock_ok h"
  "lock_ok (h\<lparr>mem := z\<rparr>) = lock_ok h"
  by (simp_all add: lock_ok_def)

definition pool_ok :: "nat \<Rightarrow> PLArenaPool \<Rightarrow> heap \<Rightarrow> bool" where
  "pool_ok k p h \<longleftrightarrow> k \<le> 31 \<and> pmask p = mask k \<and> arenas p \<noteq> [] \<and> Suc (current p) = length (arenas p) \<and>
     base (hd (arenas p)) = limit (hd (arenas p)) \<and> (\<forall>a\<in>set (arenas p). arena_ok k a) \<and>
     (\<forall>a\<in>set (arena_freelist h). free_ok k a) \<and>
     set (owned p h) \<subseteq> set (blocks h) \<and> separate (owned p h) \<and> lock_ok h"

definition used :: "PLArenaPool \<Rightarrow> nat set" where
  "used p = (\<Union>a\<in>set (arenas p). {unat (base a)..<unat (avail a)})"

text \<open>What \<open>malloc\<close> promises: a block that lies apart from every live block, below \<open>2 ^ 63\<close>.\<close>

definition malloc_fresh :: "mallocf \<Rightarrow> bool" where
  "malloc_fresh malloc \<longleftrightarrow> (\<forall>bs sz. malloc bs sz \<noteq> 0 \<longrightarrow>
     unat (malloc bs sz) + unat sz < 2 ^ 63 \<and>
     (\<forall>b\<in>set bs. apart b (malloc bs sz, malloc bs sz + ucast sz)))"

text \<open>Requests and arena sizes for which the 32-bit sums of the code do not wrap around\<close>

definition fits :: "nat \<Rightarrow> PLArenaPool \<Rightarrow> u32 \<Rightarrow> bool" where
  "fits k p nb \<longleftrightarrow> unat nb + 2 * 2 ^ k + 32 \<le> 2 ^ 32 \<and> unat (arenasize p) + 2 ^ k + 32 \<le> 2 ^ 32"

section \<open>The cases of an allocation\<close>

lemma Lock_cases: "LockArena newlock h = (ok, h1) \<Longrightarrow> lock_ok h \<Longrightarrow>
   lock_ok h1 \<and> arenaLock h1 = ok \<and> arena_freelist h1 = arena_freelist h \<and> blocks h1 = blocks h \<and> mem h1 = mem h"
  by (auto simp: LockArena_def InitializeArenas_def lock_ok_def Let_def split: option.splits)

lemma claim_Some:
  "claim as nb = Some (a, bs) \<Longrightarrow> base a + nb \<le> limit a \<and> (\<exists>xs ys. as = xs @ a # ys \<and> bs = xs @ ys)"
proof (induction as arbitrary: bs)
  case (Cons x xs)
  show ?case
  proof (cases "base x + nb \<le> limit x")
    case False
    with Cons.prems obtain cs where c: "claim xs nb = Some (a, cs)" "bs = x # cs" by auto
    then show ?thesis using Cons.IH by (metis append_Cons)
  qed (use Cons.prems in \<open>auto intro: exI [of _ "[]"]\<close>)
qed simp

text \<open>The pool once an arena has been put at the end of its chain\<close>

definition appended :: "PLArena \<Rightarrow> PLArenaPool \<Rightarrow> PLArenaPool" where
  "appended a p = p\<lparr>arenas := arenas p @ [a], current := Suc (current p)\<rparr>"

lemma link_last: "Suc (current p) = length (arenas p) \<Longrightarrow> link a p = appended a p"
  by (simp add: link_def appended_def)

definition in_place :: "uword \<Rightarrow> PLArenaPool \<Rightarrow> PLArenaPool" where
  "in_place nb p = p\<lparr>arenas := (arenas p)[current p := bump nb (arenas p ! current p)]\<rparr>"

lemma allocate_cases:
  assumes ok: "pool_ok k p h" and f: "fits k p nb"
  defines "n \<equiv> rounded (pmask p) nb"
  defines "cur \<equiv> arenas p ! current p"
  obtains (room) "avail cur + ucast n \<le> limit cur"
      "PL_ARENA_ALLOCATE malloc newlock p h nb = Some (avail cur, in_place (ucast n) p, h)"
  | (no_lock) h1 where "LockArena newlock h = (False, h1)"
      "PL_ARENA_ALLOCATE malloc newlock p h nb = Some (0, p, h1)"
  | (claimed) h1 a xs ys where "LockArena newlock h = (True, h1)" "arena_freelist h = xs @ a # ys"
      "base a + ucast n \<le> limit a"
      "PL_ARENA_ALLOCATE malloc newlock p h nb =
         Some (base a, appended (a\<lparr>avail := base a + ucast n\<rparr>) p, h1\<lparr>arena_freelist := xs @ ys\<rparr>)"
  | (fresh) h1 a h2 where "LockArena newlock h = (True, h1)" "new_arena malloc p h1 n = Some (a, h2)"
      "PL_ARENA_ALLOCATE malloc newlock p h nb = Some (avail a, appended (bump (ucast n) a) p, h2)"
  | (full) h1 where "LockArena newlock h = (True, h1)" "new_arena malloc p h1 n = None"
      "PL_ARENA_ALLOCATE malloc newlock p h nb = Some (0, p, h1)"
proof -
  have k: "k \<le> 31" "pmask p = mask k" "Suc (current p) = length (arenas p)" "lock_ok h"
    using ok by (simp_all add: pool_ok_def)
  have r: "rd (arenas p) (current p) = Some cur" using k(3) by (simp add: rd_ok cur_def)
  have d: "drop (current p) (arenas p) = [cur]"
    using k(3) Cons_nth_drop_Suc [of "current p" "arenas p"] by (simp add: cur_def)
  have i: "rounded (pmask p) n = n"
    using rounded_idem [OF k(1), of nb] f k(2) by (simp add: n_def fits_def)
  have alloc: "PL_ARENA_ALLOCATE malloc newlock p h nb =
      (if avail cur + ucast n > limit cur then PL_ArenaAllocate malloc newlock p h n
       else Some (avail cur, in_place (ucast n) p, h))"
    using r by (simp add: PL_ARENA_ALLOCATE_def Let_def n_def rounded_def in_place_def bump_def cur_def)
  show thesis
  proof (cases "avail cur + ucast n \<le> limit cur")
    case True
    then show thesis using room alloc by (simp add: not_less [symmetric])
  next
    case False
    then have slow: "PL_ARENA_ALLOCATE malloc newlock p h nb = PL_ArenaAllocate malloc newlock p h n"
      using alloc by (simp add: not_le)
    have n': "ucast (PL_ARENA_ALIGN (pmask p) (ucast n)) = n" using i by (simp add: rounded_def)
    obtain lk h1 where l: "LockArena newlock h = (lk, h1)" by force
    note L = Lock_cases [OF l k(4)]
    note unf = slow PL_ArenaAllocate_def Let_def n' d l UnlockArena_def link_last [OF k(3)]
    show thesis
    proof (cases lk)
      case False
      then show thesis using no_lock [of h1] l \<open>\<not> _ \<le> limit cur\<close> by (simp add: unf)
    next
      case True
      note lk = this
      show thesis
      proof (cases "claim (arena_freelist h1) (ucast n)")
        case None
        show thesis
        proof (cases "new_arena malloc p h1 n")
          case e: None
          then show thesis using full [of h1] None l lk L \<open>\<not> _ \<le> limit cur\<close> by (simp add: unf)
        next
          case (Some r)
          then show thesis using fresh [of h1 "fst r" "snd r"] None l lk L \<open>\<not> _ \<le> limit cur\<close>
            by (simp add: unf split: prod.splits)
        qed
      next
        case (Some r)
        obtain a bs where r: "r = (a, bs)" by force
        from claim_Some Some r obtain xs ys where
          c: "base a + ucast n \<le> limit a" "arena_freelist h1 = xs @ a # ys" "bs = xs @ ys" by blast
        then show thesis using claimed [of h1 xs a ys] Some r l lk L \<open>\<not> _ \<le> limit cur\<close>
          by (simp add: unf bump_def)
      qed
    qed
  qed
qed

section \<open>Allocation keeps the invariant\<close>

lemma unat_add_small: "unat (x :: uword) < 2 ^ 63 \<Longrightarrow> unat (x + ucast (n :: u32)) = unat x + unat n"
  using unat_u32_less [of n] unat_ucast_u32 [of n] by (simp add: unat_word_ariths)

lemma arena_ok_span: "arena_ok k a \<Longrightarrow> {unat (base a)..<unat (avail a)} \<subseteq> span (block_of a)"
  by (auto simp: arena_ok_def span_def block_of_def)

lemma pool_split:
  assumes "pool_ok k p h"
  obtains ts c where "arenas p = ts @ [c]" "current p = length ts"
proof (rule that)
  have "Suc (current p) = length (arenas p)" using assms by (simp add: pool_ok_def)
  then show "arenas p = take (current p) (arenas p) @ [arenas p ! current p]"
    "current p = length (take (current p) (arenas p))"
    using take_Suc_conv_app_nth [of "current p" "arenas p"] by simp_all
qed

lemma first_unused:
  assumes "pool_ok k p h"
  shows "avail (hd (arenas p)) = base (hd (arenas p))" "limit (hd (arenas p)) = base (hd (arenas p))"
proof -
  let ?f = "hd (arenas p)"
  have f: "arena_ok k ?f" "base ?f = limit ?f" using assms by (simp_all add: pool_ok_def)
  then have "unat (avail ?f) = unat (base ?f)" by (simp add: arena_ok_def)
  then show "avail ?f = base ?f" by (metis unsigned_word_eqI)
  show "limit ?f = base ?f" using f by simp
qed

lemma used_tl:
  assumes "pool_ok k p h"
  shows "used p = (\<Union>a\<in>set (tl (arenas p)). {unat (base a)..<unat (avail a)})"
proof -
  have "arenas p = hd (arenas p) # tl (arenas p)" using assms by (simp add: pool_ok_def)
  then have "set (arenas p) = insert (hd (arenas p)) (set (tl (arenas p)))" by (metis list.simps(15))
  then show ?thesis using first_unused [OF assms] by (simp add: used_def)
qed

text \<open>A part of a block that lies apart from the blocks of the pool does not meet what is in use.\<close>

lemma apart_used:
  assumes "pool_ok k p h" "r \<subseteq> span b" "\<And>a. a \<in> set (tl (arenas p)) \<Longrightarrow> apart b (block_of a)"
  shows "r \<inter> used p = {}"
proof -
  have "r \<inter> {unat (base a)..<unat (avail a)} = {}" if "a \<in> set (tl (arenas p))" for a
  proof -
    have "arena_ok k a" using that assms(1) by (auto simp: pool_ok_def dest: list.set_sel(2))
    then show ?thesis using arena_ok_span apart_span [OF assms(3) [OF that]] assms(2) by blast
  qed
  then show ?thesis unfolding used_tl [OF assms(1)] by blast
qed

lemma owned_appended:
  assumes "arenas p \<noteq> []"
  shows "owned (appended a p) h =
    (addr (hd (arenas p)), base (hd (arenas p)) + 1) # map block_of (tl (arenas p) @ a # arena_freelist h)"
  using assms by (simp add: owned_def appended_def)

lemma pool_ok_appended:
  assumes p: "pool_ok k p h" and a: "arena_ok k a"
    and own: "mset (owned (appended a p) h') = mset (block_of a # owned p h) \<and> block_of a \<notin> set (owned p h) \<and>
         (\<forall>b\<in>set (owned p h). apart (block_of a) b) \<or>
       mset (owned (appended a p) h') = mset (owned p h)"
    and free: "\<forall>x\<in>set (arena_freelist h'). free_ok k x"
    and blk: "set (owned (appended a p) h') \<subseteq> set (blocks h')" and lock: "lock_ok h'"
  shows "pool_ok k (appended a p) h'"
    and "used (appended a p) = used p \<union> {unat (base a)..<unat (avail a)}"
    and "{unat (base a)..<unat (avail a)} \<inter> used p = {}"
proof -
  have ne: "arenas p \<noteq> []" and s: "separate (owned p h)" using p by (simp_all add: pool_ok_def)
  have sep: "separate (owned (appended a p) h')"
    using own s separate_perm [of "owned (appended a p) h'"] separate_Cons [of "block_of a" "owned p h"] by metis
  show "pool_ok k (appended a p) h'"
    using p a free blk lock sep ne by (simp add: pool_ok_def appended_def)
  show "used (appended a p) = used p \<union> {unat (base a)..<unat (avail a)}"
    by (auto simp: used_def appended_def)
  have "apart (block_of a) (block_of x)" if "x \<in> set (tl (arenas p))" for x
  proof -
    let ?f = "(addr (hd (arenas p)), base (hd (arenas p)) + 1)"
    have "mset (owned (appended a p) h') =
        mset (block_of a # ?f # map block_of (tl (arenas p) @ arena_freelist h'))"
      by (simp add: owned_appended [OF ne])
    then have "separate (block_of a # ?f # map block_of (tl (arenas p) @ arena_freelist h'))"
      using sep separate_perm by metis
    then show ?thesis using that by (simp add: separate_Cons)
  qed
  then show "{unat (base a)..<unat (avail a)} \<inter> used p = {}"
    using apart_used [OF p arena_ok_span [OF a]] by blast
qed

lemma bump_simps [simp]:
  "addr (bump n a) = addr a" "base (bump n a) = base a" "limit (bump n a) = limit a"
  "avail (bump n a) = avail a + n" "block_of (bump n a) = block_of a"
  by (simp_all add: bump_def block_of_def)

lemma owned_in_place:
  assumes "pool_ok k p h"
  shows "owned (in_place n p) h = owned p h"
proof -
  obtain ts c where t: "arenas p = ts @ [c]" "current p = length ts" using pool_split [OF assms] .
  then have "arenas (in_place n p) = ts @ [bump n c]" by (simp add: in_place_def)
  then show ?thesis using t(1) by (cases ts) (simp_all add: owned_def)
qed

lemma pool_ok_in_place:
  assumes p: "pool_ok k p h" and fit: "avail c + ucast n \<le> limit c" and c: "c = arenas p ! current p"
    and n: "2 ^ k dvd unat (n :: u32)"
  shows "pool_ok k (in_place (ucast n) p) h"
    and "used (in_place (ucast n) p) = used p \<union> {unat (avail c)..<unat (avail c) + unat n}"
    and "{unat (avail c)..<unat (avail c) + unat n} \<inter> used p = {}"
proof -
  obtain ts where t: "arenas p = ts @ [c]" "current p = length ts"
    using pool_split [OF p] c by (metis nth_append_length)
  have i: "arenas (in_place (ucast n) p) = ts @ [bump (ucast n) c]" using t by (simp add: in_place_def)
  have co: "arena_ok k c" using p t by (simp add: pool_ok_def)
  then have u: "unat (avail c + ucast n) = unat (avail c) + unat n" by (intro unat_add_small) (simp add: arena_ok_def)
  then have le: "unat (avail c) + unat n \<le> unat (limit c)" using fit by (simp add: word_le_nat_alt)
  have bo: "arena_ok k (bump (ucast n) c)" using co le u n by (simp add: arena_ok_def)
  have h: "base (hd (ts @ [bump (ucast n) c])) = base (hd (ts @ [c]))"
    "limit (hd (ts @ [bump (ucast n) c])) = limit (hd (ts @ [c]))" by (cases ts; simp)+
  show "pool_ok k (in_place (ucast n) p) h"
    using p bo h owned_in_place [OF p, of "ucast n"] i t unfolding pool_ok_def i
    by (simp add: in_place_def)
  have "{unat (base c)..<unat (avail c) + unat n} =
      {unat (base c)..<unat (avail c)} \<union> {unat (avail c)..<unat (avail c) + unat n}"
    using co by (auto simp: arena_ok_def)
  then show "used (in_place (ucast n) p) = used p \<union> {unat (avail c)..<unat (avail c) + unat n}"
    using u by (auto simp: used_def i t(1))
  show "{unat (avail c)..<unat (avail c) + unat n} \<inter> used p = {}"
  proof (cases ts)
    case Nil
    then have "limit c = avail c" using first_unused [OF p] t(1) by simp
    then show ?thesis using le by simp
  next
    case (Cons f fs)
    have "separate (owned p h)" using p by (simp add: pool_ok_def)
    then have sep: "separate ((addr f, base f + 1) # map block_of (fs @ [c]) @ map block_of (arena_freelist h))"
      using Cons t(1) by (simp add: owned_def)
    have d: "{unat (avail c)..<unat (avail c) + unat n} \<inter> {unat (base a)..<unat (avail a)} = {}"
      if a: "a \<in> set (fs @ [c])" for a
    proof (cases "a = c")
      case False
      then have "a \<in> set fs" using a by simp
      moreover have "block_of c \<notin> block_of ` set fs" using sep by (auto simp: separate_def)
      ultimately have "apart (block_of c) (block_of a)" using sep unfolding separate_def by auto
      moreover have "arena_ok k a" using p t(1) Cons \<open>a \<in> set fs\<close> by (simp add: pool_ok_def)
      moreover have "{unat (avail c)..<unat (avail c) + unat n} \<subseteq> span (block_of c)"
        using le co by (auto simp: span_def block_of_def arena_ok_def)
      ultimately show ?thesis using apart_span arena_ok_span by blast
    qed simp
    have "used p = (\<Union>a\<in>set (fs @ [c]). {unat (base a)..<unat (avail a)})" using used_tl [OF p] t(1) Cons by simp
    with d show ?thesis by blast
  qed
qed

lemma pool_ok_heap:
  assumes "pool_ok k p h" "lock_ok h' \<and> x \<and> arena_freelist h' = arena_freelist h \<and> blocks h' = blocks h \<and> y"
  shows "pool_ok k p h'"
proof -
  have "owned p h' = owned p h" using assms(2) by (simp add: owned_def)
  then show ?thesis using assms by (simp add: pool_ok_def)
qed

lemma new_arena_ok:
  assumes m: "malloc_fresh malloc" and k: "k \<le> 31" "pmask p = mask k" and f: "fits k p nb"
    and e: "new_arena malloc p h (rounded (mask k) nb) = Some (a, h')"
  shows "arena_ok k (bump (ucast (rounded (mask k) nb)) a)" "avail a = base a"
    "h' = h\<lparr>blocks := block_of a # blocks h\<rparr>" "block_of a \<notin> set (blocks h)"
    "\<forall>b\<in>set (blocks h). apart b (block_of a)"
proof -
  define n where "n = rounded (mask k) nb"
  define sz where "sz = (if arenasize p > n then arenasize p else n) + (ucast sizeof_PLArena + ucast (pmask p))"
  define x where "x = malloc (blocks h) sz"
  define b where "b = PL_ARENA_ALIGN (pmask p) (x + sizeof_PLArena)"
  have ax: "x \<noteq> 0" "a = \<lparr>addr = x, base = b, limit = x + ucast sz, avail = b\<rparr>"
      "h' = h\<lparr>blocks := (x, x + ucast sz) # blocks h\<rparr>"
    using e by (auto simp: new_arena_def n_def [symmetric] sz_def [symmetric] x_def [symmetric] b_def [symmetric]
        Let_def split: if_splits)
  have un: "unat n = up k (unat nb)" "unat nb \<le> unat n" "unat n < unat nb + 2 ^ k" "2 ^ k dvd unat n"
    using unat_rounded [OF k(1), of nb] f up_ge [of "unat nb" k] up_lt [of k "unat nb"]
    by (simp_all add: n_def fits_def)
  have p2: "(0::nat) < 2 ^ k" by simp
  have um: "unat (ucast (mask k :: uword) :: u32) = 2 ^ k - 1"
    using unat_mask_uword [OF k(1)] pow_le_31 [OF k(1)] by (simp add: unsigned_ucast_eq take_bit_nat_eq_self)
  have u32': "unat (ucast sizeof_PLArena :: u32) = 32" by (simp add: sizeof_PLArena_def)
  define hdr where "hdr = (ucast sizeof_PLArena + ucast (pmask p) :: u32)"
  have uh: "unat hdr = 32 + (2 ^ k - 1)"
    using um u32' pow_le_31 [OF k(1)] k(2) unfolding hdr_def by (simp add: unat_word_ariths)
  have usz: "unat sz = max (unat (arenasize p)) (unat n) + 32 + (2 ^ k - 1)"
    using f un uh p2 unfolding sz_def hdr_def [symmetric]
    by (simp add: unat_word_ariths fits_def word_less_nat_alt max_def)
  have mx: "unat x + unat sz < 2 ^ 63" "\<forall>b\<in>set (blocks h). apart b (x, x + ucast sz)"
    using m ax(1) unfolding malloc_fresh_def x_def by auto
  have ul: "unat (x + ucast sz) = unat x + unat sz" using mx(1) by (intro unat_add_small) simp
  have ub0: "unat (x + sizeof_PLArena) = unat x + 32"
    using mx(1) usz by (simp add: unat_word_ariths sizeof_PLArena_def)
  have ub: "unat b = up k (unat x + 32)"
    using unat_align [OF k(1), of "x + sizeof_PLArena"] ub0 mx(1) pow_le_31 [OF k(1)] k(2) by (simp add: b_def)
  have lb: "unat x + 32 \<le> unat b" "unat b < unat x + 32 + 2 ^ k"
    using ub up_ge [of "unat x + 32" k] up_lt [of k "unat x + 32"] by simp_all
  have top: "unat b + unat n \<le> unat x + unat sz" using lb usz by simp
  have ubn: "unat (b + ucast n) = unat b + unat n" using lb mx(1) usz by (intro unat_add_small) simp
  show "arena_ok k (bump (ucast (rounded (mask k) nb)) a)"
    using lb top ul ubn mx(1) un(4) ub unfolding n_def [symmetric] ax(2) by (simp add: arena_ok_def bump_def)
  show "avail a = base a" by (simp add: ax(2))
  show "h' = h\<lparr>blocks := block_of a # blocks h\<rparr>" using ax by (simp add: block_of_def)
  show "\<forall>b\<in>set (blocks h). apart b (block_of a)" using mx(2) ax(2) by (simp add: block_of_def)
  then show "block_of a \<notin> set (blocks h)"
    using ul usz ax(2) by (auto simp: apart_def block_of_def word_le_nat_alt)
qed

text \<open>What a successful allocation gives: an aligned address, a region that was not in use and now is, the
  contents of memory unchanged, and a well-formed pool.\<close>

definition granted :: "nat \<Rightarrow> PLArenaPool \<Rightarrow> heap \<Rightarrow> u32 \<Rightarrow> uword \<Rightarrow> PLArenaPool \<Rightarrow> heap \<Rightarrow> bool" where
  "granted k p h nb q p' h' \<longleftrightarrow> q \<noteq> 0 \<and> pool_ok k p' h' \<and> mem h' = mem h \<and> 2 ^ k dvd unat q \<and>
     {unat q..<unat q + unat nb} \<inter> used p = {} \<and>
     used p' = used p \<union> {unat q..<unat q + up k (unat nb)}"

lemma grantedI:
  assumes "q \<noteq> 0" "pool_ok k p' h'" "mem h' = mem h" "2 ^ k dvd unat q"
    "{unat q..<unat q + up k (unat nb)} \<inter> used p = {}" "used p' = used p \<union> {unat q..<unat q + up k (unat nb)}"
  shows "granted k p h nb q p' h'"
proof -
  have "{unat q..<unat q + unat nb} \<subseteq> {unat q..<unat q + up k (unat nb)}" using up_ge [of "unat nb" k] by auto
  then have "{unat q..<unat q + unat nb} \<inter> used p = {}" using assms(5) by blast
  then show ?thesis using assms by (simp add: granted_def)
qed

lemma pool_okD:
  assumes "pool_ok k p h"
  shows "k \<le> 31" "pmask p = mask k" "arenas p \<noteq> []" "lock_ok h" "set (owned p h) \<subseteq> set (blocks h)"
    "arena_ok k (arenas p ! current p)"
  using assms by (simp_all add: pool_ok_def)

lemma rounded_fits:
  assumes "pool_ok k p h" "fits k p nb"
  shows "unat (rounded (pmask p) nb) = up k (unat nb)"
  using unat_rounded [OF pool_okD(1) [OF assms(1)], of nb] assms(2) pool_okD(2) [OF assms(1)] by (simp add: fits_def)

lemma granted_room:
  assumes "pool_ok k p h" "fits k p nb"
    and "avail (arenas p ! current p) + ucast (rounded (pmask p) nb) \<le> limit (arenas p ! current p)"
  shows "granted k p h nb (avail (arenas p ! current p)) (in_place (ucast (rounded (pmask p) nb)) p) h"
proof -
  note n = rounded_fits [OF assms(1,2)]
  note i = pool_ok_in_place [OF assms(1,3) refl] and c = pool_okD(6) [OF assms(1)]
  show ?thesis using i c n by (intro grantedI) (auto simp: arena_ok_def)
qed

lemma granted_claimed:
  assumes p: "pool_ok k p h" "fits k p nb" and l: "LockArena newlock h = (True, h1)"
    and a: "arena_freelist h = xs @ a # ys" "base a + ucast (rounded (pmask p) nb) \<le> limit a"
  shows "granted k p h nb (base a) (appended (a\<lparr>avail := base a + ucast (rounded (pmask p) nb)\<rparr>) p)
    (h1\<lparr>arena_freelist := xs @ ys\<rparr>)" (is "granted k p h nb _ (appended ?a p) ?h")
proof -
  let ?n = "rounded (pmask p) nb"
  note n = rounded_fits [OF p] and k = pool_okD [OF p(1)]
  note L = Lock_cases [OF l k(4)]
  have fo: "free_ok k a" using p(1) a(1) by (simp add: pool_ok_def)
  then have u: "unat (base a + ucast ?n) = unat (base a) + unat ?n" by (intro unat_add_small) (simp add: free_ok_def)
  have ao: "arena_ok k ?a" using fo u a(2) n by (simp add: arena_ok_def free_ok_def word_le_nat_alt)
  have own: "mset (owned (appended ?a p) ?h) = mset (owned p h)"
    using a(1) unfolding owned_appended [OF k(3)] owned_def [of p h] by (simp add: block_of_def)
  then have blk: "set (owned (appended ?a p) ?h) \<subseteq> set (blocks ?h)" using k(5) L mset_eq_setD [OF own] by simp
  have "\<forall>x\<in>set (arena_freelist ?h). free_ok k x" "lock_ok ?h"
    using p(1) a(1) L by (simp_all add: pool_ok_def)
  note i = pool_ok_appended [OF p(1) ao disjI2 [OF own] this(1) blk this(2)]
  show ?thesis using i fo L u n by (intro grantedI) (auto simp: free_ok_def)
qed

lemma granted_fresh:
  assumes p: "pool_ok k p h" "fits k p nb" and m: "malloc_fresh malloc" and l: "LockArena newlock h = (True, h1)"
    and e: "new_arena malloc p h1 (rounded (pmask p) nb) = Some (a, h2)"
  shows "granted k p h nb (avail a) (appended (bump (ucast (rounded (pmask p) nb)) a) p) h2"
    (is "granted k p h nb _ (appended ?a p) h2")
proof -
  let ?n = "rounded (pmask p) nb"
  note n = rounded_fits [OF p] and k = pool_okD [OF p(1)]
  note L = Lock_cases [OF l k(4)]
  note N = new_arena_ok [OF m k(1,2) p(2) e [unfolded k(2)]]
  have ao: "arena_ok k ?a" using N(1) k(2) by simp
  have own: "mset (owned (appended ?a p) h2) = mset (block_of ?a # owned p h)"
    using N(3) L unfolding owned_appended [OF k(3)] owned_def [of p h] by simp
  have new: "block_of ?a \<notin> set (owned p h)" "\<forall>b\<in>set (owned p h). apart (block_of ?a) b"
    using N(4,5) L k(5) apart_sym by auto
  have blk: "set (owned (appended ?a p) h2) \<subseteq> set (blocks h2)"
    using k(5) L N(3) mset_eq_setD [OF own] by auto
  have "\<forall>x\<in>set (arena_freelist h2). free_ok k x" "lock_ok h2"
    using p(1) L N(3) by (simp_all add: pool_ok_def)
  note i = pool_ok_appended [OF p(1) ao _ this(1) blk this(2)]
  have u: "unat (base a + ucast ?n) = unat (base a) + unat ?n" "base a \<noteq> 0"
    using ao N(2) by (auto intro: unat_add_small simp: arena_ok_def)
  then show ?thesis using i own new ao L N(2,3) n by (intro grantedI) (simp_all add: arena_ok_def)
qed

lemma allocate_outcome:
  assumes p: "pool_ok k p h" "fits k p nb" and m: "malloc_fresh malloc"
  shows "\<exists>q p' h'. PL_ARENA_ALLOCATE malloc newlock p h nb = Some (q, p', h') \<and>
    (q = 0 \<and> p' = p \<and> pool_ok k p h' \<and> mem h' = mem h \<and>
       (\<not> fst (LockArena newlock h) \<or> (\<exists>sz. malloc (blocks h) sz = 0)) \<or>
     granted k p h nb q p' h')"
proof (rule allocate_cases [OF p, of malloc newlock])
  fix h1 assume l: "LockArena newlock h = (False, h1)"
    "PL_ARENA_ALLOCATE malloc newlock p h nb = Some (0, p, h1)"
  note L = Lock_cases [OF l(1) pool_okD(4) [OF p(1)]]
  then show ?thesis using l pool_ok_heap [OF p(1) L] by auto
next
  fix h1 assume l: "LockArena newlock h = (True, h1)" "new_arena malloc p h1 (rounded (pmask p) nb) = None"
    "PL_ARENA_ALLOCATE malloc newlock p h nb = Some (0, p, h1)"
  note L = Lock_cases [OF l(1) pool_okD(4) [OF p(1)]]
  have "\<exists>sz. malloc (blocks h) sz = 0" using l(2) L by (auto simp: new_arena_def Let_def split: if_splits)
  then show ?thesis using l(3) L pool_ok_heap [OF p(1) L] by auto
qed (use granted_room [OF p] granted_claimed [OF p] granted_fresh [OF p m] in blast)+

text \<open>C17: An allocation from a well-formed pool, over a \<open>malloc\<close> that returns fresh blocks and for a request whose
  sums do not wrap around, is defined and keeps the pool well formed and the contents of memory; it returns
  null, leaving the pool as it is, only when the lock cannot be made or \<open>malloc\<close> returns null; and otherwise an
  aligned address of a region that no earlier allocation of the pool overlaps, which is then in use,
  whether the region comes from the current arena, from the free list or from \<open>malloc\<close>.\<close>

theorem arena_allocate:
  assumes "pool_ok k p h" "malloc_fresh malloc" "fits k p nb"
  shows "\<exists>q p' h'. PL_ARENA_ALLOCATE malloc newlock p h nb = Some (q, p', h') \<and>
    pool_ok k p' h' \<and> mem h' = mem h \<and>
    (q = 0 \<longrightarrow> p' = p \<and> (\<not> fst (LockArena newlock h) \<or> (\<exists>sz. malloc (blocks h) sz = 0))) \<and>
    (q \<noteq> 0 \<longrightarrow> 2 ^ k dvd unat q \<and> {unat q..<unat q + unat nb} \<inter> used p = {} \<and>
       used p' = used p \<union> {unat q..<unat q + up k (unat nb)})"
  using allocate_outcome [OF assms(1,3,2), of newlock] unfolding granted_def by blast

text \<open>A \<open>malloc\<close> that hands out addresses above every live block\<close>

definition bump_malloc :: mallocf where
  "bump_malloc bs sz =
     (let a = fold max (map snd bs) 0x1000 in if unat a + unat sz < 2 ^ 63 then a else 0)"

lemma fold_max_ge: "(x :: uword) \<le> fold max xs x" "y \<in> set xs \<Longrightarrow> y \<le> fold max xs x"
proof (induction xs arbitrary: x)
  case (Cons z zs)
  { case 1 show ?case using Cons(1) [of "max z x"] by simp }
  { case 2 then show ?case using Cons(1,2) [of "max z x"] by auto }
qed simp_all

lemma bump_malloc_fresh: "malloc_fresh bump_malloc"
proof -
  have "unat (bump_malloc bs sz) + unat sz < 2 ^ 63 \<and>
      (\<forall>b\<in>set bs. apart b (bump_malloc bs sz, bump_malloc bs sz + ucast sz))" if "bump_malloc bs sz \<noteq> 0" for bs sz
  proof -
    have "snd b \<le> fold max (map snd bs) 0x1000" if "b \<in> set bs" for b
      using that by (intro fold_max_ge(2)) simp
    then show ?thesis using that by (auto simp: bump_malloc_def Let_def apart_def split: if_splits)
  qed
  then show ?thesis by (simp add: malloc_fresh_def)
qed

text \<open>A pool as \<open>PL_InitArenaPool\<close> leaves it: the table and the logarithm give the same masks.\<close>

lemma pmasks_eq: "list_all (\<lambda>i. (word_of_nat (pmasks ! i) :: uword) = mask (PR_CeilingLog2 (word_of_nat i))) [1..<33]"
  by code_simp

lemma init_mask:
  assumes "align \<noteq> 0" "align \<le> 0x80000000"
  shows "PR_CeilingLog2 align \<le> 31" and
    "(if unat align < 33 then map_option word_of_nat (rd pmasks (unat align))
      else map_option ucast (PR_BITMASK (PR_CeilingLog2 align))) = Some (mask (PR_CeilingLog2 align) :: uword)"
proof -
  show le: "PR_CeilingLog2 align \<le> 31"
    using CeilingLog2_least [OF assms(1), of 31] assms(2) by (force simp: word_le_nat_alt not_le)
  show "(if unat align < 33 then map_option word_of_nat (rd pmasks (unat align))
      else map_option ucast (PR_BITMASK (PR_CeilingLog2 align))) = Some (mask (PR_CeilingLog2 align) :: uword)"
  proof (cases "unat align < 33")
    case True
    then have "unat align \<in> set [1..<33]" using assms(1) by (simp add: unat_gt_0 Suc_le_eq)
    then have "(word_of_nat (pmasks ! unat align) :: uword) = mask (PR_CeilingLog2 (word_of_nat (unat align)))"
      using pmasks_eq unfolding list_all_iff by blast
    moreover have "length pmasks = 33" by (simp add: pmasks_def)
    ultimately show ?thesis using True by (simp add: rd_ok)
  next
    case False
    let ?k = "PR_CeilingLog2 align"
    have "push_bit ?k 1 - 1 = (mask ?k :: u32)" by (simp add: mask_eq_exp_minus_1 push_bit_eq_mult)
    moreover have "ucast (mask ?k :: u32) = (mask ?k :: uword)"
      using le by (intro bit_word_eqI) (auto simp: bit_simps)
    ultimately show ?thesis using False le by (simp add: PR_BITMASK_def)
  qed
qed

lemma init_pool_ok:
  assumes a: "al = (if align = 0 then 8 else align)" "al \<le> 0x80000000"
    and p: "unat p + 32 + 2 ^ PR_CeilingLog2 al < 2 ^ 63"
    and h: "arena_freelist h = []" "lock_ok h"
      "(p, PL_ARENA_ALIGN (mask (PR_CeilingLog2 al)) (p + 32) + 1) \<in> set (blocks h)"
  shows "\<exists>P. PL_InitArenaPool p gross align = Some P \<and> pool_ok (PR_CeilingLog2 al) P h \<and> used P = {} \<and>
    unat al \<le> 2 ^ PR_CeilingLog2 al"
proof -
  let ?k = "PR_CeilingLog2 al" and ?b = "PL_ARENA_ALIGN (mask (PR_CeilingLog2 al)) (p + 32)"
  have nz: "al \<noteq> 0" using a(1) by (auto split: if_splits)
  note m = init_mask [OF nz a(2)]
  have u: "unat (p + 32) = unat p + 32" using p by (simp add: unat_word_ariths)
  have b: "unat ?b = up ?k (unat p + 32)" using unat_align [OF m(1), of "p + 32"] u p by simp
  then have "unat p + 32 \<le> unat ?b" "unat ?b < 2 ^ 63"
    using up_ge [of "unat p + 32" ?k] up_lt [of ?k "unat p + 32"] p by simp_all
  then have "arena_ok ?k \<lparr>addr = p, base = ?b, limit = ?b, avail = ?b\<rparr>"
    using b by (simp add: arena_ok_def)
  moreover obtain s where "PL_InitArenaPool p gross align =
      Some \<lparr>arenas = [\<lparr>addr = p, base = ?b, limit = ?b, avail = ?b\<rparr>], current = 0, arenasize = s, pmask = mask ?k\<rparr>"
    unfolding PL_InitArenaPool_def Let_def a(1) [symmetric] m(2) by (simp add: sizeof_PLArena_def)
  ultimately show ?thesis using m(1) h CeilingLog2_upper [OF nz]
    by (simp add: pool_ok_def owned_def separate_def used_def)
qed

definition start_heap :: heap where
  "start_heap = \<lparr>arena_freelist = [], arenaLock = False, once = None, blocks = [(0x1000, 0x1021)], mem = (\<lambda>_. 0)\<rparr>"

definition start_pool :: PLArenaPool where
  "start_pool = \<lparr>arenas = [\<lparr>addr = 0x1000, base = 0x1020, limit = 0x1020, avail = 0x1020\<rparr>], current = 0,
     arenasize = 977, pmask = 15\<rparr>"

lemma mask_15: "(15 :: uword) = mask 4"
  by (simp add: mask_eq_exp_minus_1)

lemma start_pool_ok: "pool_ok 4 start_pool start_heap"
  unfolding pool_ok_def
  by (simp add: start_pool_def start_heap_def arena_ok_def owned_def separate_def lock_ok_def mask_15)

theorem arena_allocate_witness:
  "\<exists>q p' h'. PL_ARENA_ALLOCATE bump_malloc True start_pool start_heap 100 = Some (q, p', h') \<and>
     q \<noteq> 0 \<and> 16 dvd unat q \<and> used p' = {unat q..<unat q + 112}"
proof -
  have "bump_malloc (blocks start_heap) sz \<noteq> 0" for sz
    using unat_u32_less [of sz] by (simp add: bump_malloc_def start_heap_def)
  moreover have "fst (LockArena True start_heap)"
    by (simp add: LockArena_def start_heap_def InitializeArenas_def)
  moreover have "used start_pool = {}" "up 4 100 = 112" "unat (100 :: u32) = 100"
    by (simp_all add: used_def start_pool_def up_def)
  moreover have "fits 4 start_pool 100" by (simp add: fits_def start_pool_def)
  ultimately show ?thesis
    using arena_allocate [OF start_pool_ok bump_malloc_fresh, of 100 True] by (auto simp del: dvd_numeral_simp)
qed

section \<open>Marks\<close>

lemma holds_mark_iff:
  assumes "unat (base a) \<le> unat (avail a)"
  shows "holds_mark m a \<longleftrightarrow> unat (base a) \<le> unat m \<and> unat m \<le> unat (avail a)"
proof -
  have "unat (avail a) < 2 ^ 64" "unat m < 2 ^ 64" using unsigned_less [where ?'a = nat and ?'b = 64] by simp_all
  then show ?thesis using assms
    by (auto simp: holds_mark_def PR_UPTRDIFF_def word_le_nat_alt unat_sub_if_size word_size)
qed

text \<open>How a pool changes while a mark is held: the arena that was current keeps its place and only hands out more,
  and new arenas stand behind it; these were linked with the lock in existence.\<close>

definition extends :: "nat \<Rightarrow> PLArenaPool \<Rightarrow> PLArenaPool \<Rightarrow> heap \<Rightarrow> bool" where
  "extends k p p' h' \<longleftrightarrow> pool_ok k p' h' \<and> pmask p' = pmask p \<and> arenasize p' = arenasize p \<and>
     (\<exists>ts c v as. arenas p = ts @ [c] \<and> current p = length ts \<and> arenas p' = ts @ c\<lparr>avail := v\<rparr> # as \<and>
        unat (avail c) \<le> unat v \<and> (as \<noteq> [] \<longrightarrow> once h' = Some True))"

lemma extends_refl:
  assumes "pool_ok k p h"
  shows "extends k p p h"
proof -
  obtain ts c where t: "arenas p = ts @ [c]" "current p = length ts" using pool_split [OF assms] .
  then have "arenas p = ts @ c\<lparr>avail := avail c\<rparr> # []" by simp
  then show ?thesis unfolding extends_def using assms t by blast
qed

lemma Lock_once: "LockArena newlock h = (True, h1) \<Longrightarrow> once h1 = Some True"
  "once h = Some True \<Longrightarrow> LockArena newlock h = (b, h1) \<Longrightarrow> h1 = h \<and> b"
  by (auto simp: LockArena_def InitializeArenas_def Let_def split: option.splits)

lemma extends_append:
  assumes "extends k p p' h'" "pool_ok k (appended a p') h''" "once h'' = Some True"
  shows "extends k p (appended a p') h''"
proof -
  obtain ts c v as where e: "arenas p = ts @ [c]" "current p = length ts" "arenas p' = ts @ c\<lparr>avail := v\<rparr> # as"
    "unat (avail c) \<le> unat v"
    using assms(1) by (auto simp: extends_def)
  have "arenas (appended a p') = ts @ c\<lparr>avail := v\<rparr> # (as @ [a])" by (simp add: appended_def e(3))
  moreover have "pmask (appended a p') = pmask p" "arenasize (appended a p') = arenasize p"
    using assms(1) by (simp_all add: extends_def appended_def)
  ultimately show ?thesis unfolding extends_def using assms(2,3) e by blast
qed

lemma extends_in_place:
  assumes "extends k p p' h'" "pool_ok k (in_place (ucast n) p') h'"
    "unat (avail (arenas p' ! current p') + ucast (n :: u32)) = unat (avail (arenas p' ! current p')) + unat n"
  shows "extends k p (in_place (ucast n) p') h'"
proof -
  obtain ts c v as where e: "arenas p = ts @ [c]" "current p = length ts" "arenas p' = ts @ c\<lparr>avail := v\<rparr> # as"
    "unat (avail c) \<le> unat v" "as \<noteq> [] \<longrightarrow> once h' = Some True"
    using assms(1) by (auto simp: extends_def)
  have cur: "current p' = length ts + length as" using assms(1) e(3) by (simp add: extends_def pool_ok_def)
  have same: "pmask (in_place (ucast n) p') = pmask p" "arenasize (in_place (ucast n) p') = arenasize p"
    using assms(1) by (simp_all add: extends_def in_place_def)
  have "\<exists>w bs. arenas (in_place (ucast n) p') = ts @ c\<lparr>avail := w\<rparr> # bs \<and> unat v \<le> unat w \<and> (bs = [] \<longleftrightarrow> as = [])"
  proof (cases as rule: rev_cases)
    case Nil
    then have "arenas (in_place (ucast n) p') = ts @ c\<lparr>avail := v + ucast n\<rparr> # []"
      using e(3) cur by (simp add: in_place_def bump_def)
    moreover have "unat v \<le> unat (v + ucast n)" using assms(3) Nil e(3) cur by simp
    ultimately show ?thesis using Nil by blast
  next
    case (snoc bs b)
    then have "arenas (in_place (ucast n) p') = ts @ c\<lparr>avail := v\<rparr> # (bs @ [bump (ucast n) b])"
      using e(3) cur by (simp add: in_place_def list_update_append nth_append)
    then show ?thesis using snoc by blast
  qed
  then obtain w bs where w: "arenas (in_place (ucast n) p') = ts @ c\<lparr>avail := w\<rparr> # bs" "unat v \<le> unat w"
    "bs = [] \<longleftrightarrow> as = []" by blast
  then have "unat (avail c) \<le> unat w" "bs \<noteq> [] \<longrightarrow> once h' = Some True" using e(4,5) by simp_all
  then show ?thesis unfolding extends_def using assms(2) same e(1,2) w(1) by blast
qed

lemma extends_allocate:
  assumes e: "extends k p p' h'" and f: "fits k p nb" and m: "malloc_fresh malloc"
    and call: "PL_ARENA_ALLOCATE malloc newlock p' h' nb = Some (q, p'', h'')"
  shows "extends k p p'' h''"
proof -
  have p': "pool_ok k p' h'" and f': "fits k p' nb" using e f by (simp_all add: extends_def fits_def)
  note L = Lock_cases [OF _ pool_okD(4) [OF p']]
  have same: "extends k p p' h1" if l: "LockArena newlock h' = (b, h1)" for b h1
    using e pool_ok_heap [OF p' L [OF l]] Lock_once(2) [of h' newlock b h1] l unfolding extends_def by metis
  show ?thesis
  proof (rule allocate_cases [OF p' f', of malloc newlock])
    assume r: "avail (arenas p' ! current p') + ucast (rounded (pmask p') nb) \<le> limit (arenas p' ! current p')"
      "PL_ARENA_ALLOCATE malloc newlock p' h' nb =
         Some (avail (arenas p' ! current p'), in_place (ucast (rounded (pmask p') nb)) p', h')"
    have "unat (avail (arenas p' ! current p') + ucast (rounded (pmask p') nb)) =
        unat (avail (arenas p' ! current p')) + unat (rounded (pmask p') nb)"
      using pool_okD(6) [OF p'] by (intro unat_add_small) (simp add: arena_ok_def)
    then show ?thesis
      using extends_in_place [OF e] granted_room [OF p' f' r(1)] r(2) call by (simp add: granted_def)
  next
    fix h1 :: heap and a xs ys
    assume l: "LockArena newlock h' = (True, h1)" "arena_freelist h' = xs @ a # ys"
      "base a + ucast (rounded (pmask p') nb) \<le> limit a"
      "PL_ARENA_ALLOCATE malloc newlock p' h' nb =
         Some (base a, appended (a\<lparr>avail := base a + ucast (rounded (pmask p') nb)\<rparr>) p', h1\<lparr>arena_freelist := xs @ ys\<rparr>)"
    show ?thesis using extends_append [OF e] granted_claimed [OF p' f' l(1-3)] Lock_once(1) [OF l(1)] l(4) call
      by (simp add: granted_def)
  next
    fix h1 a h2
    assume l: "LockArena newlock h' = (True, h1)" "new_arena malloc p' h1 (rounded (pmask p') nb) = Some (a, h2)"
      "PL_ARENA_ALLOCATE malloc newlock p' h' nb =
         Some (avail a, appended (bump (ucast (rounded (pmask p') nb)) a) p', h2)"
    have "once h2 = Some True" using Lock_once(1) [OF l(1)] l(2) by (auto simp: new_arena_def Let_def split: if_splits)
    then show ?thesis using extends_append [OF e] granted_fresh [OF p' f' m l(1,2)] l(3) call
      by (simp add: granted_def)
  qed (use call same in auto)
qed

fun allocate_all :: "mallocf \<Rightarrow> bool \<Rightarrow> PLArenaPool \<Rightarrow> heap \<Rightarrow> u32 list \<Rightarrow> (PLArenaPool \<times> heap) exec" where
  "allocate_all malloc newlock p h [] = Some (p, h)"
| "allocate_all malloc newlock p h (nb # nbs) = do {
     (_, p, h) \<leftarrow> PL_ARENA_ALLOCATE malloc newlock p h nb;
     allocate_all malloc newlock p h nbs }"

lemma extends_allocate_all:
  assumes "malloc_fresh malloc"
  shows "extends k p p' h' \<Longrightarrow> \<forall>nb\<in>set nbs. fits k p nb \<Longrightarrow>
    \<exists>p'' h''. allocate_all malloc newlock p' h' nbs = Some (p'', h'') \<and> extends k p p'' h''"
proof (induction nbs arbitrary: p' h')
  case (Cons nb nbs)
  then have f: "fits k p nb" "fits k p' nb" "pool_ok k p' h'" by (simp_all add: extends_def fits_def)
  obtain q p1 h1 where a: "PL_ARENA_ALLOCATE malloc newlock p' h' nb = Some (q, p1, h1)"
    using allocate_outcome [OF f(3,2) assms, of newlock] by blast
  show ?case using Cons.IH [OF extends_allocate [OF Cons.prems(1) f(1) assms a]] Cons.prems(2) a by simp
qed simp

text \<open>Only one arena of a pool can hold a mark.\<close>

lemma mark_unique:
  assumes p: "pool_ok k p h" and i: "i < length (arenas p)" "holds_mark m (arenas p ! i)"
    and j: "j < length (arenas p)" "holds_mark m (arenas p ! j)"
  shows "i = j"
proof (rule ccontr)
  assume ne: "i \<noteq> j"
  let ?B = "owned p h"
  have s: "separate ?B" and f: "arenas p = hd (arenas p) # tl (arenas p)" using p by (simp_all add: pool_ok_def)
  have in_block: "unat (fst (?B ! n)) < unat m \<and> unat m \<le> unat (snd (?B ! n)) \<and> n < length ?B"
    if n: "n < length (arenas p)" "holds_mark m (arenas p ! n)" for n
  proof -
    have a: "arena_ok k (arenas p ! n)" using p n(1) by (simp add: pool_ok_def)
    then have m: "unat (base (arenas p ! n)) \<le> unat m" "unat m \<le> unat (avail (arenas p ! n))"
      using n(2) holds_mark_iff [of "arenas p ! n" m] by (simp_all add: arena_ok_def)
    have l: "n < length ?B" using n(1) by (simp add: owned_def)
    show ?thesis
    proof (cases n)
      case 0
      then have h: "arenas p ! n = hd (arenas p)" using f by (metis nth_Cons_0)
      then have "m = base (hd (arenas p))" using m first_unused [OF p] by (metis le_antisym unsigned_word_eqI)
      moreover have "unat (base (hd (arenas p)) + 1) = unat (base (hd (arenas p))) + 1"
        using a h by (simp add: arena_ok_def unat_word_ariths)
      ultimately show ?thesis using 0 a h l by (simp add: owned_def arena_ok_def)
    next
      case (Suc i)
      then have "i < length (tl (arenas p))" using n(1) by simp
      then have "?B ! n = block_of (arenas p ! n)" using Suc by (simp add: owned_def nth_append nth_tl)
      then show ?thesis using a m l by (simp add: block_of_def arena_ok_def)
    qed
  qed
  have "?B ! i \<noteq> ?B ! j" using s ne in_block [OF i] in_block [OF j] by (simp add: separate_def nth_eq_iff_index_eq)
  then have "apart (?B ! i) (?B ! j)" using s in_block [OF i] in_block [OF j] by (simp add: separate_def)
  then show False using in_block [OF i] in_block [OF j] by (auto simp: apart_def word_le_nat_alt)
qed

lemma find_mark_eq:
  "\<forall>a\<in>set ts. \<not> holds_mark m a \<Longrightarrow> holds_mark m c \<Longrightarrow> find_mark (ts @ c # as) i m = Some (i + length ts)"
  by (induction ts arbitrary: i) auto

text \<open>The arenas behind the one that is released go to the front of the free list.\<close>

lemma arena_free_ok: "arena_ok k a \<Longrightarrow> free_ok k a"
  by (simp add: arena_ok_def free_ok_def)

lemma free_tail_ok:
  assumes p': "pool_ok k p' h'" and a: "arenas p' = ts @ c\<lparr>avail := v\<rparr> # as"
    and p: "arenas p = ts @ [c]" "current p = length ts" "pmask p = pmask p'" and c: "arena_ok k c"
    and h: "arena_freelist h'' = as @ arena_freelist h'" "blocks h'' = blocks h'" "lock_ok h''"
  shows "pool_ok k p h''"
proof -
  have as: "\<forall>a\<in>set as. free_ok k a" using p' a arena_free_ok by (simp add: pool_ok_def)
  have own: "owned p h'' = owned p' h'"
    using a p(1) h(1) by (cases ts) (simp_all add: owned_def block_of_def)
  have hd: "base (hd (arenas p)) = base (hd (arenas p'))" "limit (hd (arenas p)) = limit (hd (arenas p'))"
    using a p(1) by (cases ts; simp)+
  show ?thesis using p' a p c h as own hd unfolding pool_ok_def by (simp add: ball_Un)
qed

lemma release_extends:
  assumes p: "pool_ok k p h" and e: "extends k p p' h'" and m: "PL_ARENA_MARK p = Some m"
  shows "\<exists>h''. PL_ARENA_RELEASE newlock p' h' m = Some (p, h'') \<and> pool_ok k p h'' \<and> mem h'' = mem h'"
proof -
  obtain ts c v as where e': "arenas p = ts @ [c]" "current p = length ts" "arenas p' = ts @ c\<lparr>avail := v\<rparr> # as"
    "unat (avail c) \<le> unat v" "as \<noteq> [] \<Longrightarrow> once h' = Some True"
    and p': "pool_ok k p' h'" and s: "pmask p' = pmask p" "arenasize p' = arenasize p"
    using e by (auto simp: extends_def)
  have mc: "m = avail c" using m e'(1,2) by (simp add: PL_ARENA_MARK_def rd_ok)
  have c: "arena_ok k c" using p e'(1) by (simp add: pool_ok_def)
  have al: "PL_ARENA_ALIGN (pmask p') m = m"
  proof -
    have "unat (PL_ARENA_ALIGN (mask k) m) = up k (unat m)"
      using unat_align [OF pool_okD(1) [OF p], of m] c mc pow_le_31 [OF pool_okD(1) [OF p]] by (simp add: arena_ok_def)
    then have "unat (PL_ARENA_ALIGN (mask k) m) = unat m" using c mc up_id [of k "unat m"] by (simp add: arena_ok_def)
    then show ?thesis using pool_okD(2) [OF p'] by (metis unsigned_word_eqI)
  qed
  have hold: "holds_mark m (arenas p' ! length ts)"
    using c e'(3,4) mc holds_mark_iff [of "c\<lparr>avail := v\<rparr>" m] by (simp add: arena_ok_def)
  have uniq: "i = length ts" if "i < length (arenas p')" "holds_mark m (arenas p' ! i)" for i
    using mark_unique [OF p' that, of "length ts"] hold e'(3) by simp
  have cur: "current p' = length ts + length as" "current p' < length (arenas p')"
    using p' e'(3) by (simp_all add: pool_ok_def)
  have whole: "p'\<lparr>arenas := ts @ [c], current := length ts\<rparr> = p" using e'(1,2) s by (cases p; cases p') simp
  show ?thesis
  proof (cases as)
    case Nil
    then have "p'\<lparr>arenas := (arenas p')[current p' := (c\<lparr>avail := v\<rparr>)\<lparr>avail := m\<rparr>]\<rparr> = p"
      using e'(1-3) cur mc s by (cases p; cases p') simp
    then have "PL_ARENA_RELEASE newlock p' h' m = Some (p, h')"
      using Nil e'(3) cur hold al by (simp add: PL_ARENA_RELEASE_def rd_ok)
    moreover have "pool_ok k p h'" using free_tail_ok [OF p' e'(3) e'(1,2) s(1) [symmetric] c] Nil pool_okD(4) [OF p'] by simp
    ultimately show ?thesis by blast
  next
    case (Cons a as')
    then have on: "once h' = Some True" using e'(5) by simp
    then have lk: "arenaLock h'" using pool_okD(4) [OF p'] by (auto simp: lock_ok_def)
    have "\<not> holds_mark m (arenas p' ! current p')" using uniq [OF cur(2)] cur(1) Cons by auto
    moreover have "\<not> holds_mark m x" if xs: "x \<in> set ts" for x
    proof
      obtain i where "i < length ts" "x = ts ! i" using xs unfolding in_set_conv_nth by blast
      then have i: "i < length (arenas p')" "x = arenas p' ! i" "i \<noteq> length ts" using e'(3) by (simp_all add: nth_append)
      assume "holds_mark m x"
      then show False using uniq [of i] i by simp
    qed
    then have "find_mark (arenas p') 0 m = Some (length ts)"
      using find_mark_eq [of ts m "c\<lparr>avail := v\<rparr>" as 0] hold e'(3) by simp
    ultimately have "PL_ARENA_RELEASE newlock p' h' m = FreeArenaList newlock (p'\<lparr>arenas := ts @ c # as\<rparr>) h' (length ts) False"
      using cur(2) e'(3) al mc by (simp add: PL_ARENA_RELEASE_def PL_ArenaRelease_def rd_ok)
    also have "\<dots> = Some (p, h'\<lparr>arena_freelist := as @ arena_freelist h'\<rparr>)"
      using Cons on lk whole by (simp add: FreeArenaList_def LockArena_def UnlockArena_def Let_def)
    finally show ?thesis
      using free_tail_ok [OF p' e'(3) e'(1,2) s(1) [symmetric] c, of "h'\<lparr>arena_freelist := as @ arena_freelist h'\<rparr>"]
        pool_okD(4) [OF p'] by auto
  qed
qed

text \<open>C19: Last in, first out: after \<open>PL_ARENA_MARK\<close> and any sequence of allocations, however many arenas they
  take from the free list or from \<open>malloc\<close>, \<open>PL_ARENA_RELEASE\<close> of the mark is defined and gives back exactly the
  pool of the time of the mark, well formed over the heap it leaves.\<close>

theorem arena_mark_release:
  assumes "pool_ok k p h" "malloc_fresh malloc" "\<forall>nb\<in>set nbs. fits k p nb"
  shows "\<exists>m p' h' h''. PL_ARENA_MARK p = Some m \<and> allocate_all malloc newlock p h nbs = Some (p', h') \<and>
    PL_ARENA_RELEASE newlock p' h' m = Some (p, h'') \<and> pool_ok k p h''"
proof -
  have "current p < length (arenas p)" using assms(1) by (simp add: pool_ok_def)
  then obtain m where m: "PL_ARENA_MARK p = Some m" by (simp add: PL_ARENA_MARK_def rd_ok)
  obtain p' h' where r: "allocate_all malloc newlock p h nbs = Some (p', h')" "extends k p p' h'"
    using extends_allocate_all [OF assms(2) extends_refl [OF assms(1)] assms(3)] by blast
  then show ?thesis using release_extends [OF assms(1) r(2) m] m by blast
qed

theorem arena_mark_release_witness:
  "\<exists>m p' h' h''. PL_ARENA_MARK start_pool = Some m \<and>
     allocate_all bump_malloc True start_pool start_heap [100, 5000, 1] = Some (p', h') \<and>
     PL_ARENA_RELEASE True p' h' m = Some (start_pool, h'') \<and> pool_ok 4 start_pool h''"
  by (rule arena_mark_release [OF start_pool_ok bump_malloc_fresh]) (simp add: fits_def start_pool_def)

section \<open>Freeing\<close>

lemma delete_all:
  "blocks (fold delete_arena as h) = filter (\<lambda>b. b \<notin> block_of ` set as) (blocks h)"
  "arena_freelist (fold delete_arena as h) = arena_freelist h" "lock_ok (fold delete_arena as h) = lock_ok h"
  by (induction as arbitrary: h)
    (auto simp: delete_arena_def block_of_def removeAll_filter_not_eq filter_filter intro: filter_cong)

text \<open>A pool that is cut down to its first arena\<close>

definition bare :: "PLArenaPool \<Rightarrow> PLArenaPool" where
  "bare p = p\<lparr>arenas := [hd (arenas p)], current := 0\<rparr>"

lemma bare_ok:
  assumes p: "pool_ok k p h" and h': "lock_ok h'" "\<forall>a\<in>set (arena_freelist h'). free_ok k a"
    and sub: "set (owned (bare p) h') \<subseteq> set (owned p h)" "distinct (owned (bare p) h')"
    and blk: "set (owned (bare p) h') \<subseteq> set (blocks h')"
  shows "pool_ok k (bare p) h'" "used (bare p) = {}"
proof -
  have "separate (owned (bare p) h')" using p sub unfolding pool_ok_def separate_def by blast
  then show "pool_ok k (bare p) h'" using p h' blk by (simp add: pool_ok_def bare_def)
  show "used (bare p) = {}" using first_unused [OF p] by (simp add: used_def bare_def)
qed

lemma owned_parts:
  assumes "pool_ok k p h"
  shows "distinct (owned p h)"
    "owned p h = (addr (hd (arenas p)), base (hd (arenas p)) + 1) # map block_of (tl (arenas p) @ arena_freelist h)"
    "owned (bare p) h' = (addr (hd (arenas p)), base (hd (arenas p)) + 1) # map block_of (arena_freelist h')"
proof -
  have "separate (owned p h)" using assms by (simp add: pool_ok_def)
  then show "distinct (owned p h)" by (simp add: separate_def)
qed (simp_all add: owned_def bare_def)

lemma tail_arenas:
  assumes "pool_ok k p h"
  shows "drop (Suc 0) (arenas p) = tl (arenas p)" "take (Suc 0) (arenas p) = [hd (arenas p)]"
    "tl (arenas p) = [] \<Longrightarrow> bare p = p" "\<forall>a\<in>set (tl (arenas p)). free_ok k a"
proof -
  have ne: "arenas p \<noteq> []" "Suc (current p) = length (arenas p)" using assms by (simp_all add: pool_ok_def)
  then show "drop (Suc 0) (arenas p) = tl (arenas p)" "take (Suc 0) (arenas p) = [hd (arenas p)]"
    by (cases "arenas p"; simp)+
  show "bare p = p" if "tl (arenas p) = []" using ne that by (cases "arenas p"; cases p) (auto simp: bare_def)
  show "\<forall>a\<in>set (tl (arenas p)). free_ok k a"
    using assms arena_free_ok by (auto simp: pool_ok_def dest: list.set_sel(2))
qed



section \<open>Sequences of allocations\<close>

text \<open>What a client of an allocator relies on, as an interface: an allocation is defined, keeps the invariant and
  what is in use, and returns null or a region that was free and now is in use. From this law alone the
  blocks of any sequence of allocations are disjoint.\<close>

definition region :: "uword \<times> u32 \<Rightarrow> nat set" where
  "region b = {unat (fst b)..<unat (fst b) + unat (snd b)}"

fun alloc_seq :: "('s \<Rightarrow> u32 \<Rightarrow> (uword \<times> 's) exec) \<Rightarrow> 's \<Rightarrow> u32 list \<Rightarrow> ((uword \<times> u32) list \<times> 's) exec" where
  "alloc_seq alloc s [] = Some ([], s)"
| "alloc_seq alloc s (n # ns) = do {
     (q, s) \<leftarrow> alloc s n;
     (bs, s) \<leftarrow> alloc_seq alloc s ns;
     Some (if q = 0 then bs else (q, n) # bs, s) }"

definition disjoint_regions :: "(uword \<times> u32) list \<Rightarrow> bool" where
  "disjoint_regions bs \<longleftrightarrow> sorted_wrt (\<lambda>x y. region x \<inter> region y = {}) bs"

locale region_allocator =
  fixes alloc :: "'s \<Rightarrow> u32 \<Rightarrow> (uword \<times> 's) exec" and inv :: "'s \<Rightarrow> bool"
    and req :: "'s \<Rightarrow> u32 \<Rightarrow> bool" and inuse :: "'s \<Rightarrow> nat set"
  assumes alloc_ok: "inv s \<Longrightarrow> req s n \<Longrightarrow> \<exists>q s'. alloc s n = Some (q, s') \<and> inv s' \<and> req s' = req s \<and>
    inuse s \<subseteq> inuse s' \<and> (q = 0 \<or> region (q, n) \<inter> inuse s = {} \<and> region (q, n) \<subseteq> inuse s')"
begin

lemma alloc_seq_disjoint:
  "inv s \<Longrightarrow> \<forall>n\<in>set ns. req s n \<Longrightarrow> \<exists>bs s'. alloc_seq alloc s ns = Some (bs, s') \<and> inv s' \<and>
     disjoint_regions bs \<and> inuse s \<subseteq> inuse s' \<and> (\<forall>b\<in>set bs. region b \<inter> inuse s = {} \<and> region b \<subseteq> inuse s')"
proof (induction ns arbitrary: s)
  case Nil
  then show ?case by (simp add: disjoint_regions_def)
next
  case (Cons n ns)
  then obtain q s1 where a: "alloc s n = Some (q, s1)" "inv s1" "req s1 = req s" "inuse s \<subseteq> inuse s1"
    "q = 0 \<or> region (q, n) \<inter> inuse s = {} \<and> region (q, n) \<subseteq> inuse s1"
    using alloc_ok [of s n] by auto
  from Cons.IH [OF a(2)] Cons.prems a(3) obtain bs s2 where
    b: "alloc_seq alloc s1 ns = Some (bs, s2)" "inv s2" "disjoint_regions bs" "inuse s1 \<subseteq> inuse s2"
    "\<forall>b\<in>set bs. region b \<inter> inuse s1 = {} \<and> region b \<subseteq> inuse s2" by auto
  show ?case
  proof (cases "q = 0")
    case True
    then show ?thesis using a b by (auto simp: disjoint_regions_def)
  next
    case False
    then have "\<forall>b\<in>set bs. region (q, n) \<inter> region b = {}" using a(5) b(5) by blast
    then have "disjoint_regions ((q, n) # bs)" using b(3) by (simp add: disjoint_regions_def)
    moreover have "\<forall>b\<in>set ((q, n) # bs). region b \<inter> inuse s = {} \<and> region b \<subseteq> inuse s2"
      using False a(4,5) b(4,5) by auto
    ultimately show ?thesis using a b False by simp
  qed
qed

end

text \<open>The arena allocator provides the interface: its state is the pool with the heap, and the parameters.\<close>

type_synonym arena_state = "nat \<times> mallocf \<times> bool \<times> PLArenaPool \<times> heap"

fun arena_alloc :: "arena_state \<Rightarrow> u32 \<Rightarrow> (uword \<times> arena_state) exec" where
  "arena_alloc (k, malloc, newlock, p, h) nb = do {
     (q, p, h) \<leftarrow> PL_ARENA_ALLOCATE malloc newlock p h nb;
     Some (q, (k, malloc, newlock, p, h)) }"

fun arena_inv :: "arena_state \<Rightarrow> bool" where
  "arena_inv (k, malloc, newlock, p, h) \<longleftrightarrow> pool_ok k p h \<and> malloc_fresh malloc"

fun arena_req :: "arena_state \<Rightarrow> u32 \<Rightarrow> bool" where
  "arena_req (k, malloc, newlock, p, h) nb = fits k p nb"

fun arena_used :: "arena_state \<Rightarrow> nat set" where
  "arena_used (k, malloc, newlock, p, h) = used p"

lemma allocate_arenasize:
  assumes "pool_ok k p h" "fits k p nb" "malloc_fresh malloc"
    "PL_ARENA_ALLOCATE malloc newlock p h nb = Some (q, p', h')"
  shows "arenasize p' = arenasize p"
  using extends_allocate [OF extends_refl [OF assms(1)] assms(2-4)] by (simp add: extends_def)

interpretation arena: region_allocator arena_alloc arena_inv arena_req arena_used
proof unfold_locales
  fix s n assume i: "arena_inv s" and r: "arena_req s n"
  obtain k malloc newlock p h where s: "s = (k, malloc, newlock, p, h)" by (cases s) auto
  have p: "pool_ok k p h" "fits k p n" "malloc_fresh malloc" using i r s by simp_all
  obtain q p' h' where a: "PL_ARENA_ALLOCATE malloc newlock p h n = Some (q, p', h')"
    and o: "q = 0 \<and> p' = p \<and> pool_ok k p h' \<or> granted k p h n q p' h'"
    using allocate_outcome [OF p, of newlock] by blast
  have "region (q, n) \<subseteq> {unat q..<unat q + up k (unat n)}" using up_ge [of "unat n" k] by (auto simp: region_def)
  then have "pool_ok k p' h' \<and> used p \<subseteq> used p' \<and> (q = 0 \<or> region (q, n) \<inter> used p = {} \<and> region (q, n) \<subseteq> used p')"
    using o by (auto simp: granted_def region_def)
  moreover have "arena_req (k, malloc, newlock, p', h') = arena_req s"
    using allocate_arenasize [OF p a] by (auto simp: s fits_def)
  ultimately show "\<exists>q s'. arena_alloc s n = Some (q, s') \<and> arena_inv s' \<and> arena_req s' = arena_req s \<and>
      arena_used s \<subseteq> arena_used s' \<and>
      (q = 0 \<or> region (q, n) \<inter> arena_used s = {} \<and> region (q, n) \<subseteq> arena_used s')"
    using a p(3) by (auto simp: s)
qed

text \<open>C18: The blocks that any sequence of \<open>PL_ARENA_ALLOCATE\<close> calls on a well-formed pool returns are pairwise
  disjoint, disjoint from what was in use before, and in use afterwards; the sequence is defined and leaves a
  well-formed pool.\<close>

theorem arena_blocks_disjoint:
  assumes "pool_ok k p h" "malloc_fresh malloc" "\<forall>nb\<in>set nbs. fits k p nb"
  shows "\<exists>bs p' h'. alloc_seq arena_alloc (k, malloc, newlock, p, h) nbs = Some (bs, (k, malloc, newlock, p', h')) \<and>
    pool_ok k p' h' \<and> disjoint_regions bs \<and> (\<forall>b\<in>set bs. region b \<inter> used p = {} \<and> region b \<subseteq> used p')"
proof -
  have keep: "alloc_seq arena_alloc (k, malloc, newlock, p, h) nbs = Some (bs, s') \<Longrightarrow>
      \<exists>p' h'. s' = (k, malloc, newlock, p', h')" for bs s' p h
    by (induction nbs arbitrary: p h bs s') (auto split: bind_splits prod.splits if_splits)
  show ?thesis
    using arena.alloc_seq_disjoint [of "(k, malloc, newlock, p, h)" nbs] assms keep [of p h] by fastforce
qed

theorem arena_blocks_disjoint_witness:
  "\<exists>bs p' h'. alloc_seq arena_alloc (4, bump_malloc, True, start_pool, start_heap) [100, 5000, 1, 16] =
      Some (bs, (4, bump_malloc, True, p', h')) \<and> disjoint_regions bs"
  using arena_blocks_disjoint [OF start_pool_ok bump_malloc_fresh, of "[100, 5000, 1, 16]" True]
  by (auto simp: fits_def start_pool_def)

section \<open>Growing a block\<close>

lemma granted_nonwrap:
  assumes "granted k p h nb q p' h'"
  shows "unat q + unat nb < 2 ^ 63 \<or> unat nb = 0"
proof (cases "unat nb = 0")
  case False
  have "unat q + unat nb - 1 \<in> {unat q..<unat q + up k (unat nb)}" using False up_ge [of "unat nb" k] by auto
  then have "unat q + unat nb - 1 \<in> used p'" using assms by (auto simp: granted_def)
  then obtain a where "a \<in> set (arenas p')" "unat q + unat nb - 1 < unat (avail a)" by (auto simp: used_def)
  moreover from this(1) have "arena_ok k a" using assms by (simp add: granted_def pool_ok_def)
  ultimately have "unat q + unat nb - 1 < unat (limit a)" "unat (limit a) < 2 ^ 63" by (simp_all add: arena_ok_def)
  then show ?thesis using False by linarith
qed simp

lemma unat_diff_in:
  assumes "unat (d :: uword) + n < 2 ^ 64" "n < 2 ^ 64" "unat x < unat d \<or> unat d + n \<le> unat x"
  shows "\<not> unat (x - d) < n"
proof -
  have "unat x < 2 ^ 64" using unsigned_less [of x, where ?'a = nat] by simp
  then show ?thesis using assms by (auto simp: unat_sub_if_size word_size)
qed

lemma copied_new: "i < n \<Longrightarrow> copied m d s n (d + i) = m (s + i)"
  by (simp add: copied_def)

lemma copied_other:
  assumes "unat d + unat n < 2 ^ 64" "unat x \<notin> {unat d..<unat d + unat n}"
  shows "copied m d s n x = m x"
proof -
  have "\<not> unat (x - d) < unat n"
    using unat_diff_in [of d "unat n" x] assms unsigned_less [of n, where ?'a = nat] by auto
  then show ?thesis by (simp add: copied_def word_less_nat_alt)
qed

lemma grow_in_place:
  assumes p: "pool_ok k p h" and f: "fits k p incr" "fits k p sz"
    and q: "{unat q..<unat q + up k (unat sz)} \<subseteq> used p" "unat q + up k (unat sz) < 2 ^ 63"
    and a: "avail (arenas p ! current p) = q + PL_ARENA_ALIGN (pmask p) (ucast sz)"
    and room: "avail (arenas p ! current p) + ucast (rounded (pmask p) incr) \<le> limit (arenas p ! current p)"
  defines "p' \<equiv> in_place (ucast (rounded (pmask p) incr)) p"
  shows "pool_ok k p' h" "used p \<union> {unat q..<unat q + unat sz + unat incr} \<subseteq> used p'"
    "{unat q..<unat q + unat sz + unat incr} \<inter> (used p - {unat q..<unat q + up k (unat sz)}) = {}"
proof -
  let ?c = "arenas p ! current p" and ?i = "rounded (pmask p) incr"
  note k = pool_okD [OF p] and n = rounded_fits [OF p f(1)]
  note i = pool_ok_in_place [OF p room refl, folded p'_def]
  have us: "unat (PL_ARENA_ALIGN (pmask p) (ucast sz)) = up k (unat sz)"
    using unat_align [OF k(1), of "ucast sz"] f(2) k(2) by (simp add: unat_ucast_u32 fits_def)
  have e: "unat (avail ?c) = unat q + up k (unat sz)"
    using a us q(2) by (simp add: unat_word_ariths)
  show "pool_ok k p' h" using i n by simp
  have new: "{unat q..<unat q + unat sz + unat incr} \<subseteq>
      {unat q..<unat q + up k (unat sz)} \<union> {unat (avail ?c)..<unat (avail ?c) + unat ?i}"
    using up_ge [of "unat sz" k] up_ge [of "unat incr" k] n unfolding e by auto
  then show "used p \<union> {unat q..<unat q + unat sz + unat incr} \<subseteq> used p'" using i(2) n q(1) by auto
  show "{unat q..<unat q + unat sz + unat incr} \<inter> (used p - {unat q..<unat q + up k (unat sz)}) = {}"
    using new i n by auto
qed

lemma grow_moved:
  assumes p: "pool_ok k p h" and m: "malloc_fresh malloc" and f: "fits k p (sz + incr)"
    and s: "unat sz + unat incr < 2 ^ 32"
  shows "\<exists>q' p' h'. PL_ArenaGrow malloc newlock p h q sz incr = Some (q', p', h') \<and> pool_ok k p' h' \<and>
    (q' = 0 \<longrightarrow> p' = p \<and> mem h' = mem h) \<and>
    (q' \<noteq> 0 \<longrightarrow> used p \<union> {unat q'..<unat q' + unat sz + unat incr} \<subseteq> used p' \<and>
       {unat q'..<unat q' + unat sz + unat incr} \<inter> used p = {} \<and>
       (\<forall>i. i < ucast sz \<longrightarrow> mem h' (q' + i) = mem h (q + i)) \<and> (\<forall>x. unat x \<in> used p \<longrightarrow> mem h' x = mem h x))"
proof -
  have u: "unat (sz + incr) = unat sz + unat incr" using s by (simp add: unat_word_ariths)
  obtain q' p' h1 where a: "PL_ARENA_ALLOCATE malloc newlock p h (sz + incr) = Some (q', p', h1)"
    and o: "q' = 0 \<and> p' = p \<and> pool_ok k p h1 \<and> mem h1 = mem h \<or> granted k p h (sz + incr) q' p' h1"
    using allocate_outcome [OF p f m, of newlock] by blast
  show ?thesis
  proof (cases "q' = 0")
    case True
    then show ?thesis using a o by (simp add: PL_ArenaGrow_def granted_def)
  next
    case False
    then have g: "granted k p h (sz + incr) q' p' h1" using o by blast
    let ?h = "h1\<lparr>mem := copied (mem h1) q' q (ucast sz)\<rparr>"
    have call: "PL_ArenaGrow malloc newlock p h q sz incr = Some (q', p', ?h)"
      using a False by (simp add: PL_ArenaGrow_def)
    have g': "pool_ok k p' h1" "mem h1 = mem h" "{unat q'..<unat q' + unat sz + unat incr} \<inter> used p = {}"
      "used p' = used p \<union> {unat q'..<unat q' + up k (unat sz + unat incr)}"
      using g by (simp_all add: granted_def u add.assoc)
    have ok: "pool_ok k p' ?h" using g'(1) pool_okD(4) [OF g'(1)]
      by (intro pool_ok_heap [where x = True and y = True, OF g'(1)]) simp
    have w: "unat q' + unat (ucast sz :: uword) < 2 ^ 64"
      using granted_nonwrap [OF g] u unat_u32_less [of sz] unsigned_less [of q', where ?'a = nat]
      by (auto simp: unat_ucast_u32)
    have "copied (mem h1) q' q (ucast sz) x = mem h x" if "unat x \<in> used p" for x
    proof -
      have "unat x \<notin> {unat q'..<unat q' + unat sz + unat incr}" using that g'(3) by blast
      then have "unat x \<notin> {unat q'..<unat q' + unat (ucast sz :: uword)}" by (auto simp: unat_ucast_u32)
      then show ?thesis using copied_other [OF w] g'(2) by simp
    qed
    moreover have "{unat q'..<unat q' + unat sz + unat incr} \<subseteq> {unat q'..<unat q' + up k (unat sz + unat incr)}"
      using up_ge [of "unat sz + unat incr" k] by auto
    ultimately show ?thesis using call ok g' copied_new [of _ "ucast sz"] False by auto
  qed
qed

text \<open>C21: Growing a block of the pool by \<open>incr\<close> bytes returns null, and changes nothing, or a block of the new size that
  lies apart from everything else the pool has handed out: in place when the block is the last of the current arena and
  there is room, so that the new bytes are nobody's, and otherwise a new block, apart from the old one too, that holds a
  copy of the old bytes. What else the pool has handed out keeps its contents.\<close>

theorem arena_grow:
  assumes "pool_ok k p h" "malloc_fresh malloc" "fits k p sz" "fits k p incr" "fits k p (sz + incr)"
    and "unat sz + unat incr < 2 ^ 32" "q \<noteq> 0"
    and "{unat q..<unat q + up k (unat sz)} \<subseteq> used p" "unat q + up k (unat sz) < 2 ^ 63"
  shows "\<exists>q' p' h'. PL_ARENA_GROW malloc newlock p h q sz incr = Some (q', p', h') \<and> pool_ok k p' h' \<and>
    (q' = 0 \<longrightarrow> p' = p \<and> mem h' = mem h) \<and>
    (q' \<noteq> 0 \<longrightarrow> used p \<union> {unat q'..<unat q' + unat sz + unat incr} \<subseteq> used p' \<and>
       {unat q'..<unat q' + unat sz + unat incr} \<inter> (used p - {unat q..<unat q + up k (unat sz)}) = {} \<and>
       (q' \<noteq> q \<longrightarrow> {unat q'..<unat q' + unat sz + unat incr} \<inter> used p = {}) \<and>
       (\<forall>i. i < ucast sz \<longrightarrow> mem h' (q' + i) = mem h (q + i)) \<and> (\<forall>x. unat x \<in> used p \<longrightarrow> mem h' x = mem h x))"
proof -
  let ?c = "arenas p ! current p" and ?i = "rounded (pmask p) incr"
  have r: "rd (arenas p) (current p) = Some ?c" using assms(1) by (simp add: pool_ok_def rd_ok)
  let ?in = "avail ?c = q + PL_ARENA_ALIGN (pmask p) (ucast sz) \<and> avail ?c + ucast ?i \<le> limit ?c"
  have eq: "PL_ARENA_GROW malloc newlock p h q sz incr =
      (if ?in then Some (q, in_place (ucast ?i) p, h) else PL_ArenaGrow malloc newlock p h q sz incr)"
    by (simp only: PL_ARENA_GROW_def Let_def rounded_def in_place_def bump_def r bind.bind_lunit)
  show ?thesis
  proof (cases ?in)
    case True
    then have "PL_ARENA_GROW malloc newlock p h q sz incr = Some (q, in_place (ucast ?i) p, h)"
      unfolding eq by (rule if_P)
    then show ?thesis using grow_in_place [OF assms(1,4,3,8,9) conjunct1 [OF True] conjunct2 [OF True]] assms(7) by simp
  next
    case False
    then have "PL_ARENA_GROW malloc newlock p h q sz incr = PL_ArenaGrow malloc newlock p h q sz incr"
      unfolding eq by (rule if_not_P)
    moreover obtain q' p' h' where g: "PL_ArenaGrow malloc newlock p h q sz incr = Some (q', p', h')" "pool_ok k p' h'"
      "q' = 0 \<longrightarrow> p' = p \<and> mem h' = mem h"
      "q' \<noteq> 0 \<longrightarrow> used p \<union> {unat q'..<unat q' + unat sz + unat incr} \<subseteq> used p' \<and>
       {unat q'..<unat q' + unat sz + unat incr} \<inter> used p = {} \<and>
       (\<forall>i. i < ucast sz \<longrightarrow> mem h' (q' + i) = mem h (q + i)) \<and> (\<forall>x. unat x \<in> used p \<longrightarrow> mem h' x = mem h x)"
      using grow_moved [OF assms(1,2,5,6), of newlock q] by blast
    ultimately show ?thesis by (intro exI [of _ q'] exI [of _ p'] exI [of _ h']) auto
  qed
qed

text \<open>A pool with one block of 16 bytes handed out, followed by 16 bytes of room\<close>

definition grown_pool :: PLArenaPool where
  "grown_pool = \<lparr>arenas = [\<lparr>addr = 0x1000, base = 0x1020, limit = 0x1020, avail = 0x1020\<rparr>,
       \<lparr>addr = 0x2000, base = 0x2020, limit = 0x2040, avail = 0x2030\<rparr>], current = 1, arenasize = 977, pmask = 15\<rparr>"

definition grown_heap :: heap where
  "grown_heap = \<lparr>arena_freelist = [], arenaLock = True, once = Some True,
     blocks = [(0x1000, 0x1021), (0x2000, 0x2040)], mem = (\<lambda>x. ucast x)\<rparr>"

lemma grown_pool_ok: "pool_ok 4 grown_pool grown_heap"
  unfolding pool_ok_def
  by (simp add: grown_pool_def grown_heap_def arena_ok_def owned_def separate_def apart_def block_of_def lock_ok_def mask_15)

theorem arena_grow_witness:
  "\<exists>q' p' h'. PL_ARENA_GROW bump_malloc True grown_pool grown_heap 0x2020 16 4000 = Some (q', p', h') \<and>
     pool_ok 4 p' h' \<and> (q' = 0 \<or> mem h' (q' + 5) = 0x25)"
proof -
  have "up 4 16 = 16" "unat (0x2020 :: uword) = 0x2020" "unat (16 :: u32) = 16" by (simp_all add: up_def)
  moreover have "used grown_pool = {0x2020..<0x2030}" by (simp add: used_def grown_pool_def)
  moreover have "fits 4 grown_pool 16" "fits 4 grown_pool 4000" "fits 4 grown_pool (16 + 4000)"
    by (simp_all add: fits_def grown_pool_def)
  ultimately have "\<exists>q' p' h'. PL_ARENA_GROW bump_malloc True grown_pool grown_heap 0x2020 16 4000 = Some (q', p', h') \<and>
    pool_ok 4 p' h' \<and> (q' \<noteq> 0 \<longrightarrow> (\<forall>i. i < ucast (16 :: u32) \<longrightarrow> mem h' (q' + i) = mem grown_heap (0x2020 + i)))"
    using arena_grow [OF grown_pool_ok bump_malloc_fresh, where sz = 16 and incr = 4000 and q = "0x2020" and newlock = True] by fastforce
  moreover have "mem grown_heap (0x2020 + 5) = 0x25" "(5 :: uword) < ucast (16 :: u32)" by (simp_all add: grown_heap_def)
  ultimately show ?thesis by metis
qed

section \<open>Where the promises end\<close>

text \<open>Three cases in which the allocator breaks its promise. An arena that a pool with a smaller alignment put on
  the free list keeps that pool's base: a pool aligned to 64 bytes is handed an address that is not a multiple
  of 64. A request just below \<open>2 ^ 32\<close> wraps around to zero when it is rounded up: the caller gets an
  address and no bytes. And the size of a new arena wraps around in 32 bits: for a request of \<open>2 ^ 32 - 16\<close>
  bytes a block of 31 bytes is allocated and an address past its end is returned.\<close>

theorem arena_broken_promises:
  "(let h = start_heap\<lparr>arena_freelist := [\<lparr>addr = 0x5000, base = 0x5020, limit = 0x5400, avail = 0x5020\<rparr>]\<rparr>
    in map_option fst (Option.bind (PL_InitArenaPool 0x1000 1024 64)
         (\<lambda>p. PL_ARENA_ALLOCATE bump_malloc True p h 64))) = Some 0x5020 \<and>
   map_option (\<lambda>(q, p, h). (q, arenas p)) (PL_ARENA_ALLOCATE bump_malloc True start_pool start_heap 0xFFFFFFFF) =
     Some (0x1020, arenas start_pool) \<and>
   map_option (\<lambda>(q, p, h). (q, blocks h)) (PL_ARENA_ALLOCATE (\<lambda>_ _. 0x5000) True start_pool start_heap 0xFFFFFFF0) =
     Some (0x5020, [(0x5000, 0x501F), (0x1000, 0x1021)])"
  by code_simp

end
