(* ===== verification/Moz_GetOpt.thy ===== *)
theory Moz_GetOpt
  imports Moz_Strings
begin

text \<open>
  The parser of command line options, \<open>src/nsprpub/lib/libc/src/plgetopt.c\<close>.

  \<open>argv\<close> is a list of string objects. A pointer that the state keeps into an argument is the index of the argument and
  an offset; \<open>cursor\<close> adds the pointer to the empty string \<open>static_Nul\<close>. The array of long options is a list whose
  last element has a null name; reading on behind the list is undefined. \<open>PRIntn\<close> counters are integers (an \<open>argc\<close>
  below 2^31 and strings below 2^31 bytes, so that none overflows). What \<open>PR_NEWZAP\<close> and \<open>PR_NEW\<close> find are
  parameters, and \<open>live\<close> counts the blocks allocated.
\<close>

section \<open>The state\<close>

datatype PLOptStatus = PL_OPT_OK | PL_OPT_EOL | PL_OPT_BAD

datatype PRErrorCode = PR_INVALID_ARGUMENT_ERROR | PR_OUT_OF_MEMORY_ERROR

record PLLongOpt =
  longOptName :: "buf ptr"
  longOption' :: int
  valueRequired :: bool

datatype cursor = static_Nul | In_arg nat nat

record PLOptionInternal =
  options :: cptr
  argc :: int
  argv :: "buf list"
  xargc :: nat
  xargv :: cursor
  minus :: nat
  longOpts :: "PLLongOpt list ptr"
  endOfOpts :: bool
  optionsLen :: nat

record PLOptState =
  option :: byte
  "value" :: "(nat \<times> nat) ptr"
  "internal" :: PLOptionInternal
  longOption :: int
  longOptIndex :: int

section \<open>Creating and destroying\<close>

definition PL_CreateLongOptState ::
  "bool \<Rightarrow> bool \<Rightarrow> int \<Rightarrow> buf list \<Rightarrow> cptr \<Rightarrow> PLLongOpt list ptr \<Rightarrow> nat \<Rightarrow> ((PRErrorCode + PLOptState) \<times> nat) exec" where
  "PL_CreateLongOptState newzap_ok new_ok n args opts longs live =
     (if opts = None then Some (Inl PR_INVALID_ARGUMENT_ERROR, live)
      else if \<not> newzap_ok then Some (Inl PR_OUT_OF_MEMORY_ERROR, live)
      else let live = live + 1 in
        if \<not> new_ok then Some (Inl PR_OUT_OF_MEMORY_ERROR, live - 1)
        else let live = live + 1 in
          do { l \<leftarrow> PL_strlen opts;
               Some (Inr \<lparr>option = 0, value = None,
                 internal = \<lparr>options = opts, argc = n, argv = args, xargc = 0, xargv = static_Nul, minus = 0,
                   longOpts = longs, endOfOpts = False, optionsLen = unat l\<rparr>,
                 longOption = 0, longOptIndex = -1\<rparr>, live) })"

definition PL_CreateOptState :: "bool \<Rightarrow> bool \<Rightarrow> int \<Rightarrow> buf list \<Rightarrow> cptr \<Rightarrow> nat \<Rightarrow> ((PRErrorCode + PLOptState) \<times> nat) exec" where
  "PL_CreateOptState newzap_ok new_ok n args opts live =
     PL_CreateLongOptState newzap_ok new_ok n args opts None live"

definition PL_DestroyOptState :: "PLOptState \<Rightarrow> nat \<Rightarrow> nat exec" where
  "PL_DestroyOptState opt live = (if live < 2 then None else Some (live - 2))"

section \<open>The next option\<close>

definition arg_at :: "PLOptionInternal \<Rightarrow> nat \<Rightarrow> nat \<Rightarrow> byte exec" where
  "arg_at p i j = do { s \<leftarrow> rd (argv p) i; rd s j }"

definition char_here :: "PLOptionInternal \<Rightarrow> byte exec" where
  "char_here p = (case xargv p of static_Nul \<Rightarrow> Some 0 | In_arg i j \<Rightarrow> arg_at p i j)"

text \<open>One turn of the loop over empty arguments, after the test for the end\<close>

definition enter_arg :: "PLOptionInternal \<Rightarrow> PLOptionInternal exec" where
  "enter_arg p =
     (let i = xargc p;
          p = p\<lparr>xargv := In_arg i 0, minus := 0\<rparr> in
      do { c \<leftarrow> arg_at p i 0;
           if \<not> endOfOpts p \<and> c = 0x2D then
             let p = p\<lparr>minus := 1, xargv := In_arg i 1\<rparr> in
             do { c \<leftarrow> arg_at p i 1;
                  if c = 0x2D \<and> longOpts p \<noteq> None then
                    let p = p\<lparr>minus := 2, xargv := In_arg i 2\<rparr> in
                    do { c \<leftarrow> arg_at p i 2;
                         Some (if c = 0 then p\<lparr>endOfOpts := True\<rparr> else p) }
                  else Some p }
           else Some p })"

lemma enter_arg_frame:
  "enter_arg p = Some q \<Longrightarrow> xargc q = xargc p \<and> argc q = argc p \<and> argv q = argv p"
  by (auto simp: enter_arg_def Let_def split: bind_splits if_splits)

function to_next_arg :: "PLOptionInternal \<Rightarrow> (bool \<times> PLOptionInternal) exec" where
  "to_next_arg p =
     do { c \<leftarrow> char_here p;
          if c \<noteq> 0 then Some (True, p)
          else let p = p\<lparr>xargc := xargc p + 1\<rparr> in
            if int (xargc p) \<ge> argc p then Some (False, p)
            else do { p \<leftarrow> enter_arg p; to_next_arg p } }"
  by pat_completeness auto
termination
  by (relation "measure (\<lambda>p. nat (argc p - int (xargc p)))") (auto dest: enter_arg_frame)

declare to_next_arg.simps [simp del]

fun find_long :: "PLLongOpt list \<Rightarrow> nat \<Rightarrow> buf \<Rightarrow> nat \<Rightarrow> (nat \<times> PLLongOpt) option exec" where
  "find_long [] k xs optNameLen = None"
| "find_long (longOpt # rest) k xs optNameLen =
     (case longOptName longOpt of
        None \<Rightarrow> Some None
      | Some name \<Rightarrow>
          do { r \<leftarrow> c_strncmp name xs optNameLen;
               if r \<noteq> 0 then find_long rest (k + 1) xs optNameLen
               else do { l \<leftarrow> c_strlen name;
                         if l \<noteq> optNameLen then find_long rest (k + 1) xs optNameLen
                         else Some (Some (k, longOpt)) } })"

definition long_match ::
  "PLOptState \<Rightarrow> nat \<Rightarrow> nat \<Rightarrow> nat ptr \<Rightarrow> (nat \<times> PLLongOpt) option \<Rightarrow> PLOptStatus \<times> PLOptState" where
  "long_match opt i j foundEqual m =
     (case m of
        None \<Rightarrow> (PL_OPT_BAD, opt)
      | Some (k, longOpt) \<Rightarrow>
          let opt = opt\<lparr>longOptIndex := int k, longOption := longOption' longOpt\<rparr>; p = internal opt in
          (case foundEqual of
             Some e \<Rightarrow> (PL_OPT_OK, opt\<lparr>value := Some (i, j + e + 1)\<rparr>)
           | None \<Rightarrow>
               if \<not> valueRequired longOpt then (PL_OPT_OK, opt)
               else if int (xargc p) + 1 < argc p
               then (PL_OPT_OK, opt\<lparr>internal := p\<lparr>xargc := xargc p + 1\<rparr>, value := Some (xargc p + 1, 0)\<rparr>)
               else (PL_OPT_BAD, opt)))"

definition long_option :: "PLOptState \<Rightarrow> nat \<Rightarrow> nat \<Rightarrow> (PLOptStatus \<times> PLOptState) exec" where
  "long_option opt i j =
     do { s \<leftarrow> rd (argv (internal opt)) i;
          let xs = drop j s;
          foundEqual \<leftarrow> c_strchr xs 0x3D;
          optNameLen \<leftarrow> (case foundEqual of None \<Rightarrow> c_strlen xs | Some k \<Rightarrow> Some k);
          let opt = opt\<lparr>option := 0, value := None\<rparr>;
          table \<leftarrow> longOpts (internal opt);
          m \<leftarrow> find_long table 0 xs optNameLen;
          let (result, opt) = long_match opt i j foundEqual m;
          Some (result, opt\<lparr>internal := (internal opt)\<lparr>xargv := static_Nul\<rparr>\<rparr>) }"

text \<open>The loop over the characters of \<open>options\<close>: the position of the one sought\<close>

fun find_short :: "buf \<Rightarrow> byte \<Rightarrow> nat \<Rightarrow> nat \<Rightarrow> nat option exec" where
  "find_short chars c cop 0 = Some None"
| "find_short chars c cop (Suc n) =
     do { x \<leftarrow> rd chars cop; if x = c then Some (Some cop) else find_short chars c (cop + 1) n }"

definition short_value :: "PLOptState \<Rightarrow> nat \<Rightarrow> nat \<Rightarrow> (PLOptStatus \<times> PLOptState) exec" where
  "short_value opt i j =
     do { d \<leftarrow> arg_at (internal opt) i j;
          let p = internal opt;
          if d \<noteq> 0 then
            Some (PL_OPT_OK, opt\<lparr>value := Some (i, j), internal := p\<lparr>xargv := static_Nul, minus := 0\<rparr>\<rparr>)
          else if int (xargc p) + 1 < argc p then
            Some (PL_OPT_OK, opt\<lparr>value := Some (xargc p + 1, 0),
              internal := p\<lparr>xargc := xargc p + 1, xargv := static_Nul, minus := 0\<rparr>\<rparr>)
          else Some (PL_OPT_BAD, opt) }"

definition short_option :: "PLOptState \<Rightarrow> nat \<Rightarrow> nat \<Rightarrow> (PLOptStatus \<times> PLOptState) exec" where
  "short_option opt i j =
     do { (a, chars) \<leftarrow> options (internal opt);
          c \<leftarrow> arg_at (internal opt) i j;
          m \<leftarrow> find_short chars c 0 (optionsLen (internal opt));
          let opt1 = opt\<lparr>internal := (internal opt)\<lparr>xargv := In_arg i (j + 1)\<rparr>\<rparr>;
          case m of
            None \<Rightarrow> Some (PL_OPT_BAD, opt1)
          | Some cop \<Rightarrow>
              let opt2 = opt1\<lparr>option := c, longOption := uint c\<rparr> in
              do { colon \<leftarrow> rd chars (cop + 1);
                   if colon = 0x3A then short_value opt2 i (j + 1) else Some (PL_OPT_OK, opt2\<lparr>value := None\<rparr>) } }"

definition PL_GetNextOpt :: "PLOptState \<Rightarrow> (PLOptStatus \<times> PLOptState) exec" where
  "PL_GetNextOpt opt =
     do { let opt = opt\<lparr>longOption := 0, longOptIndex := -1\<rparr>;
          (found, p) \<leftarrow> to_next_arg (internal opt);
          let opt = opt\<lparr>internal := p\<rparr>;
          if \<not> found then Some (PL_OPT_EOL, opt\<lparr>option := 0, value := None\<rparr>)
          else case xargv p of
            static_Nul \<Rightarrow> None
          | In_arg i j \<Rightarrow>
              if minus p = 2 then long_option opt i j
              else if minus p \<noteq> 0 then short_option opt i j
              else Some (PL_OPT_OK, opt\<lparr>value := Some (xargc p, 0), internal := p\<lparr>xargv := static_Nul\<rparr>, option := 0\<rparr>) }"

section \<open>A parser of argument lists\<close>

text \<open>What the caller is told: the reference the calls are compared with. \<open>e\<close> says that \<open>--\<close> was seen, \<open>cs\<close> is the rest of
  a cluster of single-character options, \<open>as\<close> are the arguments to come.\<close>

datatype token = Short byte int "buf option" | Long nat int "buf option" | Positional buf | Bad

type_synonym long_table = "(buf \<times> int \<times> bool) list"

fun takes_value :: "buf \<Rightarrow> byte \<Rightarrow> bool option" where
  "takes_value [] c = None"
| "takes_value (x # xs) c = (if x = c then Some (\<exists>ys. xs = 0x3A # ys) else takes_value xs c)"

definition short_token :: "buf \<Rightarrow> byte \<Rightarrow> buf \<Rightarrow> buf list \<Rightarrow> token \<times> buf \<times> buf list" where
  "short_token os c cs as =
     (case takes_value os c of
        None \<Rightarrow> (Bad, cs, as)
      | Some False \<Rightarrow> (Short c (uint c) None, cs, as)
      | Some True \<Rightarrow>
          if cs \<noteq> [] then (Short c (uint c) (Some cs), [], as)
          else case as of [] \<Rightarrow> (Bad, [], []) | a # as \<Rightarrow> (Short c (uint c) (Some a), [], as))"

fun lookup_long :: "nat \<Rightarrow> buf \<Rightarrow> long_table \<Rightarrow> (nat \<times> int \<times> bool) option" where
  "lookup_long k name [] = None"
| "lookup_long k name ((x, code, needs) # t) =
     (if x = name then Some (k, code, needs) else lookup_long (k + 1) name t)"

definition long_token :: "long_table \<Rightarrow> buf \<Rightarrow> buf list \<Rightarrow> token \<times> buf list" where
  "long_token t w as =
     (let name = takeWhile (\<lambda>x. x \<noteq> 0x3D) w in
      case lookup_long 0 name t of
        None \<Rightarrow> (Bad, as)
      | Some (k, code, needs) \<Rightarrow>
          if name \<noteq> w then (Long k code (Some (drop (length name + 1) w)), as)
          else if \<not> needs then (Long k code None, as)
          else case as of [] \<Rightarrow> (Bad, []) | a # as \<Rightarrow> (Long k code (Some a), as))"

lemma short_token_shorter:
  "short_token os c cs as = (t, cs', as') \<Longrightarrow>
   length cs' \<le> length cs \<and> sum_list (map length as') \<le> sum_list (map length as) \<and> length as' \<le> length as"
  by (auto simp: short_token_def split: option.splits bool.splits list.splits if_splits)

lemma long_token_shorter:
  "long_token t w as = (x, as') \<Longrightarrow> sum_list (map length as') \<le> sum_list (map length as) \<and> length as' \<le> length as"
  by (auto simp: long_token_def Let_def split: option.splits list.splits if_splits)

function parse_args :: "buf \<Rightarrow> long_table option \<Rightarrow> bool \<Rightarrow> buf \<Rightarrow> buf list \<Rightarrow> token list" where
  "parse_args os tb e (c # cs) as = (let (t, cs', as') = short_token os c cs as in t # parse_args os tb e cs' as')"
| "parse_args os tb e [] [] = []"
| "parse_args os tb e [] (a # as) =
     (if a = [] then parse_args os tb e [] as
      else if e \<or> hd a \<noteq> 0x2D then Positional a # parse_args os tb e [] as
      else case tb of
        None \<Rightarrow> parse_args os tb e (tl a) as
      | Some t \<Rightarrow>
          if tl a = [] \<or> hd (tl a) \<noteq> 0x2D then parse_args os tb e (tl a) as
          else if tl (tl a) = [] then parse_args os tb True [] as
          else let (x, as') = long_token t (tl (tl a)) as in x # parse_args os tb e [] as')"
  by pat_completeness auto
termination
proof (relation "measure (\<lambda>(os, tb, e, cs, as). length cs + sum_list (map length as) + length as)", goal_cases)
  case (2 os tb e c cs as x t y cs' as')
  then show ?case using short_token_shorter [of os c cs as t cs' as'] by (cases y) auto
qed (auto simp: neq_Nil_conv dest!: long_token_shorter [OF sym])

section \<open>The state as a rest of the command line\<close>

fun table :: "PLLongOpt list \<Rightarrow> long_table" where
  "table [] = []"
| "table (l # ls) = (case longOptName l of None \<Rightarrow> [] | Some s \<Rightarrow> (cstr s, longOption' l, valueRequired l) # table ls)"

fun table_ok :: "PLLongOpt list \<Rightarrow> bool" where
  "table_ok [] = False"
| "table_ok (l # ls) = (case longOptName l of None \<Rightarrow> True | Some s \<Rightarrow> has_nul s \<and> table_ok ls)"

definition cluster :: "PLOptionInternal \<Rightarrow> buf" where
  "cluster p = (case xargv p of static_Nul \<Rightarrow> [] | In_arg i j \<Rightarrow> drop j (cstr (argv p ! i)))"

definition to_come :: "PLOptionInternal \<Rightarrow> buf list" where
  "to_come p = drop (xargc p + 1) (map cstr (argv p))"

definition parser :: "PLOptionInternal \<Rightarrow> bool \<Rightarrow> buf \<Rightarrow> buf list \<Rightarrow> token list" where
  "parser p = parse_args (cstr (snd (the (options p)))) (map_option table (longOpts p))"

definition rest_tokens :: "PLOptionInternal \<Rightarrow> token list" where
  "rest_tokens p =
     (if cluster p = [] \<or> minus p = 1 then parser p (endOfOpts p) (cluster p) (to_come p)
      else if minus p = 0 then Positional (cluster p) # parser p (endOfOpts p) [] (to_come p)
      else let (t, as) = long_token (table (the (longOpts p))) (cluster p) (to_come p) in t # parser p (endOfOpts p) [] as)"

definition consistent :: "PLOptionInternal \<Rightarrow> bool" where
  "consistent p \<longleftrightarrow>
     argc p = int (length (argv p)) \<and> list_all has_nul (argv p) \<and>
     (\<exists>a chars. options p = Some (a, chars) \<and> has_nul chars \<and> optionsLen p = length (cstr chars)) \<and>
     (\<forall>t. longOpts p = Some t \<longrightarrow> table_ok t) \<and>
     (case xargv p of
        static_Nul \<Rightarrow> True
      | In_arg i j \<Rightarrow> (cluster p \<noteq> [] \<longrightarrow> i = xargc p) \<and> i < length (argv p) \<and> j \<le> nul (argv p ! i) \<and> minus p \<le> 2 \<and>
          (minus p = 0 \<longrightarrow> j = 0) \<and> (minus p = 2 \<longrightarrow> longOpts p \<noteq> None))"

lemma arg_at_eq:
  assumes "list_all has_nul (argv p)" "i < length (argv p)" "j \<le> nul (argv p ! i)"
  shows "arg_at p i j = Some (argv p ! i ! j)" and "argv p ! i ! j = 0 \<longleftrightarrow> drop j (cstr (argv p ! i)) = []"
    and "argv p ! i ! j \<noteq> 0 \<Longrightarrow> drop j (cstr (argv p ! i)) = argv p ! i ! j # drop (j + 1) (cstr (argv p ! i))"
proof -
  have h: "has_nul (argv p ! i)" using assms(1,2) by (simp add: list_all_length)
  then show "arg_at p i j = Some (argv p ! i ! j)" using assms by (simp add: arg_at_def rd_ok [of i] rd_nul)
  show "argv p ! i ! j = 0 \<longleftrightarrow> drop j (cstr (argv p ! i)) = []" using rd_nul(2) [OF h assms(3)] assms(3) by (auto simp: nul_def)
  show "drop j (cstr (argv p ! i)) = argv p ! i ! j # drop (j + 1) (cstr (argv p ! i))" if "argv p ! i ! j \<noteq> 0"
  proof -
    have "j < length (cstr (argv p ! i))" using rd_nul(2) [OF h assms(3)] assms(3) that by (simp add: nul_def)
    then show ?thesis by (simp add: Cons_nth_drop_Suc [symmetric] cstr_nth)
  qed
qed

lemma char_here_cluster: "consistent p \<Longrightarrow> \<exists>c. char_here p = Some c \<and> (c = 0 \<longleftrightarrow> cluster p = [])"
  using arg_at_eq [of p] by (auto simp: char_here_def consistent_def cluster_def split: cursor.splits)

lemma enter_arg_tokens:
  assumes "consistent p" "cluster p = []" "xargc p + 1 < length (argv p)"
  shows "\<exists>q. enter_arg (p\<lparr>xargc := xargc p + 1\<rparr>) = Some q \<and> consistent q \<and> rest_tokens q = rest_tokens p \<and> xargc q = xargc p + 1 \<and> argv q = argv p"
proof -
  define i where "i = xargc p + 1"
  define s where "s = cstr (argv p ! i)"
  have C: "list_all has_nul (argv p)" "i < length (argv p)" using assms by (simp_all add: consistent_def i_def)
  note A = arg_at_eq [OF C]
  have tc: "to_come p = s # drop (i + 1) (map cstr (argv p))"
    using C(2) Cons_nth_drop_Suc [of i "map cstr (argv p)"] by (simp add: to_come_def i_def s_def)
  define cm where "cm = drop (i + 1) (map cstr (argv p))"
  have rp: "rest_tokens p = parser p (endOfOpts p) [] (s # cm)"
    using assms(2) tc by (simp add: rest_tokens_def cm_def)
  define p0 where "p0 = p\<lparr>xargc := i, xargv := In_arg i 0, minus := 0\<rparr>"
  have c0: "arg_at p0 i 0 = Some (argv p ! i ! 0)" "argv p ! i ! 0 = 0 \<longleftrightarrow> s = []"
    "argv p ! i ! 0 \<noteq> 0 \<Longrightarrow> s = argv p ! i ! 0 # drop 1 s"
    using A [of 0] by (simp_all add: p0_def arg_at_def s_def)
  have ok0: "consistent p0" using assms(1) C(2) by (simp add: consistent_def p0_def)
  have p0f: "endOfOpts p0 = endOfOpts p" "longOpts p0 = longOpts p" "argv p0 = argv p" "xargc p0 = i" by (simp_all add: p0_def)
  have rq: "rest_tokens (p0\<lparr>minus := m, xargv := In_arg i j, endOfOpts := b\<rparr>) =
     (let c = drop j s in
      if c = [] \<or> m = 1 then parser p b c cm
      else if m = 0 then Positional c # parser p b [] cm
      else let (t, as) = long_token (table (the (longOpts p))) c cm in t # parser p b [] as)" for m j b
    by (simp add: rest_tokens_def p0_def parser_def to_come_def cm_def cluster_def s_def Let_def)
  define p1 p2 where "p1 = p0\<lparr>minus := 1, xargv := In_arg i 1\<rparr>" and "p2 = p1\<lparr>minus := 2, xargv := In_arg i 2\<rparr>"
  have e: "enter_arg (p\<lparr>xargc := xargc p + 1\<rparr>) =
    do { c \<leftarrow> arg_at p0 i 0;
         if \<not> endOfOpts p \<and> c = 0x2D then
             do { c \<leftarrow> arg_at p1 i 1;
                  if c = 0x2D \<and> longOpts p \<noteq> None then
                    do { c \<leftarrow> arg_at p2 i 2;
                         Some (if c = 0 then p2\<lparr>endOfOpts := True\<rparr> else p2) }
                  else Some p1 }
           else Some p0 }"
    unfolding enter_arg_def Let_def p2_def p1_def p0_def i_def by (simp cong: if_cong)
  show ?thesis
  proof (cases "\<not> endOfOpts p \<and> argv p ! i ! 0 = 0x2D")
    case False
    then have "enter_arg (p\<lparr>xargc := xargc p + 1\<rparr>) = Some p0" using e c0(1) by auto
    moreover have "rest_tokens p0 = rest_tokens p"
    proof -
      have "p0 = p0\<lparr>minus := 0, xargv := In_arg i 0, endOfOpts := endOfOpts p\<rparr>" by (simp add: p0_def)
      then have "rest_tokens p0 = (if s = [] then parser p (endOfOpts p) [] cm else Positional s # parser p (endOfOpts p) [] cm)"
        using rq [where m = 0 and j = 0 and b = "endOfOpts p"] by simp
      moreover have "s \<noteq> [] \<Longrightarrow> endOfOpts p \<or> hd s \<noteq> 0x2D" using False c0(2,3) by (metis list.sel(1))
      ultimately show ?thesis using rp by (auto simp: parser_def)
    qed
    ultimately show ?thesis using ok0 by (simp add: p0_def i_def)
  next
    case True
    have s1: "s = 0x2D # drop 1 s" using c0(3) True by simp
    then have l1: "1 \<le> nul (argv p ! i)" using s1 by (simp add: nul_def s_def [symmetric]) (metis length_Cons Suc_le_eq zero_less_Suc)
    have c1: "arg_at p1 i 1 = Some (argv p ! i ! 1)" "argv p ! i ! 1 = 0 \<longleftrightarrow> drop 1 s = []"
      "argv p ! i ! 1 \<noteq> 0 \<Longrightarrow> drop 1 s = argv p ! i ! 1 # drop 2 s"
      using A [OF l1] by (simp_all add: p1_def p0_def arg_at_def s_def numeral_2_eq_2)
    have ok1: "consistent p1" using ok0 l1 by (simp add: consistent_def p1_def p0_def)
    show ?thesis
    proof (cases "argv p ! i ! 1 = 0x2D \<and> longOpts p \<noteq> None")
      case False
      then have E: "enter_arg (p\<lparr>xargc := xargc p + 1\<rparr>) = Some p1"
        using e c0(1) c1(1) True by (auto simp del: One_nat_def)
      have "longOpts p \<noteq> None \<Longrightarrow> tl s = [] \<or> hd (tl s) \<noteq> 0x2D" using False c1(2,3) s1 by (metis drop0 drop_Suc list.sel(1) One_nat_def)
      moreover have "p1 = p0\<lparr>minus := 1, xargv := In_arg i 1, endOfOpts := endOfOpts p\<rparr>" by (simp add: p1_def p0_def)
      then have "rest_tokens p1 = parser p (endOfOpts p) (tl s) cm"
        using rq [where m = 1 and j = 1 and b = "endOfOpts p"] by (simp add: drop_Suc)
      ultimately have "rest_tokens p1 = rest_tokens p"
        using rp s1 True by (cases s) (auto simp: parser_def split: option.splits)
      with E show ?thesis using ok1 by (simp add: p1_def p0_def i_def)
    next
      case dd: True
      have s2: "s = 0x2D # 0x2D # drop 2 s" using s1 c1(3) dd by simp
      have l2: "2 \<le> nul (argv p ! i)" unfolding nul_def s_def [symmetric] by (subst s2) simp
      have c2: "arg_at p2 i 2 = Some (argv p ! i ! 2)" "argv p ! i ! 2 = 0 \<longleftrightarrow> drop 2 s = []"
        using A [OF l2] by (simp_all add: p2_def p1_def p0_def arg_at_def s_def)
      have ok2: "consistent p2" "consistent (p2\<lparr>endOfOpts := True\<rparr>)"
        using ok0 l2 dd by (simp_all add: consistent_def p2_def p1_def p0_def)
      define b where "b = (endOfOpts p \<or> drop 2 s = [])"
      define q where "q = p0\<lparr>minus := 2, xargv := In_arg i 2, endOfOpts := b\<rparr>"
      have "enter_arg (p\<lparr>xargc := xargc p + 1\<rparr>) = Some q"
        using e c0(1) c1(1) c2 True dd by (auto simp: b_def q_def p2_def p1_def p0_def simp del: One_nat_def)
      moreover have "consistent q" using ok2(1) by (simp add: consistent_def cluster_def q_def p2_def p1_def p0_def)
      moreover have "rest_tokens q = rest_tokens p"
      proof -
        obtain w where w: "s = 0x2D # 0x2D # w" "drop 2 s = w" using s2 by blast
        obtain t where t: "longOpts p = Some t" using dd by blast
        show ?thesis unfolding q_def rq rp w(2) using True
          by (simp add: w(1) parser_def b_def t Let_def)
      qed
      ultimately show ?thesis by (simp add: q_def p0_def i_def)
    qed
  qed
qed

lemma step_arg [simp]:
  "cluster (p\<lparr>xargc := n\<rparr>) = cluster p" "parser (p\<lparr>xargc := n\<rparr>) = parser p"
  by (simp_all add: cluster_def parser_def split: cursor.splits)

lemma parser_Nil [simp]: "parser p e [] [] = []"
  by (simp add: parser_def)

lemma to_next_arg_tokens:
  assumes "consistent p"
  shows "\<exists>found q. to_next_arg p = Some (found, q) \<and> consistent q \<and> rest_tokens q = rest_tokens p \<and>
    (found \<longleftrightarrow> cluster q \<noteq> []) \<and> (\<not> found \<longrightarrow> rest_tokens p = [])"
  using assms
proof (induction "length (argv p) - xargc p" arbitrary: p rule: less_induct)
  case less
  obtain c where c: "char_here p = Some c" "c = 0 \<longleftrightarrow> cluster p = []" using char_here_cluster [OF less(2)] by blast
  have argc: "argc p = int (length (argv p))" using less(2) by (simp add: consistent_def)
  show ?case
  proof (cases "cluster p = []")
    case False
    then show ?thesis using c less(2) by (auto simp: to_next_arg.simps [of p])
  next
    case True
    show ?thesis
    proof (cases "xargc p + 1 < length (argv p)")
      case False
      then have "to_next_arg p = Some (False, p\<lparr>xargc := xargc p + 1\<rparr>)"
        using True c argc by (simp add: to_next_arg.simps [of p])
      moreover have "to_come p = []" "to_come (p\<lparr>xargc := xargc p + 1\<rparr>) = []" using False by (simp_all add: to_come_def)
      then have "rest_tokens p = []" "rest_tokens (p\<lparr>xargc := xargc p + 1\<rparr>) = []" "cluster (p\<lparr>xargc := xargc p + 1\<rparr>) = []"
        using True by (simp_all add: rest_tokens_def)
      moreover have "consistent (p\<lparr>xargc := xargc p + 1\<rparr>)" 
        using less(2) True by (simp add: consistent_def split: cursor.splits)
      ultimately show ?thesis by auto
    next
      case t: True
      then obtain q where q: "enter_arg (p\<lparr>xargc := xargc p + 1\<rparr>) = Some q" "consistent q" "rest_tokens q = rest_tokens p"
        "xargc q = xargc p + 1" "argv q = argv p"
        using enter_arg_tokens [OF less(2) True] by blast
      have "to_next_arg p = to_next_arg q" using True c t argc q(1) by (simp add: to_next_arg.simps [of p])
      moreover have "length (argv q) - xargc q < length (argv p) - xargc p" using q(4,5) t by simp
      ultimately show ?thesis using less(1) [of q] q(2,3) by simp
    qed
  qed
qed

section \<open>One call\<close>

definition string_at :: "PLOptionInternal \<Rightarrow> (nat \<times> nat) ptr \<Rightarrow> buf option" where
  "string_at p v = map_option (\<lambda>(i, j). cstr (drop j (argv p ! i))) v"

definition token_of :: "PLOptStatus \<Rightarrow> PLOptState \<Rightarrow> token" where
  "token_of r opt =
     (if r = PL_OPT_BAD then Bad
      else if longOptIndex opt \<ge> 0 then Long (nat (longOptIndex opt)) (longOption opt) (string_at (internal opt) (value opt))
      else if option opt \<noteq> 0 then Short (option opt) (longOption opt) (string_at (internal opt) (value opt))
      else Positional (the (string_at (internal opt) (value opt))))"

lemma strncmp_take:
  "has_nul a \<Longrightarrow> has_nul b \<Longrightarrow> \<exists>r. c_strncmp a b n = Some r \<and> (r = 0 \<longleftrightarrow> take n (cstr a) = take n (cstr b))"
proof (induction a b n rule: c_strncmp.induct)
  case (2 x xs y ys n)
  show ?case
  proof (cases "x = y")
    case True
    then show ?thesis using 2 by (cases "x = 0") (auto simp: has_nul_def)
  next
    case False
    then have "uint x \<noteq> uint y" by (metis unsigned_word_eqI)
    then show ?thesis using False by auto
  qed
qed (simp_all add: has_nul_def)

lemma find_long_eq:
  assumes "has_nul xs" "n \<le> length (cstr xs)"
  shows "table_ok ls \<Longrightarrow> \<exists>m. find_long ls k xs n = Some m \<and>
    lookup_long k (take n (cstr xs)) (table ls) = map_option (\<lambda>(k, l). (k, longOption' l, valueRequired l)) m"
proof (induction ls arbitrary: k)
  case (Cons l ls)
  show ?case
  proof (cases "longOptName l")
    case None
    then show ?thesis by simp
  next
    case (Some s)
    then have s: "has_nul s" "table_ok ls" using Cons(2) by simp_all
    obtain r where r: "c_strncmp s xs n = Some r" "r = 0 \<longleftrightarrow> take n (cstr s) = take n (cstr xs)"
      using strncmp_take [OF s(1) assms(1)] by blast
    have "c_strlen s = Some (length (cstr s))" using s(1) by (simp add: c_strlen_eq)
    moreover have "cstr s = take n (cstr xs) \<longleftrightarrow> r = 0 \<and> length (cstr s) = n" using r(2) assms(2) by auto
    ultimately show ?thesis using Cons(1) [OF s(2), of "k + 1"] Some r(1) by auto
  qed
qed simp

lemma before_found: "x \<in> set w \<Longrightarrow> length (takeWhile (\<lambda>y. y \<noteq> x) w) < length w"
  by (induction w) auto

lemma find_equal:
  assumes "has_nul xs"
  defines "w \<equiv> cstr xs"
  shows "c_strchr xs 0x3D = Some (if 0x3D \<in> set w then Some (length (takeWhile (\<lambda>x. x \<noteq> 0x3D) w)) else None)"
proof -
  define n where "n = length (takeWhile (\<lambda>x. x \<noteq> 0x3D) w)"
  have at: "xs ! i = w ! i" if "i < length w" for i using that by (simp add: w_def cstr_nth)
  have z: "xs ! length w = 0" using has_nul_nth [OF assms(1)] by (simp add: w_def)
  have "first_index (\<lambda>i. xs ! i = 0x3D) (Suc (length w)) = (if 0x3D \<in> set w then Some n else None)"
  proof (cases "0x3D \<in> set w")
    case True
    then have n: "n < length w" unfolding n_def by (rule before_found)
    then have "w ! n = 0x3D" using nth_length_takeWhile [of "\<lambda>x. x \<noteq> 0x3D" w] by (simp add: n_def)
    moreover have "w ! i \<noteq> 0x3D" if "i < n" for i
      using nth_mem [of i "takeWhile (\<lambda>x. x \<noteq> 0x3D) w"] that
      by (auto simp: n_def takeWhile_nth dest: set_takeWhileD)
    ultimately show ?thesis using True n at by (simp add: first_index_eq_Some)
  next
    case False
    have "xs ! i \<noteq> 0x3D" if "i < Suc (length w)" for i
      using that False at z by (cases "i = length w") (auto simp: in_set_conv_nth)
    then show ?thesis using False by (simp add: first_index_eq_None)
  qed
  then show ?thesis using assms(1) by (simp add: c_strchr_def c_strlen_eq w_def n_def)
qed

text \<open>What a call leaves: its token and the rest\<close>

definition gives :: "(PLOptStatus \<times> PLOptState) exec \<Rightarrow> token \<Rightarrow> token list \<Rightarrow> bool" where
  "gives result t ts \<longleftrightarrow>
     (\<exists>r opt. result = Some (r, opt) \<and> r \<noteq> PL_OPT_EOL \<and> token_of r opt = t \<and> consistent (internal opt) \<and> rest_tokens (internal opt) = ts)"

lemma after_argument:
  assumes "consistent p" "xargv q = static_Nul" "argc q = argc p" "argv q = argv p" "options q = options p" "optionsLen q = optionsLen p"
    "longOpts q = longOpts p" "endOfOpts q = endOfOpts p"
  shows "consistent q" "rest_tokens q = parser p (endOfOpts p) [] (to_come q)"
  using assms by (auto simp: consistent_def rest_tokens_def cluster_def parser_def)

lemma string_at_arg:
  "xargc p + 1 < length (argv p) \<Longrightarrow> to_come p = cstr (argv p ! (xargc p + 1)) # to_come (p\<lparr>xargc := xargc p + 1\<rparr>)"
  using Cons_nth_drop_Suc [of "xargc p + 1" "map cstr (argv p)"] by (simp add: to_come_def)

lemma long_option_gives:
  assumes "consistent (internal opt)" "xargv (internal opt) = In_arg i j" "minus (internal opt) = 2" "longOptIndex opt = -1"
    "long_token (table (the (longOpts (internal opt)))) (cluster (internal opt)) (to_come (internal opt)) = (t, as)"
  shows "gives (long_option opt i j) t (parser (internal opt) (endOfOpts (internal opt)) [] as)"
proof -
  define p where "p = internal opt"
  have C: "list_all has_nul (argv p)" "i < length (argv p)" "j \<le> nul (argv p ! i)" "argc p = int (length (argv p))"
    and "longOpts p \<noteq> None"
    using assms(1-3) by (auto simp: consistent_def p_def)
  then obtain ls where ls: "longOpts p = Some ls" "table_ok ls" using assms(1) by (auto simp: consistent_def p_def)
  define xs w where "xs = drop j (argv p ! i)" and "w = cluster p"
  have h: "has_nul (argv p ! i)" using C by (simp add: list_all_length)
  have xs: "has_nul xs" "cstr xs = w"
    using has_nul_drop [OF h] cstr_drop C(3) assms(2) by (simp_all add: xs_def w_def cluster_def p_def nul_def)
  define name where "name = takeWhile (\<lambda>x. x \<noteq> 0x3D) w"
  have n: "name = take (length name) w" "length name \<le> length w"
    unfolding name_def by (rule takeWhile_eq_take, rule length_takeWhile_le)
  have EQ: "c_strchr xs 0x3D = Some (if name = w then None else Some (length name))"
    using find_equal [OF xs(1)] xs(2) by (auto simp: name_def takeWhile_eq_all_conv)
  have len: "(case (if name = w then None else Some (length name)) of None \<Rightarrow> c_strlen xs | Some k \<Rightarrow> Some k) = Some (length name)"
    using xs by (simp add: c_strlen_eq)
  obtain m where m: "find_long ls 0 xs (length name) = Some m"
    "lookup_long 0 name (table ls) = map_option (\<lambda>(k, l). (k, longOption' l, valueRequired l)) m"
    using find_long_eq [of xs "length name" ls 0] xs n ls(2) by auto
  define opt1 where "opt1 = opt\<lparr>option := 0, value := None\<rparr>"
  define eq where "eq = (if name = w then None else Some (length name))"
  have run: "long_option opt i j = Some (let (r, opt) = long_match opt1 i j eq m in (r, opt\<lparr>internal := (internal opt)\<lparr>xargv := static_Nul\<rparr>\<rparr>))"
    using C(2) ls(1) m(1) EQ len
    by (simp add: long_option_def opt1_def rd_ok p_def [symmetric] xs_def [symmetric] eq_def [symmetric] Let_def cong: option.case_cong split: prod.splits)
  have T: "long_token (table ls) w (to_come p) = (t, as)" using assms(5) ls by (simp add: p_def w_def)
  have P: "internal opt1 = p" "option opt1 = 0" "value opt1 = None" by (simp_all add: opt1_def p_def)
  have "consistent p" using assms(1) by (simp add: p_def)
  note A = after_argument [OF this]
  have Q: "consistent (p\<lparr>xargv := static_Nul\<rparr>)" "consistent (p\<lparr>xargc := n, xargv := static_Nul\<rparr>)"
    "rest_tokens (p\<lparr>xargv := static_Nul\<rparr>) = parser p (endOfOpts p) [] (to_come p)"
    "rest_tokens (p\<lparr>xargc := n, xargv := static_Nul\<rparr>) = parser p (endOfOpts p) [] (drop (n + 1) (map cstr (argv p)))" for n
    using A [of "p\<lparr>xargv := static_Nul\<rparr>"] A [of "p\<lparr>xargc := n, xargv := static_Nul\<rparr>"] by (simp_all add: to_come_def)
  show ?thesis
  proof (cases m)
    case None
    then have "t = Bad" "as = to_come p" using T m(2) by (simp_all add: long_token_def name_def)
    then show ?thesis using run P Q None by (simp add: gives_def long_match_def token_of_def p_def)
  next
    case (Some kl)
    then obtain k l where kl: "m = Some (k, l)" by (cases kl) auto
    then have lk: "lookup_long 0 name (table ls) = Some (k, longOption' l, valueRequired l)" using m(2) by simp
    show ?thesis
    proof (cases "name = w")
      case False
      have "length name < length w" using n False by (metis le_neq_implies_less take_all_iff order_refl)
      then have "cstr (drop (j + length name + 1) (argv p ! i)) = drop (length name + 1) w"
        using cstr_drop [of "length name + 1" xs] xs(2) by (simp add: xs_def add.commute add.left_commute)
      then have "t = Long k (longOption' l) (Some (cstr (drop (j + length name + 1) (argv p ! i))))" "as = to_come p"
        using T lk False by (auto simp: long_token_def name_def [symmetric] Let_def)
      then show ?thesis using run P Q kl False
        by (simp add: gives_def long_match_def token_of_def p_def [symmetric] eq_def string_at_def)
    next
      case True
      show ?thesis
      proof (cases "valueRequired l")
        case False
        then have "t = Long k (longOption' l) None" "as = to_come p"
          using T lk True by (auto simp: long_token_def name_def [symmetric] Let_def)
        then show ?thesis using run P Q kl False True
          by (simp add: gives_def long_match_def token_of_def p_def [symmetric] eq_def string_at_def)
      next
        case need: True
        have L: "long_token (table ls) w (to_come p) =
            (case to_come p of [] \<Rightarrow> (Bad, []) | a # as \<Rightarrow> (Long k (longOption' l) (Some a), as))"
          using lk True need by (simp add: long_token_def name_def [symmetric] Let_def)
        show ?thesis
        proof (cases "xargc p + 1 < length (argv p)")
          case more: True
          then have "t = Long k (longOption' l) (Some (cstr (argv p ! (xargc p + 1))))" "as = to_come (p\<lparr>xargc := xargc p + 1\<rparr>)"
            using T L string_at_arg [OF more] by simp_all
          then show ?thesis using run P Q kl True need more C(4)
            by (simp add: gives_def long_match_def token_of_def p_def [symmetric] eq_def string_at_def to_come_def)
        next
          case False
          then have "to_come p = []" by (simp add: to_come_def)
          then have "t = Bad" "as = to_come p" using T L by simp_all
          then show ?thesis using run P Q kl True need False C(4)
            by (simp add: gives_def long_match_def token_of_def p_def [symmetric] eq_def)
        qed
      qed
    qed
  qed
qed

lemma find_short_eq:
  assumes "has_nul chars"
  shows "cop + n = length (cstr chars) \<Longrightarrow> \<exists>m. find_short chars c cop n = Some m \<and>
    takes_value (drop cop (cstr chars)) c = map_option (\<lambda>k. chars ! (k + 1) = 0x3A) m \<and>
    (\<forall>k. m = Some k \<longrightarrow> k < length (cstr chars))"
proof (induction n arbitrary: cop)
  case (Suc n)
  then have cop: "cop < length (cstr chars)" by simp
  then have l: "cop + 1 < length chars" using has_nul_length [OF assms] by simp
  have d: "drop cop (cstr chars) = chars ! cop # drop (cop + 1) (cstr chars)"
    using cop by (simp add: Cons_nth_drop_Suc [symmetric] cstr_nth)
  have colon: "(\<exists>ys. drop (cop + 1) (cstr chars) = 0x3A # ys) \<longleftrightarrow> chars ! (cop + 1) = 0x3A"
  proof (cases "cop + 1 < length (cstr chars)")
    case True
    then have "drop (cop + 1) (cstr chars) = chars ! (cop + 1) # drop (cop + 2) (cstr chars)"
      using Cons_nth_drop_Suc [of "cop + 1" "cstr chars"] by (simp add: cstr_nth)
    then show ?thesis by simp
  next
    case False
    then have "cop + 1 = length (cstr chars)" using cop by simp
    then show ?thesis using has_nul_nth [OF assms] by simp
  qed
  have rd: "rd chars cop = Some (chars ! cop)" using l by (simp add: rd_ok)
  show ?case
  proof (cases "chars ! cop = c")
    case True
    then show ?thesis using d rd cop colon by simp
  next
    case False
    then show ?thesis using Suc(1) [of "cop + 1"] Suc(2) d rd by simp
  qed
qed simp

lemma short_option_gives:
  assumes "consistent (internal opt)" "xargv (internal opt) = In_arg i j" "minus (internal opt) = 1" "longOptIndex opt = -1"
    "cluster (internal opt) = c # cs"
    "short_token (cstr (snd (the (options (internal opt))))) c cs (to_come (internal opt)) = (t, cs', as)"
  shows "gives (short_option opt i j) t (parser (internal opt) (endOfOpts (internal opt)) cs' as)"
proof -
  define p where "p = internal opt"
  have con: "consistent p" using assms(1) by (simp add: p_def)
  have C: "list_all has_nul (argv p)" "i < length (argv p)" "j \<le> nul (argv p ! i)" "argc p = int (length (argv p))" "i = xargc p"
    and cl: "cluster p = c # cs" "drop j (cstr (argv p ! i)) = c # cs"
    using assms(1-3,5) by (auto simp: consistent_def p_def cluster_def)
  obtain a chars where ch: "options p = Some (a, chars)" "has_nul chars" "optionsLen p = length (cstr chars)"
    using con by (auto simp: consistent_def)
  note A = arg_at_eq [OF C(1-3)]
  have h: "has_nul (argv p ! i)" using C by (simp add: list_all_length)
  have c: "arg_at p i j = Some c" "c \<noteq> 0" "cs = drop (j + 1) (cstr (argv p ! i))"
    using A cl(2) by (cases "argv p ! i ! j = 0", simp_all)
  have j1: "j + 1 \<le> nul (argv p ! i)" using cl(2) C(3) by (cases "j = nul (argv p ! i)") (simp_all add: nul_def)
  have d: "arg_at p i (j + 1) = Some (argv p ! i ! (j + 1))" "argv p ! i ! (j + 1) = 0 \<longleftrightarrow> cs = []"
    using arg_at_eq [OF C(1,2) j1] c(3) by simp_all
  obtain m where m: "find_short chars c 0 (optionsLen p) = Some m"
    "takes_value (cstr chars) c = map_option (\<lambda>k. chars ! (k + 1) = 0x3A) m" "\<forall>k. m = Some k \<longrightarrow> k < length (cstr chars)"
    using find_short_eq [OF ch(2), of 0 "optionsLen p" c] ch(3) by auto
  define p1 where "p1 = p\<lparr>xargv := In_arg i (j + 1)\<rparr>"
  have con1: "consistent p1" using con j1 C(2,5) assms(2,3) by (simp add: consistent_def p1_def cluster_def p_def)
  have rest1: "rest_tokens p1 = parser p (endOfOpts p) cs (to_come p)"
    using assms(3) c(3) by (simp add: rest_tokens_def p1_def cluster_def parser_def to_come_def p_def)
  have T: "short_token (cstr chars) c cs (to_come p) = (t, cs', as)" using assms(6) ch(1) by (simp add: p_def)
  show ?thesis
  proof (cases m)
    case None
    then have "t = Bad" "cs' = cs" "as = to_come p" using T m(2) by (simp_all add: short_token_def)
    moreover have "short_option opt i j = Some (PL_OPT_BAD, opt\<lparr>internal := p1\<rparr>)"
      using ch c m(1) None by (simp add: short_option_def p_def [symmetric] p1_def)
    ultimately show ?thesis using con1 rest1 by (simp add: gives_def token_of_def p_def)
  next
    case (Some k)
    define opt1 where "opt1 = opt\<lparr>internal := p1, option := c, longOption := uint c\<rparr>"
    have "k + 1 < length chars" using m(3) Some has_nul_length [OF ch(2)] by simp
    then have run: "short_option opt i j =
        (if chars ! (k + 1) = 0x3A then short_value opt1 i (j + 1) else Some (PL_OPT_OK, opt1\<lparr>value := None\<rparr>))"
      using ch c(1) m(1) Some by (simp add: short_option_def p_def [symmetric] p1_def opt1_def rd_ok Let_def)
    have f: "internal opt1 = p1" "option opt1 = c" "longOption opt1 = uint c" "longOptIndex opt1 = -1" "argv p1 = argv p"
      "xargc p1 = xargc p" "argc p1 = argc p" "to_come p1 = to_come p" "parser p1 = parser p" "endOfOpts p1 = endOfOpts p"
      using assms(4) by (simp_all add: opt1_def p1_def to_come_def parser_def)
    show ?thesis
    proof (cases "chars ! (k + 1) = 0x3A")
      case False
      then have "t = Short c (uint c) None" "cs' = cs" "as = to_come p" using T m(2) Some by (simp_all add: short_token_def)
      then show ?thesis using run False f con1 rest1 c(2) by (simp add: gives_def token_of_def string_at_def p_def [symmetric])
    next
      case True
      have d1: "arg_at p1 i (j + 1) = arg_at p i (j + 1)" by (simp add: arg_at_def p1_def)
      have S: "short_token (cstr chars) c cs (to_come p) = (if cs \<noteq> [] then (Short c (uint c) (Some cs), [], to_come p)
          else case to_come p of [] \<Rightarrow> (Bad, [], []) | a # as \<Rightarrow> (Short c (uint c) (Some a), [], as))"
        using m(2) Some True by (simp add: short_token_def)
      note B = after_argument [OF con1]
      show ?thesis
      proof (cases "cs = []")
        case False
        then have "t = Short c (uint c) (Some cs)" "cs' = []" "as = to_come p" using T S by simp_all
        moreover have "cstr (drop (j + 1) (argv p ! i)) = cs" using cstr_drop j1 c(3) by (simp add: nul_def)
        ultimately show ?thesis
          using run True False d d1 f c(2) B [of "p1\<lparr>xargv := static_Nul, minus := 0\<rparr>"]
          by (simp add: short_value_def gives_def token_of_def string_at_def p_def [symmetric] to_come_def)
      next
        case nil: True
        show ?thesis
        proof (cases "xargc p + 1 < length (argv p)")
          case more: True
          then have "t = Short c (uint c) (Some (cstr (argv p ! (xargc p + 1))))" "cs' = []" "as = to_come (p\<lparr>xargc := xargc p + 1\<rparr>)"
            using T S nil string_at_arg [OF more] by simp_all
          then show ?thesis
            using run True nil d d1 f c(2) more C(4) B [of "p1\<lparr>xargc := xargc p + 1, xargv := static_Nul, minus := 0\<rparr>"]
            by (simp add: short_value_def gives_def token_of_def string_at_def p_def [symmetric] to_come_def)
        next
          case False
          then have "to_come p = []" by (simp add: to_come_def)
          then have "t = Bad" "cs' = []" "as = []" using T S nil by simp_all
          then show ?thesis using run True nil d d1 f False C(4) con1 rest1 \<open>to_come p = []\<close>
            by (simp add: short_value_def gives_def token_of_def p_def [symmetric])
        qed
      qed
    qed
  qed
qed

theorem next_opt_gives:
  assumes "consistent (internal opt)"
  shows "rest_tokens (internal opt) = [] \<Longrightarrow>
      \<exists>opt'. PL_GetNextOpt opt = Some (PL_OPT_EOL, opt') \<and> consistent (internal opt') \<and> rest_tokens (internal opt') = [] \<and>
        option opt' = 0 \<and> value opt' = None"
    and "rest_tokens (internal opt) = t # ts \<Longrightarrow> gives (PL_GetNextOpt opt) t ts"
proof -
  obtain found q where q: "to_next_arg (internal opt) = Some (found, q)" "consistent q" "rest_tokens q = rest_tokens (internal opt)"
    "found \<longleftrightarrow> cluster q \<noteq> []" "\<not> found \<longrightarrow> rest_tokens (internal opt) = []"
    using to_next_arg_tokens [OF assms] by blast
  define opt1 where "opt1 = opt\<lparr>longOption := 0, longOptIndex := -1, internal := q\<rparr>"
  have run: "PL_GetNextOpt opt =
    (if \<not> found then Some (PL_OPT_EOL, opt1\<lparr>option := 0, value := None\<rparr>)
     else case xargv q of static_Nul \<Rightarrow> None | In_arg i j \<Rightarrow>
       if minus q = 2 then long_option opt1 i j
       else if minus q \<noteq> 0 then short_option opt1 i j
       else Some (PL_OPT_OK, opt1\<lparr>value := Some (xargc q, 0), internal := q\<lparr>xargv := static_Nul\<rparr>, option := 0\<rparr>))"
    unfolding opt1_def using q(1) by (simp add: PL_GetNextOpt_def Let_def)
  have f: "internal opt1 = q" "longOptIndex opt1 = -1" by (simp_all add: opt1_def)
  show "\<exists>opt'. PL_GetNextOpt opt = Some (PL_OPT_EOL, opt') \<and> consistent (internal opt') \<and> rest_tokens (internal opt') = [] \<and>
        option opt' = 0 \<and> value opt' = None"
    if "rest_tokens (internal opt) = []"
  proof -
    have "rest_tokens q \<noteq> []" if "cluster q \<noteq> []"
      using that by (cases "cluster q") (auto simp: rest_tokens_def parser_def Let_def split: prod.splits)
    then have "\<not> found" using that q(3,4) by auto
    then show ?thesis using run q f that by simp
  qed
  show "gives (PL_GetNextOpt opt) t ts" if rt: "rest_tokens (internal opt) = t # ts"
  proof -
    have found: "found" using q(5) rt by auto
    then obtain i j where ij: "xargv q = In_arg i j" using q(4) by (cases "xargv q") (auto simp: cluster_def)
    have m: "minus q \<le> 2" "i = xargc q" "minus q = 0 \<Longrightarrow> j = 0" using q(2,4) found ij by (auto simp: consistent_def)
    consider "minus q = 2" | "minus q = 1" | "minus q = 0" using m(1) by linarith
    then show ?thesis
    proof cases
      case 1
      obtain x as where x: "long_token (table (the (longOpts q))) (cluster q) (to_come q) = (x, as)" by fastforce
      then have "t = x" "ts = parser q (endOfOpts q) [] as" using 1 rt q(3,4) found by (simp_all add: rest_tokens_def)
      then show ?thesis using long_option_gives [of opt1 i j x as] f q(2) ij 1 x run found by simp
    next
      case 2
      obtain c cs where cl: "cluster q = c # cs" using q(4) found by (cases "cluster q") auto
      obtain x cs' as where x: "short_token (cstr (snd (the (options q)))) c cs (to_come q) = (x, cs', as)" by (metis prod_cases3)
      then have "t = x" "ts = parser q (endOfOpts q) cs' as" using 2 rt q(3) cl by (simp_all add: rest_tokens_def parser_def)
      then show ?thesis using short_option_gives [of opt1 i j c cs x cs' as] f q(2) ij 2 x run found cl by simp
    next
      case 3
      have "t = Positional (cluster q)" "ts = parser q (endOfOpts q) [] (to_come q)"
        using 3 rt q(3,4) found by (simp_all add: rest_tokens_def)
      then show ?thesis
        using 3 run found ij m f after_argument [OF q(2), of "q\<lparr>xargv := static_Nul\<rparr>"]
        by (simp add: gives_def token_of_def string_at_def cluster_def to_come_def)
    qed
  qed
qed

section \<open>Reading all options\<close>

text \<open>A caller that asks until the end is reported, with at most \<open>n\<close> calls\<close>

fun all_options :: "('s \<Rightarrow> (PLOptStatus \<times> 's) exec) \<Rightarrow> (PLOptStatus \<Rightarrow> 's \<Rightarrow> 'a) \<Rightarrow> nat \<Rightarrow> 's \<Rightarrow> ('a list \<times> 's) exec" where
  "all_options step tok 0 s = None"
| "all_options step tok (Suc n) s =
     do { (r, s) \<leftarrow> step s;
          if r = PL_OPT_EOL then Some ([], s)
          else do { (ts, s') \<leftarrow> all_options step tok n s; Some (tok r s # ts, s') } }"

text \<open>What such a caller relies on: a source that has a list of tokens left and hands out one after the other\<close>

locale token_source =
  fixes step :: "'s \<Rightarrow> (PLOptStatus \<times> 's) exec" and tok :: "PLOptStatus \<Rightarrow> 's \<Rightarrow> 'a"
    and good :: "'s \<Rightarrow> bool" and left :: "'s \<Rightarrow> 'a list"
  assumes at_end: "good s \<Longrightarrow> left s = [] \<Longrightarrow> \<exists>s'. step s = Some (PL_OPT_EOL, s') \<and> good s' \<and> left s' = []"
    and at_token: "good s \<Longrightarrow> left s = t # ts \<Longrightarrow>
      \<exists>r s'. step s = Some (r, s') \<and> r \<noteq> PL_OPT_EOL \<and> tok r s' = t \<and> good s' \<and> left s' = ts"
begin

lemma reads_all:
  "good s \<Longrightarrow> length (left s) < n \<Longrightarrow> \<exists>s'. all_options step tok n s = Some (left s, s') \<and> good s' \<and> left s' = []"
proof (induction n arbitrary: s)
  case (Suc n)
  show ?case
  proof (cases "left s")
    case Nil
    then show ?thesis using at_end [OF Suc(2)] by auto
  next
    case (Cons t ts)
    then obtain r s1 where s1: "step s = Some (r, s1)" "r \<noteq> PL_OPT_EOL" "tok r s1 = t" "good s1" "left s1 = ts"
      using at_token [OF Suc(2)] by blast
    then show ?thesis using Suc(1) [OF s1(4)] Suc(3) Cons by auto
  qed
qed simp

lemma too_few: "good s \<Longrightarrow> n \<le> length (left s) \<Longrightarrow> all_options step tok n s = None"
proof (induction n arbitrary: s)
  case (Suc n)
  then obtain t ts where "left s = t # ts" by (cases "left s") auto
  then obtain r s1 where "step s = Some (r, s1)" "r \<noteq> PL_OPT_EOL" "good s1" "left s1 = ts"
    using at_token [OF Suc(2)] by blast
  then show ?case using Suc(1) [of s1] Suc(3) \<open>left s = t # ts\<close> by simp
qed simp

end

interpretation getopt: token_source PL_GetNextOpt token_of "\<lambda>opt. consistent (internal opt)" "\<lambda>opt. rest_tokens (internal opt)"
proof unfold_locales
  fix opt :: PLOptState and t ts
  assume c: "consistent (internal opt)"
  show "rest_tokens (internal opt) = [] \<Longrightarrow> \<exists>opt'. PL_GetNextOpt opt = Some (PL_OPT_EOL, opt') \<and>
      consistent (internal opt') \<and> rest_tokens (internal opt') = []"
    using next_opt_gives(1) [OF c] by blast
  show "rest_tokens (internal opt) = t # ts \<Longrightarrow> \<exists>r opt'. PL_GetNextOpt opt = Some (r, opt') \<and> r \<noteq> PL_OPT_EOL \<and>
      token_of r opt' = t \<and> consistent (internal opt') \<and> rest_tokens (internal opt') = ts"
    using next_opt_gives(2) [OF c] by (simp add: gives_def)
qed

lemma parse_args_length: "length (parse_args os tb e cs as) \<le> length cs + sum_list (map length as)"
proof (induction os tb e cs as rule: parse_args.induct)
  case (1 os tb e c cs as)
  obtain t cs' as' where s: "short_token os c cs as = (t, cs', as')" by (metis prod_cases3)
  then show ?case using 1 [OF s [symmetric] refl] short_token_shorter [OF s] by simp
next
  case (3 os tb e a as)
  obtain x as' where L: "long_token (the tb) (tl (tl a)) as = (x, as')" by fastforce
  show ?case
  proof (cases "a \<noteq> [] \<and> \<not> e \<and> hd a = 0x2D \<and> (\<exists>t. tb = Some t) \<and> tl a \<noteq> [] \<and> hd (tl a) = 0x2D \<and> tl (tl a) \<noteq> []")
    case True
    then obtain t where t: "tb = Some t" by blast
    then have "length (parse_args os tb e [] as') \<le> sum_list (map length as')" using 3(6) [of t _ x as'] True L by simp
    then show ?thesis using True t L long_token_shorter [OF L] by (cases a) auto
  next
    case False
    then show ?thesis using 3(1-5) by (cases a) (auto split: option.splits)
  qed
qed simp

lemma all_options_more:
  "all_options step tok m s = Some r \<Longrightarrow> m \<le> n \<Longrightarrow> all_options step tok n s = Some r"
proof (induction m arbitrary: n s r)
  case (Suc m)
  then obtain k where k: "n = Suc k" "m \<le> k" by (cases n) auto
  obtain q s1 where q: "step s = Some (q, s1)" using Suc(2) by (cases "step s") auto
  show ?case
  proof (cases "q = PL_OPT_EOL")
    case True
    then show ?thesis using Suc(2) k q by simp
  next
    case False
    then obtain ts s2 where "all_options step tok m s1 = Some (ts, s2)" "r = (tok q s1 # ts, s2)"
      using Suc(2) q by (cases "all_options step tok m s1") auto
    then show ?thesis using Suc(1) [of s1 "(ts, s2)" k] k q False by simp
  qed
qed simp

lemma created:
  assumes "list_all has_nul args" "has_nul chars" "length (cstr chars) < 2147483648" "\<forall>t. longs = Some t \<longrightarrow> table_ok t"
  shows "\<exists>opt. PL_CreateLongOptState True True (int (length args)) args (Some (a, chars)) longs live = Some (Inr opt, live + 2) \<and>
    consistent (internal opt) \<and> rest_tokens (internal opt) = parse_args (cstr chars) (map_option table longs) False [] (tl (map cstr args))"
proof -
  define p where "p = \<lparr>options = Some (a, chars), argc = int (length args), argv = args, xargc = 0, xargv = static_Nul, minus = 0,
    longOpts = longs, endOfOpts = False, optionsLen = length (cstr chars)\<rparr>"
  define opt where "opt = \<lparr>option = 0, value = None, internal = p, longOption = 0, longOptIndex = -1\<rparr>"
  have "unat (word_of_nat (length (cstr chars)) :: u32) = length (cstr chars)"
    using assms(3) by (intro unat_word_of_nat_u32) simp
  then have "PL_CreateLongOptState True True (int (length args)) args (Some (a, chars)) longs live = Some (Inr opt, live + 2)"
    using assms(2,3) by (simp add: PL_CreateLongOptState_def PL_strlen_def c_strlen_eq opt_def p_def)
  moreover have "consistent p" using assms by (simp add: consistent_def p_def)
  moreover have "rest_tokens p = parse_args (cstr chars) (map_option table longs) False [] (tl (map cstr args))"
    by (simp add: rest_tokens_def p_def cluster_def parser_def to_come_def drop_Suc)
  moreover have "internal opt = p" by (simp add: opt_def)
  ultimately show ?thesis by auto
qed

section \<open>Properties\<close>

text \<open>C30: \<open>PL_GetNextOpt\<close> implements the parser of argument lists. For every \<open>argv\<close> of terminated strings, every option string and
  every table of long options, creation succeeds if memory is found, and a caller that asks until the end is reported gets exactly
  the tokens of \<open>parse_args\<close>, in order: clusters of single characters, values attached or in the next argument, long options with or
  without \<open>=\<close>, positional arguments, the effect of \<open>--\<close>, and each bad option reported once. No call reads outside
  an argument or the table, and \<open>PL_DestroyOptState\<close> then frees both blocks.\<close>

theorem getopt_refines_parser:
  assumes "list_all has_nul args" "has_nul chars" "length (cstr chars) < 2147483648" "\<forall>t. longs = Some t \<longrightarrow> table_ok t"
  shows "\<exists>opt opt'. PL_CreateLongOptState True True (int (length args)) args (Some (a, chars)) longs live = Some (Inr opt, live + 2) \<and>
    (\<forall>n > length (parse_args (cstr chars) (map_option table longs) False [] (tl (map cstr args))).
      all_options PL_GetNextOpt token_of n opt =
        Some (parse_args (cstr chars) (map_option table longs) False [] (tl (map cstr args)), opt')) \<and>
    PL_DestroyOptState opt' (live + 2) = Some live"
proof -
  obtain opt where opt: "PL_CreateLongOptState True True (int (length args)) args (Some (a, chars)) longs live = Some (Inr opt, live + 2)"
    "consistent (internal opt)" "rest_tokens (internal opt) = parse_args (cstr chars) (map_option table longs) False [] (tl (map cstr args))"
    using created [OF assms] by blast
  define ts where "ts = parse_args (cstr chars) (map_option table longs) False [] (tl (map cstr args))"
  obtain opt' where o': "all_options PL_GetNextOpt token_of (Suc (length ts)) opt = Some (ts, opt')"
    using getopt.reads_all [OF opt(2), of "Suc (length ts)"] opt(3) by (auto simp: ts_def)
  have "all_options PL_GetNextOpt token_of n opt = Some (ts, opt')" if "length ts < n" for n
    using all_options_more [OF o', of n] that by simp
  then show ?thesis using opt(1) by (auto simp: PL_DestroyOptState_def ts_def)
qed

theorem getopt_refines_parser_witness:
  "\<exists>opt opt'. PL_CreateLongOptState True True 2 [[0x61, 0], [0x2D, 0x76, 0]] (Some (0, [0x76, 0])) None 0 = Some (Inr opt, 2) \<and>
    all_options PL_GetNextOpt token_of 2 opt = Some ([Short 0x76 0x76 None], opt')"
proof -
  have "parse_args [0x76] None False [] [[0x2D, 0x76]] = [Short 0x76 0x76 None]"
    by (simp add: short_token_def)
  then show ?thesis
    using getopt_refines_parser [of "[[0x61, 0], [0x2D, 0x76, 0]]" "[0x76, 0]" None 0 0] by (auto simp: has_nul_def)
qed

text \<open>C31: Reading the options ends. For every command line the calls report at most one token per character of the arguments, then
  \<open>PL_OPT_EOL\<close>, and go on reporting \<open>PL_OPT_EOL\<close> if asked again; no smaller number of calls than there are tokens
  reaches the end.\<close>

theorem getopt_ends:
  assumes "list_all has_nul args" "has_nul chars" "length (cstr chars) < 2147483648" "\<forall>t. longs = Some t \<longrightarrow> table_ok t"
  shows "\<exists>opt opt' ts. PL_CreateLongOptState True True (int (length args)) args (Some (a, chars)) longs live = Some (Inr opt, live + 2) \<and>
    all_options PL_GetNextOpt token_of (Suc (sum_list (map (\<lambda>s. length (cstr s)) (tl args)))) opt = Some (ts, opt') \<and>
    all_options PL_GetNextOpt token_of (length ts) opt = None \<and>
    (\<exists>opt''. PL_GetNextOpt opt' = Some (PL_OPT_EOL, opt'') \<and> option opt'' = 0 \<and> value opt'' = None)"
proof -
  obtain opt where opt: "PL_CreateLongOptState True True (int (length args)) args (Some (a, chars)) longs live = Some (Inr opt, live + 2)"
    "consistent (internal opt)" "rest_tokens (internal opt) = parse_args (cstr chars) (map_option table longs) False [] (tl (map cstr args))"
    using created [OF assms] by blast
  define ts where "ts = parse_args (cstr chars) (map_option table longs) False [] (tl (map cstr args))"
  have "length ts \<le> sum_list (map (\<lambda>s. length (cstr s)) (tl args))"
    using parse_args_length [of "cstr chars" "map_option table longs" False "[]" "tl (map cstr args)"] by (simp add: ts_def map_tl comp_def)
  then have "length (rest_tokens (internal opt)) < Suc (sum_list (map (\<lambda>s. length (cstr s)) (tl args)))"
    using opt(3) by (simp add: ts_def)
  from getopt.reads_all [OF opt(2) this] obtain opt'
    where o': "all_options PL_GetNextOpt token_of (Suc (sum_list (map (\<lambda>s. length (cstr s)) (tl args)))) opt = Some (ts, opt')"
      "consistent (internal opt')" "rest_tokens (internal opt') = []"
    using opt(3) by (auto simp: ts_def)
  moreover have "all_options PL_GetNextOpt token_of (length ts) opt = None"
    using getopt.too_few [OF opt(2), of "length ts"] opt(3) by (simp add: ts_def)
  moreover have "\<exists>opt''. PL_GetNextOpt opt' = Some (PL_OPT_EOL, opt'') \<and> option opt'' = 0 \<and> value opt'' = None"
    using next_opt_gives(1) [OF o'(2,3)] by blast
  ultimately show ?thesis using opt(1) by blast
qed

theorem getopt_ends_witness:
  "\<exists>opt opt' ts. PL_CreateLongOptState True True 2 [[0x61, 0], [0x2D, 0x76, 0x78, 0]] (Some (0, [0x76, 0])) None 0 = Some (Inr opt, 2) \<and>
    all_options PL_GetNextOpt token_of 4 opt = Some (ts, opt')"
proof -
  have "Suc (sum_list (map (\<lambda>s. length (cstr s)) (tl [[0x61, 0], [0x2D, 0x76, 0x78, 0]]))) = 4" by simp
  moreover have H: "list_all has_nul [[0x61, 0], [0x2D, 0x76, 0x78, 0]]" "has_nul [0x76, 0]" "length (cstr [0x76, 0]) < 2147483648"
    "\<forall>t. None = Some t \<longrightarrow> table_ok t" "int (length [[0x61, 0], [0x2D, 0x76, 0x78, 0 :: byte]]) = 2" "(0 :: nat) + 2 = 2"
    by (simp_all add: has_nul_def)
  ultimately show ?thesis
    using getopt_ends [OF H(1-4), of 0 0] unfolding H(5,6) by metis
qed

text \<open>What creation refuses and what parsing loses. A null option string and a failed allocation are errors that leave no block
  behind; but a colon in the option string is itself accepted as an option, and the positional arguments \<open>-\<close> and the empty
  string are skipped without being reported.\<close>

theorem getopt_limits:
  "PL_CreateOptState True True 1 [[0]] None 5 = Some (Inl PR_INVALID_ARGUMENT_ERROR, 5) \<and>
   PL_CreateOptState False True 1 [[0]] (Some (1, [0])) 5 = Some (Inl PR_OUT_OF_MEMORY_ERROR, 5) \<and>
   PL_CreateOptState True False 1 [[0]] (Some (1, [0])) 5 = Some (Inl PR_OUT_OF_MEMORY_ERROR, 5) \<and>
   (\<exists>opt opt'. PL_CreateOptState True True 4 [[0], [0x2D, 0], [0], [0x2D, 0x3A, 0]] (Some (1, [0x66, 0x3A, 0])) 0 = Some (Inr opt, 2) \<and>
     all_options PL_GetNextOpt token_of 2 opt = Some ([Short 0x3A 0x3A None], opt'))"
proof (intro conjI)
  have "parse_args [0x66, 0x3A] None False [] [[0x2D], [], [0x2D, 0x3A]] = [Short 0x3A 0x3A None]"
    by (simp add: short_token_def)
  moreover obtain opt where "PL_CreateLongOptState True True 4 [[0], [0x2D, 0], [0], [0x2D, 0x3A, 0]] (Some (1, [0x66, 0x3A, 0])) None 0 = Some (Inr opt, 2)"
    "consistent (internal opt)" "rest_tokens (internal opt) = parse_args [0x66, 0x3A] None False [] [[0x2D], [], [0x2D, 0x3A]]"
    using created [of "[[0], [0x2D, 0], [0], [0x2D, 0x3A, 0]]" "[0x66, 0x3A, 0]" None 1 0] by (auto simp: has_nul_def)
  ultimately show "\<exists>opt opt'. PL_CreateOptState True True 4 [[0], [0x2D, 0], [0], [0x2D, 0x3A, 0]] (Some (1, [0x66, 0x3A, 0])) 0 = Some (Inr opt, 2) \<and>
     all_options PL_GetNextOpt token_of 2 opt = Some ([Short 0x3A 0x3A None], opt')"
    using getopt.reads_all [of opt 2] by (auto simp: PL_CreateOptState_def)
qed (simp_all add: PL_CreateOptState_def PL_CreateLongOptState_def)

end
