(* ===== verification/Moz_Utf8.thy ===== *)
theory Moz_Utf8
  imports Moz_Prelude
begin

text \<open>
  The character conversions of NSS, \<open>src/security/nss/lib/util/utf8.c\<close>: between UTF-8 and UCS-4 or UTF-16 in
  network byte order, and from ISO 8859-1 to UTF-8.

  \<open>unsigned int\<close> variables are natural numbers to which \<open>wrap\<close> is applied when they grow. A conversion returns
  the C result, the output buffer and what \<open>*outBufLen\<close> holds; an access outside a buffer is undefined.
  \<open>PORT_Assert\<close> is not compiled. The loops are partial functions, because \<open>i\<close> may wrap around.
\<close>

definition wrap :: "nat \<Rightarrow> nat" where "wrap n = n mod 4294967296"

lemma wrap_id [simp]: "n < 4294967296 \<Longrightarrow> wrap n = n"
  by (simp add: wrap_def)

section \<open>Reading UTF-8\<close>

definition BAD_UTF8 :: u32 where "BAD_UTF8 = -1"

fun read_tail :: "buf \<Rightarrow> nat \<Rightarrow> nat \<Rightarrow> nat \<Rightarrow> u32 \<Rightarrow> (u32 \<times> nat) option exec" where
  "read_tail inBuf inBufLen 0 i result = Some (Some (result, i))"
| "read_tail inBuf inBufLen (Suc bytes_left) i result =
     (if i \<ge> inBufLen then Some None
      else do { b \<leftarrow> rd inBuf i;
                if b AND 0xC0 \<noteq> 0x80 then Some None
                else read_tail inBuf inBufLen bytes_left (wrap (i + 1)) (push_bit 6 result OR ucast (b AND 0x3F)) })"

text \<open>The first byte: the bits it gives, how many bytes follow, and the least number it may start\<close>

definition lead :: "byte \<Rightarrow> (u32 \<times> nat \<times> u32) option" where
  "lead b =
     (if b AND 0x80 = 0 then Some (ucast b, 0, 0)
      else if b AND 0xE0 = 0xC0 then Some (ucast (b AND 0x1F), 1, 0x80)
      else if b AND 0xF0 = 0xE0 then Some (ucast (b AND 0x0F), 2, 0x800)
      else if b AND 0xF8 = 0xF0 then Some (ucast (b AND 0x07), 3, 0x10000)
      else None)"

definition sec_port_read_utf8 :: "nat \<Rightarrow> buf \<Rightarrow> nat \<Rightarrow> (u32 \<times> nat) exec" where
  "sec_port_read_utf8 index inBuf inBufLen =
     do { b \<leftarrow> rd inBuf index;
          case lead b of
            None \<Rightarrow> Some (BAD_UTF8, index)
          | Some (result, bytes_left, min_value) \<Rightarrow>
              do { r \<leftarrow> read_tail inBuf inBufLen bytes_left (wrap (index + 1)) result;
                   case r of
                     None \<Rightarrow> Some (BAD_UTF8, index)
                   | Some (result, i) \<Rightarrow>
                       if result < min_value \<or> result AND 0xFFFFF800 = 0xD800 \<or> result > 0x10FFFF
                       then Some (BAD_UTF8, index)
                       else Some (result, i) } }"

section \<open>From UTF-8\<close>

text \<open>The first pass: the length of a sequence by its first byte, and the length of the output, where \<open>w k\<close> is what a
  sequence of \<open>k\<close> bytes takes.\<close>

definition seq_len :: "byte \<Rightarrow> nat option" where
  "seq_len b =
     (if b AND 0x80 = 0 then Some 1
      else if b AND 0xE0 = 0xC0 then Some 2
      else if b AND 0xF0 = 0xE0 then Some 3
      else if b AND 0xF8 = 0xF0 then Some 4
      else None)"

partial_function (option) utf8_count :: "(nat \<Rightarrow> nat) \<Rightarrow> buf \<Rightarrow> nat \<Rightarrow> nat \<Rightarrow> nat \<Rightarrow> nat option exec" where
  "utf8_count w inBuf inBufLen i len =
     (if i < inBufLen then
        do { b \<leftarrow> rd inBuf i;
             case seq_len b of
               None \<Rightarrow> Some None
             | Some k \<Rightarrow> utf8_count w inBuf inBufLen (wrap (i + k)) (wrap (len + w k)) }
      else Some (Some len))"

text \<open>The second pass\<close>

type_synonym put_fn = "buf \<Rightarrow> nat \<Rightarrow> u32 \<Rightarrow> (buf \<times> nat) exec"

partial_function (option) utf8_decode :: "put_fn \<Rightarrow> buf \<Rightarrow> nat \<Rightarrow> nat \<Rightarrow> buf \<Rightarrow> nat \<Rightarrow> (bool \<times> buf \<times> nat) exec" where
  "utf8_decode put inBuf inBufLen i outBuf len =
     (if i < inBufLen then
        do { (ucs4, i) \<leftarrow> sec_port_read_utf8 i inBuf inBufLen;
             if ucs4 = BAD_UTF8 then Some (False, outBuf, len)
             else do { (outBuf, len) \<leftarrow> put outBuf len ucs4; utf8_decode put inBuf inBufLen i outBuf len } }
      else Some (True, outBuf, len))"

definition from_utf8 :: "(nat \<Rightarrow> nat) \<Rightarrow> put_fn \<Rightarrow> buf \<Rightarrow> nat \<Rightarrow> buf \<Rightarrow> nat \<Rightarrow> nat \<Rightarrow> (bool \<times> buf \<times> nat) exec" where
  "from_utf8 w put inBuf inBufLen outBuf maxOutBufLen outBufLen =
     do { r \<leftarrow> utf8_count w inBuf inBufLen 0 0;
          case r of
            None \<Rightarrow> Some (False, outBuf, outBufLen)
          | Some len \<Rightarrow>
              if len > maxOutBufLen then Some (False, outBuf, len)
              else do { (ok, outBuf, len) \<leftarrow> utf8_decode put inBuf inBufLen 0 outBuf 0;
                        Some (ok, outBuf, if ok then len else outBufLen) } }"

definition put_ucs4 :: put_fn where
  "put_ucs4 outBuf len ucs4 =
     do { outBuf \<leftarrow> wr outBuf len 0;
          outBuf \<leftarrow> wr outBuf (len + 1) (ucast (drop_bit 16 ucs4));
          outBuf \<leftarrow> wr outBuf (len + 2) (ucast (drop_bit 8 ucs4));
          outBuf \<leftarrow> wr outBuf (len + 3) (ucast ucs4);
          Some (outBuf, wrap (len + 4)) }"

definition put_utf16 :: put_fn where
  "put_utf16 outBuf len ucs4 =
     (if ucs4 < 0x10000 then
        do { outBuf \<leftarrow> wr outBuf len (ucast (drop_bit 8 ucs4));
             outBuf \<leftarrow> wr outBuf (len + 1) (ucast ucs4);
             Some (outBuf, wrap (len + 2)) }
      else
        do { let ucs4 = ucs4 - 0x10000;
             outBuf \<leftarrow> wr outBuf len (ucast (0xD8 OR (drop_bit 18 ucs4 AND 0x3)));
             outBuf \<leftarrow> wr outBuf (len + 1) (ucast (drop_bit 10 ucs4));
             outBuf \<leftarrow> wr outBuf (len + 2) (ucast (0xDC OR (drop_bit 8 ucs4 AND 0x3)));
             outBuf \<leftarrow> wr outBuf (len + 3) (ucast ucs4);
             Some (outBuf, wrap (len + 4)) })"

section \<open>From UCS-4\<close>

partial_function (option) ucs4_count :: "buf \<Rightarrow> nat \<Rightarrow> nat \<Rightarrow> nat \<Rightarrow> nat option exec" where
  "ucs4_count inBuf inBufLen i len =
     (if i < inBufLen then
        do { b0 \<leftarrow> rd inBuf i;
             if b0 > 0 then Some None
             else do { b1 \<leftarrow> rd inBuf (i + 1);
                       if b1 > 0x10 then Some None
                       else do { k \<leftarrow> (if b1 \<ge> 1 then Some 4
                                      else do { b2 \<leftarrow> rd inBuf (i + 2);
                                                if b2 \<ge> 8 then Some 3
                                                else if b2 > 0 then Some 2
                                                else do { b3 \<leftarrow> rd inBuf (i + 3);
                                                          Some (if b3 \<ge> 0x80 then 2 else 1) } });
                                 ucs4_count inBuf inBufLen (wrap (i + 4)) (wrap (len + k)) } } }
      else Some (Some len))"

text \<open>One character: what the second pass stores for the bytes of a number\<close>

definition ucs4_bytes :: "byte \<Rightarrow> byte \<Rightarrow> byte \<Rightarrow> buf" where
  "ucs4_bytes b1 b2 b3 =
     (if b1 \<ge> 1 then
        [0xF0 OR drop_bit 2 (b1 AND 0x1C),
         0x80 OR push_bit 4 (b1 AND 0x03) OR drop_bit 4 (b2 AND 0xF0),
         0x80 OR push_bit 2 (b2 AND 0x0F) OR drop_bit 6 (b3 AND 0xC0),
         0x80 OR (b3 AND 0x3F)]
      else if b2 \<ge> 8 then
        [0xE0 OR drop_bit 4 (b2 AND 0xF0),
         0x80 OR push_bit 2 (b2 AND 0x0F) OR drop_bit 6 (b3 AND 0xC0),
         0x80 OR (b3 AND 0x3F)]
      else if b2 > 0 \<or> b3 \<ge> 0x80 then
        [0xC0 OR push_bit 2 (b2 AND 0x07) OR drop_bit 6 (b3 AND 0xC0),
         0x80 OR (b3 AND 0x3F)]
      else [b3 AND 0x7F])"

fun store :: "buf \<Rightarrow> nat \<Rightarrow> buf \<Rightarrow> buf exec" where
  "store outBuf len [] = Some outBuf"
| "store outBuf len (x # xs) = do { outBuf \<leftarrow> wr outBuf len x; store outBuf (len + 1) xs }"

partial_function (option) ucs4_encode :: "buf \<Rightarrow> nat \<Rightarrow> nat \<Rightarrow> buf \<Rightarrow> nat \<Rightarrow> (buf \<times> nat) exec" where
  "ucs4_encode inBuf inBufLen i outBuf len =
     (if i < inBufLen then
        do { b1 \<leftarrow> rd inBuf (i + 1); b2 \<leftarrow> rd inBuf (i + 2); b3 \<leftarrow> rd inBuf (i + 3);
             let x = ucs4_bytes b1 b2 b3;
             outBuf \<leftarrow> store outBuf len x;
             ucs4_encode inBuf inBufLen (wrap (i + 4)) outBuf (wrap (len + length x)) }
      else Some (outBuf, len))"

definition sec_port_ucs4_utf8_conversion_function ::
  "bool \<Rightarrow> buf \<Rightarrow> nat \<Rightarrow> buf \<Rightarrow> nat \<Rightarrow> nat \<Rightarrow> (bool \<times> buf \<times> nat) exec" where
  "sec_port_ucs4_utf8_conversion_function toUnicode inBuf inBufLen outBuf maxOutBufLen outBufLen =
     (if toUnicode then from_utf8 (\<lambda>k. 4) put_ucs4 inBuf inBufLen outBuf maxOutBufLen outBufLen
      else if inBufLen mod 4 \<noteq> 0 then Some (False, outBuf, 0)
      else do { r \<leftarrow> ucs4_count inBuf inBufLen 0 0;
                case r of
                  None \<Rightarrow> Some (False, outBuf, 0)
                | Some len \<Rightarrow>
                    if len > maxOutBufLen then Some (False, outBuf, len)
                    else do { (outBuf, len) \<leftarrow> ucs4_encode inBuf inBufLen 0 outBuf 0; Some (True, outBuf, len) } })"

section \<open>From UTF-16\<close>

partial_function (option) utf16_count :: "buf \<Rightarrow> nat \<Rightarrow> nat \<Rightarrow> nat \<Rightarrow> nat option exec" where
  "utf16_count inBuf inBufLen i len =
     (if i < inBufLen then
        do { b \<leftarrow> rd inBuf i;
             if b = 0 \<and> b AND 0x80 = 0 then utf16_count inBuf inBufLen (wrap (i + 2)) (wrap (len + 1))
             else if b < 8 then utf16_count inBuf inBufLen (wrap (i + 2)) (wrap (len + 2))
             else if b AND 0xDC = 0xD8 then
               do { c \<leftarrow> rd inBuf (i + 2);
                    if c AND 0xDC = 0xDC \<and> inBufLen - i > 2
                    then utf16_count inBuf inBufLen (wrap (wrap (i + 2) + 2)) (wrap (len + 4))
                    else Some None }
             else utf16_count inBuf inBufLen (wrap (i + 2)) (wrap (len + 3)) }
      else Some (Some len))"

definition utf16_pair_bytes :: "byte \<Rightarrow> byte \<Rightarrow> byte \<Rightarrow> byte \<Rightarrow> buf" where
  "utf16_pair_bytes h0 h1 l0 l1 =
     (let BCDE = push_bit 2 (h0 AND 0x03) OR drop_bit 6 (h1 AND 0xC0);
          abcde = BCDE + 1
      in [0xF0 OR drop_bit 2 (abcde AND 0x1C),
          0x80 OR push_bit 4 (abcde AND 0x03) OR drop_bit 2 (h1 AND 0x3C),
          0x80 OR push_bit 4 (h1 AND 0x03) OR push_bit 2 (l0 AND 0x03) OR drop_bit 6 (l1 AND 0xC0),
          0x80 OR (l1 AND 0x3F)])"

definition utf16_bytes :: "byte \<Rightarrow> byte \<Rightarrow> buf" where
  "utf16_bytes h0 h1 =
     (if h0 = 0 \<and> h1 AND 0x80 = 0 then [h1 AND 0x7F]
      else if h0 < 8 then
        [0xC0 OR push_bit 2 (h0 AND 0x07) OR drop_bit 6 (h1 AND 0xC0), 0x80 OR (h1 AND 0x3F)]
      else
        [0xE0 OR drop_bit 4 (h0 AND 0xF0),
         0x80 OR push_bit 2 (h0 AND 0x0F) OR drop_bit 6 (h1 AND 0xC0),
         0x80 OR (h1 AND 0x3F)])"

partial_function (option) utf16_encode :: "buf \<Rightarrow> nat \<Rightarrow> nat \<Rightarrow> buf \<Rightarrow> nat \<Rightarrow> (buf \<times> nat) exec" where
  "utf16_encode inBuf inBufLen i outBuf len =
     (if i < inBufLen then
        do { h0 \<leftarrow> rd inBuf i; h1 \<leftarrow> rd inBuf (i + 1);
             if h0 \<ge> 8 \<and> h0 AND 0xDC = 0xD8 then
               do { l0 \<leftarrow> rd inBuf (i + 2); l1 \<leftarrow> rd inBuf (i + 3);
                    let x = utf16_pair_bytes h0 h1 l0 l1;
                    outBuf \<leftarrow> store outBuf len x;
                    utf16_encode inBuf inBufLen (wrap (wrap (i + 2) + 2)) outBuf (wrap (len + length x)) }
             else
               do { let x = utf16_bytes h0 h1;
                    outBuf \<leftarrow> store outBuf len x;
                    utf16_encode inBuf inBufLen (wrap (i + 2)) outBuf (wrap (len + length x)) } }
      else Some (outBuf, len))"

definition sec_port_ucs2_utf8_conversion_function ::
  "bool \<Rightarrow> buf \<Rightarrow> nat \<Rightarrow> buf \<Rightarrow> nat \<Rightarrow> nat \<Rightarrow> (bool \<times> buf \<times> nat) exec" where
  "sec_port_ucs2_utf8_conversion_function toUnicode inBuf inBufLen outBuf maxOutBufLen outBufLen =
     (if toUnicode then from_utf8 (\<lambda>k. if k = 4 then 4 else 2) put_utf16 inBuf inBufLen outBuf maxOutBufLen outBufLen
      else if inBufLen mod 2 \<noteq> 0 then Some (False, outBuf, 0)
      else do { r \<leftarrow> utf16_count inBuf inBufLen 0 0;
                case r of
                  None \<Rightarrow> Some (False, outBuf, outBufLen)
                | Some len \<Rightarrow>
                    if len > maxOutBufLen then Some (False, outBuf, len)
                    else do { (outBuf, len) \<leftarrow> utf16_encode inBuf inBufLen 0 outBuf 0; Some (True, outBuf, len) } })"

section \<open>From ISO 8859-1\<close>

fun latin1_count :: "buf \<Rightarrow> nat \<Rightarrow> nat \<Rightarrow> nat \<Rightarrow> nat exec" where
  "latin1_count inBuf i 0 len = Some len"
| "latin1_count inBuf i (Suc n) len =
     do { b \<leftarrow> rd inBuf i; latin1_count inBuf (i + 1) n (wrap (len + (if b AND 0x80 = 0 then 1 else 2))) }"

definition latin1_bytes :: "byte \<Rightarrow> buf" where
  "latin1_bytes b =
     (if b AND 0x80 = 0 then [b] else [0xC0 OR drop_bit 6 (b AND 0xC0), 0x80 OR (b AND 0x3F)])"

fun latin1_encode :: "buf \<Rightarrow> nat \<Rightarrow> nat \<Rightarrow> buf \<Rightarrow> nat \<Rightarrow> (buf \<times> nat) exec" where
  "latin1_encode inBuf i 0 outBuf len = Some (outBuf, len)"
| "latin1_encode inBuf i (Suc n) outBuf len =
     do { b \<leftarrow> rd inBuf i;
          let x = latin1_bytes b;
          outBuf \<leftarrow> store outBuf len x;
          latin1_encode inBuf (i + 1) n outBuf (wrap (len + length x)) }"

definition sec_port_iso88591_utf8_conversion_function ::
  "buf \<Rightarrow> nat \<Rightarrow> buf \<Rightarrow> nat \<Rightarrow> nat \<Rightarrow> (bool \<times> buf \<times> nat) exec" where
  "sec_port_iso88591_utf8_conversion_function inBuf inBufLen outBuf maxOutBufLen outBufLen =
     do { len \<leftarrow> latin1_count inBuf 0 inBufLen 0;
          if len > maxOutBufLen then Some (False, outBuf, len)
          else do { (outBuf, len) \<leftarrow> latin1_encode inBuf 0 inBufLen outBuf 0; Some (True, outBuf, len) } }"

section \<open>UTF-8 by arithmetic\<close>

text \<open>The table of RFC 3629 with quotients and remainders, and the numbers that are Unicode scalar values\<close>

definition utf8 :: "nat \<Rightarrow> nat list" where
  "utf8 n =
     (if n < 0x80 then [n]
      else if n < 0x800 then [0xC0 + n div 64, 0x80 + n mod 64]
      else if n < 0x10000 then [0xE0 + n div 4096, 0x80 + n div 64 mod 64, 0x80 + n mod 64]
      else [0xF0 + n div 262144, 0x80 + n div 4096 mod 64, 0x80 + n div 64 mod 64, 0x80 + n mod 64])"

definition octets :: "nat list \<Rightarrow> buf" where "octets = map word_of_nat"

definition enc :: "nat \<Rightarrow> buf" where "enc n = octets (utf8 n)"

definition scalar :: "nat \<Rightarrow> bool" where
  "scalar n \<longleftrightarrow> n < 0xD800 \<or> 0xE000 \<le> n \<and> n < 0x110000"

lemma length_enc: "length (enc n) = (if n < 0x80 then 1 else if n < 0x800 then 2 else if n < 0x10000 then 3 else 4)"
  by (simp add: enc_def octets_def utf8_def)

section \<open>Bytes\<close>

lemma byte_of_nat: "v < 256 \<Longrightarrow> unat (word_of_nat v :: byte) = v"
  by (simp add: unsigned_of_nat take_bit_nat_eq_self)

lemma low_field: "b AND mask j = (word_of_nat (unat b mod 2 ^ j) :: byte)"
proof (rule unsigned_word_eqI)
  have "unat b mod 2 ^ j < 256" using mod_less_eq_dividend [of "unat b" "2 ^ j"] unat_byte_less [of b] by linarith
  then show "unat (b AND mask j) = unat (word_of_nat (unat b mod 2 ^ j) :: byte)"
    by (simp only: unat_and_mask byte_of_nat)
qed

lemma high_bits:
  fixes b :: byte
  assumes "k < 8"
  shows "b AND push_bit k (mask (8 - k)) = v \<longleftrightarrow> unat b div 2 ^ k * 2 ^ k = unat v"
proof -
  have "b AND push_bit k (mask (8 - k)) = push_bit k (drop_bit k b)"
    using assms by (intro bit_eqI) (auto simp: bit_simps)
  moreover have "unat b div 2 ^ k * 2 ^ k < 256"
    using div_times_less_eq_dividend [of "unat b" "2 ^ k"] unat_byte_less [of b] by linarith
  then have "unat (push_bit k (drop_bit k b)) = unat b div 2 ^ k * 2 ^ k"
    by (simp only: unat_push_bit unat_drop_bit) simp
  ultimately show ?thesis by (metis unsigned_word_eqI)
qed

lemma div_range:
  fixes v :: nat
  assumes "0 < k"
  shows "v div k * k = c * k \<longleftrightarrow> c * k \<le> v \<and> v < c * k + k"
proof -
  have "v div k * k = c * k \<longleftrightarrow> c \<le> v div k \<and> v div k < Suc c" using assms by auto
  also have "\<dots> \<longleftrightarrow> c * k \<le> v \<and> v < c * k + k"
    using assms by (simp add: less_eq_div_iff_mult_less_eq div_less_iff_less_mult add.commute)
  finally show ?thesis .
qed

lemma mod_range:
  fixes v :: nat
  assumes "c * k \<le> v" "v < c * k + k"
  shows "v mod k = v - c * k"
proof -
  have "v mod k = (v - c * k + c * k) mod k" using assms(1) by simp
  also have "\<dots> = (v - c * k) mod k" by (rule mod_mult_self1)
  also have "\<dots> = v - c * k" using assms by (intro mod_less) linarith
  finally show ?thesis .
qed

lemma high_masks:
  fixes b :: byte
  shows "b AND 0x80 = v \<longleftrightarrow> unat b div 128 * 128 = unat v" "b AND 0xC0 = v \<longleftrightarrow> unat b div 64 * 64 = unat v"
    "b AND 0xE0 = v \<longleftrightarrow> unat b div 32 * 32 = unat v" "b AND 0xF0 = v \<longleftrightarrow> unat b div 16 * 16 = unat v"
    "b AND 0xF8 = v \<longleftrightarrow> unat b div 8 * 8 = unat v"
  using high_bits [of 7 b v] high_bits [of 6 b v] high_bits [of 5 b v] high_bits [of 4 b v] high_bits [of 3 b v]
  by (simp_all add: mask_eq_exp_minus_1)

lemma byte_classes:
  fixes b :: byte
  shows "b AND 0x80 = 0 \<longleftrightarrow> unat b < 128" "b AND 0xC0 = 0x80 \<longleftrightarrow> 128 \<le> unat b \<and> unat b < 192"
    "b AND 0xE0 = 0xC0 \<longleftrightarrow> 192 \<le> unat b \<and> unat b < 224" "b AND 0xF0 = 0xE0 \<longleftrightarrow> 224 \<le> unat b \<and> unat b < 240"
    "b AND 0xF8 = 0xF0 \<longleftrightarrow> 240 \<le> unat b \<and> unat b < 248"
  unfolding high_masks
  using div_range [of 128 "unat b" 0] div_range [of 64 "unat b" 2] div_range [of 32 "unat b" 6] div_range [of 16 "unat b" 14]
    div_range [of 8 "unat b" 30]
  by simp_all

lemma mid_bits:
  fixes b :: byte
  assumes "k + i \<le> 8"
  shows "unat (b AND push_bit k (mask i)) = unat b div 2 ^ k mod 2 ^ i * 2 ^ k"
proof -
  have "b AND push_bit k (mask i) = push_bit k (drop_bit k b AND mask i)"
    by (intro bit_eqI) (auto simp: bit_simps)
  moreover have "unat b div 2 ^ k mod 2 ^ i * 2 ^ k < 256"
  proof -
    have "unat b div 2 ^ k mod 2 ^ i * 2 ^ k \<le> unat b div 2 ^ k * 2 ^ k" by (intro mult_right_mono) simp_all
    also have "\<dots> \<le> unat b" by (rule div_times_less_eq_dividend)
    finally show ?thesis using unat_byte_less [of b] by linarith
  qed
  then have "unat (push_bit k (drop_bit k b AND mask i)) = unat b div 2 ^ k mod 2 ^ i * 2 ^ k"
    by (simp only: unat_push_bit unat_and_mask unat_drop_bit) simp
  ultimately show ?thesis by simp
qed

lemma surrogate_mask:
  fixes b :: byte
  shows "unat (b AND 0xDC) = unat b div 64 * 64 + unat b div 4 mod 8 * 4"
proof -
  have "b AND 0x1C = b AND push_bit 2 (mask 3)" by (simp add: mask_eq_exp_minus_1)
  then have y: "unat (b AND 0x1C) = unat b div 4 mod 8 * 4" using mid_bits [of 2 3 b] by simp
  have "b AND 0xC0 = push_bit 6 (drop_bit 6 b)"
  proof -
    have "(0xC0 :: byte) = push_bit 6 (mask 2)" by (simp add: mask_eq_exp_minus_1)
    moreover have "b AND push_bit 6 (mask 2) = push_bit 6 (drop_bit 6 b)" by (intro bit_eqI) (auto simp: bit_simps)
    ultimately show ?thesis by simp
  qed
  moreover have "(0xDC :: byte) = 0xC0 OR 0x1C" by simp
  then have "b AND 0xDC = (b AND 0xC0) OR (b AND 0x1C)" by (simp only: bit.conj_disj_distrib)
  moreover have "unat (drop_bit 6 b) = unat b div 64" by (simp only: unat_drop_bit) simp
  moreover have "unat b div 64 < 4" "unat b div 4 mod 8 * 4 < 64" using unat_byte_less [of b] by auto
  ultimately show ?thesis using unat_shl_or [of "b AND 0x1C" 6 "drop_bit 6 b"] y by simp
qed

lemma surrogate_tests:
  fixes b :: byte
  shows "b AND 0xDC = 0xD8 \<longleftrightarrow> 216 \<le> unat b \<and> unat b < 220 \<or> 248 \<le> unat b \<and> unat b < 252"
    and "b AND 0xDC = 0xDC \<longleftrightarrow> 220 \<le> unat b \<and> unat b < 224 \<or> 252 \<le> unat b"
proof -
  have E: "b AND 0xDC = c \<longleftrightarrow> unat b div 64 * 64 + unat b div 4 mod 8 * 4 = unat c" for c
    unfolding surrogate_mask [symmetric] by (metis unsigned_word_eqI)
  define a d e g where "a = unat b div 64" and "d = unat b mod 4" and "e = unat b div 32 mod 2" and "g = unat b div 4 mod 8"
  have "unat b = 4 * (unat b div 4) + d" "unat b div 4 = 8 * (unat b div 4 div 8) + g"
    "unat b div 4 div 8 = 2 * (unat b div 4 div 8 div 2) + e"
    unfolding d_def e_def g_def using mult_div_mod_eq [of 2 "unat b div 4 div 8"] mult_div_mod_eq [of 8 "unat b div 4"]
    by (simp_all add: div_mult2_eq [symmetric])
  then have v: "unat b = 64 * a + 32 * e + 4 * g + d"
    by (simp add: a_def div_mult2_eq [symmetric])
  have "a < 4" "d < 4" "e < 2" "g < 8" using unat_byte_less [of b] by (auto simp: a_def d_def e_def g_def)
  then have "a = 0 \<or> a = 1 \<or> a = 2 \<or> a = 3" "e = 0 \<or> e = 1" "d \<le> 3" "g \<le> 7" by linarith+
  then have "a * 64 + g * 4 = 216 \<longleftrightarrow> 216 \<le> unat b \<and> unat b < 220 \<or> 248 \<le> unat b \<and> unat b < 252"
      "a * 64 + g * 4 = 220 \<longleftrightarrow> 220 \<le> unat b \<and> unat b < 224 \<or> 252 \<le> unat b"
    unfolding v by auto
  then show "b AND 0xDC = 0xD8 \<longleftrightarrow> 216 \<le> unat b \<and> unat b < 220 \<or> 248 \<le> unat b \<and> unat b < 252"
    and "b AND 0xDC = 0xDC \<longleftrightarrow> 220 \<le> unat b \<and> unat b < 224 \<or> 252 \<le> unat b"
    unfolding E a_def g_def by simp_all
qed

lemma lead_masks:
  fixes b :: byte
  shows "ucast (b AND 0x1F) = (word_of_nat (unat b mod 32) :: u32)" "ucast (b AND 0x0F) = (word_of_nat (unat b mod 16) :: u32)"
    "ucast (b AND 0x07) = (word_of_nat (unat b mod 8) :: u32)"
proof -
  have u: "ucast (word_of_nat x :: byte) = (word_of_nat x :: u32)" if "x < 256" for x
    using that by (intro unsigned_word_eqI) (simp add: unat_ucast_byte byte_of_nat unsigned_of_nat take_bit_nat_eq_self)
  have "unat b mod 32 < 256" "unat b mod 16 < 256" "unat b mod 8 < 256" using unat_byte_less [of b] by (simp_all add: order_le_less_trans [OF mod_less_eq_dividend])
  then show "ucast (b AND 0x1F) = (word_of_nat (unat b mod 32) :: u32)" "ucast (b AND 0x0F) = (word_of_nat (unat b mod 16) :: u32)"
    "ucast (b AND 0x07) = (word_of_nat (unat b mod 8) :: u32)"
    using low_field [of b 5] low_field [of b 4] low_field [of b 3] u by (simp_all add: mask_eq_exp_minus_1)
qed

lemma in_range:
  fixes v :: nat
  shows "192 \<le> v \<Longrightarrow> v < 224 \<Longrightarrow> v mod 32 = v - 192" "224 \<le> v \<Longrightarrow> v < 240 \<Longrightarrow> v mod 16 = v - 224"
  "240 \<le> v \<Longrightarrow> v < 248 \<Longrightarrow> v mod 8 = v - 240"
  using mod_range [of 6 32 v] mod_range [of 14 16 v] mod_range [of 30 8 v] by simp_all

lemma lead_eq:
  "lead b = (let v = unat b in
     if v < 128 then Some (word_of_nat v, 0, 0)
     else if v < 192 then None
     else if v < 224 then Some (word_of_nat (v - 192), 1, 0x80)
     else if v < 240 then Some (word_of_nat (v - 224), 2, 0x800)
     else if v < 248 then Some (word_of_nat (v - 240), 3, 0x10000)
     else None)"
  by (auto simp: lead_def Let_def byte_classes lead_masks in_range)

lemma seq_len_lead: "seq_len b = map_option (\<lambda>(_, k, _). Suc k) (lead b)"
  by (simp add: seq_len_def lead_def)

lemma low_six:
  assumes "128 \<le> unat (b :: byte)" "unat b < 192"
  shows "unat (b AND 0x3F) = unat b - 128"
proof -
  have "unat (b AND 0x3F) = unat b mod 64" by (simp only: mask_literals unat_and_mask) simp
  moreover have "unat b mod 64 = unat b - 128" using mod_range [of 2 64 "unat b"] assms by simp
  ultimately show ?thesis by simp
qed

section \<open>Reading one character\<close>

lemma unat_of_nat_u32: "n < 4294967296 \<Longrightarrow> unat (word_of_nat n :: u32) = n"
  by (rule unat_word_of_nat_u32)

lemma tail_step:
  assumes "128 \<le> unat (b :: byte)" "unat b < 192" "m < 67108864"
  shows "push_bit 6 (word_of_nat m :: u32) OR ucast (b AND 0x3F) = word_of_nat (m * 64 + (unat b - 128))"
proof (rule unsigned_word_eqI)
  have y: "unat (ucast (b AND 0x3F) :: u32) = unat b - 128" using low_six [OF assms(1,2)] by (simp add: unat_ucast_byte)
  have "unat (push_bit 6 (word_of_nat m :: u32) OR ucast (b AND 0x3F)) = m * 64 + (unat b - 128)"
    by (subst unat_shl_or) (use assms y in \<open>simp_all add: unat_of_nat_u32\<close>)
  also have "\<dots> = unat (word_of_nat (m * 64 + (unat b - 128)) :: u32)"
    using assms by (intro unat_of_nat_u32 [symmetric]) simp
  finally show "unat (push_bit 6 (word_of_nat m :: u32) OR ucast (b AND 0x3F)) = unat (word_of_nat (m * 64 + (unat b - 128)) :: u32)" .
qed

text \<open>The value of continuation bytes after a number, and which bytes they are\<close>

definition cont :: "byte \<Rightarrow> bool" where "cont b \<longleftrightarrow> 128 \<le> unat b \<and> unat b < 192"

fun tail_value :: "nat \<Rightarrow> buf \<Rightarrow> nat" where
  "tail_value m [] = m"
| "tail_value m (b # bs) = tail_value (m * 64 + (unat b - 128)) bs"

lemma read_tail_eq:
  assumes "n \<le> length b" "n < 4294967296" "(m + 1) * 64 ^ k \<le> 4294967296" "i \<le> n"
  shows "read_tail b n k i (word_of_nat m) =
    Some (let t = take k (drop i (take n b)) in
      if length t = k \<and> list_all cont t then Some (word_of_nat (tail_value m t), i + k) else None)"
  using assms(3,4)
proof (induction k arbitrary: i m)
  case 0
  then show ?case by simp
next
  case (Suc k)
  show ?case
  proof (cases "i < n")
    case False
    then show ?thesis by simp
  next
    case True
    define t where "t = take k (drop (Suc i) (take n b))"
    have tk: "take (Suc k) (drop i (take n b)) = b ! i # t"
      using True assms(1) by (simp add: t_def Cons_nth_drop_Suc [symmetric, of i "take n b"])
    have rd: "rd b i = Some (b ! i)" using True assms(1) by (simp add: rd_ok)
    show ?thesis
    proof (cases "cont (b ! i)")
      case False
      then show ?thesis using True rd by (auto simp add: tk byte_classes(2) cont_def)
    next
      case c: True
      have "(m + 1) * 64 \<le> (m + 1) * 64 * 64 ^ k" by simp
      also have "\<dots> \<le> 4294967296" using Suc(2) by (simp add: algebra_simps)
      finally have "m < 67108864" by simp
      have "(m * 64 + (unat (b ! i) - 128) + 1) * 64 ^ k \<le> (m + 1) * 64 * 64 ^ k"
        using c by (intro mult_right_mono) (auto simp: cont_def)
      also have "\<dots> \<le> 4294967296" using Suc(2) by (simp add: algebra_simps)
      finally have "(m * 64 + (unat (b ! i) - 128) + 1) * 64 ^ k \<le> 4294967296" .
      moreover define q where "q = m * 64 + (unat (b ! i) - 128)"
      ultimately have q: "(q + 1) * 64 ^ k \<le> 4294967296" by simp
      have "push_bit 6 (word_of_nat m :: u32) OR ucast (b ! i AND 0x3F) = word_of_nat q"
        unfolding q_def using c \<open>m < 67108864\<close> by (intro tail_step) (simp_all add: cont_def)
      with Suc(1) [OF q, of "Suc i"] True c rd show ?thesis
        using assms(2) by (simp add: tk byte_classes(2) cont_def [of "b ! i"] t_def [symmetric] q_def [symmetric] Let_def)
    qed
  qed
qed

definition lead_value :: "byte \<Rightarrow> (nat \<times> nat \<times> nat) option" where
  "lead_value b = (let v = unat b in
     if v < 128 then Some (v, 0, 0)
     else if v < 192 then None
     else if v < 224 then Some (v - 192, 1, 0x80)
     else if v < 240 then Some (v - 224, 2, 0x800)
     else if v < 248 then Some (v - 240, 3, 0x10000)
     else None)"

definition char_at :: "buf \<Rightarrow> (nat \<times> nat) option" where
  "char_at xs =
     (case xs of
        [] \<Rightarrow> None
      | b # bs \<Rightarrow>
          (case lead_value b of
             None \<Rightarrow> None
           | Some (a, k, least) \<Rightarrow>
               let t = take k bs; m = tail_value a t
               in if length t = k \<and> list_all cont t \<and> least \<le> m \<and> scalar m then Some (m, Suc k) else None))"

lemma surrogate_test:
  assumes "m < 4294967296"
  shows "(word_of_nat m :: u32) AND 0xFFFFF800 = 0xD800 \<longleftrightarrow> 0xD800 \<le> m \<and> m < 0xE000"
proof -
  define r where "r = (word_of_nat m :: u32)"
  have u: "unat r = m" using assms by (simp add: r_def unat_of_nat_u32)
  have "r AND 0xFFFFF800 = push_bit 11 (drop_bit 11 r)"
  proof -
    have "(0xFFFFF800 :: u32) = NOT (mask 11)" by (simp add: mask_eq_exp_minus_1)
    moreover have "r AND NOT (mask 11) = push_bit 11 (drop_bit 11 r)"
      by (rule bit_eqI) (auto simp: bit_simps)
    ultimately show ?thesis by simp
  qed
  moreover have "unat (push_bit 11 (drop_bit 11 r)) = m div 2048 * 2048"
    using assms by (simp add: unat_push_bit unat_drop_bit u)
  ultimately have "unat (r AND 0xFFFFF800) = m div 2048 * 2048" by simp
  then have "r AND 0xFFFFF800 = 0xD800 \<longleftrightarrow> m div 2048 * 2048 = 0xD800"
    by (simp only: word_eq_iff_unsigned [where ?'a = nat]) simp
  also have "\<dots> \<longleftrightarrow> m div 2048 = 27" by simp
  also have "\<dots> \<longleftrightarrow> 0xD800 \<le> m \<and> m < 0xE000"
    using mult_div_mod_eq [of 2048 m] mod_less_divisor [of 2048 m] by (intro iffI) linarith+
  finally show ?thesis by (simp add: r_def)
qed

lemma tail_value_bound: "list_all cont t \<Longrightarrow> tail_value m t < (m + 1) * 64 ^ length t"
proof (induction t arbitrary: m)
  case (Cons b t)
  then have "tail_value (m * 64 + (unat b - 128)) t < (m * 64 + (unat b - 128) + 1) * 64 ^ length t" by simp
  also have "\<dots> \<le> ((m + 1) * 64) * 64 ^ length t"
    using Cons(2) by (intro mult_right_mono) (auto simp: cont_def)
  finally show ?case by (simp add: algebra_simps)
qed simp

lemma lead_lead_value:
  "lead b = map_option (\<lambda>(a, k, least). (word_of_nat a, k, word_of_nat least)) (lead_value b)"
  by (simp add: lead_eq lead_value_def Let_def)

lemma lead_value_bounds:
  assumes "lead_value b = Some (a, k, least)"
  shows "(a + 1) * 64 ^ k \<le> 2097152" "least < 2097152" "k \<le> 3"
  using assms by (auto simp: lead_value_def Let_def split: if_splits)

lemma read_utf8_eq:
  assumes "i < n" "n \<le> length b" "n < 4294967296"
  shows "sec_port_read_utf8 i b n =
    Some (case char_at (drop i (take n b)) of None \<Rightarrow> (BAD_UTF8, i) | Some (m, k) \<Rightarrow> (word_of_nat m, i + k))"
proof -
  have rd: "rd b i = Some (b ! i)" using assms by (simp add: rd_ok)
  have xs: "drop i (take n b) = b ! i # drop (Suc i) (take n b)"
    using assms by (simp add: Cons_nth_drop_Suc [symmetric, of i "take n b"])
  show ?thesis
  proof (cases "lead_value (b ! i)")
    case None
    then show ?thesis by (simp add: sec_port_read_utf8_def rd lead_lead_value xs char_at_def)
  next
    case (Some l)
    then obtain a k least where l: "lead_value (b ! i) = Some (a, k, least)" by (cases l) auto
    note B = lead_value_bounds [OF l]
    define t where "t = take k (drop (Suc i) (take n b))"
    have "read_tail b n k (Suc i) (word_of_nat a) =
        Some (if length t = k \<and> list_all cont t then Some (word_of_nat (tail_value a t), Suc i + k) else None)"
      using read_tail_eq [of n b a k "Suc i"] assms B(1) by (simp add: t_def Let_def)
    moreover have "(word_of_nat (tail_value a t) < (word_of_nat least :: u32) \<or>
        (word_of_nat (tail_value a t) :: u32) AND 0xFFFFF800 = 0xD800 \<or> (word_of_nat (tail_value a t) :: u32) > 0x10FFFF) \<longleftrightarrow>
        \<not> (least \<le> tail_value a t \<and> scalar (tail_value a t))" if "length t = k" "list_all cont t"
    proof -
      have "tail_value a t < 2097152" using tail_value_bound [OF that(2), of a] that(1) B(1) by simp
      then show ?thesis using B(2) surrogate_test [of "tail_value a t"]
        by (auto simp: word_less_nat_alt unat_of_nat_u32 scalar_def)
    qed
    moreover have "char_at (drop i (take n b)) = (if length t = k \<and> list_all cont t \<and> least \<le> tail_value a t \<and>
        scalar (tail_value a t) then Some (tail_value a t, Suc k) else None)"
      by (simp only: xs char_at_def list.case l option.case prod.case t_def Let_def)
    moreover have "wrap (i + 1) = Suc i" using assms by simp
    ultimately show ?thesis
      by (cases "length t = k \<and> list_all cont t") (auto simp: sec_port_read_utf8_def rd lead_lead_value l)
  qed
qed

lemma octets_unat: "octets (map unat xs) = xs"
  by (simp add: octets_def comp_def)

lemma length_octets [simp]: "length (octets ns) = length ns"
  by (simp add: octets_def)

lemma div_64:
  assumes "x < 64"
  shows "(q * 64 + x) div 64 = q" "(q * 64 + x) mod 64 = (x :: nat)"
  using assms by simp_all

lemma quotients: "m div 4096 = m div 64 div (64 :: nat)" "m div 262144 = m div 64 div 64 div (64 :: nat)"
  by (simp_all add: div_mult2_eq [symmetric])

lemma utf8_parts:
  assumes "x < 64" "y < 64" "z < 64"
  shows "2 \<le> a \<Longrightarrow> a < 32 \<Longrightarrow> utf8 (a * 64 + x) = [192 + a, 128 + x]"
    and "0x800 \<le> (a * 64 + x) * 64 + y \<Longrightarrow> a < 16 \<Longrightarrow> utf8 ((a * 64 + x) * 64 + y) = [224 + a, 128 + x, 128 + y]"
    and "0x10000 \<le> ((a * 64 + x) * 64 + y) * 64 + z \<Longrightarrow>
      utf8 (((a * 64 + x) * 64 + y) * 64 + z) = [240 + a, 128 + x, 128 + y, 128 + z]"
proof -
  show "utf8 (a * 64 + x) = [192 + a, 128 + x]" if "2 \<le> a" "a < 32"
  proof -
    have "128 \<le> a * 64 + x" "a * 64 + x < 2048" using that assms by linarith+
    then show ?thesis using div_64 [OF assms(1), of a] by (simp add: utf8_def)
  qed
  show "utf8 ((a * 64 + x) * 64 + y) = [224 + a, 128 + x, 128 + y]" if "0x800 \<le> (a * 64 + x) * 64 + y" "a < 16"
  proof -
    have "a * 64 + x \<le> 1023" using that assms by linarith
    then have "(a * 64 + x) * 64 \<le> 1023 * 64" by (rule mult_right_mono) simp
    then have "(a * 64 + x) * 64 + y < 65536" using assms by linarith
    then show ?thesis using that div_64 [OF assms(1), of a] div_64 [OF assms(2), of "a * 64 + x"]
      by (simp add: utf8_def quotients)
  qed
  show "utf8 (((a * 64 + x) * 64 + y) * 64 + z) = [240 + a, 128 + x, 128 + y, 128 + z]"
    if "0x10000 \<le> ((a * 64 + x) * 64 + y) * 64 + z"
    using that div_64 [OF assms(1), of a] div_64 [OF assms(2), of "a * 64 + x"]
      div_64 [OF assms(3), of "(a * 64 + x) * 64 + y"]
    by (simp add: utf8_def quotients)
qed

lemma contD: "cont b \<Longrightarrow> \<exists>x < 64. unat b = 128 + x"
  by (intro exI [of _ "unat b - 128"]) (auto simp: cont_def)

lemma list_of_length:
  "length t = 0 \<longleftrightarrow> t = []"
  "length t = 1 \<longleftrightarrow> (\<exists>c. t = [c])"
  "length t = 2 \<longleftrightarrow> (\<exists>c d. t = [c, d])"
  "length t = 3 \<longleftrightarrow> (\<exists>c d e. t = [c, d, e])"
  by (auto simp: numeral_eq_Suc length_Suc_conv)

lemma char_at_sound:
  assumes "char_at xs = Some (m, k)"
  shows "scalar m \<and> k = length (enc m) \<and> take k xs = enc m"
proof -
  obtain b bs where xs: "xs = b # bs" using assms by (cases xs) (auto simp: char_at_def)
  obtain a j least where l: "lead_value b = Some (a, j, least)"
    using assms by (cases "lead_value b") (auto simp: char_at_def xs)
  define t where "t = take j bs"
  have "char_at xs = (if length t = j \<and> list_all cont t \<and> least \<le> tail_value a t \<and> scalar (tail_value a t)
      then Some (tail_value a t, Suc j) else None)"
    by (simp only: char_at_def xs list.case l option.case prod.case Let_def t_def)
  then have t: "length t = j" "list_all cont t" "least \<le> m" "scalar m" "m = tail_value a t" "k = Suc j"
    using assms by (auto split: if_splits)
  have "utf8 m = map unat (b # t)"
  proof -
    consider "unat b < 128" "j = 0" "a = unat b" | "192 \<le> unat b" "unat b < 224" "j = 1" "a = unat b - 192" "least = 0x80"
      | "224 \<le> unat b" "unat b < 240" "j = 2" "a = unat b - 224" "least = 0x800"
      | "240 \<le> unat b" "unat b < 248" "j = 3" "a = unat b - 240" "least = 0x10000"
      using l by (auto simp: lead_value_def Let_def split: if_splits)
    then show ?thesis
    proof cases
      case 1
      then show ?thesis using t by (simp add: utf8_def)
    next
      case 2
      then obtain c where c: "t = [c]" using t(1) list_of_length(2) [of t] by auto
      then obtain x where x: "x < 64" "unat c = 128 + x" using t(2) contD by auto
      have m: "m = a * 64 + x" using t(5) c x by simp
      have "2 \<le> a" using t(3) 2(5) x(1) m by linarith
      then show ?thesis using utf8_parts(1) [OF x(1) x(1) x(1), of a] 2 c x m by simp
    next
      case 3
      then obtain c d where c: "t = [c, d]" using t(1) list_of_length(3) [of t] by auto
      then obtain x y where x: "x < 64" "unat c = 128 + x" "y < 64" "unat d = 128 + y" using t(2) contD [of c] contD [of d] by auto
      have m: "m = (a * 64 + x) * 64 + y" using t(5) c x by simp
      then show ?thesis using utf8_parts(2) [OF x(1) x(3) x(3), of a] 3 c x t(3) by simp
    next
      case 4
      then obtain c d e where c: "t = [c, d, e]" using t(1) list_of_length(4) [of t] by auto
      then obtain x y z where x: "x < 64" "unat c = 128 + x" "y < 64" "unat d = 128 + y" "z < 64" "unat e = 128 + z"
        using t(2) contD [of c] contD [of d] contD [of e] by auto
      have m: "m = ((a * 64 + x) * 64 + y) * 64 + z" using t(5) c x by simp
      then show ?thesis using utf8_parts(3) [OF x(1) x(3) x(5), of a] 4 c x t(3) by simp
    qed
  qed
  then have "enc m = b # t" by (simp add: enc_def octets_unat del: list.map)
  then show ?thesis using t(1,4,6) by (simp add: xs t_def)
qed

lemma scalar_bound: "scalar m \<Longrightarrow> m < 1114112"
  by (auto simp: scalar_def)

lemma char_at_parts:
  assumes "x < 64" "y < 64" "z < 64"
  shows "a < 128 \<Longrightarrow> char_at (octets [a] @ r) = (if scalar a then Some (a, 1) else None)"
    and "a < 32 \<Longrightarrow> char_at (octets [192 + a, 128 + x] @ r) =
      (let m = a * 64 + x in if 0x80 \<le> m \<and> scalar m then Some (m, 2) else None)"
    and "a < 16 \<Longrightarrow> char_at (octets [224 + a, 128 + x, 128 + y] @ r) =
      (let m = (a * 64 + x) * 64 + y in if 0x800 \<le> m \<and> scalar m then Some (m, 3) else None)"
    and "a < 8 \<Longrightarrow> char_at (octets [240 + a, 128 + x, 128 + y, 128 + z] @ r) =
      (let m = ((a * 64 + x) * 64 + y) * 64 + z in if 0x10000 \<le> m \<and> scalar m then Some (m, 4) else None)"
proof -
  have u: "v < 64 \<Longrightarrow> unat (word_of_nat (128 + v) :: byte) = 128 + v" for v by (rule byte_of_nat) simp
  have c: "v < 64 \<Longrightarrow> cont (word_of_nat (128 + v))" for v using u by (simp add: cont_def del: of_nat_add)
  note s = octets_def char_at_def lead_value_def Let_def byte_of_nat u c
  show "a < 128 \<Longrightarrow> char_at (octets [a] @ r) = (if scalar a then Some (a, 1) else None)"
    by (simp add: s del: of_nat_add)
  show "a < 32 \<Longrightarrow> char_at (octets [192 + a, 128 + x] @ r) =
      (let m = a * 64 + x in if 0x80 \<le> m \<and> scalar m then Some (m, 2) else None)"
    using assms by (simp add: s del: of_nat_add)
  show "a < 16 \<Longrightarrow> char_at (octets [224 + a, 128 + x, 128 + y] @ r) =
      (let m = (a * 64 + x) * 64 + y in if 0x800 \<le> m \<and> scalar m then Some (m, 3) else None)"
    using assms by (simp add: s del: of_nat_add)
  show "a < 8 \<Longrightarrow> char_at (octets [240 + a, 128 + x, 128 + y, 128 + z] @ r) =
      (let m = ((a * 64 + x) * 64 + y) * 64 + z in if 0x10000 \<le> m \<and> scalar m then Some (m, 4) else None)"
    using assms by (simp add: s del: of_nat_add)
qed

lemma char_at_complete:
  assumes "scalar m"
  shows "char_at (enc m @ r) = Some (m, length (enc m))"
proof -
  have m: "m < 1114112" using assms by (rule scalar_bound)
  define x y z a where "x = m mod 64" and "y = m div 64 mod 64" and "z = m div 64 div 64 mod 64" and "a = m div 64 div 64 div 64"
  have b: "x < 64" "y < 64" "z < 64" by (simp_all add: x_def y_def z_def)
  have e: "m = m div 64 * 64 + x" "m div 64 = m div 64 div 64 * 64 + y" "m div 64 div 64 = a * 64 + z"
    by (simp_all add: x_def y_def z_def a_def)
  consider "m < 0x80" | "0x80 \<le> m" "m < 0x800" | "0x800 \<le> m" "m < 0x10000" | "0x10000 \<le> m" by linarith
  then show ?thesis
  proof cases
    case 1
    then show ?thesis using assms char_at_parts(1) [OF b, of m] by (simp add: length_enc) (simp add: enc_def utf8_def)
  next
    case 2
    define q where "q = m div 64"
    have q: "m = q * 64 + x" using e(1) by (simp add: q_def)
    have r: "2 \<le> q" "q < 32" using 2 b(1) q by linarith+
    have "enc m = octets [192 + q, 128 + x]" using utf8_parts(1) [OF b(1) b(1) b(1) r] q by (simp add: enc_def)
    then show ?thesis using assms 2 char_at_parts(2) [OF b(1) b(1) b(1) r(2)] q by (simp add: length_enc Let_def)
  next
    case 3
    define q where "q = m div 64 div 64"
    have q: "m = (q * 64 + y) * 64 + x" using e(1,2) by (simp add: q_def)
    have s: "m = m div 64 * 64 + x" "m div 64 = q * 64 + y" using e(1,2) by (simp_all add: q_def)
    have "m div 64 < 1024" using 3(2) s(1) by linarith
    then have r: "q < 16" using s(2) by linarith
    have "enc m = octets [224 + q, 128 + y, 128 + x]"
      using utf8_parts(2) [OF b(2) b(1) b(1), of q] r 3(1) q by (simp add: enc_def)
    then show ?thesis using assms 3 char_at_parts(3) [OF b(2) b(1) b(1) r] q by (simp add: length_enc Let_def)
  next
    case 4
    have q: "m = ((a * 64 + z) * 64 + y) * 64 + x" using e by simp
    have "m div 64 < 17408" using m e(1) by linarith
    then have "m div 64 div 64 < 272" using e(2) by linarith
    then have r: "a < 8" using e(3) by linarith
    have "enc m = octets [240 + a, 128 + z, 128 + y, 128 + x]"
      using utf8_parts(3) [OF b(3,2,1), of a] 4 q by (simp add: enc_def)
    then show ?thesis using assms 4 char_at_parts(4) [OF b(3,2,1) r] q by (simp add: length_enc Let_def)
  qed
qed

lemma char_at_iff: "char_at xs = Some (m, k) \<longleftrightarrow> scalar m \<and> k = length (enc m) \<and> (\<exists>r. xs = enc m @ r)"
  using char_at_sound [of xs m k] char_at_complete [of m] by (metis append_take_drop_id)

section \<open>Converting from UTF-8\<close>

lemma scalar_not_bad: "scalar m \<Longrightarrow> word_of_nat m \<noteq> BAD_UTF8"
proof
  assume "scalar m" "word_of_nat m = BAD_UTF8"
  then have "unat (word_of_nat m :: u32) = unat BAD_UTF8" "m < 1114112" using scalar_bound by simp_all
  moreover have "unat BAD_UTF8 = 4294967295" by (simp add: BAD_UTF8_def unsigned_minus_1_eq_mask mask_eq_exp_minus_1)
  ultimately show False by (simp add: unat_of_nat_u32)
qed

lemma lead_of_char_at:
  assumes "char_at (b # bs) = Some (m, k)"
  shows "seq_len b = Some k"
  using assms by (auto simp: char_at_def seq_len_lead lead_lead_value Let_def split: option.splits if_splits)

lemma length_enc_pos: "0 < length (enc m)"
  by (simp add: length_enc)

locale utf8_sink =
  fixes w :: "nat \<Rightarrow> nat" and put :: put_fn and out :: "nat \<Rightarrow> buf"
  assumes put_out: "scalar m \<Longrightarrow> len + length (out m) \<le> length b \<Longrightarrow> length b < 4294967296 \<Longrightarrow>
      put b len (word_of_nat m) = Some (overlay b len (out m), len + length (out m))"
    and w_out: "scalar m \<Longrightarrow> w (length (enc m)) = length (out m)"
    and w_le: "w k \<le> 4"
begin

lemma seq_len_bounds: "seq_len b = Some k \<Longrightarrow> 1 \<le> k \<and> k \<le> 4"
  by (auto simp: seq_len_def split: if_splits)

lemma count_total:
  assumes "n \<le> length b" "n < 1073741824" "i \<le> n + 3" "len \<le> 4 * i"
  shows "\<exists>r. utf8_count w b n i len = Some r \<and> (\<forall>t. r = Some t \<longrightarrow> len \<le> t)"
  using assms(3,4)
proof (induction "n + 3 - i" arbitrary: i len rule: less_induct)
  case less
  show ?case
  proof (cases "i < n")
    case False
    then show ?thesis by (simp add: utf8_count.simps)
  next
    case True
    then have rd: "rd b i = Some (b ! i)" using assms(1) by (simp add: rd_ok)
    show ?thesis
    proof (cases "seq_len (b ! i)")
      case None
      then show ?thesis using True rd by (simp add: utf8_count.simps)
    next
      case (Some k)
      note k = seq_len_bounds [OF Some]
      have "1 \<le> k" "k \<le> 4" using k by simp_all
      then have ik: "i + k \<le> n + 3" using True by linarith
      have lk: "len + w k \<le> 4 * (i + k)" using less(3) w_le [of k] \<open>1 \<le> k\<close> by (simp add: distrib_left)
      from ik lk obtain r where "utf8_count w b n (i + k) (len + w k) = Some r" "\<forall>t. r = Some t \<longrightarrow> len + w k \<le> t"
        using less(1) [OF _ ik lk] True \<open>1 \<le> k\<close> by (auto simp: diff_less_mono2)
      moreover have "wrap (i + k) = i + k" "wrap (len + w k) = len + w k"
        using k w_le [of k] less(2,3) True assms(2) by simp_all
      ultimately show ?thesis using True rd Some by (auto simp: utf8_count.simps [of w b n i])
    qed
  qed
qed

lemma count_step:
  assumes "i < n" "n \<le> length b" "n < 1073741824" "len \<le> 4 * i" "char_at (drop i (take n b)) = Some (m, k)"
  shows "utf8_count w b n i len = utf8_count w b n (i + k) (len + length (out m))"
proof -
  have "drop i (take n b) = b ! i # drop (Suc i) (take n b)"
    using assms(1,2) by (simp add: Cons_nth_drop_Suc [symmetric, of i "take n b"])
  then have s: "seq_len (b ! i) = Some k" using lead_of_char_at assms(5) by metis
  have m: "scalar m" "k = length (enc m)" using assms(5) by (simp_all add: char_at_iff)
  then have "w k = length (out m)" using w_out by simp
  moreover have "wrap (i + k) = i + k" "wrap (len + w k) = len + w k"
    using seq_len_bounds [OF s] w_le [of k] assms by simp_all
  moreover have "rd b i = Some (b ! i)" using assms by (simp add: rd_ok)
  ultimately show ?thesis using assms(1) s by (simp add: utf8_count.simps [of w b n i])
qed

lemma decode_safe:
  assumes "n \<le> length b" "n < 1073741824" "i \<le> n" "len \<le> 4 * i" "utf8_count w b n i len = Some (Some t)"
    "t \<le> length ob" "length ob < 4294967296"
  shows "\<exists>ok ob' l. utf8_decode put b n i ob len = Some (ok, ob', l) \<and> length ob' = length ob \<and> drop t ob' = drop t ob \<and>
    (ok \<longrightarrow> (\<exists>ms. list_all scalar ms \<and> drop i (take n b) = concat (map enc ms) \<and> ob' = overlay ob len (concat (map out ms)) \<and>
      l = len + length (concat (map out ms)) \<and> l = t))"
  using assms(3-7)
proof (induction "n - i" arbitrary: i len ob rule: less_induct)
  case less
  show ?case
  proof (cases "i < n")
    case False
    then have D: "utf8_decode put b n i ob len = Some (True, ob, len)" by (simp add: utf8_decode.simps)
    have "drop i (take n b) = []" "t = len" using False less(4) by (simp_all add: utf8_count.simps)
    then have "\<exists>ms. list_all scalar ms \<and> drop i (take n b) = concat (map enc ms) \<and>
        ob = overlay ob len (concat (map out ms)) \<and> len = len + length (concat (map out ms)) \<and> len = t"
      by (intro exI [of _ "[]"]) simp
    with D show ?thesis by blast
  next
    case True
    note R = read_utf8_eq [OF True assms(1)]
    show ?thesis
    proof (cases "char_at (drop i (take n b))")
      case None
      then have "utf8_decode put b n i ob len = Some (False, ob, len)"
        using True R assms(2) by (simp add: utf8_decode.simps)
      then show ?thesis by blast
    next
      case (Some mk)
      then obtain m k where c: "char_at (drop i (take n b)) = Some (m, k)" by (cases mk) auto
      then obtain r where m: "scalar m" "k = length (enc m)" "drop i (take n b) = enc m @ r" by (auto simp: char_at_iff)
      have k: "0 < k" "i + k \<le> n"
        using m(2) length_enc_pos [of m] arg_cong [OF m(3), of length] assms(1) True by simp_all
      have ct: "utf8_count w b n (i + k) (len + length (out m)) = Some (Some t)"
        using count_step [OF True assms(1,2) less(3) c] less(4) by simp
      have "w k \<le> 4" "w k = length (out m)" using w_le [of k] w_out [OF m(1)] m(2) by simp_all
      then have le: "len + length (out m) \<le> 4 * (i + k)" using less(3) k(1) by (simp add: distrib_left)
      have "len + length (out m) \<le> t"
        using count_total [OF assms(1,2), of "i + k" "len + length (out m)"] k(2) le ct by auto
      then have p: "put ob len (word_of_nat m) = Some (overlay ob len (out m), len + length (out m))"
        "length (overlay ob len (out m)) = length ob" "drop t (overlay ob len (out m)) = drop t ob"
        using put_out [OF m(1), of len ob] less(5,6) by (simp_all add: length_overlay overlay_def)
      have dr: "drop (i + k) (take n b) = r"
        using m(2,3) by (metis append_eq_conv_conj drop_drop add.commute)
      have "n - (i + k) < n - i" using True k by simp
      note H = less(1) [OF this k(2) le ct, of "overlay ob len (out m)"]
      obtain ok ob' l where IH: "utf8_decode put b n (i + k) (overlay ob len (out m)) (len + length (out m)) = Some (ok, ob', l)"
        "length ob' = length ob" "drop t ob' = drop t ob"
        "ok \<Longrightarrow> \<exists>ms. list_all scalar ms \<and> r = concat (map enc ms) \<and> ob' = overlay (overlay ob len (out m)) (len + length (out m)) (concat (map out ms)) \<and>
          l = len + length (out m) + length (concat (map out ms)) \<and> l = t"
        using H p(2,3) less(5,6) dr by auto
      have "utf8_decode put b n i ob len = Some (ok, ob', l)"
        using True R assms(2) c scalar_not_bad [OF m(1)] p(1) IH(1) by (simp add: utf8_decode.simps [of put b n i])
      moreover have "\<exists>ms. list_all scalar ms \<and> drop i (take n b) = concat (map enc ms) \<and> ob' = overlay ob len (concat (map out ms)) \<and>
          l = len + length (concat (map out ms)) \<and> l = t" if ok: ok
      proof -
        obtain ms where ms: "list_all scalar ms" "r = concat (map enc ms)"
          "ob' = overlay (overlay ob len (out m)) (len + length (out m)) (concat (map out ms))" "l = len + length (out m) + length (concat (map out ms))" "l = t"
          using IH(4) [OF ok] by auto
        have "len + length (out m) \<le> length ob" using \<open>len + length (out m) \<le> t\<close> less(5) by simp
        then have "ob' = overlay ob len (concat (map out (m # ms)))" using ms(3) by (simp add: overlay_append)
        then show ?thesis using ms m by (intro exI [of _ "m # ms"]) simp
      qed
      ultimately show ?thesis using IH(2,3) by auto
    qed
  qed
qed

lemma count_text:
  assumes "n \<le> length b" "n < 1073741824" "i \<le> n" "len \<le> 4 * i" "drop i (take n b) = concat (map enc ms)" "list_all scalar ms"
  shows "utf8_count w b n i len = Some (Some (len + length (concat (map out ms))))"
  using assms(3-6)
proof (induction ms arbitrary: i len)
  case Nil
  then show ?case using assms(1) by (simp add: utf8_count.simps)
next
  case (Cons m ms)
  then have c: "char_at (drop i (take n b)) = Some (m, length (enc m))" by (simp add: char_at_complete)
  have "i < n" using Cons(4) length_enc_pos [of m] by (cases "i < n") auto
  note step = count_step [OF this assms(1,2) Cons(3) c]
  have "i + length (enc m) \<le> n" using arg_cong [OF Cons(4), of length] assms(1) \<open>i < n\<close> by simp
  moreover have "len + length (out m) \<le> 4 * (i + length (enc m))"
    using Cons(3,5) w_out [of m] w_le [of "length (enc m)"] length_enc_pos [of m] by (simp add: distrib_left del: length_greater_0_conv)
  moreover have "drop (i + length (enc m)) (take n b) = concat (map enc ms)"
    using Cons(4) by (simp, metis append_eq_conv_conj drop_drop add.commute)
  ultimately show ?case using Cons(1) [of "i + length (enc m)" "len + length (out m)"] Cons(5) step by (simp add: add.assoc)
qed

lemma decode_text:
  assumes "n \<le> length b" "n < 1073741824" "i \<le> n" "drop i (take n b) = concat (map enc ms)" "list_all scalar ms"
    "len + length (concat (map out ms)) \<le> length ob" "length ob < 4294967296"
  shows "utf8_decode put b n i ob len =
    Some (True, overlay ob len (concat (map out ms)), len + length (concat (map out ms)))"
  using assms(3-7)
proof (induction ms arbitrary: i len ob)
  case Nil
  then show ?case using assms(1) by (simp add: utf8_decode.simps)
next
  case (Cons m ms)
  have m: "scalar m" using Cons(4) by simp
  have c: "char_at (drop i (take n b)) = Some (m, length (enc m))" using Cons(3) m by (simp add: char_at_complete)
  have i: "i < n" using Cons(3) length_enc_pos [of m] by (cases "i < n") auto
  have "i + length (enc m) \<le> n" using arg_cong [OF Cons(3), of length] assms(1) i by simp
  moreover have "drop (i + length (enc m)) (take n b) = concat (map enc ms)"
    using Cons(3) by (simp, metis append_eq_conv_conj drop_drop add.commute)
  moreover have p: "put ob len (word_of_nat m) = Some (overlay ob len (out m), len + length (out m))"
    "length (overlay ob len (out m)) = length ob"
    using put_out [OF m, of len ob] Cons(5,6) by (simp_all add: length_overlay)
  ultimately have "utf8_decode put b n (i + length (enc m)) (overlay ob len (out m)) (len + length (out m)) =
      Some (True, overlay (overlay ob len (out m)) (len + length (out m)) (concat (map out ms)),
        len + length (out m) + length (concat (map out ms)))"
    using Cons(1) [of "i + length (enc m)" "len + length (out m)" "overlay ob len (out m)"] Cons(4,5,6) by simp
  moreover have "overlay (overlay ob len (out m)) (len + length (out m)) (concat (map out ms)) =
      overlay ob len (concat (map out (m # ms)))"
    using Cons(5) by (simp add: overlay_append)
  ultimately show ?case
    using i read_utf8_eq [OF i assms(1)] assms(2) c scalar_not_bad [OF m] p(1)
    by (simp add: utf8_decode.simps [of put b n i] add.assoc)
qed

lemma utf8_unique:
  assumes "concat (map enc ms) = concat (map enc ns)" "list_all scalar ms" "list_all scalar ns"
  shows "ms = ns"
  using assms
proof (induction ms arbitrary: ns)
  case Nil
  then show ?case using length_enc_pos by (cases ns) (auto simp del: length_greater_0_conv)
next
  case (Cons m ms)
  then obtain n ns' where n: "ns = n # ns'" using length_enc_pos [of m] by (cases ns) auto
  have "char_at (enc m @ concat (map enc ms)) = char_at (enc n @ concat (map enc ns'))" using Cons(2) n by simp
  then have "m = n" using Cons(3,4) n by (simp add: char_at_complete)
  then show ?case using Cons n by auto
qed

lemma from_utf8_exact:
  assumes "n \<le> length b" "n < 1073741824" "maxo \<le> length ob" "length ob < 4294967296"
  shows "list_all scalar ms \<Longrightarrow> take n b = concat (map enc ms) \<Longrightarrow> length (concat (map out ms)) \<le> maxo \<Longrightarrow>
      from_utf8 w put b n ob maxo l0 = Some (True, overlay ob 0 (concat (map out ms)), length (concat (map out ms)))"
    and "\<nexists>ms. list_all scalar ms \<and> take n b = concat (map enc ms) \<and> length (concat (map out ms)) \<le> maxo \<Longrightarrow>
      \<exists>ob' l. from_utf8 w put b n ob maxo l0 = Some (False, ob', l) \<and> length ob' = length ob \<and> drop maxo ob' = drop maxo ob"
proof -
  obtain r where r: "utf8_count w b n 0 0 = Some r" using count_total [OF assms(1,2), of 0 0] by auto
  have S: "\<exists>ok ob' l. utf8_decode put b n 0 ob 0 = Some (ok, ob', l) \<and> length ob' = length ob \<and> drop t ob' = drop t ob \<and>
      (ok \<longrightarrow> (\<exists>ms. list_all scalar ms \<and> take n b = concat (map enc ms) \<and> ob' = overlay ob 0 (concat (map out ms)) \<and>
        l = length (concat (map out ms)) \<and> l = t))" if t: "r = Some t" "t \<le> maxo" for t
    using decode_safe [OF assms(1,2), of 0 0 t ob] r t assms(3,4) by simp
  show "from_utf8 w put b n ob maxo l0 = Some (True, overlay ob 0 (concat (map out ms)), length (concat (map out ms)))"
    if ms: "list_all scalar ms" "take n b = concat (map enc ms)" "length (concat (map out ms)) \<le> maxo"
  proof -
    have rt: "r = Some (length (concat (map out ms)))" using count_text [OF assms(1,2), of 0 0 ms] ms r by simp
    then show ?thesis using decode_text [OF assms(1,2), of 0 ms 0 ob] ms r assms(3,4) by (simp add: from_utf8_def)
  qed
  show "\<exists>ob' l. from_utf8 w put b n ob maxo l0 = Some (False, ob', l) \<and> length ob' = length ob \<and> drop maxo ob' = drop maxo ob"
    if no: "\<nexists>ms. list_all scalar ms \<and> take n b = concat (map enc ms) \<and> length (concat (map out ms)) \<le> maxo"
  proof (cases "\<exists>t. r = Some t \<and> t \<le> maxo")
    case False
    then show ?thesis using r by (cases r) (auto simp: from_utf8_def)
  next
    case True
    then obtain t where t: "r = Some t" "t \<le> maxo" by blast
    obtain ok ob' l where d: "utf8_decode put b n 0 ob 0 = Some (ok, ob', l)" "length ob' = length ob" "drop t ob' = drop t ob"
      "ok \<longrightarrow> (\<exists>ms. list_all scalar ms \<and> take n b = concat (map enc ms) \<and> ob' = overlay ob 0 (concat (map out ms)) \<and> l = length (concat (map out ms)) \<and> l = t)"
      using S [OF t] by blast
    have "\<not> ok" using d(4) no t(2) by blast
    moreover have "drop maxo ob' = drop maxo ob"
      using d(3) t(2) by (metis drop_drop le_add_diff_inverse2)
    ultimately show ?thesis using d r t by (simp add: from_utf8_def)
  qed
qed

lemma from_utf8_iff:
  assumes "n \<le> length b" "n < 1073741824" "maxo \<le> length ob" "length ob < 4294967296"
  shows "\<exists>ok ob' l. from_utf8 w put b n ob maxo l0 = Some (ok, ob', l) \<and> length ob' = length ob \<and> drop maxo ob' = drop maxo ob \<and>
    (ok \<longleftrightarrow> (\<exists>ms. list_all scalar ms \<and> take n b = concat (map enc ms) \<and> length (concat (map out ms)) \<le> maxo)) \<and>
    (\<forall>ms. ok \<and> list_all scalar ms \<and> take n b = concat (map enc ms) \<longrightarrow>
      ob' = overlay ob 0 (concat (map out ms)) \<and> l = length (concat (map out ms)))"
proof (cases "\<exists>ms. list_all scalar ms \<and> take n b = concat (map enc ms) \<and> length (concat (map out ms)) \<le> maxo")
  case True
  then obtain ms where ms: "list_all scalar ms" "take n b = concat (map enc ms)" "length (concat (map out ms)) \<le> maxo" by blast
  note R = from_utf8_exact(1) [OF assms ms]
  have "ns = ms" if "list_all scalar ns" "take n b = concat (map enc ns)" for ns
    using utf8_unique [of ns ms] that ms by simp
  moreover have "drop maxo (overlay ob 0 (concat (map out ms))) = drop maxo ob" "length (overlay ob 0 (concat (map out ms))) = length ob"
    using ms(3) assms(3) by (simp_all add: overlay_def)
  ultimately show ?thesis using R True by blast
next
  case False
  then show ?thesis using from_utf8_exact(2) [OF assms False] by blast
qed

end

section \<open>Big-endian units\<close>

definition ucs4 :: "nat \<Rightarrow> buf" where
  "ucs4 m = octets [m div 16777216, m div 65536 mod 256, m div 256 mod 256, m mod 256]"

definition unit16 :: "nat \<Rightarrow> buf" where
  "unit16 u = octets [u div 256, u mod 256]"

definition utf16 :: "nat \<Rightarrow> buf" where
  "utf16 m =
     (if m < 0x10000 then unit16 m
      else unit16 (0xD800 + (m - 0x10000) div 1024) @ unit16 (0xDC00 + (m - 0x10000) mod 1024))"

lemma length_units [simp]: "length (ucs4 m) = 4" "length (unit16 m) = 2"
  by (simp_all add: ucs4_def unit16_def)

lemma length_utf16: "length (utf16 m) = (if m < 0x10000 then 2 else 4)"
  by (simp add: utf16_def)

lemma byte_of_shift:
  assumes "m < 4294967296"
  shows "(ucast (drop_bit k (word_of_nat m :: u32)) :: byte) = word_of_nat (m div 2 ^ k mod 256)"
proof (rule unsigned_word_eqI)
  define r where "r = (word_of_nat m :: u32)"
  have "unat (ucast (drop_bit k r) :: byte) = unat (drop_bit k r) mod 256"
    by (simp add: unsigned_ucast_eq take_bit_eq_mod)
  also have "\<dots> = m div 2 ^ k mod 256"
    by (simp only: unat_drop_bit r_def unat_of_nat_u32 [OF assms])
  finally show "unat (ucast (drop_bit k (word_of_nat m :: u32)) :: byte) = unat (word_of_nat (m div 2 ^ k mod 256) :: byte)"
    by (simp add: r_def byte_of_nat)
qed

lemma byte_of_u32: "m < 4294967296 \<Longrightarrow> (ucast (word_of_nat m :: u32) :: byte) = word_of_nat (m mod 256)"
  using byte_of_shift [of m 0] by simp

lemma plus_3: "n + 3 = Suc (Suc (Suc n))"
  by simp

lemma less_4: "q < 4 \<longleftrightarrow> q = 0 \<or> q = 1 \<or> q = 2 \<or> q = (3 :: nat)"
  by linarith

lemma surrogate_bytes:
  assumes "q < 4"
  shows "(ucast (0xD8 OR (word_of_nat q :: u32)) :: byte) = word_of_nat (216 + q)"
    "(ucast (0xDC OR (word_of_nat q :: u32)) :: byte) = word_of_nat (220 + q)"
  using assms unfolding less_4 by auto

lemma low_two: "m < 4294967296 \<Longrightarrow> drop_bit k (word_of_nat m :: u32) AND 3 = word_of_nat (m div 2 ^ k mod 4)"
proof (rule unsigned_word_eqI)
  assume m: "m < 4294967296"
  define r where "r = (word_of_nat m :: u32)"
  have "(3 :: u32) = mask 2" by (simp add: mask_eq_exp_minus_1)
  then have "unat (drop_bit k r AND 3) = unat (drop_bit k r) mod 4" by (simp only: unat_and_mask) simp
  also have "\<dots> = m div 2 ^ k mod 4" by (simp only: unat_drop_bit r_def unat_of_nat_u32 [OF m])
  finally show "unat (drop_bit k (word_of_nat m :: u32) AND 3) = unat (word_of_nat (m div 2 ^ k mod 4) :: u32)"
    by (simp add: r_def unat_of_nat_u32)
qed

lemma utf16_high:
  assumes "m < 0x110000" "0x10000 \<le> m"
  defines "v \<equiv> m - 0x10000"
  shows "utf16 m = octets [216 + v div 262144 mod 4, v div 1024 mod 256, 220 + v div 256 mod 4, v mod 256]"
proof -
  have "v div 262144 mod 4 = v div 262144" using assms by simp
  moreover have "(0xD800 + v div 1024) div 256 = 216 + v div 262144" by (simp add: div_mult2_eq [symmetric])
  moreover have "(0xD800 + v div 1024) mod 256 = v div 1024 mod 256" by (simp add: mod_add_left_eq [symmetric])
  moreover have "v mod 1024 div 256 = v div 256 mod 4"
    using mod_mult2_eq [of v 256 4] by simp
  then have "(0xDC00 + v mod 1024) div 256 = 220 + v div 256 mod 4" by simp
  moreover have "(0xDC00 + v mod 1024) mod 256 = v mod 256"
    using mod_mod_cancel [of 256 1024 v] by (simp add: mod_add_left_eq [symmetric])
  ultimately show ?thesis using assms(2) by (simp add: utf16_def unit16_def octets_def v_def)
qed

interpretation ucs4_sink: utf8_sink "\<lambda>k. 4" put_ucs4 ucs4
proof
  fix m len and b :: buf
  assume "scalar m" and l: "len + length (ucs4 m) \<le> length b" "length b < 4294967296"
  then have m: "m < 4294967296" "m div 16777216 = 0" using scalar_bound [of m] by simp_all
  then have "ucs4 m = [0, ucast (drop_bit 16 (word_of_nat m :: u32)), ucast (drop_bit 8 (word_of_nat m :: u32)), ucast (word_of_nat m :: u32)]"
    by (simp add: ucs4_def octets_def byte_of_shift byte_of_u32)
  then show "put_ucs4 b len (word_of_nat m) = Some (overlay b len (ucs4 m), len + length (ucs4 m))"
    using l by (simp add: plus_3 put_ucs4_def wr_ok overlay_Cons)
qed simp_all

interpretation utf16_sink: utf8_sink "\<lambda>k. if k = 4 then 4 else 2" put_utf16 utf16
proof
  fix m len and b :: buf
  assume s: "scalar m" and l: "len + length (utf16 m) \<le> length b" "length b < 4294967296"
  then have m: "m < 1114112" using scalar_bound [of m] by simp
  show "put_utf16 b len (word_of_nat m) = Some (overlay b len (utf16 m), len + length (utf16 m))"
  proof (cases "m < 0x10000")
    case True
    then have "(word_of_nat m :: u32) < 0x10000" by (simp add: word_less_nat_alt unat_of_nat_u32)
    moreover have "utf16 m = [ucast (drop_bit 8 (word_of_nat m :: u32)), ucast (word_of_nat m :: u32)]"
      using True by (simp add: utf16_def unit16_def octets_def byte_of_shift byte_of_u32)
    ultimately show ?thesis using l by (simp add: put_utf16_def wr_ok overlay_Cons)
  next
    case False
    define v where "v = m - 0x10000"
    have v: "v < 4294967296" "m = v + 65536" using False m by (simp_all add: v_def)
    have n: "\<not> (word_of_nat m :: u32) < 0x10000" using False m by (simp add: word_less_nat_alt unat_of_nat_u32)
    have w: "(word_of_nat m :: u32) - 0x10000 = word_of_nat v" using v(2) by simp
    have "v div 262144 mod 4 < 4" "v div 256 mod 4 < 4" by simp_all
    then have "utf16 m = [ucast (0xD8 OR (drop_bit 18 (word_of_nat v :: u32) AND 3)), ucast (drop_bit 10 (word_of_nat v :: u32)),
        ucast (0xDC OR (drop_bit 8 (word_of_nat v :: u32) AND 3)), ucast (word_of_nat v :: u32)]"
      using utf16_high [OF m] False v(1)
      by (simp add: v_def [symmetric] octets_def low_two surrogate_bytes byte_of_shift byte_of_u32)
    with n w l show ?thesis by (simp add: plus_3 Let_def put_utf16_def wr_ok overlay_Cons)
  qed
next
  show "(if length (enc m) = 4 then 4 else 2) = length (utf16 m)" if "scalar m" for m
    by (simp add: length_enc length_utf16)
qed simp

section \<open>Encoding\<close>

text \<open>The masked and shifted parts of a byte as numbers, and how the code joins them\<close>

lemma shifted_field: "push_bit k (b AND mask j) = (word_of_nat (unat b mod 2 ^ j * 2 ^ k) :: byte)"
  by (simp only: low_field push_bit_of_nat push_bit_eq_mult [of k "_ :: nat"])

lemma high_field: "drop_bit k (b AND push_bit k (mask i)) = (word_of_nat (unat b mod 2 ^ (k + i) div 2 ^ k) :: byte)"
proof (rule unsigned_word_eqI)
  have "drop_bit k (b AND push_bit k (mask i)) = drop_bit k (b AND mask (k + i))"
    by (rule bit_eqI) (auto simp: bit_simps)
  moreover have "unat b mod 2 ^ (k + i) div 2 ^ k < 256"
    using mod_less_eq_dividend [of "unat b" "2 ^ (k + i)"] unat_byte_less [of b]
      div_le_dividend [of "unat b mod 2 ^ (k + i)" "2 ^ k"] by linarith
  ultimately show "unat (drop_bit k (b AND push_bit k (mask i))) = unat (word_of_nat (unat b mod 2 ^ (k + i) div 2 ^ k) :: byte)"
    by (simp only: unat_drop_bit unat_and_mask byte_of_nat)
qed

lemma byte_fields:
  "b AND 0x3F = (word_of_nat (unat b mod 64) :: byte)"
  "b AND 0x7F = (word_of_nat (unat b mod 128) :: byte)"
  "drop_bit 6 (b AND 0xC0) = (word_of_nat (unat b div 64) :: byte)"
  "push_bit 2 (b AND 0x0F) = (word_of_nat (unat b mod 16 * 4) :: byte)"
  "push_bit 2 (b AND 0x07) = (word_of_nat (unat b mod 8 * 4) :: byte)"
  "push_bit 2 (b AND 0x03) = (word_of_nat (unat b mod 4 * 4) :: byte)"
  "push_bit 4 (b AND 0x03) = (word_of_nat (unat b mod 4 * 16) :: byte)"
  "drop_bit 4 (b AND 0xF0) = (word_of_nat (unat b div 16) :: byte)"
  "drop_bit 2 (b AND 0x1C) = (word_of_nat (unat b mod 32 div 4) :: byte)"
  "drop_bit 2 (b AND 0x3C) = (word_of_nat (unat b mod 64 div 4) :: byte)"
  using low_field [of b 6] low_field [of b 7] high_field [of 6 b 2] shifted_field [of 2 b 4] shifted_field [of 2 b 3]
    shifted_field [of 2 b 2] shifted_field [of 4 b 2] high_field [of 4 b 4] high_field [of 2 b 3] high_field [of 2 b 4]
    unat_byte_less [of b]
  by (simp_all add: mask_eq_exp_minus_1)

lemma below:
  assumes "list_all P [0..<n]" "x < n"
  shows "P (x :: nat)"
  using assms by (simp add: list_all_iff)

lemma join_bytes:
  "x < 64 \<Longrightarrow> 0x80 OR (word_of_nat x :: byte) = word_of_nat (128 + x)"
  "x < 32 \<Longrightarrow> 0xC0 OR (word_of_nat x :: byte) = word_of_nat (192 + x)"
  "x < 16 \<Longrightarrow> 0xE0 OR (word_of_nat x :: byte) = word_of_nat (224 + x)"
  "x < 8 \<Longrightarrow> 0xF0 OR (word_of_nat x :: byte) = word_of_nat (240 + x)"
  by (erule below [rotated], code_simp)+

lemma join_fields:
  "x < 4 \<Longrightarrow> y < 16 \<Longrightarrow> 0x80 OR (word_of_nat (x * 16) OR word_of_nat y :: byte) = word_of_nat (128 + (x * 16 + y))"
  "x < 16 \<Longrightarrow> y < 4 \<Longrightarrow> 0x80 OR (word_of_nat (x * 4) OR word_of_nat y :: byte) = word_of_nat (128 + (x * 4 + y))"
  "x < 8 \<Longrightarrow> y < 4 \<Longrightarrow> 0xC0 OR (word_of_nat (x * 4) OR word_of_nat y :: byte) = word_of_nat (192 + (x * 4 + y))"
  "x < 4 \<Longrightarrow> y < 4 \<Longrightarrow> word_of_nat (x * 4) OR word_of_nat y = (word_of_nat (x * 4 + y) :: byte)"
proof -
  have "list_all (\<lambda>x. list_all (\<lambda>y. 0x80 OR (word_of_nat (x * 16) OR word_of_nat y :: byte) = word_of_nat (128 + (x * 16 + y))) [0..<16]) [0..<4]"
    by code_simp
  then show "x < 4 \<Longrightarrow> y < 16 \<Longrightarrow> 0x80 OR (word_of_nat (x * 16) OR word_of_nat y :: byte) = word_of_nat (128 + (x * 16 + y))"
    by (simp add: list_all_iff)
  have "list_all (\<lambda>x. list_all (\<lambda>y. 0x80 OR (word_of_nat (x * 4) OR word_of_nat y :: byte) = word_of_nat (128 + (x * 4 + y))) [0..<4]) [0..<16]"
    by code_simp
  then show "x < 16 \<Longrightarrow> y < 4 \<Longrightarrow> 0x80 OR (word_of_nat (x * 4) OR word_of_nat y :: byte) = word_of_nat (128 + (x * 4 + y))"
    by (simp add: list_all_iff)
  have "list_all (\<lambda>x. list_all (\<lambda>y. 0xC0 OR (word_of_nat (x * 4) OR word_of_nat y :: byte) = word_of_nat (192 + (x * 4 + y))) [0..<4]) [0..<8]"
    by code_simp
  then show "x < 8 \<Longrightarrow> y < 4 \<Longrightarrow> 0xC0 OR (word_of_nat (x * 4) OR word_of_nat y :: byte) = word_of_nat (192 + (x * 4 + y))"
    by (simp add: list_all_iff)
  have "list_all (\<lambda>x. list_all (\<lambda>y. word_of_nat (x * 4) OR word_of_nat y = (word_of_nat (x * 4 + y) :: byte)) [0..<4]) [0..<4]"
    by code_simp
  then show "x < 4 \<Longrightarrow> y < 4 \<Longrightarrow> word_of_nat (x * 4) OR word_of_nat y = (word_of_nat (x * 4 + y) :: byte)"
    by (simp add: list_all_iff)
qed

text \<open>Two bytes make the three-byte form and the two-byte form of a number below \<open>10000\<close>.\<close>

lemma utf16_bytes_enc: "utf16_bytes h0 h1 = enc (unat h0 * 256 + unat h1)"
proof -
  define n s t u where "n = unat h0 div 16" and "s = unat h0 mod 16" and "t = unat h1 div 64" and "u = unat h1 mod 64"
  have b: "n < 16" "s < 16" "t < 4" "u < 64" "unat h0 = n * 16 + s" "unat h1 = t * 64 + u"
    using unat_byte_less [of h0] unat_byte_less [of h1] by (auto simp: n_def s_def t_def u_def)
  have m: "unat h0 * 256 + unat h1 = (n * 64 + (s * 4 + t)) * 64 + u" using b(5,6) by simp
  have st: "s * 4 + t < 64" using b(2,3) by simp
  show ?thesis
  proof (cases "h0 < 8")
    case False
    then have "8 \<le> unat h0" by (simp add: word_less_nat_alt)
    then have "2048 \<le> (n * 64 + (s * 4 + t)) * 64 + u" using m by linarith
    then have "enc (unat h0 * 256 + unat h1) = octets [224 + n, 128 + (s * 4 + t), 128 + u]"
      using utf8_parts(2) [OF st b(4) b(4) _ b(1)] m by (simp add: enc_def)
    moreover have "utf16_bytes h0 h1 = [0xE0 OR word_of_nat n, 0x80 OR (word_of_nat (s * 4) OR word_of_nat t), 0x80 OR word_of_nat u]"
      using False unfolding utf16_bytes_def byte_fields n_def s_def t_def u_def or.assoc by auto
    ultimately show ?thesis using b(1-4) by (simp only: join_bytes join_fields octets_def list.map)
  next
    case True
    then have s: "n = 0" "s = unat h0" "s < 8" by (simp_all add: word_less_nat_alt n_def s_def)
    have one: "h1 AND 0x80 = 0 \<longleftrightarrow> unat h1 < 128" by (rule byte_classes(1))
    show ?thesis
    proof (cases "s * 4 + t < 2")
      case True
      then have "s = 0" "t < 2" by linarith+
      then have z: "h0 = 0" "unat h1 < 128" using s(2) b(4,6) by (auto intro: unsigned_word_eqI)
      then show ?thesis by (simp add: utf16_bytes_def one byte_fields enc_def utf8_def octets_def)
    next
      case False
      then have "enc (unat h0 * 256 + unat h1) = octets [192 + (s * 4 + t), 128 + u]"
        using utf8_parts(1) [OF b(4) b(4) b(4), of "s * 4 + t"] s b(3) unfolding enc_def m s(1) by simp
      moreover have "\<not> (h0 = 0 \<and> h1 AND 0x80 = 0)" using False s(2) b(4,6) one by auto
      then have "utf16_bytes h0 h1 = [0xC0 OR (word_of_nat (unat h0 mod 8 * 4) OR word_of_nat t), 0x80 OR word_of_nat u]"
        using \<open>h0 < 8\<close> unfolding utf16_bytes_def byte_fields t_def u_def or.assoc by auto
      moreover have "unat h0 mod 8 = s" using s by simp
      ultimately show ?thesis using s(3) b(3,4) by (simp only: join_bytes join_fields octets_def list.map)
    qed
  qed
qed

lemma ucs4_bytes_enc:
  assumes "unat b1 \<le> 16"
  shows "ucs4_bytes b1 b2 b3 = enc (unat b1 * 65536 + unat b2 * 256 + unat b3)"
proof (cases "b1 = 0")
  case True
  have "b3 \<ge> 0x80 \<longleftrightarrow> b3 AND 0x80 \<noteq> 0" by (auto simp: byte_classes(1) word_le_nat_alt)
  moreover have "b2 > 0 \<longleftrightarrow> b2 \<noteq> 0" by (simp add: word_gt_0)
  moreover have "b2 \<ge> 8 \<longleftrightarrow> \<not> b2 < 8" "\<not> b1 \<ge> 1" using True by auto
  ultimately have "ucs4_bytes b1 b2 b3 = utf16_bytes b2 b3" by (auto simp: ucs4_bytes_def utf16_bytes_def)
  then show ?thesis using True by (simp add: utf16_bytes_enc)
next
  case False
  define p q n s t u where "p = unat b1 div 4" and "q = unat b1 mod 4" and "n = unat b2 div 16" and "s = unat b2 mod 16"
    and "t = unat b3 div 64" and "u = unat b3 mod 64"
  have b: "q < 4" "n < 16" "s < 16" "t < 4" "u < 64" "p < 8"
      "unat b1 = p * 4 + q" "unat b2 = n * 16 + s" "unat b3 = t * 64 + u"
    using unat_byte_less [of b2] unat_byte_less [of b3] assms
    by (auto simp: p_def q_def n_def s_def t_def u_def)
  have m: "unat b1 * 65536 + unat b2 * 256 + unat b3 = ((p * 64 + (q * 16 + n)) * 64 + (s * 4 + t)) * 64 + u"
    using b(7-9) by simp
  have xy: "q * 16 + n < 64" "s * 4 + t < 64" using b(1-4) by simp_all
  have "1 \<le> unat b1" using False by (simp add: Suc_le_eq unat_gt_0)
  then have "65536 \<le> ((p * 64 + (q * 16 + n)) * 64 + (s * 4 + t)) * 64 + u" using m by linarith
  then have "enc (unat b1 * 65536 + unat b2 * 256 + unat b3) = octets [240 + p, 128 + (q * 16 + n), 128 + (s * 4 + t), 128 + u]"
    using utf8_parts(3) [OF xy b(5)] m by (simp add: enc_def)
  moreover have "b1 \<ge> 1" using \<open>1 \<le> unat b1\<close> by (simp add: word_le_nat_alt)
  then have "ucs4_bytes b1 b2 b3 = [0xF0 OR word_of_nat (unat b1 mod 32 div 4), 0x80 OR (word_of_nat (q * 16) OR word_of_nat n),
      0x80 OR (word_of_nat (s * 4) OR word_of_nat t), 0x80 OR word_of_nat u]"
    unfolding ucs4_bytes_def byte_fields q_def n_def s_def t_def u_def or.assoc by simp
  moreover have "unat b1 mod 32 div 4 = p" using assms by (simp add: p_def)
  ultimately show ?thesis using b(1-6) by (simp only: join_bytes join_fields octets_def list.map)
qed

lemma utf16_pair_bytes_enc:
  "utf16_pair_bytes h0 h1 l0 l1 =
    enc (0x10000 + ((unat h0 mod 4 * 256 + unat h1) * 1024 + (unat l0 mod 4 * 256 + unat l1)))"
proof -
  define h t r v l y z where "h = unat h0 mod 4" and "t = unat h1 div 64" and "r = unat h1 mod 64 div 4" and "v = unat h1 mod 4"
    and "l = unat l0 mod 4" and "y = unat l1 div 64" and "z = unat l1 mod 64"
  define a where "a = h * 4 + t + 1"
  define p q where "p = a div 4" and "q = a mod 4"
  have v: "unat h1 mod 64 mod 4 = v" unfolding v_def by (rule mod_mod_cancel) simp
  have b: "h < 4" "t < 4" "r < 16" "v < 4" "l < 4" "y < 4" "z < 64" "p < 8" "q < 4" "a < 32"
    using unat_byte_less [of h1] unat_byte_less [of l1]
    by (auto simp: h_def t_def r_def v_def l_def y_def z_def p_def q_def a_def)
  have h1: "unat h1 = t * 64 + (r * 4 + v)"
    using div_mult_mod_eq [of "unat h1" 64] div_mult_mod_eq [of "unat h1 mod 64" 4] unfolding t_def r_def v by linarith
  have l1: "unat l1 = y * 64 + z" by (simp add: y_def z_def)
  have "p * 4 + q = a" by (simp add: p_def q_def)
  then have "p * 4 + q = h * 4 + t + 1" by (simp add: a_def)
  then have "65536 * (p * 4 + q) = 65536 * (h * 4 + t + 1)" by simp
  then have m: "0x10000 + ((unat h0 mod 4 * 256 + unat h1) * 1024 + (unat l0 mod 4 * 256 + unat l1)) =
      ((p * 64 + (q * 16 + r)) * 64 + (v * 16 + (l * 4 + y))) * 64 + z"
    unfolding h_def [symmetric] l_def [symmetric] h1 l1 by (simp add: algebra_simps)
  have xy: "q * 16 + r < 64" "v * 16 + (l * 4 + y) < 64" "l * 4 + y < 16" using b(1-9) by simp_all
  have "enc (0x10000 + ((unat h0 mod 4 * 256 + unat h1) * 1024 + (unat l0 mod 4 * 256 + unat l1))) =
      octets [240 + p, 128 + (q * 16 + r), 128 + (v * 16 + (l * 4 + y)), 128 + z]"
    using utf8_parts(3) [OF xy(1,2) b(7), of p] m by (simp add: enc_def)
  moreover have "utf16_pair_bytes h0 h1 l0 l1 = [0xF0 OR word_of_nat (a mod 32 div 4), 0x80 OR (word_of_nat (q * 16) OR word_of_nat r),
      0x80 OR (word_of_nat (v * 16) OR (word_of_nat (l * 4) OR word_of_nat y)), 0x80 OR word_of_nat z]"
  proof -
    have "(push_bit 2 (h0 AND 0x03) OR drop_bit 6 (h1 AND 0xC0)) + 1 = (word_of_nat a :: byte)"
      unfolding byte_fields h_def [symmetric] t_def [symmetric] join_fields(4) [OF b(1,2)] a_def by simp
    moreover have "unat (word_of_nat a :: byte) = a" using b(10) by (intro byte_of_nat) simp
    ultimately show ?thesis
      by (simp only: utf16_pair_bytes_def Let_def byte_fields [where b = "word_of_nat a"]
        byte_fields(6) [of l0] byte_fields(10) [of h1] byte_fields(7) [of h1] byte_fields(3) [of l1] byte_fields(1) [of l1]
        q_def r_def v_def l_def y_def z_def or.assoc)
  qed
  moreover have "a mod 32 div 4 = p" using b(10) by (simp add: p_def)
  ultimately show ?thesis using b(1-9) xy by (simp only: join_bytes join_fields octets_def list.map)
qed

section \<open>Converting to UTF-8\<close>

lemma store_overlay: "len + length xs \<le> length ob \<Longrightarrow> store ob len xs = Some (overlay ob len xs)"
  by (induction xs arbitrary: ob len) (simp_all add: wr_ok overlay_Cons)

lemma rd_piece:
  assumes "drop i (take n b) = xs @ r" "n \<le> length b" "i \<le> n"
  shows "j < length xs \<Longrightarrow> rd b (i + j) = Some (xs ! j)" and "i + length xs \<le> n"
    and "drop (i + length xs) (take n b) = r"
proof -
  have l: "n - i = length xs + length r" using arg_cong [OF assms(1), of length] assms(2) by simp
  then show "i + length xs \<le> n" using assms(3) by linarith
  show "drop (i + length xs) (take n b) = r" using assms(1) by (metis append_eq_conv_conj drop_drop add.commute)
  show "rd b (i + j) = Some (xs ! j)" if "j < length xs"
  proof -
    have "i + j < n" using l that assms(3) by linarith
    moreover have "(xs @ r) ! j = take n b ! (i + j)" using \<open>i + j < n\<close> assms(1,2) by (metis nth_drop order_less_imp_le
      add_leD1 length_take min.absorb2)
    ultimately show ?thesis using that assms(2) by (simp add: rd_ok nth_append)
  qed
qed

definition below32 :: "nat \<Rightarrow> bool" where "below32 m \<longleftrightarrow> m < 4294967296"

lemma ucs4_count_step:
  assumes "drop i (take n b) = ucs4 m @ r" "n \<le> length b" "n < 1073741824" "i \<le> n" "len \<le> i" "m < 4294967296"
  shows "ucs4_count b n i len =
    (if m < 0x110000 then ucs4_count b n (i + 4) (len + length (enc m)) else Some None)"
proof -
  note P = rd_piece [OF assms(1,2,4)]
  have i: "i < n" using P(2) by simp
  have rd: "rd b i = Some (word_of_nat (m div 16777216))" "rd b (i + 1) = Some (word_of_nat (m div 65536 mod 256))"
    "rd b (i + 2) = Some (word_of_nat (m div 256 mod 256))" "rd b (i + 3) = Some (word_of_nat (m mod 256))"
    using P(1) [of 0] P(1) [of 1] P(1) [of 2] P(1) [of 3] by (simp_all add: ucs4_def octets_def)
  have w: "wrap (i + 4) = i + 4" using P(2) assms(3) by simp
  have wl: "wrap (len + k) = len + k" if "k \<le> 4" for k using that P(2) assms(3,5) by simp
  have g: "(0 :: byte) < word_of_nat x \<longleftrightarrow> 0 < x" "(8 :: byte) \<le> word_of_nat x \<longleftrightarrow> 8 \<le> x" "(1 :: byte) \<le> word_of_nat x \<longleftrightarrow> 1 \<le> x"
    "(16 :: byte) < word_of_nat x \<longleftrightarrow> 16 < x" "(128 :: byte) \<le> word_of_nat x \<longleftrightarrow> 128 \<le> x" if "x < 256" for x
    using that by (simp_all add: word_less_nat_alt word_le_nat_alt byte_of_nat)
  have q: "m div 16777216 < 256" "m div 65536 mod 256 < 256" "m div 256 mod 256 < 256" "m mod 256 < 256"
    using assms(6) by simp_all
  show ?thesis
  proof (cases "m < 0x110000")
    case False
    then have "0 < m div 16777216 \<or> 16 < m div 65536 mod 256" by (cases "m < 16777216") auto
    then have "0 < m div 16777216 \<or> \<not> 0 < m div 16777216 \<and> 16 < m div 65536 mod 256" by blast
    then show ?thesis
    proof
      assume "0 < m div 16777216"
      then show ?thesis using False i by (subst ucs4_count.simps) (simp only: rd g [OF q(1)] if_True if_False bind.bind_lunit)
    next
      assume "\<not> 0 < m div 16777216 \<and> 16 < m div 65536 mod 256"
      then show ?thesis using False i
        by (subst ucs4_count.simps) (simp only: rd g [OF q(1)] g [OF q(2)] if_True if_False bind.bind_lunit)
    qed
  next
    case True
    define k where "k = (if 1 \<le> m div 65536 mod 256 then 4 else if 8 \<le> m div 256 mod 256 then 3
      else if 0 < m div 256 mod 256 then 2 else if 128 \<le> m mod 256 then 2 else 1 :: nat)"
    have b1: "m div 65536 mod 256 = m div 65536" "m div 65536 \<le> 16" "m div 16777216 = 0" using True by simp_all
    define c0 c1 c2 c3 where "c0 = (word_of_nat (m div 16777216) :: byte)" and "c1 = (word_of_nat (m div 65536 mod 256) :: byte)"
      and "c2 = (word_of_nat (m div 256 mod 256) :: byte)" and "c3 = (word_of_nat (m mod 256) :: byte)"
    note c = c0_def c1_def c2_def c3_def
    have k: "k = (if 1 \<le> c1 then 4 else if 8 \<le> c2 then 3 else if 0 < c2 then 2 else if 128 \<le> c3 then 2 else 1)"
      unfolding k_def c g [OF q(2)] g [OF q(3)] g [OF q(4)] ..
    have "\<not> 0 < c0" "\<not> 16 < c1" unfolding c g [OF q(1)] g [OF q(2)] using b1 by simp_all
    then have "ucs4_count b n i len = ucs4_count b n (wrap (i + 4)) (wrap (len + k))"
      using i by (subst ucs4_count.simps) (simp add: rd [folded c] k del: One_nat_def add_2_eq_Suc')
    moreover have "k = length (enc m)"
    proof -
      consider "m < 128" | "128 \<le> m" "m < 256" | "256 \<le> m" "m < 2048" | "2048 \<le> m" "m < 65536" | "65536 \<le> m" by linarith
      then show ?thesis by cases (auto simp: k_def length_enc b1)
    qed
    ultimately show ?thesis using True w wl [of "length (enc m)"] by (simp add: length_enc)
  qed
qed

lemma ucs4_count_eq:
  assumes "n \<le> length b" "n < 1073741824" "i \<le> n" "len \<le> i" "drop i (take n b) = concat (map ucs4 ms)" "list_all below32 ms"
  shows "ucs4_count b n i len =
    Some (if list_all (\<lambda>m. m < 0x110000) ms then Some (len + length (concat (map enc ms))) else None)"
  using assms(3-6)
proof (induction ms arbitrary: i len)
  case Nil
  then show ?case using assms(1) by (simp add: ucs4_count.simps)
next
  case (Cons m ms)
  then have d: "drop i (take n b) = ucs4 m @ concat (map ucs4 ms)" and m: "m < 4294967296" by (simp_all add: below32_def)
  note P = rd_piece [OF d assms(1) Cons(2)]
  have "len + length (enc m) \<le> i + 4" using Cons(3) by (simp add: length_enc)
  then show ?case
    using Cons(1) [of "i + 4" "len + length (enc m)"] P(2,3) Cons(5) ucs4_count_step [OF d assms(1,2) Cons(2,3) m] by simp
qed

lemma ucs4_encode_eq:
  assumes "n \<le> length b" "n < 1073741824" "i \<le> n" "len \<le> i" "drop i (take n b) = concat (map ucs4 ms)"
    "list_all (\<lambda>m. m < 0x110000) ms" "len + length (concat (map enc ms)) \<le> length ob"
  shows "ucs4_encode b n i ob len = Some (overlay ob len (concat (map enc ms)), len + length (concat (map enc ms)))"
  using assms(3-7)
proof (induction ms arbitrary: i len ob)
  case Nil
  then show ?case using assms(1) by (simp add: ucs4_encode.simps)
next
  case (Cons m ms)
  then have d: "drop i (take n b) = ucs4 m @ concat (map ucs4 ms)" and m: "m < 0x110000" by simp_all
  note P = rd_piece [OF d assms(1) Cons(2)]
  have rd: "rd b (i + 1) = Some (word_of_nat (m div 65536 mod 256))"
    "rd b (i + 2) = Some (word_of_nat (m div 256 mod 256))" "rd b (i + 3) = Some (word_of_nat (m mod 256))"
    using P(1) [of 1] P(1) [of 2] P(1) [of 3] by (simp_all add: ucs4_def octets_def)
  have "m div 65536 mod 256 = m div 65536" "m div 65536 \<le> 16" using m by simp_all
  then have u: "unat (word_of_nat (m div 65536 mod 256) :: byte) = m div 65536"
    "unat (word_of_nat (m div 256 mod 256) :: byte) = m div 256 mod 256" "unat (word_of_nat (m mod 256) :: byte) = m mod 256"
    "m div 65536 \<le> 16" by (simp_all add: byte_of_nat)
  have "m div 65536 * 65536 + m div 256 mod 256 * 256 + m mod 256 = m"
  proof -
    define q where "q = m div 256"
    have "m div 65536 = q div 256" by (simp add: q_def div_mult2_eq [symmetric])
    moreover have "q div 256 * 256 + q mod 256 = q" "q * 256 + m mod 256 = m" by (simp_all add: q_def)
    ultimately show ?thesis unfolding q_def [symmetric] by linarith
  qed
  then have x: "ucs4_bytes (word_of_nat (m div 65536 mod 256)) (word_of_nat (m div 256 mod 256)) (word_of_nat (m mod 256)) = enc m"
    using ucs4_bytes_enc [of "word_of_nat (m div 65536 mod 256)"] u by (simp only:)
  have o: "len + length (enc m) \<le> length ob" "len + length (enc m) \<le> i + 4"
    using Cons(3,6) by (simp_all add: length_enc)
  have "i + 4 \<le> n" using P(2) by simp
  then have w: "wrap (i + 4) = i + 4" "wrap (len + length (enc m)) = len + length (enc m)" using o(2) assms(2) by simp_all
  have "ucs4_encode b n i ob len = ucs4_encode b n (i + 4) (overlay ob len (enc m)) (len + length (enc m))"
    using \<open>i + 4 \<le> n\<close> by (subst ucs4_encode.simps) (simp add: rd x store_overlay [OF o(1)] w Let_def del: One_nat_def add_2_eq_Suc')
  also have "\<dots> = Some (overlay (overlay ob len (enc m)) (len + length (enc m)) (concat (map enc ms)),
      len + length (enc m) + length (concat (map enc ms)))"
    using Cons(1) [of "i + 4" "len + length (enc m)" "overlay ob len (enc m)"] P(3) \<open>i + 4 \<le> n\<close> o Cons(5,6)
    by (simp add: length_overlay)
  finally show ?case using o(1) by (simp add: overlay_append add.assoc)
qed

text \<open>
  The test \<open>(h & 0xDC) == 0xD8\<close> takes the units \<open>F800\<close> to \<open>FBFF\<close> for high surrogates, and the first pass counts one
  byte for every number below \<open>100\<close>: \<open>plain\<close> leaves the first out, \<open>counted\<close> is the second.
\<close>

definition plain :: "nat \<Rightarrow> bool" where
  "plain m \<longleftrightarrow> scalar m \<and> \<not> (0xF800 \<le> m \<and> m < 0xFC00)"

definition counted :: "nat \<Rightarrow> nat" where
  "counted m = (if m < 0x100 then 1 else length (enc m))"

lemma unit_tests:
  assumes "plain m" "m < 0x10000"
  defines "h \<equiv> word_of_nat (m div 256) :: byte"
  shows "h = 0 \<longleftrightarrow> m < 0x100" "h < 8 \<longleftrightarrow> m < 0x800" "h AND 0xDC \<noteq> 0xD8" "unat h = m div 256"
proof -
  have "m div 256 < 256" using assms(2) by simp
  then show u: "unat h = m div 256" by (simp add: h_def byte_of_nat)
  have "h = 0 \<longleftrightarrow> unat h = 0" by (auto intro: unsigned_word_eqI)
  then show "h = 0 \<longleftrightarrow> m < 0x100" using u by auto
  show "h < 8 \<longleftrightarrow> m < 0x800" using u by (auto simp: word_less_nat_alt)
  have "\<not> (216 \<le> m div 256 \<and> m div 256 < 220)" "\<not> (248 \<le> m div 256 \<and> m div 256 < 252)"
    using assms(1) by (auto simp: plain_def scalar_def)
  then show "h AND 0xDC \<noteq> 0xD8" by (simp add: surrogate_tests(1) u)
qed

text \<open>A pair of surrogates, as bytes\<close>

lemma pair_tests:
  assumes "0x10000 \<le> m" "m < 0x110000"
  defines "v \<equiv> m - 0x10000"
  obtains h0 h1 l0 l1 :: byte where
    "utf16 m = [h0, h1, l0, l1]" "\<not> h0 < 8" "h0 AND 0xDC = 0xD8" "l0 AND 0xDC = 0xDC" "utf16_pair_bytes h0 h1 l0 l1 = enc m"
proof -
  define a b where "a = v div 262144 mod 4" and "b = v div 256 mod 4"
  define h1 l1 where "h1 = v div 1024 mod 256" and "l1 = v mod 256"
  have ab: "a < 4" "b < 4" "h1 < 256" "l1 < 256" by (simp_all add: a_def b_def h1_def l1_def)
  have u: "unat (word_of_nat (216 + a) :: byte) = 216 + a" "unat (word_of_nat (220 + b) :: byte) = 220 + b"
    "unat (word_of_nat h1 :: byte) = h1" "unat (word_of_nat l1 :: byte) = l1"
    using ab by (simp_all only: byte_of_nat)
  have "a = v div 262144" using assms by (simp add: a_def)
  then have "a * 256 + h1 = v div 1024"
    using div_mult_mod_eq [of "v div 1024" 256] by (simp add: h1_def div_mult2_eq [symmetric])
  moreover have "b * 256 + l1 = v mod 1024"
    using div_mult_mod_eq [of "v mod 1024" 256] mod_mult2_eq [of v 256 4] mod_mod_cancel [of 256 1024 v]
    by (simp add: b_def l1_def)
  ultimately have v: "(a * 256 + h1) * 1024 + (b * 256 + l1) = v" by simp
  have "(216 + a) mod 4 = a" "(220 + b) mod 4 = b"
    using ab mod_range [of 54 4 "216 + a"] mod_range [of 55 4 "220 + b"] by simp_all
  then have "utf16_pair_bytes (word_of_nat (216 + a)) (word_of_nat h1) (word_of_nat (220 + b)) (word_of_nat l1) = enc (0x10000 + v)"
    unfolding utf16_pair_bytes_enc u using v by simp
  moreover have "0x10000 + v = m" using assms by (simp add: v_def)
  ultimately show ?thesis
  proof (intro that [of "word_of_nat (216 + a)" "word_of_nat h1" "word_of_nat (220 + b)" "word_of_nat l1"])
    show "utf16 m = [word_of_nat (216 + a), word_of_nat h1, word_of_nat (220 + b), word_of_nat l1]"
      using utf16_high [OF assms(2,1)] by (simp only: v_def [symmetric] octets_def list.map a_def b_def h1_def l1_def)
    show "\<not> (word_of_nat (216 + a) :: byte) < 8" using u(1) by (simp add: word_less_nat_alt del: of_nat_add)
    show "(word_of_nat (216 + a) :: byte) AND 0xDC = 0xD8" unfolding surrogate_tests(1) u using ab by simp
    show "(word_of_nat (220 + b) :: byte) AND 0xDC = 0xDC" unfolding surrogate_tests(2) u using ab by simp
  qed simp
qed

lemma utf16_count_step:
  assumes "drop i (take n b) = utf16 m @ r" "n \<le> length b" "n < 1073741824" "i \<le> n" "len \<le> 2 * i" "plain m"
  shows "utf16_count b n i len = utf16_count b n (i + length (utf16 m)) (len + counted m)"
proof -
  note P = rd_piece [OF assms(1,2,4)]
  have i: "i < n" using P(2) by (simp add: length_utf16 split: if_splits)
  have w: "wrap (i + j) = i + j" if "j \<le> 4" for j using that i assms(3) by simp
  have wl: "wrap (len + j) = len + j" if "j \<le> 4" for j using that i assms(3,5) by simp
  show ?thesis
  proof (cases "m < 0x10000")
    case True
    define h where "h = (word_of_nat (m div 256) :: byte)"
    have rd: "rd b i = Some h" using P(1) [of 0] True by (simp add: utf16_def unit16_def octets_def h_def)
    note T = unit_tests [OF assms(6) True, folded h_def]
    have "utf16_count b n i len = utf16_count b n (wrap (i + 2)) (wrap (len + counted m))"
      using i rd T by (subst utf16_count.simps) (auto simp: counted_def length_enc True)
    moreover have "counted m \<le> 4" by (simp add: counted_def length_enc)
    ultimately show ?thesis using True w [of 2] wl by (simp add: length_utf16)
  next
    case False
    moreover have "m < 0x110000" using assms(6) scalar_bound by (simp add: plain_def)
    ultimately obtain h0 h1 l0 l1 where U: "utf16 m = [h0, h1, l0, l1]" "\<not> h0 < 8" "h0 AND 0xDC = 0xD8" "l0 AND 0xDC = 0xDC"
      using pair_tests by (metis not_less)
    have rd: "rd b i = Some h0" "rd b (i + 2) = Some l0" using P(1) [of 0] P(1) [of 2] by (simp_all add: U)
    have n: "n - i > 2" using P(2) U by simp
    have "h0 \<noteq> 0" using U(2) by auto
    then have "utf16_count b n i len = utf16_count b n (wrap (wrap (i + 2) + 2)) (wrap (len + 4))"
      using i rd U n by (subst utf16_count.simps) (simp del: add_2_eq_Suc')
    moreover have "counted m = 4" using False by (simp add: counted_def length_enc)
    moreover have "wrap (wrap (i + 2) + 2) = i + 4"
      using w [of 4] w [of 2] by (simp add: add.assoc del: add_2_eq_Suc')
    moreover have "length (utf16 m) = 4" by (simp add: U(1))
    ultimately show ?thesis using wl by simp
  qed
qed

lemma utf16_count_eq:
  assumes "n \<le> length b" "n < 1073741824" "i \<le> n" "len \<le> 2 * i" "drop i (take n b) = concat (map utf16 ms)" "list_all plain ms"
  shows "utf16_count b n i len = Some (Some (len + sum_list (map counted ms)))"
  using assms(3-6)
proof (induction ms arbitrary: i len)
  case Nil
  then show ?case using assms(1) by (simp add: utf16_count.simps)
next
  case (Cons m ms)
  then have d: "drop i (take n b) = utf16 m @ concat (map utf16 ms)" and m: "plain m" by simp_all
  note P = rd_piece [OF d assms(1) Cons(2)]
  have "len + counted m \<le> 2 * (i + length (utf16 m))" using Cons(3) by (simp add: counted_def length_enc length_utf16)
  then show ?case
    using Cons(1) [of "i + length (utf16 m)" "len + counted m"] P(2,3) Cons(5)
      utf16_count_step [OF d assms(1,2) Cons(2,3) m] by (simp add: add.assoc)
qed

lemma utf16_encode_step:
  assumes "drop i (take n b) = utf16 m @ r" "n \<le> length b" "n < 1073741824" "i \<le> n" "len \<le> 2 * i" "plain m"
    "len + length (enc m) \<le> length ob"
  shows "utf16_encode b n i ob len =
    utf16_encode b n (i + length (utf16 m)) (overlay ob len (enc m)) (len + length (enc m))"
proof -
  note P = rd_piece [OF assms(1,2,4)]
  have i: "i < n" using P(2) by (simp add: length_utf16 split: if_splits)
  have w: "wrap (i + j) = i + j" if "j \<le> 4" for j using that i assms(3) by simp
  have "length (enc m) \<le> 4" by (simp add: length_enc)
  then have wl: "wrap (len + length (enc m)) = len + length (enc m)" using i assms(3,5) by simp
  show ?thesis
  proof (cases "m < 0x10000")
    case True
    define h l where "h = (word_of_nat (m div 256) :: byte)" and "l = (word_of_nat (m mod 256) :: byte)"
    have rd: "rd b i = Some h" "rd b (i + 1) = Some l"
      using P(1) [of 0] P(1) [of 1] True by (simp_all add: utf16_def unit16_def octets_def h_def l_def)
    note T = unit_tests [OF assms(6) True, folded h_def]
    have "unat l = m mod 256" by (simp add: l_def byte_of_nat)
    then have x: "utf16_bytes h l = enc m" by (simp add: utf16_bytes_enc T(4))
    have "utf16_encode b n i ob len = utf16_encode b n (wrap (i + 2)) (overlay ob len (enc m)) (wrap (len + length (enc m)))"
      using i T(3) by (subst utf16_encode.simps)
        (simp add: rd x store_overlay [OF assms(7)] Let_def del: One_nat_def add_2_eq_Suc')
    then show ?thesis using True w [of 2] wl by (simp add: length_utf16)
  next
    case False
    moreover have "m < 0x110000" using assms(6) scalar_bound by (simp add: plain_def)
    ultimately obtain h0 h1 l0 l1 where U: "utf16 m = [h0, h1, l0, l1]" "\<not> h0 < 8" "h0 AND 0xDC = 0xD8"
      "utf16_pair_bytes h0 h1 l0 l1 = enc m"
      using pair_tests by (metis not_less)
    have rd: "rd b i = Some h0" "rd b (i + 1) = Some h1" "rd b (i + 2) = Some l0" "rd b (i + 3) = Some l1"
      using P(1) [of 0] P(1) [of 1] P(1) [of 2] P(1) [of 3] by (simp_all add: U(1))
    have "h0 \<ge> 8" using U(2) by simp
    then have "utf16_encode b n i ob len =
        utf16_encode b n (wrap (wrap (i + 2) + 2)) (overlay ob len (enc m)) (wrap (len + length (enc m)))"
      using i by (subst utf16_encode.simps)
        (simp add: rd U(3,4) store_overlay [OF assms(7)] Let_def del: One_nat_def add_2_eq_Suc')
    moreover have "wrap (wrap (i + 2) + 2) = i + 4"
      using w [of 4] w [of 2] by (simp add: add.assoc del: add_2_eq_Suc')
    moreover have "length (utf16 m) = 4" by (simp add: U(1))
    ultimately show ?thesis using wl by simp
  qed
qed

lemma utf16_encode_eq:
  assumes "n \<le> length b" "n < 1073741824" "i \<le> n" "len \<le> 2 * i" "drop i (take n b) = concat (map utf16 ms)"
    "list_all plain ms" "len + length (concat (map enc ms)) \<le> length ob"
  shows "utf16_encode b n i ob len = Some (overlay ob len (concat (map enc ms)), len + length (concat (map enc ms)))"
  using assms(3-7)
proof (induction ms arbitrary: i len ob)
  case Nil
  then show ?case using assms(1) by (simp add: utf16_encode.simps)
next
  case (Cons m ms)
  then have d: "drop i (take n b) = utf16 m @ concat (map utf16 ms)" and m: "plain m" by simp_all
  note P = rd_piece [OF d assms(1) Cons(2)]
  have o: "len + length (enc m) \<le> length ob" using Cons(6) by simp
  have l: "len + length (enc m) \<le> 2 * (i + length (utf16 m))" using Cons(3) by (simp add: length_enc length_utf16)
  have "utf16_encode b n i ob len = utf16_encode b n (i + length (utf16 m)) (overlay ob len (enc m)) (len + length (enc m))"
    by (rule utf16_encode_step [OF d assms(1,2) Cons(2,3) m o])
  also have "\<dots> = Some (overlay (overlay ob len (enc m)) (len + length (enc m)) (concat (map enc ms)),
      len + length (enc m) + length (concat (map enc ms)))"
    using Cons(1) [of "i + length (utf16 m)" "len + length (enc m)" "overlay ob len (enc m)"] P(2,3) l o Cons(5,6)
    by (simp add: length_overlay)
  finally show ?case using o by (simp add: overlay_append add.assoc)
qed

lemma latin1_pass:
  assumes "i + n = length b" "length b < 1073741824"
  shows "len \<le> 2 * i \<Longrightarrow> latin1_count b i n len = Some (len + length (concat (map (\<lambda>x. enc (unat x)) (drop i b))))"
    and "len \<le> 2 * i \<Longrightarrow> len + length (concat (map (\<lambda>x. enc (unat x)) (drop i b))) \<le> length ob \<Longrightarrow>
      latin1_encode b i n ob len = Some (overlay ob len (concat (map (\<lambda>x. enc (unat x)) (drop i b))),
        len + length (concat (map (\<lambda>x. enc (unat x)) (drop i b))))"
proof -
  have x: "latin1_bytes c = enc (unat c)" "length (enc (unat c)) = (if c AND 0x80 = 0 then 1 else 2)" for c :: byte
  proof -
    have t: "c AND 0x80 = 0 \<longleftrightarrow> unat c < 128" by (rule byte_classes(1))
    show "length (enc (unat c)) = (if c AND 0x80 = 0 then 1 else 2)" using unat_byte_less [of c] by (simp add: length_enc t)
    have "c AND 0x7F = c" if "unat c < 128"
      unfolding byte_fields(2) using that by simp
    then have "latin1_bytes c = utf16_bytes 0 c" by (auto simp: latin1_bytes_def utf16_bytes_def t)
    then show "latin1_bytes c = enc (unat c)" by (simp add: utf16_bytes_enc)
  qed
  show "len \<le> 2 * i \<Longrightarrow> latin1_count b i n len = Some (len + length (concat (map (\<lambda>x. enc (unat x)) (drop i b))))"
    using assms
  proof (induction n arbitrary: i len)
    case (Suc n)
    then have d: "drop i b = b ! i # drop (i + 1) b" by (simp add: Cons_nth_drop_Suc [symmetric])
    have "wrap (len + length (enc (unat (b ! i)))) = len + length (enc (unat (b ! i)))" using Suc(2-4) x(2) by simp
    then show ?case using Suc(1) [of "len + length (enc (unat (b ! i)))" "i + 1"] Suc(2-4) x(2) [of "b ! i"] d
      by (simp add: rd_ok)
  qed simp
  show "len \<le> 2 * i \<Longrightarrow> len + length (concat (map (\<lambda>x. enc (unat x)) (drop i b))) \<le> length ob \<Longrightarrow>
      latin1_encode b i n ob len = Some (overlay ob len (concat (map (\<lambda>x. enc (unat x)) (drop i b))),
        len + length (concat (map (\<lambda>x. enc (unat x)) (drop i b))))"
    using assms
  proof (induction n arbitrary: i len ob)
    case (Suc n)
    then have d: "drop i b = b ! i # drop (i + 1) b" by (simp add: Cons_nth_drop_Suc [symmetric])
    define e where "e = enc (unat (b ! i))"
    have o: "len + length e \<le> length ob" using Suc(3) d by (simp add: e_def)
    have "wrap (len + length e) = len + length e" "length e \<le> 2" using Suc(2,4,5) x(2) by (simp_all add: e_def)
    then show ?case using Suc(1) [of "len + length e" "i + 1" "overlay ob len e"] Suc(2-5) d o
      by (simp add: rd_ok x(1) e_def [symmetric] Let_def store_overlay length_overlay overlay_append add.assoc)
  qed simp
qed

section \<open>Properties\<close>

text \<open>C26: From UTF-8 both converters accept exactly the well-formed texts that fit: for every input (below 2^30 bytes) and every
  output buffer with room for \<open>maxOutBufLen\<close> bytes they return, without an access outside a buffer or an endless loop; they
  answer \<open>PR_TRUE\<close> exactly if the input is the UTF-8 form of some Unicode scalar values whose UCS-4 or UTF-16 form fits in
  \<open>maxOutBufLen\<close>, and then they store that form and its length; otherwise the bytes from \<open>maxOutBufLen\<close> on are unchanged.
  So overlong forms, surrogates, numbers above \<open>10FFFF\<close> and cut sequences are all refused.\<close>

theorem utf8_decodes_exactly:
  assumes "n \<le> length b" "n < 1073741824" "maxo \<le> length ob" "length ob < 4294967296"
    and "(conv, form) = (sec_port_ucs4_utf8_conversion_function, ucs4) \<or> (conv, form) = (sec_port_ucs2_utf8_conversion_function, utf16)"
  shows "\<exists>ok ob' l. conv True b n ob maxo l0 = Some (ok, ob', l) \<and> length ob' = length ob \<and> drop maxo ob' = drop maxo ob \<and>
    (ok \<longleftrightarrow> (\<exists>ms. list_all scalar ms \<and> take n b = concat (map enc ms) \<and> length (concat (map form ms)) \<le> maxo)) \<and>
    (\<forall>ms. ok \<and> list_all scalar ms \<and> take n b = concat (map enc ms) \<longrightarrow>
      ob' = overlay ob 0 (concat (map form ms)) \<and> l = length (concat (map form ms)))"
proof -
  from assms(5) show ?thesis
  proof
    assume c: "(conv, form) = (sec_port_ucs4_utf8_conversion_function, ucs4)"
    then have "conv True b n ob maxo l0 = from_utf8 (\<lambda>k. 4) put_ucs4 b n ob maxo l0"
      by (simp add: sec_port_ucs4_utf8_conversion_function_def)
    with ucs4_sink.from_utf8_iff [OF assms(1-4)] c show ?thesis by simp
  next
    assume c: "(conv, form) = (sec_port_ucs2_utf8_conversion_function, utf16)"
    then have "conv True b n ob maxo l0 = from_utf8 (\<lambda>k. if k = 4 then 4 else 2) put_utf16 b n ob maxo l0"
      by (simp add: sec_port_ucs2_utf8_conversion_function_def)
    with utf16_sink.from_utf8_iff [OF assms(1-4)] c show ?thesis by simp
  qed
qed

theorem utf8_decodes_exactly_witness:
  "\<exists>ok ob' l. sec_port_ucs4_utf8_conversion_function True [0xC3, 0xA9] 2 [7, 7, 7, 7, 7] 4 9 = Some (ok, ob', l) \<and> drop 4 ob' = [7]"
  using utf8_decodes_exactly [of 2 "[0xC3, 0xA9]" 4 "[7, 7, 7, 7, 7]" sec_port_ucs4_utf8_conversion_function ucs4 9]
  by simp blast

text \<open>C27: From UCS-4 to UTF-8, for every sequence of 32-bit numbers in network order and every output buffer with room for
  \<open>maxOutBufLen\<close> bytes: a number above \<open>10FFFF\<close> gives \<open>PR_FALSE\<close> and length 0; a text that does not fit gives \<open>PR_FALSE\<close> and the
  length it needs, the buffer unchanged; otherwise the UTF-8 form of the numbers is stored, and a further call from UTF-8 to UCS-4
  gives the numbers back if they are Unicode scalar values.\<close>

theorem utf8_ucs4_roundtrip:
  assumes "n \<le> length b" "n < 1073741824" "maxo \<le> length ob" "list_all (\<lambda>m. m < 4294967296) ms" "take n b = concat (map ucs4 ms)"
  shows "sec_port_ucs4_utf8_conversion_function False b n ob maxo l0 =
      Some (if \<not> list_all (\<lambda>m. m < 0x110000) ms then (False, ob, 0)
        else if length (concat (map enc ms)) > maxo then (False, ob, length (concat (map enc ms)))
        else (True, overlay ob 0 (concat (map enc ms)), length (concat (map enc ms)))) \<and>
    (list_all scalar ms \<longrightarrow>
      sec_port_ucs4_utf8_conversion_function True (concat (map enc ms)) (length (concat (map enc ms))) (replicate n 0) n l0 =
        Some (True, take n b, n))"
proof -
  have len: "length (concat (map ucs4 xs)) = 4 * length xs" for xs by (induction xs) simp_all
  have n: "n = 4 * length ms" using arg_cong [OF assms(5), of length] assms(1) len [of ms] by simp
  have el: "length (concat (map enc xs)) \<le> 4 * length xs" for xs
    by (induction xs) (simp_all add: length_enc add.commute add_mono)
  have b32: "list_all below32 ms" using assms(4) by (simp add: below32_def list_all_iff)
  have count: "ucs4_count b n 0 0 =
      Some (if list_all (\<lambda>m. m < 0x110000) ms then Some (length (concat (map enc ms))) else None)"
    using ucs4_count_eq [OF assms(1,2), of 0 0 ms] assms(5) b32 by simp
  have "sec_port_ucs4_utf8_conversion_function False b n ob maxo l0 =
      Some (if \<not> list_all (\<lambda>m. m < 0x110000) ms then (False, ob, 0)
        else if length (concat (map enc ms)) > maxo then (False, ob, length (concat (map enc ms)))
        else (True, overlay ob 0 (concat (map enc ms)), length (concat (map enc ms))))"
    using count ucs4_encode_eq [OF assms(1,2), of 0 0 ms ob] assms(3,5) n
    by (simp add: sec_port_ucs4_utf8_conversion_function_def)
  moreover have "from_utf8 (\<lambda>k. 4) put_ucs4 (concat (map enc ms)) (length (concat (map enc ms))) (replicate n 0) n l0 =
      Some (True, take n b, n)" if "list_all scalar ms"
    using ucs4_sink.from_utf8_exact(1) [of "length (concat (map enc ms))" "concat (map enc ms)" n "replicate n 0" ms l0]
      that el [of ms] n assms(1,2,5) len [of ms] by (simp add: overlay_all)
  ultimately show ?thesis by (simp add: sec_port_ucs4_utf8_conversion_function_def)
qed

theorem utf8_ucs4_roundtrip_witness:
  "sec_port_ucs4_utf8_conversion_function False [0, 0, 0x20, 0xAC] 4 [7, 7, 7, 7] 3 9 = Some (True, [0xE2, 0x82, 0xAC, 7], 3)"
  using utf8_ucs4_roundtrip [of 4 "[0, 0, 0x20, 0xAC]" 3 "[7, 7, 7, 7]" "[0x20AC]" 9]
  by (simp add: ucs4_def enc_def utf8_def octets_def overlay_def)

text \<open>C28: UTF-16 and ISO 8859-1. Every text of Unicode scalar values outside \<open>F800\<close> to \<open>FBFF\<close> is converted from UTF-16 to UTF-8
  if the buffer has room for its UTF-8 form, and back to the UTF-16 it came from; \<open>counted\<close> bytes must be within
  \<open>maxOutBufLen\<close>. And ISO 8859-1 text, of any bytes, is converted to the UTF-8 form of its bytes, or refused with the
  length it needs.\<close>

theorem utf8_utf16_roundtrip:
  assumes "n \<le> length b" "n < 536870912" "take n b = concat (map utf16 ms)" "list_all plain ms"
    "maxo \<le> length ob" "length (concat (map enc ms)) \<le> length ob" "length lb < 1073741824"
  shows "sec_port_ucs2_utf8_conversion_function False b n ob maxo l0 =
      Some (if sum_list (map counted ms) > maxo then (False, ob, sum_list (map counted ms))
        else (True, overlay ob 0 (concat (map enc ms)), length (concat (map enc ms)))) \<and>
    sec_port_ucs2_utf8_conversion_function True (concat (map enc ms)) (length (concat (map enc ms))) (replicate n 0) n l0 =
      Some (True, take n b, n) \<and>
    sec_port_iso88591_utf8_conversion_function lb (length lb) ob maxo l0 =
      Some (let u = concat (map (\<lambda>x. enc (unat x)) lb) in
        if length u > maxo then (False, ob, length u) else (True, overlay ob 0 u, length u))"
proof (intro conjI)
  have n30: "n < 1073741824" using assms(2) by simp
  have n: "n = length (concat (map utf16 ms))" using arg_cong [OF assms(3), of length] assms(1) by simp
  have "even (length (utf16 m))" for m by (simp add: length_utf16)
  then have even: "length (concat (map utf16 xs)) mod 2 = 0" for xs by (induction xs) (simp_all add: mod_2_eq_odd)
  have "length (enc m) \<le> 2 * length (utf16 m)" for m by (simp add: length_enc length_utf16)
  then have el: "length (concat (map enc xs)) \<le> 2 * length (concat (map utf16 xs))" for xs
    by (induction xs) (simp_all add: distrib_left add_mono)
  show "sec_port_ucs2_utf8_conversion_function False b n ob maxo l0 =
      Some (if sum_list (map counted ms) > maxo then (False, ob, sum_list (map counted ms))
        else (True, overlay ob 0 (concat (map enc ms)), length (concat (map enc ms))))"
    using utf16_count_eq [OF assms(1) n30, of 0 0 ms] utf16_encode_eq [OF assms(1) n30, of 0 0 ms ob] assms(3,4,6) n even [of ms]
    by (simp add: sec_port_ucs2_utf8_conversion_function_def)
  have "list_all scalar ms" using assms(4) by (auto simp: list_all_iff plain_def)
  then show "sec_port_ucs2_utf8_conversion_function True (concat (map enc ms)) (length (concat (map enc ms))) (replicate n 0) n l0 =
      Some (True, take n b, n)"
    using utf16_sink.from_utf8_exact(1) [of "length (concat (map enc ms))" "concat (map enc ms)" n "replicate n 0" ms l0]
      el [of ms] n assms(1-3) by (simp add: overlay_all sec_port_ucs2_utf8_conversion_function_def) 
  show "sec_port_iso88591_utf8_conversion_function lb (length lb) ob maxo l0 =
      Some (let u = concat (map (\<lambda>x. enc (unat x)) lb) in
        if length u > maxo then (False, ob, length u) else (True, overlay ob 0 u, length u))"
    using latin1_pass(1) [of 0 "length lb" lb 0] latin1_pass(2) [of 0 "length lb" lb 0 ob] assms(5,7)
    by (simp add: sec_port_iso88591_utf8_conversion_function_def Let_def)
qed

theorem utf8_utf16_roundtrip_witness:
  "sec_port_ucs2_utf8_conversion_function False [0xD8, 0x34, 0xDD, 0x1E] 4 [7, 7, 7, 7] 4 9 = Some (True, [0xF0, 0x9D, 0x84, 0x9E], 4)"
  using utf8_utf16_roundtrip [of 4 "[0xD8, 0x34, 0xDD, 0x1E]" "[0x1D11E]" 4 "[7, 7, 7, 7]" "[]" 9]
  by (simp add: utf16_def unit16_def enc_def utf8_def octets_def overlay_def plain_def scalar_def counted_def)

text \<open>What the UTF-16 converter gets wrong. The first pass tests the high byte twice instead of the high and the low byte, so
  it counts one byte where the second pass writes two: for \<open>00E9\<close> and room for one byte the second pass writes past the end.
  The ligature \<open>FB01\<close> is taken for a high surrogate: it is refused before another letter, and at the end of the input the byte
  after the input is read. And the UCS-4 converter writes a surrogate as UTF-8 that the other direction refuses.\<close>

theorem utf8_defects:
  "sec_port_ucs2_utf8_conversion_function False [0, 0xE9] 2 [7] 1 9 = None \<and>
   sec_port_ucs2_utf8_conversion_function False [0, 0xE9] 2 [7, 7] 1 9 = Some (True, [0xC3, 0xA9], 2) \<and>
   sec_port_ucs2_utf8_conversion_function False [0xFB, 1, 0, 0x41] 4 [7, 7, 7, 7] 4 9 = Some (False, [7, 7, 7, 7], 9) \<and>
   sec_port_ucs2_utf8_conversion_function False [0xFB, 1] 2 [7, 7, 7] 3 9 = None \<and>
   sec_port_ucs4_utf8_conversion_function False [0, 0, 0xD8, 0] 4 [7, 7, 7] 3 9 = Some (True, [0xED, 0xA0, 0x80], 3) \<and>
   sec_port_ucs4_utf8_conversion_function True [0xED, 0xA0, 0x80] 3 [7, 7, 7, 7] 4 9 = Some (False, [7, 7, 7, 7], 9)"
proof -
  have "utf16_count [0, 0xE9] 2 0 0 = Some (Some 1)" "utf16_count [0xFB, 1, 0, 0x41] 4 0 0 = Some None"
    "utf16_count [0xFB, 1] 2 0 0 = None"
    by ((subst utf16_count.simps, simp add: rd_def)+)
  moreover have "ucs4_count [0, 0, 0xD8, 0] 4 0 0 = Some (Some 3)"
    by ((subst ucs4_count.simps, simp add: rd_def)+)
  moreover have "utf8_count (\<lambda>k. 4) [0xED, 0xA0, 0x80] 3 0 0 = Some (Some 4)"
    by ((subst utf8_count.simps, simp add: rd_def seq_len_def)+)
  moreover have "utf16_encode [0, 0xE9] 2 0 [7] 0 = None" "utf16_encode [0, 0xE9] 2 0 [7, 7] 0 = Some ([0xC3, 0xA9], 2)"
    by ((subst utf16_encode.simps, simp add: rd_def wr_def utf16_bytes_def Let_def)+)
  moreover have "ucs4_encode [0, 0, 0xD8, 0] 4 0 [7, 7, 7] 0 = Some ([0xED, 0xA0, 0x80], 3)"
    by ((subst ucs4_encode.simps, simp add: rd_def wr_def ucs4_bytes_def Let_def)+)
  moreover have "utf8_decode put_ucs4 [0xED, 0xA0, 0x80] 3 0 [7, 7, 7, 7] 0 = Some (False, [7, 7, 7, 7], 0)"
  proof -
    have "sec_port_read_utf8 0 [0xED, 0xA0, 0x80] 3 = Some (BAD_UTF8, 0)"
      using read_utf8_eq [of 0 3 "[0xED, 0xA0, 0x80]"] by (simp add: char_at_def lead_value_def cont_def scalar_def)
    then show ?thesis by (subst utf8_decode.simps) simp
  qed
  ultimately show ?thesis
    by (simp add: sec_port_ucs2_utf8_conversion_function_def sec_port_ucs4_utf8_conversion_function_def from_utf8_def)
qed

end
