(* ===== verification/Moz_Sec.thy ===== *)
theory Moz_Sec
  imports Moz_Prelude
begin

text \<open>
  What the NSS components share: \<open>SECStatus\<close>, \<open>SECItem\<close> and its types
  (\<open>src/security/nss/lib/util/seccomon.h\<close>), the error codes they and NSPR under them set, and the allocators of
  \<open>src/security/nss/lib/util/secport.c\<close>. The state of the port library, the error of the thread and the count of
  failed allocations, is passed along as \<open>PORT\<close>. What the heap and the arena find is a parameter; the fields of a
  \<open>SECItem\<close> are its type, the block its pointer points to, and the number of bytes in use.
\<close>

datatype SECStatus = SECWouldBlock | SECFailure | SECSuccess

datatype SECError =
    SEC_ERROR_INVALID_ARGS | SEC_ERROR_INPUT_LEN | SEC_ERROR_OUTPUT_LEN | SEC_ERROR_INVALID_TIME
  | SEC_ERROR_NO_MEMORY | PR_INVALID_ARGUMENT_ERROR | PR_BUFFER_OVERFLOW_ERROR

datatype SECItemType =
    siBuffer | siClearDataBuffer | siCipherDataBuffer | siDERCertBuffer | siEncodedCertBuffer
  | siDERNameBuffer | siEncodedNameBuffer | siAsciiNameString | siAsciiString | siDEROID
  | siUnsignedInteger | siUTCTime | siGeneralizedTime | siVisibleString | siUTF8String | siBMPString

record SECItem =
  item_type :: SECItemType
  item_data :: "buf ptr"
  item_len :: nat

record PORT =
  port_error :: "SECError option"
  port_allocFailures :: uword

type_synonym allocf = "nat \<Rightarrow> buf ptr"

definition PORT_SetError :: "SECError \<Rightarrow> PORT \<Rightarrow> PORT" where
  "PORT_SetError value port = port\<lparr>port_error := Some value\<rparr>"

definition alloc_failed :: "PORT \<Rightarrow> PORT" where
  "alloc_failed port = PORT_SetError SEC_ERROR_NO_MEMORY (port\<lparr>port_allocFailures := port_allocFailures port + 1\<rparr>)"

definition PORT_Alloc :: "allocf \<Rightarrow> nat \<Rightarrow> PORT \<Rightarrow> buf ptr \<times> PORT" where
  "PORT_Alloc malloc bytes port =
     (let rv = malloc (if bytes \<noteq> 0 then bytes else 1)
      in (rv, if rv = None then alloc_failed port else port))"

text \<open>\<open>PL_ARENA_ALLOCATE\<close> on the pool of the caller is the parameter; the pool's lock is left out.\<close>

definition PORT_ArenaAlloc :: "allocf \<Rightarrow> nat \<Rightarrow> PORT \<Rightarrow> buf ptr \<times> PORT" where
  "PORT_ArenaAlloc arena bytes port =
     (let bytes = (if bytes \<le> 0 then 1 else bytes);
          p = (if bytes > 0x7fffffff then None else arena bytes)
      in (p, if p = None then alloc_failed port else port))"

text \<open>\<open>PORT_ZNew\<close> of a structure: \<open>room\<close> says whether the heap has room for it.\<close>

definition PORT_ZNew :: "bool \<Rightarrow> PORT \<Rightarrow> bool \<times> PORT" where
  "PORT_ZNew room port = (room, if room then port else alloc_failed port)"

text \<open>Calls of \<open>PORT_Free\<close> and \<open>PR_Free\<close>, and of the functions on the mark of an arena, in their order\<close>

datatype heap_event = Free | Mark | Release | Unmark

text \<open>The choice every encoder makes: from the arena when there is one, else from the heap.\<close>

definition alloc_from :: "allocf \<Rightarrow> allocf ptr \<Rightarrow> nat \<Rightarrow> PORT \<Rightarrow> buf ptr \<times> PORT" where
  "alloc_from malloc arenaOpt n port = (case arenaOpt of
     Some arena \<Rightarrow> PORT_ArenaAlloc arena n port
   | None \<Rightarrow> PORT_Alloc malloc n port)"

text \<open>Which block that is.\<close>

definition found :: "allocf \<Rightarrow> allocf ptr \<Rightarrow> nat \<Rightarrow> buf ptr" where
  "found malloc arenaOpt n = (case arenaOpt of Some arena \<Rightarrow> arena n | None \<Rightarrow> malloc n)"

lemma alloc_from_eq:
  "0 < n \<Longrightarrow> n \<le> 0x7fffffff \<Longrightarrow> alloc_from malloc arenaOpt n port =
     (found malloc arenaOpt n, if found malloc arenaOpt n = None then alloc_failed port else port)"
  by (simp add: alloc_from_def found_def PORT_Alloc_def PORT_ArenaAlloc_def Let_def split: option.splits)

lemma found_length:
  assumes "malloc_ok malloc" "\<And>a. arenaOpt = Some a \<Longrightarrow> malloc_ok a" "found malloc arenaOpt n = Some d"
  shows "length d = n"
  using assms by (auto simp: found_def malloc_ok_def split: option.splits)

end
