(* ===== verification/Moz_RC2.thy ===== *)
theory Moz_RC2
  imports Moz_Sec
begin

text \<open>
  The RC2 block cipher of NSS, \<open>src/security/nss/lib/freebl/alg2268.c\<close>.

  \<open>PRUint16\<close> variables are \<open>16 word\<close>; C computes their sums and shifts in \<open>int\<close> and stores the low 16 bits, which
  is the arithmetic of the words. The key table is its 128 bytes \<open>Kb\<close>; the view of the union as 16-bit numbers is
  \<open>Kw\<close>, in little-endian order (what the build for a big-endian machine swaps the table for). The source and the target of
  a call lie in one memory \<open>m\<close>, at \<open>input\<close> and \<open>output\<close>, so that they may be the same or overlap; a
  block is loaded and stored byte by byte, as \<open>LOAD\<close> and \<open>STORE\<close> do on either kind of machine.
\<close>

type_synonym u16 = "16 word"

definition NSS_RC2 :: int where "NSS_RC2 = 0"

definition NSS_RC2_CBC :: int where "NSS_RC2_CBC = 1"

definition RC2_BLOCK_SIZE :: u32 where "RC2_BLOCK_SIZE = 8"

datatype rc2Func = rc2_ECB | rc2_CBC

type_synonym RC2Block = "u16 \<times> u16 \<times> u16 \<times> u16"

record RC2Context =
  Kb :: buf
  iv :: RC2Block
  enc :: "rc2Func ptr"
  dec :: "rc2Func ptr"

definition S :: "byte list" where
  "S = [217, 120, 249, 196, 25, 221, 181, 237, 40, 233, 253, 121, 74, 160, 216, 157,
     198, 126, 55, 131, 43, 118, 83, 142, 98, 76, 100, 136, 68, 139, 251, 162,
     23, 154, 89, 245, 135, 179, 79, 19, 97, 69, 109, 141, 9, 129, 125, 50,
     189, 143, 64, 235, 134, 183, 123, 11, 240, 149, 33, 34, 92, 107, 78, 130,
     84, 214, 101, 147, 206, 96, 178, 28, 115, 86, 192, 20, 167, 140, 241, 220,
     18, 117, 202, 31, 59, 190, 228, 209, 66, 61, 212, 48, 163, 60, 182, 38,
     111, 191, 14, 218, 70, 105, 7, 87, 39, 242, 29, 155, 188, 148, 67, 3,
     248, 17, 199, 246, 144, 239, 62, 231, 6, 195, 213, 47, 200, 102, 30, 215,
     8, 232, 234, 222, 128, 82, 238, 247, 132, 170, 114, 172, 53, 77, 106, 42,
     150, 26, 210, 113, 90, 21, 73, 116, 75, 159, 208, 94, 4, 24, 164, 236,
     194, 224, 65, 110, 15, 81, 203, 204, 36, 145, 175, 80, 161, 244, 112, 57,
     153, 124, 58, 133, 35, 184, 180, 122, 252, 2, 54, 91, 37, 85, 151, 49,
     45, 93, 250, 152, 227, 138, 146, 174, 5, 223, 41, 16, 103, 108, 186, 201,
     211, 0, 230, 207, 225, 158, 168, 44, 99, 22, 1, 63, 88, 226, 137, 169,
     13, 56, 52, 27, 171, 51, 255, 176, 187, 72, 12, 95, 185, 177, 205, 46,
     197, 243, 219, 71, 229, 165, 156, 119, 10, 166, 32, 104, 254, 127, 193, 173]"

section \<open>Blocks in memory\<close>

definition word16 :: "byte \<Rightarrow> byte \<Rightarrow> u16" where
  "word16 lo hi = push_bit 8 (ucast hi) OR ucast lo"

definition LOAD :: "buf \<Rightarrow> nat \<Rightarrow> RC2Block exec" where
  "LOAD m input =
     do { b0 \<leftarrow> rd m input; b1 \<leftarrow> rd m (input + 1); b2 \<leftarrow> rd m (input + 2); b3 \<leftarrow> rd m (input + 3);
          b4 \<leftarrow> rd m (input + 4); b5 \<leftarrow> rd m (input + 5); b6 \<leftarrow> rd m (input + 6); b7 \<leftarrow> rd m (input + 7);
          Some (word16 b0 b1, word16 b2 b3, word16 b4 b5, word16 b6 b7) }"

definition low_byte :: "u16 \<Rightarrow> byte" where "low_byte r = ucast r"

definition high_byte :: "u16 \<Rightarrow> byte" where "high_byte r = ucast (drop_bit 8 r)"

fun STORE :: "buf \<Rightarrow> nat \<Rightarrow> RC2Block \<Rightarrow> buf exec" where
  "STORE m output (r0, r1, r2, r3) =
     do { m \<leftarrow> wr m output (low_byte r0); m \<leftarrow> wr m (output + 1) (high_byte r0);
          m \<leftarrow> wr m (output + 2) (low_byte r1); m \<leftarrow> wr m (output + 3) (high_byte r1);
          m \<leftarrow> wr m (output + 4) (low_byte r2); m \<leftarrow> wr m (output + 5) (high_byte r2);
          m \<leftarrow> wr m (output + 6) (low_byte r3); wr m (output + 7) (high_byte r3) }"

section \<open>The key table\<close>

text \<open>Step 1: the bytes to the right of the key; step 3: the bytes to the left of the effective key\<close>

fun expand_right :: "buf \<Rightarrow> nat \<Rightarrow> nat \<Rightarrow> byte \<Rightarrow> nat \<Rightarrow> buf exec" where
  "expand_right B L L2 tmpB 0 = Some B"
| "expand_right B L L2 tmpB (Suc i) =
     do { x \<leftarrow> rd B L2; t \<leftarrow> rd S (unat (tmpB + x)); B \<leftarrow> wr B L t; expand_right B (L + 1) (L2 + 1) t i }"

fun expand_left :: "buf \<Rightarrow> nat \<Rightarrow> byte \<Rightarrow> nat \<Rightarrow> buf exec" where
  "expand_left B efLen8 tmpB 0 = Some B"
| "expand_left B efLen8 tmpB (Suc L) =
     do { x \<leftarrow> rd B (L + efLen8); t \<leftarrow> rd S (unat (tmpB XOR x)); B \<leftarrow> wr B L t; expand_left B efLen8 t L }"

definition key_table :: "buf \<Rightarrow> buf \<Rightarrow> nat \<Rightarrow> nat \<Rightarrow> buf exec" where
  "key_table B key len efLen8 =
     (if length key < len \<or> length B < len then None
      else do { let B = overlay B 0 (take len key);
                tmpB \<leftarrow> rd B (len - 1);
                B \<leftarrow> expand_right B len 0 tmpB (128 - len);
                let i = 128 - efLen8;
                x \<leftarrow> rd B i;
                tmpB \<leftarrow> rd S (unat x);
                B \<leftarrow> wr B i tmpB;
                expand_left B efLen8 tmpB i })"

definition RC2_InitContext ::
  "RC2Context ptr \<Rightarrow> buf ptr \<Rightarrow> u32 \<Rightarrow> buf ptr \<Rightarrow> int \<Rightarrow> u32 \<Rightarrow> (SECStatus \<times> SECError option \<times> RC2Context ptr) exec" where
  "RC2_InitContext cx key len input mode efLen8 =
     (case (cx, key) of
        (Some c, Some k) \<Rightarrow>
          if len = 0 \<or> len > 128 \<or> efLen8 > 128 then Some (SECFailure, Some SEC_ERROR_INVALID_ARGS, cx)
          else if mode = NSS_RC2 then
            do { B \<leftarrow> key_table (Kb c) k (unat len) (unat efLen8);
                 Some (SECSuccess, None, Some (c\<lparr>enc := Some rc2_ECB, dec := Some rc2_ECB, Kb := B\<rparr>)) }
          else if mode = NSS_RC2_CBC then
            (case input of
               None \<Rightarrow> Some (SECFailure, Some SEC_ERROR_INVALID_ARGS, cx)
             | Some v \<Rightarrow>
                 do { r \<leftarrow> LOAD v 0;
                      B \<leftarrow> key_table (Kb c) k (unat len) (unat efLen8);
                      Some (SECSuccess, None, Some (c\<lparr>enc := Some rc2_CBC, dec := Some rc2_CBC, iv := r, Kb := B\<rparr>)) })
          else Some (SECFailure, Some SEC_ERROR_INVALID_ARGS, cx)
      | _ \<Rightarrow> Some (SECFailure, Some SEC_ERROR_INVALID_ARGS, cx))"

definition zero_context :: RC2Context where
  "zero_context = \<lparr>Kb = replicate 128 0, iv = (0, 0, 0, 0), enc = None, dec = None\<rparr>"

definition RC2_AllocateContext :: "bool \<Rightarrow> RC2Context ptr" where
  "RC2_AllocateContext znew_ok = (if znew_ok then Some zero_context else None)"

definition RC2_DestroyContext :: "RC2Context ptr \<Rightarrow> bool \<Rightarrow> RC2Context ptr" where
  "RC2_DestroyContext cx freeit =
     (case cx of None \<Rightarrow> None | Some c \<Rightarrow> if freeit then None else Some zero_context)"

definition RC2_CreateContext :: "bool \<Rightarrow> buf ptr \<Rightarrow> u32 \<Rightarrow> buf ptr \<Rightarrow> int \<Rightarrow> u32 \<Rightarrow> RC2Context ptr exec" where
  "RC2_CreateContext znew_ok key len v mode efLen8 =
     (case RC2_AllocateContext znew_ok of
        None \<Rightarrow> Some None
      | Some c \<Rightarrow>
          do { (rv, e, cx) \<leftarrow> RC2_InitContext (Some c) key len v mode efLen8;
               Some (if rv \<noteq> SECSuccess then RC2_DestroyContext cx True else cx) })"

section \<open>One block\<close>

definition ROL :: "u16 \<Rightarrow> nat \<Rightarrow> u16" where "ROL x k = push_bit k x OR drop_bit (16 - k) x"

definition ROR :: "u16 \<Rightarrow> nat \<Rightarrow> u16" where "ROR x k = drop_bit k x OR push_bit (16 - k) x"

definition Kw :: "buf \<Rightarrow> nat \<Rightarrow> u16" where "Kw B i = word16 (B ! (2 * i)) (B ! (2 * i + 1))"

fun MIX :: "buf \<Rightarrow> nat \<Rightarrow> RC2Block \<Rightarrow> RC2Block" where
  "MIX B j (R0, R1, R2, R3) =
     (let R0 = R0 + Kw B (4 * j) + (R3 AND R2) + (NOT R3 AND R1); R0 = ROL R0 1;
          R1 = R1 + Kw B (4 * j + 1) + (R0 AND R3) + (NOT R0 AND R2); R1 = ROL R1 2;
          R2 = R2 + Kw B (4 * j + 2) + (R1 AND R0) + (NOT R1 AND R3); R2 = ROL R2 3;
          R3 = R3 + Kw B (4 * j + 3) + (R2 AND R1) + (NOT R2 AND R0); R3 = ROL R3 5
      in (R0, R1, R2, R3))"

fun MASH :: "buf \<Rightarrow> RC2Block \<Rightarrow> RC2Block" where
  "MASH B (R0, R1, R2, R3) =
     (let R0 = R0 + Kw B (unat (R3 AND 63));
          R1 = R1 + Kw B (unat (R0 AND 63));
          R2 = R2 + Kw B (unat (R1 AND 63));
          R3 = R3 + Kw B (unat (R2 AND 63))
      in (R0, R1, R2, R3))"

definition rc2_Encrypt1Block :: "buf \<Rightarrow> RC2Block \<Rightarrow> RC2Block" where
  "rc2_Encrypt1Block B input =
     (let r = fold (MIX B) [0, 1, 2, 3, 4] input;
          r = MASH B r;
          r = fold (MIX B) [5, 6, 7, 8, 9, 10] r;
          r = MASH B r
      in fold (MIX B) [11, 12, 13, 14, 15] r)"

fun R_MIX :: "buf \<Rightarrow> nat \<Rightarrow> RC2Block \<Rightarrow> RC2Block" where
  "R_MIX B j (R0, R1, R2, R3) =
     (let R3 = ROR R3 5; R3 = R3 - Kw B (4 * j + 3) - (R2 AND R1) - (NOT R2 AND R0);
          R2 = ROR R2 3; R2 = R2 - Kw B (4 * j + 2) - (R1 AND R0) - (NOT R1 AND R3);
          R1 = ROR R1 2; R1 = R1 - Kw B (4 * j + 1) - (R0 AND R3) - (NOT R0 AND R2);
          R0 = ROR R0 1; R0 = R0 - Kw B (4 * j) - (R3 AND R2) - (NOT R3 AND R1)
      in (R0, R1, R2, R3))"

fun R_MASH :: "buf \<Rightarrow> RC2Block \<Rightarrow> RC2Block" where
  "R_MASH B (R0, R1, R2, R3) =
     (let R3 = R3 - Kw B (unat (R2 AND 63));
          R2 = R2 - Kw B (unat (R1 AND 63));
          R1 = R1 - Kw B (unat (R0 AND 63));
          R0 = R0 - Kw B (unat (R3 AND 63))
      in (R0, R1, R2, R3))"

definition rc2_Decrypt1Block :: "buf \<Rightarrow> RC2Block \<Rightarrow> RC2Block" where
  "rc2_Decrypt1Block B input =
     (let r = fold (R_MIX B) [15, 14, 13, 12, 11] input;
          r = R_MASH B r;
          r = fold (R_MIX B) [10, 9, 8, 7, 6, 5] r;
          r = R_MASH B r
      in fold (R_MIX B) [4, 3, 2, 1, 0] r)"

fun xor_block :: "RC2Block \<Rightarrow> RC2Block \<Rightarrow> RC2Block" where
  "xor_block (a0, a1, a2, a3) (b0, b1, b2, b3) = (a0 XOR b0, a1 XOR b1, a2 XOR b2, a3 XOR b3)"

section \<open>The modes\<close>

lemma STORE_length: "STORE m output r = Some m' \<Longrightarrow> length m' = length m"
  by (cases r) (auto simp: wr_def split: bind_splits if_splits)

lemma LOAD_bound: "LOAD m input = Some r \<Longrightarrow> input + 7 < length m"
  by (auto simp: LOAD_def rd_eq_Some split: bind_splits)

function rc2_EncryptECB :: "buf \<Rightarrow> buf \<Rightarrow> nat \<Rightarrow> nat \<Rightarrow> u32 \<Rightarrow> buf exec" where
  "rc2_EncryptECB B m output input inputLen =
     (if inputLen > 0 then
        do { iBlock \<leftarrow> LOAD m input;
             m \<leftarrow> STORE m output (rc2_Encrypt1Block B iBlock);
             rc2_EncryptECB B m (output + 8) (input + 8) (inputLen - RC2_BLOCK_SIZE) }
      else Some m)"
  by pat_completeness auto
termination
  by (relation "measure (\<lambda>(B, m, output, input, inputLen). length m - input)") (auto dest!: STORE_length LOAD_bound)

function rc2_DecryptECB :: "buf \<Rightarrow> buf \<Rightarrow> nat \<Rightarrow> nat \<Rightarrow> u32 \<Rightarrow> buf exec" where
  "rc2_DecryptECB B m output input inputLen =
     (if inputLen > 0 then
        do { iBlock \<leftarrow> LOAD m input;
             m \<leftarrow> STORE m output (rc2_Decrypt1Block B iBlock);
             rc2_DecryptECB B m (output + 8) (input + 8) (inputLen - RC2_BLOCK_SIZE) }
      else Some m)"
  by pat_completeness auto
termination
  by (relation "measure (\<lambda>(B, m, output, input, inputLen). length m - input)") (auto dest!: STORE_length LOAD_bound)

function rc2_EncryptCBC :: "buf \<Rightarrow> RC2Block \<Rightarrow> buf \<Rightarrow> nat \<Rightarrow> nat \<Rightarrow> u32 \<Rightarrow> (RC2Block \<times> buf) exec" where
  "rc2_EncryptCBC B v m output input inputLen =
     (if inputLen > 0 then
        do { iBlock \<leftarrow> LOAD m input;
             let iBlock = rc2_Encrypt1Block B (xor_block iBlock v);
             m \<leftarrow> STORE m output iBlock;
             rc2_EncryptCBC B iBlock m (output + 8) (input + 8) (inputLen - RC2_BLOCK_SIZE) }
      else Some (v, m))"
  by pat_completeness auto
termination
  by (relation "measure (\<lambda>(B, v, m, output, input, inputLen). length m - input)") (auto dest!: STORE_length LOAD_bound)

function rc2_DecryptCBC :: "buf \<Rightarrow> RC2Block \<Rightarrow> buf \<Rightarrow> nat \<Rightarrow> nat \<Rightarrow> u32 \<Rightarrow> (RC2Block \<times> buf) exec" where
  "rc2_DecryptCBC B v m output input inputLen =
     (if inputLen > 0 then
        do { iBlock \<leftarrow> LOAD m input;
             let oBlock = xor_block (rc2_Decrypt1Block B iBlock) v;
             m \<leftarrow> STORE m output oBlock;
             rc2_DecryptCBC B iBlock m (output + 8) (input + 8) (inputLen - RC2_BLOCK_SIZE) }
      else Some (v, m))"
  by pat_completeness auto
termination
  by (relation "measure (\<lambda>(B, v, m, output, input, inputLen). length m - input)") (auto dest!: STORE_length LOAD_bound)

declare rc2_EncryptECB.simps [simp del] rc2_DecryptECB.simps [simp del]
  rc2_EncryptCBC.simps [simp del] rc2_DecryptCBC.simps [simp del]

text \<open>The calls through the pointers \<open>enc\<close> and \<open>dec\<close> of the context\<close>

definition call_enc :: "RC2Context \<Rightarrow> buf \<Rightarrow> nat \<Rightarrow> nat \<Rightarrow> u32 \<Rightarrow> (RC2Context \<times> buf) exec" where
  "call_enc cx m output input inputLen =
     (case enc cx of
        None \<Rightarrow> None
      | Some rc2_ECB \<Rightarrow> do { m \<leftarrow> rc2_EncryptECB (Kb cx) m output input inputLen; Some (cx, m) }
      | Some rc2_CBC \<Rightarrow> do { (v, m) \<leftarrow> rc2_EncryptCBC (Kb cx) (iv cx) m output input inputLen; Some (cx\<lparr>iv := v\<rparr>, m) })"

definition call_dec :: "RC2Context \<Rightarrow> buf \<Rightarrow> nat \<Rightarrow> nat \<Rightarrow> u32 \<Rightarrow> (RC2Context \<times> buf) exec" where
  "call_dec cx m output input inputLen =
     (case dec cx of
        None \<Rightarrow> None
      | Some rc2_ECB \<Rightarrow> do { m \<leftarrow> rc2_DecryptECB (Kb cx) m output input inputLen; Some (cx, m) }
      | Some rc2_CBC \<Rightarrow> do { (v, m) \<leftarrow> rc2_DecryptCBC (Kb cx) (iv cx) m output input inputLen; Some (cx\<lparr>iv := v\<rparr>, m) })"

definition RC2_Encrypt ::
  "RC2Context \<Rightarrow> buf \<Rightarrow> nat \<Rightarrow> u32 \<Rightarrow> u32 \<Rightarrow> nat \<Rightarrow> u32 \<Rightarrow> (SECStatus \<times> SECError option \<times> RC2Context \<times> buf \<times> u32) exec" where
  "RC2_Encrypt cx m output outputLen maxOutputLen input inputLen =
     (if inputLen \<noteq> 0 then
        if inputLen mod RC2_BLOCK_SIZE \<noteq> 0 then Some (SECFailure, Some SEC_ERROR_INPUT_LEN, cx, m, outputLen)
        else if maxOutputLen < inputLen then Some (SECFailure, Some SEC_ERROR_OUTPUT_LEN, cx, m, outputLen)
        else do { (cx, m) \<leftarrow> call_enc cx m output input inputLen; Some (SECSuccess, None, cx, m, inputLen) }
      else Some (SECSuccess, None, cx, m, inputLen))"

definition RC2_Decrypt ::
  "RC2Context \<Rightarrow> buf \<Rightarrow> nat \<Rightarrow> u32 \<Rightarrow> u32 \<Rightarrow> nat \<Rightarrow> u32 \<Rightarrow> (SECStatus \<times> SECError option \<times> RC2Context \<times> buf \<times> u32) exec" where
  "RC2_Decrypt cx m output outputLen maxOutputLen input inputLen =
     (if inputLen \<noteq> 0 then
        if inputLen mod RC2_BLOCK_SIZE \<noteq> 0 then Some (SECFailure, Some SEC_ERROR_INPUT_LEN, cx, m, outputLen)
        else if maxOutputLen < inputLen then Some (SECFailure, Some SEC_ERROR_OUTPUT_LEN, cx, m, outputLen)
        else do { (cx, m) \<leftarrow> call_dec cx m output input inputLen; Some (SECSuccess, None, cx, m, inputLen) }
      else Some (SECSuccess, None, cx, m, inputLen))"


section \<open>A block is recovered\<close>

lemma ROR_ROL:
  assumes "0 < k" "k < 16"
  shows "ROR (ROL x k) k = x"
proof (rule bit_eqI)
  fix n
  assume "possible_bit TYPE(u16) n"
  then have "n < 16" by simp
  then show "bit (ROR (ROL x k) k) n = bit x n"
    using assms by (cases "k + n < 16") (auto simp: ROR_def ROL_def bit_simps not_less add.commute)
qed

lemma ROL_ROR:
  assumes "0 < k" "k < 16"
  shows "ROL (ROR x k) k = x"
proof (rule bit_eqI)
  fix n
  assume "possible_bit TYPE(u16) n"
  then have "n < 16" by simp
  then show "bit (ROL (ROR x k) k) n = bit x n"
    using assms by (cases "k \<le> n") (auto simp: ROR_def ROL_def bit_simps not_le add.commute)
qed

lemma R_MIX_MIX [simp]: "R_MIX B j (MIX B j r) = r"
  by (cases r) (simp add: Let_def ROR_ROL)

lemma R_MASH_MASH [simp]: "R_MASH B (MASH B r) = r"
  by (cases r) (simp add: Let_def)

lemma MIX_R_MIX [simp]: "MIX B j (R_MIX B j r) = r"
  by (cases r) (simp add: Let_def ROL_ROR)

lemma MASH_R_MASH [simp]: "MASH B (R_MASH B r) = r"
  by (cases r) (simp add: Let_def)

lemma decrypt_encrypt_block [simp]: "rc2_Decrypt1Block B (rc2_Encrypt1Block B r) = r"
  by (simp add: rc2_Decrypt1Block_def rc2_Encrypt1Block_def Let_def del: MIX.simps MASH.simps R_MIX.simps R_MASH.simps)

lemma encrypt_decrypt_block [simp]: "rc2_Encrypt1Block B (rc2_Decrypt1Block B r) = r"
  by (simp add: rc2_Decrypt1Block_def rc2_Encrypt1Block_def Let_def del: MIX.simps MASH.simps R_MIX.simps R_MASH.simps)

lemma xor_block_twice [simp]: "xor_block (xor_block a b) b = a"
  by (cases a; cases b) (simp add: xor.assoc)

section \<open>Blocks as bytes\<close>

definition block_at :: "buf \<Rightarrow> RC2Block" where
  "block_at xs = (word16 (xs ! 0) (xs ! 1), word16 (xs ! 2) (xs ! 3), word16 (xs ! 4) (xs ! 5), word16 (xs ! 6) (xs ! 7))"

fun bytes_of_block :: "RC2Block \<Rightarrow> buf" where
  "bytes_of_block (r0, r1, r2, r3) =
     [low_byte r0, high_byte r0, low_byte r1, high_byte r1, low_byte r2, high_byte r2, low_byte r3, high_byte r3]"

lemma length_bytes_of_block [simp]: "length (bytes_of_block r) = 8"
  by (cases r) simp

lemma word16_bytes [simp]: "word16 (low_byte r) (high_byte r) = r"
  by (rule bit_eqI) (auto simp: word16_def low_byte_def high_byte_def bit_simps)

lemma bytes_word16 [simp]: "low_byte (word16 x y) = x" "high_byte (word16 x y) = y"
  by (rule bit_eqI, auto simp: word16_def low_byte_def high_byte_def bit_simps dest: bit_imp_le_length)+

lemma block_at_bytes [simp]: "block_at (bytes_of_block r) = r"
  by (cases r) (simp add: block_at_def)

lemma list_8: "length xs = 8 \<Longrightarrow> xs = [xs ! 0, xs ! 1, xs ! 2, xs ! 3, xs ! 4, xs ! 5, xs ! 6, xs ! 7]"
  by (rule nth_equalityI) (auto simp: less_Suc_eq numeral_eq_Suc)

lemma bytes_of_block_at [simp]: "length xs = 8 \<Longrightarrow> bytes_of_block (block_at xs) = xs"
  by (subst (3) list_8) (simp_all add: block_at_def)

lemma LOAD_eq: "input + 8 \<le> length m \<Longrightarrow> LOAD m input = Some (block_at (take 8 (drop input m)))"
  by (simp add: LOAD_def rd_ok block_at_def)

lemma STORE_eq: "output + 8 \<le> length m \<Longrightarrow> STORE m output r = Some (overlay m output (bytes_of_block r))"
  by (cases r) (simp add: wr_ok overlay_Cons numeral_eq_Suc)

section \<open>The modes as functions of bytes\<close>

text \<open>A mode turns its state and a block into a block and a new state; \<open>chain\<close> runs it over \<open>k\<close> blocks.\<close>

type_synonym 's mode = "'s \<Rightarrow> RC2Block \<Rightarrow> RC2Block \<times> 's"

fun chain :: "'s mode \<Rightarrow> 's \<Rightarrow> nat \<Rightarrow> buf \<Rightarrow> buf \<times> 's" where
  "chain step s 0 xs = ([], s)"
| "chain step s (Suc k) xs =
     (let (b, s) = step s (block_at (take 8 xs)); (r, s) = chain step s k (drop 8 xs) in (bytes_of_block b @ r, s))"

definition ecb :: "(RC2Block \<Rightarrow> RC2Block) \<Rightarrow> RC2Block mode" where "ecb f v b = (f b, v)"

definition cbc_encrypt :: "(RC2Block \<Rightarrow> RC2Block) \<Rightarrow> RC2Block mode" where
  "cbc_encrypt f v b = (f (xor_block b v), f (xor_block b v))"

definition cbc_decrypt :: "(RC2Block \<Rightarrow> RC2Block) \<Rightarrow> RC2Block mode" where
  "cbc_decrypt g v b = (xor_block (g b) v, b)"

lemma chain_Suc:
  "chain step s (Suc k) xs = (bytes_of_block (fst (step s (block_at (take 8 xs)))) @ fst (chain step (snd (step s (block_at (take 8 xs)))) k (drop 8 xs)),
    snd (chain step (snd (step s (block_at (take 8 xs)))) k (drop 8 xs)))"
  by (simp add: Let_def split: prod.splits)

lemma length_chain [simp]: "length (fst (chain step s k xs)) = 8 * k"
  by (induction k arbitrary: s xs) (simp_all add: chain_Suc del: chain.simps(2))

lemma chain_take: "8 * k \<le> n \<Longrightarrow> chain step s k (take n xs) = chain step s k xs"
proof (induction k arbitrary: s xs n)
  case (Suc k)
  then have "drop 8 (take n xs) = take (n - 8) (drop 8 xs)" "take 8 (take n xs) = take 8 xs"
    by (simp_all add: drop_take min_def)
  then show ?case using Suc(1) [of "n - 8"] Suc(2) by (simp add: chain_Suc del: chain.simps(2))
qed simp

lemma chain_append:
  assumes "length xs = 8 * j"
  shows "chain step s (j + k) (xs @ ys) =
    (fst (chain step s j xs) @ fst (chain step (snd (chain step s j xs)) k ys), snd (chain step (snd (chain step s j xs)) k ys))"
  using assms
proof (induction j arbitrary: s xs)
  case (Suc j)
  then have "8 \<le> length xs" by simp
  then show ?case using Suc(1) [of "drop 8 xs"] Suc(2) by (simp add: chain_Suc del: chain.simps(2))
qed simp

text \<open>Decryption undoes encryption, in either mode.\<close>

lemma ecb_inverse:
  assumes "\<And>b. g (f b) = b" "length xs = 8 * k"
  shows "fst (chain (ecb g) v k (fst (chain (ecb f) w k xs))) = xs"
  using assms(2)
proof (induction k arbitrary: xs)
  case (Suc k)
  then have "8 \<le> length xs" by simp
  then show ?case using Suc(1) [of "drop 8 xs"] Suc(2) assms(1) by (simp add: chain_Suc ecb_def del: chain.simps(2))
qed simp

lemma cbc_inverse:
  assumes "\<And>b. g (f b) = b" "length xs = 8 * k"
  shows "fst (chain (cbc_decrypt g) v k (fst (chain (cbc_encrypt f) v k xs))) = xs"
  using assms(2)
proof (induction k arbitrary: v xs)
  case (Suc k)
  then have "8 \<le> length xs" by simp
  then show ?case using Suc(1) [of "drop 8 xs"] Suc(2) assms(1)
    by (simp add: chain_Suc cbc_encrypt_def cbc_decrypt_def del: chain.simps(2))
qed simp

section \<open>The loops in memory\<close>

text \<open>What the four loops share: each turn loads a block, stores what the mode makes of it and goes on behind both.\<close>

locale block_loop =
  fixes run :: "'s \<Rightarrow> buf \<Rightarrow> nat \<Rightarrow> nat \<Rightarrow> u32 \<Rightarrow> ('s \<times> buf) exec" and step :: "'s mode"
  assumes run_eq: "run s m out inp n =
    (if n > 0 then do { b \<leftarrow> LOAD m inp; m \<leftarrow> STORE m out (fst (step s b)); run (snd (step s b)) m (out + 8) (inp + 8) (n - RC2_BLOCK_SIZE) }
     else Some (s, m))"
begin

lemma run_chain:
  assumes "8 * k < 4294967296" "inp + 8 * k \<le> length m" "out + 8 * k \<le> length m" "out \<le> inp \<or> inp + 8 * k \<le> out"
  shows "run s m out inp (word_of_nat (8 * k)) =
    Some (snd (chain step s k (drop inp m)), overlay m out (fst (chain step s k (drop inp m))))"
  using assms
proof (induction k arbitrary: s m out inp)
  case 0
  then show ?case by (subst run_eq) simp
next
  case (Suc k)
  define b s1 m1 where "b = block_at (take 8 (drop inp m))" and "s1 = snd (step s b)"
    and "m1 = overlay m out (bytes_of_block (fst (step s b)))"
  have pos: "(word_of_nat (8 * Suc k) :: u32) > 0"
  proof -
    have "unat (word_of_nat (8 * Suc k) :: u32) = 8 * Suc k" using Suc(2) by (rule unat_word_of_nat_u32)
    then show ?thesis by (metis unat_gt_0 unat_0 mult_eq_0_iff nat.simps(3) zero_neq_numeral word_gt_0)
  qed
  have n: "(word_of_nat (8 * Suc k) :: u32) - RC2_BLOCK_SIZE = word_of_nat (8 * k)" by (simp add: RC2_BLOCK_SIZE_def)
  have l: "length m1 = length m" using Suc(4) by (simp add: m1_def length_overlay)
  have "run s m out inp (word_of_nat (8 * Suc k)) = run s1 m1 (out + 8) (inp + 8) (word_of_nat (8 * k))"
    using Suc(3,4) pos n by (subst run_eq) (simp add: LOAD_eq STORE_eq b_def s1_def m1_def)
  also have "\<dots> = Some (snd (chain step s1 k (drop (inp + 8) m1)), overlay m1 (out + 8) (fst (chain step s1 k (drop (inp + 8) m1))))"
    using Suc(2-5) l by (intro Suc(1)) auto
  also have "chain step s1 k (drop (inp + 8) m1) = chain step s1 k (drop (inp + 8) m)"
  proof -
    have "take (8 * k) (drop (inp + 8) m1) = take (8 * k) (drop (inp + 8) m)"
      using Suc(3-5) by (intro nth_equalityI) (auto simp: m1_def overlay_def nth_append l)
    then show ?thesis by (metis chain_take order_refl)
  qed
  also have "overlay m1 (out + 8) (fst (chain step s1 k (drop (inp + 8) m))) =
      overlay m out (bytes_of_block (fst (step s b)) @ fst (chain step s1 k (drop (inp + 8) m)))"
    using Suc(4) overlay_append [of out "bytes_of_block (fst (step s b))" m] by (simp add: m1_def)
  finally show ?case by (simp add: chain_Suc b_def s1_def add.commute del: chain.simps(2))
qed

end

interpretation encrypt_ecb: block_loop "\<lambda>v m out inp n. map_option (Pair v) (rc2_EncryptECB B m out inp n)" "ecb (rc2_Encrypt1Block B)" for B
  by unfold_locales (subst rc2_EncryptECB.simps, auto simp: ecb_def split: bind_splits option.splits)

interpretation decrypt_ecb: block_loop "\<lambda>v m out inp n. map_option (Pair v) (rc2_DecryptECB B m out inp n)" "ecb (rc2_Decrypt1Block B)" for B
  by unfold_locales (subst rc2_DecryptECB.simps, auto simp: ecb_def split: bind_splits option.splits)

interpretation encrypt_cbc: block_loop "rc2_EncryptCBC B" "cbc_encrypt (rc2_Encrypt1Block B)" for B
  by unfold_locales (subst rc2_EncryptCBC.simps, simp add: cbc_encrypt_def Let_def)

interpretation decrypt_cbc: block_loop "rc2_DecryptCBC B" "cbc_decrypt (rc2_Decrypt1Block B)" for B
  by unfold_locales (subst rc2_DecryptCBC.simps, simp add: cbc_decrypt_def Let_def)

section \<open>The key table by its equations\<close>

lemma S_at: "rd S (unat (x :: byte)) = Some (S ! unat x)"
proof -
  have "length S = 256" by (simp add: S_def)
  then show ?thesis using unat_byte_less [of x] by (intro rd_ok) simp
qed

lemma drop_eq_nth:
  assumes "drop k xs = drop k ys" "k \<le> i" "i < length xs" "length xs = length ys"
  shows "xs ! i = ys ! i"
proof -
  have "drop k xs ! (i - k) = drop k ys ! (i - k)" using assms(1) by simp
  then show ?thesis using assms(2-4) by simp
qed

lemma expand_right_eq:
  assumes "L2 < L" "length B = L + n" "t = B ! (L - 1)"
  shows "\<exists>E. expand_right B L L2 t n = Some E \<and> length E = length B \<and> take L E = take L B \<and>
    (\<forall>i. L \<le> i \<and> i < L + n \<longrightarrow> E ! i = S ! unat (E ! (i - 1) + E ! (i - (L - L2))))"
  using assms
proof (induction n arbitrary: B L L2 t)
  case 0
  then show ?case by auto
next
  case (Suc n)
  define t' where "t' = S ! unat (t + B ! L2)"
  have L2: "rd B L2 = Some (B ! L2)" "wr B L t' = Some (B[L := t'])" using Suc(2,3) by (simp_all add: rd_ok wr_ok)
  obtain E where E: "expand_right (B[L := t']) (L + 1) (L2 + 1) t' n = Some E" "length E = length B"
    "take (L + 1) E = take (L + 1) (B[L := t'])"
    "\<forall>i. L + 1 \<le> i \<and> i < L + 1 + n \<longrightarrow> E ! i = S ! unat (E ! (i - 1) + E ! (i - (L - L2)))"
    using Suc(1) [of "L2 + 1" "L + 1" "B[L := t']" t'] Suc(2,3) by auto
  have at: "E ! i = B[L := t'] ! i" if "i < L + 1" for i
    using that E(3) by (metis nth_take)
  have "E ! L = S ! unat (E ! (L - 1) + E ! (L - (L - L2)))"
    using at [of L] at [of "L - 1"] at [of L2] Suc(2-4) by (simp add: t'_def)
  then have "\<forall>i. L \<le> i \<and> i < L + Suc n \<longrightarrow> E ! i = S ! unat (E ! (i - 1) + E ! (i - (L - L2)))"
    using E(4) by (metis Suc_eq_plus1 add_Suc_right add_Suc le_antisym not_less_eq_eq)
  moreover have "take L E = take L B" using arg_cong [OF E(3), of "take L"] by simp
  ultimately show ?case using E(1,2) L2 by (simp add: S_at t'_def [symmetric])
qed

lemma expand_left_eq:
  assumes "1 \<le> ef" "L + ef \<le> length B" "t = B ! L"
  shows "\<exists>T. expand_left B ef t L = Some T \<and> length T = length B \<and> drop L T = drop L B \<and>
    (\<forall>i < L. T ! i = S ! unat (T ! (i + 1) XOR T ! (i + ef)))"
  using assms
proof (induction L arbitrary: B t)
  case 0
  then show ?case by simp
next
  case (Suc L)
  define t' where "t' = S ! unat (t XOR B ! (L + ef))"
  have L2: "rd B (L + ef) = Some (B ! (L + ef))" "wr B L t' = Some (B[L := t'])" using Suc(2,3) by (simp_all add: rd_ok wr_ok)
  obtain T where T: "expand_left (B[L := t']) ef t' L = Some T" "length T = length B" "drop L T = drop L (B[L := t'])"
    "\<forall>i < L. T ! i = S ! unat (T ! (i + 1) XOR T ! (i + ef))"
    using Suc(1) [of "B[L := t']" t'] Suc(2,3) by auto
  have at: "T ! i = B[L := t'] ! i" if "L \<le> i" "i < length B" for i
    using drop_eq_nth [OF T(3) that(1)] that(2) T(2) by simp
  have "T ! L = S ! unat (T ! (L + 1) XOR T ! (L + ef))"
    using at [of L] at [of "L + 1"] at [of "L + ef"] Suc(2-4) by (simp add: t'_def)
  then have "\<forall>i < Suc L. T ! i = S ! unat (T ! (i + 1) XOR T ! (i + ef))" using T(4) by (simp add: less_Suc_eq)
  moreover have "drop (Suc L) T = drop (Suc L) B" using arg_cong [OF T(3), of "drop 1"] by simp
  ultimately show ?case using T(1,2) L2 by (simp add: S_at t'_def [symmetric])
qed

definition rfc_table :: "buf \<Rightarrow> nat \<Rightarrow> nat \<Rightarrow> buf \<Rightarrow> buf \<Rightarrow> bool" where
  "rfc_table key len ef E T \<longleftrightarrow>
     length E = 128 \<and> length T = 128 \<and> take len E = take len key \<and>
     (\<forall>i. len \<le> i \<and> i < 128 \<longrightarrow> E ! i = S ! unat (E ! (i - 1) + E ! (i - len))) \<and>
     (\<forall>i. 128 - ef < i \<and> i < 128 \<longrightarrow> T ! i = E ! i) \<and>
     T ! (128 - ef) = S ! unat (E ! (128 - ef)) \<and>
     (\<forall>i < 128 - ef. T ! i = S ! unat (T ! (i + 1) XOR T ! (i + ef)))"

lemma key_table_eq:
  assumes "length B = 128" "1 \<le> len" "len \<le> 128" "len \<le> length key" "1 \<le> ef" "ef \<le> 128"
  shows "\<exists>E T. key_table B key len ef = Some T \<and> rfc_table key len ef E T"
proof -
  define B0 where "B0 = overlay B 0 (take len key)"
  have B0: "length B0 = 128" "take len B0 = take len key" using assms(1,3,4) by (simp_all add: B0_def overlay_def)
  obtain E where E: "expand_right B0 len 0 (B0 ! (len - 1)) (128 - len) = Some E" "length E = 128" "take len E = take len B0"
    "\<forall>i. len \<le> i \<and> i < 128 \<longrightarrow> E ! i = S ! unat (E ! (i - 1) + E ! (i - len))"
    using expand_right_eq [of 0 len B0 "128 - len" "B0 ! (len - 1)"] assms(2,3) B0(1) by auto
  define t where "t = S ! unat (E ! (128 - ef))"
  obtain T where T: "expand_left (E[128 - ef := t]) ef t (128 - ef) = Some T" "length T = 128"
    "drop (128 - ef) T = drop (128 - ef) (E[128 - ef := t])" "\<forall>i < 128 - ef. T ! i = S ! unat (T ! (i + 1) XOR T ! (i + ef))"
    using expand_left_eq [of ef "128 - ef" "E[128 - ef := t]" t] assms(5,6) E(2) by auto
  have at: "T ! i = E[128 - ef := t] ! i" if "128 - ef \<le> i" "i < 128" for i
    using drop_eq_nth [OF T(3) that(1)] that(2) T(2) E(2) by simp
  have "key_table B key len ef = Some T"
    using assms E(1,2) T(1) B0 by (simp add: key_table_def B0_def [symmetric] rd_ok wr_ok S_at t_def [symmetric] Let_def)
  moreover have "rfc_table key len ef E T"
    using E(2-4) T(2,4) B0(2) at assms(5,6) by (auto simp: rfc_table_def t_def)
  ultimately show ?thesis by blast
qed

section \<open>The calls\<close>

fun encrypt_mode :: "rc2Func \<Rightarrow> buf \<Rightarrow> RC2Block mode" where
  "encrypt_mode rc2_ECB B = ecb (rc2_Encrypt1Block B)"
| "encrypt_mode rc2_CBC B = cbc_encrypt (rc2_Encrypt1Block B)"

fun decrypt_mode :: "rc2Func \<Rightarrow> buf \<Rightarrow> RC2Block mode" where
  "decrypt_mode rc2_ECB B = ecb (rc2_Decrypt1Block B)"
| "decrypt_mode rc2_CBC B = cbc_decrypt (rc2_Decrypt1Block B)"

definition regions :: "buf \<Rightarrow> nat \<Rightarrow> nat \<Rightarrow> nat \<Rightarrow> bool" where
  "regions m outp inp n \<longleftrightarrow>
     inp + n \<le> length m \<and> outp + n \<le> length m \<and> (outp \<le> inp \<or> inp + n \<le> outp)"

lemma ecb_state: "snd (chain (ecb f) v k xs) = v"
  by (induction k arbitrary: v xs) (simp_all add: chain_Suc ecb_def del: chain.simps(2))

lemma call_enc_eq:
  assumes "enc cx = Some f" "8 * k < 4294967296" "regions m outp inp (8 * k)"
  shows "call_enc cx m outp inp (word_of_nat (8 * k)) =
    Some (cx\<lparr>iv := snd (chain (encrypt_mode f (Kb cx)) (iv cx) k (drop inp m))\<rparr>,
      overlay m outp (fst (chain (encrypt_mode f (Kb cx)) (iv cx) k (drop inp m))))"
  using encrypt_ecb.run_chain [where k = k and inp = inp and m = m and out = outp and s = "iv cx" and B = "Kb cx"] encrypt_cbc.run_chain [where k = k and inp = inp and m = m and out = outp and s = "iv cx" and B = "Kb cx"] assms
  by (cases f) (auto simp: call_enc_def regions_def ecb_state)

lemma call_dec_eq:
  assumes "dec cx = Some f" "8 * k < 4294967296" "regions m outp inp (8 * k)"
  shows "call_dec cx m outp inp (word_of_nat (8 * k)) =
    Some (cx\<lparr>iv := snd (chain (decrypt_mode f (Kb cx)) (iv cx) k (drop inp m))\<rparr>,
      overlay m outp (fst (chain (decrypt_mode f (Kb cx)) (iv cx) k (drop inp m))))"
  using decrypt_ecb.run_chain [where k = k and inp = inp and m = m and out = outp and s = "iv cx" and B = "Kb cx"] decrypt_cbc.run_chain [where k = k and inp = inp and m = m and out = outp and s = "iv cx" and B = "Kb cx"] assms
  by (cases f) (auto simp: call_dec_def regions_def ecb_state)

lemma mod_8: "n mod RC2_BLOCK_SIZE = 0 \<longleftrightarrow> unat n mod 8 = 0"
  by (simp only: word_eq_iff_unsigned [where ?'a = nat] unat_mod_distrib RC2_BLOCK_SIZE_def) simp

lemma whole_blocks:
  assumes "unat (n :: u32) mod 8 = 0"
  obtains k where "unat n = 8 * k" "8 * k < 4294967296" "n = word_of_nat (8 * k)" "n \<noteq> 0 \<or> k = 0"
proof -
  obtain k where k: "unat n = 8 * k" using assms by (metis mod_eq_0_iff_dvd dvdE)
  moreover have "8 * k < 4294967296" using k unsigned_less [of n, where ?'a = nat] by simp
  moreover have "n = word_of_nat (8 * k)" unfolding k [symmetric] by simp
  moreover have "n \<noteq> 0 \<or> k = 0" using k by auto
  ultimately show thesis by (rule that)
qed

lemma RC2_Encrypt_eq:
  assumes "enc cx = Some f" "unat n mod 8 = 0" "n \<le> maxo" "regions m outp inp (unat n)"
  shows "RC2_Encrypt cx m outp l maxo inp n =
    Some (SECSuccess, None, cx\<lparr>iv := snd (chain (encrypt_mode f (Kb cx)) (iv cx) (unat n div 8) (drop inp m))\<rparr>,
      overlay m outp (fst (chain (encrypt_mode f (Kb cx)) (iv cx) (unat n div 8) (drop inp m))), n)"
proof -
  obtain k where k: "unat n = 8 * k" "8 * k < 4294967296" "n = word_of_nat (8 * k)" "n \<noteq> 0 \<or> k = 0"
    using whole_blocks [OF assms(2)] .
  have d: "unat n div 8 = k" using k(1) by simp
  note E = call_enc_eq [OF assms(1) k(2), where m = m and outp = outp and inp = inp]
  show ?thesis
  proof (cases "n = 0")
    case True
    then show ?thesis using k by (simp add: RC2_Encrypt_def)
  next
    case False
    then show ?thesis using assms(2-4) E [folded k(3)] k(1) d
      by (simp add: RC2_Encrypt_def mod_8 not_less)
  qed
qed

lemma RC2_Decrypt_eq:
  assumes "dec cx = Some f" "unat n mod 8 = 0" "n \<le> maxo" "regions m outp inp (unat n)"
  shows "RC2_Decrypt cx m outp l maxo inp n =
    Some (SECSuccess, None, cx\<lparr>iv := snd (chain (decrypt_mode f (Kb cx)) (iv cx) (unat n div 8) (drop inp m))\<rparr>,
      overlay m outp (fst (chain (decrypt_mode f (Kb cx)) (iv cx) (unat n div 8) (drop inp m))), n)"
proof -
  obtain k where k: "unat n = 8 * k" "8 * k < 4294967296" "n = word_of_nat (8 * k)" "n \<noteq> 0 \<or> k = 0"
    using whole_blocks [OF assms(2)] .
  have d: "unat n div 8 = k" using k(1) by simp
  note E = call_dec_eq [OF assms(1) k(2), where m = m and outp = outp and inp = inp]
  show ?thesis
  proof (cases "n = 0")
    case True
    then show ?thesis using k by (simp add: RC2_Decrypt_def)
  next
    case False
    then show ?thesis using assms(2-4) E [folded k(3)] k(1) d
      by (simp add: RC2_Decrypt_def mod_8 not_less)
  qed
qed

text \<open>A created context, whichever mode\<close>

lemma created_context:
  assumes "len \<noteq> 0" "len \<le> 128" "unat len \<le> length key" "efLen8 \<noteq> 0" "efLen8 \<le> 128" "8 \<le> length x"
    and "mode = NSS_RC2 \<or> mode = NSS_RC2_CBC"
  shows "\<exists>c f E. RC2_CreateContext True (Some key) len (Some x) mode efLen8 = Some (Some c) \<and> enc c = Some f \<and> dec c = Some f \<and>
    f = (if mode = NSS_RC2 then rc2_ECB else rc2_CBC) \<and>
    (mode = NSS_RC2_CBC \<longrightarrow> iv c = block_at x) \<and> rfc_table key (unat len) (unat efLen8) E (Kb c)"
proof -
  have b: "1 \<le> unat len" "unat len \<le> 128" "1 \<le> unat efLen8" "unat efLen8 \<le> 128"
    using assms(1,2,4,5) by (simp_all add: word_le_nat_alt Suc_le_eq unat_gt_0)
  obtain E T where T: "key_table (Kb zero_context) key (unat len) (unat efLen8) = Some T"
      "rfc_table key (unat len) (unat efLen8) E T"
    using key_table_eq [OF _ b(1,2) assms(3) b(3,4), of "Kb zero_context"] by (auto simp: zero_context_def)
  have load: "LOAD x 0 = Some (block_at x)" using LOAD_eq [of 0 x] assms(6) by (simp add: block_at_def)
  have "\<not> (len = 0 \<or> len > 128 \<or> efLen8 > 128)" using assms(1,2,5) by auto
  with assms(7) T load show ?thesis
    by (auto simp: RC2_CreateContext_def RC2_AllocateContext_def RC2_InitContext_def NSS_RC2_def NSS_RC2_CBC_def)
qed

lemma mode_inverse:
  assumes "length xs = 8 * k"
  shows "fst (chain (decrypt_mode f B) v k (fst (chain (encrypt_mode f B) v k xs))) = xs"
  using assms by (cases f) (simp_all add: ecb_inverse cbc_inverse)

lemma key_table_zero:
  assumes "length B = 128" "1 \<le> len" "len \<le> 128" "len \<le> length key"
  shows "key_table B key len 0 = None"
proof -
  define B0 where "B0 = overlay B 0 (take len key)"
  have B0: "length B0 = 128" using assms(1,3,4) by (simp add: B0_def overlay_def)
  then obtain E where "expand_right B0 len 0 (B0 ! (len - 1)) (128 - len) = Some E" "length E = 128"
    using expand_right_eq [of 0 len B0 "128 - len" "B0 ! (len - 1)"] assms(2,3) by auto
  then show ?thesis using assms B0 by (simp add: key_table_def B0_def [symmetric] rd_ok rd_def [of E] Let_def)
qed

lemma cbc_last_block:
  "0 < j \<Longrightarrow> snd (chain (cbc_encrypt g) v j zs) = block_at (drop (8 * (j - 1)) (fst (chain (cbc_encrypt g) v j zs)))"
proof (induction j arbitrary: v zs)
  case (Suc j)
  define b where "b = g (xor_block (block_at (take 8 zs)) v)"
  have c: "chain (cbc_encrypt g) v (Suc j) zs =
      (bytes_of_block b @ fst (chain (cbc_encrypt g) b j (drop 8 zs)), snd (chain (cbc_encrypt g) b j (drop 8 zs)))"
    unfolding chain_Suc by (simp add: cbc_encrypt_def b_def)
  show ?case
  proof (cases "j = 0")
    case True
    then show ?thesis using c by simp
  next
    case False
    then have "drop (8 * (Suc j - 1)) (bytes_of_block b @ fst (chain (cbc_encrypt g) b j (drop 8 zs))) =
        drop (8 * (j - 1)) (fst (chain (cbc_encrypt g) b j (drop 8 zs)))"
      by (cases j) simp_all
    then show ?thesis using Suc(1) [of b "drop 8 zs"] False unfolding c by simp
  qed
qed simp

section \<open>The modes of operation, written over octets\<close>

text \<open>The reference for the modes: a text is a list of octets, a block is eight of them, and the block cipher \<open>E\<close> is a function
  of eight octets. RFC 2268 reads a block as four 16-bit numbers, the low octet first.\<close>

definition le16 :: "byte \<Rightarrow> byte \<Rightarrow> u16" where
  "le16 x y = word_of_nat (unat x + 256 * unat y)"

definition octets16 :: "u16 \<Rightarrow> buf" where
  "octets16 r = [word_of_nat (unat r mod 256), word_of_nat (unat r div 256)]"

fun block_octets :: "RC2Block \<Rightarrow> buf" where
  "block_octets (r0, r1, r2, r3) = octets16 r0 @ octets16 r1 @ octets16 r2 @ octets16 r3"

definition numbers :: "buf \<Rightarrow> RC2Block" where
  "numbers xs = (le16 (xs ! 0) (xs ! 1), le16 (xs ! 2) (xs ! 3), le16 (xs ! 4) (xs ! 5), le16 (xs ! 6) (xs ! 7))"

definition block_cipher :: "(RC2Block \<Rightarrow> RC2Block) \<Rightarrow> buf \<Rightarrow> buf" where
  "block_cipher f xs = block_octets (f (numbers xs))"

definition xor_octets :: "buf \<Rightarrow> buf \<Rightarrow> buf" where
  "xor_octets xs ys = map (\<lambda>i. xs ! i XOR ys ! i) [0..<8]"

fun ecb_text :: "(buf \<Rightarrow> buf) \<Rightarrow> nat \<Rightarrow> buf \<Rightarrow> buf" where
  "ecb_text E 0 xs = []"
| "ecb_text E (Suc k) xs = E (take 8 xs) @ ecb_text E k (drop 8 xs)"

fun cbc_encrypted :: "(buf \<Rightarrow> buf) \<Rightarrow> buf \<Rightarrow> nat \<Rightarrow> buf \<Rightarrow> buf \<times> buf" where
  "cbc_encrypted E v 0 xs = ([], v)"
| "cbc_encrypted E v (Suc k) xs =
     (let c = E (xor_octets (take 8 xs) v); (r, w) = cbc_encrypted E c k (drop 8 xs) in (c @ r, w))"

fun cbc_decrypted :: "(buf \<Rightarrow> buf) \<Rightarrow> buf \<Rightarrow> nat \<Rightarrow> buf \<Rightarrow> buf \<times> buf" where
  "cbc_decrypted D v 0 xs = ([], v)"
| "cbc_decrypted D v (Suc k) xs =
     (let c = take 8 xs; (r, w) = cbc_decrypted D c k (drop 8 xs) in (xor_octets (D c) v @ r, w))"

fun encrypted :: "rc2Func \<Rightarrow> (buf \<Rightarrow> buf) \<Rightarrow> buf \<Rightarrow> nat \<Rightarrow> buf \<Rightarrow> buf \<times> buf" where
  "encrypted rc2_ECB E v k xs = (ecb_text E k xs, v)"
| "encrypted rc2_CBC E v k xs = cbc_encrypted E v k xs"

fun decrypted :: "rc2Func \<Rightarrow> (buf \<Rightarrow> buf) \<Rightarrow> buf \<Rightarrow> nat \<Rightarrow> buf \<Rightarrow> buf \<times> buf" where
  "decrypted rc2_ECB D v k xs = (ecb_text D k xs, v)"
| "decrypted rc2_CBC D v k xs = cbc_decrypted D v k xs"

lemma le16_eq: "le16 x y = word16 x y"
proof -
  have "le16 x y = ucast x + push_bit 8 (ucast y)"
    by (simp add: le16_def push_bit_eq_mult mult.commute)
  also have "\<dots> = ucast x OR push_bit 8 (ucast y)"
    by (rule disjunctive_add) (auto simp: bit_simps dest: bit_imp_le_length)
  finally show ?thesis by (simp add: word16_def or.commute)
qed

lemma unat_mod_u16: "unat (r :: u16) mod 65536 = unat r"
  using unsigned_less [of r, where ?'a = nat] by simp

lemma octets16_eq: "octets16 r = [low_byte r, high_byte r]"
  by (simp add: octets16_def low_byte_def high_byte_def word_unat_eq_iff unsigned_of_nat unsigned_ucast_eq
      unsigned_drop_bit_eq drop_bit_eq_div [where ?'a = nat] take_bit_eq_mod unat_mod_u16)

lemma block_octets_eq: "block_octets r = bytes_of_block r"
  by (cases r) (simp add: octets16_eq)

lemma numbers_eq: "numbers xs = block_at xs"
  by (simp add: numbers_def block_at_def le16_eq)

lemma bytes_xor: "low_byte (a XOR b) = low_byte a XOR low_byte b" "high_byte (a XOR b) = high_byte a XOR high_byte b"
  by (rule bit_eqI, simp add: low_byte_def high_byte_def bit_simps)+

lemma xor_octets_eq:
  assumes "length xs = 8"
  shows "xor_octets xs (bytes_of_block v) = bytes_of_block (xor_block (block_at xs) v)"
proof -
  have "[0..<8] = [0, 1, 2, 3, 4, 5, 6, 7]" by (simp add: upt_rec)
  then have "xor_octets ys zs = [ys ! 0 XOR zs ! 0, ys ! 1 XOR zs ! 1, ys ! 2 XOR zs ! 2, ys ! 3 XOR zs ! 3,
      ys ! 4 XOR zs ! 4, ys ! 5 XOR zs ! 5, ys ! 6 XOR zs ! 6, ys ! 7 XOR zs ! 7]" for ys zs
    by (simp add: xor_octets_def)
  then show ?thesis by (cases v) (simp add: block_at_def bytes_xor)
qed

lemma block_cipher_eq: "block_cipher f = (\<lambda>xs. bytes_of_block (f (block_at xs)))"
  by (simp add: fun_eq_iff block_cipher_def block_octets_eq numbers_eq)

lemma ecb_text_eq: "8 * k \<le> length xs \<Longrightarrow> ecb_text (block_cipher f) k xs = fst (chain (ecb f) v k xs)"
  by (induction k arbitrary: xs) (simp_all add: chain_Suc ecb_def block_cipher_eq del: chain.simps(2))

lemma cbc_encrypted_eq:
  "8 * k \<le> length xs \<Longrightarrow> cbc_encrypted (block_cipher f) (bytes_of_block v) k xs =
    (fst (chain (cbc_encrypt f) v k xs), bytes_of_block (snd (chain (cbc_encrypt f) v k xs)))"
proof (induction k arbitrary: v xs)
  case (Suc k)
  define c where "c = f (xor_block (block_at (take 8 xs)) v)"
  have "block_cipher f (xor_octets (take 8 xs) (bytes_of_block v)) = bytes_of_block c"
    using Suc(2) by (simp add: xor_octets_eq block_cipher_eq c_def)
  moreover have "cbc_encrypted (block_cipher f) (bytes_of_block c) k (drop 8 xs) =
      (fst (chain (cbc_encrypt f) c k (drop 8 xs)), bytes_of_block (snd (chain (cbc_encrypt f) c k (drop 8 xs))))"
    using Suc by simp
  moreover have "cbc_encrypt f v (block_at (take 8 xs)) = (c, c)" by (simp add: cbc_encrypt_def c_def)
  ultimately show ?case by (simp add: chain_Suc Let_def del: chain.simps(2))
qed simp

lemma cbc_decrypted_eq:
  "8 * k \<le> length xs \<Longrightarrow> cbc_decrypted (block_cipher g) (bytes_of_block v) k xs =
    (fst (chain (cbc_decrypt g) v k xs), bytes_of_block (snd (chain (cbc_decrypt g) v k xs)))"
proof (induction k arbitrary: v xs)
  case (Suc k)
  define c where "c = block_at (take 8 xs)"
  have c: "take 8 xs = bytes_of_block c" using Suc(2) by (simp add: c_def)
  have "xor_octets (block_cipher g (take 8 xs)) (bytes_of_block v) = bytes_of_block (xor_block (g c) v)"
    by (simp add: xor_octets_eq block_cipher_eq c)
  moreover have "cbc_decrypted (block_cipher g) (bytes_of_block c) k (drop 8 xs) =
      (fst (chain (cbc_decrypt g) c k (drop 8 xs)), bytes_of_block (snd (chain (cbc_decrypt g) c k (drop 8 xs))))"
    using Suc by simp
  moreover have "cbc_decrypt g v (block_at (take 8 xs)) = (xor_block (g c) v, c)" by (simp add: cbc_decrypt_def c_def)
  ultimately show ?case using c by (simp add: chain_Suc Let_def del: chain.simps(2))
qed simp

lemma encrypted_eq:
  assumes "8 * k \<le> length xs"
  shows "encrypted f (block_cipher (rc2_Encrypt1Block B)) (block_octets v) k xs =
    (fst (chain (encrypt_mode f B) v k xs), block_octets (snd (chain (encrypt_mode f B) v k xs)))"
  using assms by (cases f) (simp_all add: ecb_text_eq [of _ _ _ v] cbc_encrypted_eq block_octets_eq ecb_state)

lemma decrypted_eq:
  assumes "8 * k \<le> length xs"
  shows "decrypted f (block_cipher (rc2_Decrypt1Block B)) (block_octets v) k xs =
    (fst (chain (decrypt_mode f B) v k xs), block_octets (snd (chain (decrypt_mode f B) v k xs)))"
  using assms by (cases f) (simp_all add: ecb_text_eq [of _ _ _ v] cbc_decrypted_eq block_octets_eq ecb_state)

lemma cbc_last_octets:
  assumes "length xs = 8 * j" "0 < j"
  shows "block_octets (snd (chain (cbc_encrypt g) v j xs)) = drop (8 * (j - 1)) (fst (chain (cbc_encrypt g) v j xs))"
  using cbc_last_block [OF assms(2), of g v xs] assms(2) by (simp add: block_octets_eq right_diff_distrib')

section \<open>Properties\<close>

text \<open>C32: Decryption undoes encryption. With any key of 1 to 128 bytes, any effective key length of 1 to 128 bytes, in ECB and in
  CBC mode, for any whole number of blocks: encrypting a region of memory to another, to itself or to an overlapping one that
  begins before it succeeds, changes only the output, and decrypting that in place with a context created alike leaves exactly the
  plaintext.\<close>

theorem rc2_roundtrip:
  assumes "len \<noteq> 0" "len \<le> 128" "unat len \<le> length key" "efLen8 \<noteq> 0" "efLen8 \<le> 128" "8 \<le> length x"
    and "mode = NSS_RC2 \<or> mode = NSS_RC2_CBC" "unat n mod 8 = 0" "n \<le> maxo" "regions m outp inp (unat n)"
  shows "\<exists>cx cx1 cx2 m1 m2. RC2_CreateContext True (Some key) len (Some x) mode efLen8 = Some (Some cx) \<and>
    RC2_Encrypt cx m outp l maxo inp n = Some (SECSuccess, None, cx1, m1, n) \<and>
    take outp m1 = take outp m \<and> drop (outp + unat n) m1 = drop (outp + unat n) m \<and>
    RC2_Decrypt cx m1 outp l maxo outp n = Some (SECSuccess, None, cx2, m2, n) \<and>
    m2 = overlay m outp (take (unat n) (drop inp m))"
proof -
  obtain c f E where c: "RC2_CreateContext True (Some key) len (Some x) mode efLen8 = Some (Some c)" "enc c = Some f" "dec c = Some f"
    using created_context [OF assms(1-7)] by blast
  define k p ct where "k = unat n div 8" and "p = take (unat n) (drop inp m)"
    and "ct = fst (chain (encrypt_mode f (Kb c)) (iv c) k (drop inp m))"
  define m1 where "m1 = overlay m outp ct"
  have n: "unat n = 8 * k" using assms(8) mult_div_mod_eq [of 8 "unat n"] by (simp add: k_def)
  have r: "outp + unat n \<le> length m" "inp + unat n \<le> length m" using assms(10) by (simp_all add: regions_def)
  have lp: "length p = unat n" using r by (simp add: p_def)
  have lct: "length ct = unat n" by (simp add: ct_def n)
  then have l1: "length m1 = length m" using r by (simp add: m1_def length_overlay)
  have "drop outp m1 = ct @ drop (outp + unat n) m" using r lct by (simp add: m1_def overlay_def)
  then have "take (8 * k) (drop outp m1) = ct" using lct n by simp
  then have "fst (chain (decrypt_mode f (Kb c)) (iv c) k (drop outp m1)) = fst (chain (decrypt_mode f (Kb c)) (iv c) k ct)"
    by (metis chain_take order_refl)
  also have "ct = fst (chain (encrypt_mode f (Kb c)) (iv c) k p)"
    unfolding ct_def p_def n by (simp add: chain_take)
  also have "fst (chain (decrypt_mode f (Kb c)) (iv c) k (fst (chain (encrypt_mode f (Kb c)) (iv c) k p))) = p"
    using r n by (intro mode_inverse) (simp add: p_def)
  finally have dec: "fst (chain (decrypt_mode f (Kb c)) (iv c) k (drop outp m1)) = p" .
  have "regions m1 outp outp (unat n)" using r l1 by (simp add: regions_def)
  note D = RC2_Decrypt_eq [OF c(3) assms(8,9) this, of l]
  have "overlay m1 outp p = overlay m outp p"
    using r lct lp by (simp add: m1_def overlay_def)
  moreover have "take outp m1 = take outp m" "drop (outp + unat n) m1 = drop (outp + unat n) m"
    using r lct by (simp_all add: m1_def overlay_def)
  ultimately show ?thesis
    using c(1) RC2_Encrypt_eq [OF c(2) assms(8-10), of l] D
    unfolding k_def [symmetric] ct_def [symmetric] m1_def [symmetric] dec p_def by blast
qed

theorem rc2_roundtrip_witness:
  "\<exists>cx cx1 cx2 m1 m2. RC2_CreateContext True (Some [1, 2]) 2 (Some (replicate 8 9)) NSS_RC2_CBC 128 = Some (Some cx) \<and>
    RC2_Encrypt cx [1, 2, 3, 4, 5, 6, 7, 8] 0 0 8 0 8 = Some (SECSuccess, None, cx1, m1, 8) \<and>
    RC2_Decrypt cx m1 0 0 8 0 8 = Some (SECSuccess, None, cx2, m2, 8) \<and> m2 = [1, 2, 3, 4, 5, 6, 7, 8]"
  using rc2_roundtrip [of 2 "[1, 2]" 128 "replicate 8 9" NSS_RC2_CBC 8 8 "[1, 2, 3, 4, 5, 6, 7, 8]" 0 0 0]
  by (simp add: regions_def overlay_def) blast

definition cbc_context :: RC2Context where
  "cbc_context = zero_context\<lparr>enc := Some rc2_CBC, dec := Some rc2_CBC\<rparr>"

lemma length_block_cipher [simp]: "length (block_cipher f xs) = 8"
  by (simp add: block_cipher_eq)

text \<open>C33: The two calls are the modes of operation over the block cipher, as these are written over octets: ECB takes every
  block of eight octets through the cipher, CBC first adds to it, octet by octet, the ciphertext block before it. With a whole
  number of blocks and regions as above, \<open>RC2_Encrypt\<close> stores what the mode makes of the input; the next initialization vector
  is the last ciphertext block in CBC mode and stays what it was in ECB mode, so that a text encrypted in two calls is the text
  encrypted in one; \<open>RC2_Decrypt\<close> stores what the inverse mode makes of it.\<close>

theorem rc2_modes:
  assumes "enc cx = Some f" "dec cx = Some f" "unat n mod 8 = 0" "n \<le> maxo" "regions m outp inp (unat n)"
    and "length xs = 8 * j" "length ys = 8 * k"
    and "E = block_cipher (rc2_Encrypt1Block (Kb cx))" "D = block_cipher (rc2_Decrypt1Block (Kb cx))" "v = block_octets (iv cx)"
  shows "RC2_Encrypt cx m outp l maxo inp n =
      (let (ct, w) = encrypted f E v (unat n div 8) (drop inp m)
       in Some (SECSuccess, None, cx\<lparr>iv := numbers w\<rparr>, overlay m outp ct, n)) \<and>
    RC2_Decrypt cx m outp l maxo inp n =
      (let (pt, w) = decrypted f D v (unat n div 8) (drop inp m)
       in Some (SECSuccess, None, cx\<lparr>iv := numbers w\<rparr>, overlay m outp pt, n)) \<and>
    encrypted f E v (j + k) (xs @ ys) =
      (let (c1, w) = encrypted f E v j xs; (c2, w2) = encrypted f E w k ys in (c1 @ c2, w2)) \<and>
    snd (encrypted f E v j xs) = (if f = rc2_CBC \<and> 0 < j then drop (8 * (j - 1)) (fst (encrypted f E v j xs)) else v)"
proof (intro conjI)
  have "8 * (unat n div 8) \<le> length (drop inp m)" using assms(3,5) by (auto simp: regions_def)
  note eq = encrypted_eq [OF this] decrypted_eq [OF this]
  show "RC2_Encrypt cx m outp l maxo inp n =
      (let (ct, w) = encrypted f E v (unat n div 8) (drop inp m)
       in Some (SECSuccess, None, cx\<lparr>iv := numbers w\<rparr>, overlay m outp ct, n))"
    unfolding assms(8,10) eq(1) by (simp add: RC2_Encrypt_eq [OF assms(1,3-5)] block_octets_eq numbers_eq)
  show "RC2_Decrypt cx m outp l maxo inp n =
      (let (pt, w) = decrypted f D v (unat n div 8) (drop inp m)
       in Some (SECSuccess, None, cx\<lparr>iv := numbers w\<rparr>, overlay m outp pt, n))"
    unfolding assms(9,10) eq(2) by (simp add: RC2_Decrypt_eq [OF assms(2-5)] block_octets_eq numbers_eq)
  show "encrypted f E v (j + k) (xs @ ys) =
      (let (c1, w) = encrypted f E v j xs; (c2, w2) = encrypted f E w k ys in (c1 @ c2, w2))"
    unfolding assms(8,10) using assms(6,7) by (simp add: encrypted_eq chain_append)
  show "snd (encrypted f E v j xs) = (if f = rc2_CBC \<and> 0 < j then drop (8 * (j - 1)) (fst (encrypted f E v j xs)) else v)"
  proof (cases "f = rc2_CBC \<and> 0 < j")
    case True
    then show ?thesis unfolding assms(8,10) using assms(6) by (simp add: encrypted_eq cbc_last_octets del: encrypted.simps)
  next
    case False
    then show ?thesis by (cases f) simp_all
  qed
qed

theorem rc2_modes_witness:
  "let E = block_cipher (rc2_Encrypt1Block (replicate 128 0));
       c = E (xor_octets [1, 2, 3, 4, 5, 6, 7, 8] (block_octets (0, 0, 0, 0)));
       d = E (xor_octets [9, 10, 11, 12, 13, 14, 15, 16] c)
   in RC2_Encrypt cbc_context [1, 2, 3, 4, 5, 6, 7, 8, 9, 10, 11, 12, 13, 14, 15, 16] 0 0 16 0 16 =
     Some (SECSuccess, None, cbc_context\<lparr>iv := numbers d\<rparr>, c @ d, 16)"
proof -
  have "cbc_encrypted E v 2 xs =
      (let c = E (xor_octets (take 8 xs) v); d = E (xor_octets (take 8 (drop 8 xs)) c) in (c @ d, d))" for E v xs
    by (simp add: numeral_2_eq_2 Let_def)
  then show ?thesis
    using rc2_modes [of cbc_context rc2_CBC 16 16 "[1, 2, 3, 4, 5, 6, 7, 8, 9, 10, 11, 12, 13, 14, 15, 16]" 0 0 "[]" 0 "[]" 0 _ _ _ 0,
      OF _ _ _ _ _ _ _ refl refl refl, THEN conjunct1]
    by (simp add: regions_def cbc_context_def zero_context_def overlay_def Let_def del: block_octets.simps)
qed
text \<open>C34: The key table is that of RFC 2268. For a key of 1 to 128 bytes and an effective length of 1 to 128 bytes the key is
  expanded to the right by \<open>PITABLE[L[i-1] + L[i-T]]\<close>, then the byte at the effective length and everything left of it
  is recomputed by \<open>PITABLE[L[i+1] ^ L[i+T8]]\<close>; all accesses are inside the 128 bytes. The mode and, in CBC mode, the
  initialization vector are taken over.\<close>

theorem rc2_key_schedule:
  assumes "len \<noteq> 0" "len \<le> 128" "unat len \<le> length key" "efLen8 \<noteq> 0" "efLen8 \<le> 128" "8 \<le> length x"
    and "mode = NSS_RC2 \<or> mode = NSS_RC2_CBC"
  shows "\<exists>c f E. RC2_CreateContext True (Some key) len (Some x) mode efLen8 = Some (Some c) \<and> enc c = Some f \<and> dec c = Some f \<and>
    f = (if mode = NSS_RC2 then rc2_ECB else rc2_CBC) \<and>
    (mode = NSS_RC2_CBC \<longrightarrow> iv c = block_at x) \<and> rfc_table key (unat len) (unat efLen8) E (Kb c)"
  by (rule created_context [OF assms])

theorem rc2_key_schedule_witness:
  "\<exists>c E. RC2_CreateContext True (Some [7]) 1 (Some (replicate 8 0)) NSS_RC2 8 = Some (Some c) \<and> rfc_table [7] 1 8 E (Kb c)"
  using rc2_key_schedule [of 1 "[7]" 8 "replicate 8 0" NSS_RC2] by auto

text \<open>What the cipher refuses and what it does not. Lengths that are not whole blocks or do not fit the output are errors that
  change nothing; a missing key, an empty or too long key, an unknown mode and a missing initialization vector are errors, and then
  no context is created. But an effective key length of 0 passes the checks and makes \<open>RC2_InitContext\<close> write behind the key
  table.\<close>

theorem rc2_errors:
  "(n mod RC2_BLOCK_SIZE \<noteq> 0 \<longrightarrow>
      RC2_Encrypt cx m outp l maxo inp n = Some (SECFailure, Some SEC_ERROR_INPUT_LEN, cx, m, l) \<and>
      RC2_Decrypt cx m outp l maxo inp n = Some (SECFailure, Some SEC_ERROR_INPUT_LEN, cx, m, l)) \<and>
   (n mod RC2_BLOCK_SIZE = 0 \<and> maxo < n \<longrightarrow>
      RC2_Encrypt cx m outp l maxo inp n = Some (SECFailure, Some SEC_ERROR_OUTPUT_LEN, cx, m, l) \<and>
      RC2_Decrypt cx m outp l maxo inp n = Some (SECFailure, Some SEC_ERROR_OUTPUT_LEN, cx, m, l)) \<and>
   (len = 0 \<or> len > 128 \<or> efLen8 > 128 \<or> key = None \<or> mode \<noteq> NSS_RC2 \<and> (mode \<noteq> NSS_RC2_CBC \<or> v = None) \<longrightarrow>
      RC2_InitContext (Some c) key len v mode efLen8 = Some (SECFailure, Some SEC_ERROR_INVALID_ARGS, Some c) \<and>
      RC2_CreateContext True key len v mode efLen8 = Some None) \<and>
   RC2_CreateContext True (Some [7]) 1 None NSS_RC2 0 = None"
proof (intro conjI)
  show "n mod RC2_BLOCK_SIZE \<noteq> 0 \<longrightarrow>
      RC2_Encrypt cx m outp l maxo inp n = Some (SECFailure, Some SEC_ERROR_INPUT_LEN, cx, m, l) \<and>
      RC2_Decrypt cx m outp l maxo inp n = Some (SECFailure, Some SEC_ERROR_INPUT_LEN, cx, m, l)"
    by (auto simp: RC2_Encrypt_def RC2_Decrypt_def)
  show "n mod RC2_BLOCK_SIZE = 0 \<and> maxo < n \<longrightarrow>
      RC2_Encrypt cx m outp l maxo inp n = Some (SECFailure, Some SEC_ERROR_OUTPUT_LEN, cx, m, l) \<and>
      RC2_Decrypt cx m outp l maxo inp n = Some (SECFailure, Some SEC_ERROR_OUTPUT_LEN, cx, m, l)"
    by (auto simp: RC2_Encrypt_def RC2_Decrypt_def)
  show "len = 0 \<or> len > 128 \<or> efLen8 > 128 \<or> key = None \<or> mode \<noteq> NSS_RC2 \<and> (mode \<noteq> NSS_RC2_CBC \<or> v = None) \<longrightarrow>
      RC2_InitContext (Some c) key len v mode efLen8 = Some (SECFailure, Some SEC_ERROR_INVALID_ARGS, Some c) \<and>
      RC2_CreateContext True key len v mode efLen8 = Some None"
    by (auto simp: RC2_CreateContext_def RC2_AllocateContext_def RC2_InitContext_def RC2_DestroyContext_def split: option.splits)
  have "key_table (Kb zero_context) [7] 1 0 = None"
    by (rule key_table_zero) (simp_all add: zero_context_def)
  then show "RC2_CreateContext True (Some [7]) 1 None NSS_RC2 0 = None"
    by (simp add: RC2_CreateContext_def RC2_AllocateContext_def RC2_InitContext_def NSS_RC2_def)
qed

theorem rc2_errors_witness:
  "RC2_Encrypt zero_context [1, 2, 3] 0 4 8 0 3 = Some (SECFailure, Some SEC_ERROR_INPUT_LEN, zero_context, [1, 2, 3], 4)"
  using rc2_errors [where n = 3 and maxo = 8 and cx = zero_context and m = "[1, 2, 3]" and outp = 0 and inp = 0 and l = 4]
  by (simp add: RC2_BLOCK_SIZE_def)

end
