(* ===== verification/Moz_DerTime.thy ===== *)
theory Moz_DerTime
  imports Moz_TimeFormat Moz_Sec
begin

text \<open>
  \<open>src/security/nss/lib/util/dertime.c\<close> and \<open>sectime.c\<close>: the two time types of ASN.1, \<open>UTCTime\<close>
  (\<open>YYMMDDhhmm[ss]\<close> with a two-digit year) and \<open>GeneralizedTime\<close> (\<open>YYYYMMDDhhmm[ss]\<close>), each followed by
  \<open>Z\<close> or an offset \<open>+hhmm\<close>, \<open>-hhmm\<close>. They are written from and read into \<open>PRTime\<close> by way of
  \<open>PR_ExplodeTime\<close> and \<open>PR_ImplodeTime\<close> of the theory of the calendar.

  A pointer into a text is the rest of the object from there on; \<open>goto loser\<close> is the inner \<open>None\<close> of an
  \<open>option exec\<close>, an undefined access the outer one. The error code is part of the state \<open>PORT\<close>.
\<close>

section \<open>Writing\<close>

definition HIDIGIT :: "int \<Rightarrow> byte" where
  "HIDIGIT v = word_of_int (v sdiv 10 + 48)"

definition LODIGIT :: "int \<Rightarrow> byte" where
  "LODIGIT v = word_of_int (v smod 10 + 48)"

definition January1st1 :: int where "January1st1 = i64 0xff23400100d44000"
definition January1st1950 :: int where "January1st1950 = i64 0xfffdc1f8793da000"
definition January1st2050 :: int where "January1st2050 = i64 0x0008f81e1b098000"
definition January1st10000 :: int where "January1st10000 = i64 0x0384440ccc736000"

text \<open>\<open>d[i] = HIDIGIT(v); d[i + 1] = LODIGIT(v);\<close>\<close>

definition put2 :: "nat \<Rightarrow> int \<Rightarrow> buf \<Rightarrow> buf exec" where
  "put2 i v d = do { d \<leftarrow> wr d i (HIDIGIT v); wr d (i + 1) (LODIGIT v) }"

definition DER_TimeToUTCTimeArena ::
  "allocf \<Rightarrow> allocf ptr \<Rightarrow> SECItem \<Rightarrow> int \<Rightarrow> PORT \<Rightarrow> (SECStatus \<times> SECItem \<times> PORT) exec" where
  "DER_TimeToUTCTimeArena malloc arenaOpt dst gmttime port =
     (if gmttime < January1st1950 \<or> gmttime \<ge> January1st2050 then
        Some (SECFailure, dst, PORT_SetError SEC_ERROR_INVALID_ARGS port)
      else
        let (d, port) = alloc_from malloc arenaOpt 13 port;
            dst = dst\<lparr>item_len := 13, item_data := d, item_type := siUTCTime\<rparr>
        in case d of
             None \<Rightarrow> Some (SECFailure, dst, port)
           | Some d \<Rightarrow> do {
               t \<leftarrow> PR_ExplodeTime gmttime PR_GMTParameters;
               let t = t\<lparr>tm_month := i32 (tm_month t + 1)\<rparr>;
               let t = t\<lparr>tm_year := i16 (tm_year t smod 100)\<rparr>;
               d \<leftarrow> put2 0 (tm_year t) d;
               d \<leftarrow> put2 2 (tm_month t) d;
               d \<leftarrow> put2 4 (tm_mday t) d;
               d \<leftarrow> put2 6 (tm_hour t) d;
               d \<leftarrow> put2 8 (tm_min t) d;
               d \<leftarrow> put2 10 (tm_sec t) d;
               d \<leftarrow> wr d 12 (chr_of CHR ''Z'');
               Some (SECSuccess, dst\<lparr>item_data := Some d\<rparr>, port) })"

definition DER_TimeToUTCTime ::
  "allocf \<Rightarrow> SECItem \<Rightarrow> int \<Rightarrow> PORT \<Rightarrow> (SECStatus \<times> SECItem \<times> PORT) exec" where
  "DER_TimeToUTCTime malloc dst gmttime port = DER_TimeToUTCTimeArena malloc None dst gmttime port"

definition DER_TimeToGeneralizedTimeArena ::
  "allocf \<Rightarrow> allocf ptr \<Rightarrow> SECItem \<Rightarrow> int \<Rightarrow> PORT \<Rightarrow> (SECStatus \<times> SECItem \<times> PORT) exec" where
  "DER_TimeToGeneralizedTimeArena malloc arenaOpt dst gmttime port =
     (if gmttime < January1st1 \<or> gmttime \<ge> January1st10000 then
        Some (SECFailure, dst, PORT_SetError SEC_ERROR_INVALID_ARGS port)
      else
        let (d, port) = alloc_from malloc arenaOpt 15 port;
            dst = dst\<lparr>item_len := 15, item_data := d, item_type := siGeneralizedTime\<rparr>
        in case d of
             None \<Rightarrow> Some (SECFailure, dst, port)
           | Some d \<Rightarrow> do {
               t \<leftarrow> PR_ExplodeTime gmttime PR_GMTParameters;
               let t = t\<lparr>tm_month := i32 (tm_month t + 1)\<rparr>;
               d \<leftarrow> wr d 0 (word_of_int (tm_year t sdiv 1000 + 48));
               d \<leftarrow> wr d 1 (word_of_int ((tm_year t smod 1000) sdiv 100 + 48));
               d \<leftarrow> wr d 2 (word_of_int ((tm_year t smod 100) sdiv 10 + 48));
               d \<leftarrow> wr d 3 (word_of_int (tm_year t smod 10 + 48));
               d \<leftarrow> put2 4 (tm_month t) d;
               d \<leftarrow> put2 6 (tm_mday t) d;
               d \<leftarrow> put2 8 (tm_hour t) d;
               d \<leftarrow> put2 10 (tm_min t) d;
               d \<leftarrow> put2 12 (tm_sec t) d;
               d \<leftarrow> wr d 14 (chr_of CHR ''Z'');
               Some (SECSuccess, dst\<lparr>item_data := Some d\<rparr>, port) })"

definition DER_TimeToGeneralizedTime ::
  "allocf \<Rightarrow> SECItem \<Rightarrow> int \<Rightarrow> PORT \<Rightarrow> (SECStatus \<times> SECItem \<times> PORT) exec" where
  "DER_TimeToGeneralizedTime malloc dst gmttime port = DER_TimeToGeneralizedTimeArena malloc None dst gmttime port"

section \<open>Reading\<close>

definition ISDIGIT :: "byte \<Rightarrow> bool" where
  "ISDIGIT c \<longleftrightarrow> c \<ge> chr_of CHR ''0'' \<and> c \<le> chr_of CHR ''9''"

definition CAPTURE :: "buf \<Rightarrow> (int \<times> buf) option exec" where
  "CAPTURE p = do {
     a \<leftarrow> rd p 0;
     if \<not> ISDIGIT a then Some None
     else do {
       b \<leftarrow> rd p 1;
       if \<not> ISDIGIT b then Some None
       else Some (Some ((uint a - 48) * 10 + (uint b - 48), drop 2 p)) } }"

text \<open>The rest of the function after a statement that may jump to \<open>loser\<close>.\<close>

definition or_loser :: "'a option exec \<Rightarrow> ('a \<Rightarrow> 'b option exec) \<Rightarrow> 'b option exec" where
  "or_loser x k = do { r \<leftarrow> x; case r of None \<Rightarrow> Some None | Some v \<Rightarrow> k v }"

text \<open>A capture and the check of its range.\<close>

definition field :: "(int \<Rightarrow> bool) \<Rightarrow> buf \<Rightarrow> (int \<times> buf) option exec" where
  "field bad p = or_loser (CAPTURE p) (\<lambda>(v, p). if bad v then Some None else Some (Some (v, p)))"

definition der_year :: "bool \<Rightarrow> buf \<Rightarrow> (int \<times> buf) option exec" where
  "der_year generalized p =
     (if \<not> generalized then
        or_loser (CAPTURE p) (\<lambda>(year, p).
          let century = (if year < 50 then 20 else 19) in Some (Some (i16 (year + century * 100), p)))
      else
        or_loser (CAPTURE p) (\<lambda>(century, p).
        or_loser (CAPTURE p) (\<lambda>(year, p). Some (Some (i16 (year + century * 100), p)))))"

definition der_seconds :: "buf \<Rightarrow> (int \<times> buf) option exec" where
  "der_seconds p = do {
     c \<leftarrow> rd p 0;
     if ISDIGIT c then field (\<lambda>v. v > 59) p else Some (Some (0, p)) }"

definition der_zone :: "buf \<Rightarrow> ((int \<times> int) \<times> buf) option exec" where
  "der_zone p = do {
     signum \<leftarrow> rd p 0;
     let p = drop 1 p;
     if signum = chr_of CHR ''+'' \<or> signum = chr_of CHR ''-'' then
       or_loser (field (\<lambda>v. v > 23) p) (\<lambda>(hourOff, p).
       or_loser (field (\<lambda>v. v > 59) p) (\<lambda>(minOff, p).
         Some (Some (if signum = chr_of CHR ''-'' then (- hourOff, - minOff) else (hourOff, minOff), p))))
     else if signum \<noteq> chr_of CHR ''Z'' then Some None
     else Some (Some ((0, 0), p)) }"

definition der_fields :: "bool \<Rightarrow> buf \<Rightarrow> (PRExplodedTime \<times> buf) option exec" where
  "der_fields generalized p =
     or_loser (der_year generalized p) (\<lambda>(year, p).
     or_loser (field (\<lambda>v. v = 0 \<or> v > 12) p) (\<lambda>(month, p).
     or_loser (field (\<lambda>v. v = 0 \<or> v > 31) p) (\<lambda>(mday, p).
     or_loser (field (\<lambda>v. v > 23) p) (\<lambda>(hour, p).
     or_loser (field (\<lambda>v. v > 59) p) (\<lambda>(minute, p).
     or_loser (der_seconds p) (\<lambda>(sec, p).
     or_loser (der_zone p) (\<lambda>((hourOff, minOff), p).
       Some (Some (\<lparr>tm_usec = 0, tm_sec = sec, tm_min = minute, tm_hour = hour, tm_mday = mday,
         tm_month = month - 1, tm_year = year, tm_wday = 0, tm_yday = 0,
         tm_params = \<lparr>tp_gmt_offset = i32 ((hourOff * 60 + minOff) * 60), tp_dst_offset = 0\<rparr>\<rparr>, p)))))))))"

text \<open>The result: the status, what \<open>*dst\<close> then holds, and \<open>*endptr\<close>, null when it is not set.\<close>

definition der_TimeStringToTime ::
  "int ptr \<Rightarrow> buf ptr \<Rightarrow> bool \<Rightarrow> bool \<Rightarrow> PORT \<Rightarrow> (SECStatus \<times> int ptr \<times> buf ptr \<times> PORT) exec" where
  "der_TimeStringToTime dst string generalized endptr port = (case (string, dst) of
     (Some s, Some _) \<Rightarrow> do {
        r \<leftarrow> der_fields generalized s;
        case r of
          None \<Rightarrow> Some (SECFailure, dst, None, PORT_SetError SEC_ERROR_INVALID_TIME port)
        | Some (genTime, p) \<Rightarrow> do {
            v \<leftarrow> PR_ImplodeTime genTime;
            Some (SECSuccess, Some v, if endptr then Some p else None, port) } }
   | _ \<Rightarrow> Some (SECFailure, dst, None, PORT_SetError SEC_ERROR_INVALID_ARGS port))"

definition DER_AsciiToTime :: "int ptr \<Rightarrow> buf ptr \<Rightarrow> PORT \<Rightarrow> (SECStatus \<times> int ptr \<times> PORT) exec" where
  "DER_AsciiToTime dst string port = do {
     (rv, dst, _, port) \<leftarrow> der_TimeStringToTime dst string False False port;
     Some (rv, dst, port) }"

text \<open>The loop that copies the item into \<open>localBuf\<close> and stops at a NUL.\<close>

fun copy_loop :: "nat \<Rightarrow> buf \<Rightarrow> nat \<Rightarrow> buf \<Rightarrow> buf option exec" where
  "copy_loop 0 b i localBuf = do { localBuf \<leftarrow> wr localBuf i 0; Some (Some localBuf) }"
| "copy_loop (Suc n) b i localBuf = do {
     c \<leftarrow> rd b i;
     if c = 0 then Some None
     else do { localBuf \<leftarrow> wr localBuf i c; copy_loop n b (Suc i) localBuf } }"

text \<open>\<open>DER_UTCTimeToTime\<close> and \<open>DER_GeneralizedTimeToTime\<close> after the check of the length; \<open>junk\<close> is what the
  array on the stack holds.\<close>

definition from_item :: "buf \<Rightarrow> bool \<Rightarrow> int ptr \<Rightarrow> buf \<Rightarrow> nat \<Rightarrow> PORT \<Rightarrow> (SECStatus \<times> int ptr \<times> PORT) exec" where
  "from_item junk generalized dst b len port = do {
     r \<leftarrow> copy_loop len b 0 junk;
     case r of
       None \<Rightarrow> Some (SECFailure, dst, PORT_SetError SEC_ERROR_INVALID_TIME port)
     | Some localBuf \<Rightarrow> do {
         (rv, dst, e, port) \<leftarrow> der_TimeStringToTime dst (Some localBuf) generalized True port;
         if rv = SECSuccess then do {
           p \<leftarrow> e;
           c \<leftarrow> rd p 0;
           if c \<noteq> 0 then Some (SECFailure, dst, PORT_SetError SEC_ERROR_INVALID_TIME port)
           else Some (rv, dst, port) }
         else Some (rv, dst, port) } }"

definition DER_UTCTimeToTime :: "buf \<Rightarrow> int ptr \<Rightarrow> SECItem ptr \<Rightarrow> PORT \<Rightarrow> (SECStatus \<times> int ptr \<times> PORT) exec" where
  "DER_UTCTimeToTime junk dst time port = (case time of
     None \<Rightarrow> Some (SECFailure, dst, PORT_SetError SEC_ERROR_INVALID_TIME port)
   | Some time \<Rightarrow> (case item_data time of
       None \<Rightarrow> Some (SECFailure, dst, PORT_SetError SEC_ERROR_INVALID_TIME port)
     | Some b \<Rightarrow>
         if item_len time < 11 \<or> item_len time > 17
         then Some (SECFailure, dst, PORT_SetError SEC_ERROR_INVALID_TIME port)
         else from_item junk False dst b (item_len time) port))"

definition DER_GeneralizedTimeToTime ::
  "buf \<Rightarrow> int ptr \<Rightarrow> SECItem ptr \<Rightarrow> PORT \<Rightarrow> (SECStatus \<times> int ptr \<times> PORT) exec" where
  "DER_GeneralizedTimeToTime junk dst time port = (case time of
     None \<Rightarrow> Some (SECFailure, dst, PORT_SetError SEC_ERROR_INVALID_TIME port)
   | Some time \<Rightarrow> (case item_data time of
       None \<Rightarrow> Some (SECFailure, dst, PORT_SetError SEC_ERROR_INVALID_TIME port)
     | Some b \<Rightarrow>
         if item_len time < 13 \<or> item_len time > 19
         then Some (SECFailure, dst, PORT_SetError SEC_ERROR_INVALID_TIME port)
         else from_item junk True dst b (item_len time) port))"

section \<open>Either type\<close>

definition DER_DecodeTimeChoice :: "buf \<Rightarrow> int ptr \<Rightarrow> SECItem \<Rightarrow> PORT \<Rightarrow> (SECStatus \<times> int ptr \<times> PORT) exec" where
  "DER_DecodeTimeChoice junk out item port = (case item_type item of
     siGeneralizedTime \<Rightarrow> DER_GeneralizedTimeToTime junk out (Some item) port
   | siUTCTime \<Rightarrow> DER_UTCTimeToTime junk out (Some item) port
   | _ \<Rightarrow> Some (SECFailure, out, PORT_SetError SEC_ERROR_INVALID_ARGS port))"

definition DER_EncodeTimeChoice ::
  "allocf \<Rightarrow> allocf ptr \<Rightarrow> SECItem \<Rightarrow> int \<Rightarrow> PORT \<Rightarrow> (SECStatus \<times> SECItem \<times> PORT) exec" where
  "DER_EncodeTimeChoice malloc arena item time port = do {
     (rv, item, port) \<leftarrow> DER_TimeToUTCTimeArena malloc arena item time port;
     if rv = SECSuccess \<or> port_error port \<noteq> Some SEC_ERROR_INVALID_ARGS then Some (rv, item, port)
     else DER_TimeToGeneralizedTimeArena malloc arena item time port }"

section \<open>Printing\<close>

text \<open>A printed time: a heap block or null. \<open>strftime\<close> and \<open>localtime\<close> are parameters; a block whose
  printing failed is freed and counted.\<close>

definition CERT_UTCTime2FormattedAscii ::
  "strftime_fn \<Rightarrow> localtime_fn \<Rightarrow> allocf \<Rightarrow> int \<Rightarrow> buf \<Rightarrow> PORT \<Rightarrow> (buf ptr \<times> nat \<times> PORT) exec" where
  "CERT_UTCTime2FormattedAscii strftime localtime malloc utcTime fmt port = do {
     t \<leftarrow> PR_ExplodeTime utcTime (PR_LocalTimeParameters localtime);
     case PORT_Alloc malloc 256 port of (timeString, port) \<Rightarrow>
       (case timeString of
          None \<Rightarrow> Some (None, 0, port)
        | Some _ \<Rightarrow> do {
            (n, timeString) \<leftarrow> PR_FormatTime strftime timeString 256 fmt (Some t);
            if n = 0 then Some (None, 1, port) else Some (timeString, 0, port) }) }"

definition CERT_GenTime2FormattedAscii ::
  "strftime_fn \<Rightarrow> allocf \<Rightarrow> int \<Rightarrow> buf \<Rightarrow> PORT \<Rightarrow> (buf ptr \<times> nat \<times> PORT) exec" where
  "CERT_GenTime2FormattedAscii strftime malloc genTime fmt port = do {
     t \<leftarrow> PR_ExplodeTime genTime PR_GMTParameters;
     case PORT_Alloc malloc 256 port of (timeString, port) \<Rightarrow>
       (case timeString of
          None \<Rightarrow> Some (None, 0, port)
        | Some _ \<Rightarrow> do {
            (n, timeString) \<leftarrow> PR_FormatTime strftime timeString 256 fmt (Some t);
            if n = 0 then Some (None, 1, PORT_SetError SEC_ERROR_OUTPUT_LEN port)
            else Some (timeString, 0, port) }) }"

text \<open>\<open>secder.h\<close> defines \<open>CERT_GeneralizedTime2FormattedAscii\<close> as \<open>CERT_UTCTime2FormattedAscii\<close>.\<close>

definition DecodeUTCTime2FormattedAscii ::
  "strftime_fn \<Rightarrow> localtime_fn \<Rightarrow> allocf \<Rightarrow> buf \<Rightarrow> SECItem ptr \<Rightarrow> buf \<Rightarrow> PORT \<Rightarrow> (buf ptr \<times> nat \<times> PORT) exec" where
  "DecodeUTCTime2FormattedAscii strftime localtime malloc junk utcTimeDER fmt port = do {
     (rv, v, port) \<leftarrow> DER_UTCTimeToTime junk (Some 0) utcTimeDER port;
     if rv \<noteq> SECSuccess then Some (None, 0, port)
     else do { utcTime \<leftarrow> v; CERT_UTCTime2FormattedAscii strftime localtime malloc utcTime fmt port } }"

definition DecodeGeneralizedTime2FormattedAscii ::
  "strftime_fn \<Rightarrow> localtime_fn \<Rightarrow> allocf \<Rightarrow> buf \<Rightarrow> SECItem ptr \<Rightarrow> buf \<Rightarrow> PORT \<Rightarrow> (buf ptr \<times> nat \<times> PORT) exec" where
  "DecodeGeneralizedTime2FormattedAscii strftime localtime malloc junk generalizedTimeDER fmt port = do {
     (rv, v, port) \<leftarrow> DER_GeneralizedTimeToTime junk (Some 0) generalizedTimeDER port;
     if rv \<noteq> SECSuccess then Some (None, 0, port)
     else do { generalizedTime \<leftarrow> v; CERT_UTCTime2FormattedAscii strftime localtime malloc generalizedTime fmt port } }"

definition DER_UTCTimeToAscii ::
  "strftime_fn \<Rightarrow> localtime_fn \<Rightarrow> allocf \<Rightarrow> buf \<Rightarrow> SECItem ptr \<Rightarrow> PORT \<Rightarrow> (buf ptr \<times> nat \<times> PORT) exec" where
  "DER_UTCTimeToAscii strftime localtime malloc junk utcTime port =
     DecodeUTCTime2FormattedAscii strftime localtime malloc junk utcTime (bytes_of ''%a %b %d %H:%M:%S %Y'' @ [0]) port"

definition DER_UTCDayToAscii ::
  "strftime_fn \<Rightarrow> localtime_fn \<Rightarrow> allocf \<Rightarrow> buf \<Rightarrow> SECItem ptr \<Rightarrow> PORT \<Rightarrow> (buf ptr \<times> nat \<times> PORT) exec" where
  "DER_UTCDayToAscii strftime localtime malloc junk utctime port =
     DecodeUTCTime2FormattedAscii strftime localtime malloc junk utctime (bytes_of ''%a %b %d, %Y'' @ [0]) port"

definition DER_GeneralizedDayToAscii ::
  "strftime_fn \<Rightarrow> localtime_fn \<Rightarrow> allocf \<Rightarrow> buf \<Rightarrow> SECItem ptr \<Rightarrow> PORT \<Rightarrow> (buf ptr \<times> nat \<times> PORT) exec" where
  "DER_GeneralizedDayToAscii strftime localtime malloc junk gentime port =
     DecodeGeneralizedTime2FormattedAscii strftime localtime malloc junk gentime (bytes_of ''%a %b %d, %Y'' @ [0]) port"

definition DER_TimeChoiceDayToAscii ::
  "strftime_fn \<Rightarrow> localtime_fn \<Rightarrow> allocf \<Rightarrow> buf \<Rightarrow> SECItem \<Rightarrow> PORT \<Rightarrow> (buf ptr \<times> nat \<times> PORT) exec" where
  "DER_TimeChoiceDayToAscii strftime localtime malloc junk timechoice port = (case item_type timechoice of
     siUTCTime \<Rightarrow> DER_UTCDayToAscii strftime localtime malloc junk (Some timechoice) port
   | siGeneralizedTime \<Rightarrow> DER_GeneralizedDayToAscii strftime localtime malloc junk (Some timechoice) port
   | _ \<Rightarrow> Some (None, 0, PORT_SetError SEC_ERROR_INVALID_ARGS port))"

section \<open>The texts\<close>

text \<open>The reference: a time as the standard writes it. The seconds may be missing.\<close>

datatype zone_text = Zulu | East nat nat | West nat nat

record der_text =
  dt_year :: nat
  dt_month :: nat
  dt_day :: nat
  dt_hour :: nat
  dt_min :: nat
  dt_sec :: "nat option"
  dt_zone :: zone_text

fun zone_print :: "zone_text \<Rightarrow> buf" where
  "zone_print Zulu = [90]"
| "zone_print (East h m) = 43 # Moz_TimeFormat.dec 2 h @ Moz_TimeFormat.dec 2 m"
| "zone_print (West h m) = 45 # Moz_TimeFormat.dec 2 h @ Moz_TimeFormat.dec 2 m"

fun zone_wf :: "zone_text \<Rightarrow> bool" where
  "zone_wf Zulu = True"
| "zone_wf (East h m) = (h < 24 \<and> m < 60)"
| "zone_wf (West h m) = (h < 24 \<and> m < 60)"

fun zone_offset :: "zone_text \<Rightarrow> int" where
  "zone_offset Zulu = 0"
| "zone_offset (East h m) = (int h * 60 + int m) * 60"
| "zone_offset (West h m) = - ((int h * 60 + int m) * 60)"

definition der_print :: "bool \<Rightarrow> der_text \<Rightarrow> buf" where
  "der_print generalized t =
     (if generalized then dec 4 (dt_year t) else dec 2 (dt_year t mod 100)) @
     dec 2 (dt_month t) @ dec 2 (dt_day t) @ dec 2 (dt_hour t) @ dec 2 (dt_min t) @
     (case dt_sec t of None \<Rightarrow> [] | Some s \<Rightarrow> dec 2 s) @ zone_print (dt_zone t)"

definition der_wf :: "bool \<Rightarrow> der_text \<Rightarrow> bool" where
  "der_wf generalized t \<longleftrightarrow> (if generalized then dt_year t < 10000 else 1950 \<le> dt_year t \<and> dt_year t < 2050) \<and>
     1 \<le> dt_month t \<and> dt_month t \<le> 12 \<and> 1 \<le> dt_day t \<and> dt_day t \<le> 31 \<and> dt_hour t < 24 \<and> dt_min t < 60 \<and>
     (case dt_sec t of None \<Rightarrow> True | Some s \<Rightarrow> s < 60) \<and> zone_wf (dt_zone t)"

text \<open>The fields it is read into, and the moment it stands for.\<close>

definition der_exploded :: "der_text \<Rightarrow> PRExplodedTime" where
  "der_exploded t = \<lparr>tm_usec = 0, tm_sec = (case dt_sec t of None \<Rightarrow> 0 | Some s \<Rightarrow> int s),
     tm_min = int (dt_min t), tm_hour = int (dt_hour t), tm_mday = int (dt_day t),
     tm_month = int (dt_month t) - 1, tm_year = int (dt_year t), tm_wday = 0, tm_yday = 0,
     tm_params = \<lparr>tp_gmt_offset = zone_offset (dt_zone t), tp_dst_offset = 0\<rparr>\<rparr>"

definition der_usec :: "der_text \<Rightarrow> int" where
  "der_usec t = ((date_days (int (dt_year t)) (int (dt_month t) - 1) (int (dt_day t)) - 719162) * 86400 +
     int (dt_hour t) * 3600 + int (dt_min t) * 60 + (case dt_sec t of None \<Rightarrow> 0 | Some s \<Rightarrow> int s) -
     zone_offset (dt_zone t)) * 1000000"

section \<open>Two digits\<close>

definition two :: "buf \<Rightarrow> (nat \<times> buf) option" where
  "two xs = (case xs of a # b # r \<Rightarrow>
       if ISDIGIT a \<and> ISDIGIT b then Some ((unat a - 48) * 10 + (unat b - 48), r) else None
     | _ \<Rightarrow> None)"

lemma ISDIGIT_unat: "ISDIGIT c \<longleftrightarrow> 48 \<le> unat c \<and> unat c \<le> 57"
  by (simp add: ISDIGIT_def chr_of_def word_le_nat_alt)

lemma dec_2: "dec 2 v = [word_of_nat (48 + v div 10 mod 10), word_of_nat (48 + v mod 10)]"
  by (simp add: numeral_2_eq_2)

lemma dec_4: "dec 4 v = dec 2 (v div 100) @ dec 2 (v mod 100)"
proof -
  define q s where "q = v div 100" and "s = v mod 100"
  have s: "v = s + q * 100" "s < 100" by (simp_all add: q_def s_def)
  have "v div 10 = s div 10 + q * 10" "v mod 10 = s mod 10" unfolding s(1) using s(2) mod_mult_self1 [of s "q * 10" 10] by (linarith, simp add: ac_simps)
  moreover have "s div 10 < 10" using less_mult_imp_div_less [of s 10 10] s(2) by simp
  then have "(s div 10 + q * 10) div 10 = q" "(s div 10 + q * 10) mod 10 = s div 10" "s div 10 mod 10 = s div 10"
    by (simp_all only: div_mult_self1 mod_mult_self1 mod_less div_less)
  moreover have "dec 4 v = dec 2 (v div 10 div 10) @ [word_of_nat (48 + v div 10 mod 10), word_of_nat (48 + v mod 10)]"
  proof -
    have "(4 :: nat) = Suc (Suc 2)" by simp
    then show ?thesis by (simp only: dec.simps append_assoc append_Cons append_Nil)
  qed
  ultimately show ?thesis unfolding q_def [symmetric] s_def [symmetric] by (simp only: dec_2 [of s])
qed

lemma digit_unat: "d < 10 \<Longrightarrow> unat (word_of_nat (48 + d) :: byte) = 48 + d"
  by (simp add: unsigned_of_nat take_bit_nat_eq_self del: of_nat_add)

lemma ISDIGIT_cases:
  assumes "ISDIGIT c"
  obtains d where "c = word_of_nat (48 + d)" "unat c = 48 + d" "d < 10"
proof (rule that [of "unat c - 48"])
  show "c = word_of_nat (48 + (unat c - 48))" "unat c = 48 + (unat c - 48)" "unat c - 48 < 10"
    using assms by (auto simp: ISDIGIT_unat simp del: of_nat_add)
qed

lemma two_iff: "two xs = Some (v, r) \<longleftrightarrow> xs = dec 2 v @ r \<and> v < 100"
proof
  assume "two xs = Some (v, r)"
  then obtain a b where x: "xs = a # b # r" "ISDIGIT a" "ISDIGIT b" "v = (unat a - 48) * 10 + (unat b - 48)"
    by (auto simp: two_def split: list.splits if_splits)
  obtain d where d: "a = word_of_nat (48 + d)" "unat a = 48 + d" "d < 10" by (rule ISDIGIT_cases [OF x(2)])
  obtain e where e: "b = word_of_nat (48 + e)" "unat b = 48 + e" "e < 10" by (rule ISDIGIT_cases [OF x(3)])
  have v: "v = d * 10 + e" using x(4) d(2) e(2) by simp
  have "v div 10 mod 10 = d" "v mod 10 = e" "v < 100" unfolding v using d(3) e(3) by simp_all
  then show "xs = dec 2 v @ r \<and> v < 100" using x(1) d(1) e(1) by (simp add: dec_2 del: of_nat_add)
next
  assume h: "xs = dec 2 v @ r \<and> v < 100"
  have l: "v div 10 < 10" "v div 10 mod 10 = v div 10" "v mod 10 < 10" using h by auto
  have "v div 10 * 10 + v mod 10 = v" by simp
  then show "two xs = Some (v, r)"
    using h l digit_unat [of "v div 10"] digit_unat [of "v mod 10"]
    by (simp add: two_def dec_2 ISDIGIT_unat del: of_nat_add)
qed

lemma two_dec [simp]: "v < 100 \<Longrightarrow> two (dec 2 v @ r) = Some (v, r)"
  by (simp add: two_iff)

lemma CAPTURE_two:
  assumes "0 \<notin> set xs"
  shows "CAPTURE (xs @ 0 # rest) = Some (map_option (\<lambda>(v, r). (int v, r @ 0 # rest)) (two xs))"
proof (cases xs)
  case Nil
  then show ?thesis by (simp add: CAPTURE_def two_def ISDIGIT_unat)
next
  case (Cons a ys)
  show ?thesis
  proof (cases ys)
    case Nil
    then show ?thesis using Cons by (simp add: CAPTURE_def two_def ISDIGIT_unat)
  next
    case (Cons b zs)
    have "int (unat a - 48) * 10 + int (unat b - 48) = (uint a - 48) * 10 + (uint b - 48)"
      if "ISDIGIT a" "ISDIGIT b"
    proof -
      have "48 \<le> unat a" "48 \<le> unat b" "uint a = int (unat a)" "uint b = int (unat b)"
        using that by (simp_all add: ISDIGIT_unat)
      then show ?thesis by (simp only: of_nat_diff of_nat_numeral)
    qed
    then show ?thesis using Cons \<open>xs = a # ys\<close> by (simp add: CAPTURE_def two_def)
  qed
qed

section \<open>Reading a text\<close>

text \<open>The same reading on a list without its terminator; the numbers are those of the reference.\<close>

definition within :: "(nat \<Rightarrow> bool) \<Rightarrow> buf \<Rightarrow> (nat \<times> buf) option" where
  "within P xs = do { (v, r) \<leftarrow> two xs; if P v then Some (v, r) else None }"

definition year_parse :: "bool \<Rightarrow> buf \<Rightarrow> (nat \<times> buf) option" where
  "year_parse generalized xs =
     (if generalized then do { (c, r) \<leftarrow> two xs; (y, r) \<leftarrow> two r; Some (c * 100 + y, r) }
      else do { (y, r) \<leftarrow> two xs; Some (if y < 50 then 2000 + y else 1900 + y, r) })"

definition sec_parse :: "buf \<Rightarrow> (nat option \<times> buf) option" where
  "sec_parse xs = (if xs \<noteq> [] \<and> ISDIGIT (hd xs) then do { (v, r) \<leftarrow> within (\<lambda>v. v < 60) xs; Some (Some v, r) }
     else Some (None, xs))"

definition zone_parse :: "buf \<Rightarrow> (zone_text \<times> buf) option" where
  "zone_parse xs = (case xs of [] \<Rightarrow> None
     | c # r \<Rightarrow> if c = 43 \<or> c = 45 then do {
           (h, r) \<leftarrow> within (\<lambda>v. v < 24) r; (m, r) \<leftarrow> within (\<lambda>v. v < 60) r;
           Some (if c = 45 then West h m else East h m, r) }
         else if c = 90 then Some (Zulu, r) else None)"

definition der_parse :: "bool \<Rightarrow> buf \<Rightarrow> (der_text \<times> buf) option" where
  "der_parse generalized xs = do {
     (year, r) \<leftarrow> year_parse generalized xs;
     (month, r) \<leftarrow> within (\<lambda>v. 1 \<le> v \<and> v \<le> 12) r;
     (day, r) \<leftarrow> within (\<lambda>v. 1 \<le> v \<and> v \<le> 31) r;
     (hour, r) \<leftarrow> within (\<lambda>v. v < 24) r;
     (minute, r) \<leftarrow> within (\<lambda>v. v < 60) r;
     (sec, r) \<leftarrow> sec_parse r;
     (z, r) \<leftarrow> zone_parse r;
     Some (\<lparr>dt_year = year, dt_month = month, dt_day = day, dt_hour = hour, dt_min = minute, dt_sec = sec,
            dt_zone = z\<rparr>, r) }"

lemma within_iff: "within P xs = Some (v, r) \<longleftrightarrow> xs = dec 2 v @ r \<and> v < 100 \<and> P v"
  by (auto simp: within_def two_iff bind_eq_Some_conv)

lemma zone_head: "zone_print z @ r = c # s \<Longrightarrow> \<not> ISDIGIT c"
  by (cases z) (auto simp: ISDIGIT_unat)

lemma zone_parse_iff: "zone_parse xs = Some (z, r) \<longleftrightarrow> xs = zone_print z @ r \<and> zone_wf z"
proof
  show "zone_parse xs = Some (z, r) \<Longrightarrow> xs = zone_print z @ r \<and> zone_wf z"
    by (auto simp: zone_parse_def within_iff bind_eq_Some_conv split: list.splits if_splits)
  show "xs = zone_print z @ r \<and> zone_wf z \<Longrightarrow> zone_parse xs = Some (z, r)"
    by (cases z) (auto simp: zone_parse_def within_iff bind_eq_Some_conv)
qed

lemma sec_parse_iff:
  assumes "\<And>c s. r = c # s \<Longrightarrow> \<not> ISDIGIT c"
  shows "sec_parse xs = Some (sec, r) \<longleftrightarrow> xs = (case sec of None \<Rightarrow> [] | Some s \<Rightarrow> dec 2 s) @ r \<and>
    (case sec of None \<Rightarrow> True | Some s \<Rightarrow> s < 60)"
proof -
  have d: "ISDIGIT (hd (dec 2 s @ r))" "dec 2 s @ r \<noteq> []" if "s < 60" for s
  proof -
    have "two (dec 2 s @ r) = Some (s, r)" using that by simp
    then show "ISDIGIT (hd (dec 2 s @ r))" "dec 2 s @ r \<noteq> []"
      by (auto simp: two_def split: list.splits if_splits)
  qed
  show ?thesis
  proof (cases sec)
    case None
    have "r \<noteq> [] \<Longrightarrow> \<not> ISDIGIT (hd r)" using assms by (cases r) auto
    then show ?thesis using None by (auto simp: sec_parse_def bind_eq_Some_conv)
  next
    case (Some s)
    then show ?thesis using d [of s] by (auto simp: sec_parse_def within_iff bind_eq_Some_conv)
  qed
qed

lemma century_mod: "e < 100 \<Longrightarrow> (1900 + e) mod 100 = (e :: nat)" "e < 100 \<Longrightarrow> (2000 + e) mod 100 = (e :: nat)"
  using mod_mult_self1 [of e 19 100] mod_mult_self1 [of e 20 100] by (simp_all add: add.commute)

lemma year_parse_iff:
  "year_parse generalized xs = Some (y, r) \<longleftrightarrow>
     xs = (if generalized then dec 4 y else dec 2 (y mod 100)) @ r \<and>
     (if generalized then y < 10000 else 1950 \<le> y \<and> y < 2050)"
proof (cases generalized)
  case True
  have "(\<exists>c y'. y = c * 100 + y' \<and> c < 100 \<and> y' < 100 \<and> xs = dec 2 c @ dec 2 y' @ r) \<longleftrightarrow>
     xs = dec 4 y @ r \<and> y < 10000"
  proof
    assume "xs = dec 4 y @ r \<and> y < 10000"
    then have "y = y div 100 * 100 + y mod 100 \<and> y div 100 < 100 \<and> y mod 100 < 100 \<and>
       xs = dec 2 (y div 100) @ dec 2 (y mod 100) @ r" by (simp add: dec_4 less_mult_imp_div_less)
    then show "\<exists>c y'. y = c * 100 + y' \<and> c < 100 \<and> y' < 100 \<and> xs = dec 2 c @ dec 2 y' @ r" by blast
  next
    assume "\<exists>c y'. y = c * 100 + y' \<and> c < 100 \<and> y' < 100 \<and> xs = dec 2 c @ dec 2 y' @ r"
    then obtain c y' where c: "y = c * 100 + y'" "c < 100" "y' < 100" "xs = dec 2 c @ dec 2 y' @ r" by blast
    then have "y div 100 = c" "y mod 100 = y'" "y < 10000" by simp_all
    then show "xs = dec 4 y @ r \<and> y < 10000" using c(4) by (simp add: dec_4)
  qed
  then show ?thesis using True by (auto simp: year_parse_def two_iff bind_eq_Some_conv)
next
  case False
  have "(\<exists>y'. y = (if y' < 50 then 2000 + y' else 1900 + y') \<and> xs = dec 2 y' @ r \<and> y' < 100) \<longleftrightarrow>
     xs = dec 2 (y mod 100) @ r \<and> 1950 \<le> y \<and> y < 2050"
  proof
    assume h: "xs = dec 2 (y mod 100) @ r \<and> 1950 \<le> y \<and> y < 2050"
    have "y = (if y mod 100 < 50 then 2000 + y mod 100 else 1900 + y mod 100)"
    proof (cases "y < 2000")
      case True
      obtain e where e: "y = 1900 + e" using h le_Suc_ex [of 1900 y] by auto
      then have "y mod 100 = e" using True century_mod(1) [of e] by simp
      then show ?thesis using h e by auto
    next
      case False
      then obtain e where e: "y = 2000 + e" using le_Suc_ex [of 2000 y] by auto
      then have "y mod 100 = e" using h century_mod(2) [of e] by simp
      then show ?thesis using h e by auto
    qed
    then show "\<exists>y'. y = (if y' < 50 then 2000 + y' else 1900 + y') \<and> xs = dec 2 y' @ r \<and> y' < 100"
      using h by (intro exI [of _ "y mod 100"]) simp
  next
    assume "\<exists>y'. y = (if y' < 50 then 2000 + y' else 1900 + y') \<and> xs = dec 2 y' @ r \<and> y' < 100"
    then obtain y' where y': "y = (if y' < 50 then 2000 + y' else 1900 + y')" "xs = dec 2 y' @ r" "y' < 100" by blast
    have m: "(2000 + y') mod 100 = y'" "(1900 + y') mod 100 = y'" using y'(3) by (simp_all only: century_mod)
    then have "y mod 100 = y'" using y'(1) by simp
    then show "xs = dec 2 (y mod 100) @ r \<and> 1950 \<le> y \<and> y < 2050" using y' by auto
  qed
  moreover have "year_parse False xs = Some (y, r) \<longleftrightarrow>
     (\<exists>y'. y = (if y' < 50 then 2000 + y' else 1900 + y') \<and> two xs = Some (y', r))"
  proof (cases "two xs")
    case None
    then show ?thesis by (simp add: year_parse_def)
  next
    case (Some p)
    obtain a s where p: "p = (a, s)" by (cases p)
    have "(\<exists>y'. y = f y' \<and> Some (a, s) = Some (y', r)) \<longleftrightarrow> Some (f a, s) = Some (y, r)" for f :: "nat \<Rightarrow> nat"
      by auto
    from this [of "\<lambda>y'. if y' < 50 then 2000 + y' else 1900 + y'"] show ?thesis
      unfolding Some p year_parse_def by simp
  qed
  ultimately have "year_parse False xs = Some (y, r) \<longleftrightarrow> xs = dec 2 (y mod 100) @ r \<and> 1950 \<le> y \<and> y < 2050"
    unfolding two_iff by (rule trans [rotated])
  then show ?thesis using False by simp
qed

lemma der_parse_iff: "der_parse generalized xs = Some (t, r) \<longleftrightarrow> xs = der_print generalized t @ r \<and> der_wf generalized t"
proof
  assume "der_parse generalized xs = Some (t, r)"
  then obtain r1 r2 r3 r4 r5 r6 where p: "year_parse generalized xs = Some (dt_year t, r1)"
    "within (\<lambda>v. 1 \<le> v \<and> v \<le> 12) r1 = Some (dt_month t, r2)" "within (\<lambda>v. 1 \<le> v \<and> v \<le> 31) r2 = Some (dt_day t, r3)"
    "within (\<lambda>v. v < 24) r3 = Some (dt_hour t, r4)" "within (\<lambda>v. v < 60) r4 = Some (dt_min t, r5)"
    "sec_parse r5 = Some (dt_sec t, r6)" "zone_parse r6 = Some (dt_zone t, r)"
    unfolding der_parse_def by (auto simp: bind_eq_Some_conv simp del: One_nat_def)
  have z: "r6 = zone_print (dt_zone t) @ r" "zone_wf (dt_zone t)" using p(7) by (simp_all add: zone_parse_iff)
  then have "\<not> ISDIGIT c" if "r6 = c # s" for c s using that zone_head by metis
  then have s: "r5 = (case dt_sec t of None \<Rightarrow> [] | Some s \<Rightarrow> dec 2 s) @ r6 \<and>
    (case dt_sec t of None \<Rightarrow> True | Some s \<Rightarrow> s < 60)"
    using p(6) sec_parse_iff [of r6 r5 "dt_sec t"] by simp
  show "xs = der_print generalized t @ r \<and> der_wf generalized t"
    using p(1-5) s z unfolding year_parse_iff within_iff by (simp add: der_print_def der_wf_def)
next
  assume h: "xs = der_print generalized t @ r \<and> der_wf generalized t"
  let ?z = "zone_print (dt_zone t) @ r"
  have n: "\<not> ISDIGIT c" if "?z = c # s" for c s using that zone_head by metis
  let ?s = "(case dt_sec t of None \<Rightarrow> [] | Some s \<Rightarrow> dec 2 s) @ ?z"
  have "sec_parse ?s = Some (dt_sec t, ?z)" using h by (simp add: sec_parse_iff [OF n] der_wf_def)
  moreover have "zone_parse ?z = Some (dt_zone t, r)" using h by (simp add: zone_parse_iff der_wf_def)
  moreover have "year_parse generalized ((if generalized then dec 4 (dt_year t) else dec 2 (dt_year t mod 100)) @ q) = Some (dt_year t, q)" for q
    using h by (simp add: year_parse_iff der_wf_def)
  moreover have "within P (dec 2 v @ q) = Some (v, q)" if "P v" "v < 100" for P v q using that by (simp add: within_iff)
  ultimately show "der_parse generalized xs = Some (t, r)"
    using h by (simp add: der_parse_def der_print_def der_wf_def del: One_nat_def)
qed

lemma suffix_nonzero:
  "two xs = Some (v, r) \<Longrightarrow> 0 \<notin> set xs \<Longrightarrow> 0 \<notin> set r"
  "within P xs = Some (v, r) \<Longrightarrow> 0 \<notin> set xs \<Longrightarrow> 0 \<notin> set r"
  "year_parse g xs = Some (y, r) \<Longrightarrow> 0 \<notin> set xs \<Longrightarrow> 0 \<notin> set r"
  "sec_parse xs = Some (s, r) \<Longrightarrow> 0 \<notin> set xs \<Longrightarrow> 0 \<notin> set r"
  by (auto simp: two_iff within_iff year_parse_iff sec_parse_def bind_eq_Some_conv split: if_splits)

lemma field_within:
  assumes "0 \<notin> set xs" "\<And>v. v < 100 \<Longrightarrow> bad (int v) \<longleftrightarrow> \<not> P v"
  shows "field bad (xs @ 0 # rest) = Some (map_option (\<lambda>(v, r). (int v, r @ 0 # rest)) (within P xs))"
proof (cases "two xs")
  case None
  then show ?thesis by (simp add: field_def or_loser_def CAPTURE_two [OF assms(1)] within_def)
next
  case (Some p)
  moreover obtain v r where "p = (v, r)" by (cases p)
  ultimately have t: "two xs = Some (v, r)" by simp
  then have "bad (int v) \<longleftrightarrow> \<not> P v" by (intro assms(2)) (simp add: two_iff)
  then show ?thesis using t
    by (simp add: field_def or_loser_def CAPTURE_two [OF assms(1)] within_def)
qed

lemma der_year_parse:
  assumes "0 \<notin> set xs"
  shows "der_year generalized (xs @ 0 # rest) =
    Some (map_option (\<lambda>(v, r). (int v, r @ 0 # rest)) (year_parse generalized xs))"
proof (cases "two xs")
  case None
  then show ?thesis by (simp add: der_year_def or_loser_def CAPTURE_two [OF assms] year_parse_def)
next
  case (Some p)
  moreover obtain v r where p: "p = (v, r)" by (cases p)
  ultimately have t: "two xs = Some (v, r)" by simp
  then have b: "v < 100" by (simp add: two_iff)
  note n = suffix_nonzero(1) [OF t assms]
  show ?thesis
  proof (cases "two r")
    case None
    then show ?thesis using t b
      by (simp add: der_year_def or_loser_def CAPTURE_two [OF assms] CAPTURE_two [OF n] year_parse_def i16_id)
  next
    case (Some p)
    moreover obtain w s where "p = (w, s)" by (cases p)
    ultimately have w: "two r = Some (w, s)" by simp
    then have "w < 100" by (simp add: two_iff)
    then show ?thesis using t b w
      by (simp add: der_year_def or_loser_def CAPTURE_two [OF assms] CAPTURE_two [OF n] year_parse_def i16_id)
  qed
qed

lemma der_seconds_parse:
  assumes "0 \<notin> set xs"
  shows "der_seconds (xs @ 0 # rest) = Some (map_option
    (\<lambda>(v, r). (case v of None \<Rightarrow> 0 | Some s \<Rightarrow> int s, r @ 0 # rest)) (sec_parse xs))"
proof (cases xs)
  case Nil
  then show ?thesis by (simp add: der_seconds_def sec_parse_def ISDIGIT_unat)
next
  case (Cons c ys)
  have "field (\<lambda>v. v > 59) (xs @ 0 # rest) = Some (map_option (\<lambda>(v, r). (int v, r @ 0 # rest)) (within (\<lambda>v. v < 60) xs))"
    by (rule field_within [OF assms]) auto
  then show ?thesis using Cons by (cases "within (\<lambda>v. v < 60) xs") (auto simp: der_seconds_def sec_parse_def)
qed

lemma der_zone_parse:
  assumes "0 \<notin> set xs"
  shows "\<exists>f. (\<forall>z. zone_wf z \<longrightarrow> i32 ((fst (f z) * 60 + snd (f z)) * 60) = zone_offset z) \<and>
    der_zone (xs @ 0 # rest) = Some (map_option (\<lambda>(z, r). (f z, r @ 0 # rest)) (zone_parse xs))"
proof -
  define f where "f = (\<lambda>z. case z of Zulu \<Rightarrow> (0, 0) | East h m \<Rightarrow> (int h, int m) | West h m \<Rightarrow> (- int h, - int m))"
  have "i32 ((fst (f z) * 60 + snd (f z)) * 60) = zone_offset z" if "zone_wf z" for z
    using that by (cases z) (simp_all add: f_def i32_id)
  moreover have "der_zone (xs @ 0 # rest) = Some (map_option (\<lambda>(z, r). (f z, r @ 0 # rest)) (zone_parse xs))"
  proof (cases xs)
    case Nil
    then show ?thesis by (simp add: der_zone_def zone_parse_def chr_of_def)
  next
    case (Cons c ys)
    then have n: "0 \<notin> set ys" using assms by simp
    have h: "field (\<lambda>v. v > 23) (ys @ 0 # rest) = Some (map_option (\<lambda>(v, r). (int v, r @ 0 # rest)) (within (\<lambda>v. v < 24) ys))"
      by (rule field_within [OF n]) auto
    show ?thesis
    proof (cases "within (\<lambda>v. v < 24) ys")
      case None
      then show ?thesis using Cons h by (auto simp: der_zone_def zone_parse_def chr_of_def or_loser_def f_def)
    next
      case (Some p)
      moreover obtain v r where "p = (v, r)" by (cases p)
      ultimately have w: "within (\<lambda>v. v < 24) ys = Some (v, r)" by simp
      have m: "field (\<lambda>v. v > 59) (r @ 0 # rest) = Some (map_option (\<lambda>(v, r). (int v, r @ 0 # rest)) (within (\<lambda>v. v < 60) r))"
        by (rule field_within [OF suffix_nonzero(2) [OF w n]]) auto
      show ?thesis using Cons h m w
        by (cases "within (\<lambda>v. v < 60) r") (auto simp: der_zone_def zone_parse_def chr_of_def or_loser_def f_def)
    qed
  qed
  ultimately show ?thesis by blast
qed

lemma reader_step:
  assumes "F = Some (map_option (\<lambda>(v, r). (h v, r @ 0 # rest)) x)"
    and "\<And>v r. x = Some (v, r) \<Longrightarrow> k (h v, r @ 0 # rest) = Some (map_option H (K (v, r)))"
  shows "or_loser F k = Some (map_option H (Option.bind x K))"
  using assms by (cases x) (auto simp: or_loser_def)

lemma der_fields_parse:
  assumes "0 \<notin> set xs"
  shows "der_fields generalized (xs @ 0 # rest) =
    Some (map_option (\<lambda>(t, r). (der_exploded t, r @ 0 # rest)) (der_parse generalized xs))"
  unfolding der_fields_def der_parse_def
proof (rule reader_step [OF der_year_parse [OF assms]], unfold prod.case)
  fix year r1 assume "year_parse generalized xs = Some (year, r1)"
  note n1 = suffix_nonzero(3) [OF this assms]
  show "or_loser (field (\<lambda>v. v = 0 \<or> v > 12) (r1 @ 0 # rest)) (\<lambda>(month, p).
     or_loser (field (\<lambda>v. v = 0 \<or> v > 31) p) (\<lambda>(mday, p).
     or_loser (field (\<lambda>v. v > 23) p) (\<lambda>(hour, p).
     or_loser (field (\<lambda>v. v > 59) p) (\<lambda>(minute, p).
     or_loser (der_seconds p) (\<lambda>(sec, p).
     or_loser (der_zone p) (\<lambda>((hourOff, minOff), p).
       Some (Some (\<lparr>tm_usec = 0, tm_sec = sec, tm_min = minute, tm_hour = hour, tm_mday = mday,
         tm_month = month - 1, tm_year = int year, tm_wday = 0, tm_yday = 0,
         tm_params = \<lparr>tp_gmt_offset = i32 ((hourOff * 60 + minOff) * 60), tp_dst_offset = 0\<rparr>\<rparr>, p)))))))) =
    Some (map_option (\<lambda>(t, r). (der_exploded t, r @ 0 # rest)) (do {
       (month, r) \<leftarrow> within (\<lambda>v. 1 \<le> v \<and> v \<le> 12) r1;
       (day, r) \<leftarrow> within (\<lambda>v. 1 \<le> v \<and> v \<le> 31) r;
       (hour, r) \<leftarrow> within (\<lambda>v. v < 24) r;
       (minute, r) \<leftarrow> within (\<lambda>v. v < 60) r;
       (sec, r) \<leftarrow> sec_parse r;
       (z, r) \<leftarrow> zone_parse r;
       Some (\<lparr>dt_year = year, dt_month = month, dt_day = day, dt_hour = hour, dt_min = minute, dt_sec = sec,
              dt_zone = z\<rparr>, r) }))"
  proof (rule reader_step [OF field_within [OF n1]], goal_cases)
    case 1 then show ?case by auto
  next
    case (2 month r2)
    note n2 = suffix_nonzero(2) [OF 2 n1]
    show ?case unfolding prod.case
    proof (rule reader_step [OF field_within [OF n2]], goal_cases)
      case 1 then show ?case by auto
    next
      case (2 day r3)
      note n3 = suffix_nonzero(2) [OF 2 n2]
      show ?case unfolding prod.case
      proof (rule reader_step [OF field_within [OF n3]], goal_cases)
        case 1 then show ?case by auto
      next
        case (2 hour r4)
        note n4 = suffix_nonzero(2) [OF 2 n3]
        show ?case unfolding prod.case
        proof (rule reader_step [OF field_within [OF n4]], goal_cases)
          case 1 then show ?case by auto
        next
          case (2 minute r5)
          note n5 = suffix_nonzero(2) [OF 2 n4]
          show ?case unfolding prod.case
          proof (rule reader_step [OF der_seconds_parse [OF n5]], goal_cases)
            case (1 sec r6)
            note n6 = suffix_nonzero(4) [OF 1 n5]
            obtain f where f: "\<And>z. zone_wf z \<Longrightarrow> i32 ((fst (f z) * 60 + snd (f z)) * 60) = zone_offset z"
              "der_zone (r6 @ 0 # rest) = Some (map_option (\<lambda>(z, r). (f z, r @ 0 # rest)) (zone_parse r6))"
              using der_zone_parse [OF n6] by blast
            have f1: "zone_wf z \<Longrightarrow> i32 (3600 * fst (f z) + snd (f z) * 60) = zone_offset z" for z
              using f(1) [of z] by simp
            show ?case unfolding prod.case
              by (rule reader_step [OF f(2)]) (auto simp: zone_parse_iff der_exploded_def split_beta f1)
          qed
        qed
      qed
    qed
  qed
qed

section \<open>Reading an item\<close>

lemma copy_loop_ok:
  assumes "i + n \<le> length b" "i + n < length l"
  shows "copy_loop n b i l = Some (if 0 \<in> set (take n (drop i b)) then None
    else Some (take i l @ take n (drop i b) @ 0 # drop (i + n + 1) l))"
  using assms
proof (induction n b i l rule: copy_loop.induct)
  case (1 b i l)
  then show ?case by (simp add: wr_ok upd_conv_take_nth_drop)
next
  case (2 n b i l)
  have t: "take (Suc n) (drop i b) = b ! i # take n (drop (Suc i) b)"
    using 2(2) by (simp add: take_Suc_conv_app_nth Cons_nth_drop_Suc [symmetric])
  show ?case
  proof (cases "b ! i = 0")
    case True
    then show ?thesis using 2(2) t by (simp add: rd_ok)
  next
    case False
    have "copy_loop n b (Suc i) (l[i := b ! i]) = Some (if 0 \<in> set (take n (drop (Suc i) b)) then None
      else Some (take (Suc i) (l[i := b ! i]) @ take n (drop (Suc i) b) @ 0 # drop (Suc i + n + 1) (l[i := b ! i])))"
      using 2(2,3) False by (intro 2(1) [of "b ! i" "l[i := b ! i]"]) (simp_all add: rd_ok wr_ok)
    moreover have "take (Suc i) (l[i := b ! i]) = take i l @ [b ! i]" using 2(3) by (simp add: take_Suc_conv_app_nth)
    ultimately show ?thesis using 2(2,3) False t by (simp add: rd_ok wr_ok)
  qed
qed

text \<open>What a text stands for is read from it, and nothing else is accepted.\<close>

lemma from_item_ok:
  assumes "len \<le> length b" "len < length junk" "dst = Some v0"
  shows "(\<exists>t v. take len b = der_print generalized t \<and> der_wf generalized t \<and>
       PR_ImplodeTime (der_exploded t) = Some v \<and>
       from_item junk generalized dst b len port = Some (SECSuccess, Some v, port)) \<or>
     (\<nexists>t. take len b = der_print generalized t \<and> der_wf generalized t) \<and>
       (\<exists>v. from_item junk generalized dst b len port =
          Some (SECFailure, Some v, PORT_SetError SEC_ERROR_INVALID_TIME port) \<and>
          (if 0 \<in> set (take len b) \<or> (\<nexists>t r. take len b = der_print generalized t @ r \<and> der_wf generalized t) then v = v0
           else \<exists>t r. take len b = der_print generalized t @ r \<and> der_wf generalized t \<and> PR_ImplodeTime (der_exploded t) = Some v))"
proof -
  let ?xs = "take len b"
  let ?rest = "drop (len + 1) junk"
  note c = copy_loop_ok [of 0 len b junk] 
  have nz: "0 \<notin> set (der_print generalized t)" for t
    by (cases "dt_zone t") (auto simp: der_print_def dec_nonzero split: option.splits if_splits)
  show ?thesis
  proof (cases "0 \<in> set ?xs")
    case True
    have "\<nexists>t. ?xs = der_print generalized t \<and> der_wf generalized t" using nz True by metis
    moreover have "from_item junk generalized dst b len port = Some (SECFailure, dst, PORT_SetError SEC_ERROR_INVALID_TIME port)"
      using assms(1,2) c True by (simp add: from_item_def)
    ultimately show ?thesis using True assms(3) by auto
  next
    case False
    then have l: "copy_loop len b 0 junk = Some (Some (?xs @ 0 # ?rest))" using c assms(1,2) by simp
    note f = der_fields_parse [OF False, of generalized ?rest]
    show ?thesis
    proof (cases "der_parse generalized ?xs")
      case None
      then have n: "\<nexists>t r. ?xs = der_print generalized t @ r \<and> der_wf generalized t"
        using der_parse_iff [of generalized ?xs] by (metis option.distinct(1))
      then have "\<nexists>t. ?xs = der_print generalized t \<and> der_wf generalized t" by (metis append_Nil2)
      moreover have "from_item junk generalized dst b len port = Some (SECFailure, dst, PORT_SetError SEC_ERROR_INVALID_TIME port)"
        unfolding from_item_def l der_TimeStringToTime_def using f None assms(3) by simp
      ultimately show ?thesis using n assms(3) by auto
    next
      case (Some p)
      moreover obtain t r where "p = (t, r)" by (cases p)
      ultimately have p: "der_parse generalized ?xs = Some (t, r)" by simp
      obtain v where v: "PR_ImplodeTime (der_exploded t) = Some v" using Implode_total by blast
      show ?thesis
      proof (cases r)
        case Nil
        have "from_item junk generalized dst b len port = Some (SECSuccess, Some v, port)"
          unfolding from_item_def l der_TimeStringToTime_def using f p v Nil assms(3) by simp
        moreover have "?xs = der_print generalized t \<and> der_wf generalized t"
          using p Nil der_parse_iff [of generalized ?xs t "[]"] by simp
        ultimately show ?thesis using v by blast
      next
        case (Cons x s)
        have "x \<noteq> 0" using False p Cons by (auto simp: der_parse_iff)
        then have "from_item junk generalized dst b len port = Some (SECFailure, Some v, PORT_SetError SEC_ERROR_INVALID_TIME port)"
          unfolding from_item_def l der_TimeStringToTime_def using f p v Cons assms(3) by simp
        moreover have "\<nexists>t. ?xs = der_print generalized t \<and> der_wf generalized t"
          using p Cons der_parse_iff [of generalized ?xs _ "[]"] by auto
        moreover have "?xs = der_print generalized t @ r \<and> der_wf generalized t" using p der_parse_iff by simp
        ultimately show ?thesis using v False by auto
      qed
    qed
  qed
qed

lemma Implode_der:
  assumes "der_wf generalized t" "1 \<le> dt_year t" "time_min \<le> der_usec t"
  shows "PR_ImplodeTime (der_exploded t) = Some (der_usec t)"
proof -
  have y: "dt_year t < 10000" "dt_month t \<le> 12" "1 \<le> dt_month t" "dt_day t \<le> 31" "1 \<le> dt_day t" "dt_hour t < 24" "dt_min t < 60"
    using assms(1) by (auto simp: der_wf_def split: if_splits)
  define s where "s = (case dt_sec t of None \<Rightarrow> 0 | Some s \<Rightarrow> int s)"
  have s: "0 \<le> s" "s < 60" using assms(1) by (auto simp: der_wf_def s_def split: option.splits)
  have z: "- 86400 < zone_offset (dt_zone t)" "zone_offset (dt_zone t) < 86400"
    using assms(1) by (cases "dt_zone t"; simp add: der_wf_def)+
  have m: "(int (dt_month t) - 1) div 12 = 0" "(int (dt_month t) - 1) mod 12 = int (dt_month t) - 1" using y by simp_all
  have raw: "raw_usec (der_exploded t) = der_usec t"
    using m by (simp add: raw_usec_def der_usec_def der_exploded_def)
  have md: "moderate (der_exploded t)"
    using assms(2) y s z m unfolding moderate_def der_exploded_def s_def [symmetric] by simp
  have "date_days (int (dt_year t)) (int (dt_month t) - 1) (int (dt_day t)) \<le> days_before_year 10000 + 400"
    using days_before_year_mono [of "int (dt_year t)" 10000] y before_month_bounds [of "int (dt_month t) - 1" "leap (int (dt_year t))"]
    by (simp add: date_days_def)
  then have "der_usec t < time_max"
    using y s z unfolding der_usec_def s_def [symmetric] time_max_def by (simp add: days_before_year_def)
  then show ?thesis using Implode_ok [OF md] assms(3) raw by simp
qed

section \<open>Writing an item\<close>

lemma put2_ok:
  assumes "i + 2 \<le> length d" "0 \<le> v" "v < 100"
  shows "put2 i v d = Some (overlay d i (dec 2 (nat v)))"
proof -
  obtain n where n: "v = int n" using assms(2) by (metis nonneg_int_cases)
  have e: "int n sdiv 10 + 48 = int (48 + n div 10 mod 10)" "int n smod 10 + 48 = int (48 + n mod 10)"
    using assms(3) n by (simp_all add: sdiv_nonneg smod_nonneg zdiv_int zmod_int)
  have h: "HIDIGIT v = word_of_nat (48 + n div 10 mod 10)" "LODIGIT v = word_of_nat (48 + n mod 10)"
    unfolding HIDIGIT_def LODIGIT_def n e by (simp_all only: of_int_of_nat_eq)
  have "put2 i v d = Some (d[i := HIDIGIT v, i + 1 := LODIGIT v])" using assms(1) by (simp add: put2_def wr_ok)
  also have "d[i := HIDIGIT v, i + 1 := LODIGIT v] = overlay d i [HIDIGIT v, LODIGIT v]"
    using assms(1) by (simp add: overlay_Cons)
  also have "[HIDIGIT v, LODIGIT v] = dec 2 (nat v)" unfolding h dec_2 using n by simp
  finally show ?thesis .
qed

definition text_of :: "PRExplodedTime \<Rightarrow> der_text" where
  "text_of g = \<lparr>dt_year = nat (tm_year g), dt_month = nat (tm_month g + 1), dt_day = nat (tm_mday g),
     dt_hour = nat (tm_hour g), dt_min = nat (tm_min g), dt_sec = Some (nat (tm_sec g)), dt_zone = Zulu\<rparr>"

lemma normal_small:
  assumes "normal g"
  shows "0 \<le> tm_month g" "tm_month g \<le> 11" "1 \<le> tm_mday g" "tm_mday g \<le> 31" "0 \<le> tm_hour g" "tm_hour g < 24"
    "0 \<le> tm_min g" "tm_min g < 60" "0 \<le> tm_sec g" "tm_sec g < 60" "1 \<le> tm_year g"
  using assms month_days_bounds [of "tm_month g" "leap (tm_year g)"] by (auto simp: normal_def date_ok_def)

lemma text_of_usec: "normal g \<Longrightarrow> der_usec (text_of g) = local_usec g - tm_usec g"
  using normal_small [of g] by (simp add: der_usec_def text_of_def local_usec_def algebra_simps)

lemma text_of_wf:
  assumes "normal g" "if generalized then tm_year g < 10000 else 1950 \<le> tm_year g \<and> tm_year g < 2050"
  shows "der_wf generalized (text_of g)"
  using normal_small [OF assms(1)] assms(2) by (auto simp: der_wf_def text_of_def nat_less_iff le_nat_iff split: if_splits)

text \<open>The bounds of the code are the starts of the years 1, 1950, 2050 and 10000.\<close>

lemma january_values:
  "January1st1 = time_min" "January1st1 = - 62135596800000000" "January1st1950 = - 631152000000000"
  "January1st2050 = 2524608000000000" "January1st10000 = 253402300800000000"
  by (simp_all add: January1st1_def January1st1950_def January1st2050_def January1st10000_def time_min_def i64_def)

lemma year_before:
  assumes "normal g" "local_usec g < (days_before_year y - 719162) * 86400000000"
  shows "tm_year g < y"
proof (rule ccontr)
  assume "\<not> tm_year g < y"
  then have m: "days_before_year y \<le> days_before_year (tm_year g)" using days_before_year_mono [of y "tm_year g"] by simp
  have c: "days_before_year (tm_year g) \<le> date_days (tm_year g) (tm_month g) (tm_mday g)"
    using assms(1) by (intro date_year_bounds(1)) (auto simp: normal_def date_ok_def)
  define D where "D = date_days (tm_year g) (tm_month g) (tm_mday g)"
  have "local_usec g \<ge> (D - 719162) * 86400 * 1000000"
    using assms(1) unfolding D_def by (simp add: normal_def local_usec_def)
  then show False using assms(2) c m unfolding D_def [symmetric] by simp
qed

lemma year_from:
  assumes "normal g" "(days_before_year y - 719162) * 86400000000 \<le> local_usec g"
  shows "y \<le> tm_year g"
proof (rule ccontr)
  assume "\<not> y \<le> tm_year g"
  then have m: "days_before_year (tm_year g + 1) \<le> days_before_year y" using days_before_year_mono [of "tm_year g + 1" y] by simp
  have c: "date_days (tm_year g) (tm_month g) (tm_mday g) < days_before_year (tm_year g + 1)"
    using assms(1) by (intro date_year_bounds(2)) (auto simp: normal_def date_ok_def)
  define D where "D = date_days (tm_year g) (tm_month g) (tm_mday g)"
  have "local_usec g < (D - 719161) * 86400 * 1000000"
    using assms(1) unfolding D_def by (simp add: normal_def local_usec_def)
  then show False using assms(2) c m unfolding D_def [symmetric] by simp
qed

lemma explode_gmt:
  assumes "time_min \<le> time" "time < time_max"
  shows "\<exists>g. PR_ExplodeTime time PR_GMTParameters = Some g \<and> normal g \<and> local_usec g = time"
proof -
  obtain g where g: "normal g" "local_usec g = time" "tm_params g = zero_params"
    using ComputeGMT_ok [OF assms] by blast
  then show ?thesis using Explode_gmt [OF g(1,3)] assms by auto
qed

text \<open>The bytes the two encoders leave.\<close>

lemma utc_bytes:
  assumes g: "normal g" and y: "1950 \<le> tm_year g" "tm_year g < 2050" and d: "length d = 13"
  shows "do { d \<leftarrow> put2 0 (i16 (tm_year g smod 100)) d; d \<leftarrow> put2 2 (i32 (tm_month g + 1)) d; d \<leftarrow> put2 4 (tm_mday g) d;
      d \<leftarrow> put2 6 (tm_hour g) d; d \<leftarrow> put2 8 (tm_min g) d; d \<leftarrow> put2 10 (tm_sec g) d;
      d \<leftarrow> wr d 12 (chr_of CHR ''Z''); Some (f d) } = Some (f (der_print False (text_of g)))"
proof -
  note n = normal_small [OF g]
  have w: "i16 (tm_year g smod 100) = tm_year g mod 100" "i32 (tm_month g + 1) = tm_month g + 1"
    "nat (tm_year g mod 100) = nat (tm_year g) mod 100"
    using n y by (simp_all add: smod_nonneg i16_id i32_id nat_mod_distrib)
  have p: "put2 i v (overlay d 0 xs) = Some (overlay d 0 (xs @ dec 2 (nat v)))"
    if "length xs = i" "i + 2 \<le> 13" "0 \<le> v" "v < 100" for i v xs
    using put2_ok [of i "overlay d 0 xs" v] overlay_append [of 0 xs d "dec 2 (nat v)"] that d by (simp add: length_overlay)
  have e: "put2 0 v d = Some (overlay d 0 (dec 2 (nat v)))" if "0 \<le> v" "v < 100" for v
    using put2_ok [of 0 d v] that d by simp
  have z: "wr (overlay d 0 xs) 12 c = Some (xs @ [c])" if "length xs = 12" for xs c
  proof -
    have "drop 12 d = [d ! 12]" using d Cons_nth_drop_Suc [of 12 d] by simp
    then show ?thesis using that d by (simp add: wr_ok length_overlay overlay_def list_update_append)
  qed
  show ?thesis unfolding w
    using n y by (simp add: e p z der_print_def text_of_def chr_of_def w(3))
qed

lemma gen_bytes:
  assumes g: "normal g" and y: "tm_year g < 10000" and d: "length d = 15"
  shows "do { d \<leftarrow> wr d 0 (word_of_int (tm_year g sdiv 1000 + 48));
      d \<leftarrow> wr d 1 (word_of_int ((tm_year g smod 1000) sdiv 100 + 48));
      d \<leftarrow> wr d 2 (word_of_int ((tm_year g smod 100) sdiv 10 + 48));
      d \<leftarrow> wr d 3 (word_of_int (tm_year g smod 10 + 48));
      d \<leftarrow> put2 4 (i32 (tm_month g + 1)) d; d \<leftarrow> put2 6 (tm_mday g) d;
      d \<leftarrow> put2 8 (tm_hour g) d; d \<leftarrow> put2 10 (tm_min g) d; d \<leftarrow> put2 12 (tm_sec g) d;
      d \<leftarrow> wr d 14 (chr_of CHR ''Z''); Some (f d) } = Some (f (der_print True (text_of g)))"
proof -
  note n = normal_small [OF g]
  define v where "v = nat (tm_year g)"
  have v: "tm_year g = int v" "v < 10000" using n y by (simp_all add: v_def)
  have q: "v div 100 < 100" "v mod 100 < 100" using v(2) by (simp_all add: less_mult_imp_div_less)
  have h: "int v sdiv 1000 + 48 = int (48 + v div 100 div 10 mod 10)"
    "(int v smod 1000) sdiv 100 + 48 = int (48 + v div 100 mod 10)"
    "(int v smod 100) sdiv 10 + 48 = int (48 + v mod 100 div 10 mod 10)"
    "int v smod 10 + 48 = int (48 + v mod 100 mod 10)"
  proof -
    have a: "v div 100 div 10 mod 10 = v div 1000" using q(1) by (simp add: div_mult2_eq [symmetric] less_mult_imp_div_less)
    have b: "v mod 1000 div 100 = v div 100 mod 10" using mod_mult2_eq [of v 100 10] by simp
    have c: "v mod 100 div 10 mod 10 = v mod 100 div 10" using q(2) by (simp add: less_mult_imp_div_less)
    have d: "v mod 100 mod 10 = v mod 10" by (simp add: mod_mod_cancel)
    show "int v sdiv 1000 + 48 = int (48 + v div 100 div 10 mod 10)"
      "(int v smod 1000) sdiv 100 + 48 = int (48 + v div 100 mod 10)"
      "(int v smod 100) sdiv 10 + 48 = int (48 + v mod 100 div 10 mod 10)"
      "int v smod 10 + 48 = int (48 + v mod 100 mod 10)"
      unfolding a c d b [symmetric] by (simp_all add: sdiv_nonneg smod_nonneg zdiv_int zmod_int)
  qed
  have w: "i32 (tm_month g + 1) = tm_month g + 1" using n by (simp add: i32_id)
  have p: "put2 i v (overlay d 0 xs) = Some (overlay d 0 (xs @ dec 2 (nat v)))"
    if "length xs = i" "i + 2 \<le> 15" "0 \<le> v" "v < 100" for i v xs
    using put2_ok [of i "overlay d 0 xs" v] overlay_append [of 0 xs d "dec 2 (nat v)"] that d by (simp add: length_overlay)
  have yr: "do { d \<leftarrow> wr d 0 a; d \<leftarrow> wr d 1 b; d \<leftarrow> wr d 2 c; d \<leftarrow> wr d 3 e; F d } = F (overlay d 0 [a, b, c, e])" for a b c e F
    using d by (simp add: wr_ok overlay_Cons numeral_2_eq_2 numeral_3_eq_3)
  have z: "wr (overlay d 0 xs) 14 c = Some (xs @ [c])" if "length xs = 14" for xs c
  proof -
    have "drop 14 d = [d ! 14]" using d Cons_nth_drop_Suc [of 14 d] by simp
    then show ?thesis using that d by (simp add: wr_ok length_overlay overlay_def list_update_append)
  qed
  have d4: "[word_of_int (int (48 + v div 100 div 10 mod 10)), word_of_int (int (48 + v div 100 mod 10)),
     word_of_int (int (48 + v mod 100 div 10 mod 10)), word_of_int (int (48 + v mod 100 mod 10))] = dec 4 v"
    unfolding dec_4 dec_2 of_int_of_nat_eq by simp
  show ?thesis unfolding yr v(1) h d4 w
    using n v by (simp add: p z der_print_def text_of_def chr_of_def)
qed

lemma length_der_print: "length (der_print False (text_of g)) = 13" "length (der_print True (text_of g)) = 15"
  by (simp_all add: der_print_def text_of_def)

text \<open>What an encoder hands back for a text, given what the allocator found.\<close>

definition encoded :: "SECItemType \<Rightarrow> buf \<Rightarrow> buf ptr \<Rightarrow> SECItem \<Rightarrow> PORT \<Rightarrow> SECStatus \<times> SECItem \<times> PORT" where
  "encoded ty txt block dst port = (case block of
     None \<Rightarrow> (SECFailure, dst\<lparr>item_len := length txt, item_data := None, item_type := ty\<rparr>, alloc_failed port)
   | Some _ \<Rightarrow> (SECSuccess, dst\<lparr>item_len := length txt, item_type := ty, item_data := Some txt\<rparr>, port))"

text \<open>The encoders as a whole, when the time is in their range.\<close>

lemma utc_encode:
  assumes "January1st1950 \<le> time" "time < January1st2050" "malloc_ok malloc" "\<forall>a. arena = Some a \<longrightarrow> malloc_ok a"
  shows "\<exists>g. PR_ExplodeTime time PR_GMTParameters = Some g \<and> normal g \<and> local_usec g = time \<and> der_wf False (text_of g) \<and>
    (\<forall>dst port. DER_TimeToUTCTimeArena malloc arena dst time port = Some (encoded siUTCTime (der_print False (text_of g)) (found malloc arena 13) dst port))"
proof -
  obtain g where g: "PR_ExplodeTime time PR_GMTParameters = Some g" "normal g" "local_usec g = time"
    using explode_gmt [of time] assms(1,2) by (auto simp: january_values time_min_def time_max_def)
  have y: "1950 \<le> tm_year g" "tm_year g < 2050"
    using year_from [OF g(2), of 1950] year_before [OF g(2), of 2050] g(3) assms(1,2)
    by (simp_all add: january_values days_before_year_def)
  have guard: "\<not> (time < January1st1950 \<or> time \<ge> January1st2050)" using assms by simp
  have wf: "der_wf False (text_of g)" using text_of_wf [OF g(2), of False] y by simp
  have "DER_TimeToUTCTimeArena malloc arena dst time port = Some (encoded siUTCTime (der_print False (text_of g)) (found malloc arena 13) dst port)" for dst port
  proof (cases "found malloc arena 13")
    case None
    then show ?thesis unfolding DER_TimeToUTCTimeArena_def using guard by (simp add: alloc_from_eq encoded_def length_der_print)
  next
    case (Some d)
    have l: "length d = 13" using assms(3,4) Some by (auto intro: found_length)
    show ?thesis unfolding DER_TimeToUTCTimeArena_def if_not_P [OF guard] using Some utc_bytes [OF g(2) y l,
      where f = "\<lambda>d. (SECSuccess, dst\<lparr>item_len := 13, item_type := siUTCTime, item_data := Some d\<rparr>, port)"] g(1)
      by (simp add: alloc_from_eq Let_def encoded_def length_der_print)
  qed
  then show ?thesis using g wf by blast
qed

lemma gen_encode:
  assumes "January1st1 \<le> time" "time < January1st10000" "malloc_ok malloc" "\<forall>a. arena = Some a \<longrightarrow> malloc_ok a"
  shows "\<exists>g. PR_ExplodeTime time PR_GMTParameters = Some g \<and> normal g \<and> local_usec g = time \<and> der_wf True (text_of g) \<and>
    (\<forall>dst port. DER_TimeToGeneralizedTimeArena malloc arena dst time port = Some (encoded siGeneralizedTime (der_print True (text_of g)) (found malloc arena 15) dst port))"
proof -
  obtain g where g: "PR_ExplodeTime time PR_GMTParameters = Some g" "normal g" "local_usec g = time"
    using explode_gmt [of time] assms(1,2) by (auto simp: january_values time_min_def time_max_def)
  have y: "tm_year g < 10000"
    using year_before [OF g(2), of 10000] g(3) assms(1,2)
    by (simp add: january_values days_before_year_def)
  have guard: "\<not> (time < January1st1 \<or> time \<ge> January1st10000)" using assms by simp
  have wf: "der_wf True (text_of g)" using text_of_wf [OF g(2), of True] y by simp
  have "DER_TimeToGeneralizedTimeArena malloc arena dst time port = Some (encoded siGeneralizedTime (der_print True (text_of g)) (found malloc arena 15) dst port)" for dst port
  proof (cases "found malloc arena 15")
    case None
    then show ?thesis unfolding DER_TimeToGeneralizedTimeArena_def using guard by (simp add: alloc_from_eq encoded_def length_der_print)
  next
    case (Some d)
    have l: "length d = 15" using assms(3,4) Some by (auto intro: found_length)
    show ?thesis unfolding DER_TimeToGeneralizedTimeArena_def if_not_P [OF guard] using Some gen_bytes [OF g(2) y l,
      where f = "\<lambda>d. (SECSuccess, dst\<lparr>item_len := 15, item_type := siGeneralizedTime, item_data := Some d\<rparr>, port)"] g(1)
      by (simp add: alloc_from_eq Let_def encoded_def length_der_print)
  qed
  then show ?thesis using g wf by blast
qed

text \<open>Reading back the text of a normal time.\<close>

lemma from_item_text:
  assumes "normal g" "local_usec g = time" "der_wf generalized (text_of g)" "length junk = 20" "dst = Some v0"
  shows "from_item junk generalized dst (der_print generalized (text_of g)) (length (der_print generalized (text_of g))) port =
    Some (SECSuccess, Some (time - time mod 1000000), port)"
proof -
  let ?b = "der_print generalized (text_of g)"
  have l: "length ?b < length junk" using assms(4) by (cases generalized) (simp_all add: length_der_print)
  have uniq: "t = text_of g" if "?b = der_print generalized t" "der_wf generalized t" for t
    using that assms(3) der_parse_iff [of generalized ?b t "[]"] der_parse_iff [of generalized ?b "text_of g" "[]"] by simp
  have us: "tm_usec g = time mod 1000000"
  proof -
    obtain A where "time = tm_usec g + A * 1000000" using assms(2) unfolding local_usec_def by (metis add.commute)
    then have "time mod 1000000 = tm_usec g mod 1000000" by simp
    then show ?thesis using assms(1) by (simp add: normal_def)
  qed
  have c: "0 \<le> date_days (tm_year g) (tm_month g) (tm_mday g)"
  proof -
    have "days_before_year 1 \<le> days_before_year (tm_year g)"
      using days_before_year_mono [of 1 "tm_year g"] normal_small(11) [OF assms(1)] by simp
    moreover have "days_before_year (tm_year g) \<le> date_days (tm_year g) (tm_month g) (tm_mday g)"
      using assms(1) by (intro date_year_bounds(1)) (auto simp: normal_def date_ok_def)
    ultimately show ?thesis by (simp add: days_before_year_def)
  qed
  have "time_min \<le> der_usec (text_of g)"
    using c assms(1) unfolding text_of_usec [OF assms(1)] by (simp add: local_usec_def time_min_def normal_def)
  then have i: "PR_ImplodeTime (der_exploded (text_of g)) = Some (der_usec (text_of g))"
    using normal_small(11) [OF assms(1)] by (intro Implode_der [OF assms(3)]) (simp_all add: text_of_def)
  have "take (length ?b) ?b = ?b" by simp
  with from_item_ok [OF le_refl l assms(5), of generalized port] show ?thesis
    using uniq i assms(3) text_of_usec [OF assms(1)] us assms(2) by (metis option.sel)
qed

section \<open>Texts without a terminator\<close>

lemma CAPTURE_def_on: "2 \<le> length p \<Longrightarrow> \<exists>r. CAPTURE p = Some r \<and> (\<forall>v q. r = Some (v, q) \<longrightarrow> q = drop 2 p)"
proof -
  assume "2 \<le> length p"
  then have "rd p 0 = Some (p ! 0)" "rd p 1 = Some (p ! 1)" by (auto simp: rd_def)
  then show ?thesis unfolding CAPTURE_def by (cases "ISDIGIT (p ! 0)"; cases "ISDIGIT (p ! 1)") simp_all
qed

lemma or_loser_wpx:
  assumes "wpx F (\<lambda>r. \<forall>v q. r = Some (v, q) \<longrightarrow> n \<le> length q)"
    and "\<And>v q. n \<le> length q \<Longrightarrow> wpx (k (v, q)) Q" and "Q None"
  shows "wpx (or_loser F k) Q"
  using assms by (auto simp: or_loser_def wpx_def split: option.splits prod.splits)

lemma CAPTURE_wpx: "2 + n \<le> length p \<Longrightarrow> wpx (CAPTURE p) (\<lambda>r. \<forall>v q. r = Some (v, q) \<longrightarrow> n \<le> length q)"
  using CAPTURE_def_on [of p] by (auto simp: wpx_def)

lemma field_wpx: "2 + n \<le> length p \<Longrightarrow> wpx (field bad p) (\<lambda>r. \<forall>v q. r = Some (v, q) \<longrightarrow> n \<le> length q)"
  unfolding field_def by (rule or_loser_wpx [OF CAPTURE_wpx]) (auto simp: wpx_def)

lemma year_wpx: "2 + n \<le> length p \<Longrightarrow> wpx (der_year False p) (\<lambda>r. \<forall>v q. r = Some (v, q) \<longrightarrow> n \<le> length q)"
  unfolding der_year_def by simp (rule or_loser_wpx [OF CAPTURE_wpx], auto simp: wpx_def Let_def)

lemma seconds_wpx: "2 + n \<le> length p \<Longrightarrow> wpx (der_seconds p) (\<lambda>r. \<forall>v q. r = Some (v, q) \<longrightarrow> n \<le> length q)"
  unfolding der_seconds_def by (intro wpx_bind wpx_rd wpx_if field_wpx) (auto simp: wpx_def)

lemma zone_wpx: "5 \<le> length p \<Longrightarrow> wpx (der_zone p) (\<lambda>_. True)"
proof -
  assume "5 \<le> length p"
  then obtain c q where p: "p = c # q" "4 \<le> length q" by (cases p) auto
  have "wpx (or_loser (field bad q) (\<lambda>(h, q). or_loser (field bad' q) (\<lambda>(m, q). Some (Some (f h m, q))))) (\<lambda>_. True)"
    for bad bad' and f :: "int \<Rightarrow> int \<Rightarrow> int \<times> int"
    using p(2) by (intro or_loser_wpx [OF field_wpx, where n = 2]; simp; intro or_loser_wpx [OF field_wpx, where n = 0])
      (simp_all add: wpx_def)
  from this [where f = "\<lambda>h m. if c = chr_of CHR ''-'' then (- h, - m) else (h, m)"] show ?thesis
    by (simp add: der_zone_def p(1) wpx_Some)
qed

lemma utc_fields_wpx: "17 \<le> length p \<Longrightarrow> wpx (der_fields False p) (\<lambda>_. True)"
  unfolding der_fields_def
  apply (rule or_loser_wpx [OF year_wpx, where n = 15], simp)
   apply (simp only: prod.case, rule or_loser_wpx [OF field_wpx, where n = 13], simp)
    apply (simp only: prod.case, rule or_loser_wpx [OF field_wpx, where n = 11], simp)
     apply (simp only: prod.case, rule or_loser_wpx [OF field_wpx, where n = 9], simp)
      apply (simp only: prod.case, rule or_loser_wpx [OF field_wpx, where n = 7], simp)
       apply (simp only: prod.case, rule or_loser_wpx [OF seconds_wpx, where n = 5], simp)
        apply (simp only: prod.case)
        apply (drule zone_wpx)
        apply (auto simp: wpx_def or_loser_def split: option.splits)
  done

section \<open>Properties\<close>

text \<open>C35: Encoding any time from the year 1 to the year 9999 as whichever type is due, \<open>UTCTime\<close> exactly for the years
  1950 to 2049, and decoding the item again gives the time, cut to the second below it.\<close>

theorem der_choice_roundtrip:
  assumes "January1st1 \<le> time" and "time < January1st10000" and "malloc_ok malloc"
    and "\<forall>a. arena = Some a \<longrightarrow> malloc_ok a" and "found malloc arena 13 \<noteq> None" and "found malloc arena 15 \<noteq> None"
    and "length junk = 20"
  shows "\<exists>item' port'. DER_EncodeTimeChoice malloc arena item time port = Some (SECSuccess, item', port') \<and>
    item_type item' = (if January1st1950 \<le> time \<and> time < January1st2050 then siUTCTime else siGeneralizedTime) \<and>
    DER_DecodeTimeChoice junk (Some v0) item' port' = Some (SECSuccess, Some (time - time mod 1000000), port')"
proof (cases "January1st1950 \<le> time \<and> time < January1st2050")
  case True
  obtain g where g: "normal g" "local_usec g = time" "der_wf False (text_of g)"
    "DER_TimeToUTCTimeArena malloc arena item time port = Some (SECSuccess, item\<lparr>item_len := 13, item_type := siUTCTime,
       item_data := Some (der_print False (text_of g))\<rparr>, port)"
    using utc_encode [of time malloc arena] True assms(3,4,5) by (auto simp: encoded_def length_der_print)
  show ?thesis using True g(4) from_item_text [OF g(1-3) assms(7) refl, of v0 port]
    by (simp add: DER_EncodeTimeChoice_def DER_DecodeTimeChoice_def DER_UTCTimeToTime_def length_der_print)
next
  case False
  obtain g where g: "normal g" "local_usec g = time" "der_wf True (text_of g)"
    "\<And>port. DER_TimeToGeneralizedTimeArena malloc arena item time port = Some (SECSuccess,
       item\<lparr>item_len := 15, item_type := siGeneralizedTime, item_data := Some (der_print True (text_of g))\<rparr>, port)"
    using gen_encode [OF assms(1-4)] assms(6) by (auto simp: encoded_def length_der_print)
  define port' where "port' = PORT_SetError SEC_ERROR_INVALID_ARGS port"
  have "DER_TimeToUTCTimeArena malloc arena item time port = Some (SECFailure, item, port')"
    using False by (auto simp: DER_TimeToUTCTimeArena_def port'_def)
  moreover have "port_error port' = Some SEC_ERROR_INVALID_ARGS" by (simp add: port'_def PORT_SetError_def)
  ultimately show ?thesis using False g(4) from_item_text [OF g(1-3) assms(7) refl, of v0 port']
    by (simp add: DER_EncodeTimeChoice_def DER_DecodeTimeChoice_def DER_GeneralizedTimeToTime_def length_der_print)
qed

definition some_port :: PORT where "some_port = \<lparr>port_error = None, port_allocFailures = 0\<rparr>"

definition empty_item :: SECItem where
  "empty_item = \<lparr>item_type = siBuffer, item_data = None, item_len = 0\<rparr>"

lemma zero_alloc: "malloc_ok (\<lambda>n. Some (replicate n 0))"
  by (simp add: malloc_ok_def)

theorem der_choice_roundtrip_witness:
  "\<exists>item' port'. DER_EncodeTimeChoice (\<lambda>n. Some (replicate n 0)) None empty_item 2556144000999999 some_port =
      Some (SECSuccess, item', port') \<and>
    item_type item' = (if January1st1950 \<le> 2556144000999999 \<and> 2556144000999999 < January1st2050
                       then siUTCTime else siGeneralizedTime) \<and>
    DER_DecodeTimeChoice (replicate 20 7) (Some 0) item' port' =
      Some (SECSuccess, Some (2556144000999999 - 2556144000999999 mod 1000000), port')"
  by (rule der_choice_roundtrip) (simp_all add: january_values zero_alloc found_def time_min_def)

text \<open>C36: What the two encoders produce. Outside its years an encoder fails and leaves the item alone; without memory it
  fails with a null pointer in the item; otherwise the item holds, and is exactly as long as, the text of the date and the
  time in GMT, written with all its seconds and a \<open>Z\<close>.\<close>

theorem der_time_encode:
  assumes "malloc_ok malloc" and "\<forall>a. arena = Some a \<longrightarrow> malloc_ok a"
  shows "(if January1st1950 \<le> time \<and> time < January1st2050
     then \<exists>g. PR_ExplodeTime time PR_GMTParameters = Some g \<and> der_wf False (text_of g) \<and>
       DER_TimeToUTCTimeArena malloc arena dst time port =
         Some (encoded siUTCTime (der_print False (text_of g)) (found malloc arena 13) dst port)
     else DER_TimeToUTCTimeArena malloc arena dst time port =
       Some (SECFailure, dst, PORT_SetError SEC_ERROR_INVALID_ARGS port)) \<and>
    (if January1st1 \<le> time \<and> time < January1st10000
     then \<exists>g. PR_ExplodeTime time PR_GMTParameters = Some g \<and> der_wf True (text_of g) \<and>
       DER_TimeToGeneralizedTimeArena malloc arena dst time port =
         Some (encoded siGeneralizedTime (der_print True (text_of g)) (found malloc arena 15) dst port)
     else DER_TimeToGeneralizedTimeArena malloc arena dst time port =
       Some (SECFailure, dst, PORT_SetError SEC_ERROR_INVALID_ARGS port))"
proof (intro conjI)
  show "if January1st1950 \<le> time \<and> time < January1st2050
     then \<exists>g. PR_ExplodeTime time PR_GMTParameters = Some g \<and> der_wf False (text_of g) \<and>
       DER_TimeToUTCTimeArena malloc arena dst time port =
         Some (encoded siUTCTime (der_print False (text_of g)) (found malloc arena 13) dst port)
     else DER_TimeToUTCTimeArena malloc arena dst time port =
       Some (SECFailure, dst, PORT_SetError SEC_ERROR_INVALID_ARGS port)"
  proof (cases "January1st1950 \<le> time \<and> time < January1st2050")
    case True
    then show ?thesis using utc_encode [OF _ _ assms, of time] by auto
  qed (auto simp: DER_TimeToUTCTimeArena_def)
  show "if January1st1 \<le> time \<and> time < January1st10000
     then \<exists>g. PR_ExplodeTime time PR_GMTParameters = Some g \<and> der_wf True (text_of g) \<and>
       DER_TimeToGeneralizedTimeArena malloc arena dst time port =
         Some (encoded siGeneralizedTime (der_print True (text_of g)) (found malloc arena 15) dst port)
     else DER_TimeToGeneralizedTimeArena malloc arena dst time port =
       Some (SECFailure, dst, PORT_SetError SEC_ERROR_INVALID_ARGS port)"
  proof (cases "January1st1 \<le> time \<and> time < January1st10000")
    case True
    then show ?thesis using gen_encode [OF _ _ assms, of time] by auto
  qed (auto simp: DER_TimeToGeneralizedTimeArena_def)
qed

theorem der_time_encode_witness:
  "(if January1st1950 \<le> 0 \<and> 0 < January1st2050
     then \<exists>g. PR_ExplodeTime 0 PR_GMTParameters = Some g \<and> der_wf False (text_of g) \<and>
       DER_TimeToUTCTimeArena (\<lambda>n. Some (replicate n 0)) None empty_item 0 some_port =
         Some (encoded siUTCTime (der_print False (text_of g)) (found (\<lambda>n. Some (replicate n 0)) None 13) empty_item some_port)
     else DER_TimeToUTCTimeArena (\<lambda>n. Some (replicate n 0)) None empty_item 0 some_port =
       Some (SECFailure, empty_item, PORT_SetError SEC_ERROR_INVALID_ARGS some_port))"
  by (rule der_time_encode [THEN conjunct1]) (simp_all add: zero_alloc)

text \<open>C37: The two decoders accept exactly the texts of the grammar (two-digit years from 1950 to 2049 for \<open>UTCTime\<close>, four
  digits for \<open>GeneralizedTime\<close>; month, day up to 31, hour, minute, optional second; \<open>Z\<close> or an offset), whatever bytes the
  item and the stack hold. They always return; the value, for moments from the start of the year 1, is the moment the
  text stands for, and every other item is the error \<open>SEC_ERROR_INVALID_TIME\<close>. An item that is refused leaves the
  destination as it was, with one exception: when it is a text of the grammar with further bytes after it, none of them null, and
  its length is one the decoder looks at, the moment of that text has been stored before the bytes behind it are refused.\<close>

theorem der_time_decode:
  assumes "item_data item = Some b" and "item_len item \<le> length b" and "length junk = 20"
    and "decode = (if generalized then DER_GeneralizedTimeToTime else DER_UTCTimeToTime)"
  shows "(\<exists>t v. take (item_len item) b = der_print generalized t \<and> der_wf generalized t \<and>
       decode junk (Some v0) (Some item) port = Some (SECSuccess, Some v, port) \<and>
       (1 \<le> dt_year t \<and> time_min \<le> der_usec t \<longrightarrow> v = der_usec t)) \<or>
     (\<nexists>t. take (item_len item) b = der_print generalized t \<and> der_wf generalized t) \<and>
       (\<exists>v. decode junk (Some v0) (Some item) port =
          Some (SECFailure, Some v, PORT_SetError SEC_ERROR_INVALID_TIME port) \<and>
          (if (if generalized then 13 else 11) \<le> item_len item \<and> item_len item \<le> (if generalized then 19 else 17) \<and>
             0 \<notin> set (take (item_len item) b) \<and> (\<exists>t r. take (item_len item) b = der_print generalized t @ r \<and> der_wf generalized t)
           then \<exists>t r. take (item_len item) b = der_print generalized t @ r \<and> der_wf generalized t \<and>
             (1 \<le> dt_year t \<and> time_min \<le> der_usec t \<longrightarrow> v = der_usec t)
           else v = v0))"
proof (cases "(if generalized then 13 else 11) \<le> item_len item \<and> item_len item \<le> (if generalized then 19 else 17)")
  case False
  have "length (zone_print z) = (if z = Zulu then 1 else 5)" for z by (cases z) simp_all
  then have l: "(if generalized then 13 else 11) \<le> length (der_print generalized t) \<and>
     length (der_print generalized t) \<le> (if generalized then 19 else 17)" for t
    by (simp add: der_print_def split: option.splits)
  have "take (item_len item) b \<noteq> der_print generalized t" for t
  proof
    assume "take (item_len item) b = der_print generalized t"
    then have "item_len item = length (der_print generalized t)" using assms(2) by (metis length_take min.absorb2)
    then show False using False l [of t] by simp
  qed
  moreover have "decode junk (Some v0) (Some item) port = Some (SECFailure, Some v0, PORT_SetError SEC_ERROR_INVALID_TIME port)"
    using False assms(1,4) by (cases generalized) (auto simp: DER_GeneralizedTimeToTime_def DER_UTCTimeToTime_def)
  ultimately show ?thesis using False by (intro disjI2 conjI exI [of _ v0]) auto
next
  case True
  have r: "decode junk (Some v0) (Some item) port = from_item junk generalized (Some v0) b (item_len item) port"
    using True assms(1,4) by (cases generalized) (auto simp: DER_GeneralizedTimeToTime_def DER_UTCTimeToTime_def)
  have moment: "1 \<le> dt_year t \<and> time_min \<le> der_usec t \<longrightarrow> v = der_usec t"
    if "der_wf generalized t" "PR_ImplodeTime (der_exploded t) = Some v" for t v
    using Implode_der that by fastforce
  have "item_len item < length junk" using True assms(3) by (cases generalized) simp_all
  from from_item_ok [OF assms(2) this refl, of generalized v0 port] show ?thesis
  proof (elim disjE)
    let ?xs = "take (item_len item) b"
    let ?prefix = "\<exists>t s. ?xs = der_print generalized t @ s \<and> der_wf generalized t"
    assume "(\<nexists>t. ?xs = der_print generalized t \<and> der_wf generalized t) \<and>
      (\<exists>v. from_item junk generalized (Some v0) b (item_len item) port =
          Some (SECFailure, Some v, PORT_SetError SEC_ERROR_INVALID_TIME port) \<and>
          (if 0 \<in> set ?xs \<or> \<not> ?prefix then v = v0
           else \<exists>t s. ?xs = der_print generalized t @ s \<and> der_wf generalized t \<and> PR_ImplodeTime (der_exploded t) = Some v))"
    then obtain v where n: "\<nexists>t. ?xs = der_print generalized t \<and> der_wf generalized t"
      and f: "from_item junk generalized (Some v0) b (item_len item) port =
          Some (SECFailure, Some v, PORT_SetError SEC_ERROR_INVALID_TIME port)"
      and d: "if 0 \<in> set ?xs \<or> \<not> ?prefix then v = v0
           else \<exists>t s. ?xs = der_print generalized t @ s \<and> der_wf generalized t \<and> PR_ImplodeTime (der_exploded t) = Some v"
      by blast
    have "if 0 \<notin> set ?xs \<and> ?prefix
        then \<exists>t s. ?xs = der_print generalized t @ s \<and> der_wf generalized t \<and>
          (1 \<le> dt_year t \<and> time_min \<le> der_usec t \<longrightarrow> v = der_usec t)
        else v = v0"
    proof (cases "0 \<in> set ?xs \<or> \<not> ?prefix")
      case True
      then have "v = v0" using d unfolding if_P [OF True] by blast
      then show ?thesis using True by (subst if_not_P) blast+
    next
      case False
      then show ?thesis using d moment unfolding if_not_P [OF False] by (subst if_P) blast+
    qed
    moreover have "(if generalized then 13 else 11) \<le> item_len item \<and> item_len item \<le> (if generalized then 19 else 17) \<and>
        0 \<notin> set ?xs \<and> ?prefix \<longleftrightarrow> 0 \<notin> set ?xs \<and> ?prefix" using True by blast
    ultimately show ?thesis using n f r by (intro disjI2 conjI exI [of _ v]) (simp_all only: not_False_eq_True)
  qed (use moment r in metis)
qed

definition noon_item :: SECItem where
  "noon_item = \<lparr>item_type = siUTCTime, item_data = Some (bytes_of ''9912311200Zab''), item_len = 13\<rparr>"

theorem der_time_decode_witness:
  "(\<exists>t v. take (item_len noon_item) (bytes_of ''9912311200Zab'') = der_print False t \<and> der_wf False t \<and>
       DER_UTCTimeToTime (replicate 20 7) (Some 5) (Some noon_item) some_port = Some (SECSuccess, Some v, some_port) \<and>
       (1 \<le> dt_year t \<and> time_min \<le> der_usec t \<longrightarrow> v = der_usec t)) \<or>
     (\<nexists>t. take (item_len noon_item) (bytes_of ''9912311200Zab'') = der_print False t \<and> der_wf False t) \<and>
       (\<exists>v. DER_UTCTimeToTime (replicate 20 7) (Some 5) (Some noon_item) some_port =
          Some (SECFailure, Some v, PORT_SetError SEC_ERROR_INVALID_TIME some_port) \<and>
          (if 11 \<le> item_len noon_item \<and> item_len noon_item \<le> 17 \<and> 0 \<notin> set (take (item_len noon_item) (bytes_of ''9912311200Zab'')) \<and>
             (\<exists>t r. take (item_len noon_item) (bytes_of ''9912311200Zab'') = der_print False t @ r \<and> der_wf False t)
           then \<exists>t r. take (item_len noon_item) (bytes_of ''9912311200Zab'') = der_print False t @ r \<and> der_wf False t \<and>
             (1 \<le> dt_year t \<and> time_min \<le> der_usec t \<longrightarrow> v = der_usec t)
           else v = 5))"
  using der_time_decode [of noon_item "bytes_of ''9912311200Zab''" "replicate 20 7" DER_UTCTimeToTime False 5 some_port]
  by (simp add: noon_item_def bytes_of_def)

text \<open>The text of noon on December 31, 1999 with two more bytes is refused, but the destination has been written.\<close>

theorem der_trailing_bytes:
  "DER_UTCTimeToTime (replicate 20 7) (Some 5) (Some noon_item) some_port =
     Some (SECFailure, Some 946641600000000, PORT_SetError SEC_ERROR_INVALID_TIME some_port)"
  by code_simp

text \<open>\<open>DER_AsciiToTime\<close> on a text without a terminator reads nothing past its seventeenth byte, which is the bound its
  comment settles on.\<close>

theorem der_ascii_time:
  assumes "17 \<le> length s"
  shows "\<exists>r. DER_AsciiToTime dst (Some s) port = Some r"
proof -
  obtain f where f: "der_fields False s = Some f" using utc_fields_wpx [OF assms] by (auto simp: wpx_def)
  show ?thesis
  proof (cases dst)
    case None
    then show ?thesis by (simp add: DER_AsciiToTime_def der_TimeStringToTime_def)
  next
    case (Some v)
    then show ?thesis using f Implode_total
      by (cases f) (auto simp: DER_AsciiToTime_def der_TimeStringToTime_def bind_eq_Some_conv)
  qed
qed

theorem der_ascii_time_witness:
  "\<exists>r. DER_AsciiToTime (Some 0) (Some (bytes_of ''991231120000+0000'')) some_port = Some r"
  by (rule der_ascii_time) (simp add: bytes_of_def)

text \<open>What the decoders let through. The day is checked against 31 only, so February 31 of 2013 is read as March 3.
  The year 0, which the encoder refuses, is accepted, and because of C's division its days count one too many: its last day
  is read as January 1 of the year 1.\<close>

theorem der_time_oddities:
  "DER_UTCTimeToTime (replicate 20 7) (Some 0)
      (Some \<lparr>item_type = siUTCTime, item_data = Some (bytes_of ''130231000000Z''), item_len = 13\<rparr>) some_port =
     Some (SECSuccess, Some 1362268800000000, some_port) \<and>
   DER_UTCTimeToTime (replicate 20 7) (Some 0)
      (Some \<lparr>item_type = siUTCTime, item_data = Some (bytes_of ''130303000000Z''), item_len = 13\<rparr>) some_port =
     Some (SECSuccess, Some 1362268800000000, some_port) \<and>
   DER_GeneralizedTimeToTime (replicate 20 7) (Some 0)
      (Some \<lparr>item_type = siGeneralizedTime, item_data = Some (bytes_of ''00001231000000Z''), item_len = 15\<rparr>) some_port =
     Some (SECSuccess, Some January1st1, some_port) \<and>
   DER_GeneralizedTimeToTime (replicate 20 7) (Some 0)
      (Some \<lparr>item_type = siGeneralizedTime, item_data = Some (bytes_of ''00010101000000Z''), item_len = 15\<rparr>) some_port =
     Some (SECSuccess, Some January1st1, some_port)"
  by (intro conjI; code_simp)

end
