(* ===== verification/Moz_NssEncode.thy ===== *)
theory Moz_NssEncode
  imports Moz_Base64 Moz_Sec
begin

text \<open>
  The streaming base64 encoder of NSS, \<open>src/security/nss/lib/util/nssb64e.c\<close>: it takes bytes in pieces of any size,
  keeps up to two of them for the next piece, and writes lines of characters, a buffer at a time, to a function of the
  client or into one buffer.

  The client's function is a field of the encoder, as in the code; \<open>e_output_arg\<close> is the object its argument points to.
  \<open>out\<close> is the offset of the pointer \<open>out\<close> in the output buffer. Whether the allocation of a structure succeeds is a
  parameter; calls of \<open>free\<close> and operations on the mark of an arena are a list of events. Assertions are not compiled.
\<close>

record 's PLBase64Encoder =
  e_in_buffer :: buf
  e_in_buffer_count :: nat
  e_line_length :: u32
  e_current_column :: u32
  e_output_fn :: "('s \<Rightarrow> buf \<Rightarrow> int \<times> 's) ptr"
  e_output_arg :: 's
  e_output_buffer :: "buf ptr"
  e_output_buflen :: u32
  e_output_length :: u32

section \<open>The encoder\<close>

definition base64_valuetocode :: buf where
  "base64_valuetocode = bytes_of ''ABCDEFGHIJKLMNOPQRSTUVWXYZabcdefghijklmnopqrstuvwxyz0123456789+/''"

definition B64_PAD :: byte where "B64_PAD = 61"
definition B64_CR :: byte where "B64_CR = 13"
definition B64_LF :: byte where "B64_LF = 10"

text \<open>\<open>out[i] = c;\<close> and \<open>*out++ = c;\<close>\<close>

definition e_set :: "nat \<Rightarrow> byte \<Rightarrow> 's PLBase64Encoder \<Rightarrow> 's PLBase64Encoder exec" where
  "e_set i c data = do {
     b \<leftarrow> e_output_buffer data; b \<leftarrow> wr b i c; Some (data\<lparr>e_output_buffer := Some b\<rparr>) }"

definition e_put :: "byte \<Rightarrow> 's PLBase64Encoder \<times> nat \<Rightarrow> ('s PLBase64Encoder \<times> nat) exec" where
  "e_put c = (\<lambda>(data, out). do { data \<leftarrow> e_set out c data; Some (data, out + 1) })"

text \<open>\<open>if (data->current_column >= data->line_length) { ... }\<close>\<close>

definition e_line_break :: "'s PLBase64Encoder \<times> nat \<Rightarrow> ('s PLBase64Encoder \<times> nat) exec" where
  "e_line_break = (\<lambda>(data, out).
     if e_current_column data \<ge> e_line_length data then do {
       (data, out) \<leftarrow> e_put B64_CR (data\<lparr>e_current_column := 0\<rparr>, out);
       (data, out) \<leftarrow> e_put B64_LF (data, out);
       Some (data\<lparr>e_output_length := e_output_length data + 2\<rparr>, out) }
     else Some (data, out))"

text \<open>\<open>for (j = 18; j >= 0; j -= 6)\<close>\<close>

fun e_digits :: "nat list \<Rightarrow> u32 \<Rightarrow> 's PLBase64Encoder \<times> nat \<Rightarrow> ('s PLBase64Encoder \<times> nat) exec" where
  "e_digits [] n st = Some st"
| "e_digits (j # js) n st = do {
     c \<leftarrow> rd base64_valuetocode (unat (drop_bit j n AND 0x3F));
     st \<leftarrow> e_put c st;
     e_digits js n st }"

text \<open>\<open>while (i < 3) { n = (n << 8) | *in++; i++; }\<close>, \<open>k\<close> more times\<close>

fun e_gather :: "nat \<Rightarrow> u32 \<Rightarrow> buf \<Rightarrow> nat \<Rightarrow> (u32 \<times> nat) exec" where
  "e_gather 0 n inb pos = Some (n, pos)"
| "e_gather (Suc k) n inb pos = do { x \<leftarrow> rd inb pos; e_gather k (push_bit 8 n OR ucast x) inb (pos + 1) }"

lemma e_gather_pos: "e_gather k n inb pos = Some (n', pos') \<Longrightarrow> pos' = pos + k"
  by (induction k n inb pos rule: e_gather.induct) (auto simp: bind_eq_Some_conv)

text \<open>One token: the line break before it and its four characters\<close>

definition e_token :: "'s PLBase64Encoder \<Rightarrow> u32 \<Rightarrow> nat \<Rightarrow> ('s PLBase64Encoder \<times> nat) exec" where
  "e_token data n out = do {
     (data, out) \<leftarrow> (if e_line_length data > 0 then do {
         (data, out) \<leftarrow> e_line_break (data, out);
         Some (data\<lparr>e_current_column := e_current_column data + 4\<rparr>, out) }
       else Some (data, out));
     (data, out) \<leftarrow> e_digits [18, 12, 6, 0] n (data, out);
     Some (data\<lparr>e_output_length := e_output_length data + 4\<rparr>, out) }"

text \<open>The call of the client's function; a length beyond \<open>PRInt32\<close> would be handed over as a negative number.\<close>

definition e_write :: "'s PLBase64Encoder \<Rightarrow> (int \<times> 's PLBase64Encoder) exec" where
  "e_write data = do {
     f \<leftarrow> e_output_fn data;
     b \<leftarrow> e_output_buffer data;
     if unat (e_output_length data) > length b \<or> unat (e_output_length data) \<ge> 2 ^ 31 then None
     else case f (e_output_arg data) (take (unat (e_output_length data)) b) of
       (r, arg) \<Rightarrow> Some (r, data\<lparr>e_output_arg := arg\<rparr>) }"

text \<open>\<open>if (data->output_length >= output_threshold)\<close>; \<open>again\<close> is \<open>in < end\<close>, \<open>Inl\<close> a \<open>return PR_FAILURE\<close>.\<close>

definition e_spill ::
  "'s PLBase64Encoder \<Rightarrow> nat \<Rightarrow> bool \<Rightarrow> u32 \<Rightarrow> PORT \<Rightarrow>
   ('s PLBase64Encoder \<times> PORT + 's PLBase64Encoder \<times> nat) exec" where
  "e_spill data out again threshold port =
     (if e_output_length data \<ge> threshold then
        (if e_output_fn data \<noteq> None then do {
           (output_result, data) \<leftarrow> e_write data;
           Some (if output_result < 0 then Inl (data, port) else Inr (data\<lparr>e_output_length := 0\<rparr>, 0)) }
         else Some (if again then Inl (data, PORT_SetError PR_BUFFER_OVERFLOW_ERROR port) else Inr (data, out)))
      else Some (Inr (data, out)))"

function e_loop ::
  "'s PLBase64Encoder \<Rightarrow> buf \<Rightarrow> nat \<Rightarrow> nat \<Rightarrow> nat \<Rightarrow> u32 \<Rightarrow> nat \<Rightarrow> u32 \<Rightarrow> PORT \<Rightarrow>
   (PRStatus \<times> 's PLBase64Encoder \<times> PORT) exec" where
  "e_loop data inb pos stop i n out threshold port =
     (if pos < stop then
        (case e_gather (3 - i) n inb pos of
           None \<Rightarrow> None
         | Some (n, pos) \<Rightarrow>
             (case e_token data n out of
                None \<Rightarrow> None
              | Some (data, out) \<Rightarrow>
                  (case e_spill data out (pos < stop) threshold port of
                     None \<Rightarrow> None
                   | Some (Inl (data, port)) \<Rightarrow> Some (PR_FAILURE, data, port)
                   | Some (Inr (data, out)) \<Rightarrow> e_loop data inb pos stop 0 0 out threshold port)))
      else Some (PR_SUCCESS, data, port))"
  by pat_completeness auto
termination
  by (relation "measure (\<lambda>(data, inb, pos, stop, i, _). 2 * (stop - pos) + (if 3 \<le> i then 1 else 0))")
    (auto dest!: e_gather_pos)

declare e_loop.simps [simp del]

definition pl_base64_encode_buffer ::
  "'s PLBase64Encoder \<Rightarrow> buf \<Rightarrow> u32 \<Rightarrow> PORT \<Rightarrow> (PRStatus \<times> 's PLBase64Encoder \<times> PORT) exec" where
  "pl_base64_encode_buffer data inb nbytes port =
     (let i = e_in_buffer_count data in
      if nbytes < 3 - word_of_nat i then do {
        a \<leftarrow> rd inb 0;
        ib \<leftarrow> wr (e_in_buffer data) i a;
        if nbytes > 1 then do {
          b \<leftarrow> rd inb 1;
          ib \<leftarrow> wr ib (i + 1) b;
          Some (PR_SUCCESS, data\<lparr>e_in_buffer := ib, e_in_buffer_count := i + 2\<rparr>, port) }
        else Some (PR_SUCCESS, data\<lparr>e_in_buffer := ib, e_in_buffer_count := i + 1\<rparr>, port) }
      else do {
        (n, data) \<leftarrow> (if i > 0 then do {
            a \<leftarrow> rd (e_in_buffer data) 0;
            n \<leftarrow> (if i > 1 then do { b \<leftarrow> rd (e_in_buffer data) 1; Some (push_bit 8 (ucast a) OR ucast b) }
                 else Some (ucast a));
            Some (n, data\<lparr>e_in_buffer_count := 0\<rparr>) }
          else Some (0, data));
        let rest = unat (nbytes + word_of_nat i) mod 3;
        let stop = unat nbytes - rest;
        data \<leftarrow> (if rest > 0 then do {
            a \<leftarrow> rd inb stop;
            ib \<leftarrow> wr (e_in_buffer data) 0 a;
            ib \<leftarrow> (if rest > 1 then do { b \<leftarrow> rd inb (stop + 1); wr ib 1 b } else Some ib);
            Some (data\<lparr>e_in_buffer := ib, e_in_buffer_count := rest\<rparr>) }
          else Some data);
        e_loop data inb 0 stop i n (unat (e_output_length data)) (e_output_buflen data - 3) port })"

text \<open>\<open>if (i > 0) { ... }\<close> in \<open>pl_base64_encode_flush\<close>: the last token\<close>

definition e_last_token :: "'s PLBase64Encoder \<Rightarrow> 's PLBase64Encoder exec" where
  "e_last_token data =
     (let i = e_in_buffer_count data in
      if i > 0 then do {
        a \<leftarrow> rd (e_in_buffer data) 0;
        n \<leftarrow> (if i > 1 then do { b \<leftarrow> rd (e_in_buffer data) 1; Some (push_bit 16 (ucast a) OR push_bit 8 (ucast b)) }
             else Some (push_bit 16 (ucast a)));
        let data = data\<lparr>e_in_buffer_count := 0\<rparr>;
        (data, out) \<leftarrow> (if e_line_length data > 0 then e_line_break (data, unat (e_output_length data))
                       else Some (data, unat (e_output_length data)));
        (data, out) \<leftarrow> e_digits [18, 12, 6, 0] n (data, out);
        data \<leftarrow> (if i = 1 then e_set (out - 2) B64_PAD data else Some data);
        data \<leftarrow> e_set (out - 1) B64_PAD data;
        Some (data\<lparr>e_output_length := e_output_length data + 4\<rparr>) }
      else Some data)"

definition pl_base64_encode_flush :: "'s PLBase64Encoder \<Rightarrow> (PRStatus \<times> 's PLBase64Encoder) exec" where
  "pl_base64_encode_flush data =
     (if e_in_buffer_count data = 0 \<and> e_output_length data = 0 then Some (PR_SUCCESS, data)
      else do {
        data \<leftarrow> e_last_token data;
        if e_output_fn data \<noteq> None then do {
          (output_result, data) \<leftarrow> e_write data;
          let data = data\<lparr>e_output_length := 0\<rparr>;
          Some (if output_result < 0 then PR_FAILURE else PR_SUCCESS, data) }
        else Some (PR_SUCCESS, data) })"

section \<open>Creating, feeding and destroying an encoder\<close>

definition PL_Base64MaxEncodedLength :: "u32 \<Rightarrow> u32 \<Rightarrow> u32" where
  "PL_Base64MaxEncodedLength nbytes line_length =
     (let tokens = (nbytes + 2) div 3 in
      if line_length = 0 then tokens * 4
      else
        let line_length = (if line_length < 4 then 4 else line_length);
            tokens_per_line = line_length div 4;
            full_lines = tokens div tokens_per_line;
            remainder = (tokens - (full_lines * tokens_per_line)) * 4;
            line_break_chars = full_lines * 2;
            line_break_chars = (if remainder = 0 then line_break_chars - 2 else line_break_chars)
        in (full_lines * tokens_per_line * 4) + line_break_chars + remainder)"

text \<open>\<open>PR_NEWZAP\<close> succeeds when \<open>newzap\<close>; \<open>PR_Malloc\<close> is \<open>malloc\<close>.\<close>

definition pl_base64_create_encoder ::
  "bool \<Rightarrow> allocf \<Rightarrow> ('s \<Rightarrow> buf \<Rightarrow> int \<times> 's) ptr \<Rightarrow> 's \<Rightarrow> u32 \<Rightarrow> buf ptr \<Rightarrow> u32 \<Rightarrow>
   's PLBase64Encoder ptr \<times> heap_event list" where
  "pl_base64_create_encoder newzap malloc output_fn output_arg line_length output_buffer output_buflen =
     (if \<not> newzap then (None, [])
      else
        let line_length = (if line_length > 0 \<and> line_length < 4 then 4 else line_length);
            line_tokens = line_length div 4;
            data = \<lparr>e_in_buffer = [0, 0], e_in_buffer_count = 0, e_line_length = line_tokens * 4, e_current_column = 0,
              e_output_fn = output_fn, e_output_arg = output_arg, e_output_buffer = None, e_output_buflen = 0,
              e_output_length = 0\<rparr>;
            output_buflen =
              (if output_buffer = None \<and> output_buflen = 0
               then (if e_line_length data > 0 then e_line_length data + 2 else 64) else output_buflen);
            output_buffer =
              (if output_buffer = None then malloc (unat output_buflen) else output_buffer)
        in if output_buffer = None then (None, [Free])
           else (Some (data\<lparr>e_output_buffer := output_buffer, e_output_buflen := output_buflen\<rparr>), []))"

definition PL_CreateBase64Encoder ::
  "bool \<Rightarrow> allocf \<Rightarrow> ('s \<Rightarrow> buf \<Rightarrow> int \<times> 's) ptr \<Rightarrow> 's \<Rightarrow> u32 \<Rightarrow> PORT \<Rightarrow>
   's PLBase64Encoder ptr \<times> heap_event list \<times> PORT" where
  "PL_CreateBase64Encoder newzap malloc output_fn output_arg line_length port =
     (if output_fn = None then (None, [], PORT_SetError PR_INVALID_ARGUMENT_ERROR port)
      else case pl_base64_create_encoder newzap malloc output_fn output_arg line_length None 0 of
        (data, evs) \<Rightarrow> (data, evs, port))"

definition PL_UpdateBase64Encoder ::
  "'s PLBase64Encoder ptr \<Rightarrow> buf ptr \<Rightarrow> u32 \<Rightarrow> PORT \<Rightarrow> (PRStatus \<times> 's PLBase64Encoder ptr \<times> PORT) exec" where
  "PL_UpdateBase64Encoder data buffer nbytes port = (case (data, buffer) of
     (Some d, Some b) \<Rightarrow>
       if nbytes = 0 then Some (PR_FAILURE, data, PORT_SetError PR_INVALID_ARGUMENT_ERROR port)
       else do { (status, d, port) \<leftarrow> pl_base64_encode_buffer d b nbytes port; Some (status, Some d, port) }
   | _ \<Rightarrow> Some (PR_FAILURE, data, PORT_SetError PR_INVALID_ARGUMENT_ERROR port))"

text \<open>What is left of the encoder is the object that the client's argument points to.\<close>

definition PL_DestroyBase64Encoder ::
  "'s PLBase64Encoder ptr \<Rightarrow> bool \<Rightarrow> PORT \<Rightarrow> (PRStatus \<times> 's ptr \<times> heap_event list \<times> PORT) exec" where
  "PL_DestroyBase64Encoder data abort_p port = (case data of
     None \<Rightarrow> Some (PR_FAILURE, None, [], PORT_SetError PR_INVALID_ARGUMENT_ERROR port)
   | Some d \<Rightarrow> do {
       (status, d) \<leftarrow> (if \<not> abort_p then pl_base64_encode_flush d else Some (PR_SUCCESS, d));
       Some (status, Some (e_output_arg d), (if e_output_buffer d \<noteq> None then [Free, Free] else [Free]), port) })"

text \<open>The result: whether a buffer is returned, what the buffer (the caller's or an allocated one) holds, and
  \<open>*output_destlen\<close> when it is set.\<close>

definition PL_Base64EncodeBuffer ::
  "bool \<Rightarrow> allocf \<Rightarrow> buf \<Rightarrow> u32 \<Rightarrow> u32 \<Rightarrow> buf ptr \<Rightarrow> u32 \<Rightarrow> PORT \<Rightarrow>
   (bool \<times> buf ptr \<times> u32 option \<times> heap_event list \<times> PORT) exec" where
  "PL_Base64EncodeBuffer newzap malloc src srclen line_length dest maxdestlen port =
     (if srclen = 0 then Some (dest \<noteq> None, dest, None, [], port)
      else
        let need_length = PL_Base64MaxEncodedLength srclen line_length in
        if dest \<noteq> None \<and> maxdestlen < need_length then
          Some (False, dest, None, [], PORT_SetError PR_BUFFER_OVERFLOW_ERROR port)
        else
          let maxdestlen = (if dest \<noteq> None then maxdestlen else need_length) in
          case pl_base64_create_encoder newzap malloc None () line_length dest maxdestlen of
            (None, evs) \<Rightarrow> Some (False, dest, None, evs, port)
          | (Some data, evs) \<Rightarrow> do {
              (status, data, port) \<leftarrow> pl_base64_encode_buffer data src srclen port;
              (status, data) \<leftarrow> (if status = PR_SUCCESS then pl_base64_encode_flush data else Some (status, data));
              if status \<noteq> PR_SUCCESS then do {
                (_, _, evs', port) \<leftarrow> PL_DestroyBase64Encoder (Some data) True port;
                Some (False, e_output_buffer data, None, evs @ evs', port) }
              else do {
                let dest = e_output_buffer data;
                let output_destlen = e_output_length data;
                (status, _, evs', port) \<leftarrow> PL_DestroyBase64Encoder (Some (data\<lparr>e_output_buffer := None\<rparr>)) False port;
                Some (if status = PR_FAILURE then (False, None, Some output_destlen, evs @ evs' @ [Free], port)
                      else (True, dest, Some output_destlen, evs @ evs', port)) } })"

section \<open>The functions of NSS\<close>

record 's NSSBase64Encoder =
  nss_encoder :: "'s PLBase64Encoder ptr"

definition NSSBase64Encoder_Create ::
  "bool \<Rightarrow> bool \<Rightarrow> allocf \<Rightarrow> ('s \<Rightarrow> buf \<Rightarrow> int \<times> 's) ptr \<Rightarrow> 's \<Rightarrow> PORT \<Rightarrow>
   's NSSBase64Encoder ptr \<times> heap_event list \<times> PORT" where
  "NSSBase64Encoder_Create znew newzap malloc output_fn output_arg port =
     (case PORT_ZNew znew port of (ok, port) \<Rightarrow>
        if \<not> ok then (None, [], port)
        else case PL_CreateBase64Encoder newzap malloc output_fn output_arg 64 port of
          (None, evs, port) \<Rightarrow> (None, evs @ [Free], port)
        | (Some pl_data, evs, port) \<Rightarrow> (Some \<lparr>nss_encoder = Some pl_data\<rparr>, evs, port))"

definition NSSBase64Encoder_Update ::
  "'s NSSBase64Encoder ptr \<Rightarrow> buf ptr \<Rightarrow> u32 \<Rightarrow> PORT \<Rightarrow> (SECStatus \<times> 's NSSBase64Encoder ptr \<times> PORT) exec" where
  "NSSBase64Encoder_Update data buffer nbytes port = (case data of
     None \<Rightarrow> Some (SECFailure, None, PORT_SetError SEC_ERROR_INVALID_ARGS port)
   | Some d \<Rightarrow> do {
       (pr_status, pl_data, port) \<leftarrow> PL_UpdateBase64Encoder (nss_encoder d) buffer nbytes port;
       Some (if pr_status = PR_FAILURE then SECFailure else SECSuccess, Some (d\<lparr>nss_encoder := pl_data\<rparr>), port) })"

definition NSSBase64Encoder_Destroy ::
  "'s NSSBase64Encoder ptr \<Rightarrow> bool \<Rightarrow> PORT \<Rightarrow> (SECStatus \<times> 's ptr \<times> heap_event list \<times> PORT) exec" where
  "NSSBase64Encoder_Destroy data abort_p port = (case data of
     None \<Rightarrow> Some (SECFailure, None, [], PORT_SetError SEC_ERROR_INVALID_ARGS port)
   | Some d \<Rightarrow> do {
       (pr_status, arg, evs, port) \<leftarrow> PL_DestroyBase64Encoder (nss_encoder d) abort_p port;
       Some (if pr_status = PR_FAILURE then SECFailure else SECSuccess, arg, evs @ [Free], port) })"

text \<open>The result: whether a string is returned, what the output string holds, the events.\<close>

definition NSSBase64_EncodeItem ::
  "bool \<Rightarrow> allocf \<Rightarrow> allocf ptr \<Rightarrow> buf ptr \<Rightarrow> u32 \<Rightarrow> SECItem ptr \<Rightarrow> PORT \<Rightarrow>
   (bool \<times> buf ptr \<times> heap_event list \<times> PORT) exec" where
  "NSSBase64_EncodeItem newzap malloc arenaOpt outStrOpt maxOutLen inItem port = (case inItem of
     None \<Rightarrow> Some (False, outStrOpt, [], PORT_SetError SEC_ERROR_INVALID_ARGS port)
   | Some item \<Rightarrow> (case item_data item of
       None \<Rightarrow> Some (False, outStrOpt, [], PORT_SetError SEC_ERROR_INVALID_ARGS port)
     | Some inb \<Rightarrow>
         if item_len item = 0 then Some (False, outStrOpt, [], PORT_SetError SEC_ERROR_INVALID_ARGS port)
         else
           let len = word_of_nat (item_len item);
               max_out_len = PL_Base64MaxEncodedLength len 64;
               mark = (if arenaOpt \<noteq> None then [Mark] else []);
               (out_string, port) =
                 (if outStrOpt = None then alloc_from malloc arenaOpt (unat (max_out_len + 1)) port else (outStrOpt, port))
           in if out_string = None then
                Some (False, None, mark @ (if arenaOpt \<noteq> None then [Release] else []), port)
              else if outStrOpt \<noteq> None \<and> max_out_len + 1 > maxOutLen then
                Some (False, outStrOpt, mark, PORT_SetError SEC_ERROR_OUTPUT_LEN port)
              else
                let max_out_len = (if outStrOpt \<noteq> None then maxOutLen else max_out_len) in do {
                  (dummy, out_string, out_len, evs, port) \<leftarrow>
                    PL_Base64EncodeBuffer newzap malloc inb len 64 out_string max_out_len port;
                  if \<not> dummy then
                    Some (False, if outStrOpt = None then None else out_string,
                      mark @ evs @ (if arenaOpt \<noteq> None then [Release] else [Free]), port)
                  else do {
                    s \<leftarrow> out_string;
                    out_len \<leftarrow> out_len;
                    s \<leftarrow> wr s (unat out_len) 0;
                    Some (True, Some s, mark @ evs @ (if arenaOpt \<noteq> None then [Unmark] else []), port) } }))"

definition BTOA_DataToAscii ::
  "bool \<Rightarrow> allocf \<Rightarrow> buf ptr \<Rightarrow> u32 \<Rightarrow> PORT \<Rightarrow> (bool \<times> buf ptr \<times> heap_event list \<times> PORT) exec" where
  "BTOA_DataToAscii newzap malloc data len port =
     NSSBase64_EncodeItem newzap malloc None None 0
       (Some \<lparr>item_type = siBuffer, item_data = data, item_len = unat len\<rparr>) port"

definition BTOA_ConvertItemToAscii ::
  "bool \<Rightarrow> allocf \<Rightarrow> SECItem ptr \<Rightarrow> PORT \<Rightarrow> (bool \<times> buf ptr \<times> heap_event list \<times> PORT) exec" where
  "BTOA_ConvertItemToAscii newzap malloc binary_item port =
     NSSBase64_EncodeItem newzap malloc None None 0 binary_item port"

section \<open>The text an encoder stands for\<close>

text \<open>The tokens of the whole groups of three bytes, and the bytes that are left.\<close>

fun toks :: "buf \<Rightarrow> buf list" where
  "toks (a # b # c # xs) = b64 [a, b, c] # toks xs"
| "toks xs = []"

fun keep :: "buf \<Rightarrow> buf" where
  "keep (a # b # c # xs) = keep xs"
| "keep xs = xs"

text \<open>Tokens in lines of \<open>m\<close> tokens, with \<open>CR LF\<close> between them; no line breaks for \<open>m = 0\<close>.\<close>

definition break_at :: "nat \<Rightarrow> nat \<Rightarrow> buf" where
  "break_at m k = (if 0 < m \<and> 0 < k \<and> k mod m = 0 then [13, 10] else [])"

definition token_lines :: "nat \<Rightarrow> buf list \<Rightarrow> buf" where
  "token_lines m ts = concat (map (\<lambda>k. break_at m k @ ts ! k) [0..<length ts])"

definition b64_tokens :: "buf \<Rightarrow> buf list" where
  "b64_tokens xs = toks xs @ (if keep xs = [] then [] else [b64 (keep xs)])"

definition b64_lines :: "nat \<Rightarrow> buf \<Rightarrow> buf" where
  "b64_lines m xs = token_lines m (b64_tokens xs)"

lemma token_lines_Nil [simp]: "token_lines m [] = []"
  by (simp add: token_lines_def)

lemma token_lines_snoc: "token_lines m (ts @ [t]) = token_lines m ts @ break_at m (length ts) @ t"
proof -
  have "map (\<lambda>k. break_at m k @ (ts @ [t]) ! k) [0..<length ts] = map (\<lambda>k. break_at m k @ ts ! k) [0..<length ts]"
    by (simp add: nth_append)
  from arg_cong [OF this, of concat] show ?thesis
    unfolding token_lines_def by (simp del: map_eq_conv)
qed

lemma concat_tokens: "concat (b64_tokens xs) = b64 xs"
  by (induction xs rule: toks.induct) (auto simp: b64_tokens_def Let_def)

lemma toks_append: "toks (xs @ ys) = toks xs @ toks (keep xs @ ys)"
  and keep_append: "keep (xs @ ys) = keep (keep xs @ ys)"
  by (induction xs rule: toks.induct) simp_all

lemma length_keep: "length (keep xs) = length xs mod 3"
  by (induction xs rule: keep.induct) simp_all

lemma keep_short: "length xs < 3 \<Longrightarrow> keep xs = xs \<and> toks xs = []"
  by (cases xs rule: keep.cases) simp_all

lemma toks_whole:
  assumes "length zs mod 3 = 0" "length ws < 3"
  shows "toks (zs @ ws) = toks zs" "keep (zs @ ws) = ws"
proof -
  have "keep zs = []" using assms(1) length_keep [of zs] by simp
  then show "toks (zs @ ws) = toks zs" "keep (zs @ ws) = ws"
    using keep_short [OF assms(2)] by (simp_all add: toks_append [of zs] keep_append [of zs])
qed

lemma length_toks: "length (toks xs) = length xs div 3"
  by (induction xs rule: toks.induct) simp_all

lemma length_token: "t \<in> set (b64_tokens xs) \<Longrightarrow> length t = 4"
  by (induction xs rule: toks.induct) (auto simp: b64_tokens_def Let_def split: if_splits)

lemma length_b64_tokens: "length (b64_tokens xs) = (length xs + 2) div 3"
  by (induction xs rule: toks.induct) (auto simp: b64_tokens_def)

lemma breaks_count:
  assumes "0 < m"
  shows "(\<Sum>k<n. length (break_at m k)) = 2 * ((n - 1) div m)"
proof (induction n)
  case (Suc n)
  show ?case
  proof (cases n)
    case 0
    then show ?thesis by (simp add: break_at_def)
  next
    case s: (Suc n')
    have "n div m = (n - 1) div m + (if n mod m = 0 then 1 else 0)"
      using assms div_Suc [of n' m] by (simp add: s)
    then show ?thesis using Suc assms by (simp add: break_at_def s)
  qed
qed simp

lemma length_token_lines:
  "\<forall>t\<in>set ts. length t = 4 \<Longrightarrow> length (token_lines m ts) = 4 * length ts + (\<Sum>k<length ts. length (break_at m k))"
proof (induction ts rule: rev_induct)
  case (snoc t ts)
  then show ?case by (simp add: token_lines_snoc)
qed simp

section \<open>Numbers\<close>

definition bytes_value :: "nat \<Rightarrow> buf \<Rightarrow> nat" where
  "bytes_value v xs = foldl (\<lambda>v x. v * 256 + unat x) v xs"

text \<open>The four characters of a number of 24 bits.\<close>

definition quad :: "nat \<Rightarrow> buf" where
  "quad v = map (\<lambda>j. b64_char (v div 2 ^ j)) [18, 12, 6, 0]"

lemma quad_eq: "quad v = [b64_char (v div 262144), b64_char (v div 4096), b64_char (v div 64), b64_char v]"
  by (simp add: quad_def)

lemma quad_b64: "bytes_value 0 [a, b, c] = v \<Longrightarrow> quad v = b64 [a, b, c]"
  by (auto simp: quad_eq bytes_value_def Let_def algebra_simps)

lemma quad_pad:
  "(quad (unat a * 65536))[2 := B64_PAD, 3 := B64_PAD] = b64 [a]"
  "(quad (unat a * 65536 + unat b * 256))[3 := B64_PAD] = b64 [a, b]"
proof -
  have p: "chr_of CHR ''='' = B64_PAD" by (simp add: B64_PAD_def chr_of_def)
  have "unat a * 65536 div 262144 = unat a * 16 div 64" "unat a * 65536 div 4096 = unat a * 16"
    using div_mult_mult2 [of 4096 "unat a * 16" 64] by simp_all
  then show "(quad (unat a * 65536))[2 := B64_PAD, 3 := B64_PAD] = b64 [a]"
    by (simp add: quad_eq Let_def p numeral_3_eq_3 numeral_2_eq_2 mult.commute)
  have "(unat a * 65536 + unat b * 256) div 262144 = (unat a * 256 + unat b) * 4 div 4096"
    "(unat a * 65536 + unat b * 256) div 4096 = (unat a * 256 + unat b) * 4 div 64"
    "(unat a * 65536 + unat b * 256) div 64 = (unat a * 256 + unat b) * 4"
    using div_mult_mult2 [of 64 "(unat a * 256 + unat b) * 4" 4096] div_mult_mult2 [of 64 "(unat a * 256 + unat b) * 4" 64]
    by (simp_all add: algebra_simps)
  then show "(quad (unat a * 65536 + unat b * 256))[3 := B64_PAD] = b64 [a, b]"
    unfolding quad_eq by (simp only: b64.simps Let_def p) (simp add: numeral_3_eq_3)
qed

lemma e_gather_ok:
  assumes "pos + k \<le> length inb" "(unat n + 1) * 256 ^ k \<le> 4294967296"
  shows "\<exists>n'. e_gather k n inb pos = Some (n', pos + k) \<and> unat n' = bytes_value (unat n) (take k (drop pos inb))"
  using assms
proof (induction k n inb pos rule: e_gather.induct)
  case (1 n inb pos)
  then show ?case by (simp add: bytes_value_def)
next
  case (2 k n inb pos)
  have p: "pos < length inb" using 2(2) by simp
  have le: "(unat n + 1) * 256 * 256 ^ k \<le> 4294967296" using 2(3) by (simp add: algebra_simps)
  then have "(unat n + 1) * 256 * 1 \<le> 4294967296"
    by (meson le_trans mult_le_mono2 one_le_numeral one_le_power)
  then have u: "unat (push_bit 8 n OR ucast (inb ! pos)) = unat n * 256 + unat (inb ! pos)"
    by (intro gather3_step) simp
  have "(unat n * 256 + unat (inb ! pos) + 1) * 256 ^ k \<le> (unat n + 1) * 256 * 256 ^ k"
    using unat_byte_less [of "inb ! pos"] by (intro mult_le_mono1) simp
  then have "(unat (push_bit 8 n OR ucast (inb ! pos)) + 1) * 256 ^ k \<le> 4294967296" using le unfolding u by linarith
  then obtain n' where "e_gather k (push_bit 8 n OR ucast (inb ! pos)) inb (pos + 1) = Some (n', pos + 1 + k)"
    "unat n' = bytes_value (unat n * 256 + unat (inb ! pos)) (take k (drop (pos + 1) inb))"
    using 2(1) [OF rd_ok [OF p]] 2(2) u by auto
  moreover have "take (Suc k) (drop pos inb) = inb ! pos # take k (drop (pos + 1) inb)"
    using p by (simp add: Cons_nth_drop_Suc [symmetric])
  ultimately show ?case using p by (simp add: rd_ok bytes_value_def)
qed

section \<open>The output buffer\<close>

text \<open>The populated part of the output buffer is \<open>T\<close>.\<close>

definition holds :: "'s PLBase64Encoder \<Rightarrow> buf \<Rightarrow> bool" where
  "holds data T \<longleftrightarrow> (\<exists>b. e_output_buffer data = Some b \<and> unat (e_output_buflen data) \<le> length b \<and>
     unat (e_output_length data) = length T \<and> length T \<le> unat (e_output_buflen data) \<and> take (length T) b = T)"

text \<open>The fields that writing does not change, and the size of the buffer.\<close>

abbreviation room_of :: "'s PLBase64Encoder \<Rightarrow> nat option" where
  "room_of data \<equiv> map_option length (e_output_buffer data)"

definition same_setup :: "'s PLBase64Encoder \<Rightarrow> 's PLBase64Encoder \<Rightarrow> bool" where
  "same_setup d e \<longleftrightarrow> e_in_buffer d = e_in_buffer e \<and> e_in_buffer_count d = e_in_buffer_count e \<and>
     e_line_length d = e_line_length e \<and> e_output_fn d = e_output_fn e \<and> e_output_buflen d = e_output_buflen e \<and>
     room_of d = room_of e"

lemma same_setup_refl [simp]: "same_setup d d"
  by (simp add: same_setup_def)

lemma same_setup_trans: "same_setup a b \<Longrightarrow> same_setup b c \<Longrightarrow> same_setup a c"
  by (simp add: same_setup_def)

lemma e_put_ok: "e_output_buffer data = Some b \<Longrightarrow> out < length b \<Longrightarrow>
    e_put c (data, out) = Some (data\<lparr>e_output_buffer := Some (overlay b out [c])\<rparr>, out + 1)"
  by (simp add: e_put_def e_set_def wr_ok overlay_Cons)

lemma e_digits_ok:
  assumes "e_output_buffer data = Some b" "out + length js \<le> length b"
  shows "e_digits js n (data, out) = Some (data\<lparr>e_output_buffer :=
    Some (overlay b out (map (\<lambda>j. b64_char (unat n div 2 ^ j)) js))\<rparr>, out + length js)"
  using assms
proof (induction js arbitrary: data b out)
  case Nil
  then show ?case by simp
next
  case (Cons j js)
  have "base64_valuetocode = base" by (simp add: base64_valuetocode_def base_def)
  then have r: "rd base64_valuetocode (unat (drop_bit j n AND 0x3F)) = Some (b64_char (unat n div 2 ^ j))"
    unfolding mask_literals unat_and_mask unat_drop_bit using rd_base by simp
  let ?c = "b64_char (unat n div 2 ^ j)"
  let ?b = "overlay b out [?c]"
  have lb: "length ?b = length b" using Cons(3) by (simp add: length_overlay)
  have "e_digits js n (data\<lparr>e_output_buffer := Some ?b\<rparr>, out + 1) = Some (data\<lparr>e_output_buffer :=
      Some (overlay ?b (out + 1) (map (\<lambda>j. b64_char (unat n div 2 ^ j)) js))\<rparr>, out + 1 + length js)"
    using Cons(1) [of "data\<lparr>e_output_buffer := Some ?b\<rparr>" ?b "out + 1"] Cons(3) lb by simp
  moreover have "overlay ?b (out + 1) (map (\<lambda>j. b64_char (unat n div 2 ^ j)) js) =
      overlay b out (map (\<lambda>j. b64_char (unat n div 2 ^ j)) (j # js))"
    using overlay_append [of out "[?c]" b] Cons(3) by simp
  ultimately show ?case using r e_put_ok [OF Cons(2), of out ?c] Cons(3) by simp
qed

lemma holds_more:
  assumes "holds data T" "e_output_buffer data = Some b" "length T + length x \<le> unat (e_output_buflen data)"
    "unat l = length T + length x"
  shows "holds (data\<lparr>e_output_buffer := Some (overlay b (length T) x), e_output_length := l, e_current_column := c\<rparr>) (T @ x)"
  using assms take_overlay [of "length T" x b] by (auto simp: holds_def length_overlay)

text \<open>The column after \<open>k\<close> tokens in lines of \<open>m\<close>.\<close>

definition column :: "nat \<Rightarrow> nat \<Rightarrow> nat" where
  "column m k = (if m = 0 \<or> k = 0 then 0 else 4 * ((k - 1) mod m + 1))"

lemma column_le: "column m k \<le> 4 * m"
proof (cases "m = 0")
  case False
  then have "(k - 1) mod m < m" by simp
  then show ?thesis by (simp add: column_def)
qed (simp add: column_def)

lemma column_full: "0 < m \<Longrightarrow> 0 < k \<Longrightarrow> column m k = 4 * m \<longleftrightarrow> k mod m = 0"
  using mod_Suc [of "k - 1" m] mod_less_divisor [of m "k - 1"] by (auto simp: column_def)

lemma column_Suc: "0 < m \<Longrightarrow> column m (Suc k) = (if 0 < k \<and> k mod m = 0 then 4 else column m k + 4)"
  using mod_Suc [of "k - 1" m] by (cases k) (auto simp: column_def)

text \<open>\<open>k\<close> tokens have been written, of lines of \<open>m\<close>.\<close>

definition at_column :: "nat \<Rightarrow> nat \<Rightarrow> 's PLBase64Encoder \<Rightarrow> bool" where
  "at_column m k data \<longleftrightarrow> 4 * m < 2 ^ 32 \<and> unat (e_line_length data) = 4 * m \<and> unat (e_current_column data) = column m k"

lemma e_line_break_ok:
  assumes "holds data T" "at_column m k data" "0 < m" "length T + length (break_at m k) \<le> unat (e_output_buflen data)"
  shows "\<exists>b d. e_output_buffer data = Some b \<and>
    d = data\<lparr>e_output_buffer := Some (overlay b (length T) (break_at m k)),
      e_output_length := e_output_length data + word_of_nat (length (break_at m k)),
      e_current_column := (if break_at m k = [] then e_current_column data else 0)\<rparr> \<and>
    e_line_break (data, length T) = Some (d, length (T @ break_at m k))"
proof -
  obtain b where b: "e_output_buffer data = Some b" "unat (e_output_buflen data) \<le> length b" using assms(1) by (auto simp: holds_def)
  have u: "e_current_column data \<ge> e_line_length data \<longleftrightarrow> break_at m k \<noteq> []"
    using assms(2,3) column_le [of m k] column_full [of m k]
    by (auto simp: at_column_def word_le_nat_alt break_at_def column_def)
  show ?thesis
  proof (cases "break_at m k = []")
    case True
    then show ?thesis using b u by (simp add: e_line_break_def)
  next
    case False
    then have br: "break_at m k = [B64_CR, B64_LF]" by (auto simp: break_at_def B64_CR_def B64_LF_def split: if_splits)
    have l: "length T + 2 \<le> length b" using assms(4) b(2) by (simp add: br)
    let ?b1 = "overlay b (length T) [B64_CR]"
    have "overlay ?b1 (length T + 1) [B64_LF] = overlay b (length T) [B64_CR, B64_LF]"
      using overlay_append [of "length T" "[B64_CR]" b "[B64_LF]"] l by simp
    moreover have "length ?b1 = length b" using l by (simp add: length_overlay)
    ultimately show ?thesis
      using u False b(1) l e_put_ok [of "data\<lparr>e_current_column := 0\<rparr>" b "length T" B64_CR]
        e_put_ok [of "data\<lparr>e_current_column := 0, e_output_buffer := Some ?b1\<rparr>" ?b1 "length T + 1" B64_LF]
      by (simp add: e_line_break_def br)
  qed
qed

lemma e_token_ok:
  assumes "holds data T" "at_column m k data" "length T + length (break_at m k) + 4 \<le> unat (e_output_buflen data)"
  shows "\<exists>d. e_token data n (length T) = Some (d, unat (e_output_length d)) \<and> holds d (T @ break_at m k @ quad (unat n)) \<and>
    at_column m (Suc k) d \<and> same_setup d data \<and> e_output_arg d = e_output_arg data"
proof -
  obtain b where b: "e_output_buffer data = Some b" "unat (e_output_buflen data) \<le> length b"
    "unat (e_output_length data) = length T"
    using assms(1) by (auto simp: holds_def)
  let ?br = "break_at m k" and ?q = "quad (unat n)"
  define c where "c = (if m = 0 then e_current_column data else (if ?br = [] then e_current_column data else 0) + 4)"
  define d1 where "d1 = data\<lparr>e_output_buffer := Some (overlay b (length T) ?br),
    e_output_length := e_output_length data + word_of_nat (length ?br), e_current_column := c\<rparr>"
  have lb: "length ?br \<le> 2" by (simp add: break_at_def)
  have big: "unat (e_output_buflen data) < 4294967296" using unsigned_less [of "e_output_buflen data"] by simp
  have ll: "e_line_length data > 0 \<longleftrightarrow> 0 < m" using assms(2) by (auto simp: at_column_def word_less_nat_alt)
  have lines: "(if e_line_length data > 0 then do {
         (data, out) \<leftarrow> e_line_break (data, length T);
         Some (data\<lparr>e_current_column := e_current_column data + 4\<rparr>, out) }
       else Some (data, length T)) = Some (d1, length (T @ ?br))"
  proof (cases "0 < m")
    case True
    then show ?thesis using e_line_break_ok [OF assms(1,2) True] assms(3) b(1) ll by (auto simp: d1_def c_def)
  next
    case False
    then have br: "?br = []" by (simp add: break_at_def)
    show ?thesis using False ll b(1) unfolding d1_def c_def br by simp
  qed
  have q: "length ?q = 4" by (simp add: quad_def)
  have b1: "e_output_buffer d1 = Some (overlay b (length T) ?br)" by (simp add: d1_def)
  have ov: "overlay (overlay b (length T) ?br) (length (T @ ?br)) ?q = overlay b (length T) (?br @ ?q)"
    using overlay_append [of "length T" ?br b ?q] assms(3) b(2) by (simp add: q)
  define d where "d = data\<lparr>e_output_buffer := Some (overlay b (length T) (?br @ ?q)),
    e_output_length := e_output_length data + word_of_nat (length ?br) + 4, e_current_column := c\<rparr>"
  have dig: "e_digits [18, 12, 6, 0] n (d1, length (T @ ?br)) =
      Some (d1\<lparr>e_output_buffer := Some (overlay b (length T) (?br @ ?q))\<rparr>, length (T @ ?br) + 4)"
    using e_digits_ok [OF b1, of "length (T @ ?br)" "[18, 12, 6, 0]" n] assms(3) b(2) ov
    by (simp add: length_overlay quad_def)
  have wb: "unat (word_of_nat (length ?br) :: u32) = length ?br" using lb by (simp add: unat_of_nat)
  have u: "unat (e_output_length data + word_of_nat (length ?br) + 4) = length T + length ?br + 4"
    using assms(3) big b(3) wb by (simp add: unat_word_ariths)
  have e: "e_token data n (length T) = Some (d, length (T @ ?br) + 4)"
  proof -
    have "d1\<lparr>e_output_buffer := Some (overlay b (length T) (?br @ ?q)), e_output_length := e_output_length d1 + 4\<rparr> = d"
      by (simp add: d_def d1_def)
    then show ?thesis unfolding e_token_def lines by (simp add: dig [unfolded length_append] del: e_digits.simps)
  qed
  have h: "holds d (T @ ?br @ ?q)"
    using holds_more [OF assms(1) b(1), of "?br @ ?q" "e_output_length data + word_of_nat (length ?br) + 4" c] u assms(3) q
    by (simp add: d_def)
  have "at_column m (Suc k) d"
  proof (cases "m = 0")
    case True
    then show ?thesis using assms(2) by (simp add: at_column_def d_def c_def column_def)
  next
    case False
    have "unat (e_current_column data) = column m k" "4 * m < 4294967296" using assms(2) by (auto simp: at_column_def)
    moreover have "?br \<noteq> [] \<longleftrightarrow> 0 < k \<and> k mod m = 0" using False by (simp add: break_at_def)
    moreover have "column m (Suc k) \<le> 4 * m" by (rule column_le)
    ultimately have "unat c = column m (Suc k)"
      using False column_Suc [of m k] by (auto simp: c_def unat_word_ariths)
    then show ?thesis using assms(2) by (simp add: at_column_def d_def)
  qed
  moreover have "room_of d = room_of data" using b assms(3) q by (simp add: d_def length_overlay)
  ultimately show ?thesis using e h u by (intro exI [of _ d]) (simp add: d_def same_setup_def)
qed

lemma bytes_value_less: "bytes_value 0 xs < 256 ^ length xs"
proof (induction xs rule: rev_induct)
  case Nil
  then show ?case by (simp add: bytes_value_def)
next
  case (snoc x xs)
  have "bytes_value 0 xs * 256 + unat x < (bytes_value 0 xs + 1) * 256" using unat_byte_less [of x] by simp
  also have "\<dots> \<le> 256 ^ length xs * 256" using snoc by (intro mult_le_mono1) simp
  finally show ?case by (simp add: bytes_value_def mult.commute)
qed

lemma three: "length xs = 3 \<Longrightarrow> \<exists>x y z. xs = [x, y, z]"
  by (auto simp: numeral_3_eq_3 length_Suc_conv)

lemma bytes_value_append: "bytes_value v (xs @ ys) = bytes_value (bytes_value v xs) ys"
  by (simp add: bytes_value_def)

section \<open>The bytes kept for the next call\<close>

definition held :: "'s PLBase64Encoder \<Rightarrow> buf \<Rightarrow> bool" where
  "held data xs \<longleftrightarrow> length (e_in_buffer data) = 2 \<and> e_in_buffer_count data = length (keep xs) \<and>
     take (length (keep xs)) (e_in_buffer data) = keep xs"

lemma two_elements: "length xs = 2 \<Longrightarrow> \<exists>x y. xs = [x, y]"
  by (auto simp: numeral_2_eq_2 length_Suc_conv)

lemma at_most_two: "length xs < 3 \<Longrightarrow> xs = [] \<or> (\<exists>x. xs = [x]) \<or> (\<exists>x y. xs = [x, y])"
  by (cases xs; cases "tl xs"; cases "tl (tl xs)") auto

lemma same_count: "e_in_buffer_count data = 0 \<Longrightarrow> data\<lparr>e_in_buffer_count := 0\<rparr> = data"
  by (cases data) simp

lemma start_ok:
  assumes "held data xs"
  shows "\<exists>n. (if e_in_buffer_count data > 0 then do {
            a \<leftarrow> rd (e_in_buffer data) 0;
            n \<leftarrow> (if e_in_buffer_count data > 1
                 then do { b \<leftarrow> rd (e_in_buffer data) 1; Some (push_bit 8 (ucast a) OR ucast b) }
                 else Some (ucast a));
            Some (n, data\<lparr>e_in_buffer_count := 0\<rparr>) }
          else Some (0, data)) = Some (n :: u32, data\<lparr>e_in_buffer_count := 0\<rparr>) \<and> unat n = bytes_value 0 (keep xs)"
proof -
  obtain x y where ib: "e_in_buffer data = [x, y]" using assms two_elements [of "e_in_buffer data"] by (auto simp: held_def)
  have "length (keep xs) < 3" by (simp add: length_keep)
  then consider "keep xs = []" | a where "keep xs = [a]" | a b where "keep xs = [a, b]" using at_most_two by blast
  then show ?thesis
  proof cases
    case 1
    then show ?thesis using assms by (simp add: held_def same_count bytes_value_def)
  next
    case (2 a)
    then have "x = a" using assms ib by (simp add: held_def)
    then show ?thesis using 2 assms ib by (simp add: held_def rd_ok bytes_value_def unat_ucast_byte)
  next
    case (3 a b)
    then have xy: "x = a" "y = b" using assms ib by (simp_all add: held_def)
    have "unat (push_bit 8 (ucast a) OR ucast b :: u32) = unat (ucast a :: u32) * 256 + unat b"
      using unat_byte_less [of a] by (intro gather3_step) (simp add: unat_ucast_byte)
    then show ?thesis using 3 assms ib xy by (simp add: held_def rd_ok bytes_value_def unat_ucast_byte)
  qed
qed

lemma rest_ok:
  assumes "e_in_buffer_count data = 0" "length (e_in_buffer data) = 2" "rest < 3" "stop + rest \<le> length inb"
  shows "\<exists>ib. (if rest > 0 then do {
            a \<leftarrow> rd inb stop;
            ib \<leftarrow> wr (e_in_buffer data) 0 a;
            ib \<leftarrow> (if rest > 1 then do { b \<leftarrow> rd inb (stop + 1); wr ib 1 b } else Some ib);
            Some (data\<lparr>e_in_buffer := ib, e_in_buffer_count := rest\<rparr>) }
          else Some data) = Some (data\<lparr>e_in_buffer := ib, e_in_buffer_count := rest\<rparr>) \<and>
    length ib = 2 \<and> take rest ib = take rest (drop stop inb)"
proof -
  obtain x y where ib: "e_in_buffer data = [x, y]" using assms(2) two_elements by blast
  consider "rest = 0" | "rest = 1" | "rest = 2" using assms(3) by linarith
  then show ?thesis
  proof cases
    case 1
    then show ?thesis using assms(1,2) by (intro exI [of _ "e_in_buffer data"]) (cases data, simp)
  next
    case 2
    then show ?thesis using assms(4) ib
      by (intro exI [of _ "[inb ! stop, y]"]) (simp add: rd_ok wr_ok take_Suc_conv_app_nth [of 0, simplified] Cons_nth_drop_Suc [symmetric])
  next
    case 3
    then show ?thesis using assms(4) ib
      by (intro exI [of _ "[inb ! stop, inb ! Suc stop]"])
        (simp add: rd_ok wr_ok numeral_2_eq_2 Cons_nth_drop_Suc [symmetric])
  qed
qed

section \<open>Writing tokens\<close>

text \<open>
  What the two ways of writing have in common: \<open>R data ts\<close> says that the tokens \<open>ts\<close> are written, and \<open>room k\<close> that
  the \<open>k\<close>-th token may be written.
\<close>

locale token_writer =
  fixes R :: "'s PLBase64Encoder \<Rightarrow> buf list \<Rightarrow> bool" and room :: "nat \<Rightarrow> bool"
  assumes step: "R data ts \<Longrightarrow> room (Suc (length ts)) \<Longrightarrow> (again \<longrightarrow> room (Suc (Suc (length ts)))) \<Longrightarrow>
      \<exists>d1 d2. e_token data n (unat (e_output_length data)) = Some (d1, unat (e_output_length d1)) \<and>
        e_spill d1 (unat (e_output_length d1)) again (e_output_buflen data - 3) port = Some (Inr (d2, unat (e_output_length d2))) \<and>
        R d2 (ts @ [quad (unat n)]) \<and> same_setup d2 data"
    and in_buffer: "R data ts \<Longrightarrow> R (data\<lparr>e_in_buffer := ib\<rparr>) ts" "R data ts \<Longrightarrow> R (data\<lparr>e_in_buffer_count := c\<rparr>) ts"
    and room_down: "room (Suc k) \<Longrightarrow> room k"
begin

lemma room_le: "room k \<Longrightarrow> j \<le> k \<Longrightarrow> room j"
proof (induction k)
  case (Suc k)
  then show ?case using room_down [of k] le_Suc_eq [of j k] by blast
qed simp

lemma loop_ok:
  assumes "R data ts" "stop \<le> length inb" "length pre \<le> 2" "unat n = bytes_value 0 pre" "pos \<le> stop"
    "pos < stop \<or> pre = []" "(length pre + (stop - pos)) mod 3 = 0" "room (length ts + (length pre + (stop - pos)) div 3)"
  shows "\<exists>d. e_loop data inb pos stop (length pre) n (unat (e_output_length data)) (e_output_buflen data - 3) port =
      Some (PR_SUCCESS, d, port) \<and> R d (ts @ toks (pre @ take (stop - pos) (drop pos inb))) \<and> same_setup d data"
  using assms
proof (induction "stop - pos" arbitrary: data ts pre n pos rule: less_induct)
  case less
  show ?case
  proof (cases "pos < stop")
    case False
    then show ?thesis using less.prems by (auto simp: e_loop.simps)
  next
    case True
    let ?k = "3 - length pre"
    have k: "pos + ?k \<le> stop" "?k > 0" using True less.prems(3,7) by presburger+
    let ?g = "take ?k (drop pos inb)"
    let ?grp = "pre @ ?g"
    have lg: "length ?grp = 3" using k less.prems(2,3) by auto
    have "(unat n + 1) * 256 ^ ?k \<le> 256 ^ length pre * 256 ^ ?k"
      using bytes_value_less [of pre] less.prems(4) by (intro mult_le_mono1) simp
    also have "\<dots> = 256 ^ 3" using less.prems(3) by (simp flip: power_add)
    finally have "(unat n + 1) * 256 ^ ?k \<le> 4294967296" by simp
    then obtain n' where n': "e_gather ?k n inb pos = Some (n', pos + ?k)" "unat n' = bytes_value 0 ?grp"
      using e_gather_ok [of pos ?k inb n] k less.prems(2,4) by (auto simp: bytes_value_append)
    obtain x y z where xyz: "?grp = [x, y, z]" using three [OF lg] by blast
    then have q: "quad (unat n') = b64 ?grp" using quad_b64 n'(2) by simp
    let ?pos = "pos + ?k"
    have r: "(stop - ?pos) mod 3 = 0" "(length pre + (stop - pos)) div 3 = Suc ((stop - ?pos) div 3)"
    proof -
      have "length pre + (stop - pos) = 3 + (stop - ?pos)" using k less.prems(3) by linarith
      then show "(stop - ?pos) mod 3 = 0" "(length pre + (stop - pos)) div 3 = Suc ((stop - ?pos) div 3)"
        using less.prems(7) by simp_all
    qed
    have sm: "stop - ?pos < stop - pos" using k True by arith
    have again: "?pos < stop \<longrightarrow> room (Suc (Suc (length ts)))"
    proof
      assume "?pos < stop"
      then have "(stop - ?pos) div 3 \<ge> 1" using r(1) by presburger
      then show "room (Suc (Suc (length ts)))" using room_le [OF less.prems(8)] r(2) by simp
    qed
    have one: "room (Suc (length ts))" using room_le [OF less.prems(8)] r(2) by simp
    obtain d1 d2 where d: "e_token data n' (unat (e_output_length data)) = Some (d1, unat (e_output_length d1))"
      "e_spill d1 (unat (e_output_length d1)) (?pos < stop) (e_output_buflen data - 3) port =
        Some (Inr (d2, unat (e_output_length d2)))"
      "R d2 (ts @ [quad (unat n')])" "same_setup d2 data"
      using step [OF less.prems(1) one again] by blast
    have "e_loop data inb pos stop (length pre) n (unat (e_output_length data)) (e_output_buflen data - 3) port =
        e_loop d2 inb ?pos stop 0 0 (unat (e_output_length d2)) (e_output_buflen d2 - 3) port"
      using True n'(1) d by (subst e_loop.simps) (simp add: same_setup_def)
    moreover obtain d' where "e_loop d2 inb ?pos stop (length []) 0 (unat (e_output_length d2)) (e_output_buflen d2 - 3) port =
        Some (PR_SUCCESS, d', port)"
      "R d' ((ts @ [quad (unat n')]) @ toks ([] @ take (stop - ?pos) (drop ?pos inb)))" "same_setup d' d2"
      using less.hyps [OF sm, of d2 "ts @ [quad (unat n')]" "[]" 0] k r less.prems(2,8) d(3) True
      by (auto simp: bytes_value_def)
    moreover have "toks (pre @ take (stop - pos) (drop pos inb)) = quad (unat n') # toks (take (stop - ?pos) (drop ?pos inb))"
    proof -
      have "take (stop - pos) (drop pos inb) = ?g @ take (stop - ?pos) (drop ?pos inb)"
        using k take_add [of ?k "stop - ?pos" "drop pos inb"] by (simp add: add.commute)
      then have "pre @ take (stop - pos) (drop pos inb) = [x, y, z] @ take (stop - ?pos) (drop ?pos inb)" using xyz by simp
      then show ?thesis using q xyz by simp
    qed
    ultimately show ?thesis using same_setup_trans [OF _ d(4)] by auto
  qed
qed

lemma encode_buffer_ok:
  assumes "R data (toks xs)" "held data xs" "0 < unat nbytes" "unat nbytes \<le> length inb" "unat nbytes + 2 < 4294967296"
    "room (length (toks (xs @ take (unat nbytes) inb)))"
  shows "\<exists>d. pl_base64_encode_buffer data inb nbytes port = Some (PR_SUCCESS, d, port) \<and>
    R d (toks (xs @ take (unat nbytes) inb)) \<and> held d (xs @ take (unat nbytes) inb) \<and> room_of d = room_of data"
proof -
  let ?n = "unat nbytes" and ?p = "keep xs" and ?i = "e_in_buffer_count data"
  let ?y = "take ?n inb"
  have i: "?i = length ?p" "?i < 3" "length (e_in_buffer data) = 2" "take ?i (e_in_buffer data) = ?p"
    using assms(2) by (auto simp: held_def length_keep)
  have wi: "unat (3 - word_of_nat ?i :: u32) = 3 - ?i" "unat (nbytes + word_of_nat ?i) = ?n + ?i"
    using i(2) assms(5) by (simp_all add: unat_sub word_le_nat_alt unat_of_nat unat_word_ariths)
  have all: "toks (xs @ ?y) = toks xs @ toks (?p @ ?y)" "keep (xs @ ?y) = keep (?p @ ?y)"
    by (rule toks_append, rule keep_append)
  have ly: "length ?y = ?n" using assms(4) by simp
  show ?thesis
  proof (cases "?n + ?i < 3")
    case True
    then have small: "nbytes < 3 - word_of_nat ?i" unfolding word_less_nat_alt wi(1) by linarith
    have k: "keep (?p @ ?y) = ?p @ ?y" "toks (?p @ ?y) = []" using keep_short [of "?p @ ?y"] True i(1) ly by auto
    obtain u v where ib: "e_in_buffer data = [u, v]" using i(3) two_elements by blast
    have many: "1 < nbytes \<longleftrightarrow> 1 < ?n" by (simp add: word_less_nat_alt)
    have R: "R (data\<lparr>e_in_buffer := ib, e_in_buffer_count := c\<rparr>) (toks xs)" for ib c using in_buffer assms(1) by blast
    obtain a inb' where inb: "inb = a # inb'" using assms(3,4) by (cases inb) auto
    note facts = pl_base64_encode_buffer_def many ib inb toks_append [of xs] keep_append [of xs] held_def Let_def rd_ok wr_ok R
    from True assms(3) consider "?n = 1" "?i = 0" | "?n = 1" "?i = 1" | "?n = 2" "?i = 0" by linarith
    then show ?thesis
    proof cases
      case 1
      then have "keep xs = []" using i(1) by simp
      then show ?thesis using 1 small by (simp add: facts)
    next
      case 2
      then have "keep xs = [u]" using i(1,4) ib by simp
      then show ?thesis using 2 small by (simp add: facts)
    next
      case 3
      then have "keep xs = []" using i(1) by simp
      moreover obtain b inb'' where "inb' = b # inb''" using 3 assms(4) inb by (cases inb') auto
      ultimately show ?thesis using 3 small by (simp add: facts)
    qed
  next
    case False
    then have small: "\<not> nbytes < 3 - word_of_nat ?i" unfolding word_less_nat_alt wi(1) by linarith
    define rest where "rest = (?n + ?i) mod 3"
    define stop where "stop = ?n - rest"
    have r: "rest < 3" "rest \<le> ?n" "stop + rest = ?n" "(?i + stop) mod 3 = 0" "0 < stop \<or> ?i = 0"
      using False i(2) unfolding stop_def rest_def by presburger+
    obtain n where n: "(if ?i > 0 then do {
            a \<leftarrow> rd (e_in_buffer data) 0;
            n \<leftarrow> (if ?i > 1
                 then do { b \<leftarrow> rd (e_in_buffer data) 1; Some (push_bit 8 (ucast a) OR ucast b) }
                 else Some (ucast a));
            Some (n, data\<lparr>e_in_buffer_count := 0\<rparr>) }
          else Some (0, data)) = Some (n :: u32, data\<lparr>e_in_buffer_count := 0\<rparr>)" "unat n = bytes_value 0 ?p"
      using start_ok [OF assms(2)] by blast
    let ?d = "data\<lparr>e_in_buffer_count := 0\<rparr>"
    obtain ib where ib: "(if rest > 0 then do {
            a \<leftarrow> rd inb stop;
            ib \<leftarrow> wr (e_in_buffer ?d) 0 a;
            ib \<leftarrow> (if rest > 1 then do { b \<leftarrow> rd inb (stop + 1); wr ib 1 b } else Some ib);
            Some (?d\<lparr>e_in_buffer := ib, e_in_buffer_count := rest\<rparr>) }
          else Some ?d) = Some (?d\<lparr>e_in_buffer := ib, e_in_buffer_count := rest\<rparr>)"
        "length ib = 2" "take rest ib = take rest (drop stop inb)"
      using rest_ok [of ?d rest stop inb] r i(3) assms(4) by auto
    let ?e = "data\<lparr>e_in_buffer := ib, e_in_buffer_count := rest\<rparr>"
    have split: "?p @ ?y = (?p @ take stop inb) @ take rest (drop stop inb)"
      using r(3) take_add [of stop rest inb] by simp
    have whole: "toks (?p @ ?y) = toks (?p @ take stop inb)" "keep (?p @ ?y) = take rest (drop stop inb)"
      unfolding split using toks_whole [of "?p @ take stop inb" "take rest (drop stop inb)"] r i(1) assms(4) by auto
    have lk: "length (take rest (drop stop inb)) = rest" using r(3) assms(4) by simp
    have lt: "length (toks (xs @ ?y)) = length (toks xs) + (length ?p + stop) div 3"
      using whole(1) all(1) r(3) assms(4) by (simp add: length_toks)
    have R: "R ?e (toks xs)" using in_buffer assms(1) by blast
    obtain d where d: "e_loop ?e inb 0 stop (length ?p) n (unat (e_output_length ?e)) (e_output_buflen ?e - 3) port =
        Some (PR_SUCCESS, d, port)" "R d (toks xs @ toks (?p @ take (stop - 0) (drop 0 inb)))" "same_setup d ?e"
      using loop_ok [OF R, of stop inb ?p n 0 port] r i assms(4,6) n(2) lt by auto
    have "pl_base64_encode_buffer data inb nbytes port = Some (PR_SUCCESS, d, port)"
      using small n(1) ib(1) d(1) i(1)
      unfolding pl_base64_encode_buffer_def Let_def wi(2) rest_def [symmetric] stop_def [symmetric] by simp
    moreover have "held d (xs @ ?y)"
      using d(3) ib(2,3) lk whole(2) all(2) by (simp add: held_def same_setup_def)
    moreover have "room_of d = room_of data" using d(3) by (simp add: same_setup_def)
    ultimately show ?thesis using d(2) whole(1) all(1) by auto
  qed
qed

end

section \<open>The last token\<close>

lemma overlay_update: "i < length x \<Longrightarrow> s + length x \<le> length b \<Longrightarrow> (overlay b s x)[s + i := c] = overlay b s (x[i := c])"
  by (simp add: overlay_def list_update_append)

lemma e_set_ok: "e_output_buffer data = Some b \<Longrightarrow> i < length b \<Longrightarrow>
    e_set i c data = Some (data\<lparr>e_output_buffer := Some (b[i := c])\<rparr>)"
  by (simp add: e_set_def wr_ok)

lemma last_value:
  "unat (push_bit 16 (ucast (a :: byte)) :: u32) = unat a * 65536"
  "unat (push_bit 16 (ucast (a :: byte)) OR push_bit 8 (ucast (b :: byte)) :: u32) = unat a * 65536 + unat b * 256"
proof -
  have b: "unat (push_bit 8 (ucast b) :: u32) = unat b * 256"
    using unat_byte_less [of b] by (simp add: unat_push_bit unat_ucast_byte)
  show "unat (push_bit 16 (ucast a) :: u32) = unat a * 65536"
    using unat_byte_less [of a] by (simp add: unat_push_bit unat_ucast_byte)
  show "unat (push_bit 16 (ucast a) OR push_bit 8 (ucast b) :: u32) = unat a * 65536 + unat b * 256"
    using unat_byte_less [of a] unat_byte_less [of b] b
    by (subst unat_shl_or) (simp_all add: unat_ucast_byte del: push_bit_or)
qed

lemma e_last_token_ok:
  assumes "held data xs" "keep xs \<noteq> []" "holds data T" "at_column m k data"
    "length T + length (break_at m k) + 4 \<le> unat (e_output_buflen data)"
  shows "\<exists>d. e_last_token data = Some d \<and> holds d (T @ break_at m k @ b64 (keep xs)) \<and>
    e_output_fn d = e_output_fn data \<and> e_output_arg d = e_output_arg data \<and> e_in_buffer_count d = 0 \<and>
    room_of d = room_of data"
proof -
  let ?br = "break_at m k" and ?data = "data\<lparr>e_in_buffer_count := 0\<rparr>" and ?p = "keep xs"
  obtain b where b: "e_output_buffer data = Some b" "unat (e_output_buflen data) \<le> length b"
    "unat (e_output_length data) = length T"
    using assms(3) by (auto simp: holds_def)
  have big: "unat (e_output_buflen data) < 4294967296" using unsigned_less [of "e_output_buflen data"] by simp
  have ll: "e_line_length data > 0 \<longleftrightarrow> 0 < m" using assms(4) by (auto simp: at_column_def word_less_nat_alt)
  define c where "c = (if m = 0 then e_current_column data else (if ?br = [] then e_current_column data else 0))"
  define d1 where "d1 = ?data\<lparr>e_output_buffer := Some (overlay b (length T) ?br),
    e_output_length := e_output_length data + word_of_nat (length ?br), e_current_column := c\<rparr>"
  have h: "holds ?data T" and col: "at_column m k ?data" using assms(3,4) by (simp_all add: holds_def at_column_def)
  have lines: "(if e_line_length ?data > 0 then e_line_break (?data, unat (e_output_length ?data))
       else Some (?data, unat (e_output_length ?data))) = Some (d1, length T + length ?br)"
  proof (cases "0 < m")
    case True
    then show ?thesis using e_line_break_ok [OF h col True] assms(5) b ll by (auto simp: d1_def c_def)
  next
    case False
    then have br: "?br = []" by (simp add: break_at_def)
    show ?thesis using False ll b unfolding d1_def c_def br by simp
  qed
  have q: "length (quad v) = 4" for v by (simp add: quad_def)
  have b1: "e_output_buffer d1 = Some (overlay b (length T) ?br)" by (simp add: d1_def)
  have ov: "overlay (overlay b (length T) ?br) (length T + length ?br) x = overlay b (length T) (?br @ x)" for x :: buf
    using overlay_append [of "length T" ?br b x] assms(5) b(2) by simp
  have lb: "length ?br \<le> 2" by (simp add: break_at_def)
  have dig: "e_digits [18, 12, 6, 0] n (d1, length T + length ?br) =
      Some (d1\<lparr>e_output_buffer := Some (overlay b (length T) (?br @ quad (unat n)))\<rparr>, length T + length ?br + 4)" for n
    using e_digits_ok [OF b1, of "length T + length ?br" "[18, 12, 6, 0]" n] assms(5) b(2) ov
    by (simp add: length_overlay quad_def)
  have wb: "unat (word_of_nat (length ?br) :: u32) = length ?br" using lb by (simp add: unat_of_nat)
  have u: "unat (e_output_length data + word_of_nat (length ?br) + 4) = length T + length ?br + 4"
    using assms(5) big b(3) wb by (simp add: unat_word_ariths)
  define res where "res x = ?data\<lparr>e_output_buffer := Some (overlay b (length T) (?br @ x)),
    e_output_length := e_output_length data + word_of_nat (length ?br) + 4, e_current_column := c\<rparr>" for x
  have hres: "holds (res x) (T @ ?br @ x)" if "length x = 4" for x
    using holds_more [OF h, of b "?br @ x" "e_output_length data + word_of_nat (length ?br) + 4" c] b(1) u assms(5) that
    by (simp add: res_def)
  have up: "(overlay b (length T) (?br @ x))[length T + length ?br + i := v] = overlay b (length T) (?br @ x[i := v])"
    if "i < 4" "length x = 4" for i v x
    using overlay_update [of "length ?br + i" "?br @ x" "length T" b v] that assms(5) b(2) by (simp add: add.assoc list_update_append)
  have up3: "(overlay b (length T) (?br @ x))[3 + (length T + length ?br) := v] = overlay b (length T) (?br @ x[3 := v])"
    if "length x = 4" for v x
    using up [of 3 x v] that by (simp add: add.commute)
  have lov: "length (overlay b (length T) (?br @ x)) = length b" if "length x = 4" for x
    using that assms(5) b(2) by (simp add: length_overlay)
  have "length ?p < 3" by (simp add: length_keep)
  then consider x where "?p = [x]" | x y where "?p = [x, y]" using at_most_two assms(2) by blast
  then have "e_last_token data = Some (res (b64 ?p)) \<and> length (b64 ?p) = 4"
  proof cases
    case 1
    let ?v = "push_bit 16 (ucast x) :: u32"
    obtain y where ib: "e_in_buffer data = [x, y]" "e_in_buffer_count data = 1"
      using assms(1) 1 two_elements [of "e_in_buffer data"] by (auto simp: held_def)
    have "b64 [x] = (quad (unat ?v))[2 := B64_PAD, 3 := B64_PAD]" using quad_pad(1) last_value(1) by simp
    then show ?thesis using ib 1 q up [of 2] up [of 3] up3 lov assms(5) b(2)
      by (simp add: e_last_token_def Let_def rd_ok lines [simplified] dig e_set_ok del: e_digits.simps b64.simps)
        (simp add: d1_def res_def)
  next
    case 2
    let ?v = "push_bit 16 (ucast x) OR push_bit 8 (ucast y) :: u32"
    have ib: "e_in_buffer data = [x, y]" "e_in_buffer_count data = 2"
      using assms(1) 2 two_elements [of "e_in_buffer data"] by (auto simp: held_def)
    have "b64 [x, y] = (quad (unat ?v))[3 := B64_PAD]" using quad_pad(2) last_value(2) by simp
    then show ?thesis using ib 2 q up [of 3] up3 lov assms(5) b(2)
      by (simp add: e_last_token_def Let_def rd_ok lines [simplified] dig e_set_ok del: e_digits.simps b64.simps push_bit_or)
        (simp add: d1_def res_def)
  qed
  then show ?thesis using hres lov b(1) by (intro exI [of _ "res (b64 ?p)"]) (simp add: res_def)
qed

section \<open>Writing to the client's function\<close>

text \<open>The law of the client: \<open>f\<close> never fails and appends its piece to what the object has got.\<close>

definition delivers :: "('s \<Rightarrow> buf \<Rightarrow> int \<times> 's) \<Rightarrow> ('s \<Rightarrow> buf) \<Rightarrow> bool" where
  "delivers f got \<longleftrightarrow> (\<forall>s p. 0 \<le> fst (f s p) \<and> got (snd (f s p)) = got s @ p)"

definition stream_size :: "nat \<Rightarrow> nat" where
  "stream_size m = (if m = 0 then 64 else 4 * m + 2)"

text \<open>What the buffer may hold after \<open>k\<close> tokens: it is emptied at the end of each line.\<close>

definition stream_fit :: "nat \<Rightarrow> nat \<Rightarrow> nat \<Rightarrow> bool" where
  "stream_fit m k l \<longleftrightarrow> (if m = 0 then l = 4 * (k mod 16)
     else if k mod m = 0 then l = 0 else l = column m k \<or> l = column m k + 2)"

definition streaming ::
  "nat \<Rightarrow> ('s \<Rightarrow> buf \<Rightarrow> int \<times> 's) \<Rightarrow> ('s \<Rightarrow> buf) \<Rightarrow> 's PLBase64Encoder \<Rightarrow> buf list \<Rightarrow> bool" where
  "streaming m f got data ts \<longleftrightarrow> delivers f got \<and> stream_size m < 2 ^ 31 \<and> at_column m (length ts) data \<and>
     e_output_fn data = Some f \<and> unat (e_output_buflen data) = stream_size m \<and>
     (\<exists>T. holds data T \<and> got (e_output_arg data) @ T = token_lines m ts \<and> stream_fit m (length ts) (length T))"

lemma stream_fit_step:
  assumes "stream_fit m k l"
  defines "l' \<equiv> l + length (break_at m k) + 4"
  shows "l' \<le> stream_size m" "stream_fit m (Suc k) (if stream_size m - 3 \<le> l' then 0 else l')"
proof -
  have "l' \<le> stream_size m \<and> stream_fit m (Suc k) (if stream_size m - 3 \<le> l' then 0 else l')"
  proof (cases "m = 0")
    case True
    have "Suc k mod 16 = (if k mod 16 = 15 then 0 else Suc (k mod 16))" by (simp add: mod_Suc)
    moreover have "k mod 16 < 16" by simp
    ultimately show ?thesis using assms(1) True by (auto simp: stream_fit_def l'_def stream_size_def break_at_def)
  next
    case False
    have c: "column m (Suc k) = (if 0 < k \<and> k mod m = 0 then 4 else column m k + 4)" using False column_Suc by simp
    have "column m 0 = 0" by (simp add: column_def)
    then have l': "l' = column m (Suc k) \<or> l' = column m (Suc k) + 2"
      using assms(1) False c by (auto simp: stream_fit_def l'_def break_at_def split: if_splits)
    have d: "column m (Suc k) = 4 * m \<longleftrightarrow> Suc k mod m = 0" "column m (Suc k) \<le> 4 * m" "4 dvd column m (Suc k)"
      using column_full [of m "Suc k"] column_le [of m "Suc k"] False by (auto simp: column_def)
    show ?thesis
    proof (cases "Suc k mod m = 0")
      case True
      then show ?thesis using d l' False by (auto simp: stream_fit_def stream_size_def)
    next
      case nf: False
      obtain x where x: "column m (Suc k) = 4 * x" using d(3) by blast
      then have "x < m" using d nf by linarith
      with x have "column m (Suc k) \<le> 4 * m - 4" "column m (Suc k) < 4 * m" by simp_all
      then show ?thesis using nf l' False by (auto simp: stream_fit_def stream_size_def)
    qed
  qed
  then show "l' \<le> stream_size m" "stream_fit m (Suc k) (if stream_size m - 3 \<le> l' then 0 else l')" by auto
qed

lemma e_write_ok:
  assumes "delivers f got" "e_output_fn data = Some f" "holds data T" "length T < 2 ^ 31"
  shows "\<exists>r arg. e_write data = Some (r, data\<lparr>e_output_arg := arg\<rparr>) \<and> 0 \<le> r \<and> got arg = got (e_output_arg data) @ T"
proof -
  obtain b where b: "e_output_buffer data = Some b" "unat (e_output_length data) = length T" "length T \<le> length b"
    "take (length T) b = T"
    using assms(3) by (auto simp: holds_def)
  obtain r arg where r: "f (e_output_arg data) T = (r, arg)" by (cases "f (e_output_arg data) T")
  then have "0 \<le> r" "got arg = got (e_output_arg data) @ T"
    using assms(1) unfolding delivers_def by (metis fst_conv, metis snd_conv)
  then show ?thesis using b assms(2,4) r by (intro exI [of _ r] exI [of _ arg]) (simp add: e_write_def)
qed

lemma threshold: "3 \<le> unat (n :: u32) \<Longrightarrow> n - 3 \<le> l \<longleftrightarrow> unat n - 3 \<le> unat l"
  by (simp add: word_le_nat_alt unat_sub)

lemma streaming_step:
  assumes "streaming m f got data ts"
  shows "\<exists>d1 d2. e_token data n (unat (e_output_length data)) = Some (d1, unat (e_output_length d1)) \<and>
    e_spill d1 (unat (e_output_length d1)) again (e_output_buflen data - 3) port = Some (Inr (d2, unat (e_output_length d2))) \<and>
    streaming m f got d2 (ts @ [quad (unat n)]) \<and> same_setup d2 data"
proof -
  let ?k = "length ts" and ?q = "quad (unat n)"
  obtain T where T: "holds data T" "got (e_output_arg data) @ T = token_lines m ts" "stream_fit m ?k (length T)"
    using assms by (auto simp: streaming_def)
  have s: "delivers f got" "stream_size m < 2 ^ 31" "at_column m ?k data" "e_output_fn data = Some f"
    "unat (e_output_buflen data) = stream_size m"
    using assms by (auto simp: streaming_def)
  let ?T = "T @ break_at m ?k @ ?q"
  have q: "length ?q = 4" by (simp add: quad_def)
  have fit: "length ?T \<le> stream_size m" "stream_fit m (Suc ?k) (if stream_size m - 3 \<le> length ?T then 0 else length ?T)"
  proof -
    have l: "length ?T = length T + length (break_at m ?k) + 4" using q by simp
    show "length ?T \<le> stream_size m" "stream_fit m (Suc ?k) (if stream_size m - 3 \<le> length ?T then 0 else length ?T)"
      unfolding l using stream_fit_step [OF T(3)] by blast+
  qed
  obtain d1 where d1: "e_token data n (length T) = Some (d1, unat (e_output_length d1))" "holds d1 ?T"
    "at_column m (Suc ?k) d1" "same_setup d1 data" "e_output_arg d1 = e_output_arg data"
    using e_token_ok [OF T(1) s(3), of n] s(5) fit(1) q by auto
  have out: "unat (e_output_length data) = length T" "unat (e_output_length d1) = length ?T"
    using T(1) d1(2) by (auto simp: holds_def)
  have fn: "e_output_fn d1 = Some f" "unat (e_output_buflen d1) = stream_size m" using d1(4) s by (auto simp: same_setup_def)
  have tl: "got (e_output_arg d1) @ ?T = token_lines m (ts @ [?q])" using T(2) d1(5) by (simp add: token_lines_snoc)
  have th: "e_output_buflen data - 3 \<le> e_output_length d1 \<longleftrightarrow> stream_size m - 3 \<le> length ?T"
    using threshold [of "e_output_buflen data" "e_output_length d1"] s(5) out(2) by (simp add: stream_size_def)
  show ?thesis
  proof (cases "stream_size m - 3 \<le> length ?T")
    case False
    then have "streaming m f got d1 (ts @ [?q])" using s d1 fn tl fit by (auto simp: streaming_def)
    then show ?thesis using False th d1 out by (simp add: e_spill_def)
  next
    case True
    obtain r arg where w: "e_write d1 = Some (r, d1\<lparr>e_output_arg := arg\<rparr>)" "0 \<le> r" "got arg = got (e_output_arg d1) @ ?T"
      using e_write_ok [OF s(1) fn(1) d1(2)] fit(1) s(2) by auto
    let ?d = "d1\<lparr>e_output_arg := arg, e_output_length := 0\<rparr>"
    have "holds ?d []" using d1(2) by (auto simp: holds_def)
    moreover have "got (e_output_arg ?d) @ [] = token_lines m (ts @ [?q])" using w(3) tl by simp
    moreover have "stream_fit m (length (ts @ [?q])) (length [])" using fit(2) True by simp
    ultimately have "\<exists>T. holds ?d T \<and> got (e_output_arg ?d) @ T = token_lines m (ts @ [?q]) \<and>
        stream_fit m (length (ts @ [?q])) (length T)" by blast
    then have "streaming m f got ?d (ts @ [?q])" using s d1(3) fn by (simp add: streaming_def at_column_def)
    then show ?thesis using True th d1 out w(1,2) fn(1) s(4) by (simp add: e_spill_def same_setup_def)
  qed
qed

interpretation streaming_mode: token_writer "streaming m f got" "\<lambda>_. True" for m f got
proof
  show "\<exists>d1 d2. e_token data n (unat (e_output_length data)) = Some (d1, unat (e_output_length d1)) \<and>
    e_spill d1 (unat (e_output_length d1)) again (e_output_buflen data - 3) port = Some (Inr (d2, unat (e_output_length d2))) \<and>
    streaming m f got d2 (ts @ [quad (unat n)]) \<and> same_setup d2 data" if "streaming m f got data ts" for data ts n again port
    using that by (rule streaming_step)
qed (auto simp: streaming_def holds_def at_column_def)

lemma e_last_token_none: "e_in_buffer_count data = 0 \<Longrightarrow> e_last_token data = Some data"
  by (simp add: e_last_token_def)

lemma b64_lines_split: "b64_lines m xs = token_lines m (toks xs) @
    (if keep xs = [] then [] else break_at m (length (toks xs)) @ b64 (keep xs))"
  by (simp add: b64_lines_def b64_tokens_def token_lines_snoc)

lemma flush_stream_ok:
  assumes "streaming m f got data (toks xs)" "held data xs"
  shows "\<exists>d. pl_base64_encode_flush data = Some (PR_SUCCESS, d) \<and> got (e_output_arg d) = b64_lines m xs"
proof -
  let ?k = "length (toks xs)" and ?p = "keep xs"
  obtain T where T: "holds data T" "got (e_output_arg data) @ T = token_lines m (toks xs)" "stream_fit m ?k (length T)"
    using assms(1) by (auto simp: streaming_def)
  have s: "delivers f got" "stream_size m < 2 ^ 31" "at_column m ?k data" "e_output_fn data = Some f"
    "unat (e_output_buflen data) = stream_size m"
    using assms(1) by (auto simp: streaming_def)
  let ?T = "T @ (if ?p = [] then [] else break_at m ?k @ b64 ?p)"
  have fit: "length T + length (break_at m ?k) + 4 \<le> unat (e_output_buflen data)" using stream_fit_step(1) [OF T(3)] s(5) by simp
  have lp: "?p \<noteq> [] \<Longrightarrow> length (b64 ?p) = 4"
    using length_keep [of xs] by (cases ?p rule: keep.cases) (auto simp: Let_def)
  obtain d where d: "e_last_token data = Some d" "holds d ?T" "e_output_fn d = Some f" "e_output_arg d = e_output_arg data"
  proof (cases "?p = []")
    case True
    then show ?thesis using that [of data] assms(2) T(1) s(4) by (simp add: held_def e_last_token_none)
  next
    case False
    then show ?thesis using that e_last_token_ok [OF assms(2) False T(1) s(3) fit] s(4) by auto
  qed
  show ?thesis
  proof (cases "e_in_buffer_count data = 0 \<and> e_output_length data = 0")
    case True
    then have "T = []" "?p = []" using T(1) assms(2) by (auto simp: holds_def held_def)
    then show ?thesis using True T(2) by (simp add: pl_base64_encode_flush_def b64_lines_split)
  next
    case False
    have "length ?T < 2 ^ 31" using fit lp s(2,5) by auto
    then obtain r arg where w: "e_write d = Some (r, d\<lparr>e_output_arg := arg\<rparr>)" "0 \<le> r" "got arg = got (e_output_arg d) @ ?T"
      using e_write_ok [OF s(1) d(3,2)] by auto
    have "got arg = b64_lines m xs" unfolding w(3) d(4) b64_lines_split T(2) [symmetric] by simp
    then show ?thesis using False d(1,3) w(1,2) by (auto simp: pl_base64_encode_flush_def)
  qed
qed

section \<open>Encoding in one call\<close>

definition buffered :: "nat \<Rightarrow> nat \<Rightarrow> 's PLBase64Encoder \<Rightarrow> buf list \<Rightarrow> bool" where
  "buffered m N data ts \<longleftrightarrow> at_column m (length ts) data \<and> e_output_fn data = None \<and>
     4 * N + 2 * ((N - 1) div m) \<le> unat (e_output_buflen data) \<and> (\<forall>t\<in>set ts. length t = 4) \<and>
     holds data (token_lines m ts)"

lemma length_lines: "\<forall>t\<in>set ts. length t = 4 \<Longrightarrow> length (token_lines m ts) = 4 * length ts + 2 * ((length ts - 1) div m)"
proof (cases "m = 0")
  case True
  moreover assume "\<forall>t\<in>set ts. length t = 4"
  moreover have "length (break_at 0 k) = 0" for k by (simp add: break_at_def)
  ultimately show ?thesis by (simp add: length_token_lines)
qed (simp add: length_token_lines breaks_count)

lemma lines_room:
  assumes "\<forall>t\<in>set ts. length t = 4" "Suc (length ts) \<le> N"
  shows "length (token_lines m ts) + length (break_at m (length ts)) + 4 \<le> 4 * N + 2 * ((N - 1) div m)"
proof -
  let ?ts = "ts @ [replicate 4 0]"
  have "length (token_lines m ts) + length (break_at m (length ts)) + 4 = length (token_lines m ?ts)"
    by (simp add: token_lines_snoc)
  also have "\<dots> = 4 * Suc (length ts) + 2 * (length ts div m)" using length_lines [of ?ts m] assms(1) by auto
  also have "\<dots> \<le> 4 * N + 2 * ((N - 1) div m)"
  proof -
    have "length ts div m \<le> (N - 1) div m" using assms(2) by (intro div_le_mono) simp
    then show ?thesis using assms(2) by (intro add_mono mult_le_mono2)
  qed
  finally show ?thesis .
qed

lemma buffered_step:
  assumes "buffered m N data ts" "Suc (length ts) \<le> N" "again \<longrightarrow> Suc (Suc (length ts)) \<le> N"
  shows "\<exists>d1 d2. e_token data n (unat (e_output_length data)) = Some (d1, unat (e_output_length d1)) \<and>
    e_spill d1 (unat (e_output_length d1)) again (e_output_buflen data - 3) port = Some (Inr (d2, unat (e_output_length d2))) \<and>
    buffered m N d2 (ts @ [quad (unat n)]) \<and> same_setup d2 data"
proof -
  let ?k = "length ts" and ?q = "quad (unat n)" and ?T = "token_lines m ts"
  have b: "at_column m ?k data" "e_output_fn data = None" "4 * N + 2 * ((N - 1) div m) \<le> unat (e_output_buflen data)"
    "\<forall>t\<in>set ts. length t = 4" "holds data ?T"
    using assms(1) by (auto simp: buffered_def)
  have q: "length ?q = 4" by (simp add: quad_def)
  have fit: "length ?T + length (break_at m ?k) + 4 \<le> unat (e_output_buflen data)"
    using lines_room [OF b(4) assms(2), of m] b(3) by linarith
  obtain d where d: "e_token data n (length ?T) = Some (d, unat (e_output_length d))" "holds d (?T @ break_at m ?k @ ?q)"
    "at_column m (Suc ?k) d" "same_setup d data"
    using e_token_ok [OF b(5,1) fit, of n] by auto
  have tl: "?T @ break_at m ?k @ ?q = token_lines m (ts @ [?q])" by (simp add: token_lines_snoc)
  have out: "unat (e_output_length data) = length ?T" "unat (e_output_length d) = length (token_lines m (ts @ [?q]))"
    using b(5) d(2) unfolding tl by (auto simp: holds_def)
  have q4: "\<forall>t\<in>set (ts @ [?q]). length t = 4" using b(4) q by simp
  have "buffered m N d (ts @ [?q])" using b d(2-4) q4 unfolding tl by (auto simp: buffered_def same_setup_def)
  moreover have "e_spill d (unat (e_output_length d)) again (e_output_buflen data - 3) port = Some (Inr (d, unat (e_output_length d)))"
  proof (cases again)
    case True
    have "length (token_lines m (ts @ [?q])) + 4 \<le> unat (e_output_buflen data)"
      using lines_room [OF q4, of N m] True assms(3) b(3) by simp
    then have "\<not> e_output_buflen data - 3 \<le> e_output_length d"
      using threshold [of "e_output_buflen data" "e_output_length d"] out(2) by simp
    then show ?thesis by (simp add: e_spill_def)
  next
    case False
    then show ?thesis using b(2) d(4) by (simp add: e_spill_def same_setup_def)
  qed
  ultimately show ?thesis using d(1,4) out(1) by auto
qed

interpretation buffer_mode: token_writer "buffered m N" "\<lambda>k. k \<le> N" for m N
proof
  show "\<exists>d1 d2. e_token data n (unat (e_output_length data)) = Some (d1, unat (e_output_length d1)) \<and>
    e_spill d1 (unat (e_output_length d1)) again (e_output_buflen data - 3) port = Some (Inr (d2, unat (e_output_length d2))) \<and>
    buffered m N d2 (ts @ [quad (unat n)]) \<and> same_setup d2 data"
    if "buffered m N data ts" "Suc (length ts) \<le> N" "again \<longrightarrow> Suc (Suc (length ts)) \<le> N" for data ts n again port
    using that by (rule buffered_step)
qed (auto simp: buffered_def holds_def at_column_def)

lemma flush_buffer_ok:
  assumes "buffered m N data (toks xs)" "held data xs" "length (b64_tokens xs) \<le> N"
  shows "\<exists>d. pl_base64_encode_flush data = Some (PR_SUCCESS, d) \<and> holds d (b64_lines m xs) \<and> e_output_fn d = None \<and>
    e_in_buffer_count d = 0 \<and> room_of d = room_of data"
proof -
  let ?k = "length (toks xs)" and ?p = "keep xs" and ?T = "token_lines m (toks xs)"
  have b: "at_column m ?k data" "e_output_fn data = None" "4 * N + 2 * ((N - 1) div m) \<le> unat (e_output_buflen data)"
    "\<forall>t\<in>set (toks xs). length t = 4" "holds data ?T"
    using assms(1) by (auto simp: buffered_def)
  show ?thesis
  proof (cases "?p = []")
    case True
    then show ?thesis using assms(2) b(2,5)
      by (auto simp: pl_base64_encode_flush_def b64_lines_split held_def e_last_token_none)
  next
    case False
    have "length ?T + length (break_at m ?k) + 4 \<le> unat (e_output_buflen data)"
      using lines_room [OF b(4), of N m] assms(3) False b(3) by (simp add: b64_tokens_def)
    then show ?thesis using e_last_token_ok [OF assms(2) False b(5,1)] False b(2) assms(2)
      by (auto simp: pl_base64_encode_flush_def b64_lines_split held_def)
  qed
qed

section \<open>What an encoder writes\<close>

text \<open>The number of tokens in a line of \<open>line_length\<close> characters, \<open>0\<close> for no line breaks.\<close>

definition line_tokens :: "u32 \<Rightarrow> nat" where
  "line_tokens line_length = (if line_length = 0 then 0 else if line_length < 4 then 1 else unat line_length div 4)"

text \<open>Pieces of input, one after the other.\<close>

fun update_all :: "'s NSSBase64Encoder ptr \<Rightarrow> buf list \<Rightarrow> PORT \<Rightarrow> (SECStatus \<times> 's NSSBase64Encoder ptr \<times> PORT) exec" where
  "update_all data [] port = Some (SECSuccess, data, port)"
| "update_all data (p # ps) port = do {
     (status, data, port) \<leftarrow> NSSBase64Encoder_Update data (Some p) (word_of_nat (length p)) port;
     if status = SECSuccess then update_all data ps port else Some (status, data, port) }"

text \<open>The whole life of an encoder: what the client's object is at the end.\<close>

definition encode_pieces ::
  "allocf \<Rightarrow> ('s \<Rightarrow> buf \<Rightarrow> int \<times> 's) \<Rightarrow> 's \<Rightarrow> buf list \<Rightarrow> PORT \<Rightarrow> (SECStatus \<times> 's ptr) exec" where
  "encode_pieces malloc f arg ps port =
     (case NSSBase64Encoder_Create True True malloc (Some f) arg port of (data, _, port) \<Rightarrow> do {
        (status, data, port) \<leftarrow> update_all data ps port;
        (status', arg, _, port) \<leftarrow> NSSBase64Encoder_Destroy data (status \<noteq> SECSuccess) port;
        Some (if status = SECSuccess then status' else status, arg) })"

text \<open>A piece that one call can take: it is not empty, and the sums of 32 bits in the code do not wrap.\<close>

definition takeable :: "buf \<Rightarrow> bool" where
  "takeable p \<longleftrightarrow> p \<noteq> [] \<and> length p + 2 < 2 ^ 32"

lemma line_tokens_word:
  defines "adj \<equiv> \<lambda>line_length :: u32. if line_length > 0 \<and> line_length < 4 then 4 else line_length"
  shows "unat (adj line_length div 4 * 4) = 4 * line_tokens line_length"
proof -
  have d: "unat (x div 4) = unat x div 4" for x :: u32 by (simp add: unat_div)
  have b: "unat x div 4 * 4 < 4294967296" for x :: u32
  proof -
    have "unat x < 4294967296" using unsigned_less [of x, where ?'a = nat] by simp
    then show ?thesis using div_times_less_eq_dividend [of "unat x" 4] by linarith
  qed
  have "unat (x div 4 * 4) = unat x div 4 * 4" for x :: u32 using b [of x] by (simp add: unat_word_ariths d)
  then show ?thesis
    by (auto simp: adj_def line_tokens_def word_less_nat_alt unat_eq_zero)
qed

lemma created_ok:
  assumes "malloc_ok malloc" "malloc (stream_size (line_tokens line_length)) = Some b" "delivers f got"
    "stream_size (line_tokens line_length) < 2 ^ 31" "got arg = []"
  shows "\<exists>d. pl_base64_create_encoder True malloc (Some f) arg line_length None 0 = (Some d, []) \<and>
    streaming (line_tokens line_length) f got d (toks []) \<and> held d []"
proof -
  let ?m = "line_tokens line_length"
  define ll where "ll = (if line_length > 0 \<and> line_length < 4 then 4 else line_length) div 4 * 4"
  have ll: "unat ll = 4 * ?m" unfolding ll_def by (rule line_tokens_word)
  have "0 < ll \<longleftrightarrow> ?m \<noteq> 0" using ll by (auto simp: word_less_nat_alt)
  moreover have "unat (ll + 2) = 4 * ?m + 2" if "?m \<noteq> 0"
    using assms(4) ll that by (simp add: stream_size_def unat_word_ariths)
  ultimately have sz: "unat (if 0 < ll then ll + 2 else 64) = stream_size ?m" by (simp add: stream_size_def)
  have lb: "length b = stream_size ?m" using assms(1,2) by (auto simp: malloc_ok_def)
  let ?d = "\<lparr>e_in_buffer = [0, 0], e_in_buffer_count = 0, e_line_length = ll, e_current_column = 0,
    e_output_fn = Some f, e_output_arg = arg, e_output_buffer = Some b, e_output_buflen = (if 0 < ll then ll + 2 else 64),
    e_output_length = 0\<rparr>"
  have "pl_base64_create_encoder True malloc (Some f) arg line_length None 0 = (Some ?d, [])"
    using assms(2) sz unfolding pl_base64_create_encoder_def Let_def ll_def [symmetric]
    by (cases "0 < ll") simp_all
  moreover have "holds ?d []" using lb sz by (simp add: holds_def)
  then have "streaming ?m f got ?d (toks [])"
    using assms(3,4,5) ll sz by (auto simp: streaming_def at_column_def column_def stream_fit_def stream_size_def intro!: exI [of _ "[]"])
  ultimately show ?thesis by (simp add: held_def)
qed

lemma update_ok:
  assumes "streaming m f got d (toks xs)" "held d xs" "takeable p"
  shows "\<exists>d'. NSSBase64Encoder_Update (Some \<lparr>nss_encoder = Some d\<rparr>) (Some p) (word_of_nat (length p)) port =
      Some (SECSuccess, Some \<lparr>nss_encoder = Some d'\<rparr>, port) \<and> streaming m f got d' (toks (xs @ p)) \<and> held d' (xs @ p)"
proof -
  let ?n = "word_of_nat (length p) :: u32"
  have n: "unat ?n = length p" "0 < length p" "?n \<noteq> 0"
    using assms(3) by (auto simp: takeable_def unat_of_nat unsigned_eq_0_iff dest: arg_cong [of _ _ unat])
  obtain d' where "pl_base64_encode_buffer d p ?n port = Some (PR_SUCCESS, d', port)"
    "streaming m f got d' (toks (xs @ take (unat ?n) p))" "held d' (xs @ take (unat ?n) p)"
    using streaming_mode.encode_buffer_ok [OF assms(1,2), of ?n p port] n assms(3) by (auto simp: takeable_def)
  then show ?thesis using n by (simp add: NSSBase64Encoder_Update_def PL_UpdateBase64Encoder_def)
qed

lemma update_all_ok:
  assumes "streaming m f got d (toks xs)" "held d xs" "\<forall>p\<in>set ps. takeable p"
  shows "\<exists>d'. update_all (Some \<lparr>nss_encoder = Some d\<rparr>) ps port = Some (SECSuccess, Some \<lparr>nss_encoder = Some d'\<rparr>, port) \<and>
    streaming m f got d' (toks (xs @ concat ps)) \<and> held d' (xs @ concat ps)"
  using assms
proof (induction ps arbitrary: d xs)
  case (Cons p ps)
  obtain d' where "NSSBase64Encoder_Update (Some \<lparr>nss_encoder = Some d\<rparr>) (Some p) (word_of_nat (length p)) port =
      Some (SECSuccess, Some \<lparr>nss_encoder = Some d'\<rparr>, port)" "streaming m f got d' (toks (xs @ p))" "held d' (xs @ p)"
    using update_ok [OF Cons.prems(1,2)] Cons.prems(3) by (metis list.set_intros(1))
  then show ?case using Cons.IH [of d' "xs @ p"] Cons.prems(3) by simp
qed simp

text \<open>C29: Streaming gives the same text however the input is cut. When the buffer of the encoder can be allocated and the client's
  function takes everything it is given, creating an encoder, passing it any number of non-empty pieces and destroying it succeeds,
  and what the function has been given, in the order of its calls, is the base64 text of the pieces joined together: lines of
  64 characters separated by \<open>CR LF\<close>, the last one padded with \<open>=\<close>. No access of the encoder is outside its
  buffers.\<close>

theorem stream_encoding:
  assumes "malloc_ok malloc" "malloc 66 \<noteq> None" "delivers f got" "got arg = []" "\<forall>p\<in>set ps. takeable p"
  shows "\<exists>arg'. encode_pieces malloc f arg ps port = Some (SECSuccess, Some arg') \<and> got arg' = b64_lines 16 (concat ps)"
proof -
  have m: "line_tokens 64 = 16" "stream_size 16 = 66" by (simp_all add: line_tokens_def stream_size_def)
  obtain b where "malloc 66 = Some b" using assms(2) by blast
  with m obtain d where d: "pl_base64_create_encoder True malloc (Some f) arg 64 None 0 = (Some d, [])"
    "streaming 16 f got d (toks [])" "held d []"
    using created_ok [OF assms(1) _ assms(3) _ assms(4), of 64 b] by auto
  obtain d' where d': "update_all (Some \<lparr>nss_encoder = Some d\<rparr>) ps port = Some (SECSuccess, Some \<lparr>nss_encoder = Some d'\<rparr>, port)"
    "streaming 16 f got d' (toks (concat ps))" "held d' (concat ps)"
    using update_all_ok [OF d(2,3) assms(5)] by auto
  obtain e where "pl_base64_encode_flush d' = Some (PR_SUCCESS, e)" "got (e_output_arg e) = b64_lines 16 (concat ps)"
    using flush_stream_ok [OF d'(2,3)] by blast
  then show ?thesis using d(1) d'(1)
    by (simp add: encode_pieces_def NSSBase64Encoder_Create_def PL_CreateBase64Encoder_def PORT_ZNew_def
        NSSBase64Encoder_Destroy_def PL_DestroyBase64Encoder_def)
qed

theorem stream_encoding_witness:
  "\<exists>arg'. encode_pieces (\<lambda>n. Some (replicate n 7)) (\<lambda>s p. (0, s @ p)) [] [[77], [97, 110], [33]]
      \<lparr>port_error = None, port_allocFailures = 0\<rparr> = Some (SECSuccess, Some arg') \<and> arg' = bytes_of ''TWFuIQ==''"
proof -
  have "b64_lines 16 [77, 97, 110, 33] = bytes_of ''TWFuIQ==''"
    by (simp add: b64_lines_def token_lines_def b64_tokens_def break_at_def b64_char_def base_def bytes_of_def chr_of_def upt_rec)
  then show ?thesis
    using stream_encoding [of "\<lambda>n. Some (replicate n 7)" "\<lambda>s p. (0, s @ p)" "\<lambda>s. s" "[]" "[[77], [97, 110], [33]]"
        "\<lparr>port_error = None, port_allocFailures = 0\<rparr>"]
    by (simp add: malloc_ok_def delivers_def takeable_def)
qed

lemma div_pred: "0 < (N :: nat) \<Longrightarrow> (N - 1) div m = (if m dvd N then N div m - 1 else N div m)"
proof (cases N)
  case (Suc n)
  then show ?thesis by (cases "m = 0") (auto simp: div_Suc mod_eq_0_iff_dvd)
qed simp

lemma max_length_exact:
  fixes nbytes line_length :: u32
  assumes "0 < unat nbytes" "unat nbytes + 2 < 2 ^ 32"
  defines "N \<equiv> (unat nbytes + 2) div 3" and "m \<equiv> line_tokens line_length"
  assumes "4 * N + 2 * ((N - 1) div m) < 2 ^ 32"
  shows "unat (PL_Base64MaxEncodedLength nbytes line_length) = 4 * N + 2 * ((N - 1) div m)"
proof -
  have N: "0 < N" using assms(1) by (simp add: N_def)
  have t: "unat ((nbytes + 2) div 3) = N" using assms(2) by (simp add: N_def unat_div unat_word_ariths)
  show ?thesis
  proof (cases "line_length = 0")
    case True
    then show ?thesis using assms(5) t
      by (simp add: PL_Base64MaxEncodedLength_def Let_def m_def line_tokens_def unat_word_ariths)
  next
    case False
    define w where "w = (if line_length < 4 then 4 else line_length) div 4"
    have w: "unat w = m" using False by (simp add: w_def m_def line_tokens_def unat_div)
    have m: "0 < m" using False by (auto simp: m_def line_tokens_def word_less_nat_alt)
    define q where "q = (nbytes + 2) div 3 div w"
    have q: "unat q = N div m" unfolding q_def unat_div [of "(nbytes + 2) div 3"] t w ..
    have le: "N div m * m \<le> N" by (rule div_times_less_eq_dividend)
    have dv: "(N - 1) div m = (if m dvd N then N div m - 1 else N div m)" by (rule div_pred [OF N])
    have N32: "4 * N < 4294967296" "2 * ((N - 1) div m) + 4 * N < 4294967296" using assms(5) by simp_all
    define P where "P = N div m * m"
    have P: "P \<le> N" using le by (simp add: P_def)
    have qw: "unat (q * w) = P" using P N32 q w by (simp add: unat_word_ariths P_def [symmetric])
    have full: "unat (q * w * 4) = P * 4" using qw P N32 by (simp add: unat_word_ariths)
    define rem where "rem = ((nbytes + 2) div 3 - q * w) * 4"
    have m4: "unat (x * 4) = unat x * 4" if "unat x * 4 < 4294967296" for x :: u32
      using that by (simp add: unat_word_ariths)
    have "unat ((nbytes + 2) div 3 - q * w) = N - P" using t qw P by (simp add: unat_sub word_le_nat_alt)
    then have r: "unat rem = (N - P) * 4" using N32 m4 [of "(nbytes + 2) div 3 - q * w"] unfolding rem_def by simp
    have z: "rem = 0 \<longleftrightarrow> m dvd N"
      unfolding unat_eq_zero [symmetric] r by (simp add: P_def minus_div_mult_eq_mod mod_eq_0_iff_dvd)
    have qN: "N div m * 2 < 4294967296" using div_le_dividend [of N m] N32 by linarith
    have q2: "unat (q * 2) = N div m * 2" using q qN N32 by (simp add: unat_word_ariths)
    define br where "br = (if rem = 0 then q * 2 - 2 else q * 2)"
    have br: "unat br = 2 * ((N - 1) div m)"
    proof (cases "m dvd N")
      case True
      then have "0 < N div m" using N m by (simp add: dvd_imp_le div_greater_zero_iff)
      then show ?thesis using True z q2 dv by (simp add: br_def unat_sub word_le_nat_alt)
    next
      case False
      then show ?thesis using z q2 dv by (simp add: br_def)
    qed
    have "PL_Base64MaxEncodedLength nbytes line_length = q * w * 4 + br + rem"
      using False unfolding rem_def br_def q_def w_def by (simp add: PL_Base64MaxEncodedLength_def Let_def)
    moreover have "P * 4 + 2 * ((N - 1) div m) + (N - P) * 4 = 4 * N + 2 * ((N - 1) div m)"
      using P by simp
    ultimately show ?thesis using full br r N32 P by (simp add: unat_word_ariths)
  qed
qed

lemma length_b64_lines: "length (b64_lines m xs) = 4 * ((length xs + 2) div 3) + 2 * (((length xs + 2) div 3 - 1) div m)"
  using length_lines [of "b64_tokens xs" m] length_token [of _ xs] length_b64_tokens [of xs] by (auto simp: b64_lines_def)

lemma max_length_lines:
  assumes "0 < unat nbytes" "unat nbytes + 2 < 2 ^ 32" "length (b64_lines (line_tokens line_length) xs) < 2 ^ 32"
    "length xs = unat nbytes"
  shows "unat (PL_Base64MaxEncodedLength nbytes line_length) = length (b64_lines (line_tokens line_length) xs)"
  using max_length_exact [OF assms(1,2)] assms(3,4) by (simp add: length_b64_lines)

text \<open>The text the encoder makes of \<open>srclen\<close> bytes fills a buffer that is just large enough.\<close>

lemma encode_into_buffer:
  fixes src :: buf
  defines "lns \<equiv> \<lambda>srclen line_length. b64_lines (line_tokens line_length) (take (unat srclen) src)"
  assumes "0 < unat srclen" "unat srclen \<le> length src" "unat srclen + 2 < 2 ^ 32"
    "length (lns srclen line_length) \<le> unat maxdestlen" "unat maxdestlen \<le> length dest"
  shows "\<exists>b. PL_Base64EncodeBuffer True malloc src srclen line_length (Some dest) maxdestlen port =
      Some (True, Some b, Some (word_of_nat (length (lns srclen line_length))), [Free], port) \<and>
    length b = length dest \<and> take (length (lns srclen line_length)) b = lns srclen line_length"
proof -
  let ?xs = "take (unat srclen) src" and ?m = "line_tokens line_length"
  let ?T = "b64_lines ?m ?xs" and ?N = "length (b64_tokens ?xs)"
  have s0: "srclen \<noteq> 0" using assms(2) by auto
  have lx: "length ?xs = unat srclen" using assms(3) by simp
  have lT: "length ?T = 4 * ?N + 2 * ((?N - 1) div ?m)" by (simp add: length_b64_lines length_b64_tokens)
  have fit: "length ?T \<le> unat maxdestlen" using assms(5) by (simp add: lns_def)
  have big: "unat maxdestlen < 2 ^ 32" using unsigned_less [of maxdestlen, where ?'a = nat] by simp
  have need: "unat (PL_Base64MaxEncodedLength srclen line_length) = length ?T"
    using max_length_lines [OF assms(2,4) _ lx] fit big by simp
  define ll where "ll = (if line_length > 0 \<and> line_length < 4 then 4 else line_length) div 4 * 4"
  have ll: "unat ll = 4 * ?m" unfolding ll_def by (rule line_tokens_word)
  let ?d = "\<lparr>e_in_buffer = [0, 0], e_in_buffer_count = 0, e_line_length = ll, e_current_column = 0,
    e_output_fn = None, e_output_arg = (), e_output_buffer = Some dest, e_output_buflen = maxdestlen, e_output_length = 0\<rparr>"
  have create: "pl_base64_create_encoder True malloc None () line_length (Some dest) maxdestlen = (Some ?d, [])"
    unfolding pl_base64_create_encoder_def Let_def ll_def [symmetric] by simp
  have "4 * ?m < 4294967296" using ll unsigned_less [of ll, where ?'a = nat] by simp
  then have R: "buffered ?m ?N ?d (toks [])" "held ?d []"
    using fit lT ll assms(6) by (simp_all add: buffered_def at_column_def column_def held_def holds_def)
  have room: "length (toks ([] @ ?xs)) \<le> ?N" by (simp add: b64_tokens_def)
  obtain d where d: "pl_base64_encode_buffer ?d src srclen port = Some (PR_SUCCESS, d, port)"
    "buffered ?m ?N d (toks ?xs)" "held d ?xs" "room_of d = Some (length dest)"
    using buffer_mode.encode_buffer_ok [OF R assms(2,3) _ room, of port] assms(4) by auto
  obtain e where e: "pl_base64_encode_flush d = Some (PR_SUCCESS, e)" "holds e ?T" "e_output_fn e = None"
    "e_in_buffer_count e = 0" "room_of e = Some (length dest)"
    using flush_buffer_ok [OF d(2,3) order.refl] d(4) by auto
  obtain b where b: "e_output_buffer e = Some b" "length b = length dest" "take (length ?T) b = ?T"
    "unat (e_output_length e) = length ?T"
    using e(2,5) by (auto simp: holds_def)
  have len: "e_output_length e = word_of_nat (length ?T)" unfolding b(4) [symmetric] by simp
  have "PL_DestroyBase64Encoder (Some (e\<lparr>e_output_buffer := None\<rparr>)) False port = Some (PR_SUCCESS, Some (), [Free], port)"
    using e(3,4) by (simp add: PL_DestroyBase64Encoder_def pl_base64_encode_flush_def e_last_token_none)
  then have "PL_Base64EncodeBuffer True malloc src srclen line_length (Some dest) maxdestlen port =
      Some (True, Some b, Some (e_output_length e), [Free], port)"
    using fit need create d(1) e(1) b(1) s0
    by (simp add: PL_Base64EncodeBuffer_def Let_def word_less_nat_alt)
  then show ?thesis using b len by (simp add: lns_def)
qed

text \<open>\<open>NSSBase64_EncodeItem\<close> without an output buffer returns the lines of the item with a null byte after them, and leaves
  nothing else allocated, when the text with its terminator is shorter than \<open>PORT_Alloc\<close> allows.\<close>

theorem encode_item:
  assumes "malloc_ok malloc" "\<And>a. arenaOpt = Some a \<Longrightarrow> malloc_ok a" "item_data item = Some xs" "item_len item = length xs"
    "xs \<noteq> []" "length (b64_lines 16 xs) < 0x7fffffff" "found malloc arenaOpt (length (b64_lines 16 xs) + 1) \<noteq> None"
  shows "NSSBase64_EncodeItem True malloc arenaOpt None maxOutLen (Some item) port =
    Some (True, Some (b64_lines 16 xs @ [0]),
      (if arenaOpt = None then [Free] else [Mark, Free, Unmark]), port)"
proof -
  let ?T = "b64_lines 16 xs" and ?n = "word_of_nat (length xs) :: u32"
  have "length xs \<le> length ?T" "2 < length ?T" using assms(5) by (cases xs; simp add: length_b64_lines)+
  then have n: "unat ?n = length xs" "0 < unat ?n" "unat ?n + 2 < 2 ^ 32" "?n \<noteq> 0"
    using assms(5,6) by (auto simp: unat_of_nat dest: arg_cong [of _ _ unat])
  have m: "line_tokens 64 = 16" by (simp add: line_tokens_def)
  have len: "unat (PL_Base64MaxEncodedLength ?n 64) = length ?T"
    using max_length_lines [OF n(2,3), of 64 xs] assms(6) n(1) unfolding m by simp
  then have len1: "unat (PL_Base64MaxEncodedLength ?n 64 + 1) = length ?T + 1"
    using assms(6) by (simp add: unat_word_ariths)
  obtain b where b: "found malloc arenaOpt (length ?T + 1) = Some b" "length b = length ?T + 1"
    using assms(7) found_length [OF assms(1,2)] by blast
  have al: "alloc_from malloc arenaOpt (unat (PL_Base64MaxEncodedLength ?n 64 + 1)) port = (Some b, port)"
    using alloc_from_eq [of "length ?T + 1"] assms(6) b(1) len1 by simp
  have len2: "unat (word_of_nat (length ?T) :: u32) = length ?T" using assms(6) by (simp add: unat_of_nat)
  obtain c where c: "PL_Base64EncodeBuffer True malloc xs ?n 64 (Some b) (PL_Base64MaxEncodedLength ?n 64) port =
      Some (True, Some c, Some (word_of_nat (length ?T)), [Free], port)" "length c = length b" "take (length ?T) c = ?T"
    using encode_into_buffer [OF n(2) _ n(3), of xs 64 "PL_Base64MaxEncodedLength ?n 64" b malloc port] len b(2) n(1) unfolding m by auto
  have "length (drop (length ?T) c) = Suc 0" using c(2) b(2) by simp
  then obtain z where "drop (length ?T) c = [z]" by (auto simp: length_Suc_conv simp del: length_drop)
  then have "c = ?T @ [z]" using append_take_drop_id [of "length ?T" c] c(3) by simp
  then have "c[length ?T := 0] = ?T @ [0]" by simp
  then show ?thesis using c(1,2) b(2) al assms(3-5) len2
    by (cases arenaOpt) (simp_all add: NSSBase64_EncodeItem_def Let_def wr_ok)
qed

text \<open>The size that \<open>PL_Base64MaxEncodedLength\<close> computes wraps around for 3 GB and more.\<close>

theorem max_length_wraps:
  "PL_Base64MaxEncodedLength 0xC0000000 0 = 0"
  by code_simp

end
