(* ===== verification/Moz_NetAddr.thy ===== *)
theory Moz_NetAddr
  imports Moz_Printf
begin

text \<open>
  Network addresses as text: \<open>src/nsprpub/pr/src/misc/prnetdb.c\<close> (the parts that parse, print, set and classify
  addresses) and \<open>praton.c\<close>, for a build without \<open>inet_ntop\<close>; \<open>getaddrinfo\<close> and \<open>getnameinfo\<close> are
  parameters.

  An IPv6 address is the list of its eight 16-bit sections and an IPv4 address a 32-bit number, both as values: what
  the code stores with \<open>htons\<close> or \<open>htonl\<close> and reads with \<open>ntohs\<close> is in network order in memory whatever
  the machine, so byte \<open>k\<close> of an address is the high or low half of section \<open>k div 2\<close>. A pointer into a
  text is the rest of the text from there on.
\<close>

type_synonym u16 = "16 word"
type_synonym PRIPv6Addr = "u16 list"

record PRNetAddr =
  na_family :: u16
  na_port :: u16
  na_ip :: u32
  na_ip6 :: PRIPv6Addr
  na_scope :: u32

datatype PRNetAddrValue = PR_IpAddrNull | PR_IpAddrAny | PR_IpAddrLoopback | PR_IpAddrV4Mapped

datatype net_status = NET_SUCCESS | NET_FAILURE
datatype net_error = PR_INVALID_ARGUMENT_ERROR | PR_BUFFER_OVERFLOW_ERROR

definition PR_AF_INET :: u16 where "PR_AF_INET = 2"
definition PR_AF_INET6 :: u16 where "PR_AF_INET6 = 100"

section \<open>Sections and bytes\<close>

definition get_byte :: "PRIPv6Addr \<Rightarrow> nat \<Rightarrow> byte exec" where
  "get_byte a k = do { w \<leftarrow> rd a (k div 2); Some (if even k then ucast (drop_bit 8 w) else ucast w) }"

definition set_byte :: "PRIPv6Addr \<Rightarrow> nat \<Rightarrow> byte \<Rightarrow> PRIPv6Addr exec" where
  "set_byte a k v = do {
     w \<leftarrow> rd a (k div 2);
     wr a (k div 2) (if even k then push_bit 8 (ucast v) OR (w AND 0xFF) else (w AND 0xFF00) OR ucast v) }"

section \<open>Reading an IPv6 address\<close>

definition XX :: byte where "XX = 127"

definition index_hex :: buf where
  "index_hex = replicate 48 XX @ [0, 1, 2, 3, 4, 5, 6, 7, 8, 9] @ replicate 7 XX @ [10, 11, 12, 13, 14, 15] @
     replicate 26 XX @ [10, 11, 12, 13, 14, 15] @ replicate 153 XX"

text \<open>\<open>for (len = val = 0; len < 4 && index_hex[*s] != XX; len++)\<close>, with the number of rounds left.\<close>

fun hex_group :: "nat \<Rightarrow> buf \<Rightarrow> nat \<Rightarrow> u32 \<Rightarrow> (nat \<times> u32 \<times> buf) exec" where
  "hex_group 0 s len val = Some (len, val, s)"
| "hex_group (Suc k) s len val = do {
     c \<leftarrow> rd s 0;
     x \<leftarrow> rd index_hex (unat c);
     if x = XX then Some (len, val, s) else hex_group k (drop 1 s) (len + 1) (push_bit 4 val + ucast x) }"

lemma hex_group_len:
  "hex_group k s len val = Some (len', val', s') \<Longrightarrow>
     length s' + len' = length s + len \<and> len \<le> len' \<and> s' = drop (len' - len) s"
proof (induction k s len val rule: hex_group.induct)
  case (2 k s len val)
  then show ?case
    by (auto simp: rd_eq_Some bind_eq_Some_conv Suc_diff_Suc split: if_splits dest!: 2(1) [rotated -1])
qed simp

lemma hex_group_progress:
  assumes "hex_group k s 0 0 = Some (len, val, p)" "p \<noteq> []" "s ! 0 \<noteq> 0" "p ! 0 = 0"
  shows "length p < length s"
  using hex_group_len [OF assms(1)] assms(2-4) by (cases "len = 0") auto

text \<open>The state when the loop over the sections is left; \<open>Inl\<close> is \<open>return 0\<close> with what the address then holds.\<close>

record v6_state =
  v6_addr :: PRIPv6Addr
  v6_section :: nat
  v6_colon :: "nat option"
  v6_val :: u32

function v6_loop :: "buf \<Rightarrow> v6_state \<Rightarrow> (PRIPv6Addr + buf \<times> v6_state) exec" where
  "v6_loop s st = do {
     c \<leftarrow> rd s 0;
     if c = 0 then Some (Inr (s, st))
     else if v6_section st = 8 then Some (Inl (v6_addr st))
     else if c = 58 then
       (if v6_colon st \<noteq> None then Some (Inl (v6_addr st))
        else do {
          addr \<leftarrow> wr (v6_addr st) (v6_section st) 0;
          v6_loop (drop 1 s) (st\<lparr>v6_addr := addr, v6_section := v6_section st + 1,
            v6_colon := Some (v6_section st + 1)\<rparr>) })
     else case hex_group 4 s 0 0 of
       None \<Rightarrow> None
     | Some (len, val, p) \<Rightarrow> do {
         let st = st\<lparr>v6_val := val\<rparr>;
         d \<leftarrow> rd p 0;
         if d = 46 then (if len = 0 then Some (Inl (v6_addr st)) else Some (Inr (p, st)))
         else if d = 58 then do {
           e \<leftarrow> rd p 1;
           if e = 0 then Some (Inl (v6_addr st))
           else do {
             addr \<leftarrow> wr (v6_addr st) (v6_section st) (ucast val);
             v6_loop (drop 1 p) (st\<lparr>v6_addr := addr, v6_section := v6_section st + 1\<rparr>) } }
         else if d \<noteq> 0 then Some (Inl (v6_addr st))
         else do {
           addr \<leftarrow> wr (v6_addr st) (v6_section st) (ucast val);
           v6_loop p (st\<lparr>v6_addr := addr, v6_section := v6_section st + 1\<rparr>) } } }"
  by pat_completeness auto
termination
proof (relation "measure (\<lambda>(s, st). length s)")
  show "wf (measure (\<lambda>(s, st). length s))" by simp
next
  fix s st c addr
  show "rd s 0 = Some c \<Longrightarrow> ((drop 1 s, st\<lparr>v6_addr := addr, v6_section := v6_section st + 1, v6_colon := Some (v6_section st + 1)\<rparr>), (s, st))
     \<in> measure (\<lambda>(s, st). length s)" by (auto simp: rd_eq_Some)
qed (auto simp: rd_eq_Some dest: hex_group_len intro: hex_group_progress)

declare v6_loop.simps [simp del]

text \<open>The IPv4 number at the end. Its first part has been read as hexadecimal and is in BCD; of the others the first
  digit is looked up in the table, then \<open>while (*s >= '0' && *s <= '9')\<close> reads on.\<close>

definition isdigit :: "byte \<Rightarrow> bool" where
  "isdigit c \<longleftrightarrow> 48 \<le> c \<and> c \<le> 57"

fun more_digits :: "buf \<Rightarrow> u32 \<Rightarrow> (u32 \<times> buf) option exec" where
  "more_digits [] val = None"
| "more_digits (c # s) val =
     (if isdigit c then
        let val = val * 10 + ucast c - 48 in if val > 255 then Some None else more_digits s val
      else Some (Some (val, c # s)))"

definition dotted_part :: "buf \<Rightarrow> (u32 \<times> buf) option exec" where
  "dotted_part s = do {
     c \<leftarrow> rd s 0;
     x \<leftarrow> rd index_hex (unat c);
     if x > 9 then Some None else more_digits (drop 1 s) (ucast x) }"

definition bcd_bad :: "u32 \<Rightarrow> bool" where
  "bcd_bad val \<longleftrightarrow> val > 0x0255 \<or> (val AND 0xf0) > 0x90 \<or> (val AND 0xf) > 9"

definition from_bcd :: "u32 \<Rightarrow> u32" where
  "from_bcd val = drop_bit 8 val * 100 + (drop_bit 4 val AND 0xf) * 10 + (val AND 0xf)"

text \<open>One of the parts after the first: a dot has just been passed, \<open>last\<close> says what must follow.\<close>

definition v4_part :: "(byte \<Rightarrow> bool) \<Rightarrow> buf \<Rightarrow> PRIPv6Addr \<Rightarrow> nat \<Rightarrow> (PRIPv6Addr + PRIPv6Addr \<times> buf) exec" where
  "v4_part follow s addr k = do {
     r \<leftarrow> dotted_part (drop 1 s);
     case r of
       None \<Rightarrow> Some (Inl addr)
     | Some (val, s) \<Rightarrow> do {
         c \<leftarrow> rd s 0;
         if \<not> follow c then Some (Inl addr)
         else do { addr \<leftarrow> set_byte addr k (ucast val); Some (Inr (addr, s)) } } }"

definition v4_tail :: "buf \<Rightarrow> v6_state \<Rightarrow> (PRIPv6Addr + v6_state) exec" where
  "v4_tail s st =
     (if v6_section st > 6 \<or> bcd_bad (v6_val st) then Some (Inl (v6_addr st))
      else do {
        let section = v6_section st;
        addr \<leftarrow> set_byte (v6_addr st) (2 * section) (ucast (from_bcd (v6_val st)));
        r \<leftarrow> v4_part (\<lambda>c. c = 46) s addr (2 * section + 1);
        case r of Inl addr \<Rightarrow> Some (Inl addr) | Inr (addr, s) \<Rightarrow> do {
          let section = section + 1;
          r \<leftarrow> v4_part (\<lambda>c. c = 46) s addr (2 * section);
          case r of Inl addr \<Rightarrow> Some (Inl addr) | Inr (addr, s) \<Rightarrow> do {
            r \<leftarrow> v4_part (\<lambda>c. c = 0) s addr (2 * section + 1);
            case r of Inl addr \<Rightarrow> Some (Inl addr)
            | Inr (addr, s) \<Rightarrow> Some (Inr (st\<lparr>v6_addr := addr, v6_section := section + 1\<rparr>)) } } })"

text \<open>Stretching the double colon: \<open>n\<close> counts \<open>ncopy\<close> down, \<open>k\<close> the sections still to be cleared.\<close>

fun stretch_copy :: "nat \<Rightarrow> nat \<Rightarrow> nat \<Rightarrow> PRIPv6Addr \<Rightarrow> (nat \<times> PRIPv6Addr) exec" where
  "stretch_copy colon 0 tosection addr = Some (tosection, addr)"
| "stretch_copy colon (Suc n) tosection addr = do {
     w \<leftarrow> rd addr (colon + n);
     addr \<leftarrow> wr addr tosection w;
     stretch_copy colon n (tosection - 1) addr }"

fun stretch_clear :: "nat \<Rightarrow> nat \<Rightarrow> PRIPv6Addr \<Rightarrow> PRIPv6Addr exec" where
  "stretch_clear colon tosection addr =
     (if tosection \<ge> colon \<and> 0 < colon then do {
        addr \<leftarrow> wr addr tosection 0; stretch_clear colon (tosection - 1) addr }
      else Some addr)"

declare stretch_clear.simps [simp del]

definition stretch :: "nat \<Rightarrow> nat \<Rightarrow> PRIPv6Addr \<Rightarrow> PRIPv6Addr exec" where
  "stretch colon section addr = do {
     let ncopy = section - colon;
     (tosection, addr) \<leftarrow> stretch_copy colon ncopy 7 addr;
     stretch_clear colon tosection addr }"

text \<open>The loop and what follows it. The result is the return value, 1 or 0, and what the address then holds.\<close>

definition v6_from :: "buf \<Rightarrow> v6_state \<Rightarrow> (bool \<times> PRIPv6Addr) exec" where
  "v6_from s st = do {
     r \<leftarrow> v6_loop s st;
     case r of Inl addr \<Rightarrow> Some (False, addr)
     | Inr (s, st) \<Rightarrow> do {
         c \<leftarrow> rd s 0;
         r \<leftarrow> (if c = 46 then v4_tail s st else Some (Inr st));
         case r of Inl addr \<Rightarrow> Some (False, addr)
         | Inr st \<Rightarrow> (case v6_colon st of
             Some colon \<Rightarrow> do { addr \<leftarrow> stretch colon (v6_section st) (v6_addr st); Some (True, addr) }
           | None \<Rightarrow> Some (v6_section st = 8, v6_addr st)) } }"

definition StringToV6Addr :: "buf \<Rightarrow> PRIPv6Addr \<Rightarrow> (bool \<times> PRIPv6Addr) exec" where
  "StringToV6Addr string addr = do {
     c \<leftarrow> rd string 0;
     if c = 58 then do {
       c \<leftarrow> rd string 1;
       if c \<noteq> 58 then Some (False, addr)
       else do {
         addr \<leftarrow> wr addr 0 0;
         v6_from (drop 2 string) \<lparr>v6_addr = addr, v6_section = 1, v6_colon = Some 1, v6_val = 0\<rparr> } }
     else v6_from string \<lparr>v6_addr = addr, v6_section = 0, v6_colon = None, v6_val = 0\<rparr> }"

section \<open>Printing an IPv6 address\<close>

definition basis_hex :: buf where
  "basis_hex = bytes_of ''0123456789abcdef''"

text \<open>The arguments of the \<open>STUFF\<close> calls in their order, and \<open>STUFF\<close> on all of them: \<open>Inl\<close> is \<open>return NULL\<close>,
  with the buffer as it then is, when \<open>size\<close> has come down to 0.\<close>

fun STUFF :: "byte list \<Rightarrow> buf \<Rightarrow> nat \<Rightarrow> u32 \<Rightarrow> (buf + buf) exec" where
  "STUFF [] b i n = Some (Inr b)"
| "STUFF (c # cs) b i n =
     (if n = 0 then Some (Inl b) else do { b \<leftarrow> wr b i c; STUFF cs b (i + 1) (n - 1) })"

text \<open>Where the double colon goes: its section and its length, from the scan for the longest run of zeros.\<close>

function zero_run :: "PRIPv6Addr \<Rightarrow> nat \<Rightarrow> nat \<Rightarrow> (nat \<times> nat) exec" where
  "zero_run a section zero_length =
     (if section < 8 then do {
        w \<leftarrow> rd a section;
        if w = 0 then zero_run a (section + 1) (zero_length + 1) else Some (section, zero_length) }
      else Some (section, zero_length))"
  by pat_completeness auto
termination by (relation "measure (\<lambda>(a, section, _). 8 - section)") auto

declare zero_run.simps [simp del]

lemma zero_run_ge: "zero_run a s z = Some (s', z') \<Longrightarrow> s \<le> s'"
proof (induction a s z rule: zero_run.induct)
  case (1 a s z)
  then show ?case by (subst (asm) (2) zero_run.simps) (fastforce simp: bind_eq_Some_conv split: if_splits)
qed

function colon_scan :: "PRIPv6Addr \<Rightarrow> nat \<Rightarrow> nat option \<Rightarrow> nat \<Rightarrow> (nat option \<times> nat) exec" where
  "colon_scan a section colon len =
     (if section < 8 then do {
        w \<leftarrow> rd a section;
        if w = 0 then
          (case zero_run a (section + 1) 1 of None \<Rightarrow> None
           | Some (section, zero_length) \<Rightarrow>
               if zero_length > len then colon_scan a (section + 1) (Some (section - zero_length)) zero_length
               else colon_scan a (section + 1) colon len)
        else colon_scan a (section + 1) colon len }
      else Some (colon, len))"
  by pat_completeness auto
termination by (relation "measure (\<lambda>(a, section, _). 8 - section)") (auto dest!: zero_run_ge)

declare colon_scan.simps [simp del]

definition dec_chars :: "byte \<Rightarrow> buf" where
  "dec_chars b = (if b > 99 then [b div 100 + 48] else []) @ (if b > 9 then [b mod 100 div 10 + 48] else []) @
     [b mod 10 + 48]"

definition hex_chars :: "u16 \<Rightarrow> buf exec" where
  "hex_chars val = do {
     a \<leftarrow> rd basis_hex (unat (drop_bit 12 val));
     b \<leftarrow> rd basis_hex (unat (drop_bit 8 val AND 0xf));
     c \<leftarrow> rd basis_hex (unat (drop_bit 4 val AND 0xf));
     d \<leftarrow> rd basis_hex (unat (val AND 0xf));
     Some ((if val > 0xfff then [a] else []) @ (if val > 0xff then [b] else []) @ (if val > 0xf then [c] else []) @ [d]) }"

text \<open>\<open>while (section < 8)\<close>; a double colon of length 0, on which the loop would not end, is the value \<open>None\<close>.\<close>

function section_chars :: "PRIPv6Addr \<Rightarrow> nat option \<Rightarrow> nat \<Rightarrow> nat \<Rightarrow> buf exec" where
  "section_chars a colon len section =
     (if section < 8 then
        if colon = Some section then
          if len = 0 then None
          else do { t \<leftarrow> section_chars a colon len (section + len); Some ([58, 58] @ t) }
        else do {
          val \<leftarrow> rd a section;
          h \<leftarrow> hex_chars val;
          t \<leftarrow> section_chars a colon len (section + 1);
          Some (h @ (if section + 1 < 8 \<and> colon \<noteq> Some (section + 1) then [58] else []) @ t) }
      else Some [])"
  by pat_completeness auto
termination by (relation "measure (\<lambda>(a, colon, len, section). 8 - section)") auto

declare section_chars.simps [simp del]

definition v4_chars :: "PRIPv6Addr \<Rightarrow> nat \<Rightarrow> buf exec" where
  "v4_chars a len = do {
     b12 \<leftarrow> get_byte a 12; b13 \<leftarrow> get_byte a 13; b14 \<leftarrow> get_byte a 14; b15 \<leftarrow> get_byte a 15;
     Some ([58, 58] @ (if len = 5 then [102, 102, 102, 102, 58] else []) @
       dec_chars b12 @ [46] @ dec_chars b13 @ [46] @ dec_chars b14 @ [46] @ dec_chars b15) }"

definition v6_chars :: "PRIPv6Addr \<Rightarrow> buf exec" where
  "v6_chars a = do {
     (colon, len) \<leftarrow> colon_scan a 0 None 1;
     w5 \<leftarrow> rd a 5;
     if colon = Some 0 \<and> (len = 6 \<or> len = 5 \<and> w5 = 0xffff) then v4_chars a len
     else section_chars a colon len 0 }"

text \<open>The result is the pointer returned (\<open>buf\<close> or null) and the buffer.\<close>

definition V6AddrToString :: "PRIPv6Addr \<Rightarrow> buf \<Rightarrow> u32 \<Rightarrow> (bool \<times> buf) exec" where
  "V6AddrToString a b n = do {
     cs \<leftarrow> v6_chars a;
     r \<leftarrow> STUFF (cs @ [0]) b 0 n;
     Some (case r of Inl b \<Rightarrow> (False, b) | Inr b \<Rightarrow> (True, b)) }"

section \<open>Reading an IPv4 address\<close>

definition isxdigit :: "byte \<Rightarrow> bool exec" where
  "isxdigit c = do { x \<leftarrow> rd index_hex (unat c); Some (x \<noteq> XX) }"

definition isspace :: "byte \<Rightarrow> bool" where
  "isspace c \<longleftrightarrow> c = 32 \<or> (9 \<le> c \<and> c \<le> 13)"

text \<open>The inner loop over the digits of a part; the inner \<open>None\<close> is \<open>return 0\<close>.\<close>

fun aton_digits :: "u32 \<Rightarrow> buf \<Rightarrow> u32 \<Rightarrow> bool \<Rightarrow> (u32 \<times> bool \<times> buf) option exec" where
  "aton_digits radix [] val seen = None"
| "aton_digits radix (c # cp) val seen =
     (if isdigit c then
        if radix = 8 \<and> (c = 56 \<or> c = 57) then Some None
        else aton_digits radix cp (val * radix + (ucast c - 48)) True
      else do {
        x \<leftarrow> isxdigit c;
        if radix = 16 \<and> x then do {
          h \<leftarrow> rd index_hex (unat c);
          aton_digits radix cp (push_bit 4 val + ucast h) True }
        else Some (Some (val, seen, c # cp)) })"

definition aton_number :: "buf \<Rightarrow> (u32 \<times> bool \<times> buf) option exec" where
  "aton_number cp = do {
     c \<leftarrow> rd cp 0;
     if \<not> isdigit c then Some None
     else if c = 48 then do {
       let cp = drop 1 cp;
       c \<leftarrow> rd cp 0;
       if c = 120 \<or> c = 88 then aton_digits 16 (drop 1 cp) 0 False else aton_digits 8 cp 0 True }
     else aton_digits 10 cp 0 False }"

text \<open>The outer loop; \<open>parts\<close> are those stored so far, \<open>room\<close> is \<open>parts + 3 - pp\<close>.\<close>

fun aton_parts :: "nat \<Rightarrow> buf \<Rightarrow> byte list \<Rightarrow> (byte list \<times> u32 \<times> bool \<times> buf) option exec" where
  "aton_parts room cp parts = do {
     r \<leftarrow> aton_number cp;
     case r of None \<Rightarrow> Some None
     | Some (val, seen, cp) \<Rightarrow> do {
         c \<leftarrow> rd cp 0;
         if c = 46 then
           (case room of
              0 \<Rightarrow> Some None
            | Suc room \<Rightarrow> if val > 0xff then Some None else aton_parts room (drop 1 cp) (parts @ [ucast val]))
         else Some (Some (parts, val, seen, cp)) } }"

declare aton_parts.simps [simp del]

text \<open>\<open>parts[i] << 24\<close>: the part is promoted to \<open>int\<close> and the result converted to 32 bits.\<close>

definition part_at :: "byte list \<Rightarrow> nat \<Rightarrow> nat \<Rightarrow> u32 exec" where
  "part_at parts i k = do { p \<leftarrow> rd parts i; Some (push_bit k (ucast p)) }"

definition concoct :: "byte list \<Rightarrow> u32 \<Rightarrow> u32 option exec" where
  "concoct parts val =
     (case length parts of
        0 \<Rightarrow> Some (Some val)
      | Suc 0 \<Rightarrow> if val > 0xffffff then Some None
          else do { a \<leftarrow> part_at parts 0 24; Some (Some (val OR a)) }
      | Suc (Suc 0) \<Rightarrow> if val > 0xffff then Some None
          else do { a \<leftarrow> part_at parts 0 24; b \<leftarrow> part_at parts 1 16; Some (Some (val OR (a OR b))) }
      | _ \<Rightarrow> if val > 0xff then Some None
          else do { a \<leftarrow> part_at parts 0 24; b \<leftarrow> part_at parts 1 16; c \<leftarrow> part_at parts 2 8;
                    Some (Some (val OR (a OR b OR c))) })"

text \<open>The result: what is stored at \<open>addr\<close>, when the function returns 1.\<close>

definition pr_inet_aton :: "buf \<Rightarrow> u32 option exec" where
  "pr_inet_aton cp = do {
     r \<leftarrow> aton_parts 3 cp [];
     case r of None \<Rightarrow> Some None
     | Some (parts, val, seen, cp) \<Rightarrow> do {
         c \<leftarrow> rd cp 0;
         if c \<noteq> 0 \<and> \<not> isspace c then Some None
         else if \<not> seen then Some None
         else concoct parts val } }"

section \<open>Addresses of either family\<close>

definition pr_StringToNetAddrFB :: "buf \<Rightarrow> PRNetAddr \<Rightarrow> (net_status \<times> net_error option \<times> PRNetAddr) exec" where
  "pr_StringToNetAddrFB string addr = do {
     rv \<leftarrow> pr_inet_aton string;
     case rv of
       Some ip \<Rightarrow> Some (NET_SUCCESS, None, addr\<lparr>na_ip := ip, na_family := PR_AF_INET\<rparr>)
     | None \<Rightarrow> do {
         let addr = addr\<lparr>na_ip := 0\<rparr>;
         (rv, ip6) \<leftarrow> StringToV6Addr string (na_ip6 addr);
         let addr = addr\<lparr>na_ip6 := ip6\<rparr>;
         Some (if rv then (NET_SUCCESS, None, addr\<lparr>na_family := PR_AF_INET6\<rparr>)
               else (NET_FAILURE, Some PR_INVALID_ARGUMENT_ERROR, addr)) } }"

text \<open>\<open>gai\<close> is \<open>pr_StringToNetAddrGAI\<close>, which asks \<open>getaddrinfo\<close>; \<open>probe\<close> whether IPv6 has to be probed for,
  \<open>present\<close> whether it was found.\<close>

definition PR_StringToNetAddr ::
  "(buf \<Rightarrow> PRNetAddr \<Rightarrow> net_status \<times> net_error option \<times> PRNetAddr) \<Rightarrow> bool \<Rightarrow> bool \<Rightarrow> buf ptr \<Rightarrow> PRNetAddr ptr \<Rightarrow>
   (net_status \<times> net_error option \<times> PRNetAddr ptr) exec" where
  "PR_StringToNetAddr gai probe present string addr = (case (string, addr) of
     (Some s, Some a) \<Rightarrow> do {
        c \<leftarrow> rd s 0;
        if c = 0 then Some (NET_FAILURE, Some PR_INVALID_ARGUMENT_ERROR, addr)
        else if probe \<and> \<not> present \<or> 37 \<notin> set (cstr s) then do {
          (rv, e, a) \<leftarrow> pr_StringToNetAddrFB s a; Some (rv, e, Some a) }
        else (case gai s a of (rv, e, a) \<Rightarrow> Some (rv, e, Some a)) }
   | _ \<Rightarrow> Some (NET_FAILURE, Some PR_INVALID_ARGUMENT_ERROR, addr))"

definition ip_bytes :: "u32 \<Rightarrow> byte list" where
  "ip_bytes ip = [ucast (drop_bit 24 ip), ucast (drop_bit 16 ip), ucast (drop_bit 8 ip), ucast ip]"

definition pr_NetAddrToStringFB ::
  "(nat \<Rightarrow> bool) \<Rightarrow> (buf \<Rightarrow> 'd \<Rightarrow> buf) \<Rightarrow> PRNetAddr \<Rightarrow> buf \<Rightarrow> u32 \<Rightarrow> (net_status \<times> net_error option \<times> buf) exec" where
  "pr_NetAddrToStringFB mem native addr string n =
     (if na_family addr = PR_AF_INET6 then do {
        (r, string) \<leftarrow> V6AddrToString (na_ip6 addr) string n;
        Some (if r then (NET_SUCCESS, None, string) else (NET_FAILURE, Some PR_BUFFER_OVERFLOW_ERROR, string)) }
      else if n < 16 \<or> PR_AF_INET \<noteq> na_family addr then Some (NET_FAILURE, Some PR_INVALID_ARGUMENT_ERROR, string)
      else do {
        (_, string, _) \<leftarrow> PR_snprintf mem native string n (bytes_of ''%u.%u.%u.%u'' @ [0])
          (map (\<lambda>b. VInt (uint b)) (ip_bytes (na_ip addr)));
        Some (NET_SUCCESS, None, string) })"

definition PR_NetAddrToString ::
  "(PRNetAddr \<Rightarrow> buf \<Rightarrow> u32 \<Rightarrow> net_status \<times> net_error option \<times> buf) \<Rightarrow> bool \<Rightarrow>
   (nat \<Rightarrow> bool) \<Rightarrow> (buf \<Rightarrow> 'd \<Rightarrow> buf) \<Rightarrow> PRNetAddr \<Rightarrow> buf \<Rightarrow> u32 \<Rightarrow> (net_status \<times> net_error option \<times> buf) exec" where
  "PR_NetAddrToString gni fallback mem native addr string n =
     (if fallback then pr_NetAddrToStringFB mem native addr string n else Some (gni addr string n))"

section \<open>Setting and classifying\<close>

definition INADDR_ANY :: u32 where "INADDR_ANY = 0"
definition INADDR_LOOPBACK :: u32 where "INADDR_LOOPBACK = 0x7f000001"

definition pr_in6addr_any :: PRIPv6Addr where "pr_in6addr_any = replicate 8 0"
definition pr_in6addr_loopback :: PRIPv6Addr where "pr_in6addr_loopback = replicate 7 0 @ [1]"

text \<open>\<open>memset(addr, 0, sizeof(addr->inet))\<close>: the padding of \<open>inet\<close> lies over the first half of the IPv6 address.\<close>

definition clear_inet :: "PRNetAddr \<Rightarrow> PRNetAddr" where
  "clear_inet addr = addr\<lparr>na_family := 0, na_port := 0, na_ip := 0, na_ip6 := replicate 4 0 @ drop 4 (na_ip6 addr)\<rparr>"

definition clear_ipv6 :: "PRNetAddr \<Rightarrow> PRNetAddr" where
  "clear_ipv6 addr = addr\<lparr>na_family := 0, na_port := 0, na_ip := 0, na_ip6 := replicate 8 0, na_scope := 0\<rparr>"

definition inet_value :: "PRNetAddrValue \<Rightarrow> PRNetAddr \<Rightarrow> net_status \<times> net_error option \<times> PRNetAddr" where
  "inet_value val addr = (case val of
     PR_IpAddrNull \<Rightarrow> (NET_SUCCESS, None, addr)
   | PR_IpAddrAny \<Rightarrow> (NET_SUCCESS, None, addr\<lparr>na_ip := INADDR_ANY\<rparr>)
   | PR_IpAddrLoopback \<Rightarrow> (NET_SUCCESS, None, addr\<lparr>na_ip := INADDR_LOOPBACK\<rparr>)
   | PR_IpAddrV4Mapped \<Rightarrow> (NET_FAILURE, Some PR_INVALID_ARGUMENT_ERROR, addr))"

definition PR_InitializeNetAddr ::
  "PRNetAddrValue \<Rightarrow> u16 \<Rightarrow> PRNetAddr \<Rightarrow> net_status \<times> net_error option \<times> PRNetAddr" where
  "PR_InitializeNetAddr val port addr =
     (let addr = (if val \<noteq> PR_IpAddrNull then clear_inet addr else addr);
          addr = addr\<lparr>na_family := PR_AF_INET, na_port := port\<rparr>
      in inet_value val addr)"

definition PR_SetNetAddr ::
  "PRNetAddrValue \<Rightarrow> u16 \<Rightarrow> u16 \<Rightarrow> PRNetAddr \<Rightarrow> net_status \<times> net_error option \<times> PRNetAddr" where
  "PR_SetNetAddr val af port addr =
     (if af = PR_AF_INET6 then
        let addr = (if val \<noteq> PR_IpAddrNull then clear_ipv6 addr else addr);
            addr = addr\<lparr>na_family := af, na_port := port, na_ip := 0, na_scope := 0\<rparr>
        in (case val of
              PR_IpAddrNull \<Rightarrow> (NET_SUCCESS, None, addr)
            | PR_IpAddrAny \<Rightarrow> (NET_SUCCESS, None, addr\<lparr>na_ip6 := pr_in6addr_any\<rparr>)
            | PR_IpAddrLoopback \<Rightarrow> (NET_SUCCESS, None, addr\<lparr>na_ip6 := pr_in6addr_loopback\<rparr>)
            | PR_IpAddrV4Mapped \<Rightarrow> (NET_FAILURE, Some PR_INVALID_ARGUMENT_ERROR, addr))
      else
        let addr = (if val \<noteq> PR_IpAddrNull then clear_inet addr else addr)
        in inet_value val (addr\<lparr>na_family := af, na_port := port\<rparr>))"

definition IS_ADDR_UNSPECIFIED :: "PRIPv6Addr \<Rightarrow> bool" where
  "IS_ADDR_UNSPECIFIED a \<longleftrightarrow> take 8 a = replicate 8 0"

definition IS_ADDR_LOOPBACK :: "PRIPv6Addr \<Rightarrow> bool" where
  "IS_ADDR_LOOPBACK a \<longleftrightarrow> take 6 a = replicate 6 0 \<and> get_byte a 12 = Some 0 \<and> get_byte a 13 = Some 0 \<and>
     get_byte a 14 = Some 0 \<and> get_byte a 15 = Some 1"

definition IS_ADDR_V4MAPPED :: "PRIPv6Addr \<Rightarrow> bool" where
  "IS_ADDR_V4MAPPED a \<longleftrightarrow> take 4 a = replicate 4 0 \<and> get_byte a 8 = Some 0 \<and> get_byte a 9 = Some 0 \<and>
     get_byte a 10 = Some 0xff \<and> get_byte a 11 = Some 0xff"

definition V4MAPPED_TO_IPADDR :: "PRIPv6Addr \<Rightarrow> u32" where
  "V4MAPPED_TO_IPADDR a = push_bit 16 (ucast (a ! 6)) OR ucast (a ! 7)"

definition PR_IsNetAddrType :: "PRNetAddr \<Rightarrow> PRNetAddrValue \<Rightarrow> bool" where
  "PR_IsNetAddrType addr val =
     (if na_family addr = PR_AF_INET6 then
        let a = na_ip6 addr in
        if val = PR_IpAddrAny then
          IS_ADDR_UNSPECIFIED a \<or> IS_ADDR_V4MAPPED a \<and> V4MAPPED_TO_IPADDR a = INADDR_ANY
        else if val = PR_IpAddrLoopback then
          IS_ADDR_LOOPBACK a \<or> IS_ADDR_V4MAPPED a \<and> V4MAPPED_TO_IPADDR a = INADDR_LOOPBACK
        else val = PR_IpAddrV4Mapped \<and> IS_ADDR_V4MAPPED a
      else if na_family addr = PR_AF_INET then
        val = PR_IpAddrAny \<and> na_ip addr = INADDR_ANY \<or> val = PR_IpAddrLoopback \<and> na_ip addr = INADDR_LOOPBACK
      else False)"

text \<open>\<open>memset\<close> of ten zeros and two \<open>0xff\<close>, then the four bytes of the IPv4 address.\<close>

definition PR_ConvertIPv4AddrToIPv6 :: "u32 \<Rightarrow> PRIPv6Addr" where
  "PR_ConvertIPv4AddrToIPv6 v4addr =
     replicate 5 0 @ [0xffff, ucast (drop_bit 16 v4addr), ucast v4addr]"

section \<open>Byte order, on a little-endian machine\<close>

definition htonl :: "u32 \<Rightarrow> u32" where
  "htonl n = push_bit 24 n OR (push_bit 8 n AND 0xff0000) OR (drop_bit 8 n AND 0xff00) OR drop_bit 24 n"

definition PR_htonll :: "64 word \<Rightarrow> 64 word" where
  "PR_htonll n =
     (let lo = (ucast n :: u32); tmp = drop_bit 32 n; hi = (ucast tmp :: u32);
          hi = htonl hi; lo = htonl lo; n = (ucast lo :: 64 word); n = push_bit 32 n; tmp = ucast hi
      in n + tmp)"

definition PR_ntohll :: "64 word \<Rightarrow> 64 word" where
  "PR_ntohll n =
     (let lo = (ucast n :: u32); tmp = drop_bit 32 n; hi = (ucast tmp :: u32);
          hi = htonl hi; lo = htonl lo; n = (ucast lo :: 64 word); n = push_bit 32 n; tmp = ucast hi
      in n + tmp)"

section \<open>Digits\<close>

lemma length_tables [simp]: "length index_hex = 256" "length basis_hex = 16"
  by (simp_all add: index_hex_def basis_hex_def bytes_of_def)

lemma rd_index_hex [simp]: "rd index_hex (unat (c :: byte)) = Some (index_hex ! unat c)"
  using unat_byte_less [of c] by (simp add: rd_def)

definition hexd :: "nat \<Rightarrow> byte" where "hexd d = basis_hex ! d"

lemma basis_values:
  assumes "d < 16"
  shows "index_hex ! unat (hexd d) = word_of_nat d" "hexd d \<noteq> 0" "hexd d \<noteq> 58" "hexd d \<noteq> 46"
    "d < 10 \<Longrightarrow> hexd d = word_of_nat (48 + d)" "(word_of_nat d :: byte) \<noteq> XX"
proof -
  have "list_all (\<lambda>d. index_hex ! unat (hexd d) = word_of_nat d \<and> hexd d \<noteq> 0 \<and> hexd d \<noteq> 58 \<and> hexd d \<noteq> 46 \<and>
      (d < 10 \<longrightarrow> hexd d = word_of_nat (48 + d)) \<and> (word_of_nat d :: byte) \<noteq> XX) [0..<16]"
    by code_simp
  then have "index_hex ! unat (hexd d) = word_of_nat d \<and> hexd d \<noteq> 0 \<and> hexd d \<noteq> 58 \<and> hexd d \<noteq> 46 \<and>
      (d < 10 \<longrightarrow> hexd d = word_of_nat (48 + d)) \<and> (word_of_nat d :: byte) \<noteq> XX"
    using assms by (simp add: list_all_iff)
  then show "index_hex ! unat (hexd d) = word_of_nat d" "hexd d \<noteq> 0" "hexd d \<noteq> 58" "hexd d \<noteq> 46"
    "d < 10 \<Longrightarrow> hexd d = word_of_nat (48 + d)" "(word_of_nat d :: byte) \<noteq> XX" by blast+
qed

lemma index_hex_stop: "index_hex ! unat (0 :: byte) = XX" "index_hex ! unat (58 :: byte) = XX" "index_hex ! unat (46 :: byte) = XX"
  by code_simp+

text \<open>Digits to a base, most significant first.\<close>

definition digits_value :: "nat \<Rightarrow> nat list \<Rightarrow> nat" where
  "digits_value b ds = foldl (\<lambda>x d. x * b + d) 0 ds"

lemma hex_group_digits:
  assumes "length ds \<le> k" "\<forall>d\<in>set ds. d < 16" "index_hex ! unat c = XX"
  shows "hex_group k (map hexd ds @ c # t) len (word_of_nat v) =
    Some (len + length ds, word_of_nat (foldl (\<lambda>x d. x * 16 + d) v ds), c # t)"
  using assms(1,2)
proof (induction ds arbitrary: k len v)
  case Nil
  then show ?case using assms(3) by (cases k) simp_all
next
  case (Cons d ds)
  obtain k' where k: "k = Suc k'" using Cons(2) by (cases k) auto
  have d: "d < 16" using Cons(3) by simp
  note b = basis_values [OF d]
  have u: "(ucast (word_of_nat d :: byte) :: u32) = word_of_nat d"
    using d by (simp add: word_unat_eq_iff unat_ucast_byte unsigned_of_nat take_bit_nat_eq_self)
  have p: "push_bit 4 (word_of_nat v) + word_of_nat d = (word_of_nat (v * 16 + d) :: u32)"
    by (simp add: push_bit_eq_mult)
  have "hex_group k' (map hexd ds @ c # t) (len + 1) (word_of_nat (v * 16 + d)) =
      Some (len + 1 + length ds, word_of_nat (foldl (\<lambda>x d. x * 16 + d) (v * 16 + d) ds), c # t)"
    using Cons(2,3) k by (intro Cons(1)) auto
  then show ?case using b p u by (simp add: k)
qed

text \<open>The significant hexadecimal digits of a section, and their characters.\<close>

definition nibs :: "nat \<Rightarrow> nat list" where
  "nibs n = (if n > 4095 then [n div 4096] else []) @ (if n > 255 then [n div 256 mod 16] else []) @
     (if n > 15 then [n div 16 mod 16] else []) @ [n mod 16]"

definition hexs :: "u16 \<Rightarrow> buf" where
  "hexs v = map hexd (nibs (unat v))"

lemma unat_u16_less: "unat (v :: u16) < 65536"
  using unsigned_less [of v, where ?'a = nat] by simp

lemma nibs_ok:
  assumes "n < 65536"
  shows "\<forall>d\<in>set (nibs n). d < 16" "length (nibs n) \<le> 4" "nibs n \<noteq> []" "digits_value 16 (nibs n) = n"
proof -
  show "\<forall>d\<in>set (nibs n). d < 16" "length (nibs n) \<le> 4" "nibs n \<noteq> []"
    using assms by (auto simp: nibs_def less_mult_imp_div_less)
  have a: "n = n div 16 * 16 + n mod 16" "n div 16 = n div 256 * 16 + n div 16 mod 16"
    "n div 256 = n div 4096 * 16 + n div 256 mod 16"
    using div_mult_mod_eq [of "n div 16" 16] div_mult_mod_eq [of "n div 256" 16] by (simp_all add: div_mult2_eq [symmetric])
  have z: "n \<le> 4095 \<Longrightarrow> n div 4096 = 0" "n \<le> 255 \<Longrightarrow> n div 256 = 0" "n \<le> 15 \<Longrightarrow> n div 16 = 0" by simp_all
  show "digits_value 16 (nibs n) = n"
    unfolding digits_value_def nibs_def using a z
    by (cases "n > 4095"; cases "n > 255"; cases "n > 15") (simp_all del: div_mult_mod_eq)
qed

lemma hex_chars_eq: "hex_chars v = Some (hexs v)"
proof -
  have m: "(0xf :: u16) = mask 4" by (simp add: mask_eq_exp_minus_1)
  have n: "unat (drop_bit 12 v) = unat v div 4096" "unat (drop_bit 8 v AND 0xf) = unat v div 256 mod 16"
    "unat (drop_bit 4 v AND 0xf) = unat v div 16 mod 16" "unat (v AND 0xf) = unat v mod 16"
    unfolding m unat_and_mask unat_drop_bit by simp_all
  have b: "unat v div 4096 < 16" "unat v div 256 mod 16 < 16" "unat v div 16 mod 16 < 16" "unat v mod 16 < 16"
    using unat_u16_less [of v] by (simp_all add: less_mult_imp_div_less)
  have c: "v > 0xfff \<longleftrightarrow> unat v > 4095" "v > 0xff \<longleftrightarrow> unat v > 255" "v > 0xf \<longleftrightarrow> unat v > 15"
    by (simp_all add: word_less_nat_alt)
  show ?thesis unfolding hex_chars_def n c using b by (simp add: rd_ok hexs_def nibs_def hexd_def)
qed

lemma hexs_head: obtains d r where "hexs v = hexd d # r" "d < 16"
  using nibs_ok [OF unat_u16_less, of v] by (cases "nibs (unat v)") (auto simp: hexs_def)

lemma hex_group_hexs:
  assumes "index_hex ! unat c = XX"
  shows "\<exists>len. len \<noteq> 0 \<and> hex_group 4 (hexs v @ c # t) 0 0 = Some (len, ucast v, c # t)"
proof -
  note n = nibs_ok [OF unat_u16_less, of v]
  have "hex_group 4 (hexs v @ c # t) 0 0 = Some (length (nibs (unat v)), word_of_nat (unat v), c # t)"
    using hex_group_digits [OF n(2,1) assms, of t 0 0] n(4) by (simp add: hexs_def digits_value_def)
  moreover have "word_of_nat (unat v) = (ucast v :: u32)" by simp
  ultimately show ?thesis using n(3) by auto
qed

section \<open>Sections as text\<close>

text \<open>Sections joined with colons.\<close>

fun join :: "u16 list \<Rightarrow> buf" where
  "join [] = []"
| "join [g] = hexs g"
| "join (g # h # gs) = hexs g @ 58 # join (h # gs)"

lemma join_Cons: "gs \<noteq> [] \<Longrightarrow> join (g # gs) = hexs g @ 58 # join gs"
  by (cases gs) simp_all

lemma section_plain:
  assumes "length a = 8" "section \<le> 8" "\<forall>d. colon = Some d \<longrightarrow> d < section"
  shows "section_chars a colon len section = Some (join (drop section a))"
  using assms(2,3)
proof (induction "8 - section" arbitrary: "section")
  case 0
  then show ?case using assms(1) by (simp add: section_chars.simps)
next
  case (Suc n)
  have r: "section_chars a colon len (section + 1) = Some (join (drop (section + 1) a))"
    using Suc(2,3,4) by (intro Suc(1)) auto
  have c: "colon \<noteq> Some section" "colon \<noteq> Some (section + 1)" "section < 8" using Suc(2,4) by auto
  have d: "drop section a = a ! section # drop (section + 1) a" using c assms(1) by (simp add: Cons_nth_drop_Suc)
  have e: "drop (section + 1) a = [] \<longleftrightarrow> \<not> section + 1 < 8" using assms(1) by auto
  show ?case unfolding d using c r assms(1) e
    by (subst section_chars.simps) (cases "section + 1 < 8"; simp add: rd_ok hex_chars_eq join_Cons del: drop_eq_Nil)
qed

lemma section_colon:
  assumes "length a = 8" "section \<le> d" "d + len \<le> 8" "0 < len"
  shows "section_chars a (Some d) len section =
    Some (join (take (d - section) (drop section a)) @ [58, 58] @ join (drop (d + len) a))"
  using assms(2)
proof (induction "d - section" arbitrary: "section")
  case 0
  then have s: "section = d" by simp
  have p: "section_chars a (Some d) len (d + len) = Some (join (drop (d + len) a))"
    using assms by (intro section_plain) auto
  show ?case unfolding s using assms p by (subst section_chars.simps) simp
next
  case (Suc n)
  have s: "section < d" "section < 8" using Suc(2) assms(3,4) by auto
  have r: "section_chars a (Some d) len (section + 1) =
      Some (join (take (d - (section + 1)) (drop (section + 1) a)) @ [58, 58] @ join (drop (d + len) a))"
    using Suc(2,3) by (intro Suc(1)) auto
  have t: "take (d - section) (drop section a) = a ! section # take (d - (section + 1)) (drop (section + 1) a)"
    using s assms(1) by (simp add: Cons_nth_drop_Suc [symmetric] take_Cons' Suc_diff_Suc)
  have e: "take (d - (section + 1)) (drop (section + 1) a) = [] \<longleftrightarrow> section + 1 = d" using s assms(1,3,4) by auto
  show ?case unfolding t using s r assms e
    by (subst section_chars.simps)
      (cases "section + 1 = d"; simp add: rd_ok hex_chars_eq join_Cons del: take_eq_Nil)
qed

section \<open>Reading sections back\<close>

lemma v6_loop_end: "v6_loop (0 # t) st = Some (Inr (0 # t, st))"
  by (simp add: v6_loop.simps)

text \<open>One section, at the end of the text or before a colon.\<close>

lemma v6_loop_group:
  assumes "v6_section st < 8" "length (v6_addr st) = 8"
  shows "v6_loop (hexs g @ 0 # t) st =
      Some (Inr (0 # t, st\<lparr>v6_val := ucast g, v6_addr := (v6_addr st)[v6_section st := g], v6_section := v6_section st + 1\<rparr>))"
    and "e \<noteq> 0 \<Longrightarrow> v6_loop (hexs g @ 58 # e # t) st =
      v6_loop (e # t) (st\<lparr>v6_val := ucast g, v6_addr := (v6_addr st)[v6_section st := g], v6_section := v6_section st + 1\<rparr>)"
proof -
  obtain d r where h: "hexs g = hexd d # r" "d < 16" by (rule hexs_head)
  note b = basis_values(2,3) [OF h(2)]
  have u: "ucast (ucast g :: u32) = g" by (rule bit_word_eqI) (auto simp: bit_simps)
  obtain len where l: "len \<noteq> 0" "hex_group 4 (hexs g @ 0 # t) 0 0 = Some (len, ucast g, 0 # t)"
    using hex_group_hexs [OF index_hex_stop(1)] by blast
  show "v6_loop (hexs g @ 0 # t) st =
      Some (Inr (0 # t, st\<lparr>v6_val := ucast g, v6_addr := (v6_addr st)[v6_section st := g], v6_section := v6_section st + 1\<rparr>))"
    using assms b l(2) by (subst v6_loop.simps) (simp add: h(1) wr_ok u v6_loop_end)
  obtain len where l: "len \<noteq> 0" "hex_group 4 (hexs g @ 58 # e # t) 0 0 = Some (len, ucast g, 58 # e # t)"
    using hex_group_hexs [OF index_hex_stop(2)] by blast
  show "v6_loop (hexs g @ 58 # e # t) st =
      v6_loop (e # t) (st\<lparr>v6_val := ucast g, v6_addr := (v6_addr st)[v6_section st := g], v6_section := v6_section st + 1\<rparr>)" if "e \<noteq> 0"
    using assms b l(2) that by (subst v6_loop.simps) (simp add: h(1) wr_ok u)
qed

lemma join_head: "gs \<noteq> [] \<Longrightarrow> \<exists>e r. join gs = e # r \<and> e \<noteq> 0"
  using hexs_head [of "hd gs"] basis_values(2) by (cases gs rule: join.cases) (metis list.distinct(1), auto, (metis append_Cons)+)

lemma v6_loop_join:
  assumes "v6_section st + length gs \<le> 8" "length (v6_addr st) = 8"
  shows "\<exists>v. v6_loop (join gs @ 0 # t) st = Some (Inr (0 # t, st\<lparr>v6_val := v,
    v6_addr := overlay (v6_addr st) (v6_section st) gs, v6_section := v6_section st + length gs\<rparr>))"
  using assms
proof (induction gs arbitrary: st rule: join.induct)
  case 1
  then show ?case by (intro exI [of _ "v6_val st"]) (simp add: v6_loop_end)
next
  case (2 g)
  then show ?case by (auto simp: v6_loop_group overlay_Cons)
next
  case (3 g h gs)
  obtain e r where e: "join (h # gs) = e # r" "e \<noteq> 0" using join_head [of "h # gs"] by auto
  let ?st = "st\<lparr>v6_val := ucast g, v6_addr := (v6_addr st)[v6_section st := g], v6_section := v6_section st + 1\<rparr>"
  have "v6_loop (join (g # h # gs) @ 0 # t) st = v6_loop (join (h # gs) @ 0 # t) ?st"
    using 3(2,3) e v6_loop_group(2) [of st e g "r @ 0 # t"] by simp
  moreover obtain v where "v6_loop (join (h # gs) @ 0 # t) ?st = Some (Inr (0 # t, ?st\<lparr>v6_val := v,
      v6_addr := overlay (v6_addr ?st) (v6_section ?st) (h # gs), v6_section := v6_section ?st + length (h # gs)\<rparr>))"
    using 3(1) [of ?st] 3(2,3) by auto
  ultimately show ?case using 3(2,3) by (auto simp: overlay_Cons)
qed

text \<open>Sections before a double colon.\<close>

lemma v6_loop_colon:
  assumes "v6_section st < 8" "length (v6_addr st) = 8" "v6_colon st = None"
  shows "v6_loop (58 # t) st = v6_loop t (st\<lparr>v6_addr := (v6_addr st)[v6_section st := 0],
     v6_section := v6_section st + 1, v6_colon := Some (v6_section st + 1)\<rparr>)"
  using assms by (subst v6_loop.simps) (simp add: wr_ok)

lemma v6_loop_join_colon:
  assumes "v6_section st + length gs < 8" "length (v6_addr st) = 8" "v6_colon st = None" "gs \<noteq> []"
  shows "\<exists>v. v6_loop (join gs @ 58 # 58 # t) st = v6_loop t (st\<lparr>v6_val := v,
    v6_addr := overlay (v6_addr st) (v6_section st) (gs @ [0]), v6_section := v6_section st + length gs + 1,
    v6_colon := Some (v6_section st + length gs + 1)\<rparr>)"
  using assms
proof (induction gs arbitrary: st rule: join.induct)
  case (2 g)
  then show ?case by (intro exI [of _ "ucast g"]) (simp add: v6_loop_group v6_loop_colon overlay_Cons)
next
  case (3 g h gs)
  obtain e r where e: "join (h # gs) = e # r" "e \<noteq> 0" using join_head [of "h # gs"] by auto
  let ?st = "st\<lparr>v6_val := ucast g, v6_addr := (v6_addr st)[v6_section st := g], v6_section := v6_section st + 1\<rparr>"
  have "v6_loop (join (g # h # gs) @ 58 # 58 # t) st = v6_loop (join (h # gs) @ 58 # 58 # t) ?st"
    using 3(2,3) e v6_loop_group(2) [of st e g "r @ 58 # 58 # t"] by simp
  moreover obtain v where "v6_loop (join (h # gs) @ 58 # 58 # t) ?st = v6_loop t (?st\<lparr>v6_val := v,
      v6_addr := overlay (v6_addr ?st) (v6_section ?st) ((h # gs) @ [0]), v6_section := v6_section ?st + length (h # gs) + 1,
      v6_colon := Some (v6_section ?st + length (h # gs) + 1)\<rparr>)"
    using 3(1) [of ?st] 3(2-4) by auto
  ultimately show ?case using 3(2,3) by (auto simp: overlay_Cons)
qed simp

section \<open>The double colon\<close>

lemma eight_sections:
  assumes "length (a :: 'a list) = 8"
  obtains x0 x1 x2 x3 x4 x5 x6 x7 where "a = [x0, x1, x2, x3, x4, x5, x6, x7]"
  using assms by (auto simp: eval_nat_numeral length_Suc_conv)

text \<open>Stretching moves the sections after the colon to the end and clears the gap.\<close>

lemma stretch_ok:
  assumes "length a = 8" "0 < colon" "colon \<le> section" "section \<le> 8"
  shows "stretch colon section a = Some (take colon a @ replicate (8 - section) 0 @ drop colon (take section a))"
proof -
  obtain x0 x1 x2 x3 x4 x5 x6 x7 where a: "a = [x0, x1, x2, x3, x4, x5, x6, x7]" using assms(1) by (rule eight_sections)
  have "colon \<in> {1, 2, 3, 4, 5, 6, 7, 8}" "section \<in> {1, 2, 3, 4, 5, 6, 7, 8}" using assms by auto
  then show ?thesis unfolding a using assms(3)
    by (elim insertE emptyE; simp add: stretch_def rd_def wr_def stretch_clear.simps eval_nat_numeral)
qed

lemma zero_run_ok:
  assumes "length a = 8" "section \<le> 8"
  shows "\<exists>e. zero_run a section z = Some (e, z + (e - section)) \<and> section \<le> e \<and> e \<le> 8 \<and>
    (\<forall>i. section \<le> i \<and> i < e \<longrightarrow> a ! i = 0)"
  using assms(2)
proof (induction "8 - section" arbitrary: "section" z)
  case 0
  then show ?case by (intro exI [of _ 8]) (auto simp: zero_run.simps)
next
  case (Suc n)
  then have s: "section < 8" by simp
  show ?case
  proof (cases "a ! section = 0")
    case False
    then show ?thesis using s assms(1) by (intro exI [of _ "section"]) (auto simp: zero_run.simps [of a "section"] rd_ok)
  next
    case True
    obtain e where e: "zero_run a (section + 1) (z + 1) = Some (e, z + 1 + (e - (section + 1)))" "section + 1 \<le> e" "e \<le> 8"
      "\<forall>i. section + 1 \<le> i \<and> i < e \<longrightarrow> a ! i = 0"
    proof -
      have "n = 8 - (section + 1)" "section + 1 \<le> 8" using Suc(2) s by simp_all
      from Suc(1) [OF this, of "z + 1"] show ?thesis using that by blast
    qed
    have "zero_run a section z = Some (e, z + (e - section))"
      using True s assms(1) e(1,2) by (subst zero_run.simps) (simp add: rd_ok)
    moreover have "\<forall>i. section \<le> i \<and> i < e \<longrightarrow> a ! i = 0" using e(4) True by (metis Suc_eq_plus1 Suc_leI le_neq_implies_less)
    ultimately show ?thesis using e(2,3) by (intro exI [of _ e]) simp
  qed
qed

definition zeros :: "PRIPv6Addr \<Rightarrow> nat \<Rightarrow> nat \<Rightarrow> bool" where
  "zeros a d len \<longleftrightarrow> d + len \<le> 8 \<and> (\<forall>i. d \<le> i \<and> i < d + len \<longrightarrow> a ! i = 0)"

lemma colon_scan_ok:
  assumes "length a = 8" "\<forall>d. colon = Some d \<longrightarrow> 2 \<le> len \<and> zeros a d len" "0 < len"
  shows "\<exists>colon' len'. colon_scan a section colon len = Some (colon', len') \<and>
    (\<forall>d. colon' = Some d \<longrightarrow> 2 \<le> len' \<and> zeros a d len')"
  using assms(2,3)
proof (induction "9 - section" arbitrary: "section" colon len rule: less_induct)
  case less
  show ?case
  proof (cases "section < 8")
    case False
    then show ?thesis using less(2) by (simp add: colon_scan.simps)
  next
    case s: True
    show ?thesis
    proof (cases "a ! section = 0")
      case False
      have "\<exists>colon' len'. colon_scan a (section + 1) colon len = Some (colon', len') \<and>
        (\<forall>d. colon' = Some d \<longrightarrow> 2 \<le> len' \<and> zeros a d len')"
        using s less(2,3) by (intro less(1)) auto
      then show ?thesis using False s assms(1) by (simp add: colon_scan.simps [of a "section"] rd_ok)
    next
      case True
      obtain e where e: "zero_run a (section + 1) 1 = Some (e, 1 + (e - (section + 1)))" "section + 1 \<le> e" "e \<le> 8"
        "\<forall>i. section + 1 \<le> i \<and> i < e \<longrightarrow> a ! i = 0" using zero_run_ok [OF assms(1), of "section + 1" 1] s by auto
      define z where "z = 1 + (e - (section + 1))"
      have z: "z = e - section" "e - z = section" using e(2) by (simp_all add: z_def)
      have zr: "zeros a section z" using e z(1) True s
        by (auto simp: zeros_def) (metis Suc_leI le_neq_implies_less)
      have step: "colon_scan a section colon len = (if z > len then colon_scan a (e + 1) (Some section) z
          else colon_scan a (e + 1) colon len)"
        using True s assms(1) e(1) z unfolding z_def [symmetric] by (subst colon_scan.simps) (simp add: rd_ok)
      show ?thesis
      proof (cases "z > len")
        case True
        have "\<exists>colon' len'. colon_scan a (e + 1) (Some section) z = Some (colon', len') \<and>
          (\<forall>d. colon' = Some d \<longrightarrow> 2 \<le> len' \<and> zeros a d len')"
          using e(2) s less(3) True zr by (intro less(1)) auto
        then show ?thesis using True by (simp add: step)
      next
        case False
        have "\<exists>colon' len'. colon_scan a (e + 1) colon len = Some (colon', len') \<and>
          (\<forall>d. colon' = Some d \<longrightarrow> 2 \<le> len' \<and> zeros a d len')"
          using e(2) s less(2,3) by (intro less(1)) auto
        then show ?thesis using False by (simp add: step)
      qed
    qed
  qed
qed

lemma zeros_split:
  assumes "length a = 8" "zeros a d len"
  shows "a = take d a @ replicate len 0 @ drop (d + len) a"
proof (rule nth_equalityI)
  have l: "d + len \<le> 8" using assms(2) by (simp add: zeros_def)
  show "length a = length (take d a @ replicate len 0 @ drop (d + len) a)" using assms(1) l by simp
  fix i assume "i < length a"
  then show "a ! i = (take d a @ replicate len 0 @ drop (d + len) a) ! i"
    using assms l by (auto simp: nth_append zeros_def min_def)
qed

section \<open>Printing and reading back\<close>

lemma sections_back:
  assumes "length a = 8" "length addr = 8" "\<forall>d. colon = Some d \<longrightarrow> 2 \<le> len \<and> zeros a d len"
    and "section_chars a colon len 0 = Some cs"
  shows "StringToV6Addr (cs @ 0 # t) addr = Some (True, a)"
proof (cases colon)
  case None
  have cs: "cs = join a" using section_plain [OF assms(1), of 0 None len] assms(4) None by simp
  obtain g gs where g: "a = g # gs" using assms(1) by (cases a) auto
  obtain d r where h: "hexs g = hexd d # r" "d < 16" by (rule hexs_head)
  have e: "\<exists>r. join a = hexd d # r" using h by (cases gs) (simp_all add: g)
  let ?st = "\<lparr>v6_addr = addr, v6_section = 0, v6_colon = None, v6_val = 0\<rparr>"
  obtain v where v: "v6_loop (join a @ 0 # t) ?st = Some (Inr (0 # t, ?st\<lparr>v6_val := v, v6_addr := overlay addr 0 a, v6_section := 8\<rparr>))"
    using v6_loop_join [of ?st a t] assms(1,2) by auto
  have o: "overlay addr 0 a = a" using assms(1,2) by (simp add: overlay_all)
  show ?thesis using e basis_values(3) [OF h(2)] v o by (auto simp: StringToV6Addr_def v6_from_def cs)
next
  case (Some d)
  then have z: "2 \<le> len" "zeros a d len" "d + len \<le> 8" using assms(3) by (auto simp: zeros_def)
  let ?g1 = "take d a" and ?g2 = "drop (d + len) a"
  have cs: "cs = join ?g1 @ [58, 58] @ join ?g2"
    using section_colon [OF assms(1), of 0 d len] assms(4) Some z by simp
  have l: "length ?g1 = d" "length ?g2 = 8 - (d + len)" using assms(1) z by simp_all
  define w where "w = overlay addr 0 (?g1 @ [0] @ ?g2)"
  have pre: "take (length xs) (xs @ ys @ zs) = xs" "drop (length xs) (take (length xs + length ys) (xs @ ys @ zs)) = ys"
    for xs ys zs :: "u16 list" by simp_all
  have w: "length w = 8" "take (d + 1) w = ?g1 @ [0]" "drop (d + 1) (take (d + 1 + length ?g2) w) = ?g2"
  proof -
    have l1: "length (?g1 @ [0]) = d + 1" using l by simp
    have "w = (?g1 @ [0]) @ ?g2 @ drop (length (?g1 @ [0] @ ?g2)) addr" by (simp add: w_def overlay_def)
    then show "take (d + 1) w = ?g1 @ [0]" "drop (d + 1) (take (d + 1 + length ?g2) w) = ?g2"
      using pre [of "?g1 @ [0]" ?g2 "drop (length (?g1 @ [0] @ ?g2)) addr"] unfolding l1 by (simp_all only:)
    show "length w = 8" using assms(2) z l by (simp add: w_def length_overlay)
  qed
  have st: "stretch (d + 1) (d + 1 + length ?g2) w = Some a"
  proof -
    have "replicate len 0 = (0 :: u16) # replicate (8 - (d + 1 + length ?g2)) 0"
      using z l by (cases len) (simp_all add: replicate_Suc [symmetric] del: replicate_Suc)
    moreover have "a = ?g1 @ replicate len 0 @ ?g2" by (rule zeros_split [OF assms(1) z(2)])
    ultimately have "take (d + 1) w @ replicate (8 - (d + 1 + length ?g2)) 0 @ drop (d + 1) (take (d + 1 + length ?g2) w) = a"
      unfolding w(2,3) by simp
    then show ?thesis
      by (subst stretch_ok [OF w(1)]) (use z l in simp_all)
  qed
  have fin: "\<exists>v. v6_loop (join ?g2 @ 0 # t) s = Some (Inr (0 # t, s\<lparr>v6_val := v, v6_addr := w, v6_section := d + 1 + length ?g2\<rparr>))"
    if "v6_addr s = overlay addr 0 (?g1 @ [0])" "v6_section s = d + 1" for s
  proof -
    have "overlay (overlay addr 0 (?g1 @ [0])) (d + 1) ?g2 = w"
      using overlay_append [of 0 "?g1 @ [0]" addr ?g2] assms(1,2) z l by (simp add: w_def)
    then show ?thesis using v6_loop_join [of s ?g2 t] that assms(2) z l by (simp add: length_overlay)
  qed
  show ?thesis
  proof (cases "d = 0")
    case True
    let ?s = "\<lparr>v6_addr = addr[0 := 0], v6_section = 1, v6_colon = Some 1, v6_val = 0\<rparr>"
    have "v6_addr ?s = overlay addr 0 (?g1 @ [0])" using True assms(2) by (simp add: overlay_Cons)
    then obtain v where "v6_loop (join ?g2 @ 0 # t) ?s = Some (Inr (0 # t, ?s\<lparr>v6_val := v, v6_addr := w, v6_section := d + 1 + length ?g2\<rparr>))"
      using fin [of ?s] True by auto
    then show ?thesis using True st assms(2) by (simp add: StringToV6Addr_def v6_from_def cs wr_ok)
  next
    case False
    then obtain g gs where g: "?g1 = g # gs" using l(1) by (cases ?g1) auto
    obtain k r where h: "hexs g = hexd k # r" "k < 16" by (rule hexs_head)
    have e: "\<exists>r. join ?g1 = hexd k # r" using h by (cases gs) (simp_all add: g)
    let ?s = "\<lparr>v6_addr = addr, v6_section = 0, v6_colon = None, v6_val = 0\<rparr>"
    obtain v where v: "v6_loop (join ?g1 @ 58 # 58 # join ?g2 @ 0 # t) ?s = v6_loop (join ?g2 @ 0 # t) (?s\<lparr>v6_val := v,
      v6_addr := overlay addr 0 (?g1 @ [0]), v6_section := d + 1, v6_colon := Some (d + 1)\<rparr>)"
      using v6_loop_join_colon [of ?s ?g1 "join ?g2 @ 0 # t"] assms(2) z l g by auto
    then obtain v' where "v6_loop (join ?g1 @ 58 # 58 # join ?g2 @ 0 # t) ?s = Some (Inr (0 # t, ?s\<lparr>v6_val := v', v6_addr := w,
        v6_section := d + 1 + length ?g2, v6_colon := Some (d + 1)\<rparr>))"
      using fin [of "?s\<lparr>v6_val := v, v6_addr := overlay addr 0 (?g1 @ [0]), v6_section := d + 1, v6_colon := Some (d + 1)\<rparr>"] by auto
    then show ?thesis using e basis_values(3) [OF h(2)] st by (auto simp: StringToV6Addr_def v6_from_def cs)
  qed
qed

section \<open>The IPv4 part\<close>

definition ddigits :: "nat \<Rightarrow> nat list" where
  "ddigits n = (if n > 99 then [n div 100] else []) @ (if n > 9 then [n mod 100 div 10] else []) @ [n mod 10]"

definition decs :: "nat \<Rightarrow> buf" where
  "decs n = map hexd (ddigits n)"

lemma ddigits_ok:
  assumes "n < 1000"
  shows "\<forall>d\<in>set (ddigits n). d < 10" "length (ddigits n) \<le> 3" "ddigits n \<noteq> []" "digits_value 10 (ddigits n) = n"
proof -
  show "\<forall>d\<in>set (ddigits n). d < 10" "length (ddigits n) \<le> 3" "ddigits n \<noteq> []"
    using assms by (auto simp: ddigits_def less_mult_imp_div_less)
  have a: "n = n div 100 * 100 + n mod 100" "n mod 100 = n mod 100 div 10 * 10 + n mod 10"
    using div_mult_mod_eq [of "n mod 100" 10] by (simp_all add: mod_mod_cancel)
  have z: "n \<le> 99 \<Longrightarrow> n div 100 = 0" "n \<le> 9 \<Longrightarrow> n mod 100 div 10 = 0" by simp_all
  have v: "digits_value 10 (ddigits n) = (if n > 99 then n div 100 * 100 else 0) + (if n > 9 then n mod 100 div 10 * 10 else 0) + n mod 10"
    by (auto simp: digits_value_def ddigits_def)
  show "digits_value 10 (ddigits n) = n"
  proof -
    have "(if n > 99 then n div 100 * 100 else 0) = n div 100 * 100"
      "(if n > 9 then n mod 100 div 10 * 10 else 0) = n mod 100 div 10 * 10" using z by simp_all
    then show ?thesis unfolding v using a by linarith
  qed
qed

lemma dec_chars_eq: "dec_chars b = decs (unat b)"
proof -
  have c: "b > 99 \<longleftrightarrow> unat b > 99" "b > 9 \<longleftrightarrow> unat b > 9" by (simp_all add: word_less_nat_alt)
  have h: "hexd d = word_of_nat d + 48" if "d < 10" for d using basis_values(5) [of d] that by (simp add: add.commute)
  have d: "unat b div 100 < 10" "unat b mod 100 div 10 < 10" "unat b mod 10 < 10"
    using unat_byte_less [of b] by (simp_all add: less_mult_imp_div_less)
  have u: "unat (b div 100) = unat b div 100" "unat (b mod 100 div 10) = unat b mod 100 div 10" "unat (b mod 10) = unat b mod 10"
    by (simp_all add: unat_div unat_mod)
  have w: "word_of_nat (unat b div 100) = b div 100" "word_of_nat (unat b mod 100 div 10) = b mod 100 div 10"
    "word_of_nat (unat b mod 10) = b mod 10"
    unfolding u [symmetric] by simp_all
  show ?thesis unfolding dec_chars_def decs_def ddigits_def c using h [OF d(1)] h [OF d(2)] h [OF d(3)] w by simp
qed

text \<open>A number below 256 in BCD.\<close>

lemma bcd_byte:
  assumes "n < 256"
  shows "\<not> bcd_bad (word_of_nat (digits_value 16 (ddigits n)))"
    "from_bcd (word_of_nat (digits_value 16 (ddigits n))) = word_of_nat n"
proof -
  define h t u where "h = n div 100" and "t = n mod 100 div 10" and "u = n mod 10"
  have b: "h < 3" "t < 10" "u < 10" using assms by (simp_all add: h_def t_def u_def less_mult_imp_div_less)
  have n: "n = h * 100 + t * 10 + u"
  proof -
    have "n mod 100 mod 10 = n mod 10" by (simp add: mod_mod_cancel)
    then show ?thesis unfolding h_def t_def u_def
      using div_mult_mod_eq [of "n mod 100" 10] div_mult_mod_eq [of n 100] by linarith
  qed
  define v where "v = h * 256 + t * 16 + u"
  have z: "n \<le> 99 \<Longrightarrow> h = 0" "n \<le> 9 \<Longrightarrow> t = 0" by (simp_all add: h_def t_def)
  have dv: "digits_value 16 (ddigits n) = v"
    unfolding digits_value_def ddigits_def h_def [symmetric] t_def [symmetric] u_def [symmetric] v_def
    using z by auto
  have v: "v div 256 = h" "v div 16 mod 16 = t" "v mod 16 = u" "v \<le> 597"
  proof -
    have "v div 16 = h * 16 + t" using b by (simp add: v_def)
    then show "v div 16 mod 16 = t" using b by simp
    show "v mod 16 = u" using b by (simp add: v_def mod_add_eq [symmetric])
    show "v div 256 = h" using b by (simp add: v_def)
    consider "h < 2" | "h = 2" "t < 5" | "h = 2" "t = 5" "u < 6" using b n assms by linarith
    then show "v \<le> 597" using b by cases (simp_all add: v_def)
  qed
  define x where "x = (word_of_nat v :: u32)"
  have xv: "unat x = v" using v(4) unfolding x_def by (intro unat_word_of_nat_u32) simp
  have m: "(0xf :: u32) = mask 4" by (simp add: mask_eq_exp_minus_1)
  have p: "unat (drop_bit 8 x) = h" "unat (drop_bit 4 x AND 0xf) = t" "unat (x AND 0xf) = u"
    unfolding m unat_and_mask unat_drop_bit xv using v by simp_all
  have "x AND 0xf0 = push_bit 4 (drop_bit 4 x AND 0xf)"
  proof -
    have "x AND push_bit k (mask k) = push_bit k (drop_bit k x AND mask k)" for k
      by (intro bit_word_eqI) (auto simp: bit_simps)
    from this [of 4] show ?thesis unfolding m by (simp add: mask_eq_exp_minus_1 push_bit_eq_mult)
  qed
  then have q: "unat (x AND 0xf0) = t * 16" using p(2) b unat_push_bit [of 4 "drop_bit 4 x AND 0xf"] by simp
  show "\<not> bcd_bad (word_of_nat (digits_value 16 (ddigits n)))"
    unfolding dv x_def [symmetric] bcd_bad_def word_less_nat_alt p q xv using v(4) b by simp
  have w: "drop_bit 8 x = word_of_nat h" "drop_bit 4 x AND 0xf = word_of_nat t" "x AND 0xf = word_of_nat u"
    unfolding p [symmetric] by simp_all
  show "from_bcd (word_of_nat (digits_value 16 (ddigits n))) = word_of_nat n"
    unfolding dv x_def [symmetric] from_bcd_def w by (simp add: n)
qed

lemma foldl_ge: "0 < b \<Longrightarrow> v \<le> foldl (\<lambda>x d. x * b + d) v (ds :: nat list)"
proof (induction ds arbitrary: v)
  case (Cons d ds)
  have "v \<le> v * b + d" using Cons(2) by (simp add: trans_le_add1)
  also have "\<dots> \<le> foldl (\<lambda>x d. x * b + d) (v * b + d) ds" by (rule Cons(1) [OF Cons(2)])
  finally show ?case by simp
qed simp

lemma isdigit_hexd: "d < 10 \<Longrightarrow> isdigit (hexd d)"
  by (simp add: isdigit_def basis_values(5) word_le_nat_alt unsigned_of_nat take_bit_nat_eq_self del: of_nat_add)

lemma digit_ucast: "d < 10 \<Longrightarrow> (ucast (hexd d) :: u32) = word_of_nat (48 + d)"
  by (simp add: basis_values(5) word_unat_eq_iff unat_ucast_byte unsigned_of_nat take_bit_nat_eq_self del: of_nat_add)

lemma more_digits_ok:
  assumes "\<forall>d\<in>set ds. d < 10" "foldl (\<lambda>x d. x * 10 + d) v ds \<le> 255" "\<not> isdigit c"
  shows "more_digits (map hexd ds @ c # t) (word_of_nat v) = Some (Some (word_of_nat (foldl (\<lambda>x d. x * 10 + d) v ds), c # t))"
  using assms(1,2)
proof (induction ds arbitrary: v)
  case Nil
  then show ?case using assms(3) by simp
next
  case (Cons d ds)
  have d: "d < 10" using Cons(2) by simp
  have le: "v * 10 + d \<le> 255" using Cons(3) foldl_ge [of 10 "v * 10 + d" ds] by simp
  have w: "word_of_nat v * 10 + ucast (hexd d) - 48 = (word_of_nat (v * 10 + d) :: u32)"
    by (simp add: digit_ucast [OF d])
  have "\<not> (word_of_nat (v * 10 + d) :: u32) > 255"
    using le by (simp add: word_less_nat_alt unsigned_of_nat take_bit_nat_eq_self del: of_nat_add of_nat_mult)
  then show ?case using Cons d by (simp add: isdigit_hexd w del: of_nat_add of_nat_mult)
qed

lemma dotted_part_ok:
  assumes "n < 256" "\<not> isdigit c"
  shows "dotted_part (decs n @ c # t) = Some (Some (word_of_nat n, c # t))"
proof -
  note o = ddigits_ok [of n]
  obtain d ds where d: "ddigits n = d # ds" using o(3) assms(1) by (cases "ddigits n") auto
  have dd: "d < 10" "\<forall>d\<in>set ds. d < 10" using o(1) assms(1) d by auto
  have v: "foldl (\<lambda>x d. x * 10 + d) d ds = n" using o(4) assms(1) d by (simp add: digits_value_def)
  have i: "index_hex ! unat (hexd d) = word_of_nat d" using basis_values(1) [of d] dd by simp
  have "\<not> (word_of_nat d :: byte) > 9" "ucast (word_of_nat d :: byte) = (word_of_nat d :: u32)"
    using dd(1) by (simp_all add: word_less_nat_alt word_unat_eq_iff unat_ucast_byte unsigned_of_nat take_bit_nat_eq_self)
  then show ?thesis using more_digits_ok [of ds d c t] dd(2) v assms
    by (simp add: dotted_part_def decs_def d i)
qed

lemma set_byte_pair:
  assumes "i < length a"
  shows "do { a \<leftarrow> set_byte a (2 * i) x; set_byte a (2 * i + 1) y } = Some (a[i := push_bit 8 (ucast x) OR ucast y])"
proof -
  have "((push_bit 8 (ucast x) OR (w AND 0xFF)) AND 0xFF00) OR ucast y = push_bit 8 (ucast x) OR (ucast y :: u16)" for w :: u16
  proof -
    have m: "(0xFF :: u16) = mask 8" "(0xFF00 :: u16) = NOT (mask 8)" by (simp_all add: mask_eq_exp_minus_1)
    show ?thesis unfolding m by (rule bit_word_eqI) (auto simp: bit_simps)
  qed
  then show ?thesis using assms by (simp add: set_byte_def rd_ok wr_ok)
qed

lemma get_bytes:
  assumes "i < length a"
  shows "get_byte a (2 * i) = Some (ucast (drop_bit 8 (a ! i)))" "get_byte a (2 * i + 1) = Some (ucast (a ! i))"
  using assms by (simp_all add: get_byte_def rd_ok)

lemma bytes_section: "push_bit 8 (ucast (ucast (drop_bit 8 w) :: byte)) OR ucast (ucast w :: byte) = (w :: u16)"
  by (rule bit_word_eqI) (auto simp: bit_simps)

lemma byte_u32_byte: "ucast (ucast b :: u32) = (b :: byte)"
  by (rule bit_word_eqI) (auto simp: bit_simps)

text \<open>The tail of an address: four numbers, the first already read.\<close>

lemma v4_part_ok:
  fixes b :: byte
  assumes "follow c" "\<not> isdigit c"
  shows "v4_part follow (46 # decs (unat b) @ c # t) addr k = do { addr \<leftarrow> set_byte addr k b; Some (Inr (addr, c # t)) }"
  using assms dotted_part_ok [OF unat_byte_less assms(2), of b t]
  by (simp add: v4_part_def byte_u32_byte)

lemma v4_tail_ok:
  fixes b0 b1 b2 b3 :: byte
  assumes "v6_section st \<le> 6" "length (v6_addr st) = 8" "v6_val st = word_of_nat (digits_value 16 (ddigits (unat b0)))"
  shows "v4_tail (46 # decs (unat b1) @ 46 # decs (unat b2) @ 46 # decs (unat b3) @ 0 # t) st =
    Some (Inr (st\<lparr>v6_addr := (v6_addr st)[v6_section st := push_bit 8 (ucast b0) OR ucast b1,
       v6_section st + 1 := push_bit 8 (ucast b2) OR ucast b3], v6_section := v6_section st + 2\<rparr>))"
proof -
  note b = bcd_byte [OF unat_byte_less, of b0]
  have nd: "\<not> isdigit 46" "\<not> isdigit 0" by (simp_all add: isdigit_def)
  let ?i = "v6_section st" and ?a = "v6_addr st"
  obtain x where x: "set_byte ?a (2 * ?i) b0 = Some x" "length x = 8"
    using assms(1,2) by (simp add: set_byte_def rd_ok wr_ok)
  have y: "set_byte x (2 * ?i + 1) b1 = Some (?a[?i := push_bit 8 (ucast b0) OR ucast b1])"
    using set_byte_pair [of ?i ?a b0 b1] assms(1,2) x by simp
  let ?y = "?a[?i := push_bit 8 (ucast b0) OR ucast b1]"
  obtain z where z: "set_byte ?y (2 * (?i + 1)) b2 = Some z"
    using assms(1,2) by (simp add: set_byte_def rd_ok wr_ok)
  have w: "set_byte z (2 * (?i + 1) + 1) b3 = Some (?y[?i + 1 := push_bit 8 (ucast b2) OR ucast b3])"
    using set_byte_pair [of "?i + 1" ?y b2 b3] assms(1,2) z by simp
  show ?thesis unfolding v4_tail_def Let_def assms(3)
    using assms(1) b nd x(1) y z w by (simp add: v4_part_ok byte_u32_byte)
qed

lemma v6_loop_dec:
  assumes "v6_section st < 8" "n < 1000"
  shows "v6_loop (decs n @ 46 # t) st = Some (Inr (46 # t, st\<lparr>v6_val := word_of_nat (digits_value 16 (ddigits n))\<rparr>))"
proof -
  note o = ddigits_ok [OF assms(2)]
  obtain d ds where d: "ddigits n = d # ds" using o(3) by (cases "ddigits n") auto
  then have dd: "d < 16" using o(1) by auto
  note b = basis_values(2,3) [OF dd]
  have h: "hex_group 4 (decs n @ 46 # t) 0 0 = Some (length (ddigits n), word_of_nat (digits_value 16 (ddigits n)), 46 # t)"
    using hex_group_digits [of "ddigits n" 4 46 t 0 0] o(1,2) index_hex_stop(3) by (force simp: decs_def digits_value_def)
  have e: "decs n @ 46 # t = hexd d # map hexd ds @ 46 # t" by (simp add: decs_def d)
  show ?thesis
    by (subst v6_loop.simps) (use assms(1) b h in \<open>simp add: e [symmetric] rd_def, simp add: e d\<close>)
qed

lemma get_bytes_67:
  assumes "length a = 8"
  shows "get_byte a 12 = Some (ucast (drop_bit 8 (a ! 6)))" "get_byte a 13 = Some (ucast (a ! 6))"
    "get_byte a 14 = Some (ucast (drop_bit 8 (a ! 7)))" "get_byte a 15 = Some (ucast (a ! 7))"
  using get_bytes [of 6 a] get_bytes [of 7 a] assms by simp_all

lemma v4_back:
  assumes "length a = 8" "length addr = 8" "v4_chars a len = Some cs" "zeros a 0 len" "len = 6 \<or> len = 5 \<and> a ! 5 = 0xffff"
  shows "StringToV6Addr (cs @ 0 # t) addr = Some (True, a)"
proof -
  define b0 b1 b2 b3 :: byte where "b0 = ucast (drop_bit 8 (a ! 6))" and "b1 = ucast (a ! 6)"
    and "b2 = ucast (drop_bit 8 (a ! 7))" and "b3 = ucast (a ! 7)"
  have s67: "push_bit 8 (ucast b0) OR ucast b1 = a ! 6" "push_bit 8 (ucast b2) OR ucast b3 = a ! 7"
    unfolding b0_def b1_def b2_def b3_def by (rule bytes_section)+
  let ?r = "46 # decs (unat b1) @ 46 # decs (unat b2) @ 46 # decs (unat b3) @ 0 # t"
  have cs: "cs @ 0 # t = 58 # 58 # (if len = 5 then [102, 102, 102, 102, 58] else []) @ decs (unat b0) @ ?r"
    using assms(3) get_bytes_67 [OF assms(1)] unfolding v4_chars_def b0_def b1_def b2_def b3_def
    by (auto simp: dec_chars_eq)
  have f: "hexs 0xffff = [102, 102, 102, 102]" by (simp add: hexs_def nibs_def hexd_def basis_hex_def bytes_of_def)
  obtain x0 x1 x2 x3 x4 x5 x6 x7 where a: "a = [x0, x1, x2, x3, x4, x5, x6, x7]" using assms(1) by (rule eight_sections)
  obtain y0 y1 y2 y3 y4 y5 y6 y7 where y: "addr = [y0, y1, y2, y3, y4, y5, y6, y7]" using assms(2) by (rule eight_sections)
  define st where "st = \<lparr>v6_addr = addr[0 := 0], v6_section = 1, v6_colon = Some 1, v6_val = 0\<rparr>"
  define st' where "st' = (if len = 5 then st\<lparr>v6_val := 0xffff, v6_addr := (v6_addr st)[1 := 0xffff], v6_section := 2\<rparr> else st)"
  have u: "unat b0 < 1000" using unat_byte_less [of b0] by simp
  have st': "v6_section st' \<le> 2" "length (v6_addr st') = 8" using assms(2) by (simp_all add: st'_def st_def)
  have loop: "v6_loop ((if len = 5 then [102, 102, 102, 102, 58] else []) @ decs (unat b0) @ ?r) st =
      Some (Inr (?r, st'\<lparr>v6_val := word_of_nat (digits_value 16 (ddigits (unat b0)))\<rparr>))"
  proof -
    have d: "v6_loop (decs (unat b0) @ ?r) st' = Some (Inr (?r, st'\<lparr>v6_val := word_of_nat (digits_value 16 (ddigits (unat b0)))\<rparr>))"
      using st' by (intro v6_loop_dec [OF _ u]) simp
    show ?thesis
    proof (cases "len = 5")
      case False
      then show ?thesis using d by (simp add: st'_def)
    next
      case True
      obtain e r where e: "decs (unat b0) = e # r" "e \<noteq> 0"
        using ddigits_ok(1,3) [OF u] basis_values(2) by (cases "ddigits (unat b0)") (auto simp: decs_def)
      have "v6_loop (hexs 0xffff @ 58 # decs (unat b0) @ ?r) st = v6_loop (decs (unat b0) @ ?r) st'"
      proof -
        have c: "v6_section st < 8" "length (v6_addr st) = 8" "v6_section st = 1" using assms(2) by (simp_all add: st_def)
        have "st' = st\<lparr>v6_val := ucast (0xffff :: u16), v6_addr := (v6_addr st)[v6_section st := 0xffff], v6_section := v6_section st + 1\<rparr>"
          unfolding st'_def c(3) using True by simp
        then show ?thesis using v6_loop_group(2) [OF c(1,2) e(2), where g = "0xffff" and t = "r @ ?r"] e(1) by (simp only: append_Cons)
      qed
      then show ?thesis using True d by (simp add: f)
    qed
  qed
  let ?s = "v6_section st'"
  let ?w = "(v6_addr st')[?s := a ! 6, ?s + 1 := a ! 7]"
  have tail: "v4_tail ?r (st'\<lparr>v6_val := word_of_nat (digits_value 16 (ddigits (unat b0)))\<rparr>) =
    Some (Inr (st'\<lparr>v6_val := word_of_nat (digits_value 16 (ddigits (unat b0))), v6_addr := ?w, v6_section := ?s + 2\<rparr>))"
    by (subst v4_tail_ok [where ?b0.0 = b0]) (use st' in \<open>simp_all add: s67\<close>)
  have str: "stretch 1 (?s + 2) ?w = Some a"
  proof -
    have "a ! i = 0" if "i < len" for i using assms(4) that by (simp add: zeros_def)
    then have "a ! 0 = 0" "a ! 1 = 0" "a ! 2 = 0" "a ! 3 = 0" "a ! 4 = 0" "len = 6 \<Longrightarrow> a ! 5 = 0" using assms(5) by auto
    then have z: "x0 = 0" "x1 = 0" "x2 = 0" "x3 = 0" "x4 = 0" "len = 6 \<Longrightarrow> x5 = 0" "len = 5 \<Longrightarrow> x5 = 0xffff"
      using assms(5) by (auto simp: a)
    show ?thesis using assms(5) z
      by (subst stretch_ok) (auto simp: st'_def st_def a y eval_nat_numeral)
  qed
  have c: "v6_colon st' = Some 1" by (simp add: st'_def st_def)
  define u1 where "u1 = (if len = 5 then [102, 102, 102, 102, 58] else []) @ decs (unat b0) @ ?r"
  have "v6_from u1 st = Some (True, a)"
    unfolding v6_from_def u1_def loop using tail str c by simp
  moreover have "cs @ 0 # t = 58 # 58 # u1" by (simp only: cs u1_def)
  ultimately show ?thesis using assms(2) by (simp add: StringToV6Addr_def wr_ok st_def)
qed

lemma STUFF_ok:
  assumes "i + unat n \<le> length b"
  shows "STUFF cs b i n = Some (if length cs \<le> unat n then Inr (overlay b i cs) else Inl (overlay b i (take (unat n) cs)))"
  using assms
proof (induction cs b i n rule: STUFF.induct)
  case (2 c cs b i n)
  show ?case
  proof (cases "n = 0")
    case False
    have u: "unat (n - 1) = unat n - 1" "0 < unat n" using False by (simp_all add: unat_minus_one unat_gt_0)
    have i: "i < length b" using u 2(2) by simp
    have "STUFF cs (b[i := c]) (i + 1) (n - 1) = Some (if length cs \<le> unat (n - 1) then Inr (overlay (b[i := c]) (i + 1) cs)
        else Inl (overlay (b[i := c]) (i + 1) (take (unat (n - 1)) cs)))"
      using False i u 2(2) by (intro 2(1)) (simp_all add: wr_ok)
    then show ?thesis using False i u by (cases "unat n") (auto simp: wr_ok overlay_Cons)
  qed simp
qed simp

lemma length_hexs: "length (hexs v) \<le> 4"
  using nibs_ok(2) [OF unat_u16_less, of v] by (simp add: hexs_def)

lemma length_join: "length (join gs) \<le> 5 * length gs - 1"
proof (induction gs rule: join.induct)
  case (2 g)
  then show ?case using length_hexs [of g] by simp
next
  case (3 g h gs)
  then show ?case using length_hexs [of g] by simp
qed simp

text \<open>The text of an address: what it is, how long it is, and that it is read back.\<close>

lemma v6_chars_ok:
  assumes "length a = 8"
  shows "\<exists>cs. v6_chars a = Some cs \<and> length cs \<le> 39 \<and>
    (\<forall>addr t. length addr = 8 \<longrightarrow> StringToV6Addr (cs @ 0 # t) addr = Some (True, a))"
proof -
  obtain colon len where c: "colon_scan a 0 None 1 = Some (colon, len)" "\<forall>d. colon = Some d \<longrightarrow> 2 \<le> len \<and> zeros a d len"
    using colon_scan_ok [OF assms, of None 1 0] by auto
  have w: "rd a 5 = Some (a ! 5)" using assms by (simp add: rd_ok)
  show ?thesis
  proof (cases "colon = Some 0 \<and> (len = 6 \<or> len = 5 \<and> a ! 5 = 0xffff)")
    case True
    obtain cs where cs: "v4_chars a len = Some cs" using get_bytes_67 [OF assms] by (simp add: v4_chars_def)
    have d: "length (dec_chars x) \<le> 3" for x using ddigits_ok(2) [of "unat x"] unat_byte_less [of x] by (simp add: dec_chars_eq decs_def)
    have "length cs \<le> 39"
      using cs d [of "ucast (drop_bit 8 (a ! 6))"] d [of "ucast (a ! 6)"] d [of "ucast (drop_bit 8 (a ! 7))"] d [of "ucast (a ! 7)"]
        get_bytes_67 [OF assms] by (auto simp: v4_chars_def)
    moreover have "v6_chars a = Some cs" using c(1) w True cs by (simp add: v6_chars_def)
    ultimately show ?thesis using v4_back [OF assms _ cs] c(2) True by blast
  next
    case False
    have "\<exists>cs. section_chars a colon len 0 = Some cs \<and> length cs \<le> 39"
    proof (cases colon)
      case None
      then show ?thesis using section_plain [OF assms, of 0 None len] length_join [of a] assms by simp
    next
      case (Some d)
      then have z: "2 \<le> len" "d + len \<le> 8" using c(2) by (auto simp: zeros_def)
      have "length (join (take d a)) \<le> 5 * d" "length (join (drop (d + len) a)) \<le> 5 * (8 - (d + len))"
        using length_join [of "take d a"] length_join [of "drop (d + len) a"] assms z by simp_all
      then show ?thesis using section_colon [OF assms, of 0 d len] z Some by simp
    qed
    then obtain cs where cs: "section_chars a colon len 0 = Some cs" "length cs \<le> 39" by blast
    have "v6_chars a = Some cs" using c(1) w False cs by (auto simp: v6_chars_def)
    then show ?thesis using sections_back [OF assms _ c(2) cs(1)] cs(2) by blast
  qed
qed

lemma V6AddrToString_ok:
  assumes "v6_chars a = Some cs" "unat n \<le> length b"
  shows "V6AddrToString a b n = Some (if length cs < unat n then (True, overlay b 0 (cs @ [0]))
    else (False, overlay b 0 (take (unat n) (cs @ [0]))))"
  using assms STUFF_ok [of 0 n b "cs @ [0]"] by (simp add: V6AddrToString_def)

section \<open>Reading never leaves the text\<close>

lemma rd_has_nul: "has_nul s \<Longrightarrow> rd s 0 = Some (s ! 0)"
  by (cases s) (simp_all add: has_nul_def)

lemma has_nul_tl: "has_nul s \<Longrightarrow> s ! 0 \<noteq> 0 \<Longrightarrow> has_nul (drop 1 s)"
  by (cases s) (auto simp: has_nul_def)

lemma has_nul_drop_rd: "has_nul (drop 1 p) \<Longrightarrow> rd p 1 = Some (p ! 1)"
  by (cases p; cases "tl p") (auto simp: has_nul_def rd_def)

lemma hex_group_total: "has_nul s \<Longrightarrow> \<exists>len' val' s'. hex_group k s len val = Some (len', val', s') \<and> has_nul s'"
proof (induction k s len val rule: hex_group.induct)
  case (2 k s len val)
  show ?case
  proof (cases "index_hex ! unat (s ! 0) = XX")
    case True
    then show ?thesis using 2(2) by (simp add: rd_has_nul)
  next
    case False
    then have "s ! 0 \<noteq> 0" using index_hex_stop(1) by metis
    then have n: "has_nul (drop 1 s)" using has_nul_tl [OF 2(2)] by simp
    obtain x where x: "rd index_hex (unat (s ! 0)) = Some x" using unat_byte_less [of "s ! 0"] by (auto simp: rd_def index_hex_def)
    then have "x \<noteq> XX" using False by (simp add: rd_eq_Some)
    then show ?thesis using 2(1) [OF rd_has_nul [OF 2(2)] x _ n] x rd_has_nul [OF 2(2)] by simp
  qed
qed simp

definition v6_inv :: "v6_state \<Rightarrow> bool" where
  "v6_inv st \<longleftrightarrow> length (v6_addr st) = 8 \<and> v6_section st \<le> 8 \<and>
     (\<forall>d. v6_colon st = Some d \<longrightarrow> 0 < d \<and> d \<le> v6_section st)"

lemma v6_loop_total:
  assumes "has_nul s" "v6_inv st"
  shows "\<exists>r. v6_loop s st = Some r \<and> (case r of Inl a \<Rightarrow> length a = 8 | Inr (s', st') \<Rightarrow> has_nul s' \<and> v6_inv st')"
  using assms
proof (induction s st rule: v6_loop.induct)
  case (1 s st)
  note ih1 = 1(1) and ih2 = 1(2) and ih3 = 1(3) and hn = 1(4) and vi = 1(5)
  note rd = rd_has_nul [OF hn]
  consider "s ! 0 = 0" | "s ! 0 \<noteq> 0" "v6_section st = 8" | "s ! 0 \<noteq> 0" "v6_section st < 8" "s ! 0 = 58"
    | "s ! 0 \<noteq> 0" "v6_section st < 8" "s ! 0 \<noteq> 58"
    using vi le_neq_implies_less [of "v6_section st" 8] unfolding v6_inv_def by blast
  then show ?case
  proof cases
    case 1
    then show ?thesis using rd hn vi by (subst v6_loop.simps) simp
  next
    case 2
    then show ?thesis using rd vi by (subst v6_loop.simps) (simp add: v6_inv_def)
  next
    case 3
    show ?thesis
    proof (cases "v6_colon st")
      case None
      let ?a = "(v6_addr st)[v6_section st := 0]"
      let ?st = "st\<lparr>v6_addr := ?a, v6_section := v6_section st + 1, v6_colon := Some (v6_section st + 1)\<rparr>"
      have w: "wr (v6_addr st) (v6_section st) 0 = Some ?a" using 3 vi by (simp add: v6_inv_def wr_ok)
      have "v6_inv ?st" using 3 vi by (simp add: v6_inv_def)
      then have "\<exists>r. v6_loop (drop 1 s) ?st = Some r \<and> (case r of Inl a \<Rightarrow> length a = 8 | Inr (s', st') \<Rightarrow> has_nul s' \<and> v6_inv st')"
        using ih1 [OF rd] 3 None w has_nul_tl [OF hn] by simp
      then show ?thesis using rd 3 None w by (subst v6_loop.simps) simp
    next
      case (Some d)
      then show ?thesis using rd 3 vi by (subst v6_loop.simps) (simp add: v6_inv_def)
    qed
  next
    case 4
    obtain len val p where h: "hex_group 4 s 0 0 = Some (len, val, p)" "has_nul p" using hex_group_total [OF hn] by blast
    note rp = rd_has_nul [OF h(2)]
    let ?a = "(v6_addr st)[v6_section st := ucast val]"
    let ?st = "st\<lparr>v6_val := val, v6_addr := ?a, v6_section := v6_section st + 1\<rparr>"
    have w: "wr (v6_addr st) (v6_section st) (ucast val) = Some ?a" using 4 vi by (simp add: v6_inv_def wr_ok)
    have i: "v6_inv ?st" "v6_inv (st\<lparr>v6_val := val\<rparr>)" "length (v6_addr st) = 8" using 4 vi by (auto simp: v6_inv_def)
    consider "p ! 0 = 46" | "p ! 0 = 58" | "p ! 0 = 0" | "p ! 0 \<noteq> 46" "p ! 0 \<noteq> 58" "p ! 0 \<noteq> 0" by blast
    then show ?thesis
    proof cases
      case 1
      then show ?thesis using rd 4 h rp i by (subst v6_loop.simps) (simp add: Let_def)
    next
      case 2
      then have n: "has_nul (drop 1 p)" using has_nul_tl [OF h(2)] by simp
      then obtain e where e: "rd p 1 = Some e" by (metis has_nul_drop_rd)
      have "\<exists>r. v6_loop (drop 1 p) ?st = Some r \<and> (case r of Inl a \<Rightarrow> length a = 8 | Inr (s', st') \<Rightarrow> has_nul s' \<and> v6_inv st')" if "e \<noteq> 0"
        using ih2 [OF rd _ _ _ h(1) refl refl refl] rp 4 2 e that w n i by simp
      then show ?thesis using rd 4 h rp 2 e w i by (subst v6_loop.simps) (auto simp: v6_inv_def Let_def)
    next
      case 3
      have "\<exists>r. v6_loop p ?st = Some r \<and> (case r of Inl a \<Rightarrow> length a = 8 | Inr (s', st') \<Rightarrow> has_nul s' \<and> v6_inv st')"
        using ih3 [OF rd _ _ _ h(1) refl refl refl] rp 4 3 w h(2) i by simp
      then show ?thesis using rd 4 h rp 3 w by (subst v6_loop.simps) (simp add: Let_def)
    next
      case 5: 4
      then show ?thesis using rd 4 h rp i by (subst v6_loop.simps) (simp add: Let_def)
    qed
  qed
qed

lemma more_digits_total: "has_nul s \<Longrightarrow>
    \<exists>r. more_digits s val = Some r \<and> (case r of None \<Rightarrow> True | Some (v, s') \<Rightarrow> has_nul s')"
proof (induction s val rule: more_digits.induct)
  case (2 c s val)
  show ?case
  proof (cases "isdigit c")
    case True
    then have "has_nul s" using 2(2) by (auto simp: has_nul_def isdigit_def)
    then show ?thesis using 2(1) [OF True refl] True by (simp add: Let_def)
  qed (use 2(2) in simp)
qed (simp add: has_nul_def)

lemma dotted_part_total:
  assumes "has_nul s"
  shows "\<exists>r. dotted_part s = Some r \<and> (case r of None \<Rightarrow> True | Some (v, s') \<Rightarrow> has_nul s')"
proof (cases "index_hex ! unat (s ! 0) > 9")
  case True
  then show ?thesis using rd_has_nul [OF assms] by (simp add: dotted_part_def)
next
  case False
  then have "s ! 0 \<noteq> 0" using index_hex_stop(1) by (auto simp: XX_def)
  then show ?thesis
    using more_digits_total [OF has_nul_tl [OF assms]] False rd_has_nul [OF assms] by (simp add: dotted_part_def)
qed

lemma set_byte_total: "length a = 8 \<Longrightarrow> k < 16 \<Longrightarrow> \<exists>a'. set_byte a k v = Some a' \<and> length a' = 8"
  by (simp add: set_byte_def rd_ok wr_ok)

lemma v4_part_total:
  assumes "has_nul s" "s ! 0 \<noteq> 0" "length addr = 8" "k < 16"
  shows "\<exists>r. v4_part follow s addr k = Some r \<and>
    (case r of Inl a \<Rightarrow> length a = 8 | Inr (a, s') \<Rightarrow> length a = 8 \<and> has_nul s' \<and> follow (s' ! 0))"
proof -
  obtain r where r: "dotted_part (drop 1 s) = Some r" "case r of None \<Rightarrow> True | Some (v, s') \<Rightarrow> has_nul s'"
    using dotted_part_total [OF has_nul_tl [OF assms(1,2)]] by blast
  show ?thesis
  proof (cases r)
    case None
    then show ?thesis using r assms(3) by (simp add: v4_part_def)
  next
    case (Some q)
    obtain v s' where q: "q = (v, s')" by force
    have n: "has_nul s'" using r(2) by (simp add: Some q)
    obtain a' where "set_byte addr k (ucast v) = Some a'" "length a' = 8" using set_byte_total [OF assms(3,4)] by blast
    then show ?thesis using r(1) rd_has_nul [OF n] n assms(3) by (simp add: v4_part_def Some q)
  qed
qed

lemma v4_tail_total:
  assumes "has_nul s" "s ! 0 = 46" "v6_inv st"
  shows "\<exists>r. v4_tail s st = Some r \<and> (case r of Inl a \<Rightarrow> length a = 8 | Inr st' \<Rightarrow> v6_inv st')"
proof (cases "v6_section st > 6 \<or> bcd_bad (v6_val st)")
  case True
  then show ?thesis using assms(3) by (simp add: v4_tail_def v6_inv_def)
next
  case False
  let ?n = "v6_section st"
  have n: "?n \<le> 6" "length (v6_addr st) = 8" using False assms(3) by (simp_all add: v6_inv_def)
  obtain a0 where a0: "set_byte (v6_addr st) (2 * ?n) (ucast (from_bcd (v6_val st))) = Some a0" "length a0 = 8"
    using set_byte_total [OF n(2), of "2 * ?n"] n(1) by auto
  obtain r1 where r1: "v4_part (\<lambda>c. c = 46) s a0 (2 * ?n + 1) = Some r1"
    "case r1 of Inl a \<Rightarrow> length a = 8 | Inr (a, s') \<Rightarrow> length a = 8 \<and> has_nul s' \<and> s' ! 0 = 46"
    using v4_part_total [OF assms(1) _ a0(2), of "2 * ?n + 1" "\<lambda>c. c = 46"] assms(2) n(1) by auto
  show ?thesis
  proof (cases r1)
    case (Inl a)
    then show ?thesis using r1 a0(1) False by (simp add: v4_tail_def)
  next
    case (Inr q1)
    obtain a1 s1 where q1: "q1 = (a1, s1)" by force
    have i1: "length a1 = 8" "has_nul s1" "s1 ! 0 = 46" using r1(2) by (simp_all add: Inr q1)
    obtain r2 where r2: "v4_part (\<lambda>c. c = 46) s1 a1 (2 * (?n + 1)) = Some r2"
      "case r2 of Inl a \<Rightarrow> length a = 8 | Inr (a, s') \<Rightarrow> length a = 8 \<and> has_nul s' \<and> s' ! 0 = 46"
      using v4_part_total [OF i1(2) _ i1(1), of "2 * (?n + 1)" "\<lambda>c. c = 46"] i1(3) n(1) by auto
    show ?thesis
    proof (cases r2)
      case (Inl a)
      then show ?thesis using r1(1) r2 a0(1) False \<open>r1 = Inr q1\<close> q1 by (simp add: v4_tail_def Let_def)
    next
      case r2': (Inr q2)
      obtain a2 s2 where q2: "q2 = (a2, s2)" by force
      have i2: "length a2 = 8" "has_nul s2" "s2 ! 0 = 46" using r2(2) by (simp_all add: r2' q2)
      obtain r3 where r3: "v4_part (\<lambda>c. c = 0) s2 a2 (2 * (?n + 1) + 1) = Some r3"
        "case r3 of Inl a \<Rightarrow> length a = 8 | Inr (a, s') \<Rightarrow> length a = 8 \<and> has_nul s' \<and> s' ! 0 = 0"
        using v4_part_total [OF i2(2) _ i2(1), of "2 * (?n + 1) + 1" "\<lambda>c. c = 0"] i2(3) n(1) by auto
      have "v6_inv (st\<lparr>v6_addr := a, v6_section := ?n + 2\<rparr>)" if "length a = 8" for a
        using assms(3) n(1) that by (auto simp: v6_inv_def le_Suc_eq)
      then show ?thesis
        using r1(1) r2(1) r3 a0(1) False \<open>r1 = Inr q1\<close> q1 r2' q2 by (cases r3) (auto simp: v4_tail_def Let_def)
    qed
  qed
qed

text \<open>A string that ends in a NUL is never read beyond it, and the address is never written beyond its sections.\<close>

lemma v6_from_total:
  assumes "has_nul s" "v6_inv st"
  shows "\<exists>p. v6_from s st = Some p \<and> length (snd p) = 8"
proof -
  obtain r where r: "v6_loop s st = Some r" "case r of Inl a \<Rightarrow> length a = 8 | Inr (s', st') \<Rightarrow> has_nul s' \<and> v6_inv st'"
    using v6_loop_total [OF assms] by blast
  show ?thesis
  proof (cases r)
    case (Inl a)
    then show ?thesis using r by (simp add: v6_from_def)
  next
    case (Inr q)
    obtain s1 st1 where q: "q = (s1, st1)" by force
    have i: "has_nul s1" "v6_inv st1" using r(2) by (simp_all add: Inr q)
    obtain r2 where r2: "(if s1 ! 0 = 46 then v4_tail s1 st1 else Some (Inr st1)) = Some r2"
      "case r2 of Inl a \<Rightarrow> length a = 8 | Inr st' \<Rightarrow> v6_inv st'"
      using v4_tail_total [OF i(1) _ i(2)] i(2) by (cases "s1 ! 0 = 46") auto
    show ?thesis
    proof (cases r2)
      case (Inl a)
      then show ?thesis using r(1) r2 rd_has_nul [OF i(1)] by (simp add: v6_from_def Inr q)
    next
      case r2': (Inr st2)
      have v: "length (v6_addr st2) = 8" "v6_section st2 \<le> 8" "\<And>d. v6_colon st2 = Some d \<Longrightarrow> 0 < d \<and> d \<le> v6_section st2"
        using r2(2) by (simp_all add: r2' v6_inv_def)
      show ?thesis
      proof (cases "v6_colon st2")
        case None
        then show ?thesis using r(1) r2(1) rd_has_nul [OF i(1)] v(1) by (simp add: v6_from_def Inr q r2')
      next
        case (Some d)
        then have "\<exists>a. stretch d (v6_section st2) (v6_addr st2) = Some a \<and> length a = 8"
          using stretch_ok [of "v6_addr st2" d "v6_section st2"] v by simp
        then show ?thesis using r(1) r2(1) rd_has_nul [OF i(1)] Some by (auto simp: v6_from_def Inr q r2')
      qed
    qed
  qed
qed

lemma StringToV6Addr_total:
  assumes "has_nul s" "length addr = 8"
  shows "\<exists>p. StringToV6Addr s addr = Some p \<and> length (snd p) = 8"
proof (cases "s ! 0 = 58")
  case False
  then show ?thesis using v6_from_total [OF assms(1)] rd_has_nul [OF assms(1)] assms(2) by (simp add: StringToV6Addr_def v6_inv_def)
next
  case True
  then have n: "has_nul (drop 1 s)" using has_nul_tl [OF assms(1)] by simp
  note r = rd_has_nul [OF assms(1)] has_nul_drop_rd [OF n]
  show ?thesis
  proof (cases "s ! 1 = 58")
    case False
    then show ?thesis using True r assms(2) by (simp add: StringToV6Addr_def)
  next
    case c: True
    then have "drop 1 s ! 0 \<noteq> 0" using n by (cases s) (auto simp: has_nul_def)
    then have "has_nul (drop 2 s)" using has_nul_tl [OF n] by (simp add: numeral_2_eq_2)
    moreover have "v6_inv \<lparr>v6_addr = addr[0 := 0], v6_section = 1, v6_colon = Some 1, v6_val = 0\<rparr>"
      using assms(2) by (simp add: v6_inv_def)
    ultimately show ?thesis using v6_from_total True c r assms(2) by (simp add: StringToV6Addr_def wr_ok)
  qed
qed

section \<open>IPv4 numbers\<close>

lemma aton_digits_total:
  assumes "has_nul cp"
  shows "\<exists>r. aton_digits radix cp val seen = Some r \<and> (case r of None \<Rightarrow> True | Some (v, sn, cp') \<Rightarrow> has_nul cp')"
  using assms
proof (induction radix cp val seen rule: aton_digits.induct)
  case (2 radix c cp val seen)
  have nz: "index_hex ! unat c \<noteq> XX \<Longrightarrow> c \<noteq> 0" using index_hex_stop(1) by auto
  consider "isdigit c" "radix = 8 \<and> (c = 56 \<or> c = 57)" | "isdigit c" "\<not> (radix = 8 \<and> (c = 56 \<or> c = 57))"
    | "\<not> isdigit c" "radix = 16 \<and> index_hex ! unat c \<noteq> XX" | "\<not> isdigit c" "\<not> (radix = 16 \<and> index_hex ! unat c \<noteq> XX)" by blast
  then show ?case
  proof cases
    case 1
    then show ?thesis by simp
  next
    case c: 2
    have "has_nul cp" using c(1) 2(3) by (auto simp: has_nul_def isdigit_def)
    then show ?thesis using 2(1) [OF c(1,2)] c by simp
  next
    case c: 3
    have "has_nul cp" using c(2) nz 2(3) by (auto simp: has_nul_def)
    then show ?thesis using 2(2) [OF c(1)] c by (simp add: isxdigit_def)
  next
    case 4
    then show ?thesis using 2(3) by (auto simp: isxdigit_def)
  qed
qed (simp add: has_nul_def)

lemma aton_number_total:
  assumes "has_nul cp"
  shows "\<exists>r. aton_number cp = Some r \<and> (case r of None \<Rightarrow> True | Some (v, sn, cp') \<Rightarrow> has_nul cp')"
proof -
  have t: "\<exists>r. aton_digits radix s v sn = Some r \<and> (case r of None \<Rightarrow> True | Some (v, sn, cp') \<Rightarrow> has_nul cp')"
    if "has_nul s" for radix s v sn by (rule aton_digits_total [OF that])
  show ?thesis
  proof (cases "cp ! 0 = 48")
    case False
    then show ?thesis using t [OF assms] rd_has_nul [OF assms] by (simp add: aton_number_def)
  next
    case True
    then have n: "has_nul (drop 1 cp)" using has_nul_tl [OF assms] by simp
    note r = rd_has_nul [OF assms] rd_has_nul [OF n]
    show ?thesis
    proof (cases "drop 1 cp ! 0 = 120 \<or> drop 1 cp ! 0 = 88")
      case x: True
      then have "has_nul (drop 1 (drop 1 cp))" using has_nul_tl [OF n] by fastforce
      then show ?thesis using t r True x by (simp add: aton_number_def isdigit_def Let_def)
    next
      case False
      then show ?thesis using t [OF n] r True by (simp add: aton_number_def isdigit_def Let_def)
    qed
  qed
qed

lemma aton_parts_total:
  "has_nul cp \<Longrightarrow> length parts + room = 3 \<Longrightarrow> \<exists>r. aton_parts room cp parts = Some r \<and>
    (case r of None \<Rightarrow> True | Some (ps, v, sn, cp') \<Rightarrow> has_nul cp' \<and> length ps \<le> 3)"
proof (induction room arbitrary: cp parts)
  case 0
  obtain r where "aton_number cp = Some r" "case r of None \<Rightarrow> True | Some (v, sn, cp') \<Rightarrow> has_nul cp'"
    using aton_number_total [OF 0(1)] by blast
  then show ?case using 0(2) by (cases r) (auto simp: aton_parts.simps rd_has_nul)
next
  case (Suc room)
  obtain r where r: "aton_number cp = Some r" "case r of None \<Rightarrow> True | Some (v, sn, cp') \<Rightarrow> has_nul cp'"
    using aton_number_total [OF Suc(2)] by blast
  show ?case
  proof (cases r)
    case None
    then show ?thesis using r by (simp add: aton_parts.simps)
  next
    case (Some q)
    obtain v sn s where q: "q = (v, sn, s)" by (cases q) auto
    have n: "has_nul s" using r(2) by (simp add: Some q)
    show ?thesis
    proof (cases "s ! 0 = 46 \<and> v \<le> 0xff")
      case True
      then have "has_nul (drop 1 s)" using has_nul_tl [OF n] by simp
      then show ?thesis using Suc(1) [of "drop 1 s" "parts @ [ucast v]"] Suc(3) r(1) True rd_has_nul [OF n]
        by (simp add: aton_parts.simps [of "Suc room"] Some q)
    next
      case False
      then show ?thesis using Suc(3) r(1) n rd_has_nul [OF n]
        by (auto simp: aton_parts.simps [of "Suc room"] Some q)
    qed
  qed
qed

lemma concoct_total: "length parts \<le> 3 \<Longrightarrow> \<exists>r. concoct parts val = Some r"
  by (auto simp: concoct_def part_at_def rd_ok split: nat.splits)

lemma pr_inet_aton_total:
  assumes "has_nul cp"
  shows "\<exists>r. pr_inet_aton cp = Some r"
proof -
  obtain r where r: "aton_parts 3 cp [] = Some r"
    "case r of None \<Rightarrow> True | Some (ps, v, sn, cp') \<Rightarrow> has_nul cp' \<and> length ps \<le> 3"
    using aton_parts_total [OF assms, of "[]" 3] by auto
  then show ?thesis using concoct_total by (cases r) (auto simp: pr_inet_aton_def rd_has_nul)
qed

text \<open>Decimal parts without leading zeros, joined with dots, and the value they stand for. Each part is first taken
  modulo \<open>2 ^ 32\<close>.\<close>

definition decimal :: "nat list \<Rightarrow> bool" where
  "decimal ds \<longleftrightarrow> ds \<noteq> [] \<and> (\<forall>d\<in>set ds. d < 10) \<and> (hd ds = 0 \<longrightarrow> ds = [0])"

fun dotted :: "nat list list \<Rightarrow> buf" where
  "dotted [] = []"
| "dotted [ds] = map hexd ds"
| "dotted (ds # es # dss) = map hexd ds @ 46 # dotted (es # dss)"

definition part_word :: "nat list \<Rightarrow> u32" where
  "part_word ds = word_of_nat (digits_value 10 ds)"

definition dotted_value :: "nat list \<Rightarrow> u32 option" where
  "dotted_value vs =
     (if length vs \<le> 4 \<and> (\<forall>v\<in>set (butlast vs). v < 256) \<and> last vs < 256 ^ (5 - length vs)
      then Some (word_of_nat (foldl (\<lambda>x v. x * 256 + v) 0 (butlast vs) * 256 ^ (5 - length vs) + last vs)) else None)"

lemma aton_digits_dec:
  assumes "\<forall>d\<in>set ds. d < 10" "\<not> isdigit c"
  shows "aton_digits 10 (map hexd ds @ c # t) (word_of_nat v) sn =
    Some (Some (word_of_nat (foldl (\<lambda>x d. x * 10 + d) v ds), sn \<or> ds \<noteq> [], c # t))"
  using assms(1)
proof (induction ds arbitrary: v sn)
  case Nil
  then show ?case using assms(2) by (simp add: isxdigit_def)
next
  case (Cons d ds)
  then have d: "d < 10" by simp
  have w: "word_of_nat v * 10 + (ucast (hexd d) - 48) = (word_of_nat (v * 10 + d) :: u32)"
    by (simp add: digit_ucast [OF d])
  have "aton_digits 10 (map hexd ds @ c # t) (word_of_nat (v * 10 + d)) True =
      Some (Some (word_of_nat (foldl (\<lambda>x d. x * 10 + d) (v * 10 + d) ds), True, c # t))"
    using Cons(1) [of "v * 10 + d" True] Cons(2) by simp
  then show ?case using d by (simp add: isdigit_hexd w del: of_nat_add of_nat_mult)
qed

definition stops :: "byte \<Rightarrow> bool" where
  "stops c \<longleftrightarrow> \<not> isdigit c \<and> c \<noteq> 120 \<and> c \<noteq> 88"

lemma aton_number_dec:
  assumes "decimal ds" "stops c"
  shows "aton_number (map hexd ds @ c # t) = Some (Some (part_word ds, True, c # t))"
proof -
  obtain d es where d: "ds = d # es" "d < 10" "\<forall>d\<in>set es. d < 10" using assms(1) by (cases ds) (auto simp: decimal_def)
  have z: "hexd d = 48 \<longleftrightarrow> d = 0"
    using d(2) basis_values(5) [of d] by (auto simp: word_unat_eq_iff unsigned_of_nat take_bit_nat_eq_self simp del: of_nat_add)
  show ?thesis
  proof (cases "d = 0")
    case True
    then have "es = []" using assms(1) d(1) by (auto simp: decimal_def)
    then show ?thesis using True z assms(2)
      by (auto simp: d(1) aton_number_def isdigit_def stops_def isxdigit_def part_word_def digits_value_def)
  next
    case False
    have "aton_digits 10 (map hexd ds @ c # t) 0 False = Some (Some (part_word ds, True, c # t))"
      using aton_digits_dec [of ds c t 0 False] assms d by (simp add: decimal_def stops_def part_word_def digits_value_def)
    then show ?thesis using False z d(2) by (simp add: d(1) aton_number_def isdigit_hexd)
  qed
qed

lemma aton_parts_dec:
  assumes "dss \<noteq> []" "\<forall>ds\<in>set dss. decimal ds" "stops c" "c \<noteq> 46"
  shows "aton_parts room (dotted dss @ c # t) ps = Some
    (if length dss \<le> room + 1 \<and> (\<forall>ds\<in>set (butlast dss). part_word ds \<le> 0xff)
     then Some (ps @ map (\<lambda>ds. ucast (part_word ds)) (butlast dss), part_word (last dss), True, c # t) else None)"
  using assms(1,2)
proof (induction dss arbitrary: room ps rule: dotted.induct)
  case (2 ds)
  then show ?case using aton_number_dec [OF _ assms(3)] assms(4) by (simp add: aton_parts.simps)
next
  case (3 ds es dss)
  have s: "stops 46" by (simp add: stops_def isdigit_def)
  have n: "aton_number (map hexd ds @ 46 # dotted (es # dss) @ c # t) = Some (Some (part_word ds, True, 46 # dotted (es # dss) @ c # t))"
    using aton_number_dec [OF _ s] 3(3) by simp
  show ?case
  proof (cases room)
    case 0
    then show ?thesis using n by (simp add: aton_parts.simps)
  next
    case (Suc r)
    have "aton_parts r (dotted (es # dss) @ c # t) (ps @ [ucast (part_word ds)]) = Some
      (if length (es # dss) \<le> r + 1 \<and> (\<forall>ds\<in>set (butlast (es # dss)). part_word ds \<le> 0xff)
       then Some ((ps @ [ucast (part_word ds)]) @ map (\<lambda>ds. ucast (part_word ds)) (butlast (es # dss)), part_word (last (es # dss)), True, c # t) else None)"
      using 3(1) [of r "ps @ [ucast (part_word ds)]"] 3(3) by simp
    then show ?thesis using n Suc by (simp add: aton_parts.simps [of "Suc r"] linorder_not_less [symmetric])
  qed
qed simp

lemma part_byte: "(w :: u32) \<le> 0xff \<Longrightarrow> ucast (ucast w :: byte) = w" "(w :: u32) \<le> 0xff \<longleftrightarrow> unat w < 256"
proof -
  show "(w :: u32) \<le> 0xff \<longleftrightarrow> unat w < 256" by (auto simp: word_le_nat_alt)
  then show "(w :: u32) \<le> 0xff \<Longrightarrow> ucast (ucast w :: byte) = w"
    by (simp add: word_unat_eq_iff unat_ucast_byte unsigned_ucast_eq unsigned_take_bit_eq take_bit_nat_eq_self)
qed

lemma or_parts:
  fixes a b c v :: u32
  assumes "unat a < 256"
  shows "unat v < 16777216 \<Longrightarrow> v OR push_bit 24 a = word_of_nat (unat a * 16777216 + unat v)"
    and "unat b < 256 \<Longrightarrow> unat v < 65536 \<Longrightarrow>
      v OR (push_bit 24 a OR push_bit 16 b) = word_of_nat ((unat a * 256 + unat b) * 65536 + unat v)"
    and "unat b < 256 \<Longrightarrow> unat c < 256 \<Longrightarrow> unat v < 256 \<Longrightarrow>
      v OR (push_bit 24 a OR push_bit 16 b OR push_bit 8 c) =
      word_of_nat (((unat a * 256 + unat b) * 256 + unat c) * 256 + unat v)"
proof -
  have eq: "x = word_of_nat (unat x)" for x :: u32 by simp
  have ab: "unat (push_bit 8 a OR b) = unat a * 256 + unat b" if "unat b < 256"
    using unat_shl_or [of b 8 a] assms that by simp
  show "v OR push_bit 24 a = word_of_nat (unat a * 16777216 + unat v)" if "unat v < 16777216"
    using unat_shl_or [of v 24 a] assms that eq [of "push_bit 24 a OR v"] by (simp add: or.commute)
  show "v OR (push_bit 24 a OR push_bit 16 b) = word_of_nat ((unat a * 256 + unat b) * 65536 + unat v)"
    if "unat b < 256" "unat v < 65536"
  proof -
    have "v OR (push_bit 24 a OR push_bit 16 b) = push_bit 16 (push_bit 8 a OR b) OR v"
      by (simp add: push_bit_or or.commute)
    moreover have "unat (push_bit 16 (push_bit 8 a OR b) OR v) = (unat a * 256 + unat b) * 65536 + unat v"
      using unat_shl_or [of v 16 "push_bit 8 a OR b"] ab that assms by simp
    ultimately show ?thesis by (metis eq)
  qed
  show "v OR (push_bit 24 a OR push_bit 16 b OR push_bit 8 c) = word_of_nat (((unat a * 256 + unat b) * 256 + unat c) * 256 + unat v)"
    if "unat b < 256" "unat c < 256" "unat v < 256"
  proof -
    have "v OR (push_bit 24 a OR push_bit 16 b OR push_bit 8 c) = push_bit 8 (push_bit 8 (push_bit 8 a OR b) OR c) OR v"
      by (simp add: push_bit_or ac_simps)
    moreover have c: "unat (push_bit 8 (push_bit 8 a OR b) OR c) = (unat a * 256 + unat b) * 256 + unat c"
      using unat_shl_or [of c 8 "push_bit 8 a OR b"] ab that assms by simp
    moreover have "unat (push_bit 8 (push_bit 8 (push_bit 8 a OR b) OR c) OR v) = ((unat a * 256 + unat b) * 256 + unat c) * 256 + unat v"
      using unat_shl_or [of v 8 "push_bit 8 (push_bit 8 a OR b) OR c"] c that assms by simp
    ultimately show ?thesis by (metis eq)
  qed
qed

lemma concoct_value:
  assumes "length ws \<le> 4" "ws \<noteq> []" "\<forall>w\<in>set (butlast ws). w \<le> 0xff"
  shows "concoct (map (\<lambda>w. ucast w) (butlast ws)) (last ws) = Some (dotted_value (map unat ws))"
proof -
  have g: "(w :: u32) > 0xffffff \<longleftrightarrow> \<not> unat w < 16777216" "w > 0xffff \<longleftrightarrow> \<not> unat w < 65536" "w > 0xff \<longleftrightarrow> \<not> unat w < 256" for w
    by (auto simp: word_less_nat_alt)
  consider v where "ws = [v]" | a v where "ws = [a, v]" | a b v where "ws = [a, b, v]" | a b c v where "ws = [a, b, c, v]"
    using assms(1,2) by (cases ws; cases "tl ws"; cases "tl (tl ws)"; cases "tl (tl (tl ws))") auto
  then show ?thesis
  proof cases
    case 1
    then show ?thesis using unsigned_less [of v, where ?'a = nat] by (simp add: concoct_def dotted_value_def)
  next
    case 2
    then show ?thesis using assms(3) or_parts(1) [of a v]
      by (simp add: concoct_def dotted_value_def part_at_def rd_def part_byte g)
  next
    case 3
    then show ?thesis using assms(3) or_parts(2) [of a b v]
      by (simp add: concoct_def dotted_value_def part_at_def rd_def part_byte g)
  next
    case 4
    then show ?thesis using assms(3) or_parts(3) [of a b c v]
      by (simp add: concoct_def dotted_value_def part_at_def rd_def part_byte g numeral_2_eq_2)
  qed
qed

lemma inet_aton_dec:
  assumes "dss \<noteq> []" "\<forall>ds\<in>set dss. decimal ds" "c = 0 \<or> isspace c"
  shows "pr_inet_aton (dotted dss @ c # t) = Some (dotted_value (map (\<lambda>ds. digits_value 10 ds mod 2 ^ 32) dss))"
proof -
  have c: "stops c" "c \<noteq> 46" using assms(3) by (auto simp: stops_def isdigit_def isspace_def word_le_nat_alt)
  note p = aton_parts_dec [OF assms(1,2) c, of 3 t "[]"]
  let ?ws = "map part_word dss"
  have m: "map unat ?ws = map (\<lambda>ds. digits_value 10 ds mod 2 ^ 32) dss"
    by (simp add: part_word_def unsigned_of_nat take_bit_eq_mod)
  have b: "butlast ?ws = map part_word (butlast dss)" "last ?ws = part_word (last dss)" using assms(1)
    by (simp_all add: map_butlast last_map)
  show ?thesis
  proof (cases "length dss \<le> 4 \<and> (\<forall>ds\<in>set (butlast dss). part_word ds \<le> 0xff)")
    case True
    then have "concoct (map (\<lambda>ds. ucast (part_word ds)) (butlast dss)) (part_word (last dss)) = Some (dotted_value (map unat ?ws))"
      using concoct_value [of ?ws] assms(1) b by (simp add: comp_def)
    then show ?thesis using p True assms(3) unfolding m [symmetric] by (auto simp: pr_inet_aton_def)
  next
    case False
    then have "dotted_value (map unat ?ws) = None"
      unfolding dotted_value_def by (auto simp: map_butlast [symmetric] part_byte(2))
    then show ?thesis using p False unfolding m [symmetric] by (auto simp: pr_inet_aton_def)
  qed
qed

section \<open>Printing an IPv4 address\<close>

lemma rd_hex: "d < 16 \<Longrightarrow> rd hex (d mod 16) = Some (hexd d)" "d < 16 \<Longrightarrow> rd hex d = Some (hexd d)"
  by (simp_all add: rd_def hexd_def basis_hex_def hex_def bytes_of_def)

lemma cvt_digits_decs:
  assumes "n < 1000"
  shows "cvt_digits n 10 hex [] = Some (if n = 0 then [] else decs n)"
proof -
  have z: "n div 10 div 10 div 10 = 0" using assms by (simp add: div_mult2_eq [symmetric])
  have e: "n mod 100 div 10 = n div 10 mod 10" using mod_mult2_eq [of n 10 10] by simp
  have l: "n div 10 div 10 < 10" using assms by (simp add: less_mult_imp_div_less)
  have s1: "cvt_digits (n div 10 div 10) 10 hex cvt = Some (if n div 10 div 10 = 0 then cvt else hexd (n div 10 div 10) # cvt)"
    if "length cvt < 100" for cvt
    using that z l by (simp add: cvt_digits.simps [of "n div 10 div 10"] cvt_digits.simps [of 0] rd_hex)
  have s2: "cvt_digits (n div 10) 10 hex cvt = Some (if n div 10 = 0 then cvt else
      (if n div 10 div 10 = 0 then [] else [hexd (n div 10 div 10)]) @ hexd (n div 10 mod 10) # cvt)"
    if "length cvt < 99" for cvt
    using that s1 [of "hexd (n div 10 mod 10) # cvt"] by (simp add: cvt_digits.simps [of "n div 10"] rd_hex less_trans [of _ 10 16] div_mult2_eq [symmetric])
  have s3: "cvt_digits n 10 hex [] = Some (if n = 0 then [] else
      (if n div 10 = 0 then [] else (if n div 10 div 10 = 0 then [] else [hexd (n div 10 div 10)]) @ [hexd (n div 10 mod 10)]) @ [hexd (n mod 10)])"
    using s2 [of "[hexd (n mod 10)]"] by (simp add: cvt_digits.simps [of n] rd_hex less_trans [of _ 10 16])
  have c: "n > 99 \<longleftrightarrow> n div 10 div 10 \<noteq> 0" "n > 9 \<longleftrightarrow> n div 10 \<noteq> 0" "n div 100 = n div 10 div 10"
    by (auto simp: div_mult2_eq [symmetric] div_eq_0_iff)
  show ?thesis unfolding s3 decs_def ddigits_def e c by auto
qed

lemma directive_u:
  fixes native :: "buf \<Rightarrow> 'd \<Rightarrow> buf"
  assumes "rd fmt p = Some 117" "n < 256" "length s < 1000"
  shows "directive native collect text_len None fmt p (VInt (int n) # ap) s = Some (0, s @ decs n, ap, [], p + 1)"
proof -
  have l: "length (decs n) \<le> 3" using ddigits_ok(2) [of n] assms(2) by (simp add: decs_def)
  have t: "TYPE_INTN OR Suc 0 = TYPE_UINTN" "TYPE_INTN OR 1 = TYPE_UINTN" by (simp add: types) code_simp
  have "ddigits 0 = [0]" by (simp add: ddigits_def)
  then have d: "(if (if n = 0 then [] else decs n) = [] then [48] else (if n = 0 then [] else decs n)) = decs n"
    using ddigits_ok(3) [of n] assms(2) basis_values(5) [of 0] by (auto simp: decs_def)
  have c: "convert_int collect (VInt (int n) :: 'd va) 0 (-1) 10 TYPE_UINTN no_flags hex s = Some (0, s @ decs n)"
  proof -
    have "convert_int collect (VInt (int n) :: 'd va) 0 (-1) 10 TYPE_UINTN no_flags hex s = fill_n collect (decs n) (int (length (decs n))) 0 (-1) TYPE_UINTN no_flags s"
      using assms(2) cvt_digits_decs [of n] by (simp add: convert_int_def types cvt_l_def Let_def d)
    also have "\<dots> = Some (0, s @ decs n)"
      using l assms(3) by (simp add: fill_n_def no_flags_def types and_then_def skip_def put_def collect_def)
    finally show ?thesis .
  qed
  have r: "read_flags fmt p no_flags = Some (no_flags, p)" "read_num fmt p 0 = Some (0, p)"
    using assms(1) by (subst read_flags.simps read_num.simps; simp add: digit_def)+
  then show ?thesis using assms(1) c
    by (simp add: directive_def find_arg_def read_width_def read_prec_def read_size_def settle_no_flags convert_def fetch_def convert_arg_def t)
qed

lemma loop_u:
  assumes "rd fmt p = Some 37" "rd fmt (p + 1) = Some 117" "n < 256" "length s < 1000" "q = p + 2"
  shows "dosprintf_loop native collect text_len None fmt p (VInt (int n) # ap) s =
    dosprintf_loop native collect text_len None fmt q ap (s @ decs n)"
proof -
  have "(do { (rv, s, ws') \<leftarrow> X; Some (rv, s, [] @ ws') }) = X" for X :: "(int \<times> buf \<times> (nat \<times> int) list) exec"
    by (cases X) auto
  then show ?thesis
    using assms(1-4) directive_u [OF assms(2-4), of native ap] unfolding assms(5) by (subst dosprintf_loop.simps) simp
qed

lemma loop_dot:
  assumes "rd fmt p = Some 46" "length s < 1000" "q = p + 1"
  shows "dosprintf_loop native collect text_len None fmt p ap s = dosprintf_loop native collect text_len None fmt q ap (s @ [46])"
  using assms(1,2) unfolding assms(3) by (subst dosprintf_loop.simps) (simp add: put_def collect_def)

lemma sprintf_quad:
  fixes native :: "buf \<Rightarrow> 'd \<Rightarrow> buf"
  assumes "n0 < 256" "n1 < 256" "n2 < 256" "n3 < 256"
  shows "sprintf_text text_len mem native (bytes_of ''%u.%u.%u.%u'' @ [0]) [VInt (int n0), VInt (int n1), VInt (int n2), VInt (int n3)] =
    Some (decs n0 @ 46 # decs n1 @ 46 # decs n2 @ 46 # decs n3)"
proof -
  let ?f = "[37, 117, 46, 37, 117, 46, 37, 117, 46, 37, 117, 0] :: buf"
  have f: "bytes_of ''%u.%u.%u.%u'' @ [0] = ?f" by (simp add: bytes_of_def)
  have c: "count_numbered ?f 0 0 False = Some (Some 0)" by code_simp
  have l: "length (decs n) \<le> 3" if "n < 256" for n using ddigits_ok(2) [of n] that by (simp add: decs_def)
  note l = l [OF assms(1)] l [OF assms(2)] l [OF assms(3)] l [OF assms(4)]
  note r = rd_def eval_nat_numeral
  let ?L = "dosprintf_loop native collect text_len None ?f"
  have "?L 0 [VInt (int n0), VInt (int n1), VInt (int n2), VInt (int n3)] [] = ?L 2 [VInt (int n1), VInt (int n2), VInt (int n3)] (decs n0)"
    by (subst loop_u [OF _ _ assms(1), where q = 2]) (simp_all add: rd_def)
  also have "\<dots> = ?L 3 [VInt (int n1), VInt (int n2), VInt (int n3)] (decs n0 @ [46])"
    using l by (subst loop_dot [where q = 3]) (simp_all add: rd_def)
  also have "\<dots> = ?L 5 [VInt (int n2), VInt (int n3)] (decs n0 @ 46 # decs n1)"
    using l by (subst loop_u [OF _ _ assms(2), where q = 5]) (simp_all add: rd_def)
  also have "\<dots> = ?L 6 [VInt (int n2), VInt (int n3)] (decs n0 @ 46 # decs n1 @ [46])"
    using l by (subst loop_dot [where q = 6]) (simp_all add: rd_def)
  also have "\<dots> = ?L 8 [VInt (int n3)] (decs n0 @ 46 # decs n1 @ 46 # decs n2)"
    using l by (subst loop_u [OF _ _ assms(3), where q = 8]) (simp_all add: rd_def)
  also have "\<dots> = ?L 9 [VInt (int n3)] (decs n0 @ 46 # decs n1 @ 46 # decs n2 @ [46])"
    using l by (subst loop_dot [where q = 9]) (simp_all add: rd_def)
  also have "\<dots> = ?L 11 [] (decs n0 @ 46 # decs n1 @ 46 # decs n2 @ 46 # decs n3)"
    using l by (subst loop_u [OF _ _ assms(4), where q = 11]) (simp_all add: rd_def)
  also have "\<dots> = Some (0, (decs n0 @ 46 # decs n1 @ 46 # decs n2 @ 46 # decs n3) @ [0], [])"
    using l by (subst dosprintf_loop.simps) (simp add: rd_def put_def collect_def)
  finally show ?thesis unfolding f by (simp add: sprintf_text_def dosprintf_def BuildArgArray_def c butlast_append)
qed

definition quad_text :: "u32 \<Rightarrow> buf" where
  "quad_text ip = dotted (map (\<lambda>b. ddigits (unat b)) (ip_bytes ip))"

lemma ip_bytes_value: "dotted_value (map unat (ip_bytes ip)) = Some ip"
proof -
  have u: "unat (ucast w :: byte) = unat w mod 256" for w :: u32
    by (simp add: unsigned_ucast_eq unsigned_take_bit_eq take_bit_eq_mod)
  have b: "unat (drop_bit 24 ip) = unat ip div 256 div 256 div 256" "unat (drop_bit 16 ip) = unat ip div 256 div 256" "unat (drop_bit 8 ip) = unat ip div 256"
    by (simp_all add: unat_drop_bit div_mult2_eq [symmetric])
  have "unat ip div 256 div 256 div 256 mod 256 = unat ip div 256 div 256 div 256"
    using unsigned_less [of ip, where ?'a = nat] by (simp add: div_mult2_eq [symmetric] less_mult_imp_div_less)
  moreover have "(x div 256 * 256 + x mod 256) = x" for x :: nat by simp
  ultimately have "((unat (drop_bit 24 ip) mod 256 * 256 + unat (drop_bit 16 ip) mod 256) * 256 + unat (drop_bit 8 ip) mod 256) * 256 + unat ip mod 256 = unat ip"
    unfolding b by metis
  then show ?thesis by (simp add: ip_bytes_def dotted_value_def u)
qed

lemma quad_text_read: "c = 0 \<or> isspace c \<Longrightarrow> pr_inet_aton (quad_text ip @ c # t) = Some (Some ip)"
proof -
  assume c: "c = 0 \<or> isspace c"
  have d: "decimal (ddigits n)" if "n < 256" for n
  proof -
    have "hd (ddigits n) = 0 \<Longrightarrow> ddigits n = [0]"
      by (cases "n > 99"; cases "n > 9") (auto simp: ddigits_def div_eq_0_iff)
    then show ?thesis using ddigits_ok(1,3) [of n] that by (simp add: decimal_def)
  qed
  have v: "digits_value 10 (ddigits (unat b)) mod 2 ^ 32 = unat b" for b :: byte
    using ddigits_ok(4) [of "unat b"] unat_byte_less [of b] by simp
  have "pr_inet_aton (dotted (map (\<lambda>b. ddigits (unat b)) (ip_bytes ip)) @ c # t) =
    Some (dotted_value (map (\<lambda>ds. digits_value 10 ds mod 2 ^ 32) (map (\<lambda>b. ddigits (unat b)) (ip_bytes ip))))"
    using c d unat_byte_less by (intro inet_aton_dec) (auto simp: ip_bytes_def)
  then show ?thesis using v ip_bytes_value [of ip] by (simp add: quad_text_def comp_def)
qed

lemma quad_text_length: "length (quad_text ip) \<le> 15"
proof -
  have l: "length (ddigits (unat b)) \<le> 3" for b :: byte using ddigits_ok(2) [of "unat b"] unat_byte_less [of b] by simp
  show ?thesis using l [of "ucast (drop_bit 24 ip)"] l [of "ucast (drop_bit 16 ip)"] l [of "ucast (drop_bit 8 ip)"] l [of "ucast ip"]
    by (simp add: quad_text_def ip_bytes_def)
qed

lemma sprintf_ip:
  "sprintf_text text_len mem native (bytes_of ''%u.%u.%u.%u'' @ [0]) (map (\<lambda>b. VInt (uint b)) (ip_bytes ip)) = Some (quad_text ip)"
  using sprintf_quad [OF unat_byte_less unat_byte_less unat_byte_less unat_byte_less, of mem native "ucast (drop_bit 24 ip)" "ucast (drop_bit 16 ip)" "ucast (drop_bit 8 ip)" "ucast ip"]
  by (simp add: ip_bytes_def quad_text_def decs_def)

section \<open>The characters of an IPv6 address\<close>

definition v6_alphabet :: "byte set" where
  "v6_alphabet = hexd ` {..<16} \<union> {46, 58}"

lemma v6_alphabet_not: "x \<in> v6_alphabet \<Longrightarrow> x \<noteq> 0 \<and> x \<noteq> 37"
proof -
  have "list_all (\<lambda>d. hexd d \<noteq> 0 \<and> hexd d \<noteq> 37) [0..<16]" by code_simp
  then show "x \<in> v6_alphabet \<Longrightarrow> x \<noteq> 0 \<and> x \<noteq> 37" by (auto simp: v6_alphabet_def list_all_iff)
qed

lemma set_hexs: "set (hexs v) \<subseteq> v6_alphabet"
  using nibs_ok(1) [OF unat_u16_less, of v] by (auto simp: hexs_def v6_alphabet_def)

lemma set_join: "set (join gs) \<subseteq> v6_alphabet"
  by (induction gs rule: join.induct) (use set_hexs in \<open>auto simp: v6_alphabet_def\<close>)

lemma set_decs: "n < 1000 \<Longrightarrow> set (decs n) \<subseteq> v6_alphabet"
proof -
  assume "n < 1000"
  then have "\<forall>d\<in>set (ddigits n). d < 16" using ddigits_ok(1) [of n] by fastforce
  then show "set (decs n) \<subseteq> v6_alphabet" by (auto simp: decs_def v6_alphabet_def)
qed

text \<open>The text begins with a section and a colon, or with a colon.\<close>

lemma v6_chars_shape:
  assumes "length a = 8" "v6_chars a = Some cs"
  shows "set cs \<subseteq> v6_alphabet" "\<exists>ds t. cs = map hexd ds @ 58 # t \<and> (\<forall>d\<in>set ds. d < 16)"
proof -
  obtain colon len where c: "colon_scan a 0 None 1 = Some (colon, len)" "\<forall>d. colon = Some d \<longrightarrow> 2 \<le> len \<and> zeros a d len"
    using colon_scan_ok [OF assms(1), of None 1 0] by auto
  have w: "rd a 5 = Some (a ! 5)" using assms by (simp add: rd_ok)
  have hj: "\<exists>ds t. join gs @ 58 # r = map hexd ds @ 58 # t \<and> (\<forall>d\<in>set ds. d < 16)" for gs r
  proof (cases gs rule: join.cases)
    case 1
    then show ?thesis by (simp, intro exI [of _ "[] :: nat list"] exI [of _ r]) simp
  next
    case (2 g)
    then show ?thesis using nibs_ok(1) [OF unat_u16_less, of g] by (auto simp: hexs_def)
  next
    case (3 g h gs')
    then show ?thesis using nibs_ok(1) [OF unat_u16_less, of g] by (auto simp: hexs_def)
  qed
  have "set cs \<subseteq> v6_alphabet \<and> (\<exists>ds t. cs = map hexd ds @ 58 # t \<and> (\<forall>d\<in>set ds. d < 16))"
  proof (cases "colon = Some 0 \<and> (len = 6 \<or> len = 5 \<and> a ! 5 = 0xffff)")
    case True
    then have v: "v4_chars a len = Some cs" using assms(2) c(1) w by (simp add: v6_chars_def)
    have "(102 :: byte) = hexd 15" by (simp add: hexd_def basis_hex_def bytes_of_def)
    then have m: "(102 :: byte) \<in> v6_alphabet" "(46 :: byte) \<in> v6_alphabet" "(58 :: byte) \<in> v6_alphabet"
      by (auto simp: v6_alphabet_def)
    have dc: "set (dec_chars b) \<subseteq> v6_alphabet" for b
      using set_decs [of "unat b"] unat_byte_less [of b] by (simp add: dec_chars_eq)
    have "set cs \<subseteq> v6_alphabet" using v get_bytes_67 [OF assms(1)] m dc
      by (cases "len = 5") (auto simp: v4_chars_def dest: subsetD [OF dc])
    moreover have "\<exists>t. cs = 58 # t" using v get_bytes_67 [OF assms(1)] by (auto simp: v4_chars_def)
    ultimately show ?thesis by (auto intro: exI [of _ "[]"])
  next
    case False
    then have s: "section_chars a colon len 0 = Some cs" using assms(2) c(1) w by (auto simp: v6_chars_def)
    show ?thesis
    proof (cases colon)
      case None
      then have cs: "cs = join a" using section_plain [OF assms(1), of 0 None len] s by simp
      obtain g h gs where a: "a = g # h # gs" using assms(1) by (cases a; cases "tl a") auto
      show ?thesis using set_join [of a] nibs_ok(1) [OF unat_u16_less, of g] unfolding cs by (auto simp: a hexs_def)
    next
      case (Some d)
      then have cs: "cs = join (take d a) @ 58 # 58 # join (drop (d + len) a)"
        using section_colon [OF assms(1), of 0 d len] s c(2) by (simp add: zeros_def)
      show ?thesis using set_join hj unfolding cs by (auto simp: v6_alphabet_def)
    qed
  qed
  then show "set cs \<subseteq> v6_alphabet" "\<exists>ds t. cs = map hexd ds @ 58 # t \<and> (\<forall>d\<in>set ds. d < 16)" by blast+
qed

text \<open>Such a text is not an IPv4 number.\<close>

lemma aton_digits_colon:
  assumes "\<forall>d\<in>set ds. d < 16" "radix = 8 \<or> radix = 10"
  shows "\<exists>r. aton_digits radix (map hexd ds @ 58 # t) val seen = Some r \<and>
    (case r of None \<Rightarrow> True | Some (v, sn, cp) \<Rightarrow> rd cp 0 \<noteq> None \<and> (\<forall>c. rd cp 0 = Some c \<longrightarrow> c \<noteq> 0 \<and> c \<noteq> 46 \<and> \<not> isspace c))"
  using assms(1)
proof (induction ds arbitrary: val seen)
  case Nil
  have "rd index_hex 58 = Some XX" by code_simp
  then show ?case using assms(2) by (auto simp: isdigit_def isxdigit_def isspace_def)
next
  case (Cons d ds)
  have sp: "\<not> isspace (hexd d)"
  proof -
    have "list_all (\<lambda>d. \<not> isspace (hexd d)) [0..<16]" by code_simp
    then show ?thesis using Cons(2) by (auto simp: list_all_iff)
  qed
  show ?case
  proof (cases "isdigit (hexd d)")
    case True
    then show ?thesis using Cons by simp
  next
    case False
    then show ?thesis using assms(2) sp basis_values(2,4) [of d] Cons(2) by (auto simp: isxdigit_def)
  qed
qed

lemma inet_aton_colon:
  assumes "\<forall>d\<in>set ds. d < 16"
  shows "pr_inet_aton (map hexd ds @ 58 # t) = Some None"
proof -
  have n: "\<exists>r. aton_number (map hexd ds @ 58 # t) = Some r \<and>
    (case r of None \<Rightarrow> True | Some (v, sn, cp) \<Rightarrow> rd cp 0 \<noteq> None \<and> (\<forall>c. rd cp 0 = Some c \<longrightarrow> c \<noteq> 0 \<and> c \<noteq> 46 \<and> \<not> isspace c))"
  proof (cases ds)
    case Nil
    then show ?thesis by (simp add: aton_number_def isdigit_def)
  next
    case (Cons d es)
    have x: "hexd e \<noteq> 120 \<and> hexd e \<noteq> 88" if "e < 16" for e
    proof -
      have "list_all (\<lambda>e. hexd e \<noteq> 120 \<and> hexd e \<noteq> 88) [0..<16]" by code_simp
      then show ?thesis using that by (auto simp: list_all_iff)
    qed
    have y: "rd (map hexd es @ 58 # t) 0 \<noteq> None" "rd (map hexd es @ 58 # t) 0 \<noteq> Some 120" "rd (map hexd es @ 58 # t) 0 \<noteq> Some 88"
      using x [of "hd es"] assms Cons by (cases es; simp)+
    obtain e where e: "rd (map hexd es @ 58 # t) 0 = Some e" using y(1) by blast
    show ?thesis
    proof (cases "isdigit (hexd d)")
      case False
      then show ?thesis by (simp add: Cons aton_number_def)
    next
      case True
      show ?thesis
      proof (cases "hexd d = 48")
        case z: True
        then show ?thesis using True e y(2,3) aton_digits_colon [of es 8 t 0 True] assms Cons by (simp add: aton_number_def)
      next
        case False
        then show ?thesis using True aton_digits_colon [of ds 10 t 0 False] assms Cons by (simp add: aton_number_def)
      qed
    qed
  qed
  then obtain r where r: "aton_number (map hexd ds @ 58 # t) = Some r"
    "case r of None \<Rightarrow> True | Some (v, sn, cp) \<Rightarrow> rd cp 0 \<noteq> None \<and> (\<forall>c. rd cp 0 = Some c \<longrightarrow> c \<noteq> 0 \<and> c \<noteq> 46 \<and> \<not> isspace c)" by blast
  show ?thesis
  proof (cases r)
    case None
    then show ?thesis using r(1) by (simp add: pr_inet_aton_def aton_parts.simps)
  next
    case (Some q)
    obtain v sn cp where q: "q = (v, sn, cp)" by (cases q) auto
    then show ?thesis using r Some by (auto simp: pr_inet_aton_def aton_parts.simps [of 3])
  qed
qed

section \<open>Properties\<close>

text \<open>What a reader of the text gets back: the family and the address. Port and scope are not in the text.\<close>

definition same_addr :: "PRNetAddr \<Rightarrow> PRNetAddr \<Rightarrow> bool" where
  "same_addr a b \<longleftrightarrow> na_family a = na_family b \<and>
     (if na_family a = PR_AF_INET6 then na_ip6 a = na_ip6 b else na_ip a = na_ip b)"

definition text_ok :: "PRNetAddr \<Rightarrow> buf \<Rightarrow> bool" where
  "text_ok a s \<longleftrightarrow> has_nul s \<and> s ! 0 \<noteq> 0 \<and> 37 \<notin> set (cstr s) \<and>
     (\<forall>b. length (na_ip6 b) = 8 \<longrightarrow> (\<exists>a'. pr_StringToNetAddrFB s b = Some (NET_SUCCESS, None, a') \<and> same_addr a' a))"

lemma families [simp]: "PR_AF_INET \<noteq> PR_AF_INET6" "PR_AF_INET6 \<noteq> PR_AF_INET"
  by (simp_all add: PR_AF_INET_def PR_AF_INET6_def)

lemma v6_text_ok:
  assumes "na_family a = PR_AF_INET6" "length (na_ip6 a) = 8" "v6_chars (na_ip6 a) = Some cs"
  shows "text_ok a (cs @ 0 # t)"
proof -
  note sh = v6_chars_shape [OF assms(2,3)]
  obtain ds r where ds: "cs = map hexd ds @ 58 # r" "\<forall>d\<in>set ds. d < 16" using sh(2) by blast
  have nz: "x \<noteq> 0 \<and> x \<noteq> 37" if "x \<in> set cs" for x using v6_alphabet_not sh(1) that by blast
  have "cs \<noteq> []" using ds(1) by simp
  then have "(cs @ 0 # t) ! 0 \<noteq> 0" using nz by (cases cs) auto
  moreover have "37 \<notin> set (cstr (cs @ 0 # t))" using nz by (auto simp: cstr_def dest: set_takeWhileD)
  moreover have "pr_inet_aton (cs @ 0 # t) = Some None" using inet_aton_colon [OF ds(2), of "r @ 0 # t"] ds(1) by simp
  moreover have "StringToV6Addr (cs @ 0 # t) ip6 = Some (True, na_ip6 a)" if "length ip6 = 8" for ip6
    using v6_chars_ok [OF assms(2)] assms(3) that by auto
  ultimately show ?thesis using assms(1)
    by (simp add: text_ok_def has_nul_def pr_StringToNetAddrFB_def same_addr_def)
qed

lemma quad_text_head: "\<exists>c r. quad_text ip = c # r \<and> c \<noteq> 0" "37 \<notin> set (cstr (quad_text ip @ 0 # t))"
proof -
  have d: "ddigits (unat b) \<noteq> []" "set (map hexd (ddigits (unat b))) \<subseteq> v6_alphabet" for b :: byte
    using ddigits_ok(3) [of "unat b"] set_decs [of "unat b"] unat_byte_less [of b] by (auto simp: decs_def)
  have "set (quad_text ip) \<subseteq> v6_alphabet" using d(2) by (auto simp: quad_text_def ip_bytes_def v6_alphabet_def)
  then have nz: "x \<noteq> 0 \<and> x \<noteq> 37" if "x \<in> set (quad_text ip)" for x using v6_alphabet_not that by blast
  have "quad_text ip \<noteq> []" by (simp add: quad_text_def ip_bytes_def)
  then show "\<exists>c r. quad_text ip = c # r \<and> c \<noteq> 0" using nz by (cases "quad_text ip") auto
  show "37 \<notin> set (cstr (quad_text ip @ 0 # t))" using nz by (auto simp: cstr_def dest: set_takeWhileD)
qed

lemma quad_text_ok:
  assumes "na_family a = PR_AF_INET"
  shows "text_ok a (quad_text (na_ip a) @ 0 # t)"
  using quad_text_read [of 0 "na_ip a" t] quad_text_head(1) [of "na_ip a"] quad_text_head(2) [of "na_ip a" t] assms
  by (auto simp: text_ok_def has_nul_def pr_StringToNetAddrFB_def same_addr_def)

lemma printed_text_ok:
  assumes "na_family a = PR_AF_INET6 \<and> length (na_ip6 a) = 8 \<and> 40 \<le> unat n \<or> na_family a = PR_AF_INET \<and> 16 \<le> unat n"
    "0 < sint n" "unat n \<le> length b"
  shows "\<exists>s. pr_NetAddrToStringFB mem native a b n = Some (NET_SUCCESS, None, s) \<and> text_ok a s"
  using assms(1)
proof
  assume f: "na_family a = PR_AF_INET6 \<and> length (na_ip6 a) = 8 \<and> 40 \<le> unat n"
  then obtain cs where cs: "v6_chars (na_ip6 a) = Some cs" "length cs \<le> 39" using v6_chars_ok by blast
  have "pr_NetAddrToStringFB mem native a b n = Some (NET_SUCCESS, None, overlay b 0 (cs @ [0]))"
    using V6AddrToString_ok [OF cs(1) assms(3)] f cs(2) by (simp add: pr_NetAddrToStringFB_def)
  moreover have "text_ok a (overlay b 0 (cs @ [0]))"
    using v6_text_ok [OF _ _ cs(1)] f by (simp add: overlay_def)
  ultimately show ?thesis by blast
next
  assume f: "na_family a = PR_AF_INET \<and> 16 \<le> unat n"
  have n: "\<not> n < 16" using f by (simp add: word_less_nat_alt)
  obtain ws where "PR_snprintf mem native b n (bytes_of ''%u.%u.%u.%u'' @ [0]) (map (\<lambda>b. VInt (uint b)) (ip_bytes (na_ip a))) =
      Some (word_of_nat (min (length (quad_text (na_ip a))) (unat n - 1)), overlay b 0 (take (unat n - 1) (quad_text (na_ip a)) @ [0]), ws)"
    using snprintf_text [OF sprintf_ip assms(2,3)] by blast
  moreover have "take (unat n - 1) (quad_text (na_ip a)) = quad_text (na_ip a)"
    using quad_text_length [of "na_ip a"] f by (intro take_all) linarith
  ultimately have "pr_NetAddrToStringFB mem native a b n = Some (NET_SUCCESS, None, overlay b 0 (quad_text (na_ip a) @ [0]))"
    using f n by (simp add: pr_NetAddrToStringFB_def)
  moreover have "text_ok a (overlay b 0 (quad_text (na_ip a) @ [0]))"
    using quad_text_ok f by (simp add: overlay_def)
  ultimately show ?thesis by blast
qed

lemma text_ok_read:
  assumes "text_ok a s" "length (na_ip6 b) = 8"
  shows "\<exists>a'. PR_StringToNetAddr gai probe present (Some s) (Some b) = Some (NET_SUCCESS, None, Some a') \<and> same_addr a' a"
proof -
  obtain a' where "pr_StringToNetAddrFB s b = Some (NET_SUCCESS, None, a')" "same_addr a' a"
    using assms by (auto simp: text_ok_def)
  then show ?thesis using assms(1) rd_has_nul [of s] by (simp add: text_ok_def PR_StringToNetAddr_def)
qed

text \<open>C38: An address that \<open>PR_NetAddrToString\<close> prints is read back by \<open>PR_StringToNetAddr\<close> as the same address, whatever
  the address variable held, for every IPv4 address and a buffer of at least 16 bytes and every IPv6 address and one of
  at least 40.\<close>

theorem net_addr_roundtrip:
  assumes "na_family a = PR_AF_INET6 \<and> length (na_ip6 a) = 8 \<and> 40 \<le> unat n \<or> na_family a = PR_AF_INET \<and> 16 \<le> unat n"
    and "0 < sint n" "unat n \<le> length b" "length (na_ip6 c) = 8"
  shows "\<exists>s a'. PR_NetAddrToString gni True mem native a b n = Some (NET_SUCCESS, None, s) \<and>
    PR_StringToNetAddr gai probe present (Some s) (Some c) = Some (NET_SUCCESS, None, Some a') \<and> same_addr a' a"
proof -
  obtain s where "pr_NetAddrToStringFB mem native a b n = Some (NET_SUCCESS, None, s)" "text_ok a s"
    using printed_text_ok [OF assms(1-3)] by blast
  then show ?thesis using text_ok_read [OF _ assms(4)] by (simp add: PR_NetAddrToString_def)
qed

definition sample_addr :: PRNetAddr where
  "sample_addr = \<lparr>na_family = PR_AF_INET6, na_port = 80, na_ip = 0, na_ip6 = [0x2001, 0xdb8, 0, 0, 1, 0, 0, 0x2f], na_scope = 0\<rparr>"

lemma net_addr_roundtrip_witness:
  "\<exists>s a'. PR_NetAddrToString (\<lambda>_ s _. (NET_FAILURE, None, s)) True (\<lambda>_. True) (\<lambda>f (d :: unit). f) sample_addr (replicate 64 0) 64 =
      Some (NET_SUCCESS, None, s) \<and>
    PR_StringToNetAddr (\<lambda>_ a. (NET_FAILURE, None, a)) True False (Some s) (Some sample_addr) = Some (NET_SUCCESS, None, Some a') \<and>
    same_addr a' sample_addr"
proof (rule net_addr_roundtrip)
  show "0 < sint (64 :: u32)" by code_simp
qed (simp_all add: sample_addr_def)

text \<open>C39: Every string that ends in a NUL is read without leaving the string or the address: the result is success with
  the family set, or failure with an error and the family as it was.\<close>

theorem net_addr_parse_total:
  assumes "has_nul s" "length (na_ip6 a) = 8"
  shows "\<exists>st e a'. pr_StringToNetAddrFB s a = Some (st, e, a') \<and> length (na_ip6 a') = 8 \<and>
    (if st = NET_SUCCESS then e = None \<and> na_family a' \<in> {PR_AF_INET, PR_AF_INET6}
     else e = Some PR_INVALID_ARGUMENT_ERROR \<and> na_family a' = na_family a)"
proof -
  obtain r where r: "pr_inet_aton s = Some r" using pr_inet_aton_total [OF assms(1)] by blast
  obtain ok ip6 where p: "StringToV6Addr s (na_ip6 a) = Some (ok, ip6)" "length ip6 = 8"
    using StringToV6Addr_total [OF assms] by (metis prod.collapse)
  show ?thesis using r p assms(2) by (cases r; cases ok) (simp_all add: pr_StringToNetAddrFB_def)
qed

lemma net_addr_parse_total_witness:
  "\<exists>st e a'. pr_StringToNetAddrFB (bytes_of ''1::2:'' @ [0]) sample_addr = Some (st, e, a') \<and> length (na_ip6 a') = 8 \<and>
    (if st = NET_SUCCESS then e = None \<and> na_family a' \<in> {PR_AF_INET, PR_AF_INET6}
     else e = Some PR_INVALID_ARGUMENT_ERROR \<and> na_family a' = na_family sample_addr)"
  by (rule net_addr_parse_total) (simp_all add: has_nul_def sample_addr_def)

text \<open>C40: \<open>pr_inet_aton\<close> on decimal parts: each part but the last is a byte from the top, the last part fills the rest, and
  a part that is too large or a fifth part is an error. A part is taken modulo \<open>2 ^ 32\<close> first, and what follows the
  number after a white-space character does not matter.\<close>

theorem inet_aton_decimal:
  assumes "dss \<noteq> []" "\<forall>ds\<in>set dss. decimal ds" "c = 0 \<or> isspace c"
  shows "pr_inet_aton (dotted dss @ c # t) = Some (dotted_value (map (\<lambda>ds. digits_value 10 ds mod 2 ^ 32) dss))"
  by (rule inet_aton_dec [OF assms])

text \<open>\<open>1.2.4294967299\<close>, and something after it, is taken for 1.2.0.3.\<close>

lemma inet_aton_decimal_witness:
  "pr_inet_aton (dotted [[1], [2], [4,2,9,4,9,6,7,2,9,9]] @ 32 # [120, 0]) = Some (Some 0x01020003)"
  by (subst inet_aton_decimal) (simp_all add: decimal_def isspace_def dotted_value_def digits_value_def)

text \<open>Setting an address to one of the two special values makes it of that type and of no other; the IPv6 form of an
  IPv4 address is of the mapped type, and of the type of the IPv4 address.\<close>

lemma net_addr_types:
  assumes "val = PR_IpAddrAny \<or> val = PR_IpAddrLoopback" "af = PR_AF_INET \<or> af = PR_AF_INET6"
  shows "\<exists>a'. PR_SetNetAddr val af port a = (NET_SUCCESS, None, a') \<and> na_port a' = port \<and> na_family a' = af \<and>
    (\<forall>v. PR_IsNetAddrType a' v \<longleftrightarrow> v = val)"
proof -
  have e: "IS_ADDR_UNSPECIFIED pr_in6addr_any" "\<not> IS_ADDR_LOOPBACK pr_in6addr_any" "\<not> IS_ADDR_V4MAPPED pr_in6addr_any"
    "\<not> IS_ADDR_UNSPECIFIED pr_in6addr_loopback" "IS_ADDR_LOOPBACK pr_in6addr_loopback" "\<not> IS_ADDR_V4MAPPED pr_in6addr_loopback"
    by code_simp+
  have "INADDR_ANY \<noteq> INADDR_LOOPBACK" by (simp add: INADDR_ANY_def INADDR_LOOPBACK_def)
  then show ?thesis using assms e
    by (elim disjE; auto simp: PR_SetNetAddr_def inet_value_def PR_IsNetAddrType_def Let_def clear_ipv6_def clear_inet_def)
qed

lemma v4_mapped:
  "IS_ADDR_V4MAPPED (PR_ConvertIPv4AddrToIPv6 ip)" "V4MAPPED_TO_IPADDR (PR_ConvertIPv4AddrToIPv6 ip) = ip"
proof -
  have r: "replicate 5 0 = [0, 0, 0, 0, 0 :: u16]" "replicate 4 0 = [0, 0, 0, 0 :: u16]" by code_simp+
  show "IS_ADDR_V4MAPPED (PR_ConvertIPv4AddrToIPv6 ip)"
    by (simp add: IS_ADDR_V4MAPPED_def PR_ConvertIPv4AddrToIPv6_def get_byte_def rd_def r)
  show "V4MAPPED_TO_IPADDR (PR_ConvertIPv4AddrToIPv6 ip) = ip"
    by (rule bit_word_eqI) (auto simp: V4MAPPED_TO_IPADDR_def PR_ConvertIPv4AddrToIPv6_def bit_simps r)
qed

end
