(* ===== verification/Spec2Isabelle.thy ===== *)
theory Spec2Isabelle
  imports Moz_Base64 Moz_Hash Moz_TimeFormat Moz_Strings Moz_Arena Moz_GetOpt Moz_Utf8 Moz_RC2 Moz_DerTime Moz_NssEncode Moz_NetAddr
begin

text \<open>
  A verification development for the C core of mozilla-central: the portable runtime NSPR (\<open>src/nsprpub\<close>) and the
  utilities, the base64 encoder and one cipher of NSS (\<open>src/security/nss\<close>), which rests on NSPR.

  \<^bold>\<open>The machine\<close> (\<open>Moz_Prelude\<close>). A C object in memory is a list of bytes, an access outside it is undefined and the value
  \<open>None\<close> of the type \<open>exec\<close>; a theorem that a call is \<open>Some r\<close> therefore says that it returns and that it
  runs without an access out of bounds. Null pointers are \<open>None\<close> of \<open>ptr\<close>. Unsigned integers are words of their
  width; signed ones are \<open>int\<close> with the wrap of each store written out (\<open>i8\<close> to \<open>i64\<close>). The target has
  64-bit pointers. \<open>malloc\<close> and everything else of the operating system or the C library is an argument of the definitions
  that use it. Loops that may not end are partial functions or carry the number of rounds; those are proved to end.

  \<^bold>\<open>The parts, and how they build on each other\<close>

  \<^item> \<open>Moz_Bits\<close> (\<open>pr/include/prbit.h\<close>, \<open>pr/src/misc/prlog2.c\<close>): logarithms and rotations. The
    logarithm is shown to be the least or greatest exponent that it is meant to be; hash table and arena use it.
  \<^item> \<open>Moz_Base64\<close> (\<open>lib/libc/src/base64.c\<close>): encoder and decoder with their buffers, against a reference on lists:
    bounds, exactness of what is accepted, round trip.
  \<^item> \<open>Moz_Hash\<close> (\<open>lib/ds/plhash.c\<close>): the chained table with its growing, shrinking and moving to the front. A state
    is the bucket vector with the pool of the client's callbacks; \<open>ht_inv\<close> is its invariant and \<open>ht_map\<close> the
    finite map it stands for, which every operation updates as its name says. The locale \<open>hash_keys\<close> is what the table asks
    of the client's hash and comparison (interpreted on \<open>PL_HashString\<close>), \<open>assoc_table\<close> what it offers
    (derived from the first by a \<open>sublocale\<close>). The
    refinement covers up to \<open>2 ^ 30\<close> entries, where the bucket count and the counter cannot overflow.
  \<^item> \<open>Moz_Time\<close>, \<open>Moz_TimeParse\<close>, \<open>Moz_TimeFormat\<close> (\<open>pr/src/misc/prtime.c\<close>): the calendar with
    \<open>PR_ExplodeTime\<close>, \<open>PR_ImplodeTime\<close> and \<open>PR_NormalizeTime\<close>; the time zones (locale \<open>time_zone\<close>,
    interpreted on GMT and on US Pacific time); the parser of time strings, whose 1000 rounds the source fixes itself and which
    is total on every string, for GMT and, where the C library keeps to the calendar, for local time; printing, which goes through the formatted output below. The calendar is right for the years 1 to
    32767; what it does outside is in \<open>time_calendar_limits\<close>.
  \<^item> \<open>Moz_Strings\<close> (\<open>lib/libc/src/str*.c\<close>): the string functions against list functions. The locale
    \<open>text_search\<close> gives the four exact and the four case-blind searches at once.
  \<^item> \<open>Moz_Arena\<close> (\<open>lib/ds/plarena.c\<close>, \<open>plarena.h\<close>): pools of arenas with the global free list as the state.
    \<open>pool_ok\<close> is the invariant and \<open>granted\<close> the contract of an allocation; the locale
    \<open>region_allocator\<close> derives from it that blocks never overlap. Addresses lie below \<open>2 ^ 63\<close> and a request may
    not wrap the 32-bit sum of the code; what happens when it does is in \<open>arena_broken_promises\<close>.
  \<^item> \<open>Moz_Printf\<close> (\<open>pr/src/io/prprf.c\<close>, \<open>prstdio.c\<close>): \<open>dosprintf\<close> over a sink. The text of a
    format is what an unbounded sink collects; the locale \<open>sink_refinement\<close> says when another sink follows it and is
    interpreted on the three sinks of the code: a fixed buffer, a growing block, a function. Texts are shorter than \<open>2 ^ 30\<close>;
    widths and precisions in the round trip of integers are at most \<open>10 ^ 9\<close>.
  \<^item> \<open>Moz_GetOpt\<close> (\<open>lib/libc/src/plgetopt.c\<close>): the option parser as a state machine over positions, refining a parser of
    argument lists into tokens (locale \<open>token_source\<close>). Option strings are shorter than \<open>2 ^ 31\<close>.
  \<^item> \<open>Moz_Sec\<close> (\<open>seccomon.h\<close>, \<open>secport.c\<close> of \<open>nss/lib/util\<close>): status, items, error state and
    allocation, shared by the NSS parts.
  \<^item> \<open>Moz_Utf8\<close> (\<open>nss/lib/util/utf8.c\<close>): the converters between UTF-8, UCS-4, UTF-16 and ISO 8859-1, against the
    definition of well-formed text. The locale \<open>utf8_sink\<close> is what the two targets share. Inputs are shorter than
    \<open>2 ^ 30\<close> bytes (\<open>2 ^ 29\<close> for UTF-16), so that no length wraps.
  \<^item> \<open>Moz_RC2\<close> (\<open>nss/lib/freebl/alg2268.c\<close>): key schedule, block cipher, ECB and CBC in one memory, so that input and
    output may be the same block. The locale \<open>block_loop\<close> is interpreted on the four loops; the modes are
    written once more over octets, as the reference for the two calls. Inputs are shorter than
    \<open>2 ^ 32\<close>.
  \<^item> \<open>Moz_DerTime\<close> (\<open>nss/lib/util/dertime.c\<close>, \<open>sectime.c\<close>): the two time types of ASN.1, written and read through
    the calendar. The reference is a grammar of texts with the moment each stands for; the decoders accept exactly its texts, the
    encoders write one for every moment of their years (1950 to 2049, and 1 to 9999), and the choice of the type is a round trip.
    A text of the grammar followed by other bytes is refused only after its moment has been stored (\<open>der_trailing_bytes\<close>).
  \<^item> \<open>Moz_NssEncode\<close> (\<open>nss/lib/util/nssb64e.c\<close>): the streaming base64 encoder, its version for one buffer and the
    calls of NSS over both. The reference is a list of tokens of four characters broken into lines, over the same encoding of
    three bytes as in \<open>Moz_Base64\<close>; the locale \<open>token_writer\<close> is what the loop asks of the place that tokens go
    to, interpreted on the client's function and on a buffer. A piece is shorter than \<open>2 ^ 32 - 2\<close> bytes; beyond that the
    code's sums wrap around.
  \<^item> \<open>Moz_NetAddr\<close> (\<open>pr/src/misc/prnetdb.c\<close>, \<open>praton.c\<close>): network addresses as text and their special
    values. Printing and parsing are inverse for every IPv4 and IPv6 address, printing goes through \<open>PR_snprintf\<close> for
    IPv4, and parsing is total on every terminated string.

  \<^bold>\<open>How to read a theory.\<close> First the definitions, in the order of the code and under its names (parts of a large function
  that stand on their own, such as a loop, have a name of ours and are composed as the code composes them); then the reference
  definitions; then lemmas from the parts to the whole; the properties last, each with its number and, where it has hypotheses,
  with a concrete instance after it. What the code does wrong is stated as a theorem too (for example
  \<open>utf8_defects\<close>, \<open>parse_misreadings\<close>, \<open>printf_format_errors\<close>, \<open>der_time_oddities\<close>).

  \<^bold>\<open>Not modelled.\<close> Input and output, sockets, threads and locks of NSPR and everything that only wraps the platform (their
  behaviour is that of the operating system); \<open>prdtoa.c\<close> and \<open>prscanf.c\<close> (floating point); the resolver part of
  \<open>prnetdb.c\<close>; the rest of NSS; the vendored libraries (SQLite, zlib, cairo, WebRTC, usrsctp, dbm); the parts in C++
  (layout, DOM, networking, XPCOM, the JavaScript engine); generated tables, builds and tests. Of the modelled files only the
  branches for other platforms, statistics and self-tests, and functions that only call \<open>free\<close>, are left out, as are the
  checks of \<open>PR_ParseTimeStringToExplodedTime\<close> for null arguments, the lock and the \<open>THREADMARK\<close> branch of
  \<open>PORT_ArenaAlloc\<close>, and the implicit initialization of NSPR. Freeing a block of an arena that is not allocated changes
  nothing in the model. Signed sums in \<open>PR_NormalizeTime\<close> wrap around, where C leaves them undefined; within the stated
  ranges they do not. The decoder \<open>nssb64d.c\<close> of NSS is not modelled.
\<close>

end
